(* ===== verification/Prelude.thy ===== *)
theory Prelude
  imports "HOL-Library.Word" "HOL-Library.List_Lexorder"
begin

text \<open>
  Shared vocabulary of the MiniKV development: the machine integer types, byte strings with the
  bytewise order of \<open>std::string\<close>, the limits of the fixed-width types, decimal printing as
  \<open>std::to_string\<close> does it, the theorem collections the component theories extend, and the
  list and word lemmas they share.
\<close>

unbundle bit_operations_syntax

section \<open>Types and limits\<close>

type_synonym u8 = "8 word"
type_synonym u16 = "16 word"
type_synonym u32 = "32 word"
type_synonym u64 = "64 word"

text \<open>
  A \<open>std::string\<close> that holds data (a key, a value, an encoded file) is a list of bytes. The
  order on byte lists is the lexicographic one of \<open>List_Lexorder\<close> over unsigned bytes, a proper
  prefix being smaller: the order of \<open>std::string::compare\<close>, whose \<open>char_traits<char>::lt\<close>
  compares as \<open>unsigned char\<close>. Human-readable messages are HOL \<open>string\<close>s.
\<close>

type_synonym byte = u8
type_synonym bytes = "byte list"

abbreviation u32_max :: nat where "u32_max \<equiv> 4294967295"
abbreviation u64_max :: nat where "u64_max \<equiv> 18446744073709551615"

text \<open>On the supported 64-bit Linux targets \<open>std::size_t\<close> is a 64-bit type.\<close>

abbreviation size_max :: nat where "size_max \<equiv> u64_max"

text \<open>\<^verbatim>\<open>std::string_view::substr(pos, n)\<close> and \<^verbatim>\<open>substr(pos)\<close> for \<open>pos \<le> size()\<close>.\<close>

definition substr :: "bytes \<Rightarrow> nat \<Rightarrow> nat \<Rightarrow> bytes" where
  "substr xs pos n = take n (drop pos xs)"

abbreviation (input) substr_from :: "bytes \<Rightarrow> nat \<Rightarrow> bytes" where
  "substr_from xs pos \<equiv> drop pos xs"

text \<open>ASCII text as bytes, for the magic numbers of the file formats.\<close>

definition ascii :: "string \<Rightarrow> bytes" where
  "ascii s = map (\<lambda>c. word_of_nat (of_char c)) s"

section \<open>Theorem collections\<close>

text \<open>
  \<open>codec_simps\<close>: rewriting of encoders to appended fixed-width fields and of decoders at known
  offsets. \<open>width_simps\<close>: lengths of encodings.
\<close>

named_theorems codec_simps
named_theorems width_simps

section \<open>Lists\<close>

lemma length_ascii [simp, width_simps]: "length (ascii s) = length s"
  by (simp add: ascii_def)

lemma length_substr [simp]: "length (substr xs pos n) = min n (length xs - pos)"
  by (simp add: substr_def)

lemma substr_append_right: "length xs = pos \<Longrightarrow> substr (xs @ ys) pos n = take n ys"
  by (simp add: substr_def)

lemma substr_0: "substr xs 0 n = take n xs"
  by (simp add: substr_def)

lemma take_append_exact: "length xs = n \<Longrightarrow> take n (xs @ ys) = xs"
  by simp

lemma drop_append_exact: "length xs = n \<Longrightarrow> drop n (xs @ ys) = ys"
  by simp

lemma split_at_two: "xs = take a xs @ take b (drop a xs) @ drop (a + b) xs"
  by (metis append_take_drop_id drop_drop add.commute)

lemma take_one_drop: "k < length xs \<Longrightarrow> take 1 (drop k xs) = [xs ! k]"
  by (simp add: take_Suc_conv_app_nth)

lemma nth_eq_imp_list_update:
  assumes "length xs = length ys" and "i < length xs"
    and "\<And>j. j < length xs \<Longrightarrow> j \<noteq> i \<Longrightarrow> xs ! j = ys ! j"
  shows "ys = xs[i := ys ! i]"
  by (rule nth_equalityI) (use assms in \<open>auto simp: nth_list_update\<close>)

lemma field_update:
  assumes "i < off \<or> off + n \<le> i"
  shows "take n (drop off (xs[i := b])) = take n (drop off xs)"
  using assms by (cases "i < off") (simp_all add: drop_update_cancel drop_update_swap)

lemma changed_field:
  assumes "i < length xs" and "b \<noteq> xs ! i" and "off \<le> i" and "i < off + n"
  shows "take n (drop off (xs[i := b])) \<noteq> take n (drop off xs)"
proof -
  obtain j where "i = off + j" "j < n"
    using assms(3,4) by (intro that [of "i - off"]) auto
  then have "take n (drop off (xs[i := b])) ! j = b" "take n (drop off xs) ! j = xs ! i"
    using assms(1) by simp_all
  then show ?thesis
    using assms(2) by metis
qed

lemma last_take_Suc: "n < length xs \<Longrightarrow> last (take (Suc n) xs) = xs ! n"
  by (simp add: take_Suc_conv_app_nth)

lemma sorted_wrt_less_distinct: "sorted_wrt (<) (xs :: 'a::order list) \<Longrightarrow> distinct xs"
  by (induction xs) auto

lemma sorted_last_less:
  assumes "sorted_wrt (<) (xs :: 'a::order list)" and "xs \<noteq> []" and "last xs < y" and "x \<in> set xs"
  shows "x < y"
proof -
  have "x = last xs \<or> x < last xs"
    using assms(1,2,4) by (induction xs) auto
  then show ?thesis
    using assms(3) by auto
qed

lemma sorted_hd_le:
  assumes "sorted_wrt (<) (xs :: 'a::order list)" and "x \<in> set xs"
  shows "hd xs \<le> x"
  using assms by (cases xs) (auto intro: less_imp_le)

lemma sorted_le_last:
  assumes "sorted_wrt (<) (xs :: 'a::order list)" and "x \<in> set xs"
  shows "x \<le> last xs"
  using assms by (induction xs) (auto intro: less_imp_le)

section \<open>Words\<close>

lemma unat_lt_u64: "unat (x :: u64) \<le> u64_max"
  using unsigned_less [of x, where 'a = nat] by simp

lemma unat_lt_u32: "unat (x :: u32) \<le> u32_max"
  using unsigned_less [of x, where 'a = nat] by simp

lemma unat_of_nat_u32: "n \<le> u32_max \<Longrightarrow> unat (word_of_nat n :: u32) = n"
  by (simp add: unat_of_nat)

lemma unat_of_nat_u64: "n \<le> u64_max \<Longrightarrow> unat (word_of_nat n :: u64) = n"
  by (simp add: unat_of_nat)

lemma unat_eq_of_nat_u32: "n \<le> u32_max \<Longrightarrow> unat (w :: u32) = n \<longleftrightarrow> w = word_of_nat n"
  using unat_of_nat_u32 [of n] by (auto simp: word_unat_eq_iff)

lemma unat_eq_of_nat_u64: "n \<le> u64_max \<Longrightarrow> unat (w :: u64) = n \<longleftrightarrow> w = word_of_nat n"
  using unat_of_nat_u64 [of n] by (auto simp: word_unat_eq_iff)

lemma unat_plus_u64:
  fixes a b :: u64
  assumes "unat a + unat b \<le> u64_max"
  shows "unat (a + b) = unat a + unat b"
  using assms by (simp add: unat_word_ariths)

lemma unat_Suc_u64:
  fixes a :: u64
  assumes "a \<noteq> - 1"
  shows "unat (a + 1) = Suc (unat a)"
proof -
  have "1 + a \<noteq> 0"
    using assms by (metis add.commute add_eq_0_iff minus_equation_iff)
  then show ?thesis
    by (metis add.commute unatSuc)
qed

lemma xor_cancel_right [simp]: "(a :: 'w::len word) XOR c = b XOR c \<longleftrightarrow> a = b"
proof
  assume "a XOR c = b XOR c"
  then have "(a XOR c) XOR c = (b XOR c) XOR c" by simp
  then show "a = b" by (simp add: xor.assoc)
qed simp

lemma xor_cancel_left [simp]: "(c :: 'w::len word) XOR a = c XOR b \<longleftrightarrow> a = b"
  by (simp add: xor.commute [of c])

section \<open>Decimal numerals\<close>

text \<open>\<open>std::to_string\<close> on an unsigned value: its decimal digits without leading zeros.\<close>

definition digit_char :: "nat \<Rightarrow> char" where
  "digit_char d = char_of (48 + d)"

fun to_string :: "nat \<Rightarrow> string" where
  "to_string n = (if n < 10 then [digit_char n] else to_string (n div 10) @ [digit_char (n mod 10)])"

declare to_string.simps [simp del]

end
