(* ===== verification/Status.thy ===== *)
theory Status
  imports Prelude
begin

text \<open>
  \<^verbatim>\<open>include/minikv/status.hpp\<close> and \<^verbatim>\<open>src/status.cpp\<close>: status codes with their stable numeric
  values, status objects with a message, and the result type of the fallible operations: \<open>Inl\<close>
  carries the status that is not ok, \<open>Inr\<close> the value the C++ code stores through its output
  parameter.
\<close>

datatype StatusCode =
    kOk | kNotFound | kIncomplete | kInvalidArgument | kIOError | kCorruption
  | kVersionMismatch | kClosed

fun StatusCode_value :: "StatusCode \<Rightarrow> u8" where
  "StatusCode_value kOk = 0"
| "StatusCode_value kNotFound = 1"
| "StatusCode_value kIncomplete = 2"
| "StatusCode_value kInvalidArgument = 3"
| "StatusCode_value kIOError = 4"
| "StatusCode_value kCorruption = 5"
| "StatusCode_value kVersionMismatch = 6"
| "StatusCode_value kClosed = 7"

fun StatusCodeName :: "StatusCode \<Rightarrow> string" where
  "StatusCodeName kOk = ''OK''"
| "StatusCodeName kNotFound = ''NotFound''"
| "StatusCodeName kIncomplete = ''Incomplete''"
| "StatusCodeName kInvalidArgument = ''InvalidArgument''"
| "StatusCodeName kIOError = ''IOError''"
| "StatusCodeName kCorruption = ''Corruption''"
| "StatusCodeName kVersionMismatch = ''VersionMismatch''"
| "StatusCodeName kClosed = ''Closed''"

record status =
  code :: StatusCode
  message :: string

definition Ok :: status where
  "Ok = \<lparr>code = kOk, message = []\<rparr>"

definition NotFound :: "string \<Rightarrow> status" where
  "NotFound m = \<lparr>code = kNotFound, message = m\<rparr>"

definition Incomplete :: "string \<Rightarrow> status" where
  "Incomplete m = \<lparr>code = kIncomplete, message = m\<rparr>"

definition InvalidArgument :: "string \<Rightarrow> status" where
  "InvalidArgument m = \<lparr>code = kInvalidArgument, message = m\<rparr>"

definition IOError :: "string \<Rightarrow> status" where
  "IOError m = \<lparr>code = kIOError, message = m\<rparr>"

definition Corruption :: "string \<Rightarrow> status" where
  "Corruption m = \<lparr>code = kCorruption, message = m\<rparr>"

definition VersionMismatch :: "string \<Rightarrow> status" where
  "VersionMismatch m = \<lparr>code = kVersionMismatch, message = m\<rparr>"

definition Closed :: "string \<Rightarrow> status" where
  "Closed m = \<lparr>code = kClosed, message = m\<rparr>"

definition ok :: "status \<Rightarrow> bool" where
  "ok s \<longleftrightarrow> code s = kOk"

definition IsNotFound :: "status \<Rightarrow> bool" where
  "IsNotFound s \<longleftrightarrow> code s = kNotFound"

definition IsIncomplete :: "status \<Rightarrow> bool" where
  "IsIncomplete s \<longleftrightarrow> code s = kIncomplete"

definition IsInvalidArgument :: "status \<Rightarrow> bool" where
  "IsInvalidArgument s \<longleftrightarrow> code s = kInvalidArgument"

definition IsIOError :: "status \<Rightarrow> bool" where
  "IsIOError s \<longleftrightarrow> code s = kIOError"

definition IsCorruption :: "status \<Rightarrow> bool" where
  "IsCorruption s \<longleftrightarrow> code s = kCorruption"

definition IsVersionMismatch :: "status \<Rightarrow> bool" where
  "IsVersionMismatch s \<longleftrightarrow> code s = kVersionMismatch"

definition IsClosed :: "status \<Rightarrow> bool" where
  "IsClosed s \<longleftrightarrow> code s = kClosed"

definition ToString :: "status \<Rightarrow> string" where
  "ToString s =
     (let name = StatusCodeName (code s)
      in if message s = [] then name else name @ '': '' @ message s)"

type_synonym 'a result = "status + 'a"

lemmas status_constructor_defs =
  Ok_def NotFound_def Incomplete_def InvalidArgument_def IOError_def Corruption_def
  VersionMismatch_def Closed_def

lemmas status_predicate_defs =
  ok_def IsNotFound_def IsIncomplete_def IsInvalidArgument_def IsIOError_def IsCorruption_def
  IsVersionMismatch_def IsClosed_def

lemma code_constructors [simp]:
  "code Ok = kOk" "code (NotFound m) = kNotFound" "code (Incomplete m) = kIncomplete"
  "code (InvalidArgument m) = kInvalidArgument" "code (IOError m) = kIOError"
  "code (Corruption m) = kCorruption" "code (VersionMismatch m) = kVersionMismatch"
  "code (Closed m) = kClosed"
  by (simp_all add: status_constructor_defs)

lemma predicates_constructors [simp]:
  "ok Ok" "\<not> ok (NotFound m)" "\<not> ok (Incomplete m)" "\<not> ok (InvalidArgument m)"
  "\<not> ok (IOError m)" "\<not> ok (Corruption m)" "\<not> ok (VersionMismatch m)" "\<not> ok (Closed m)"
  "IsNotFound (NotFound m)" "IsIncomplete (Incomplete m)" "IsCorruption (Corruption m)"
  "\<not> IsNotFound Ok" "\<not> IsIncomplete Ok" "\<not> IsCorruption Ok"
  "\<not> IsIncomplete (IOError m)" "\<not> IsIncomplete (Corruption m)"
  "\<not> IsIncomplete (InvalidArgument m)"
  "\<not> IsNotFound (InvalidArgument m)" "\<not> IsNotFound (Corruption m)" "\<not> IsNotFound (IOError m)"
  by (simp_all add: status_predicate_defs)

lemma StatusCode_value_inject: "StatusCode_value a = StatusCode_value b \<longleftrightarrow> a = b"
  by (cases a; cases b) simp_all

section \<open>Chaining\<close>

text \<open>\<open>or_fail\<close>: continue with a decoded field, or return the given status.\<close>

definition or_fail :: "'a option \<Rightarrow> status \<Rightarrow> ('a \<Rightarrow> 'b result) \<Rightarrow> 'b result" where
  "or_fail x s k = (case x of None \<Rightarrow> Inl s | Some a \<Rightarrow> k a)"

lemma or_fail_simps [simp]: "or_fail (Some a) s k = k a" "or_fail None s k = Inl s"
  by (simp_all add: or_fail_def)

lemma or_fail_Inr: "or_fail x s k = Inr b \<longleftrightarrow> (\<exists>a. x = Some a \<and> k a = Inr b)"
  by (cases x) simp_all

text \<open>\<open>and_then\<close>: continue with the value of a successful call, or return its status.\<close>

definition and_then :: "'a result \<Rightarrow> ('a \<Rightarrow> 'b result) \<Rightarrow> 'b result" where
  "and_then x k = (case x of Inl s \<Rightarrow> Inl s | Inr a \<Rightarrow> k a)"

lemma and_then_simps [simp]: "and_then (Inr a) k = k a" "and_then (Inl s) k = Inl s"
  by (simp_all add: and_then_def)

lemma and_then_Inr: "and_then x k = Inr b \<longleftrightarrow> (\<exists>a. x = Inr a \<and> k a = Inr b)"
  by (cases x) simp_all

end
