(* ===== verification/Coding.thy ===== *)
theory Coding
  imports Status
begin

text \<open>
  \<^verbatim>\<open>src/coding.cpp\<close>: little-endian fixed-width integers and the CRC32C checksum. The locale
  \<open>fixed_codec\<close> states what the file formats rely on (width, round trip, canonical encoding) and
  is interpreted for the 16, 32 and 64 bit codecs; \<open>byte_error_detecting\<close> states that a checksum
  changes whenever one byte of its input changes, and is interpreted for CRC32C.
\<close>

section \<open>Fixed-width integers\<close>

definition PutFixed16 :: "bytes \<Rightarrow> u16 \<Rightarrow> bytes" where
  "PutFixed16 destination value =
     (destination @ [ucast (value AND 0xFF)]) @ [ucast (drop_bit 8 value AND 0xFF)]"

definition PutFixed32 :: "bytes \<Rightarrow> u32 \<Rightarrow> bytes" where
  "PutFixed32 destination value =
     foldl (\<lambda>dest shift. dest @ [ucast (drop_bit shift value AND 0xFF)]) destination
       [0, 8, 16, 24]"

definition PutFixed64 :: "bytes \<Rightarrow> u64 \<Rightarrow> bytes" where
  "PutFixed64 destination value =
     foldl (\<lambda>dest shift. dest @ [ucast (drop_bit shift value AND 0xFF)]) destination
       [0, 8, 16, 24, 32, 40, 48, 56]"

definition DecodeFixed16 :: "bytes \<Rightarrow> u16 option" where
  "DecodeFixed16 input =
     (if length input < 2 then None
      else Some (ucast (input ! 0) OR push_bit 8 (ucast (input ! 1))))"

definition DecodeFixed32 :: "bytes \<Rightarrow> u32 option" where
  "DecodeFixed32 input =
     (if length input < 4 then None
      else Some (foldl (\<lambda>decoded shift. decoded OR push_bit shift (ucast (input ! (shift div 8))))
                   0 [0, 8, 16, 24]))"

definition DecodeFixed64 :: "bytes \<Rightarrow> u64 option" where
  "DecodeFixed64 input =
     (if length input < 8 then None
      else Some (foldl (\<lambda>decoded shift. decoded OR push_bit shift (ucast (input ! (shift div 8))))
                   0 [0, 8, 16, 24, 32, 40, 48, 56]))"

section \<open>CRC32C\<close>

text \<open>The loop body for one bit, for one byte, and the loop over the data.\<close>

definition crc_bit :: "u32 \<Rightarrow> u32" where
  "crc_bit state =
     (let mask = 0 - (state AND 1) in drop_bit 1 state XOR (0x82F63B78 AND mask))"

definition crc_byte :: "u32 \<Rightarrow> byte \<Rightarrow> u32" where
  "crc_byte state character = (crc_bit ^^ 8) (state XOR ucast character)"

definition ExtendCrc32c :: "u32 \<Rightarrow> bytes \<Rightarrow> u32" where
  "ExtendCrc32c state data = foldl crc_byte state data"

definition Crc32c :: "bytes \<Rightarrow> u32" where
  "Crc32c data = NOT (ExtendCrc32c 0xFFFFFFFF data)"

section \<open>The interface of a fixed-width codec\<close>

locale fixed_codec =
  fixes put :: "bytes \<Rightarrow> 'w::len word \<Rightarrow> bytes"
    and dec :: "bytes \<Rightarrow> 'w word option"
    and width :: nat
  assumes put_append: "d \<noteq> [] \<Longrightarrow> put d v = d @ put [] v"
    and length_put: "length (put [] v) = width"
    and dec_put: "dec (put [] v @ rest) = Some v"
    and dec_short: "dec xs = None \<longleftrightarrow> length xs < width"
    and dec_sound: "dec xs = Some v \<Longrightarrow> take width xs = put [] v"
begin

lemma put_length: "length (put d v) = length d + width"
  by (cases "d = []") (simp_all add: put_append length_put)

lemma put_split: "put d v = d @ put [] v"
  by (cases "d = []") (simp_all add: put_append)

lemma dec_put_exact: "dec (put [] v) = Some v"
  using dec_put [of v "[]"] by simp

lemma put_inject: "put [] v = put [] w \<longleftrightarrow> v = w"
  by (metis dec_put_exact option.inject)

lemma dec_total: "width \<le> length xs \<Longrightarrow> \<exists>v. dec xs = Some v"
  using dec_short [of xs] by auto

lemma dec_drop_total: "off + width \<le> length xs \<Longrightarrow> \<exists>v. dec (drop off xs) = Some v"
  by (rule dec_total) simp

lemma dec_cong:
  assumes "take width xs = take width ys"
  shows "dec xs = dec ys"
proof -
  have "width \<le> length zs \<longleftrightarrow> length (take width zs) = width" for zs :: bytes
    by auto
  then have long: "width \<le> length xs \<longleftrightarrow> width \<le> length ys"
    using assms by metis
  show ?thesis
  proof (cases "width \<le> length xs")
    case True
    then obtain v w where "dec xs = Some v" "dec ys = Some w"
      using long dec_total by blast
    then show ?thesis
      using dec_sound assms put_inject by metis
  next
    case False
    then have "dec xs = None" "dec ys = None"
      using long dec_short by simp_all
    then show ?thesis by simp
  qed
qed

lemma dec_Some_iff: "dec xs = Some v \<longleftrightarrow> width \<le> length xs \<and> take width xs = put [] v"
  by (metis append_take_drop_id dec_put dec_short dec_sound not_less option.distinct(1))

end

section \<open>Little-endian splits\<close>

text \<open>Placing the byte at bit offset \<open>s\<close> extends a value known below \<open>s\<close> by eight bits.\<close>

lemma join_low_byte:
  fixes v :: "'w::len word"
  assumes "8 \<le> LENGTH('w)"
  shows "take_bit s v OR push_bit s (ucast (ucast (drop_bit s v AND 0xFF) :: byte)) =
     take_bit (s + 8) v"
proof -
  have mask: "(0xFF :: 'w word) = mask 8"
    by (simp add: mask_eq_exp_minus_1)
  show ?thesis
    unfolding mask
    by (rule bit_word_eqI)
      (use assms in \<open>auto simp: bit_or_iff bit_take_bit_iff bit_push_bit_iff bit_ucast_iff
        bit_and_iff bit_mask_iff bit_drop_bit_eq\<close>)
qed

lemmas join_low_byte0 = join_low_byte [where s = 0, simplified]

text \<open>An encoder with a left inverse that is as wide as its words reaches every byte list.\<close>

lemma put_surjective:
  fixes put :: "'w::len word \<Rightarrow> bytes"
  assumes inv: "\<And>v. dec (put v) = Some v" and len: "\<And>v. length (put v) = n"
    and card: "2 ^ LENGTH('w) = (256 :: nat) ^ n" and xs: "length xs = n"
  shows "\<exists>v. xs = put v"
proof -
  let ?L = "{xs :: bytes. set xs \<subseteq> UNIV \<and> length xs = n}"
  have fin: "finite ?L"
    by (rule finite_lists_length_eq) simp
  have "inj put"
    by (metis inv injI option.inject)
  then have "card (range put) = 2 ^ LENGTH('w)"
    by (simp add: card_image card_word)
  also have "\<dots> = card ?L"
    using card by (subst card_lists_length_eq) (simp_all add: card_word)
  finally have "range put = ?L"
    using fin len by (intro card_subset_eq) auto
  then show ?thesis
    using xs by auto
qed

lemma PutFixed16_Nil: "PutFixed16 [] v = map (\<lambda>s. ucast (drop_bit s v AND 0xFF)) [0, 8]"
  by (simp add: PutFixed16_def)

lemma PutFixed32_Nil:
  "PutFixed32 [] v = map (\<lambda>s. ucast (drop_bit s v AND 0xFF)) [0, 8, 16, 24]"
  by (simp add: PutFixed32_def)

lemma PutFixed64_Nil:
  "PutFixed64 [] v = map (\<lambda>s. ucast (drop_bit s v AND 0xFF)) [0, 8, 16, 24, 32, 40, 48, 56]"
  by (simp add: PutFixed64_def)

lemma DecodeFixed16_Put: "DecodeFixed16 (PutFixed16 [] v @ rest) = Some v"
  using join_low_byte0 [of v] join_low_byte [of 8 v]
  by (simp add: DecodeFixed16_def PutFixed16_Nil take_bit_word_eq_self)

lemma DecodeFixed32_Put: "DecodeFixed32 (PutFixed32 [] v @ rest) = Some v"
  using join_low_byte0 [of v] join_low_byte [of 8 v] join_low_byte [of 16 v] join_low_byte [of 24 v]
  by (simp add: DecodeFixed32_def PutFixed32_Nil take_bit_word_eq_self)

lemma DecodeFixed64_Put: "DecodeFixed64 (PutFixed64 [] v @ rest) = Some v"
  using join_low_byte0 [of v] join_low_byte [of 8 v] join_low_byte [of 16 v] join_low_byte [of 24 v]
    join_low_byte [of 32 v] join_low_byte [of 40 v] join_low_byte [of 48 v] join_low_byte [of 56 v]
  by (simp add: DecodeFixed64_def PutFixed64_Nil take_bit_word_eq_self)

lemma dec_canonical:
  fixes put :: "'w::len word \<Rightarrow> bytes"
  assumes inv: "\<And>v rest. dec (put v @ rest) = Some v" and len: "\<And>v. length (put v) = n"
    and card: "2 ^ LENGTH('w) = (256 :: nat) ^ n"
    and long: "n \<le> length xs" and dec: "dec xs = Some v"
  shows "take n xs = put v"
proof -
  have "dec (put w) = Some w" for w
    using inv [of w "[]"] by simp
  moreover have "length (take n xs) = n"
    using long by simp
  ultimately obtain w where w: "take n xs = put w"
    using put_surjective len card by metis
  then have "dec xs = Some w"
    using inv [of w "drop n xs"] by (metis append_take_drop_id)
  with dec w show ?thesis by simp
qed

lemma length_PutFixed16_Nil: "length (PutFixed16 [] v) = 2"
  by (simp add: PutFixed16_Nil)

lemma DecodeFixed16_None_iff: "DecodeFixed16 xs = None \<longleftrightarrow> length xs < 2"
  by (simp add: DecodeFixed16_def)

interpretation fixed16: fixed_codec PutFixed16 DecodeFixed16 2
proof
  fix xs :: bytes and v :: u16
  assume dec: "DecodeFixed16 xs = Some v"
  then have "2 \<le> length xs"
    using DecodeFixed16_None_iff [of xs] by simp
  then show "take 2 xs = PutFixed16 [] v"
    using dec by (intro dec_canonical [OF DecodeFixed16_Put length_PutFixed16_Nil]) simp_all
qed (simp_all add: DecodeFixed16_Put length_PutFixed16_Nil DecodeFixed16_None_iff,
    simp add: PutFixed16_def)

lemma length_PutFixed32_Nil: "length (PutFixed32 [] v) = 4"
  by (simp add: PutFixed32_Nil)

lemma DecodeFixed32_None_iff: "DecodeFixed32 xs = None \<longleftrightarrow> length xs < 4"
  by (simp add: DecodeFixed32_def)

interpretation fixed32: fixed_codec PutFixed32 DecodeFixed32 4
proof
  fix xs :: bytes and v :: u32
  assume dec: "DecodeFixed32 xs = Some v"
  then have "4 \<le> length xs"
    using DecodeFixed32_None_iff [of xs] by simp
  then show "take 4 xs = PutFixed32 [] v"
    using dec by (intro dec_canonical [OF DecodeFixed32_Put length_PutFixed32_Nil]) simp_all
qed (simp_all add: DecodeFixed32_Put length_PutFixed32_Nil DecodeFixed32_None_iff,
    simp add: PutFixed32_def)

lemma length_PutFixed64_Nil: "length (PutFixed64 [] v) = 8"
  by (simp add: PutFixed64_Nil)

lemma DecodeFixed64_None_iff: "DecodeFixed64 xs = None \<longleftrightarrow> length xs < 8"
  by (simp add: DecodeFixed64_def)

interpretation fixed64: fixed_codec PutFixed64 DecodeFixed64 8
proof
  fix xs :: bytes and v :: u64
  assume dec: "DecodeFixed64 xs = Some v"
  then have "8 \<le> length xs"
    using DecodeFixed64_None_iff [of xs] by simp
  then show "take 8 xs = PutFixed64 [] v"
    using dec by (intro dec_canonical [OF DecodeFixed64_Put length_PutFixed64_Nil]) simp_all
qed (simp_all add: DecodeFixed64_Put length_PutFixed64_Nil DecodeFixed64_None_iff,
    simp add: PutFixed64_def)

lemmas put_append [codec_simps] = fixed16.put_append fixed32.put_append fixed64.put_append

lemmas put_length [simp, width_simps] = fixed16.put_length fixed32.put_length fixed64.put_length

lemmas dec_put [codec_simps] =
  fixed16.dec_put fixed32.dec_put fixed64.dec_put
  fixed16.dec_put_exact fixed32.dec_put_exact fixed64.dec_put_exact

lemma Put_not_Nil [simp]: "PutFixed16 d a \<noteq> []" "PutFixed32 d b \<noteq> []" "PutFixed64 d c \<noteq> []"
  by (metis add_gr_0 length_greater_0_conv put_length zero_less_numeral)+

section \<open>CRC32C detects every one-byte change\<close>

locale byte_error_detecting =
  fixes checksum :: "bytes \<Rightarrow> 'c"
  assumes detects: "i < length xs \<Longrightarrow> b \<noteq> xs ! i \<Longrightarrow> checksum (xs[i := b]) \<noteq> checksum xs"
begin

text \<open>
  A frame \<open>prefix, checksum field, payload\<close> where the checksum covers prefix and payload: two
  frames that differ in one byte are never both consistent.
\<close>

lemma frame_uncovered:
  assumes "p \<le> i" and "i < q"
  shows "checksum (take p (xs[i := b]) @ drop q (xs[i := b])) = checksum (take p xs @ drop q xs)"
  using assms by (simp add: drop_update_cancel)

lemma frame_covered:
  assumes i: "i < p \<or> q \<le> i" "i < length xs" and pq: "p \<le> q" "q \<le> length xs" and b: "b \<noteq> xs ! i"
  shows "checksum (take p (xs[i := b]) @ drop q (xs[i := b])) \<noteq> checksum (take p xs @ drop q xs)"
proof (cases "i < p")
  case True
  then have "take p (xs[i := b]) @ drop q (xs[i := b]) = (take p xs @ drop q xs)[i := b]"
    using pq by (simp add: take_update_swap drop_update_cancel list_update_append)
  moreover have "(take p xs @ drop q xs) ! i = xs ! i"
    using True pq by (simp add: nth_append)
  ultimately show ?thesis
    using True pq b detects [of i "take p xs @ drop q xs" b] by simp
next
  case False
  then obtain k where k: "i = q + k"
    using i by (metis le_Suc_ex)
  have "take p (xs[i := b]) @ drop q (xs[i := b]) = (take p xs @ drop q xs)[p + k := b]"
    using pq i k by (simp add: drop_update_swap list_update_append)
  moreover have "(take p xs @ drop q xs) ! (p + k) = xs ! i"
    using k i pq by (simp add: nth_append)
  ultimately show ?thesis
    using k i pq b detects [of "p + k" "take p xs @ drop q xs" b] by simp
qed

end

lemma crc_bit_odd: "crc_bit s = drop_bit 1 s XOR (if odd s then 0x82F63B78 else 0)"
  by (simp add: crc_bit_def and_one_eq mod_2_eq_odd)

text \<open>The polynomial has its top bit set, so the shifted-out bit can be read off the result.\<close>

lemma crc_bit_inj: "inj crc_bit"
proof (rule injI)
  fix s t :: u32
  assume eq: "crc_bit s = crc_bit t"
  have top: "bit (crc_bit u) 31 \<longleftrightarrow> odd u" for u :: u32
    by (auto simp: crc_bit_odd bit_xor_iff bit_drop_bit_eq dest: bit_imp_le_length)
  have par: "odd s \<longleftrightarrow> odd t"
    using eq top by metis
  then have dr: "drop_bit 1 s = drop_bit 1 t"
    using eq by (auto simp: crc_bit_odd)
  show "s = t"
  proof (rule bit_word_eqI)
    fix n
    show "bit s n \<longleftrightarrow> bit t n"
    proof (cases n)
      case 0
      with par show ?thesis by (simp add: bit_0)
    next
      case (Suc m)
      have "bit (drop_bit 1 s) m = bit (drop_bit 1 t) m" using dr by simp
      with Suc show ?thesis by (simp add: bit_drop_bit_eq)
    qed
  qed
qed

lemma crc_byte_inject: "crc_byte s b = crc_byte t c \<longleftrightarrow> s XOR ucast b = t XOR ucast c"
  using inj_fn [OF crc_bit_inj, of 8] by (auto simp: crc_byte_def inj_def)

lemma ExtendCrc32c_inj_state: "ExtendCrc32c s xs = ExtendCrc32c t xs \<longleftrightarrow> s = t"
proof (induction xs arbitrary: s t)
  case (Cons x xs)
  have "ExtendCrc32c s (x # xs) = ExtendCrc32c t (x # xs) \<longleftrightarrow> crc_byte s x = crc_byte t x"
    using Cons.IH by (simp add: ExtendCrc32c_def)
  then show ?case
    by (simp add: crc_byte_inject)
qed (simp add: ExtendCrc32c_def)

lemma ExtendCrc32c_append:
  "ExtendCrc32c s (xs @ ys) = ExtendCrc32c (ExtendCrc32c s xs) ys"
  by (simp add: ExtendCrc32c_def)

lemma ucast_byte_inject: "(ucast (b :: byte) :: u32) = ucast c \<longleftrightarrow> b = c"
proof
  assume eq: "(ucast b :: u32) = ucast c"
  show "b = c"
  proof (rule bit_word_eqI)
    fix n
    assume "n < LENGTH(8)"
    then show "bit b n \<longleftrightarrow> bit c n"
      using arg_cong [OF eq, of "\<lambda>w. bit w n"] by (simp add: bit_ucast_iff)
  qed
qed simp

lemma Crc32c_update:
  assumes "i < length xs" and "b \<noteq> xs ! i"
  shows "Crc32c (xs[i := b]) \<noteq> Crc32c xs"
proof -
  let ?s = "ExtendCrc32c 0xFFFFFFFF (take i xs)"
  have split: "ExtendCrc32c 0xFFFFFFFF (take i xs @ c # drop (Suc i) xs) =
      ExtendCrc32c (crc_byte ?s c) (drop (Suc i) xs)" for c
    by (simp add: ExtendCrc32c_append) (simp add: ExtendCrc32c_def)
  have "crc_byte ?s b \<noteq> crc_byte ?s (xs ! i)"
    using assms(2) by (simp add: crc_byte_inject ucast_byte_inject)
  then have "ExtendCrc32c 0xFFFFFFFF (xs[i := b]) \<noteq> ExtendCrc32c 0xFFFFFFFF xs"
    using assms(1) split [of b] split [of "xs ! i"]
    by (simp add: upd_conv_take_nth_drop id_take_nth_drop [symmetric] ExtendCrc32c_inj_state)
  then show ?thesis
    by (simp add: Crc32c_def)
qed

interpretation crc32c: byte_error_detecting Crc32c
  by unfold_locales (rule Crc32c_update)


text \<open>
  The layout all file formats use: a checksum field at offset \<open>p\<close> that covers everything else. A
  frame whose checksum is right stops being right when any one of its bytes changes.
\<close>

definition frame_ok :: "nat \<Rightarrow> bytes \<Rightarrow> bool" where
  "frame_ok p xs \<longleftrightarrow> DecodeFixed32 (drop p xs) = Some (Crc32c (take p xs @ drop (p + 4) xs))"

lemma frame_ok_changed:
  assumes ok: "frame_ok p xs" and i: "i < length xs" and b: "b \<noteq> xs ! i" and p: "p + 4 \<le> length xs"
  shows "\<not> frame_ok p (xs[i := b])"
proof (cases "i < p \<or> p + 4 \<le> i")
  case True
  then have "DecodeFixed32 (drop p (xs[i := b])) = DecodeFixed32 (drop p xs)"
    by (intro fixed32.dec_cong field_update) auto
  then show ?thesis
    using crc32c.frame_covered [OF True i _ p b] ok by (simp add: frame_ok_def)
next
  case False
  then have "Crc32c (take p (xs[i := b]) @ drop (p + 4) (xs[i := b])) = Crc32c (take p xs @ drop (p + 4) xs)"
    by (intro crc32c.frame_uncovered) auto
  moreover have "take 4 (drop p (xs[i := b])) \<noteq> take 4 (drop p xs)"
    using changed_field [OF i b] False by simp
  ultimately show ?thesis
    using ok by (auto simp: frame_ok_def fixed32.dec_Some_iff)
qed


section \<open>The interface of a self-delimiting codec\<close>

text \<open>
  What the readers of a sequence of records rely on: a record decodes whatever follows it, and only
  encodings are accepted. Then every sequence parses in one way only, and every prefix of it is a
  shorter sequence followed by a part of one record.
\<close>

locale frame_codec =
  fixes enc :: "'r \<Rightarrow> bytes"
    and dec :: "bytes \<Rightarrow> (nat \<times> 'r) result"
    and valid :: "'r \<Rightarrow> bool"
  assumes dec_enc: "valid r \<Longrightarrow> dec (enc r @ rest) = Inr (length (enc r), r)"
    and dec_sound: "dec bs = Inr (n, r) \<Longrightarrow>
        valid r \<and> n = length (enc r) \<and> (\<exists>rest. bs = enc r @ rest)"
    and enc_not_Nil: "enc r \<noteq> []"
begin

definition log :: "'r list \<Rightarrow> bytes" where
  "log rs = concat (map enc rs)"

lemma log_simps [simp]:
  "log [] = []" "log (r # rs) = enc r @ log rs" "log (rs @ qs) = log rs @ log qs"
  by (simp_all add: log_def)

lemma enc_prefix_free:
  assumes "valid r" and "valid q" and "enc r @ xs = enc q @ ys"
  shows "r = q \<and> xs = ys"
  using assms dec_enc [of r xs] dec_enc [of q ys] by auto

lemma log_inject:
  "list_all valid rs \<Longrightarrow> list_all valid qs \<Longrightarrow> log rs = log qs \<Longrightarrow> rs = qs"
proof (induction rs arbitrary: qs)
  case Nil
  then show ?case
    using enc_not_Nil by (cases qs) auto
next
  case (Cons r rs)
  then obtain q qs' where qs: "qs = q # qs'"
    using enc_not_Nil by (cases qs) auto
  have "r = q \<and> log rs = log qs'"
    using Cons.prems by (intro enc_prefix_free) (simp_all add: qs)
  then show ?case
    using Cons.IH [of qs'] Cons.prems by (simp add: qs)
qed

text \<open>The prefixes of a log.\<close>

lemma log_prefix:
  assumes "n \<le> length (log rs)"
  obtains m k where "m \<le> length rs" "take n (log rs) = log (take m rs) @ take k (enc (rs ! m))"
    "k = 0 \<or> (m < length rs \<and> k < length (enc (rs ! m)))" "n = length (log (take m rs)) + k"
  using assms
proof (induction rs arbitrary: n thesis)
  case Nil
  then show ?case by (auto intro: Nil.prems(1) [of 0 0])
next
  case (Cons r rs)
  show ?case
  proof (cases "n < length (enc r)")
    case True
    then show ?thesis
      by (intro Cons.prems(1) [of 0 n]) auto
  next
    case False
    then have "n - length (enc r) \<le> length (log rs)"
      using Cons.prems(2) by simp
    then obtain m k where "m \<le> length rs"
      "take (n - length (enc r)) (log rs) = log (take m rs) @ take k (enc (rs ! m))"
      "k = 0 \<or> (m < length rs \<and> k < length (enc (rs ! m)))"
      "n - length (enc r) = length (log (take m rs)) + k"
      using Cons.IH by blast
    with False show ?thesis
      by (intro Cons.prems(1) [of "Suc m" k]) auto
  qed
qed

text \<open>Reading a given number of records one after the other.\<close>

fun parse :: "nat \<Rightarrow> bytes \<Rightarrow> ('r list \<times> bytes) result" where
  "parse 0 bs = Inr ([], bs)"
| "parse (Suc m) bs =
     and_then (dec bs) (\<lambda>(n, r).
     and_then (parse m (drop n bs)) (\<lambda>(rs, rest). Inr (r # rs, rest)))"

lemma parse_log: "list_all valid rs \<Longrightarrow> parse (length rs) (log rs @ rest) = Inr (rs, rest)"
  by (induction rs) (simp_all add: dec_enc)

lemma parse_sound:
  "parse m bs = Inr (rs, rest) \<Longrightarrow> list_all valid rs \<and> length rs = m \<and> bs = log rs @ rest"
  by (induction m arbitrary: bs rs rest) (fastforce simp: and_then_Inr dest: dec_sound)+

end


section \<open>Properties\<close>

lemma crc_byte_steps:
  "crc_byte s b = crc_bit (crc_bit (crc_bit (crc_bit (crc_bit (crc_bit (crc_bit (crc_bit (s XOR ucast b))))))))"
  by (simp add: crc_byte_def numeral_eq_Suc)

text \<open>
  The fixed-width codecs are exact: decoding gives a value if and only if the input is long
  enough and begins with the encoding of that value, for all three widths.
\<close>

theorem Fixed_codecs_exact:
  "(DecodeFixed16 xs = Some a \<longleftrightarrow> 2 \<le> length xs \<and> take 2 xs = PutFixed16 [] a) \<and>
   (DecodeFixed32 xs = Some b \<longleftrightarrow> 4 \<le> length xs \<and> take 4 xs = PutFixed32 [] b) \<and>
   (DecodeFixed64 xs = Some c \<longleftrightarrow> 8 \<le> length xs \<and> take 8 xs = PutFixed64 [] c)"
  by (simp add: fixed16.dec_Some_iff fixed32.dec_Some_iff fixed64.dec_Some_iff)

text \<open>
  The checksum is CRC-32C: it has the published check value for the digits one to nine, and it
  differs for any two inputs that differ in exactly one byte.
\<close>

theorem Crc32c_detects_byte:
  "Crc32c (ascii ''123456789'') = 0xE3069283 \<and>
   (\<forall>xs i b. i < length xs \<longrightarrow> b \<noteq> xs ! i \<longrightarrow> Crc32c (xs[i := b]) \<noteq> Crc32c xs)"
proof
  show "Crc32c (ascii ''123456789'') = 0xE3069283"
    by (simp add: Crc32c_def ExtendCrc32c_def ascii_def crc_byte_steps crc_bit_odd)
qed (use crc32c.detects in blast)

theorem Crc32c_detects_byte_witness: "Crc32c ([1, 2, 3][1 := 7]) \<noteq> Crc32c [1, 2, 3]"
proof -
  have "1 < length [1, 2, 3 :: byte]" "(7 :: byte) \<noteq> [1, 2, 3] ! 1"
    by simp_all
  then show ?thesis
    using Crc32c_detects_byte by blast
qed

end
