(* ===== verification/Options.thy ===== *)
theory Options
  imports Complex_Main Coding
begin

text \<open>
  \<^verbatim>\<open>include/minikv/options.hpp\<close>. Sizes (\<open>std::size_t\<close>) are naturals; the operations write out
  every comparison with \<open>SIZE_MAX\<close> and \<open>UINT32_MAX\<close> the code makes. A \<open>double\<close> is a rational
  when it is finite; the code only tests it and hands it to the floating-point sizing of Bloom
  filters.
\<close>

datatype double = Finite rat | Infinite bool | NaN

fun isfinite :: "double \<Rightarrow> bool" where
  "isfinite (Finite _) \<longleftrightarrow> True"
| "isfinite (Infinite _) \<longleftrightarrow> False"
| "isfinite NaN \<longleftrightarrow> False"

text \<open>IEEE comparisons with a finite bound: every comparison with a NaN is false.\<close>

fun double_le :: "double \<Rightarrow> rat \<Rightarrow> bool" where
  "double_le (Finite r) b \<longleftrightarrow> r \<le> b"
| "double_le (Infinite positive) b \<longleftrightarrow> \<not> positive"
| "double_le NaN b \<longleftrightarrow> False"

fun double_ge :: "double \<Rightarrow> rat \<Rightarrow> bool" where
  "double_ge (Finite r) b \<longleftrightarrow> b \<le> r"
| "double_ge (Infinite positive) b \<longleftrightarrow> positive"
| "double_ge NaN b \<longleftrightarrow> False"

record Options =
  max_key_size :: nat
  max_value_size :: nat
  memtable_size_limit :: nat
  sstable_block_size :: nat
  bloom_filter_enabled :: bool
  bloom_false_positive_rate :: double
  compaction_output_size_limit :: nat
  maximum_scan_entries :: nat
  background_maintenance :: bool
  level0_compaction_trigger :: nat

text \<open>The default rate is the double nearest to 0.01.\<close>

definition default_Options :: Options where
  "default_Options = \<lparr>
     max_key_size = 64 * 1024,
     max_value_size = 4 * 1024 * 1024,
     memtable_size_limit = 4 * 1024 * 1024,
     sstable_block_size = 4 * 1024,
     bloom_filter_enabled = True,
     bloom_false_positive_rate = Finite (5764607523034235 / 576460752303423488),
     compaction_output_size_limit = 2 * 1024 * 1024,
     maximum_scan_entries = 1000,
     background_maintenance = False,
     level0_compaction_trigger = 4\<rparr>"

text \<open>
  The test shared by \<open>Database::OpenWithEnvironment\<close>, \<open>ValidateTableOptions\<close> and
  \<open>BloomFilter::Create\<close>.
\<close>

definition bad_rate :: "double \<Rightarrow> bool" where
  "bad_rate rate \<longleftrightarrow> \<not> isfinite rate \<or> double_le rate 0 \<or> double_ge rate 1"

lemma bad_rate_iff: "\<not> bad_rate rate \<longleftrightarrow> (\<exists>r. rate = Finite r \<and> 0 < r \<and> r < 1)"
  by (cases rate) (auto simp: bad_rate_def)

end
