(* ===== verification/MemTable.thy ===== *)
theory MemTable
  imports Options
begin

text \<open>
  \<^verbatim>\<open>src/memtable.cpp\<close> and \<^verbatim>\<open>include/minikv/memtable.hpp\<close>: the ordered in-memory table of the
  newest version of every key, with tombstones. The \<open>std::map\<close> is an association list in key
  order behind the locale \<open>ordered_map\<close>; the locale \<open>versioned_store\<close> states what replay and the
  write path rely on (a write shows at its key and nowhere else) and is interpreted on the table.
\<close>

section \<open>The ordered map\<close>

text \<open>\<open>std::map::emplace\<close> leaves an existing key alone; \<open>map_set\<close> assigns through an iterator.\<close>

fun map_emplace :: "'k::linorder \<Rightarrow> 'v \<Rightarrow> ('k \<times> 'v) list \<Rightarrow> ('k \<times> 'v) list" where
  "map_emplace k v [] = [(k, v)]"
| "map_emplace k v ((a, b) # ps) =
     (if k < a then (k, v) # (a, b) # ps
      else if k = a then (a, b) # ps
      else (a, b) # map_emplace k v ps)"

fun map_set :: "'k \<Rightarrow> 'v \<Rightarrow> ('k \<times> 'v) list \<Rightarrow> ('k \<times> 'v) list" where
  "map_set k v [] = []"
| "map_set k v ((a, b) # ps) = (if a = k then (a, v) # ps else (a, b) # map_set k v ps)"

abbreviation keys_sorted :: "('k::linorder \<times> 'v) list \<Rightarrow> bool" where
  "keys_sorted ps \<equiv> sorted_wrt (<) (map fst ps)"

locale ordered_map =
  fixes find :: "'m \<Rightarrow> 'k \<Rightarrow> 'v option"
    and emplace :: "'k \<Rightarrow> 'v \<Rightarrow> 'm \<Rightarrow> 'm"
    and assign :: "'k \<Rightarrow> 'v \<Rightarrow> 'm \<Rightarrow> 'm"
    and invar :: "'m \<Rightarrow> bool"
  assumes find_emplace: "invar m \<Longrightarrow> find m k = None \<Longrightarrow> find (emplace k v m) = (find m)(k \<mapsto> v)"
    and find_assign: "invar m \<Longrightarrow> find m k = Some w \<Longrightarrow> find (assign k v m) = (find m)(k \<mapsto> v)"
    and invar_emplace: "invar m \<Longrightarrow> invar (emplace k v m)"
    and invar_assign: "invar m \<Longrightarrow> invar (assign k v m)"
begin

definition upsert :: "'k \<Rightarrow> 'v \<Rightarrow> 'm \<Rightarrow> 'm" where
  "upsert k v m = (case find m k of None \<Rightarrow> emplace k v m | Some _ \<Rightarrow> assign k v m)"

lemma find_upsert: "invar m \<Longrightarrow> find (upsert k v m) = (find m)(k \<mapsto> v)"
  by (auto simp: upsert_def find_emplace find_assign split: option.split)

lemma invar_upsert: "invar m \<Longrightarrow> invar (upsert k v m)"
  by (auto simp: upsert_def invar_emplace invar_assign split: option.split)

end

lemma set_keys_emplace: "fst ` set (map_emplace k v ps) = insert k (fst ` set ps)"
  by (induction k v ps rule: map_emplace.induct) (simp_all add: insert_commute)

lemma keys_map_set: "map fst (map_set k v ps) = map fst ps"
  by (induction ps) auto

lemma keys_sorted_emplace: "keys_sorted ps \<Longrightarrow> keys_sorted (map_emplace k v ps)"
proof (induction ps)
  case (Cons p ps)
  obtain a b where p: "p = (a, b)" by force
  have "\<forall>x \<in> fst ` set (map_emplace k v ps). a < x" if "a < k"
    using Cons.prems that unfolding set_keys_emplace by (auto simp: p)
  then show ?case
    using Cons by (auto simp: p)
qed simp

lemma map_of_emplace: "map_of ps k = None \<Longrightarrow> map_of (map_emplace k v ps) = (map_of ps)(k \<mapsto> v)"
  by (induction ps) (auto split: if_splits)

lemma map_of_set: "map_of ps k = Some w \<Longrightarrow> map_of (map_set k v ps) = (map_of ps)(k \<mapsto> v)"
  by (induction ps) (auto split: if_splits)

interpretation omap: ordered_map map_of map_emplace map_set keys_sorted
  by unfold_locales
    (simp_all add: map_of_emplace map_of_set keys_sorted_emplace keys_map_set)

section \<open>Types\<close>

text \<open>
  \<open>ValueType\<close> has the two enumerators of the source; \<open>ValueType_of\<close> is the cast of a stored byte,
  \<open>None\<close> for a value outside the enumeration.
\<close>

datatype ValueType = kValue | kDeletion

fun ValueType_byte :: "ValueType \<Rightarrow> u8" where
  "ValueType_byte kValue = 1"
| "ValueType_byte kDeletion = 2"

definition ValueType_of :: "u8 \<Rightarrow> ValueType option" where
  "ValueType_of b = (if b = 1 then Some kValue else if b = 2 then Some kDeletion else None)"

record LookupResult =
  lr_status :: status
  lr_sequence :: u64
  lr_type :: ValueType
  lr_value :: bytes

definition found :: "LookupResult \<Rightarrow> bool" where
  "found r \<longleftrightarrow> ok (lr_status r)"

definition deleted :: "LookupResult \<Rightarrow> bool" where
  "deleted r \<longleftrightarrow> found r \<and> lr_type r = kDeletion"

record MemTableRecord =
  r_key :: bytes
  r_sequence :: u64
  r_type :: ValueType
  r_value :: bytes

record Entry =
  e_sequence :: u64
  e_type :: ValueType
  e_value :: bytes

record MemTable =
  mt_options :: Options
  entries :: "(bytes \<times> Entry) list"
  approximate_data_size :: u64

section \<open>Operations\<close>

definition kRecordMetadataSize :: u64 where
  "kRecordMetadataSize = 8 + 1"

definition new_MemTable :: "Options \<Rightarrow> MemTable" where
  "new_MemTable options = \<lparr>mt_options = options, entries = [], approximate_data_size = 0\<rparr>"

definition EncodedPayloadSize :: "bytes \<Rightarrow> bytes \<Rightarrow> u64" where
  "EncodedPayloadSize key value =
     kRecordMetadataSize + word_of_nat (length key) + word_of_nat (length value)"

definition Validate :: "MemTable \<Rightarrow> bytes \<Rightarrow> bytes \<Rightarrow> status" where
  "Validate mt key value =
     (if key = [] then InvalidArgument ''key must not be empty''
      else if length key > max_key_size (mt_options mt)
        then InvalidArgument ''key exceeds configured maximum size''
      else if length value > max_value_size (mt_options mt)
        then InvalidArgument ''value exceeds configured maximum size''
      else Ok)"

definition Add :: "u64 \<Rightarrow> ValueType \<Rightarrow> bytes \<Rightarrow> bytes \<Rightarrow> MemTable \<Rightarrow> MemTable \<times> status" where
  "Add sequence type key value mt =
     (if sequence = 0
      then (mt, InvalidArgument ''sequence number must be greater than zero'')
      else let validation = Validate mt key value in
      if \<not> ok validation then (mt, validation)
      else let current = map_of (entries mt) key in
      if (case current of None \<Rightarrow> False | Some e \<Rightarrow> sequence \<le> e_sequence e)
      then (mt, InvalidArgument ''sequence number must be greater than the existing record'')
      else let new_size = EncodedPayloadSize key value in
      if new_size > - 1 - approximate_data_size mt
      then (mt, InvalidArgument ''MemTable size accounting overflow'')
      else let new_entry = \<lparr>e_sequence = sequence, e_type = type, e_value = value\<rparr> in
      case current of
        None \<Rightarrow>
          (mt\<lparr>entries := map_emplace key new_entry (entries mt),
              approximate_data_size := approximate_data_size mt + new_size\<rparr>, Ok)
      | Some e \<Rightarrow>
          (let old_size = EncodedPayloadSize key (e_value e) in
           (mt\<lparr>entries := map_set key new_entry (entries mt),
               approximate_data_size := approximate_data_size mt - old_size + new_size\<rparr>, Ok)))"

definition Put :: "u64 \<Rightarrow> bytes \<Rightarrow> bytes \<Rightarrow> MemTable \<Rightarrow> MemTable \<times> status" where
  "Put sequence key value mt = Add sequence kValue key value mt"

definition Delete :: "u64 \<Rightarrow> bytes \<Rightarrow> MemTable \<Rightarrow> MemTable \<times> status" where
  "Delete sequence key mt = Add sequence kDeletion key [] mt"

definition Lookup :: "MemTable \<Rightarrow> bytes \<Rightarrow> LookupResult" where
  "Lookup mt key =
     (let validation = Validate mt key [] in
      if \<not> ok validation
      then \<lparr>lr_status = validation, lr_sequence = 0, lr_type = kValue, lr_value = []\<rparr>
      else case map_of (entries mt) key of
        None \<Rightarrow> \<lparr>lr_status = NotFound ''key does not exist'', lr_sequence = 0,
                 lr_type = kValue, lr_value = []\<rparr>
      | Some e \<Rightarrow> \<lparr>lr_status = Ok, lr_sequence = e_sequence e, lr_type = e_type e,
                   lr_value = e_value e\<rparr>)"

definition Get :: "MemTable \<Rightarrow> bytes \<Rightarrow> LookupResult" where
  "Get mt key =
     (let result = Lookup mt key in
      if deleted result
      then result\<lparr>lr_status := NotFound ''key was deleted'', lr_value := []\<rparr>
      else result)"

definition Records :: "MemTable \<Rightarrow> MemTableRecord list" where
  "Records mt =
     map (\<lambda>(key, entry). \<lparr>r_key = key, r_sequence = e_sequence entry, r_type = e_type entry,
                           r_value = e_value entry\<rparr>) (entries mt)"

definition MemTable_size :: "MemTable \<Rightarrow> nat" where
  "MemTable_size mt = length (entries mt)"

definition MemTable_empty :: "MemTable \<Rightarrow> bool" where
  "MemTable_empty mt \<longleftrightarrow> entries mt = []"

definition ApproximateDataSize :: "MemTable \<Rightarrow> u64" where
  "ApproximateDataSize mt = approximate_data_size mt"

section \<open>Well-formed tables\<close>

text \<open>
  The abstract content of a table maps every key to its newest version. A table is well-formed
  when its keys are strictly sorted, every entry obeys the configured limits, and the size counter
  is exactly the accounted size of the entries, so that it never wrapped.
\<close>

definition view :: "MemTable \<Rightarrow> bytes \<Rightarrow> Entry option" where
  "view mt = map_of (entries mt)"

definition entry_size :: "bytes \<Rightarrow> bytes \<Rightarrow> nat" where
  "entry_size key value = 9 + length key + length value"

definition payload_total :: "(bytes \<times> Entry) list \<Rightarrow> nat" where
  "payload_total ps = (\<Sum>(k, e) \<leftarrow> ps. entry_size k (e_value e))"

definition entry_wf :: "Options \<Rightarrow> bytes \<Rightarrow> Entry \<Rightarrow> bool" where
  "entry_wf options k e \<longleftrightarrow>
     k \<noteq> [] \<and> length k \<le> max_key_size options \<and> length (e_value e) \<le> max_value_size options \<and>
     e_sequence e \<noteq> 0 \<and> (e_type e = kDeletion \<longrightarrow> e_value e = [])"

definition mt_wf :: "MemTable \<Rightarrow> bool" where
  "mt_wf mt \<longleftrightarrow>
     keys_sorted (entries mt) \<and>
     (\<forall>(k, e) \<in> set (entries mt). entry_wf (mt_options mt) k e) \<and>
     unat (approximate_data_size mt) = payload_total (entries mt)"

text \<open>Record sizes fit a \<open>size_t\<close>; \<open>Database::Open\<close> refuses options that violate it.\<close>

definition options_fit :: "Options \<Rightarrow> bool" where
  "options_fit options \<longleftrightarrow> 9 + max_key_size options + max_value_size options \<le> size_max"

lemma view_Some_in: "view mt k = Some e \<Longrightarrow> (k, e) \<in> set (entries mt)"
  by (simp add: view_def map_of_SomeD)

lemma payload_total_emplace:
  "map_of ps k = None \<Longrightarrow> payload_total (map_emplace k e ps) = payload_total ps + entry_size k (e_value e)"
  by (induction ps) (auto simp: payload_total_def split: if_splits)

lemma payload_total_set:
  "map_of ps k = Some e0 \<Longrightarrow>
     payload_total (map_set k e ps) + entry_size k (e_value e0) =
     payload_total ps + entry_size k (e_value e)"
  by (induction ps) (auto simp: payload_total_def split: if_splits)

lemma entry_size_le_total: "map_of ps k = Some e \<Longrightarrow> entry_size k (e_value e) \<le> payload_total ps"
  by (induction ps) (auto simp: payload_total_def split: if_splits)

lemma unat_EncodedPayloadSize:
  "entry_size k v \<le> size_max \<Longrightarrow> unat (EncodedPayloadSize k v) = entry_size k v"
  by (simp add: EncodedPayloadSize_def kRecordMetadataSize_def entry_size_def
      unat_plus_u64 unat_of_nat_u64)

lemma set_map_set: "set (map_set k e ps) \<subseteq> insert (k, e) (set ps)"
  by (induction ps) (auto split: if_splits)

lemma set_map_emplace: "set (map_emplace k e ps) \<subseteq> insert (k, e) (set ps)"
  by (induction ps) (auto split: if_splits)

text \<open>The overflow guard on words is the guard on the accounted sizes.\<close>

lemma overflow_guard:
  fixes a n :: u64
  shows "n > - 1 - a \<longleftrightarrow> unat a + unat n > u64_max"
proof -
  have "unat (- 1 - a) = u64_max - unat a"
    using unat_lt_u64 [of a] by (simp add: unat_sub_if' unsigned_minus_1_eq_mask mask_eq_exp_minus_1)
  then show ?thesis
    using unat_lt_u64 [of a] by (auto simp: word_less_nat_alt)
qed

section \<open>Behaviour of the operations\<close>

definition new_entry :: "u64 \<Rightarrow> ValueType \<Rightarrow> bytes \<Rightarrow> Entry" where
  "new_entry sequence type value = \<lparr>e_sequence = sequence, e_type = type, e_value = value\<rparr>"

lemma new_entry_simps [simp]:
  "e_sequence (new_entry s t v) = s" "e_type (new_entry s t v) = t" "e_value (new_entry s t v) = v"
  by (simp_all add: new_entry_def)

lemma Validate_ok_iff:
  "ok (Validate mt k v) \<longleftrightarrow>
     k \<noteq> [] \<and> length k \<le> max_key_size (mt_options mt) \<and> length v \<le> max_value_size (mt_options mt)"
  by (simp add: Validate_def)

text \<open>A failed write leaves the table alone, whatever the failure.\<close>

lemma Add_fail: "\<not> ok (snd (Add s t k v mt)) \<Longrightarrow> fst (Add s t k v mt) = mt"
  by (auto simp: Add_def Let_def split: option.splits if_splits)

lemma Add_status_code: "ok (snd (Add s t k v mt)) \<or> IsInvalidArgument (snd (Add s t k v mt))"
  by (auto simp: Add_def Let_def Validate_def IsInvalidArgument_def split: option.splits if_splits)

lemma Add_ok_cond:
  "ok (snd (Add s t k v mt)) \<longleftrightarrow>
     s \<noteq> 0 \<and> ok (Validate mt k v) \<and>
     (\<forall>e. view mt k = Some e \<longrightarrow> e_sequence e < s) \<and>
     unat (approximate_data_size mt) + unat (EncodedPayloadSize k v) \<le> u64_max"
  by (auto simp: Add_def Let_def view_def overflow_guard not_less not_le
      split: option.splits if_splits)

lemma Add_ok_entries:
  assumes "ok (snd (Add s t k v mt))"
  shows "entries (fst (Add s t k v mt)) = omap.upsert k (new_entry s t v) (entries mt)"
    and "mt_options (fst (Add s t k v mt)) = mt_options mt"
    and "approximate_data_size (fst (Add s t k v mt)) =
      approximate_data_size mt -
        (case view mt k of None \<Rightarrow> 0 | Some e \<Rightarrow> EncodedPayloadSize k (e_value e)) +
        EncodedPayloadSize k v"
  using assms
  by (auto simp: Add_def Let_def omap.upsert_def new_entry_def view_def
      split: option.splits if_splits)

lemma Add_ok_view:
  assumes "keys_sorted (entries mt)" and "ok (snd (Add s t k v mt))"
  shows "view (fst (Add s t k v mt)) = (view mt)(k \<mapsto> new_entry s t v)"
  using assms by (simp add: view_def Add_ok_entries omap.find_upsert)

lemma upsert_total:
  "payload_total (omap.upsert k e ps) =
     payload_total ps - (case map_of ps k of None \<Rightarrow> 0 | Some e0 \<Rightarrow> entry_size k (e_value e0)) +
     entry_size k (e_value e)"
  using payload_total_set [of ps k _ e] entry_size_le_total [of ps k]
  by (auto simp: omap.upsert_def payload_total_emplace split: option.splits)

lemma set_upsert: "set (omap.upsert k e ps) \<subseteq> insert (k, e) (set ps)"
  using set_map_set [of k e ps] set_map_emplace [of k e ps]
  by (auto simp: omap.upsert_def split: option.splits)

lemma unat_diff_plus_u64:
  fixes a d n :: u64
  assumes "unat d \<le> unat a" and "unat a - unat d + unat n \<le> u64_max"
  shows "unat (a - d + n) = unat a - unat d + unat n"
  using assms by (simp add: unat_plus_u64 unat_sub_if')

lemma Add_ok_wf:
  assumes wf: "mt_wf mt" and ok: "ok (snd (Add s t k v mt))"
    and del: "t = kDeletion \<longrightarrow> v = []" and fit: "options_fit (mt_options mt)"
  shows "mt_wf (fst (Add s t k v mt))"
proof -
  let ?mt = "fst (Add s t k v mt)"
  let ?d = "case view mt k of None \<Rightarrow> 0 | Some e \<Rightarrow> EncodedPayloadSize k (e_value e)"
  have valid: "s \<noteq> 0" "k \<noteq> []" "length k \<le> max_key_size (mt_options mt)"
      "length v \<le> max_value_size (mt_options mt)"
    and room: "unat (approximate_data_size mt) + unat (EncodedPayloadSize k v) \<le> u64_max"
    using ok by (auto simp: Add_ok_cond Validate_ok_iff)
  have total: "unat (approximate_data_size mt) = payload_total (entries mt)"
    and all: "\<And>k e. (k, e) \<in> set (entries mt) \<Longrightarrow> entry_wf (mt_options mt) k e"
    using wf by (auto simp: mt_wf_def)
  have bound: "entry_size k' v' \<le> size_max"
    if "length k' \<le> max_key_size (mt_options mt)" "length v' \<le> max_value_size (mt_options mt)"
    for k' v' :: bytes
    using that fit by (simp add: entry_size_def options_fit_def)
  have d: "unat ?d = (case view mt k of None \<Rightarrow> 0 | Some e \<Rightarrow> entry_size k (e_value e))"
    using all bound by (auto simp: unat_EncodedPayloadSize entry_wf_def split: option.split
        dest!: view_Some_in)
  have "unat (approximate_data_size ?mt) =
      unat (approximate_data_size mt) - unat ?d + unat (EncodedPayloadSize k v)"
    unfolding Add_ok_entries(3) [OF ok]
    using room entry_size_le_total [of "entries mt" k] d total
    by (intro unat_diff_plus_u64) (auto simp: view_def split: option.split)
  then have "unat (approximate_data_size ?mt) = payload_total (entries ?mt)"
    using valid bound
    by (simp add: Add_ok_entries(1) [OF ok] upsert_total d [unfolded view_def] total
        unat_EncodedPayloadSize view_def)
  moreover have "keys_sorted (entries ?mt)"
    using wf by (simp add: Add_ok_entries(1) [OF ok] omap.invar_upsert mt_wf_def)
  moreover have "\<forall>(k', e) \<in> set (entries ?mt). entry_wf (mt_options ?mt) k' e"
    using all valid del set_upsert [of k "new_entry s t v" "entries mt"]
    by (auto simp: Add_ok_entries(1,2) [OF ok] entry_wf_def)
  ultimately show ?thesis
    by (simp add: mt_wf_def)
qed

lemma mt_wf_new [simp]: "mt_wf (new_MemTable options)"
  by (simp add: mt_wf_def new_MemTable_def payload_total_def)

lemma view_new [simp]: "view (new_MemTable options) = Map.empty"
  by (simp add: view_def new_MemTable_def fun_eq_iff)

lemma mt_options_new [simp]: "mt_options (new_MemTable options) = options"
  by (simp add: new_MemTable_def)

lemma Add_succeeds:
  assumes "mt_wf mt" and "s \<noteq> 0" and "ok (Validate mt k v)"
    and "\<And>e. view mt k = Some e \<Longrightarrow> e_sequence e < s"
    and "payload_total (entries mt) + entry_size k v \<le> size_max"
  shows "ok (snd (Add s t k v mt))"
  using assms by (simp add: Add_ok_cond mt_wf_def unat_EncodedPayloadSize)

lemma Add_total_le:
  assumes "mt_wf mt" and "ok (snd (Add s t k v mt))"
  shows "payload_total (entries (fst (Add s t k v mt))) \<le> payload_total (entries mt) + entry_size k v"
  using assms by (simp add: Add_ok_entries(1) upsert_total)

section \<open>The interface of a versioned store\<close>

text \<open>
  A log entry as both replay and the write path apply it, and the content a list of entries
  leaves behind when it is applied from left to right.
\<close>

definition entry_of :: "MemTableRecord \<Rightarrow> Entry" where
  "entry_of r = new_entry (r_sequence r) (r_type r) (r_value r)"

definition latest :: "MemTableRecord list \<Rightarrow> bytes \<Rightarrow> Entry option" where
  "latest rs = map_of (rev (map (\<lambda>r. (r_key r, entry_of r)) rs))"

lemma latest_Nil [simp]: "latest [] = Map.empty"
  by (simp add: latest_def fun_eq_iff)

lemma latest_snoc: "latest (rs @ [r]) = (latest rs)(r_key r \<mapsto> entry_of r)"
  by (simp add: latest_def)

lemma latest_Cons: "latest (r # rs) = [r_key r \<mapsto> entry_of r] ++ latest rs"
  by (simp add: latest_def map_of_append [symmetric])

locale versioned_store =
  fixes store :: "MemTableRecord \<Rightarrow> 's \<Rightarrow> 's \<times> status"
    and content :: "'s \<Rightarrow> bytes \<Rightarrow> Entry option"
    and invar :: "'s \<Rightarrow> bool"
    and storable :: "MemTableRecord \<Rightarrow> bool"
  assumes store_content: "invar s \<Longrightarrow> storable r \<Longrightarrow> ok (snd (store r s)) \<Longrightarrow>
      content (fst (store r s)) = (content s)(r_key r \<mapsto> entry_of r)"
    and store_invar: "invar s \<Longrightarrow> storable r \<Longrightarrow> invar (fst (store r s))"
    and store_fail: "\<not> ok (snd (store r s)) \<Longrightarrow> fst (store r s) = s"
begin

text \<open>Applying entries in order, stopping at the first failure.\<close>

fun replay :: "MemTableRecord list \<Rightarrow> 's \<Rightarrow> 's \<times> status" where
  "replay [] s = (s, Ok)"
| "replay (r # rs) s =
     (if ok (snd (store r s)) then replay rs (fst (store r s)) else store r s)"

lemma replay_invar: "invar s \<Longrightarrow> list_all storable rs \<Longrightarrow> invar (fst (replay rs s))"
  by (induction rs arbitrary: s) (auto simp: store_invar)

lemma replay_content:
  "invar s \<Longrightarrow> list_all storable rs \<Longrightarrow> ok (snd (replay rs s)) \<Longrightarrow>
     content (fst (replay rs s)) = content s ++ latest rs"
proof (induction rs arbitrary: s)
  case (Cons r rs)
  then have r: "ok (snd (store r s))"
    by (auto split: if_splits)
  with Cons have "content (fst (replay (r # rs) s)) = content (fst (store r s)) ++ latest rs"
    by (simp add: store_invar)
  also have "\<dots> = content s ++ latest (r # rs)"
    using Cons r by (simp add: store_content latest_Cons map_add_assoc [symmetric] map_add_def)
      (auto simp: fun_eq_iff split: option.split)
  finally show ?case .
qed simp

lemma replay_append:
  "ok (snd (replay rs s)) \<Longrightarrow> replay (rs @ qs) s = replay qs (fst (replay rs s))"
  by (induction rs arbitrary: s) (auto split: if_splits)

lemma replay_ok_append:
  "ok (snd (replay (rs @ qs) s)) \<longleftrightarrow>
     ok (snd (replay rs s)) \<and> ok (snd (replay qs (fst (replay rs s))))"
  by (induction rs arbitrary: s) auto

lemma replay_snoc:
  assumes "ok (snd (replay rs s))"
  shows "fst (replay (rs @ [r]) s) = fst (store r (fst (replay rs s)))"
    and "ok (snd (replay (rs @ [r]) s)) \<longleftrightarrow> ok (snd (store r (fst (replay rs s))))"
  using assms by (simp_all add: replay_append)

end

text \<open>The table as a versioned store: \<open>apply_record\<close> is the dispatch both callers use.\<close>

definition apply_record :: "MemTableRecord \<Rightarrow> MemTable \<Rightarrow> MemTable \<times> status" where
  "apply_record r mt =
     (if r_type r = kValue then Put (r_sequence r) (r_key r) (r_value r) mt
      else Delete (r_sequence r) (r_key r) mt)"

definition storable :: "MemTableRecord \<Rightarrow> bool" where
  "storable r \<longleftrightarrow> (r_type r = kDeletion \<longrightarrow> r_value r = [])"

definition mt_inv :: "MemTable \<Rightarrow> bool" where
  "mt_inv mt \<longleftrightarrow> mt_wf mt \<and> options_fit (mt_options mt)"

lemma apply_record_Add:
  "storable r \<Longrightarrow>
     apply_record r mt = Add (r_sequence r) (r_type r) (r_key r) (r_value r) mt"
  by (cases "r_type r") (auto simp: apply_record_def Put_def Delete_def storable_def)

interpretation table: versioned_store apply_record view mt_inv storable
proof
  fix mt r
  assume "mt_inv mt" and r: "storable r" and "ok (snd (apply_record r mt))"
  then show "view (fst (apply_record r mt)) = (view mt)(r_key r \<mapsto> entry_of r)"
    by (simp add: apply_record_Add Add_ok_view entry_of_def mt_inv_def mt_wf_def)
next
  fix mt r
  assume "mt_inv mt" and r: "storable r"
  then show "mt_inv (fst (apply_record r mt))"
    by (cases "ok (snd (apply_record r mt))")
      (auto simp: apply_record_Add mt_inv_def Add_ok_wf Add_ok_entries Add_fail storable_def)
qed (auto simp: apply_record_def Put_def Delete_def Add_fail split: if_splits)

section \<open>Properties\<close>

lemma Get_view:
  "ok (Validate mt k []) \<Longrightarrow> view mt k = Some e \<Longrightarrow>
     Get mt k =
       (if e_type e = kDeletion
        then \<lparr>lr_status = NotFound ''key was deleted'', lr_sequence = e_sequence e,
              lr_type = kDeletion, lr_value = []\<rparr>
        else \<lparr>lr_status = Ok, lr_sequence = e_sequence e, lr_type = kValue, lr_value = e_value e\<rparr>)"
  by (cases "e_type e") (simp_all add: Get_def Lookup_def view_def deleted_def found_def Let_def)

lemma Get_cong: "mt_options mt = mt_options mt' \<Longrightarrow> view mt k = view mt' k \<Longrightarrow> Get mt k = Get mt' k"
  by (simp add: Get_def Lookup_def view_def Validate_def)

lemma Add_then_Get:
  assumes "mt_wf mt" and ok: "ok (snd (Add s t k v mt))" and "t = kDeletion \<longrightarrow> v = []"
  shows "Get (fst (Add s t k v mt)) k' =
    (if k' = k then
       (if t = kDeletion
        then \<lparr>lr_status = NotFound ''key was deleted'', lr_sequence = s, lr_type = kDeletion,
              lr_value = []\<rparr>
        else \<lparr>lr_status = Ok, lr_sequence = s, lr_type = kValue, lr_value = v\<rparr>)
     else Get mt k')"
proof -
  have view: "view (fst (Add s t k v mt)) = (view mt)(k \<mapsto> new_entry s t v)"
    using assms by (simp add: Add_ok_view mt_wf_def)
  have "ok (Validate (fst (Add s t k v mt)) k [])"
    using ok by (auto simp: Add_ok_cond Validate_ok_iff Add_ok_entries)
  then show ?thesis
    using view ok by (auto simp: Get_view Add_ok_entries(2) intro: Get_cong)
qed

text \<open>
  A successful \<open>Put\<close> is visible at its key with its sequence number, and every other key reads
  exactly as before.
\<close>

theorem Put_then_Get:
  assumes "mt_wf mt" and "ok (snd (Put s k v mt))"
  shows "Get (fst (Put s k v mt)) k' =
    (if k' = k then \<lparr>lr_status = Ok, lr_sequence = s, lr_type = kValue, lr_value = v\<rparr>
     else Get mt k')"
  using assms Add_then_Get [of mt s kValue k v k'] by (simp add: Put_def)

theorem Put_then_Get_witness:
  "ok (snd (Put 1 [107] [118] (new_MemTable default_Options))) \<and>
   lr_value (Get (fst (Put 1 [107] [118] (new_MemTable default_Options))) [107]) = [118]"
proof -
  have ok: "ok (snd (Put 1 [107] [118] (new_MemTable default_Options)))"
    by (simp add: Put_def Add_def Validate_def new_MemTable_def default_Options_def
        EncodedPayloadSize_def kRecordMetadataSize_def)
  then show ?thesis
    using Put_then_Get [OF mt_wf_new ok, of "[107]"] by simp
qed

text \<open>
  A successful \<open>Delete\<close> hides its key from \<open>Get\<close> while \<open>Lookup\<close> still shows the tombstone with
  its sequence number, and every other key reads exactly as before.
\<close>

theorem Delete_then_Get:
  assumes "mt_wf mt" and "ok (snd (Delete s k mt))"
  shows "IsNotFound (lr_status (Get (fst (Delete s k mt)) k)) \<and>
    Lookup (fst (Delete s k mt)) k =
      \<lparr>lr_status = Ok, lr_sequence = s, lr_type = kDeletion, lr_value = []\<rparr> \<and>
    (\<forall>k'. k' \<noteq> k \<longrightarrow> Get (fst (Delete s k mt)) k' = Get mt k')"
proof -
  have ok: "ok (snd (Add s kDeletion k [] mt))"
    using assms(2) by (simp add: Delete_def)
  then have "view (fst (Add s kDeletion k [] mt)) k = Some (new_entry s kDeletion [])"
    using assms(1) by (simp add: Add_ok_view mt_wf_def)
  moreover have "ok (Validate (fst (Add s kDeletion k [] mt)) k [])"
    using ok by (auto simp: Add_ok_cond Validate_ok_iff Add_ok_entries)
  ultimately show ?thesis
    using Add_then_Get [OF assms(1) ok]
    by (simp add: Delete_def Lookup_def view_def)
qed

theorem Delete_then_Get_witness:
  "ok (snd (Delete 1 [107] (new_MemTable default_Options))) \<and>
   IsNotFound (lr_status (Get (fst (Delete 1 [107] (new_MemTable default_Options))) [107]))"
proof -
  have ok: "ok (snd (Delete 1 [107] (new_MemTable default_Options)))"
    by (simp add: Delete_def Add_def Validate_def new_MemTable_def default_Options_def
        EncodedPayloadSize_def kRecordMetadataSize_def)
  then show ?thesis
    using Delete_then_Get [OF mt_wf_new ok] by simp
qed

text \<open>Any sequence of writes, whether they succeed or fail.\<close>

datatype MemTable_op = OpPut u64 bytes bytes | OpDelete u64 bytes

fun MemTable_step :: "MemTable \<Rightarrow> MemTable_op \<Rightarrow> MemTable" where
  "MemTable_step mt (OpPut s k v) = fst (Put s k v mt)"
| "MemTable_step mt (OpDelete s k) = fst (Delete s k mt)"

lemma Add_wf:
  assumes "mt_inv mt" and "t = kDeletion \<longrightarrow> v = []"
  shows "mt_inv (fst (Add s t k v mt)) \<and> mt_options (fst (Add s t k v mt)) = mt_options mt"
  using assms
  by (cases "ok (snd (Add s t k v mt))") (auto simp: mt_inv_def Add_ok_wf Add_ok_entries Add_fail)

lemma MemTable_step_wf:
  "mt_inv mt \<Longrightarrow> mt_inv (MemTable_step mt x) \<and> mt_options (MemTable_step mt x) = mt_options mt"
  by (cases x) (simp_all add: Put_def Delete_def Add_wf)

lemma MemTable_run_wf:
  "mt_inv mt \<Longrightarrow>
     mt_inv (foldl MemTable_step mt ops) \<and> mt_options (foldl MemTable_step mt ops) = mt_options mt"
  by (induction ops arbitrary: mt) (simp_all add: MemTable_step_wf)

lemma Records_sorted: "keys_sorted (entries mt) \<Longrightarrow> sorted_wrt (<) (map r_key (Records mt))"
  by (simp add: Records_def comp_def case_prod_beta)

lemma payload_total_Records:
  "payload_total (entries mt) = (\<Sum>r \<leftarrow> Records mt. 9 + length (r_key r) + length (r_value r))"
  by (simp add: payload_total_def Records_def entry_size_def comp_def split_def)

text \<open>
  C39. After any sequence of writes to a new table, successful or not: the records come out in
  strictly increasing key order and within the configured limits, and the size counter, kept in
  wrapping 64-bit arithmetic, equals the exact sum of nine bytes plus key and value length over the
  stored records.
\<close>

theorem MemTable_run_invariant:
  assumes "options_fit options"
  shows "sorted_wrt (<) (map r_key (Records (foldl MemTable_step (new_MemTable options) ops))) \<and>
    (\<forall>r \<in> set (Records (foldl MemTable_step (new_MemTable options) ops)).
       r_key r \<noteq> [] \<and> length (r_key r) \<le> max_key_size options \<and>
       length (r_value r) \<le> max_value_size options \<and> r_sequence r \<noteq> 0) \<and>
    unat (ApproximateDataSize (foldl MemTable_step (new_MemTable options) ops)) =
      (\<Sum>r \<leftarrow> Records (foldl MemTable_step (new_MemTable options) ops).
         9 + length (r_key r) + length (r_value r))"
proof -
  let ?mt = "foldl MemTable_step (new_MemTable options) ops"
  have inv: "mt_wf ?mt" "mt_options ?mt = options"
    using MemTable_run_wf [of "new_MemTable options" ops] assms by (auto simp: mt_inv_def)
  then show ?thesis
    by (auto simp: mt_wf_def Records_sorted ApproximateDataSize_def payload_total_Records)
      (auto simp: Records_def entry_wf_def)
qed

theorem MemTable_run_invariant_witness:
  "options_fit default_Options \<and>
   sorted_wrt (<) (map r_key (Records (foldl MemTable_step (new_MemTable default_Options)
     [OpPut 1 [2] [7], OpPut 2 [1] [8, 8], OpDelete 3 [2], OpPut 3 [9] []])))"
proof -
  have fit: "options_fit default_Options"
    by (simp add: options_fit_def default_Options_def)
  then show ?thesis
    using MemTable_run_invariant [OF fit, of "[OpPut 1 [2] [7], OpPut 2 [1] [8, 8], OpDelete 3 [2], OpPut 3 [9] []]"]
    by blast
qed

end
