(* ===== verification/FileIO.thy ===== *)
theory FileIO
  imports Status
begin

text \<open>
  \<^verbatim>\<open>src/file.cpp\<close> and \<^verbatim>\<open>include/minikv/file.hpp\<close>: the abstract file classes and the two loops over
  them. A file is its content together with the outcomes its next calls will have: a finite list
  of faults (interruptions, short transfers, errors, wrong counts), after which every call
  succeeds in full. Every terminating execution of the loops is such a list; endless interruption
  is not represented, so the loops are total functions with a termination proof.
\<close>

definition quoted :: "string \<Rightarrow> string" where
  "quoted name = CHR 0x27 # name @ [CHR 0x27]"

section \<open>Results\<close>

datatype WriteResultKind = kWritten | kWriteInterrupted | kWriteError

datatype ReadResultKind = kRead | kEndOfFile | kReadInterrupted | kReadError

record WriteResult =
  wr_kind :: WriteResultKind
  bytes_written :: nat
  wr_status :: status

record ReadResult =
  rr_kind :: ReadResultKind
  bytes_read :: nat
  rr_status :: status

definition WriteResult_Written :: "nat \<Rightarrow> WriteResult" where
  "WriteResult_Written n = \<lparr>wr_kind = kWritten, bytes_written = n, wr_status = Ok\<rparr>"

definition WriteResult_Interrupted :: WriteResult where
  "WriteResult_Interrupted = \<lparr>wr_kind = kWriteInterrupted, bytes_written = 0, wr_status = Ok\<rparr>"

definition WriteResult_Error :: "status \<Rightarrow> WriteResult" where
  "WriteResult_Error s = \<lparr>wr_kind = kWriteError, bytes_written = 0, wr_status = s\<rparr>"

definition ReadResult_Read :: "nat \<Rightarrow> ReadResult" where
  "ReadResult_Read n = \<lparr>rr_kind = kRead, bytes_read = n, rr_status = Ok\<rparr>"

definition ReadResult_EndOfFile :: ReadResult where
  "ReadResult_EndOfFile = \<lparr>rr_kind = kEndOfFile, bytes_read = 0, rr_status = Ok\<rparr>"

definition ReadResult_Interrupted :: ReadResult where
  "ReadResult_Interrupted = \<lparr>rr_kind = kReadInterrupted, bytes_read = 0, rr_status = Ok\<rparr>"

definition ReadResult_Error :: "status \<Rightarrow> ReadResult" where
  "ReadResult_Error s = \<lparr>rr_kind = kReadError, bytes_read = 0, rr_status = s\<rparr>"

lemmas io_result_defs =
  WriteResult_Written_def WriteResult_Interrupted_def WriteResult_Error_def
  ReadResult_Read_def ReadResult_EndOfFile_def ReadResult_Interrupted_def ReadResult_Error_def

section \<open>Writable files\<close>

text \<open>
  \<open>Accepts n\<close>: the call takes at most \<open>n\<close> bytes and reports them; \<open>Overreports n\<close>: it reports
  \<open>n + 1\<close> bytes more than it was given. Together with \<open>Fails\<close>, for any status, these are all the
  results a \<open>WriteSome\<close> implementation can return. \<open>wf_durable\<close> is the content at the last
  successful \<open>Sync\<close>.
\<close>

datatype WriteOutcome = Accepts nat | Interrupts | Fails status | Overreports nat

record WritableFile =
  wf_name :: string
  wf_data :: bytes
  wf_durable :: bytes
  wf_writes :: "WriteOutcome list"
  wf_syncs :: "status list"

definition WriteSome :: "WritableFile \<Rightarrow> bytes \<Rightarrow> WriteResult \<times> WritableFile" where
  "WriteSome file data =
     (case wf_writes file of
        [] \<Rightarrow> (WriteResult_Written (length data), file\<lparr>wf_data := wf_data file @ data\<rparr>)
      | Accepts n # rest \<Rightarrow>
          (WriteResult_Written (min n (length data)),
           file\<lparr>wf_data := wf_data file @ take n data, wf_writes := rest\<rparr>)
      | Interrupts # rest \<Rightarrow> (WriteResult_Interrupted, file\<lparr>wf_writes := rest\<rparr>)
      | Fails s # rest \<Rightarrow> (WriteResult_Error s, file\<lparr>wf_writes := rest\<rparr>)
      | Overreports n # rest \<Rightarrow>
          (WriteResult_Written (length data + n + 1),
           file\<lparr>wf_data := wf_data file @ data, wf_writes := rest\<rparr>))"

definition Sync :: "WritableFile \<Rightarrow> status \<times> WritableFile" where
  "Sync file =
     (case wf_syncs file of
        [] \<Rightarrow> (Ok, file\<lparr>wf_durable := wf_data file\<rparr>)
      | s # rest \<Rightarrow>
          (s, file\<lparr>wf_syncs := rest,
                    wf_durable := (if ok s then wf_data file else wf_durable file)\<rparr>))"

text \<open>The loop of \<open>WriteAll\<close> from a given \<open>offset\<close>.\<close>

function write_loop :: "WritableFile \<Rightarrow> bytes \<Rightarrow> nat \<Rightarrow> WritableFile \<times> status" where
  "write_loop file data offset =
     (if offset < length data then
        let (result, file') = WriteSome file (drop offset data) in
        if wr_kind result = kWriteInterrupted then write_loop file' data offset
        else if wr_kind result = kWriteError then
          (file',
           if ok (wr_status result)
           then IOError (''write failed for '' @ quoted (wf_name file) @ '' without an error'')
           else wr_status result)
        else if bytes_written result = 0 then
          (file', IOError (''write made no progress for '' @ quoted (wf_name file)))
        else if bytes_written result > length data - offset then
          (file', IOError (''write reported too many bytes for '' @ quoted (wf_name file)))
        else write_loop file' data (offset + bytes_written result)
      else (file, Ok))"
  by pat_completeness auto
termination
  by (relation "measure (\<lambda>(file, data, offset). length (wf_writes file) + (length data - offset))")
    (auto simp: WriteSome_def io_result_defs split: list.splits WriteOutcome.splits)

declare write_loop.simps [simp del]

definition WriteAll :: "WritableFile \<Rightarrow> bytes \<Rightarrow> WritableFile \<times> status" where
  "WriteAll file data = write_loop file data 0"

section \<open>Recovery files\<close>

text \<open>
  \<open>Delivers n\<close>: at most \<open>n\<close> bytes are copied; \<open>SignalsEof\<close>: the call reports the end of the file
  whatever the recorded size says (the file shrank).
\<close>

datatype ReadOutcome =
  Delivers nat | ReadInterrupts | ReadFails status | SignalsEof | ReadOverreports nat

record RecoveryFile =
  rf_name :: string
  rf_data :: bytes
  rf_reads :: "ReadOutcome list"
  rf_sizes :: "status list"
  rf_truncates :: "status list"
  rf_syncs :: "status list"

text \<open>\<open>next_status\<close> takes the next scripted outcome of a call that reports a status only.\<close>

fun next_status :: "status list \<Rightarrow> status \<times> status list" where
  "next_status [] = (Ok, [])"
| "next_status (s # rest) = (s, rest)"

definition Size :: "RecoveryFile \<Rightarrow> nat result \<times> RecoveryFile" where
  "Size file =
     (let (s, rest) = next_status (rf_sizes file)
      in (if ok s then Inr (length (rf_data file)) else Inl s, file\<lparr>rf_sizes := rest\<rparr>))"

text \<open>Truncation cuts the content, or extends it with zeros.\<close>

definition resized :: "nat \<Rightarrow> bytes \<Rightarrow> bytes" where
  "resized n data = take n data @ replicate (n - length data) 0"

definition Truncate :: "RecoveryFile \<Rightarrow> nat \<Rightarrow> status \<times> RecoveryFile" where
  "Truncate file n =
     (let (s, rest) = next_status (rf_truncates file)
      in (s, file\<lparr>rf_truncates := rest,
                   rf_data := (if ok s then resized n (rf_data file) else rf_data file)\<rparr>))"

definition RecoverySync :: "RecoveryFile \<Rightarrow> status \<times> RecoveryFile" where
  "RecoverySync file =
     (let (s, rest) = next_status (rf_syncs file) in (s, file\<lparr>rf_syncs := rest\<rparr>))"

text \<open>\<open>ReadSome\<close> returns the bytes it copied to the destination beside its result.\<close>

definition ReadSome :: "RecoveryFile \<Rightarrow> nat \<Rightarrow> nat \<Rightarrow> ReadResult \<times> bytes \<times> RecoveryFile" where
  "ReadSome file offset count =
     (let available = take count (drop offset (rf_data file)) in
      case rf_reads file of
        [] \<Rightarrow>
          (if available = [] then (ReadResult_EndOfFile, [], file)
           else (ReadResult_Read (length available), available, file))
      | Delivers n # rest \<Rightarrow>
          (if available = [] then (ReadResult_EndOfFile, [], file\<lparr>rf_reads := rest\<rparr>)
           else (ReadResult_Read (length (take n available)), take n available,
                 file\<lparr>rf_reads := rest\<rparr>))
      | ReadInterrupts # rest \<Rightarrow> (ReadResult_Interrupted, [], file\<lparr>rf_reads := rest\<rparr>)
      | ReadFails s # rest \<Rightarrow> (ReadResult_Error s, [], file\<lparr>rf_reads := rest\<rparr>)
      | SignalsEof # rest \<Rightarrow> (ReadResult_EndOfFile, [], file\<lparr>rf_reads := rest\<rparr>)
      | ReadOverreports n # rest \<Rightarrow>
          (ReadResult_Read (count + n + 1), available, file\<lparr>rf_reads := rest\<rparr>))"

text \<open>The loop of \<open>ReadAllAt\<close>; \<open>acc\<close> is the part of the destination filled so far.\<close>

function read_loop :: "RecoveryFile \<Rightarrow> nat \<Rightarrow> nat \<Rightarrow> bytes \<Rightarrow> RecoveryFile \<times> bytes result" where
  "read_loop file offset count acc =
     (if length acc < count then
        if offset > u64_max - length acc then
          (file, Inl (IOError (''read offset overflows for '' @ quoted (rf_name file))))
        else
        let (result, copied, file') = ReadSome file (offset + length acc) (count - length acc) in
        if rr_kind result = kReadInterrupted then read_loop file' offset count acc
        else if rr_kind result = kEndOfFile then
          (file', Inl (Incomplete (''unexpected EOF while reading '' @ quoted (rf_name file))))
        else if rr_kind result = kReadError then
          (file',
           Inl (if ok (rr_status result)
                then IOError (''read failed for '' @ quoted (rf_name file) @ '' without an error'')
                else rr_status result))
        else if bytes_read result = 0 then
          (file', Inl (IOError (''read made no progress for '' @ quoted (rf_name file))))
        else if bytes_read result > count - length acc then
          (file', Inl (IOError (''read reported too many bytes for '' @ quoted (rf_name file))))
        else read_loop file' offset count (acc @ copied)
      else (file, Inr acc))"
  by pat_completeness auto
termination
  by (relation "measure (\<lambda>(file, offset, count, acc). length (rf_reads file) + (count - length acc))")
    (auto simp: ReadSome_def io_result_defs Let_def
      split: list.splits ReadOutcome.splits if_splits)

declare read_loop.simps [simp del]

definition ReadAllAt :: "RecoveryFile \<Rightarrow> nat \<Rightarrow> nat \<Rightarrow> RecoveryFile \<times> bytes result" where
  "ReadAllAt file offset count = read_loop file offset count []"

lemma resized_cut [simp]: "n \<le> length data \<Longrightarrow> resized n data = take n data"
  by (simp add: resized_def)

section \<open>What the write loop leaves behind\<close>

lemma WriteSome_frame:
  assumes "WriteSome f data = (result, f')"
  shows "wf_name f' = wf_name f \<and> wf_durable f' = wf_durable f \<and>
    wf_syncs f' = wf_syncs f"
  using assms by (auto simp: WriteSome_def split: list.splits WriteOutcome.splits)

lemma WriteSome_data:
  assumes "WriteSome f data = (result, f')"
  shows "wf_data f' =
    wf_data f @ (if wr_kind result = kWritten then take (bytes_written result) data else [])"
  using assms
  by (auto simp: WriteSome_def io_result_defs min_def split: list.splits WriteOutcome.splits)

lemma write_loop_appends:
  "offset \<le> length data \<Longrightarrow> write_loop f data offset = (f', st) \<Longrightarrow>
     \<exists>n. offset + n \<le> length data \<and> wf_data f' = wf_data f @ take n (drop offset data) \<and>
         (ok st \<longrightarrow> offset + n = length data) \<and>
         wf_name f' = wf_name f \<and> wf_durable f' = wf_durable f \<and>
         wf_syncs f' = wf_syncs f"
proof (induction f data offset arbitrary: f' st rule: write_loop.induct)
  case (1 f data offset)
  obtain result g where some: "WriteSome f (drop offset data) = (result, g)"
    by force
  note frame = WriteSome_frame [OF some] and appended = WriteSome_data [OF some]
  show ?case
  proof (cases "offset < length data")
    case False
    then show ?thesis
      using "1.prems" by (intro exI [of _ 0]) (auto simp: write_loop.simps [of f])
  next
    case True
    note run = "1.prems"(2) [unfolded write_loop.simps [of f] some, simplified True, simplified]
    consider (again) "wr_kind result = kWriteInterrupted" "write_loop g data offset = (f', st)"
      | (more) "wr_kind result = kWritten" "0 < bytes_written result"
          "bytes_written result \<le> length data - offset"
          "write_loop g data (offset + bytes_written result) = (f', st)"
      | (stop) "f' = g" "\<not> ok st"
      using run by (cases "wr_kind result") (auto split: if_splits)
    then show ?thesis
    proof cases
      case again
      then show ?thesis
        using "1.IH"(1) [OF True some [symmetric] refl _ "1.prems"(1), of f' st] frame appended
        by auto
    next
      case more
      let ?k = "bytes_written result"
      have "offset + ?k \<le> length data"
        using more(3) True by linarith
      then obtain n where n: "offset + ?k + n \<le> length data"
        "wf_data f' = wf_data g @ take n (drop (offset + ?k) data)"
        "ok st \<longrightarrow> offset + ?k + n = length data"
        "wf_name f' = wf_name g \<and> wf_durable f' = wf_durable g \<and> wf_syncs f' = wf_syncs g"
        using "1.IH"(2) [OF True some [symmetric] refl _ _ _ _ _ more(4)] more by auto
      have "take (?k + n) (drop offset data) = take ?k (drop offset data) @ take n (drop (offset + ?k) data)"
        by (subst take_add) (simp add: add.commute)
      then show ?thesis
        using n more frame appended by (intro exI [of _ "?k + n"]) (auto simp: add.assoc)
    next
      case stop
      then show ?thesis
        using frame appended True
        by (intro exI [of _ "if wr_kind result = kWritten
              then min (bytes_written result) (length data - offset) else 0"])
          (auto simp: min_def)
    qed
  qed
qed

text \<open>Every call but the last makes progress, and the loop fails exactly when the last one does not.\<close>

lemma WriteSome_call:
  assumes "WriteSome f data = (result, g)" and "data \<noteq> []"
  obtains (script) c where "wf_writes f = c # wf_writes g" "wr_kind result = kWriteInterrupted \<longleftrightarrow> c = Interrupts"
      "wr_kind result = kWritten \<and> 0 < bytes_written result \<and> bytes_written result \<le> length data \<longleftrightarrow> (\<exists>k > 0. c = Accepts k)"
  | (rest) "wf_writes f = []" "wf_writes g = []" "wr_kind result = kWritten" "bytes_written result = length data"
  using assms by (auto simp: WriteSome_def io_result_defs split: list.splits WriteOutcome.splits)

lemma write_loop_calls:
  "offset \<le> length data \<Longrightarrow> write_loop f data offset = (f', st) \<Longrightarrow>
     \<exists>calls. wf_writes f = calls @ wf_writes f' \<and>
       length (filter (\<lambda>c. c \<noteq> Interrupts) calls) \<le> length data - offset \<and>
       (ok st \<longleftrightarrow> (\<forall>c \<in> set calls. c = Interrupts \<or> (\<exists>k > 0. c = Accepts k)))"
proof (induction f data offset arbitrary: f' st rule: write_loop.induct)
  case (1 f data offset)
  show ?case
  proof (cases "offset < length data")
    case False
    then show ?thesis
      using "1.prems" by (auto simp: write_loop.simps [of f])
  next
    case True
    then have ne: "drop offset data \<noteq> []"
      by simp
    obtain result g where some: "WriteSome f (drop offset data) = (result, g)"
      by force
    note run = "1.prems"(2) [unfolded write_loop.simps [of f] some, simplified True, simplified]
    consider (again) "wr_kind result = kWriteInterrupted" "write_loop g data offset = (f', st)"
      | (more) "wr_kind result = kWritten" "0 < bytes_written result" "bytes_written result \<le> length data - offset"
          "write_loop g data (offset + bytes_written result) = (f', st)"
      | (stop) "f' = g" "\<not> ok st" "wr_kind result \<noteq> kWriteInterrupted"
          "\<not> (wr_kind result = kWritten \<and> 0 < bytes_written result \<and> bytes_written result \<le> length data - offset)"
      using run by (cases "wr_kind result") (auto split: if_splits)
    then show ?thesis
    proof cases
      case again
      obtain calls where calls: "wf_writes g = calls @ wf_writes f'"
          "length (filter (\<lambda>c. c \<noteq> Interrupts) calls) \<le> length data - offset"
          "ok st \<longleftrightarrow> (\<forall>c \<in> set calls. c = Interrupts \<or> (\<exists>k > 0. c = Accepts k))"
        using "1.IH"(1) [OF True some [symmetric] refl again(1) "1.prems"(1) again(2)] by blast
      from some ne show ?thesis
      proof (cases rule: WriteSome_call)
        case (script c)
        then show ?thesis
          using calls again(1) by (intro exI [of _ "c # calls"]) auto
      qed (use again(1) in auto)
    next
      case more
      let ?k = "bytes_written result"
      have "offset + ?k \<le> length data"
        using more(3) True by linarith
      then obtain calls where calls: "wf_writes g = calls @ wf_writes f'"
          "length (filter (\<lambda>c. c \<noteq> Interrupts) calls) \<le> length data - (offset + ?k)"
          "ok st \<longleftrightarrow> (\<forall>c \<in> set calls. c = Interrupts \<or> (\<exists>k > 0. c = Accepts k))"
        using "1.IH"(2) [OF True some [symmetric] refl _ _ _ _ _ more(4)] more by auto
      from some ne show ?thesis
      proof (cases rule: WriteSome_call)
        case (script c)
        have "\<exists>k > 0. c = Accepts k"
          using script(3) more(1-3) by simp
        then show ?thesis
          using script(1) calls more(2,3) by (intro exI [of _ "c # calls"]) auto
      next
        case rest
        then show ?thesis
          using calls by (intro exI [of _ "[]"]) auto
      qed
    next
      case stop
      from some ne show ?thesis
      proof (cases rule: WriteSome_call)
        case (script c)
        have "c \<noteq> Interrupts" "\<not> (\<exists>k > 0. c = Accepts k)"
          using script(2,3) stop(3,4) by simp_all
        then show ?thesis
          using script(1) stop(1,2) True by (intro exI [of _ "[c]"]) auto
      next
        case rest
        then show ?thesis
          using stop(4) True by simp
      qed
    qed
  qed
qed

lemma WriteAll_appends:
  assumes "WriteAll f data = (f', st)"
  obtains n where "n \<le> length data" "wf_data f' = wf_data f @ take n data"
    "ok st \<longrightarrow> n = length data" "wf_name f' = wf_name f" "wf_durable f' = wf_durable f"
    "wf_syncs f' = wf_syncs f"
  using write_loop_appends [of 0 data f f' st] assms by (auto simp: WriteAll_def)

text \<open>Interruptions and short writes are retried until everything is written.\<close>

fun benign_write :: "WriteOutcome \<Rightarrow> bool" where
  "benign_write (Accepts n) \<longleftrightarrow> 0 < n"
| "benign_write Interrupts \<longleftrightarrow> True"
| "benign_write (Fails s) \<longleftrightarrow> False"
| "benign_write (Overreports n) \<longleftrightarrow> False"

lemma write_loop_benign:
  "list_all benign_write (wf_writes f) \<Longrightarrow> snd (write_loop f data offset) = Ok"
proof (induction f data offset rule: write_loop.induct)
  case (1 f data offset)
  then show ?case
    by (subst write_loop.simps)
      (auto simp: WriteSome_def io_result_defs Let_def split: list.splits WriteOutcome.splits)
qed

section \<open>What the read loop returns\<close>

lemma ReadSome_frame:
  assumes "ReadSome f offset count = (result, copied, f')"
  shows "\<exists>xs. f' = f\<lparr>rf_reads := xs\<rparr> \<and> set xs \<subseteq> set (rf_reads f)"
  using assms
  by (cases f; cases "rf_reads f")
    (force simp: ReadSome_def Let_def split: list.splits ReadOutcome.splits if_splits)+

lemma ReadSome_copied:
  assumes "ReadSome f offset count = (result, copied, f')"
    and "rr_kind result = kRead" and "bytes_read result \<le> count"
  shows "copied = take (bytes_read result) (drop offset (rf_data f)) \<and>
    length copied = bytes_read result"
  using assms
  by (auto simp: ReadSome_def Let_def io_result_defs min_def split: list.splits ReadOutcome.splits if_splits)

lemma read_loop_data:
  "length acc \<le> count \<Longrightarrow> acc = take (length acc) (drop offset (rf_data f)) \<Longrightarrow>
   read_loop f offset count acc = (f', r) \<Longrightarrow>
     (\<exists>xs. f' = f\<lparr>rf_reads := xs\<rparr> \<and> set xs \<subseteq> set (rf_reads f)) \<and>
     (\<forall>bs. r = Inr bs \<longrightarrow> bs = take count (drop offset (rf_data f)) \<and> length bs = count)"
proof (induction f offset count acc arbitrary: f' r rule: read_loop.induct)
  case (1 f offset count acc)
  obtain result copied g
    where some: "ReadSome f (offset + length acc) (count - length acc) = (result, copied, g)"
    by (metis prod_cases3)
  obtain xs where g: "g = f\<lparr>rf_reads := xs\<rparr>" "set xs \<subseteq> set (rf_reads f)"
    using ReadSome_frame [OF some] by blast
  show ?case
  proof (cases "length acc < count \<and> offset \<le> u64_max - length acc")
    case False
    then have "f' = f" and "\<forall>bs. r = Inr bs \<longrightarrow> bs = acc \<and> length acc = count"
      using "1.prems"(1,3) by (auto simp: read_loop.simps [of f] split: if_splits)
    then show ?thesis
      using "1.prems"(2) by (auto intro!: exI [of _ "rf_reads f"])
  next
    case True
    then have more: "length acc < count" "\<not> u64_max - length acc < offset"
      by simp_all
    note run = "1.prems"(3) [unfolded read_loop.simps [of f] some, simplified more, simplified]
    consider (again) "rr_kind result = kReadInterrupted" "read_loop g offset count acc = (f', r)"
      | (got) "rr_kind result = kRead" "0 < bytes_read result"
          "bytes_read result \<le> count - length acc"
          "read_loop g offset count (acc @ copied) = (f', r)"
      | (stop) "f' = g" "\<exists>s. r = Inl s"
      using run True by (cases "rr_kind result") (auto split: if_splits)
    then show ?thesis
    proof cases
      case again
      then show ?thesis
        using "1.IH"(1) [OF more some [symmetric] refl refl _ "1.prems"(1)] "1.prems"(2) g
        by fastforce
    next
      case got
      have copied: "copied = take (bytes_read result) (drop (offset + length acc) (rf_data f))"
        "length copied = bytes_read result"
        using ReadSome_copied [OF some] got by auto
      have A: "length (acc @ copied) \<le> count"
        using got copied more by simp
      have "acc @ copied = take (length acc + length copied) (drop offset (rf_data f))"
        using "1.prems"(2) copied by (metis add.commute drop_drop take_add)
      moreover have "rf_data g = rf_data f"
        by (simp add: g)
      ultimately have B: "acc @ copied = take (length (acc @ copied)) (drop offset (rf_data g))"
        by (metis length_append)
      have "(\<exists>xs. f' = g\<lparr>rf_reads := xs\<rparr> \<and> set xs \<subseteq> set (rf_reads g)) \<and>
          (\<forall>bs. r = Inr bs \<longrightarrow> bs = take count (drop offset (rf_data g)) \<and> length bs = count)"
        by (rule "1.IH"(2) [OF more some [symmetric] refl refl _ _ _ _ _ A B got(4)])
          (use got(1-3) in simp_all)
      then show ?thesis using g by auto
    next
      case stop
      then show ?thesis using g by auto
    qed
  qed
qed

lemma ReadAllAt_data:
  assumes "ReadAllAt f offset count = (f', r)"
  shows "rf_data f' = rf_data f"
    and "r = Inr bs \<Longrightarrow> bs = take count (drop offset (rf_data f)) \<and> length bs = count"
  using read_loop_data [of "[]" count offset f f' r] assms by (auto simp: ReadAllAt_def)

lemma read_loop_Inl: "snd (read_loop f offset count acc) = Inl s \<Longrightarrow> \<not> ok s"
proof (induction f offset count acc rule: read_loop.induct)
  case (1 f offset count acc)
  then show ?case
    by (subst (asm) (3) read_loop.simps) (auto simp: Let_def split: if_splits prod.splits)
qed

lemma ReadAllAt_Inl: "ReadAllAt f offset count = (f', Inl s) \<Longrightarrow> \<not> ok s"
  using read_loop_Inl [of f offset count "[]" s] by (simp add: ReadAllAt_def)

text \<open>
  Interruptions and short reads are retried: on a file whose script holds nothing worse, the loop
  delivers exactly the region, or reports an incomplete read when the region leaves the file.
\<close>

fun benign_read :: "ReadOutcome \<Rightarrow> bool" where
  "benign_read (Delivers n) \<longleftrightarrow> 0 < n"
| "benign_read ReadInterrupts \<longleftrightarrow> True"
| "benign_read (ReadFails s) \<longleftrightarrow> False"
| "benign_read SignalsEof \<longleftrightarrow> False"
| "benign_read (ReadOverreports n) \<longleftrightarrow> False"

definition benign_file :: "RecoveryFile \<Rightarrow> bool" where
  "benign_file f \<longleftrightarrow>
     list_all benign_read (rf_reads f) \<and> length (rf_data f) \<le> u64_max \<and>
     rf_sizes f = [] \<and> rf_truncates f = [] \<and> rf_syncs f = []"

definition eof_status :: "RecoveryFile \<Rightarrow> status" where
  "eof_status f = Incomplete (''unexpected EOF while reading '' @ quoted (rf_name f))"

lemma ReadSome_benign:
  assumes "list_all benign_read (rf_reads f)" and "0 < count"
  obtains (intr) g where "ReadSome f offset count = (ReadResult_Interrupted, [], g)"
      "length (rf_reads g) < length (rf_reads f)"
    | (eof) g where "ReadSome f offset count = (ReadResult_EndOfFile, [], g)"
      "length (rf_data f) \<le> offset"
    | (got) n g where "0 < n" "n \<le> count" "offset + n \<le> length (rf_data f)"
      "ReadSome f offset count = (ReadResult_Read n, take n (drop offset (rf_data f)), g)"
proof (cases "length (rf_data f) \<le> offset")
  case True
  then have none: "take count (drop offset (rf_data f)) = []"
    by simp
  show ?thesis
  proof (cases "rf_reads f")
    case (Cons x xs)
    then show ?thesis
      using assms(1) none True eof [of "f\<lparr>rf_reads := xs\<rparr>"] intr [of "f\<lparr>rf_reads := xs\<rparr>"]
      by (cases x) (simp_all add: ReadSome_def)
  qed (use none True eof [of f] in \<open>simp add: ReadSome_def\<close>)
next
  case False
  then have some: "take count (drop offset (rf_data f)) \<noteq> []"
    using assms(2) by simp
  let ?avail = "min count (length (rf_data f) - offset)"
  have len: "length (take count (drop offset (rf_data f))) = ?avail"
    by simp
  have take: "take (min n ?avail) (drop offset (rf_data f)) = take n (take count (drop offset (rf_data f)))" for n
    by (simp add: min_def)
  have fits: "offset + ?avail \<le> length (rf_data f)" "offset + min n ?avail \<le> length (rf_data f)" for n
    using False by linarith+
  have all: "take ?avail (drop offset (rf_data f)) = take count (drop offset (rf_data f))"
    by (simp add: min_def)
  show ?thesis
  proof (cases "rf_reads f")
    case Nil
    then show ?thesis
      using False assms(2) some len all fits got [of ?avail f]
      by (simp add: ReadSome_def Let_def min.commute)
  next
    case (Cons x xs)
    show ?thesis
    proof (cases x)
      case (Delivers n)
      let ?n = "min n ?avail"
      have "0 < n" using assms(1) Cons Delivers by simp
      then have "0 < ?n" "?n \<le> count"
        using False assms(2) by simp_all
      moreover have "length (take n (take count (drop offset (rf_data f)))) = ?n"
        by (simp add: min.commute min.left_commute)
      then have "ReadSome f offset count =
          (ReadResult_Read ?n, take ?n (drop offset (rf_data f)), f\<lparr>rf_reads := xs\<rparr>)"
        using Cons Delivers some by (simp only: ReadSome_def Let_def take list.case ReadOutcome.case if_False)
      ultimately show ?thesis
        using fits got by blast
    next
      case ReadInterrupts
      then show ?thesis
        using Cons intr [of "f\<lparr>rf_reads := xs\<rparr>"] by (simp add: ReadSome_def)
    qed (use Cons assms in auto)
  qed
qed

lemma read_loop_benign:
  "list_all benign_read (rf_reads f) \<Longrightarrow> length acc \<le> count \<Longrightarrow>
   offset + length acc \<le> length (rf_data f) \<Longrightarrow> length (rf_data f) \<le> u64_max \<Longrightarrow>
   read_loop f offset count acc = (f', r) \<Longrightarrow>
     (if offset + count \<le> length (rf_data f) then \<exists>bs. r = Inr bs else r = Inl (eof_status f))"
proof (induction f offset count acc arbitrary: f' r rule: read_loop.induct)
  case (1 f offset count acc)
  show ?case
  proof (cases "length acc < count")
    case False
    then show ?thesis
      using "1.prems" by (auto simp: read_loop.simps [of f])
  next
    case True
    have no: "\<not> u64_max - length acc < offset"
      using "1.prems"(3,4) by linarith
    have pos: "0 < count - length acc" using True by simp
    show ?thesis
      using "1.prems"(1) pos
    proof (cases rule: ReadSome_benign [where offset = "offset + length acc"])
      case (intr g)
      obtain xs where g: "g = f\<lparr>rf_reads := xs\<rparr>" "set xs \<subseteq> set (rf_reads f)"
        using ReadSome_frame [OF intr(1)] by blast
      have "read_loop g offset count acc = (f', r)"
        using "1.prems"(5) intr(1) True no by (simp add: read_loop.simps [of f] io_result_defs)
      then have "if offset + count \<le> length (rf_data g) then \<exists>bs. r = Inr bs else r = Inl (eof_status g)"
        by (intro "1.IH"(1) [OF True no intr(1) [symmetric] refl refl])
          (use "1.prems"(1-4) g in \<open>auto simp: io_result_defs list_all_iff\<close>)
      then show ?thesis
        using g(1) by (simp add: eof_status_def)
    next
      case (eof g)
      then show ?thesis
        using "1.prems" True no by (auto simp: read_loop.simps [of f] io_result_defs eof_status_def)
    next
      case (got n g)
      obtain xs where g: "g = f\<lparr>rf_reads := xs\<rparr>" "set xs \<subseteq> set (rf_reads f)"
        using ReadSome_frame [OF got(4)] by blast
      let ?c = "take n (drop (offset + length acc) (rf_data f))"
      have len: "length ?c = n" using got(3) by simp
      have run: "read_loop g offset count (acc @ ?c) = (f', r)"
        using "1.prems"(5) got True no by (simp add: read_loop.simps [of f] io_result_defs)
      have "if offset + count \<le> length (rf_data g) then \<exists>bs. r = Inr bs else r = Inl (eof_status g)"
        by (rule "1.IH"(2) [OF True no got(4) [symmetric] refl refl _ _ _ _ _ _ _ _ _ run])
          (use "1.prems"(1-4) got(1-3) g len in \<open>auto simp: io_result_defs list_all_iff\<close>)
      then show ?thesis
        using g(1) by (simp add: eof_status_def)
    qed
  qed
qed

lemma ReadAllAt_benign:
  assumes "benign_file f" and "offset \<le> length (rf_data f)"
  obtains f' where "ReadAllAt f offset count =
      (f', if offset + count \<le> length (rf_data f) then Inr (take count (drop offset (rf_data f)))
           else Inl (eof_status f))"
    "benign_file f'" "rf_data f' = rf_data f" "rf_name f' = rf_name f"
proof -
  obtain f' r where run: "read_loop f offset count [] = (f', r)"
    by force
  have "\<exists>xs. f' = f\<lparr>rf_reads := xs\<rparr> \<and> set xs \<subseteq> set (rf_reads f)"
    using read_loop_data [OF _ _ run] by simp
  then have "benign_file f'" "rf_data f' = rf_data f" "rf_name f' = rf_name f"
    using assms(1) by (auto simp: benign_file_def list_all_iff)
  moreover have "r = (if offset + count \<le> length (rf_data f) then Inr (take count (drop offset (rf_data f)))
      else Inl (eof_status f))"
  proof -
    have benign: "list_all benign_read (rf_reads f)" "length (rf_data f) \<le> u64_max"
      using assms(1) by (simp_all add: benign_file_def)
    have "if offset + count \<le> length (rf_data f) then \<exists>bs. r = Inr bs else r = Inl (eof_status f)"
      by (rule read_loop_benign [OF benign(1) _ _ benign(2) run]) (use assms(2) in simp_all)
    moreover have "\<forall>bs. r = Inr bs \<longrightarrow> bs = take count (drop offset (rf_data f))"
      using read_loop_data [OF _ _ run] by simp
    ultimately show ?thesis
      by (cases "offset + count \<le> length (rf_data f)") auto
  qed
  ultimately show ?thesis
    using that run by (simp add: ReadAllAt_def)
qed

section \<open>The interface of a log device\<close>

text \<open>
  What the write-ahead log relies on. \<open>crash_image f bs\<close>: after a crash the file holds a prefix of
  what was appended that still contains everything the last successful flush covered.
\<close>

locale log_device =
  fixes append :: "'f \<Rightarrow> bytes \<Rightarrow> 'f \<times> status"
    and flush :: "'f \<Rightarrow> status \<times> 'f"
    and content :: "'f \<Rightarrow> bytes"
    and durable :: "'f \<Rightarrow> bytes"
  assumes append_content:
      "\<exists>n \<le> length bs. content (fst (append f bs)) = content f @ take n bs \<and>
         (ok (snd (append f bs)) \<longrightarrow> n = length bs)"
    and append_durable: "durable (fst (append f bs)) = durable f"
    and flush_content: "content (snd (flush f)) = content f"
    and flush_durable: "durable (snd (flush f)) = (if ok (fst (flush f)) then content f else durable f)"
begin

definition crash_image :: "'f \<Rightarrow> bytes \<Rightarrow> bool" where
  "crash_image f bs \<longleftrightarrow> (\<exists>n. bs = take n (content f) \<and> length (durable f) \<le> n)"

definition device_ok :: "'f \<Rightarrow> bool" where
  "device_ok f \<longleftrightarrow> (\<exists>n. durable f = take n (content f))"

lemma append_ok: "ok (snd (append f bs)) \<Longrightarrow> content (fst (append f bs)) = content f @ bs"
  using append_content [of bs f] by auto

lemma append_device_ok: "device_ok f \<Longrightarrow> device_ok (fst (append f bs))"
proof -
  assume "device_ok f"
  then obtain n where "durable f = take n (content f)"
    by (auto simp: device_ok_def)
  then have "durable f = take (min n (length (content f))) (content f)"
    by (simp add: min_def)
  then have "durable (fst (append f bs)) = take (min n (length (content f))) (content (fst (append f bs)))"
    using append_content [of bs f] append_durable [of f bs] by auto
  then show ?thesis
    unfolding device_ok_def by blast
qed

lemma flush_device_ok: "device_ok f \<Longrightarrow> device_ok (snd (flush f))"
  by (auto simp: device_ok_def flush_content flush_durable intro: exI [of _ "length (content f)"])

lemma flushed_crash_image:
  "ok (fst (flush f)) \<Longrightarrow> crash_image (snd (flush f)) bs \<Longrightarrow> bs = content f"
  by (auto simp: crash_image_def flush_content flush_durable)

lemma crash_image_durable: "device_ok f \<Longrightarrow> crash_image f bs \<Longrightarrow> \<exists>rest. bs = durable f @ rest"
proof -
  assume "device_ok f" and "crash_image f bs"
  then obtain m n where m: "durable f = take m (content f)" and n: "bs = take n (content f)"
      "length (durable f) \<le> n"
    by (auto simp: device_ok_def crash_image_def)
  have "durable f = take (length (durable f)) bs"
    using m n by (simp add: min_def split: if_splits)
  then show ?thesis
    by (metis append_take_drop_id)
qed

end

interpretation wal_device: log_device WriteAll Sync wf_data wf_durable
proof
  fix f bs
  show "\<exists>n \<le> length bs. wf_data (fst (WriteAll f bs)) = wf_data f @ take n bs \<and>
      (ok (snd (WriteAll f bs)) \<longrightarrow> n = length bs)"
    by (rule WriteAll_appends [of f bs "fst (WriteAll f bs)" "snd (WriteAll f bs)"]) auto
  show "wf_durable (fst (WriteAll f bs)) = wf_durable f"
    by (rule WriteAll_appends [of f bs "fst (WriteAll f bs)" "snd (WriteAll f bs)"]) auto
qed (auto simp: Sync_def split: list.split)

section \<open>Properties\<close>

text \<open>
  C40. \<open>WriteAll\<close> ends after a number of calls that the length of the data bounds. Let \<open>calls\<close> be the
  outcomes of the \<open>WriteSome\<close> calls it makes, in order, of those that are scripted, and \<open>n\<close> the number
  of bytes that have reached the file. Apart from interrupted calls, which are repeated, there are at
  most as many as there are bytes, however long the script is: every call but the last makes
  progress. What has been appended is a prefix of the data, and nothing has been synced. The result
  is success if and only if every call was interrupted or accepted at least one byte, and then the
  whole of the data is in the file. So a call that reports no progress, more bytes than it was given
  or an error, with whatever status, ends the loop with an error.
\<close>

theorem WriteAll_bounded_calls:
  assumes "WriteAll f data = (f', st)"
  shows "\<exists>calls n. wf_writes f = calls @ wf_writes f' \<and>
    length (filter (\<lambda>c. c \<noteq> Interrupts) calls) \<le> length data \<and>
    n \<le> length data \<and> wf_data f' = wf_data f @ take n data \<and> wf_durable f' = wf_durable f \<and>
    (ok st \<longleftrightarrow> (\<forall>c \<in> set calls. c = Interrupts \<or> (\<exists>k > 0. c = Accepts k))) \<and> (ok st \<longrightarrow> n = length data)"
proof -
  obtain calls where calls: "wf_writes f = calls @ wf_writes f'"
      "length (filter (\<lambda>c. c \<noteq> Interrupts) calls) \<le> length data"
      "ok st \<longleftrightarrow> (\<forall>c \<in> set calls. c = Interrupts \<or> (\<exists>k > 0. c = Accepts k))"
    using write_loop_calls [of 0 data f f' st] assms by (auto simp: WriteAll_def)
  obtain n where "n \<le> length data" "wf_data f' = wf_data f @ take n data" "ok st \<longrightarrow> n = length data"
      "wf_durable f' = wf_durable f"
    by (rule WriteAll_appends [OF assms])
  then show ?thesis
    using calls by blast
qed

text \<open>A file that makes no progress any more: one further call is made.\<close>

theorem WriteAll_bounded_calls_witness:
  "\<exists>f' st calls. WriteAll \<lparr>wf_name = ''wal'', wf_data = [9], wf_durable = [],
       wf_writes = [Accepts 1, Interrupts] @ replicate 100 (Accepts 0), wf_syncs = []\<rparr> [1, 2, 3] = (f', st) \<and>
     [Accepts 1, Interrupts] @ replicate 100 (Accepts 0) = calls @ wf_writes f' \<and>
     length (filter (\<lambda>c. c \<noteq> Interrupts) calls) \<le> 3"
proof -
  let ?f = "\<lparr>wf_name = ''wal'', wf_data = [9], wf_durable = [],
    wf_writes = [Accepts 1, Interrupts] @ replicate 100 (Accepts 0), wf_syncs = []\<rparr>"
  obtain f' st where run: "WriteAll ?f [1, 2, 3] = (f', st)"
    by force
  from WriteAll_bounded_calls [OF this] show ?thesis
    using run by (auto simp del: append_Cons replicate.simps)
qed

text \<open>
  \<open>WriteAll\<close> gets everything written in spite of any number of interruptions and short writes.
\<close>

theorem WriteAll_completes:
  assumes "list_all benign_write (wf_writes f)"
  shows "ok (snd (WriteAll f data)) \<and> wf_data (fst (WriteAll f data)) = wf_data f @ data"
proof -
  have "ok (snd (WriteAll f data))"
    using write_loop_benign [OF assms] by (simp add: WriteAll_def)
  then show ?thesis
    using wal_device.append_ok by simp
qed

theorem WriteAll_completes_witness:
  "wf_data (fst (WriteAll
      \<lparr>wf_name = ''wal'', wf_data = [9], wf_durable = [], wf_writes = [Accepts 1, Interrupts, Accepts 1],
       wf_syncs = []\<rparr> [1, 2, 3])) = [9, 1, 2, 3]"
  using WriteAll_completes [of "\<lparr>wf_name = ''wal'', wf_data = [9], wf_durable = [],
      wf_writes = [Accepts 1, Interrupts, Accepts 1], wf_syncs = []\<rparr>" "[1, 2, 3]"]
  by simp

text \<open>
  \<open>ReadAllAt\<close> never invents data: whatever the file answers, a successful read returns exactly
  the requested region and leaves the content alone; and with nothing worse than interruptions and
  short reads it succeeds when the region lies inside the file and reports an incomplete read when
  it does not.
\<close>

theorem ReadAllAt_exact:
  "(\<forall>f' bs. ReadAllAt f offset count = (f', Inr bs) \<longrightarrow>
      bs = take count (drop offset (rf_data f)) \<and> length bs = count \<and> rf_data f' = rf_data f) \<and>
   (benign_file f \<longrightarrow> offset \<le> length (rf_data f) \<longrightarrow>
      snd (ReadAllAt f offset count) =
        (if offset + count \<le> length (rf_data f) then Inr (take count (drop offset (rf_data f)))
         else Inl (Incomplete (''unexpected EOF while reading '' @ quoted (rf_name f)))))"
proof (intro conjI impI allI)
  fix f' bs
  assume "ReadAllAt f offset count = (f', Inr bs)"
  from ReadAllAt_data [OF this]
  show "bs = take count (drop offset (rf_data f))" "length bs = count" "rf_data f' = rf_data f"
    by auto
next
  assume "benign_file f" and "offset \<le> length (rf_data f)"
  then show "snd (ReadAllAt f offset count) =
        (if offset + count \<le> length (rf_data f) then Inr (take count (drop offset (rf_data f)))
         else Inl (Incomplete (''unexpected EOF while reading '' @ quoted (rf_name f))))"
    by (rule ReadAllAt_benign [where count = count]) (simp add: eof_status_def)
qed

theorem ReadAllAt_exact_witness:
  "snd (ReadAllAt \<lparr>rf_name = ''wal'', rf_data = [1, 2, 3, 4], rf_reads = [Delivers 1, ReadInterrupts],
      rf_sizes = [], rf_truncates = [], rf_syncs = []\<rparr> 1 2) = Inr [2, 3]"
  using ReadAllAt_exact [of "\<lparr>rf_name = ''wal'', rf_data = [1, 2, 3, 4],
      rf_reads = [Delivers 1, ReadInterrupts], rf_sizes = [], rf_truncates = [], rf_syncs = []\<rparr>" 1 2]
  by (simp add: benign_file_def)

end
