(* ===== verification/Wal.thy ===== *)
theory Wal
  imports MemTable FileIO
begin

text \<open>
  \<^verbatim>\<open>src/wal.cpp\<close>: the record format of the write-ahead log (also used inside SSTable data blocks),
  its decoder, and the writer that appends records to a log file and latches the first failure.
  The locale \<open>record_codec\<close> extends \<open>frame_codec\<close> by what recovery relies on: a torn record is
  recognised as incomplete.
\<close>

section \<open>Types and constants\<close>

abbreviation kWalFormatVersion :: u8 where "kWalFormatVersion \<equiv> 1"
abbreviation kWalHeaderSize :: nat where "kWalHeaderSize \<equiv> 32"

definition kWalMagic :: bytes where "kWalMagic = ascii ''MKVW''"

text \<open>
  \<open>kOtherMode\<close> stands for any value of the enumeration's integer type beyond its two enumerators,
  which the writer refuses.
\<close>

datatype SyncMode = kSync | kAsync | kOtherMode int

record WalRecord =
  w_type :: ValueType
  w_sequence :: u64
  w_key :: bytes
  w_value :: bytes

record WalHeader =
  h_type :: ValueType
  h_record_size :: u32
  h_sequence :: u64
  h_key_size :: u32
  h_value_size :: u32
  h_checksum :: u32

section \<open>Encoding\<close>

definition ValidateLengths :: "nat \<Rightarrow> nat \<Rightarrow> ValueType \<Rightarrow> Options \<Rightarrow> status" where
  "ValidateLengths key_size value_size type options =
     (if key_size = 0 then InvalidArgument ''WAL key must not be empty''
      else if key_size > max_key_size options
        then InvalidArgument ''WAL key exceeds configured maximum size''
      else if value_size > max_value_size options
        then InvalidArgument ''WAL value exceeds configured maximum size''
      else if key_size > u32_max \<or> value_size > u32_max
        then InvalidArgument ''WAL key or value cannot fit in the file format''
      else if type = kDeletion \<and> value_size \<noteq> 0
        then InvalidArgument ''WAL deletion record must not contain a value''
      else Ok)"

definition RecordChecksum :: "bytes \<Rightarrow> bytes \<Rightarrow> u32" where
  "RecordChecksum header_prefix payload = Crc32c (header_prefix @ payload)"

definition Corrupt :: "string \<Rightarrow> status" where
  "Corrupt m = Corruption (''WAL record: '' @ m)"

definition ValidateWalRecord :: "WalRecord \<Rightarrow> Options \<Rightarrow> status" where
  "ValidateWalRecord record options =
     (if w_sequence record = 0
      then InvalidArgument ''WAL sequence number must be greater than zero''
      else ValidateLengths (length (w_key record)) (length (w_value record)) (w_type record) options)"

definition EncodeWalRecord :: "WalRecord \<Rightarrow> Options \<Rightarrow> bytes result" where
  "EncodeWalRecord record options =
     (let validation = ValidateWalRecord record options in
      if \<not> ok validation then Inl validation
      else if length (w_key record) > size_max - length (w_value record)
        then Inl (InvalidArgument ''WAL payload size overflows size_t'')
      else let payload_size = length (w_key record) + length (w_value record) in
      if payload_size > u32_max - kWalHeaderSize
        then Inl (InvalidArgument ''WAL record cannot fit in the file format'')
      else let
        record_size = word_of_nat (kWalHeaderSize + payload_size);
        header_prefix = kWalMagic;
        header_prefix = header_prefix @ [kWalFormatVersion];
        header_prefix = header_prefix @ [ValueType_byte (w_type record)];
        header_prefix = PutFixed16 header_prefix (word_of_nat kWalHeaderSize);
        header_prefix = PutFixed32 header_prefix record_size;
        header_prefix = PutFixed64 header_prefix (w_sequence record);
        header_prefix = PutFixed32 header_prefix (word_of_nat (length (w_key record)));
        header_prefix = PutFixed32 header_prefix (word_of_nat (length (w_value record)));
        payload = w_key record @ w_value record;
        checksum = RecordChecksum header_prefix payload
      in Inr (PutFixed32 header_prefix checksum @ payload))"

section \<open>Decoding\<close>

definition DecodeWalRecordHeader :: "bytes \<Rightarrow> Options \<Rightarrow> WalHeader result" where
  "DecodeWalRecordHeader input options =
     (if length input < kWalHeaderSize
      then Inl (Incomplete ''WAL record header is incomplete'')
      else if take 4 input \<noteq> kWalMagic then Inl (Corrupt ''magic does not match'')
      else if input ! 4 \<noteq> kWalFormatVersion
        then Inl (Corrupt ''format version is unsupported'')
      else or_fail (ValueType_of (input ! 5)) (Corrupt ''record type is invalid'') (\<lambda>type.
        let bad = Corrupt ''fixed header fields cannot be decoded'' in
        or_fail (DecodeFixed16 (substr_from input 6)) bad (\<lambda>header_size.
        or_fail (DecodeFixed32 (substr_from input 8)) bad (\<lambda>record_size.
        or_fail (DecodeFixed64 (substr_from input 12)) bad (\<lambda>sequence.
        or_fail (DecodeFixed32 (substr_from input 20)) bad (\<lambda>key_size.
        or_fail (DecodeFixed32 (substr_from input 24)) bad (\<lambda>value_size.
        or_fail (DecodeFixed32 (substr_from input 28)) bad (\<lambda>expected_checksum.
        if unat header_size \<noteq> kWalHeaderSize then Inl (Corrupt ''header size is invalid'')
        else if sequence = 0 then Inl (Corrupt ''sequence number is zero'')
        else let length_validation = ValidateLengths (unat key_size) (unat value_size) type options in
        if \<not> ok length_validation then Inl (Corrupt (message length_validation))
        else if unat key_size > size_max - unat value_size
          then Inl (Corrupt ''payload size overflows size_t'')
        else let
          payload_size = unat key_size + unat value_size;
          calculated_size = kWalHeaderSize + payload_size
        in if unat record_size \<noteq> calculated_size
          then Inl (Corrupt ''record size does not match key and value lengths'')
        else Inr \<lparr>h_type = type, h_record_size = record_size, h_sequence = sequence,
                  h_key_size = key_size, h_value_size = value_size,
                  h_checksum = expected_checksum\<rparr>)))))))) "

text \<open>The result carries \<open>bytes_consumed\<close> and the record.\<close>

definition DecodeWalRecord :: "bytes \<Rightarrow> Options \<Rightarrow> (nat \<times> WalRecord) result" where
  "DecodeWalRecord input options =
     and_then (DecodeWalRecordHeader input options) (\<lambda>header.
       let calculated_size = unat (h_record_size header) in
       if length input < calculated_size
       then Inl (Incomplete ''WAL record payload is incomplete'')
       else let
         payload_size = calculated_size - kWalHeaderSize;
         payload = substr input kWalHeaderSize payload_size;
         actual_checksum = RecordChecksum (substr input 0 28) payload
       in if actual_checksum \<noteq> h_checksum header then Inl (Corrupt ''checksum mismatch'')
       else Inr (calculated_size,
         \<lparr>w_type = h_type header, w_sequence = h_sequence header,
          w_key = substr payload 0 (unat (h_key_size header)),
          w_value = substr payload (unat (h_key_size header)) (unat (h_value_size header))\<rparr>))"

section \<open>The writer\<close>

record WalWriter =
  ww_options :: Options
  ww_file :: "WritableFile option"
  ww_status :: status

definition new_WalWriter :: "Options \<Rightarrow> WritableFile option \<Rightarrow> WalWriter" where
  "new_WalWriter options f =
     \<lparr>ww_options = options, ww_file = f,
      ww_status = (if f = None then InvalidArgument ''WAL file must not be null'' else Ok)\<rparr>"

text \<open>\<open>opened\<close> is what \<open>PosixWritableFile::OpenAppend\<close> returned for the path.\<close>

definition WalWriter_Open :: "WritableFile result \<Rightarrow> Options \<Rightarrow> WalWriter result" where
  "WalWriter_Open opened options = and_then opened (\<lambda>f. Inr (new_WalWriter options (Some f)))"

definition failed :: "WalWriter \<Rightarrow> bool" where
  "failed w \<longleftrightarrow> \<not> ok (ww_status w)"

definition RememberFailure :: "status \<Rightarrow> WalWriter \<Rightarrow> WalWriter \<times> status" where
  "RememberFailure s w =
     (let s' = (if ok s then IOError ''WAL entered a failed state without an error'' else s)
      in (w\<lparr>ww_status := s'\<rparr>, s'))"

text \<open>
  A writer that has not failed owns a file (the constructor fails it otherwise), so the missing
  file is answered as \<open>failed\<close> is.
\<close>

definition Append :: "WalRecord \<Rightarrow> SyncMode \<Rightarrow> WalWriter \<Rightarrow> WalWriter \<times> status" where
  "Append record sync_mode w =
     (if failed w then (w, ww_status w)
      else if sync_mode \<noteq> kSync \<and> sync_mode \<noteq> kAsync
        then (w, InvalidArgument ''WAL sync mode is invalid'')
      else case EncodeWalRecord record (ww_options w) of
        Inl encoding_status \<Rightarrow> (w, encoding_status)
      | Inr encoded \<Rightarrow>
        (case ww_file w of
           None \<Rightarrow> (w, ww_status w)
         | Some f \<Rightarrow>
           (let (f', write_status) = WriteAll f encoded; w' = w\<lparr>ww_file := Some f'\<rparr> in
            if \<not> ok write_status then RememberFailure write_status w'
            else if sync_mode = kSync then
              (let (sync_status, f'') = Sync f'; w'' = w'\<lparr>ww_file := Some f''\<rparr> in
               if \<not> ok sync_status then RememberFailure sync_status w'' else (w'', Ok))
            else (w', Ok))))"


section \<open>The encoding of a record\<close>

text \<open>The 28 header bytes the checksum covers, the whole record, and the records it exists for.\<close>

definition wal_prefix :: "WalRecord \<Rightarrow> bytes" where
  "wal_prefix r = kWalMagic @ [kWalFormatVersion, ValueType_byte (w_type r)] @
     PutFixed16 [] 32 @ PutFixed32 [] (word_of_nat (32 + length (w_key r) + length (w_value r))) @
     PutFixed64 [] (w_sequence r) @ PutFixed32 [] (word_of_nat (length (w_key r))) @
     PutFixed32 [] (word_of_nat (length (w_value r)))"

definition wal_bytes :: "WalRecord \<Rightarrow> bytes" where
  "wal_bytes r = wal_prefix r @ PutFixed32 [] (RecordChecksum (wal_prefix r) (w_key r @ w_value r)) @
     w_key r @ w_value r"

definition encodable :: "Options \<Rightarrow> WalRecord \<Rightarrow> bool" where
  "encodable options r \<longleftrightarrow> ok (ValidateWalRecord r options) \<and>
     length (w_key r) + length (w_value r) \<le> u32_max - kWalHeaderSize"

lemma length_kWalMagic [simp, width_simps]: "length kWalMagic = 4"
  by (simp add: kWalMagic_def)

lemma kWalMagic_not_Nil [simp]: "kWalMagic \<noteq> []"
  using length_kWalMagic by (metis length_0_conv zero_neq_numeral)

lemma length_wal_prefix [simp, width_simps]: "length (wal_prefix r) = 28"
  by (simp add: wal_prefix_def)

lemma length_wal_bytes [simp, width_simps]:
  "length (wal_bytes r) = 32 + length (w_key r) + length (w_value r)"
  by (simp add: wal_bytes_def)

lemma wal_bytes_not_Nil [simp]: "wal_bytes r \<noteq> []"
  by (metis add_gr_0 length_greater_0_conv length_wal_bytes zero_less_numeral)

lemma ValidateLengths_ok_iff:
  "ok (ValidateLengths ks vs t options) \<longleftrightarrow>
     ks \<noteq> 0 \<and> ks \<le> max_key_size options \<and> vs \<le> max_value_size options \<and>
     ks \<le> u32_max \<and> vs \<le> u32_max \<and> (t = kDeletion \<longrightarrow> vs = 0)"
  by (simp add: ValidateLengths_def)

lemma ValidateWalRecord_ok_iff:
  "ok (ValidateWalRecord r options) \<longleftrightarrow>
     w_sequence r \<noteq> 0 \<and> ok (ValidateLengths (length (w_key r)) (length (w_value r)) (w_type r) options)"
  by (simp add: ValidateWalRecord_def)

lemma EncodeWalRecord_encodable:
  assumes "encodable options r"
  shows "EncodeWalRecord r options = Inr (wal_bytes r)"
proof -
  have "\<not> size_max - length (w_value r) < length (w_key r)"
    "\<not> u32_max - kWalHeaderSize < length (w_key r) + length (w_value r)"
    using assms by (auto simp: encodable_def)
  then show ?thesis
    using assms unfolding EncodeWalRecord_def Let_def
    by (simp add: encodable_def wal_bytes_def wal_prefix_def codec_simps add.assoc)
qed

lemma EncodeWalRecord_Inr_iff:
  "EncodeWalRecord r options = Inr bs \<longleftrightarrow> encodable options r \<and> bs = wal_bytes r"
proof (cases "encodable options r")
  case False
  then show ?thesis
    by (auto simp: EncodeWalRecord_def Let_def encodable_def simp del: put_length split: if_splits)
qed (auto simp: EncodeWalRecord_encodable)

lemma EncodeWalRecord_Inl_code: "EncodeWalRecord r options = Inl s \<Longrightarrow> IsInvalidArgument s"
  by (auto simp: EncodeWalRecord_def Let_def ValidateWalRecord_def ValidateLengths_def
      IsInvalidArgument_def split: if_splits)

section \<open>What the decoder accepts\<close>

text \<open>The fields of a header the decoder accepts, and their consistency.\<close>

lemma DecodeWalRecordHeader_Inr_iff:
  "DecodeWalRecordHeader input options = Inr h \<longleftrightarrow>
     32 \<le> length input \<and> take 4 input = kWalMagic \<and> input ! 4 = kWalFormatVersion \<and>
     ValueType_of (input ! 5) = Some (h_type h) \<and>
     DecodeFixed16 (drop 6 input) = Some 32 \<and>
     DecodeFixed32 (drop 8 input) = Some (h_record_size h) \<and>
     DecodeFixed64 (drop 12 input) = Some (h_sequence h) \<and>
     DecodeFixed32 (drop 20 input) = Some (h_key_size h) \<and>
     DecodeFixed32 (drop 24 input) = Some (h_value_size h) \<and>
     DecodeFixed32 (drop 28 input) = Some (h_checksum h) \<and>
     h_sequence h \<noteq> 0 \<and>
     ok (ValidateLengths (unat (h_key_size h)) (unat (h_value_size h)) (h_type h) options) \<and>
     unat (h_record_size h) = 32 + unat (h_key_size h) + unat (h_value_size h)"
proof -
  have 32: "unat hs = kWalHeaderSize \<longleftrightarrow> hs = 32" for hs :: u16
    by (simp add: word_unat_eq_iff)
  have room: "\<not> size_max - unat (b :: u32) < unat (a :: u32)" for a b
    using unat_lt_u32 [of a] unat_lt_u32 [of b] by linarith
  show ?thesis
    unfolding DecodeWalRecordHeader_def Let_def
    by (auto simp: or_fail_Inr 32 room not_less split: if_splits)
qed


text \<open>The header the encoder writes decodes to these fields, whatever follows it.\<close>

lemma ValueType_of_byte [simp]: "ValueType_of (ValueType_byte t) = Some t"
  by (cases t) (simp_all add: ValueType_of_def)

lemma ValueType_of_Some: "ValueType_of b = Some t \<Longrightarrow> b = ValueType_byte t"
  by (cases t) (auto simp: ValueType_of_def split: if_splits)

definition header_of :: "WalRecord \<Rightarrow> WalHeader" where
  "header_of r = \<lparr>h_type = w_type r,
     h_record_size = word_of_nat (32 + length (w_key r) + length (w_value r)),
     h_sequence = w_sequence r, h_key_size = word_of_nat (length (w_key r)),
     h_value_size = word_of_nat (length (w_value r)),
     h_checksum = RecordChecksum (wal_prefix r) (w_key r @ w_value r)\<rparr>"

lemma encodable_bounds:
  assumes "encodable options r"
  shows "32 + length (w_key r) + length (w_value r) \<le> u32_max"
    and "length (w_key r) \<le> u32_max" and "length (w_value r) \<le> u32_max"
    and "w_sequence r \<noteq> 0"
    and "ok (ValidateLengths (length (w_key r)) (length (w_value r)) (w_type r) options)"
  using assms by (auto simp: encodable_def ValidateWalRecord_ok_iff ValidateLengths_ok_iff)

lemma unat_header_of:
  assumes "encodable options r"
  shows "unat (h_record_size (header_of r)) = length (wal_bytes r)"
    and "unat (h_key_size (header_of r)) = length (w_key r)"
    and "unat (h_value_size (header_of r)) = length (w_value r)"
  using encodable_bounds [OF assms] unfolding header_of_def
  by (simp_all only: WalHeader.simps unat_of_nat_u32 length_wal_bytes)

lemma header_roundtrip:
  assumes "encodable options r"
  shows "DecodeWalRecordHeader
    (wal_prefix r @ PutFixed32 [] (RecordChecksum (wal_prefix r) (w_key r @ w_value r)) @ rest) options =
    Inr (header_of r)"
  unfolding DecodeWalRecordHeader_Inr_iff unat_header_of [OF assms]
  using encodable_bounds [OF assms]
  by (simp add: wal_prefix_def header_of_def dec_put nth_append)


lemma DecodeWalRecord_bytes:
  assumes r: "encodable options r"
  shows "DecodeWalRecord (wal_bytes r @ rest) options = Inr (length (wal_bytes r), r)"
proof -
  have header: "DecodeWalRecordHeader (wal_bytes r @ rest) options = Inr (header_of r)"
    using header_roundtrip [OF r, of "w_key r @ w_value r @ rest"] by (simp add: wal_bytes_def)
  have parts: "substr (wal_bytes r @ rest) 0 28 = wal_prefix r"
    "substr (wal_bytes r @ rest) kWalHeaderSize (length (wal_bytes r) - kWalHeaderSize) =
       w_key r @ w_value r"
    by (simp_all add: wal_bytes_def substr_def)
  have kv: "substr (w_key r @ w_value r) 0 (length (w_key r)) = w_key r"
    "substr (w_key r @ w_value r) (length (w_key r)) (length (w_value r)) = w_value r"
    by (simp_all add: substr_def)
  show ?thesis
    unfolding DecodeWalRecord_def header and_then_simps Let_def unat_header_of [OF r] parts kv
    by (simp add: header_of_def)
qed

lemma take_then_drop: "take a xs @ drop a (take (a + b) xs) = take (a + b) xs"
  using append_take_drop_id [of a "take (a + b) xs"] by simp

lemma take_fields:
  "take 28 xs = take 4 xs @ take 1 (drop 4 xs) @ take 1 (drop 5 xs) @ take 2 (drop 6 xs) @
     take 4 (drop 8 xs) @ take 8 (drop 12 xs) @ take 4 (drop 20 xs) @ take 4 (drop 24 xs)"
  using take_add [of 4 24 xs] take_add [of 1 23 "drop 4 xs"] take_add [of 1 22 "drop 5 xs"]
    take_add [of 2 20 "drop 6 xs"] take_add [of 4 16 "drop 8 xs"] take_add [of 8 8 "drop 12 xs"]
    take_add [of 4 4 "drop 20 xs"]
  by simp

text \<open>Only the canonical encoding of an acceptable record is accepted.\<close>

lemma DecodeWalRecord_sound:
  assumes dec: "DecodeWalRecord input options = Inr (n, r)"
  shows "encodable options r \<and> n = length (wal_bytes r) \<and> (\<exists>rest. input = wal_bytes r @ rest)"
proof -
  obtain h where header: "DecodeWalRecordHeader input options = Inr h"
    and n: "n = unat (h_record_size h)" "n \<le> length input"
    and sum: "RecordChecksum (take 28 input) (substr input 32 (n - 32)) = h_checksum h"
    and r: "r = \<lparr>w_type = h_type h, w_sequence = h_sequence h,
        w_key = substr (substr input 32 (n - 32)) 0 (unat (h_key_size h)),
        w_value = substr (substr input 32 (n - 32)) (unat (h_key_size h)) (unat (h_value_size h))\<rparr>"
    using dec by (auto simp: DecodeWalRecord_def and_then_Inr Let_def substr_0 split: if_splits)
  note h = header [unfolded DecodeWalRecordHeader_Inr_iff]
  have len: "length (w_key r) = unat (h_key_size h)" "length (w_value r) = unat (h_value_size h)"
    "n = 32 + length (w_key r) + length (w_value r)"
    using n h by (simp_all add: r)
  have kv: "w_key r @ w_value r = substr input 32 (n - 32)"
    using len(3) unfolding len(1,2) by (simp add: r substr_def take_then_drop)
  have widths: "(word_of_nat (length (w_key r)) :: u32) = h_key_size h"
    "(word_of_nat (length (w_value r)) :: u32) = h_value_size h"
    "(word_of_nat (32 + length (w_key r) + length (w_value r)) :: u32) = h_record_size h"
    using len n(1) by (metis of_nat_unat ucast_id)+
  have bytes: "take 1 (drop 4 input) = [kWalFormatVersion]"
    "take 1 (drop 5 input) = [ValueType_byte (h_type h)]"
    using h ValueType_of_Some by (auto simp: take_Suc_conv_app_nth)
  have pre: "take 28 input = wal_prefix r"
    unfolding take_fields [of input] wal_prefix_def bytes widths
    using h by (simp add: fixed16.dec_Some_iff fixed32.dec_Some_iff fixed64.dec_Some_iff r)
  have "take 4 (drop 28 input) = PutFixed32 [] (RecordChecksum (wal_prefix r) (w_key r @ w_value r))"
    using h sum by (simp add: fixed32.dec_Some_iff kv pre)
  then have "take n input = wal_bytes r"
    using take_add [of 28 "4 + (n - 32)" input] take_add [of 4 "n - 32" "drop 28 input"] len(3)
    by (simp add: wal_bytes_def pre kv substr_def add.assoc)
  then have "input = wal_bytes r @ drop n input"
    by (metis append_take_drop_id)
  moreover have "encodable options r"
  proof -
    have "w_type r = h_type h" "w_sequence r = h_sequence h"
      by (simp_all add: r)
    then show ?thesis
      using h len(1,2) unat_lt_u32 [of "h_record_size h"]
      by (simp add: encodable_def ValidateWalRecord_ok_iff)
  qed
  ultimately show ?thesis
    using len(3) by auto
qed


section \<open>What the decoder refuses\<close>

lemma DecodeWalRecordHeader_Inl:
  assumes "DecodeWalRecordHeader input options = Inl s"
  shows "if length input < 32 then IsIncomplete s else IsCorruption s"
  using assms
  by (auto simp: DecodeWalRecordHeader_def Let_def or_fail_def Corrupt_def
      split: if_splits option.splits)

lemma DecodeWalRecord_Inl:
  assumes "DecodeWalRecord input options = Inl s"
  shows "if length input < 32 \<or>
      (\<exists>h. DecodeWalRecordHeader input options = Inr h \<and> length input < unat (h_record_size h))
    then IsIncomplete s else IsCorruption s"
proof (cases "DecodeWalRecordHeader input options")
  case (Inl t)
  then show ?thesis
    using assms DecodeWalRecordHeader_Inl [OF Inl] by (auto simp: DecodeWalRecord_def)
next
  case (Inr h)
  then have "32 \<le> length input"
    by (simp add: DecodeWalRecordHeader_Inr_iff)
  then show ?thesis
    using assms Inr by (auto simp: DecodeWalRecord_def Let_def Corrupt_def split: if_splits)
qed

text \<open>A proper prefix of a record is incomplete, never corrupt and never another record.\<close>

lemma torn_header:
  assumes "encodable options r" and "32 \<le> k"
  shows "DecodeWalRecordHeader (take k (wal_bytes r)) options = Inr (header_of r)"
proof -
  have "take k (wal_bytes r) = wal_prefix r @
      PutFixed32 [] (RecordChecksum (wal_prefix r) (w_key r @ w_value r)) @ take (k - 32) (w_key r @ w_value r)"
    using assms(2) by (simp add: wal_bytes_def)
  then show ?thesis
    using header_roundtrip [OF assms(1)] by simp
qed

lemma torn_record:
  assumes "encodable options r" and "k < length (wal_bytes r)"
  shows "\<exists>s. DecodeWalRecord (take k (wal_bytes r)) options = Inl s \<and> IsIncomplete s"
proof (cases "k < 32")
  case True
  then show ?thesis
    using assms(2) by (auto simp: DecodeWalRecord_def DecodeWalRecordHeader_def)
next
  case False
  then show ?thesis
    using assms torn_header [OF assms(1), of k] unat_header_of(1) [OF assms(1)]
    by (simp add: DecodeWalRecord_def)
qed

section \<open>The interface of a log codec\<close>

text \<open>
  What the recovery of a log relies on beyond \<open>frame_codec\<close>: a record whose end is missing is
  recognised as incomplete.
\<close>

locale record_codec = frame_codec enc dec valid
  for enc :: "'r \<Rightarrow> bytes" and dec :: "bytes \<Rightarrow> (nat \<times> 'r) result" and valid :: "'r \<Rightarrow> bool" +
  assumes dec_torn: "valid r \<Longrightarrow> k < length (enc r) \<Longrightarrow>
        \<exists>s. dec (take k (enc r)) = Inl s \<and> IsIncomplete s"
begin

text \<open>A prefix of a log ends at a record boundary or in a record that is recognised as incomplete.\<close>

lemma log_prefix_torn:
  assumes "list_all valid rs" and "n \<le> length (log rs)"
  obtains m tail where "m \<le> length rs" "take n (log rs) = log (take m rs) @ tail"
    "tail = [] \<or> (\<exists>s. dec tail = Inl s \<and> IsIncomplete s)"
proof -
  obtain m k where m: "m \<le> length rs" "take n (log rs) = log (take m rs) @ take k (enc (rs ! m))"
    "k = 0 \<or> (m < length rs \<and> k < length (enc (rs ! m)))" "n = length (log (take m rs)) + k"
    by (rule log_prefix [OF assms(2)])
  then show thesis
    using assms(1) dec_torn [of "rs ! m" k] by (intro that [of m]) (auto simp: list_all_length)
qed

end

interpretation wal: record_codec wal_bytes "\<lambda>bs. DecodeWalRecord bs options" "encodable options"
  for options
  using DecodeWalRecord_bytes DecodeWalRecord_sound torn_record
  by unfold_locales auto


section \<open>A changed byte is always noticed\<close>

text \<open>
  A field that does not contain the changed byte keeps its value; the record size is redundant, so
  a change cannot alter it unnoticed; the checksum notices everything else.
\<close>

lemma header_update_record_size:
  assumes "DecodeWalRecordHeader xs options = Inr h" and "DecodeWalRecordHeader (xs[i := b]) options = Inr h'"
  shows "h_record_size h' = h_record_size h"
proof -
  note h = assms [unfolded DecodeWalRecordHeader_Inr_iff]
  show ?thesis
  proof (cases "i < 8 \<or> 8 + 4 \<le> i")
    case True
    then show ?thesis
      using h fixed32.dec_cong [OF field_update] by (metis option.inject)
  next
    case False
    then have "DecodeFixed32 (drop 20 (xs[i := b])) = DecodeFixed32 (drop 20 xs)"
      "DecodeFixed32 (drop 24 (xs[i := b])) = DecodeFixed32 (drop 24 xs)"
      by (auto intro!: fixed32.dec_cong field_update)
    then have "h_key_size h' = h_key_size h" "h_value_size h' = h_value_size h"
      using h by auto
    then show ?thesis
      using h by (simp add: word_unat_eq_iff)
  qed
qed

lemma DecodeWalRecord_exact:
  assumes "DecodeWalRecordHeader (xs @ rest) options = Inr h" and "unat (h_record_size h) = length xs"
  shows "(\<exists>n r. DecodeWalRecord (xs @ rest) options = Inr (n, r)) \<longleftrightarrow>
    frame_ok 28 xs"
proof -
  note h = assms(1) [unfolded DecodeWalRecordHeader_Inr_iff]
  have len: "32 \<le> length xs"
    using h assms(2) by linarith
  then have "DecodeFixed32 (drop 28 xs) = DecodeFixed32 (drop 28 (xs @ rest))"
    by (intro fixed32.dec_cong) simp
  then have sum: "DecodeFixed32 (drop 28 xs) = Some (h_checksum h)"
    using h by simp
  show ?thesis
    using len assms unfolding frame_ok_def sum
    by (auto simp: DecodeWalRecord_def Let_def RecordChecksum_def substr_def)
qed

lemma changed_byte_refused:
  assumes r: "encodable options r" and i: "i < length (wal_bytes r)" and b: "b \<noteq> wal_bytes r ! i"
  shows "\<exists>s. DecodeWalRecord ((wal_bytes r)[i := b] @ rest) options = Inl s \<and> IsCorruption s"
proof -
  let ?xs = "wal_bytes r" and ?ys = "(wal_bytes r)[i := b]"
  have xs: "DecodeWalRecordHeader ?xs options = Inr (header_of r)"
    using torn_header [OF r, of "length ?xs"] by simp
  have ys: "?ys @ rest = (?xs @ rest)[i := b]"
    using i by (simp add: list_update_append)
  have xs_rest: "DecodeWalRecordHeader (?xs @ rest) options = Inr (header_of r)"
    using header_roundtrip [OF r, of "w_key r @ w_value r @ rest"] by (simp add: wal_bytes_def)
  have size: "unat (h_record_size h) = length ?ys"
    if "DecodeWalRecordHeader (?ys @ rest) options = Inr h" for h
    using header_update_record_size [OF xs_rest, of i b h] that unat_header_of(1) [OF r]
    by (simp add: ys)
  have "\<not> (\<exists>n q. DecodeWalRecord (?ys @ rest) options = Inr (n, q))"
  proof (cases "DecodeWalRecordHeader (?ys @ rest) options")
    case (Inl s)
    then show ?thesis by (simp add: DecodeWalRecord_def)
  next
    case (Inr h)
    have "frame_ok 28 ?xs"
      using DecodeWalRecord_exact [OF xs_rest unat_header_of(1) [OF r]] DecodeWalRecord_bytes [OF r]
      by blast
    then have "\<not> frame_ok 28 ?ys"
      using frame_ok_changed [OF _ i b] by simp
    then show ?thesis
      using DecodeWalRecord_exact [OF Inr size [OF Inr]] by blast
  qed
  then obtain s where s: "DecodeWalRecord (?ys @ rest) options = Inl s"
    by (metis old.prod.exhaust sumE)
  moreover have "\<not> length (?ys @ rest) < unat (h_record_size h)"
    if "DecodeWalRecordHeader (?ys @ rest) options = Inr h" for h
    using size [OF that] by simp
  ultimately show ?thesis
    using DecodeWalRecord_Inl [OF s] by (auto split: if_splits)
qed


section \<open>The writer on its file\<close>

text \<open>
  An append is refused with the file untouched, or the whole record is appended (and flushed in
  sync mode), or it breaks off: a prefix of the record is in the file and the writer has failed.
\<close>

lemma Append_cases [consumes 3, case_names rejected appended broken]:
  assumes run: "Append r mode w = (w', st)" and f: "ww_file w = Some f" and w: "\<not> failed w"
  obtains
    "w' = w" "IsInvalidArgument st" "\<not> ok st"
  | f' where "encodable (ww_options w) r" "st = Ok" "w' = w\<lparr>ww_file := Some f'\<rparr>"
      "wf_data f' = wf_data f @ wal_bytes r"
      "wf_durable f' = (if mode = kSync then wf_data f' else wf_durable f)"
  | f' n where "encodable (ww_options w) r" "\<not> ok st" "w' = w\<lparr>ww_file := Some f', ww_status := st\<rparr>"
      "n \<le> length (wal_bytes r)" "wf_data f' = wf_data f @ take n (wal_bytes r)"
      "wf_durable f' = wf_durable f"
proof -
  consider (mode) "mode \<noteq> kSync \<and> mode \<noteq> kAsync"
    | (encoding) s where "EncodeWalRecord r (ww_options w) = Inl s" "mode = kSync \<or> mode = kAsync"
    | (go) "encodable (ww_options w) r" "EncodeWalRecord r (ww_options w) = Inr (wal_bytes r)"
        "mode = kSync \<or> mode = kAsync"
    by (cases "EncodeWalRecord r (ww_options w)") (auto simp: EncodeWalRecord_Inr_iff)
  then show thesis
  proof cases
    case mode
    then show thesis
      using run w that(1) by (auto simp: Append_def IsInvalidArgument_def)
  next
    case encoding
    then show thesis
      using run w that(1) EncodeWalRecord_Inl_code [of r "ww_options w"]
      by (auto simp: Append_def IsInvalidArgument_def ok_def)
  next
    case go
    obtain f' ws where write_all: "WriteAll f (wal_bytes r) = (f', ws)"
      by force
    obtain n where n: "n \<le> length (wal_bytes r)" "wf_data f' = wf_data f @ take n (wal_bytes r)"
      "ok ws \<longrightarrow> n = length (wal_bytes r)" "wf_durable f' = wf_durable f"
      by (rule WriteAll_appends [OF write_all])
    obtain ss f'' where sync: "Sync f' = (ss, f'')"
      by force
    then have f'': "wf_data f'' = wf_data f'" "wf_durable f'' = (if ok ss then wf_data f' else wf_durable f')"
      using wal_device.flush_content [of f'] wal_device.flush_durable [of f'] by auto
    note run = run [unfolded Append_def go(2) sum.case f option.case write_all Let_def prod.case sync]
    consider (written) "ok ws" "mode = kSync \<Longrightarrow> ok ss" | (write_failed) "\<not> ok ws"
      | (sync_failed) "ok ws" "mode = kSync" "\<not> ok ss"
      by blast
    then show thesis
    proof cases
      case written
      then show thesis
        using run w go n f'' that(2) [of "if mode = kSync then f'' else f'"] by (auto split: if_splits)
    next
      case write_failed
      then show thesis
        using run w go n that(3) [of f' n] by (auto simp: RememberFailure_def split: if_splits)
    next
      case sync_failed
      then show thesis
        using run w go n f'' that(3) [of f'' "length (wal_bytes r)"]
        by (auto simp: RememberFailure_def split: if_splits)
    qed
  qed
qed

lemma Append_failed: "failed w \<Longrightarrow> Append r mode w = (w, ww_status w)"
  by (simp add: Append_def)

section \<open>Properties\<close>

text \<open>
  C23. The record format is unambiguous: the decoder accepts an input with a record and a length
  exactly when the input begins with the encoder's output for that record, of that length. Every
  encodable record therefore survives the round trip whatever follows it, and no other byte string
  decodes.
\<close>

theorem WalRecord_roundtrip:
  "DecodeWalRecord input options = Inr (n, r) \<longleftrightarrow>
     (\<exists>bs rest. EncodeWalRecord r options = Inr bs \<and> input = bs @ rest \<and> n = length bs)"
  unfolding EncodeWalRecord_Inr_iff
  using wal.dec_enc [of options r] wal.dec_sound [of input options n r] by blast

text \<open>
  A record whose end is missing, at whatever byte the write broke off, is reported as
  incomplete: never as corrupt and never as some other record.
\<close>

theorem WalRecord_torn:
  assumes "EncodeWalRecord r options = Inr bs" and "k < length bs"
  shows "\<exists>s. DecodeWalRecord (take k bs) options = Inl s \<and> IsIncomplete s"
  using assms wal.dec_torn [of options r k] by (simp add: EncodeWalRecord_Inr_iff)

definition sample_record :: WalRecord where
  "sample_record = \<lparr>w_type = kValue, w_sequence = 7, w_key = [107], w_value = [118, 119]\<rparr>"

lemma sample_record_encodes:
  "EncodeWalRecord sample_record default_Options = Inr (wal_bytes sample_record)"
  "length (wal_bytes sample_record) = 35"
  by (simp_all add: EncodeWalRecord_Inr_iff encodable_def ValidateWalRecord_def ValidateLengths_def
      sample_record_def default_Options_def)

theorem WalRecord_torn_witness:
  "\<exists>bs s. EncodeWalRecord sample_record default_Options = Inr bs \<and> 33 < length bs \<and>
     DecodeWalRecord (take 33 bs) default_Options = Inl s \<and> IsIncomplete s"
  using WalRecord_torn [OF sample_record_encodes(1), of 33] sample_record_encodes by auto

text \<open>
  C30. One changed byte anywhere in a complete record, in its header, its checksum or its payload, is
  always reported as corruption, whatever follows the record: it is never accepted and never taken
  for a torn tail.
\<close>

theorem WalRecord_changed_byte:
  assumes "EncodeWalRecord r options = Inr bs" and "i < length bs" and "b \<noteq> bs ! i"
  shows "\<exists>s. DecodeWalRecord (bs[i := b] @ rest) options = Inl s \<and> IsCorruption s"
  using assms changed_byte_refused [of options r i b rest] by (simp add: EncodeWalRecord_Inr_iff)

theorem WalRecord_changed_byte_witness:
  "\<exists>bs s. EncodeWalRecord sample_record default_Options = Inr bs \<and>
     DecodeWalRecord (bs[10 := bs ! 10 + 1] @ [0]) default_Options = Inl s \<and> IsCorruption s"
  using WalRecord_changed_byte [OF sample_record_encodes(1), of 10 "wal_bytes sample_record ! 10 + 1" "[0]"]
    sample_record_encodes by simp

text \<open>
  \<open>Append\<close> reports success only with the whole record at the end of the file, flushed when
  \<open>kSync\<close> was asked for; when it fails the file has at most a prefix of the record more than
  before; and after a failure of the file every further \<open>Append\<close> returns that failure and leaves
  the writer and its file alone.
\<close>

theorem Append_latches:
  assumes "ww_file w = Some f" and "\<not> failed w" and "Append r mode w = (w', st)"
  shows "\<exists>f'. ww_file w' = Some f' \<and>
    (if ok st
     then \<exists>bs. EncodeWalRecord r (ww_options w) = Inr bs \<and> wf_data f' = wf_data f @ bs \<and>
            \<not> failed w' \<and> (mode = kSync \<longrightarrow> wf_durable f' = wf_data f')
     else f' = f \<and> w' = w \<or>
          (\<exists>bs n. EncodeWalRecord r (ww_options w) = Inr bs \<and> wf_data f' = wf_data f @ take n bs \<and>
             (\<forall>q m. Append q m w' = (w', st))))"
  using assms(3,1,2)
proof (cases rule: Append_cases)
  case rejected
  then show ?thesis
    using assms(1) by simp
next
  case (appended f')
  then show ?thesis
    using assms(2) by (simp add: EncodeWalRecord_Inr_iff failed_def)
next
  case (broken f' n)
  then show ?thesis
    using Append_failed [of w'] by (auto simp: EncodeWalRecord_Inr_iff failed_def)
qed

theorem Append_latches_witness:
  "\<exists>w' st. Append sample_record kSync (new_WalWriter default_Options
       (Some \<lparr>wf_name = ''wal'', wf_data = [], wf_durable = [], wf_writes = [Accepts 5, Fails (IOError ''full'')],
              wf_syncs = []\<rparr>)) = (w', st) \<and>
     (ok st \<or> w' = new_WalWriter default_Options
       (Some \<lparr>wf_name = ''wal'', wf_data = [], wf_durable = [], wf_writes = [Accepts 5, Fails (IOError ''full'')],
              wf_syncs = []\<rparr>) \<or> (\<forall>q m. Append q m w' = (w', st)))"
proof -
  let ?f = "\<lparr>wf_name = ''wal'', wf_data = [], wf_durable = [], wf_writes = [Accepts 5, Fails (IOError ''full'')],
      wf_syncs = []\<rparr>"
  let ?w = "new_WalWriter default_Options (Some ?f)"
  obtain w' st where run: "Append sample_record kSync ?w = (w', st)"
    by force
  have "ww_file ?w = Some ?f" "\<not> failed ?w"
    by (simp_all add: new_WalWriter_def failed_def)
  from Append_latches [OF this run] show ?thesis
    using run by (auto split: if_splits)
qed

end
