(* ===== verification/BloomFilter.thy ===== *)
theory BloomFilter
  imports Options
begin

text \<open>
  \<^verbatim>\<open>src/bloom_filter.cpp\<close>: the Bloom filter of an SSTable and its encoding. The locale
  \<open>membership_filter\<close> states what the table reader relies on to skip a table (an added key is
  never denied, by no later addition either) and is interpreted on the filter.
\<close>

section \<open>Types and constants\<close>

definition kBloomMagic :: bytes where "kBloomMagic = ascii ''MKBF''"

abbreviation kBloomFilterFormatVersion :: u8 where "kBloomFilterFormatVersion \<equiv> 1"
abbreviation kBloomFilterHeaderSize :: nat where "kBloomFilterHeaderSize \<equiv> 32"
abbreviation kMaximumBloomFilterSize :: nat where "kMaximumBloomFilterSize \<equiv> 67108864"
abbreviation kMaximumBloomHashCount :: u8 where "kMaximumBloomHashCount \<equiv> 30"

record BloomFilter =
  bit_count :: u64
  key_count :: u64
  hash_count :: u8
  bits :: "u8 list"

definition empty_BloomFilter :: BloomFilter where
  "empty_BloomFilter = \<lparr>bit_count = 0, key_count = 0, hash_count = 0, bits = []\<rparr>"

definition BloomCorruption :: "string \<Rightarrow> status" where
  "BloomCorruption m = Corruption (''bloom filter: '' @ m)"

section \<open>Hashing\<close>

definition FinalizeHash64 :: "u64 \<Rightarrow> u64" where
  "FinalizeHash64 hash =
     (let hash = hash XOR drop_bit 33 hash;
          hash = hash * 0xff51afd7ed558ccd;
          hash = hash XOR drop_bit 33 hash;
          hash = hash * 0xc4ceb9fe1a85ec53
      in hash XOR drop_bit 33 hash)"

definition BloomHashes :: "bytes \<Rightarrow> u64 \<times> u64" where
  "BloomHashes key =
     (let step = (\<lambda>(first, second) b.
            ((first XOR ucast b) * 1099511628211, (second XOR ucast b) * 1099511628211));
          (first, second) = foldl step
            (14695981039346656037 XOR 0x9e3779b97f4a7c15, 14695981039346656037 XOR 0xd6e8feb86659fd93) key
      in (FinalizeHash64 first, FinalizeHash64 second))"

definition ChecksumParts :: "bytes \<Rightarrow> bytes \<Rightarrow> u32" where
  "ChecksumParts front payload = Crc32c (front @ payload)"

definition FilterShapeIsValid :: "BloomFilter \<Rightarrow> bool" where
  "FilterShapeIsValid flt =
     (if bit_count flt = 0
      then hash_count flt = 0 \<and> key_count flt = 0 \<and> length (bits flt) = 0
      else bit_count flt mod 8 = 0 \<and> unat (bit_count flt div 8) = length (bits flt) \<and>
           hash_count flt > 0 \<and> hash_count flt \<le> kMaximumBloomHashCount \<and>
           length (bits flt) \<le> kMaximumBloomFilterSize)"

section \<open>Operations\<close>

text \<open>
  The two floating-point expressions of \<open>Create\<close> are parameters: \<open>requested_bits\<close> is the value of
  \<open>ceil(-n * log(p) / (ln 2 * ln 2))\<close> and \<open>rounded_hashes\<close> that of \<open>round(bits / n * ln 2)\<close>, in the
  \<open>long double\<close> arithmetic of the platform.
\<close>

record FloatMath =
  requested_bits :: "nat \<Rightarrow> double \<Rightarrow> double"
  rounded_hashes :: "u64 \<Rightarrow> nat \<Rightarrow> nat"

definition Bloom_Create :: "FloatMath \<Rightarrow> nat \<Rightarrow> double \<Rightarrow> BloomFilter result" where
  "Bloom_Create fm expected_key_count false_positive_rate =
     (if bad_rate false_positive_rate
      then Inl (InvalidArgument
        ''Bloom false-positive rate must be finite and between zero and one'')
      else if expected_key_count = 0 then Inr empty_BloomFilter
      else case requested_bits fm expected_key_count false_positive_rate of
        Finite requested \<Rightarrow>
          (if requested > 536870912
           then Inl (InvalidArgument ''Bloom filter exceeds the 64 MiB format limit'')
           else let
             count = (word_of_nat (nat \<lfloor>requested\<rfloor>) :: u64);
             count = max count 64;
             count = (count + 7) AND NOT 7;
             hashes = max 1 (rounded_hashes fm count expected_key_count)
           in Inr \<lparr>bit_count = count, key_count = 0,
                    hash_count = word_of_nat (min hashes 30),
                    bits = replicate (unat (count div 8)) 0\<rparr>)
      | _ \<Rightarrow> Inl (InvalidArgument ''Bloom filter exceeds the 64 MiB format limit''))"

text \<open>The bit the \<open>index\<close>-th probe of a key touches.\<close>

definition probe :: "BloomFilter \<Rightarrow> bytes \<Rightarrow> nat \<Rightarrow> u64" where
  "probe flt key index =
     (let (first, second) = BloomHashes key; second = second OR 1
      in (first + word_of_nat index * second) mod bit_count flt)"

definition set_probe :: "u64 \<Rightarrow> u8 list \<Rightarrow> u8 list" where
  "set_probe b bs =
     (let i = unat (b div 8) in bs[i := bs ! i OR push_bit (unat (b mod 8)) 1])"

definition test_probe :: "u64 \<Rightarrow> u8 list \<Rightarrow> bool" where
  "test_probe b bs \<longleftrightarrow> bs ! unat (b div 8) AND push_bit (unat (b mod 8)) 1 \<noteq> 0"

definition Bloom_Add :: "bytes \<Rightarrow> BloomFilter \<Rightarrow> BloomFilter result" where
  "Bloom_Add key flt =
     (if \<not> FilterShapeIsValid flt \<or> bit_count flt = 0
      then Inl (InvalidArgument ''Bloom filter has no allocated bit array'')
      else if key_count flt = - 1
        then Inl (InvalidArgument ''Bloom filter key count is exhausted'')
      else Inr (flt\<lparr>
        bits := foldl (\<lambda>bs index. set_probe (probe flt key index) bs) (bits flt)
                  [0..<unat (hash_count flt)],
        key_count := key_count flt + 1\<rparr>))"

definition MayContain :: "BloomFilter \<Rightarrow> bytes \<Rightarrow> bool" where
  "MayContain flt key \<longleftrightarrow>
     FilterShapeIsValid flt \<and> bit_count flt \<noteq> 0 \<and> key_count flt \<noteq> 0 \<and>
     list_all (\<lambda>index. test_probe (probe flt key index) (bits flt)) [0..<unat (hash_count flt)]"

section \<open>Encoding\<close>

definition EncodeBloomFilter :: "BloomFilter \<Rightarrow> bytes result" where
  "EncodeBloomFilter flt =
     (if \<not> FilterShapeIsValid flt then Inl (InvalidArgument ''Bloom filter shape is invalid'')
      else let total_size = kBloomFilterHeaderSize + length (bits flt) in
      if total_size > u32_max then Inl (InvalidArgument ''Bloom encoding exceeds format limits'')
      else let
        header = kBloomMagic;
        header = header @ [kBloomFilterFormatVersion];
        header = header @ [hash_count flt];
        header = PutFixed16 header (word_of_nat kBloomFilterHeaderSize);
        header = PutFixed32 header (word_of_nat total_size);
        header = PutFixed64 header (bit_count flt);
        header = PutFixed64 header (key_count flt);
        payload = bits flt;
        header = PutFixed32 header (ChecksumParts header payload)
      in Inr (header @ payload))"

definition DecodeBloomFilter :: "bytes \<Rightarrow> BloomFilter result" where
  "DecodeBloomFilter encoded =
     (if length encoded < kBloomFilterHeaderSize \<or>
         length encoded > kBloomFilterHeaderSize + kMaximumBloomFilterSize
      then Inl (BloomCorruption ''encoded size is outside format limits'')
      else if take 4 encoded \<noteq> kBloomMagic \<or> encoded ! 4 \<noteq> kBloomFilterFormatVersion
        then Inl (BloomCorruption ''magic or format version is unsupported'')
      else let
        hashes = encoded ! 5;
        bad = BloomCorruption ''header fields or checksum are invalid''
      in or_fail (DecodeFixed16 (substr_from encoded 6)) bad (\<lambda>header_size.
        or_fail (DecodeFixed32 (substr_from encoded 8)) bad (\<lambda>total_size.
        or_fail (DecodeFixed64 (substr_from encoded 12)) bad (\<lambda>bit_cnt.
        or_fail (DecodeFixed64 (substr_from encoded 20)) bad (\<lambda>key_cnt.
        or_fail (DecodeFixed32 (substr_from encoded 28)) bad (\<lambda>checksum.
        if unat header_size \<noteq> kBloomFilterHeaderSize \<or> unat total_size \<noteq> length encoded \<or>
           ChecksumParts (substr encoded 0 28) (substr_from encoded kBloomFilterHeaderSize) \<noteq> checksum
        then Inl bad
        else let payload_size = length encoded - kBloomFilterHeaderSize in
        if bit_cnt = 0 then
          (if hashes \<noteq> 0 \<or> key_cnt \<noteq> 0 \<or> payload_size \<noteq> 0
           then Inl (BloomCorruption ''empty filter fields are inconsistent'')
           else Inr empty_BloomFilter)
        else if bit_cnt mod 8 \<noteq> 0 \<or> unat (bit_cnt div 8) \<noteq> payload_size \<or>
           hashes = 0 \<or> hashes > kMaximumBloomHashCount
        then Inl (BloomCorruption ''bit array or hash count is invalid'')
        else Inr \<lparr>bit_count = bit_cnt, key_count = key_cnt, hash_count = hashes,
                  bits = drop kBloomFilterHeaderSize encoded\<rparr>))))))"


section \<open>The interface of a membership filter\<close>

text \<open>What a reader relies on when it skips a table because the filter denies the key.\<close>

locale membership_filter =
  fixes add :: "'k \<Rightarrow> 'f \<Rightarrow> 'f result"
    and may_contain :: "'f \<Rightarrow> 'k \<Rightarrow> bool"
  assumes add_self: "add k f = Inr f' \<Longrightarrow> may_contain f' k"
    and add_other: "add k f = Inr f' \<Longrightarrow> may_contain f j \<Longrightarrow> may_contain f' j"
begin

fun add_all :: "'k list \<Rightarrow> 'f \<Rightarrow> 'f result" where
  "add_all [] f = Inr f"
| "add_all (k # ks) f = and_then (add k f) (add_all ks)"

lemma add_all_keeps: "add_all ks f = Inr f' \<Longrightarrow> may_contain f j \<Longrightarrow> may_contain f' j"
  by (induction ks arbitrary: f) (auto simp: and_then_Inr dest: add_other)

lemma no_false_negatives: "add_all ks f = Inr f' \<Longrightarrow> k \<in> set ks \<Longrightarrow> may_contain f' k"
  by (induction ks arbitrary: f) (auto simp: and_then_Inr dest: add_self add_all_keeps)

end

lemma test_probe_bit: "test_probe b bs \<longleftrightarrow> bit (bs ! unat (b div 8)) (unat (b mod 8))"
  by (simp add: test_probe_def and_exp_eq_0_iff_not_bit)

lemma mod_8_less: "unat (b mod 8 :: u64) < 8"
  by (simp add: unat_mod_distrib)

lemma length_set_probe [simp]: "length (set_probe b bs) = length bs"
  by (simp add: set_probe_def Let_def)

lemma test_set_probe_same: "unat (b div 8) < length bs \<Longrightarrow> test_probe b (set_probe b bs)"
  using mod_8_less [of b]
  by (simp add: test_probe_bit set_probe_def Let_def bit_or_iff bit_exp_iff)

lemma test_set_probe_other: "test_probe c bs \<Longrightarrow> test_probe c (set_probe b bs)"
  by (cases "unat (b div 8) < length bs")
    (auto simp: test_probe_bit set_probe_def Let_def nth_list_update list_update_beyond bit_or_iff)

text \<open>Setting the probes of a list of indices sets each of them and clears nothing.\<close>

lemma length_set_probes [simp]: "length (foldl (\<lambda>bs i. set_probe (p i) bs) bs is) = length bs"
  by (induction "is" arbitrary: bs) simp_all

lemma test_set_probes_other:
  "test_probe c bs \<Longrightarrow> test_probe c (foldl (\<lambda>bs i. set_probe (p i) bs) bs is)"
  by (induction "is" arbitrary: bs) (simp_all add: test_set_probe_other)

lemma test_set_probes:
  "i \<in> set is \<Longrightarrow> unat (p i div 8) < length bs \<Longrightarrow>
     test_probe (p i) (foldl (\<lambda>bs i. set_probe (p i) bs) bs is)"
  by (induction "is" arbitrary: bs) (auto intro: test_set_probes_other test_set_probe_same)

lemma probe_in_range:
  assumes "FilterShapeIsValid f" and "bit_count f \<noteq> 0"
  shows "unat (probe f key i div 8) < length (bits f)"
proof -
  have "probe f key i < bit_count f"
    using assms(2) by (auto simp: probe_def Let_def split: prod.split intro: word_mod_less_divisor
        simp: word_neq_0_conv)
  moreover have "unat (bit_count f) mod 8 = 0" "unat (bit_count f) div 8 = length (bits f)"
    using assms by (auto simp: FilterShapeIsValid_def word_unat_eq_iff unat_mod_distrib unat_div_distrib
        split: if_splits)
  then have "unat (bit_count f) = length (bits f) * 8"
    using div_mult_mod_eq [of "unat (bit_count f)" 8] by simp
  ultimately show ?thesis
    by (simp add: word_less_nat_alt unat_div_distrib less_mult_imp_div_less)
qed

lemma Bloom_Add_Inr:
  "Bloom_Add key f = Inr f' \<longleftrightarrow>
     FilterShapeIsValid f \<and> bit_count f \<noteq> 0 \<and> key_count f \<noteq> - 1 \<and>
     f' = f\<lparr>bits := foldl (\<lambda>bs index. set_probe (probe f key index) bs) (bits f) [0..<unat (hash_count f)],
           key_count := key_count f + 1\<rparr>"
  by (auto simp: Bloom_Add_def)

lemma Bloom_Add_frame:
  assumes "Bloom_Add key f = Inr f'"
  shows "FilterShapeIsValid f'" "bit_count f' = bit_count f" "hash_count f' = hash_count f"
    "key_count f' = key_count f + 1" "key_count f' \<noteq> 0" "bit_count f \<noteq> 0" "probe f' = probe f"
proof -
  show "key_count f' \<noteq> 0"
    using assms by (auto simp: Bloom_Add_Inr) (metis add.commute add_eq_0_iff)
  show "probe f' = probe f"
    using assms by (auto simp: Bloom_Add_Inr probe_def fun_eq_iff)
qed (use assms in \<open>auto simp: Bloom_Add_Inr FilterShapeIsValid_def\<close>)

interpretation bloom: membership_filter Bloom_Add MayContain
proof
  fix k f f'
  assume add: "Bloom_Add k f = Inr f'"
  note frame = Bloom_Add_frame [OF add]
  have "test_probe (probe f k i) (bits f')" if "i < unat (hash_count f)" for i
    using add that by (auto simp: Bloom_Add_Inr intro!: test_set_probes probe_in_range)
  then show "MayContain f' k"
    using frame by (simp add: MayContain_def list_all_iff)
  fix j
  assume "MayContain f j"
  then show "MayContain f' j"
    using frame add by (auto simp: MayContain_def list_all_iff Bloom_Add_Inr intro: test_set_probes_other)
qed


section \<open>Created filters\<close>

text \<open>Rounding a bit count up to whole bytes.\<close>

lemma round_up_8:
  fixes c :: u64
  assumes "unat c \<le> 536870912"
  shows "unat ((c + 7) AND NOT 7) = (unat c + 7) div 8 * 8"
proof -
  have "(c + 7) AND NOT 7 = (c + 7) AND NOT (mask 3)"
    by (simp add: mask_eq_exp_minus_1)
  also have "\<dots> = push_bit 3 (drop_bit 3 (c + 7))"
    by (rule bit_word_eqI) (auto simp: bit_and_iff bit_not_iff bit_mask_iff bit_push_bit_iff bit_drop_bit_eq)
  finally have "(c + 7) AND NOT 7 = push_bit 3 (drop_bit 3 (c + 7))" .
  moreover have "unat (c + 7) = unat c + 7"
    using assms by (simp add: unat_plus_u64)
  ultimately show ?thesis
    using assms div_times_less_eq_dividend [of "unat c + 7" 8]
    by (simp add: drop_bit_eq_div push_bit_eq_mult unat_word_ariths unat_div_distrib)
qed


lemma unat_max_u64: "unat (max a b :: u64) = max (unat a) (unat b)"
  by (auto simp: max_def word_le_nat_alt)

lemma Bloom_Create_valid:
  assumes "Bloom_Create fm n rate = Inr f"
  shows "FilterShapeIsValid f \<and> key_count f = 0 \<and> (n \<noteq> 0 \<longrightarrow> bit_count f \<noteq> 0)"
proof (cases "n = 0")
  case True
  then show ?thesis
    using assms by (auto simp: Bloom_Create_def empty_BloomFilter_def FilterShapeIsValid_def split: if_splits)
next
  case False
  then obtain q where q: "requested_bits fm n rate = Finite q" "q \<le> 536870912"
    using assms by (auto simp: Bloom_Create_def split: if_splits double.splits)
  define c where "c = max (word_of_nat (nat \<lfloor>q\<rfloor>) :: u64) 64"
  define h where "h = min (max 1 (rounded_hashes fm ((c + 7) AND NOT 7) n)) 30"
  have f: "f = \<lparr>bit_count = (c + 7) AND NOT 7, key_count = 0, hash_count = word_of_nat h,
      bits = replicate (unat (((c + 7) AND NOT 7) div 8)) 0\<rparr>"
    using assms False q by (auto simp: Bloom_Create_def Let_def c_def h_def split: if_splits)
  have "nat \<lfloor>q\<rfloor> \<le> 536870912"
    using q(2) by (simp add: nat_le_iff floor_le_iff)
  then have c: "64 \<le> unat c" "unat c \<le> 536870912"
    by (simp_all add: c_def unat_max_u64 unat_of_nat_u64)
  then have bc: "unat ((c + 7) AND NOT 7) = (unat c + 7) div 8 * 8"
    using round_up_8 by blast
  have "unat (word_of_nat h :: u8) = h" "1 \<le> h" "h \<le> 30"
    by (auto simp: h_def unat_of_nat)
  then have "(word_of_nat h :: u8) > 0" "(word_of_nat h :: u8) \<le> 30"
    by (auto simp: word_less_nat_alt word_le_nat_alt)
  moreover have "unat (bit_count f) mod 8 = 0" "0 < unat (bit_count f)" "unat (bit_count f) \<le> 536870912 + 7"
    "unat (bit_count f) = (unat c + 7) div 8 * 8"
    using bc c by (auto simp: f)
  ultimately show ?thesis
    by (auto simp: f FilterShapeIsValid_def word_unat_eq_iff unat_mod_distrib unat_div_distrib)
qed

section \<open>The encoding of a filter\<close>

definition bloom_prefix :: "BloomFilter \<Rightarrow> bytes" where
  "bloom_prefix f = kBloomMagic @ [kBloomFilterFormatVersion, hash_count f] @
     PutFixed16 [] 32 @ PutFixed32 [] (word_of_nat (32 + length (bits f))) @
     PutFixed64 [] (bit_count f) @ PutFixed64 [] (key_count f)"

definition bloom_bytes :: "BloomFilter \<Rightarrow> bytes" where
  "bloom_bytes f = bloom_prefix f @ PutFixed32 [] (ChecksumParts (bloom_prefix f) (bits f)) @ bits f"

lemma length_kBloomMagic [simp, width_simps]: "length kBloomMagic = 4"
  by (simp add: kBloomMagic_def)

lemma kBloomMagic_not_Nil [simp]: "kBloomMagic \<noteq> []"
  using length_kBloomMagic by (metis length_0_conv zero_neq_numeral)

lemma length_bloom_prefix [simp, width_simps]: "length (bloom_prefix f) = 28"
  by (simp add: bloom_prefix_def)

lemma length_bloom_bytes [simp, width_simps]: "length (bloom_bytes f) = 32 + length (bits f)"
  by (simp add: bloom_bytes_def)

lemma FilterShape_length: "FilterShapeIsValid f \<Longrightarrow> length (bits f) \<le> kMaximumBloomFilterSize"
  by (auto simp: FilterShapeIsValid_def split: if_splits)

lemma EncodeBloomFilter_Inr_iff:
  "EncodeBloomFilter f = Inr bs \<longleftrightarrow> FilterShapeIsValid f \<and> bs = bloom_bytes f"
proof (cases "FilterShapeIsValid f")
  case True
  then have "EncodeBloomFilter f = Inr (bloom_bytes f)"
    using FilterShape_length [OF True]
    by (simp add: EncodeBloomFilter_def Let_def bloom_bytes_def bloom_prefix_def codec_simps)
  with True show ?thesis by auto
qed (simp add: EncodeBloomFilter_def)


lemma DecodeBloomFilter_Inl: "DecodeBloomFilter encoded = Inl s \<Longrightarrow> IsCorruption s"
  by (auto simp: DecodeBloomFilter_def Let_def or_fail_def BloomCorruption_def
      split: if_splits option.splits)

lemma DecodeBloomFilter_Inr_iff:
  "DecodeBloomFilter encoded = Inr f \<longleftrightarrow>
     32 \<le> length encoded \<and> take 4 encoded = kBloomMagic \<and> encoded ! 4 = kBloomFilterFormatVersion \<and>
     encoded ! 5 = hash_count f \<and> DecodeFixed16 (drop 6 encoded) = Some 32 \<and>
     DecodeFixed32 (drop 8 encoded) = Some (word_of_nat (length encoded)) \<and>
     DecodeFixed64 (drop 12 encoded) = Some (bit_count f) \<and>
     DecodeFixed64 (drop 20 encoded) = Some (key_count f) \<and>
     DecodeFixed32 (drop 28 encoded) = Some (Crc32c (take 28 encoded @ drop 32 encoded)) \<and>
     bits f = drop 32 encoded \<and> FilterShapeIsValid f"
proof (cases "32 \<le> length encoded \<and> length encoded \<le> 32 + kMaximumBloomFilterSize")
  case True
  obtain hs ts bc kc cs where fields: "DecodeFixed16 (drop 6 encoded) = Some hs"
      "DecodeFixed32 (drop 8 encoded) = Some ts" "DecodeFixed64 (drop 12 encoded) = Some bc"
      "DecodeFixed64 (drop 20 encoded) = Some kc" "DecodeFixed32 (drop 28 encoded) = Some cs"
    using True fixed16.dec_drop_total [of 6 encoded] fixed32.dec_drop_total [of 8 encoded]
      fixed64.dec_drop_total [of 12 encoded] fixed64.dec_drop_total [of 20 encoded]
      fixed32.dec_drop_total [of 28 encoded] by auto
  have 32: "unat hs = kBloomFilterHeaderSize \<longleftrightarrow> hs = 32"
    by (simp add: word_unat_eq_iff)
  have size: "unat ts = length encoded \<longleftrightarrow> ts = word_of_nat (length encoded)"
    using True unat_of_nat_u32 [of "length encoded"] by (auto simp: word_unat_eq_iff)
  have "DecodeBloomFilter encoded = Inr f \<longleftrightarrow> take 4 encoded = kBloomMagic \<and>
      encoded ! 4 = kBloomFilterFormatVersion \<and> hs = 32 \<and> ts = word_of_nat (length encoded) \<and>
      cs = Crc32c (take 28 encoded @ drop 32 encoded) \<and>
      f = \<lparr>bit_count = bc, key_count = kc, hash_count = encoded ! 5, bits = drop 32 encoded\<rparr> \<and>
      FilterShapeIsValid f"
    using True
    by (cases "bc = 0"; cases "bc mod 8 = 0")
      (auto simp: DecodeBloomFilter_def Let_def fields 32 size ChecksumParts_def substr_0
        FilterShapeIsValid_def empty_BloomFilter_def word_gt_0 del: mod_0_imp_dvd)
  then show ?thesis
    using True fields by (cases f) auto
next
  case False
  then show ?thesis
    by (auto simp: DecodeBloomFilter_def dest: FilterShape_length)
qed

lemma bloom_roundtrip: "FilterShapeIsValid f \<Longrightarrow> DecodeBloomFilter (bloom_bytes f) = Inr f"
  unfolding DecodeBloomFilter_Inr_iff
  by (simp add: bloom_bytes_def bloom_prefix_def dec_put nth_append ChecksumParts_def)

lemma bloom_canonical:
  assumes "DecodeBloomFilter encoded = Inr f"
  shows "FilterShapeIsValid f \<and> encoded = bloom_bytes f"
proof -
  note d = assms [unfolded DecodeBloomFilter_Inr_iff]
  have len: "length encoded = 32 + length (bits f)"
    using d by simp
  have fields: "take 4 encoded = kBloomMagic" "take 1 (drop 4 encoded) = [kBloomFilterFormatVersion]"
      "take 1 (drop 5 encoded) = [hash_count f]" "take 2 (drop 6 encoded) = PutFixed16 [] 32"
      "take 4 (drop 8 encoded) = PutFixed32 [] (word_of_nat (length encoded))"
      "take 8 (drop 12 encoded) = PutFixed64 [] (bit_count f)" "take 8 (drop 20 encoded) = PutFixed64 [] (key_count f)"
    using d take_one_drop [of 4 encoded] take_one_drop [of 5 encoded]
    by (auto simp only: fixed16.dec_Some_iff fixed32.dec_Some_iff fixed64.dec_Some_iff)
  have "take 28 encoded = take 4 encoded @ take 1 (drop 4 encoded) @ take 1 (drop 5 encoded) @
      take 2 (drop 6 encoded) @ take 4 (drop 8 encoded) @ take 8 (drop 12 encoded) @ take 8 (drop 20 encoded)"
    using take_add [of 4 24 encoded] take_add [of 1 23 "drop 4 encoded"] take_add [of 1 22 "drop 5 encoded"]
      take_add [of 2 20 "drop 6 encoded"] take_add [of 4 16 "drop 8 encoded"] take_add [of 8 8 "drop 12 encoded"]
    by simp
  then have pre: "take 28 encoded = bloom_prefix f"
    unfolding bloom_prefix_def len [symmetric] using fields by simp
  have "encoded = take 28 encoded @ take 4 (drop 28 encoded) @ drop 32 encoded"
    using split_at_two [of encoded 28 4] by simp
  then show ?thesis
    using d pre by (simp add: bloom_bytes_def fixed32.dec_Some_iff ChecksumParts_def)
qed


section \<open>Properties\<close>

text \<open>
  C28. No false negatives: from a filter of valid shape, after any successful sequence of additions,
  \<open>MayContain\<close> answers yes for every added key and for every key it answered yes for before. A
  reader that skips a table because the filter says no never misses a record.
\<close>

theorem Bloom_no_false_negatives:
  assumes "bloom.add_all ks f = Inr f'" and "k \<in> set ks \<or> MayContain f k"
  shows "MayContain f' k"
  using assms bloom.no_false_negatives bloom.add_all_keeps by blast

theorem Bloom_no_false_negatives_witness:
  "\<exists>f'. bloom.add_all [[1], [2, 3]] \<lparr>bit_count = 64, key_count = 0, hash_count = 7, bits = replicate 8 0\<rparr> = Inr f' \<and>
     MayContain f' [2, 3]"
proof -
  let ?f = "\<lparr>bit_count = 64, key_count = 0, hash_count = 7, bits = replicate 8 0\<rparr>"
  have "FilterShapeIsValid ?f"
    by (simp add: FilterShapeIsValid_def word_less_nat_alt word_le_nat_alt)
  then obtain f1 where f1: "Bloom_Add [1] ?f = Inr f1"
    by (simp add: Bloom_Add_def)
  then have "FilterShapeIsValid f1 \<and> bit_count f1 \<noteq> 0 \<and> key_count f1 = 1"
    using Bloom_Add_frame [OF f1] by simp
  then obtain f' where "Bloom_Add [2, 3] f1 = Inr f'"
    by (simp add: Bloom_Add_def)
  then have "bloom.add_all [[1], [2, 3]] ?f = Inr f'"
    by (simp add: f1)
  then show ?thesis
    using Bloom_no_false_negatives [of "[[1], [2, 3]]" ?f f' "[2, 3]"] by auto
qed

text \<open>
  \<open>Create\<close> yields a filter of valid shape for every rate and key count it accepts, whatever the
  floating-point sizing returns: whole bytes, between 1 and 30 hash functions, at most 64 MiB, and
  a bit array as soon as keys are expected, so that \<open>Add\<close> accepts them.
\<close>

theorem Bloom_Create_shape:
  assumes "Bloom_Create fm n rate = Inr f"
  shows "FilterShapeIsValid f \<and> key_count f = 0 \<and> (n \<noteq> 0 \<longrightarrow> (\<exists>f'. Bloom_Add key f = Inr f'))"
  using Bloom_Create_valid [OF assms] by (simp add: Bloom_Add_def)

theorem Bloom_Create_shape_witness:
  "\<exists>f. Bloom_Create \<lparr>requested_bits = \<lambda>n p. Finite 96, rounded_hashes = \<lambda>b n. 7\<rparr> 10 (Finite (1 / 100)) = Inr f \<and>
     FilterShapeIsValid f"
proof -
  let ?fm = "\<lparr>requested_bits = \<lambda>n p. Finite 96, rounded_hashes = \<lambda>b n. 7\<rparr>"
  obtain f where f: "Bloom_Create ?fm 10 (Finite (1 / 100)) = Inr f"
    by (simp add: Bloom_Create_def bad_rate_def Let_def)
  then show ?thesis
    using Bloom_Create_shape [OF f] by blast
qed

text \<open>
  The encoding is exact: a byte string decodes to a filter if and only if it is the encoding of
  that filter.
\<close>

theorem Bloom_roundtrip: "DecodeBloomFilter bs = Inr f \<longleftrightarrow> EncodeBloomFilter f = Inr bs"
  unfolding EncodeBloomFilter_Inr_iff using bloom_roundtrip bloom_canonical by blast

text \<open>
  One changed byte anywhere in an encoded filter is always reported as corruption, so a damaged
  filter cannot turn into a false negative.
\<close>

theorem Bloom_changed_byte:
  assumes "EncodeBloomFilter f = Inr bs" and "i < length bs" and "b \<noteq> bs ! i"
  shows "\<exists>s. DecodeBloomFilter (bs[i := b]) = Inl s \<and> IsCorruption s"
proof (cases "DecodeBloomFilter (bs[i := b])")
  case (Inl s)
  then show ?thesis
    using DecodeBloomFilter_Inl by blast
next
  case (Inr g)
  let ?ys = "bs[i := b]"
  have f: "DecodeBloomFilter bs = Inr f"
    using assms(1) bloom_roundtrip by (simp add: EncodeBloomFilter_Inr_iff)
  then have "frame_ok 28 bs" "frame_ok 28 ?ys" "28 + 4 \<le> length bs"
    using Inr by (auto simp: DecodeBloomFilter_Inr_iff frame_ok_def)
  then show ?thesis
    using frame_ok_changed [OF _ assms(2,3)] by blast
qed

theorem Bloom_changed_byte_witness:
  "\<exists>bs s. EncodeBloomFilter empty_BloomFilter = Inr bs \<and>
     DecodeBloomFilter (bs[9 := bs ! 9 + 1]) = Inl s \<and> IsCorruption s"
proof -
  have "EncodeBloomFilter empty_BloomFilter = Inr (bloom_bytes empty_BloomFilter)"
    by (simp add: EncodeBloomFilter_Inr_iff FilterShapeIsValid_def empty_BloomFilter_def)
  then show ?thesis
    using Bloom_changed_byte [of empty_BloomFilter "bloom_bytes empty_BloomFilter" 9
        "bloom_bytes empty_BloomFilter ! 9 + 1"] by simp
qed

end
