(* ===== verification/TableFormat.thy ===== *)
theory TableFormat
  imports Wal BloomFilter
begin

text \<open>
  \<^verbatim>\<open>include/minikv/table.hpp\<close> and the first part of \<^verbatim>\<open>src/table.cpp\<close>: constants and metadata of
  SSTables, checked arithmetic on file offsets, and the limits the options must obey.
\<close>

section \<open>Types and constants\<close>

definition kTableMagic :: bytes where "kTableMagic = ascii ''MKST''"
definition kBlockMagic :: bytes where "kBlockMagic = ascii ''MKDB''"
definition kIndexMagic :: bytes where "kIndexMagic = ascii ''MKIX''"
definition kFooterMagic :: bytes where "kFooterMagic = ascii ''MKSF''"

abbreviation kTableFormatVersion :: u8 where "kTableFormatVersion \<equiv> 3"
abbreviation kTableHeaderSize :: nat where "kTableHeaderSize \<equiv> 32"
abbreviation kTableBlockHeaderSize :: nat where "kTableBlockHeaderSize \<equiv> 20"
abbreviation kTableIndexHeaderSize :: nat where "kTableIndexHeaderSize \<equiv> 20"
abbreviation kTableFooterSize :: nat where "kTableFooterSize \<equiv> 104"
abbreviation kMaximumTableIndexSize :: nat where "kMaximumTableIndexSize \<equiv> 67108864"
abbreviation kIndexEntryFixedSize :: nat where "kIndexEntryFixedSize \<equiv> 16"

record SSTableMetadata =
  md_generation :: u64
  md_record_count :: u64
  md_minimum_sequence :: u64
  md_maximum_sequence :: u64
  md_file_size :: u64
  md_data_offset :: u64
  md_data_size :: u64
  md_index_offset :: u64
  md_index_size :: u64
  md_bloom_offset :: u64
  md_bloom_size :: u64
  md_bloom_bit_count :: u64
  md_bloom_hash_count :: u8
  md_block_count :: u32
  md_minimum_key :: bytes
  md_maximum_key :: bytes

definition empty_SSTableMetadata :: SSTableMetadata where
  "empty_SSTableMetadata = \<lparr>md_generation = 0, md_record_count = 0, md_minimum_sequence = 0,
     md_maximum_sequence = 0, md_file_size = 0, md_data_offset = 0, md_data_size = 0,
     md_index_offset = 0, md_index_size = 0, md_bloom_offset = 0, md_bloom_size = 0,
     md_bloom_bit_count = 0, md_bloom_hash_count = 0, md_block_count = 0,
     md_minimum_key = [], md_maximum_key = []\<rparr>"

definition TableCorruption :: "string \<Rightarrow> status" where
  "TableCorruption m = Corruption (''sstable: '' @ m)"

section \<open>Checked arithmetic\<close>

definition CheckedAdd :: "u64 \<Rightarrow> u64 \<Rightarrow> u64 option" where
  "CheckedAdd left right = (if left > - 1 - right then None else Some (left + right))"

definition RegionWithin :: "u64 \<Rightarrow> u64 \<Rightarrow> u64 \<Rightarrow> u64 \<Rightarrow> bool" where
  "RegionWithin offset count region_offset region_size =
     (case CheckedAdd offset count of
        None \<Rightarrow> False
      | Some end_offset \<Rightarrow>
        (case CheckedAdd region_offset region_size of
           None \<Rightarrow> False
         | Some region_end \<Rightarrow> offset \<ge> region_offset \<and> end_offset \<le> region_end))"

lemma u64_max_minus: "unat (- 1 - a :: u64) = u64_max - unat a"
  using unat_lt_u64 [of a] by (simp add: unat_sub_if' unsigned_minus_1_eq_mask mask_eq_exp_minus_1)

lemma CheckedAdd_Some_iff:
  "CheckedAdd a b = Some c \<longleftrightarrow> unat a + unat b \<le> u64_max \<and> unat c = unat a + unat b"
proof (cases "unat a + unat b \<le> u64_max")
  case True
  then have "\<not> a > - 1 - b"
    by (simp add: word_less_nat_alt u64_max_minus)
  moreover have "c = a + b \<longleftrightarrow> unat c = unat a + unat b"
    using unat_plus_u64 [OF True] by (metis word_unat_eq_iff)
  ultimately show ?thesis
    using True by (auto simp: CheckedAdd_def)
next
  case False
  then have "a > - 1 - b"
    using unat_lt_u64 [of b] by (simp add: word_less_nat_alt u64_max_minus)
  with False show ?thesis
    by (simp add: CheckedAdd_def)
qed

lemma CheckedAdd_None_iff: "CheckedAdd a b = None \<longleftrightarrow> unat a + unat b > u64_max"
proof (cases "CheckedAdd a b")
  case None
  then show ?thesis
    using CheckedAdd_Some_iff [of a b "a + b"] unat_plus_u64 [of a b] by fastforce
next
  case (Some c)
  then have "unat a + unat b \<le> u64_max"
    by (simp add: CheckedAdd_Some_iff)
  with Some show ?thesis
    by simp
qed

text \<open>The comparison on words is the containment of the two intervals, with no wrap-around.\<close>

lemma RegionWithin_iff:
  "RegionWithin a n b m \<longleftrightarrow>
     unat a + unat n \<le> u64_max \<and> unat b + unat m \<le> u64_max \<and>
     unat b \<le> unat a \<and> unat a + unat n \<le> unat b + unat m"
  using CheckedAdd_None_iff [of a n] CheckedAdd_None_iff [of b m]
  by (auto simp: RegionWithin_def CheckedAdd_Some_iff word_le_nat_alt split: option.split)

section \<open>Limits\<close>

definition ValidateTableOptions :: "Options \<Rightarrow> status" where
  "ValidateTableOptions options =
     (if max_key_size options = 0 \<or> max_key_size options > u32_max \<or>
         max_value_size options > u32_max \<or>
         sstable_block_size options < kTableBlockHeaderSize + kWalHeaderSize \<or>
         sstable_block_size options > u32_max - kTableBlockHeaderSize \<or>
         bad_rate (bloom_false_positive_rate options)
      then InvalidArgument ''SSTable size options are invalid''
      else case CheckedAdd (word_of_nat kWalHeaderSize) (word_of_nat (max_key_size options)) of
        None \<Rightarrow> InvalidArgument ''configured record sizes exceed format limits''
      | Some maximum_record \<Rightarrow>
        (case CheckedAdd maximum_record (word_of_nat (max_value_size options)) of
           None \<Rightarrow> InvalidArgument ''configured record sizes exceed format limits''
         | Some maximum_record \<Rightarrow>
           if unat maximum_record > u32_max
           then InvalidArgument ''configured record sizes exceed format limits'' else Ok))"

definition MaximumBlockSize :: "Options \<Rightarrow> u64 result" where
  "MaximumBlockSize options =
     (let bad = InvalidArgument ''configured SSTable limits overflow'' in
      or_fail (CheckedAdd (word_of_nat kWalHeaderSize) (word_of_nat (max_key_size options))) bad (\<lambda>record_limit.
      or_fail (CheckedAdd record_limit (word_of_nat (max_value_size options))) bad (\<lambda>record_limit.
      let payload_limit = max (word_of_nat (sstable_block_size options)) record_limit in
      or_fail (CheckedAdd (word_of_nat kTableBlockHeaderSize) payload_limit) bad Inr)))"

text \<open>What valid options guarantee: every acceptable record is encodable and fits a block.\<close>

definition table_limits :: "Options \<Rightarrow> bool" where
  "table_limits options \<longleftrightarrow>
     0 < max_key_size options \<and> 32 + max_key_size options + max_value_size options \<le> u32_max \<and>
     52 \<le> sstable_block_size options \<and> sstable_block_size options \<le> u32_max - 20 \<and>
     \<not> bad_rate (bloom_false_positive_rate options)"

lemma ValidateTableOptions_ok_iff: "ok (ValidateTableOptions options) \<longleftrightarrow> table_limits options"
proof (cases "max_key_size options \<le> u32_max \<and> max_value_size options \<le> u32_max")
  case True
  then show ?thesis
    by (auto simp: ValidateTableOptions_def table_limits_def CheckedAdd_Some_iff CheckedAdd_None_iff
        unat_of_nat_u64 split: option.split)
next
  case False
  then show ?thesis
    by (auto simp: ValidateTableOptions_def table_limits_def)
qed

lemma MaximumBlockSize_value:
  assumes "table_limits options"
  shows "\<exists>m. MaximumBlockSize options = Inr m \<and>
    unat m = 20 + max (sstable_block_size options) (32 + max_key_size options + max_value_size options)"
proof -
  obtain a where a: "CheckedAdd (word_of_nat kWalHeaderSize) (word_of_nat (max_key_size options)) = Some a"
      "unat a = 32 + max_key_size options"
    using assms CheckedAdd_None_iff [of "word_of_nat kWalHeaderSize" "word_of_nat (max_key_size options)"]
    by (cases "CheckedAdd (word_of_nat kWalHeaderSize) (word_of_nat (max_key_size options))")
      (auto simp: CheckedAdd_Some_iff unat_of_nat_u64 table_limits_def)
  obtain b where b: "CheckedAdd a (word_of_nat (max_value_size options)) = Some b"
      "unat b = 32 + max_key_size options + max_value_size options"
    using assms a(2) CheckedAdd_None_iff [of a "word_of_nat (max_value_size options)"]
    by (cases "CheckedAdd a (word_of_nat (max_value_size options))")
      (auto simp: CheckedAdd_Some_iff unat_of_nat_u64 table_limits_def)
  let ?p = "max (word_of_nat (sstable_block_size options)) b"
  have p: "unat ?p = max (sstable_block_size options) (32 + max_key_size options + max_value_size options)"
    using assms b(2) by (simp add: unat_max_u64 unat_of_nat_u64 table_limits_def)
  obtain m where "CheckedAdd (word_of_nat kTableBlockHeaderSize) ?p = Some m" "unat m = 20 + unat ?p"
    using assms p CheckedAdd_None_iff [of "word_of_nat kTableBlockHeaderSize" ?p]
    by (cases "CheckedAdd (word_of_nat kTableBlockHeaderSize) ?p")
      (auto simp: CheckedAdd_Some_iff unat_of_nat_u64 table_limits_def)
  then show ?thesis
    using a(1) b(1) p by (simp add: MaximumBlockSize_def)
qed

section \<open>Records and data blocks\<close>

text \<open>Table records are stored in the encoding of WAL records.\<close>

definition wal_of :: "MemTableRecord \<Rightarrow> WalRecord" where
  "wal_of r = \<lparr>w_type = r_type r, w_sequence = r_sequence r, w_key = r_key r, w_value = r_value r\<rparr>"

definition record_of :: "WalRecord \<Rightarrow> MemTableRecord" where
  "record_of r = \<lparr>r_key = w_key r, r_sequence = w_sequence r, r_type = w_type r, r_value = w_value r\<rparr>"

lemma wal_of_simps [simp]:
  "w_type (wal_of r) = r_type r" "w_sequence (wal_of r) = r_sequence r" "w_key (wal_of r) = r_key r"
  "w_value (wal_of r) = r_value r" "record_of (wal_of r) = r" "wal_of (record_of w) = w"
  "r_key (record_of w) = w_key w"
  by (simp_all add: wal_of_def record_of_def)

text \<open>The canonical encoding of a data block.\<close>

definition block_payload :: "MemTableRecord list \<Rightarrow> bytes" where
  "block_payload rs = wal.log (map wal_of rs)"

definition block_prefix :: "MemTableRecord list \<Rightarrow> bytes" where
  "block_prefix rs = kBlockMagic @ PutFixed32 [] (word_of_nat (20 + length (block_payload rs))) @
     PutFixed32 [] (word_of_nat (length rs)) @ PutFixed32 [] (word_of_nat (length (block_payload rs)))"

definition block_bytes :: "MemTableRecord list \<Rightarrow> bytes" where
  "block_bytes rs = block_prefix rs @
     PutFixed32 [] (ChecksumParts (block_prefix rs) (block_payload rs)) @ block_payload rs"

lemma length_magics [simp, width_simps]:
  "length kTableMagic = 4" "length kBlockMagic = 4" "length kIndexMagic = 4" "length kFooterMagic = 4"
  by (simp_all add: kTableMagic_def kBlockMagic_def kIndexMagic_def kFooterMagic_def)

lemma magics_not_Nil [simp]:
  "kTableMagic \<noteq> []" "kBlockMagic \<noteq> []" "kIndexMagic \<noteq> []" "kFooterMagic \<noteq> []"
  using length_magics by (metis length_0_conv zero_neq_numeral)+

lemma block_payload_simps [simp]:
  "block_payload [] = []" "block_payload (r # rs) = wal_bytes (wal_of r) @ block_payload rs"
  "block_payload (rs @ qs) = block_payload rs @ block_payload qs"
  by (simp_all add: block_payload_def)

lemma length_block_payload: "32 * length rs \<le> length (block_payload rs)"
  by (induction rs) simp_all

lemma block_lengths [simp]:
  "length (block_prefix rs) = 16" "length (block_bytes rs) = 20 + length (block_payload rs)"
  by (simp_all add: block_prefix_def block_bytes_def)

text \<open>The records a block may hold: within the limits, in strictly increasing key order.\<close>

abbreviation records_sorted :: "MemTableRecord list \<Rightarrow> bool" where
  "records_sorted rs \<equiv> sorted_wrt (<) (map r_key rs)"

abbreviation records_encodable :: "Options \<Rightarrow> MemTableRecord list \<Rightarrow> bool" where
  "records_encodable options rs \<equiv> list_all (\<lambda>r. encodable options (wal_of r)) rs"

end
