(* ===== verification/Merge.thy ===== *)
theory Merge
  imports TableFormat "HOL-Library.Multiset"
begin

text \<open>
  The merge step that \<^verbatim>\<open>src/compaction.cpp\<close> and \<^verbatim>\<open>src/scan.cpp\<close> share: a \<open>std::priority_queue\<close> of
  cursors ordered by key, the newest version first, and the inner loop that takes every cursor
  of the smallest key off the queue and keeps the newest record.

  The queue is a list behind the locale \<open>priority_queue\<close>. The reference the loops are measured
  against is \<open>newest\<close>: of all records the strictly newest of every key.
\<close>

section \<open>The queue\<close>

text \<open>
  \<open>top\<close> is an element that no other precedes. Where several qualify the library leaves the choice
  open; here the one pushed last is taken, and the results below do not depend on it.
\<close>

fun heap_top :: "('c \<Rightarrow> 'c \<Rightarrow> bool) \<Rightarrow> 'c list \<Rightarrow> 'c" where
  "heap_top later [] = undefined"
| "heap_top later (c # cs) =
     (if cs = [] then c else let t = heap_top later cs in if later c t then t else c)"

definition heap_pop :: "('c \<Rightarrow> 'c \<Rightarrow> bool) \<Rightarrow> 'c list \<Rightarrow> 'c list" where
  "heap_pop later cs = remove1 (heap_top later cs) cs"

definition heap_push :: "'c \<Rightarrow> 'c list \<Rightarrow> 'c list" where
  "heap_push c cs = c # cs"

text \<open>\<open>CursorLater\<close> and \<open>SourceLater\<close> compare the records under two cursors.\<close>

definition record_later :: "MemTableRecord \<Rightarrow> MemTableRecord \<Rightarrow> bool" where
  "record_later a b \<longleftrightarrow>
     (if r_key a \<noteq> r_key b then r_key a > r_key b else r_sequence a < r_sequence b)"

definition cursor_later :: "('c \<Rightarrow> MemTableRecord) \<Rightarrow> 'c \<Rightarrow> 'c \<Rightarrow> bool" where
  "cursor_later current l r \<longleftrightarrow> record_later (current l) (current r)"

locale priority_queue =
  fixes elems :: "'q \<Rightarrow> 'c multiset"
    and push :: "'c \<Rightarrow> 'q \<Rightarrow> 'q"
    and top :: "'q \<Rightarrow> 'c"
    and pop :: "'q \<Rightarrow> 'q"
    and current :: "'c \<Rightarrow> MemTableRecord"
  assumes elems_push: "elems (push c q) = add_mset c (elems q)"
    and top_in: "elems q \<noteq> {#} \<Longrightarrow> top q \<in># elems q"
    and top_first: "c \<in># elems q \<Longrightarrow> \<not> record_later (current (top q)) (current c)"
    and elems_pop: "elems q \<noteq> {#} \<Longrightarrow> add_mset (top q) (elems (pop q)) = elems q"
begin

lemma top_key_least: "c \<in># elems q \<Longrightarrow> r_key (current (top q)) \<le> r_key (current c)"
  using top_first [of c q] by (auto simp: record_later_def split: if_splits)

lemma top_newest:
  "c \<in># elems q \<Longrightarrow> r_key (current c) = r_key (current (top q)) \<Longrightarrow>
     r_sequence (current c) \<le> r_sequence (current (top q))"
  using top_first [of c q] by (auto simp: record_later_def split: if_splits)

lemma size_pop: "elems q \<noteq> {#} \<Longrightarrow> size (elems q) = Suc (size (elems (pop q)))"
  using elems_pop [of q] by (metis size_add_mset)

end

lemma heap_top_in: "cs \<noteq> [] \<Longrightarrow> heap_top later cs \<in> set cs"
  by (induction cs) (auto simp: Let_def)

lemma cursor_later_trans:
  assumes "\<not> cursor_later current a b" and "\<not> cursor_later current b c"
  shows "\<not> cursor_later current a c"
  using assms by (auto simp: cursor_later_def record_later_def split: if_splits)

lemma heap_top_first: "c \<in> set cs \<Longrightarrow> \<not> cursor_later current (heap_top (cursor_later current) cs) c"
proof (induction cs)
  case (Cons a cs)
  let ?later = "cursor_later current"
  have asym: "?later a t \<Longrightarrow> \<not> ?later t a" for t
    by (auto simp: cursor_later_def record_later_def split: if_splits)
  have refl: "\<not> ?later a a"
    by (simp add: cursor_later_def record_later_def)
  show ?case
    using Cons asym refl cursor_later_trans [of current a "heap_top ?later cs" c]
    by (auto simp: Let_def)
qed simp

interpretation cursors: priority_queue mset heap_push "heap_top (cursor_later current)"
    "heap_pop (cursor_later current)" current for current
  using heap_top_first [of _ _ current]
  by unfold_locales (auto simp: heap_push_def heap_pop_def heap_top_in cursor_later_def)

section \<open>The newest version\<close>

text \<open>
  A record of a collection is strictly newest when every other record of its key is older; two
  copies of one record exclude each other. A collection is unambiguous when every key has one.
\<close>

definition strictly_newest :: "MemTableRecord multiset \<Rightarrow> MemTableRecord \<Rightarrow> bool" where
  "strictly_newest M r \<longleftrightarrow>
     r \<in># M \<and> (\<forall>q \<in># M - {#r#}. r_key q = r_key r \<longrightarrow> r_sequence q < r_sequence r)"

definition unambiguous :: "MemTableRecord multiset \<Rightarrow> bool" where
  "unambiguous M \<longleftrightarrow> (\<forall>q \<in># M. \<exists>r. strictly_newest M r \<and> r_key r = r_key q)"

definition newest :: "MemTableRecord list \<Rightarrow> MemTableRecord list" where
  "newest rs = sort_key r_key (filter (strictly_newest (mset rs)) rs)"

lemma strictly_newest_add:
  "strictly_newest (add_mset r M) r \<longleftrightarrow> (\<forall>q \<in># M. r_key q = r_key r \<longrightarrow> r_sequence q < r_sequence r)"
  by (simp add: strictly_newest_def)

lemma strictly_newest_unique:
  assumes "strictly_newest M r" and "strictly_newest M q" and "r_key r = r_key q"
  shows "r = q"
proof (rule ccontr)
  assume "r \<noteq> q"
  then have "q \<in># M - {#r#}" "r \<in># M - {#q#}"
    using assms(1,2) by (auto simp: strictly_newest_def in_diff_count)
  then have "r_sequence q < r_sequence r" "r_sequence r < r_sequence q"
    using assms by (auto simp: strictly_newest_def)
  then show False
    by simp
qed

lemma no_strictly_newest:
  assumes "\<forall>q \<in># M. r_key q = r_key r \<longrightarrow> r_sequence q \<le> r_sequence r"
    and "q \<in># M" and "r_key q = r_key r" and "r_sequence q = r_sequence r"
  shows "\<not> (\<exists>w. strictly_newest (add_mset r M) w \<and> r_key w = r_key r)"
proof
  assume "\<exists>w. strictly_newest (add_mset r M) w \<and> r_key w = r_key r"
  then obtain w where w: "strictly_newest (add_mset r M) w" "r_key w = r_key r"
    by blast
  show False
  proof (cases "w = r")
    case True
    then show False
      using w assms(2-4) by (auto simp: strictly_newest_add)
  next
    case False
    then have "w \<in># M" "r \<in># add_mset r M - {#w#}"
      using w(1) by (auto simp: strictly_newest_def in_diff_count)
    then have "r_sequence r < r_sequence w" "r_sequence w \<le> r_sequence r"
      using w assms(1) by (auto simp: strictly_newest_def)
    then show False
      by simp
  qed
qed

text \<open>The versions of one key are independent of those of the others.\<close>

lemma strictly_newest_split:
  assumes "\<forall>q \<in># K. r_key q = key" and "\<forall>q \<in># M. r_key q \<noteq> key"
  shows "strictly_newest (K + M) r \<longleftrightarrow> (if r_key r = key then strictly_newest K r else strictly_newest M r)"
proof (cases "r \<in># K")
  case True
  then obtain K' where "K = add_mset r K'"
    by (metis multi_member_split)
  then show ?thesis
    using assms by (auto simp: strictly_newest_add)
next
  case K: False
  show ?thesis
  proof (cases "r \<in># M")
    case True
    then obtain M' where "M = add_mset r M'"
      by (metis multi_member_split)
    then show ?thesis
      using assms by (auto simp: strictly_newest_add)
  qed (use K in \<open>simp add: strictly_newest_def\<close>)
qed

section \<open>Taking the cursors of one key\<close>

text \<open>
  The inner \<open>while\<close> of both loops; \<open>reused\<close> is the status for two records of one key with
  the sequence number of the winner.
\<close>

function collect_same_key ::
  "('c \<Rightarrow> MemTableRecord) \<Rightarrow> status \<Rightarrow> bytes \<Rightarrow> 'c list \<Rightarrow> MemTableRecord option \<Rightarrow> 'c list \<Rightarrow>
     ('c list \<times> MemTableRecord option \<times> 'c list) result" where
  "collect_same_key current reused key heap winner same_key =
     (if heap = [] then Inr (heap, winner, same_key)
      else let cursor = heap_top (cursor_later current) heap; rec = current cursor in
      if r_key rec \<noteq> key then Inr (heap, winner, same_key)
      else let heap = heap_pop (cursor_later current) heap; same_key = same_key @ [cursor] in
      (case winner of
         None \<Rightarrow> collect_same_key current reused key heap (Some rec) same_key
       | Some w \<Rightarrow>
         if r_sequence rec > r_sequence w
         then collect_same_key current reused key heap (Some rec) same_key
         else if r_sequence rec = r_sequence w then Inl reused
         else collect_same_key current reused key heap winner same_key))"
  by pat_completeness auto

termination collect_same_key
  by (relation "measure (\<lambda>(_, _, _, heap, _, _). length heap)")
    (auto simp: heap_pop_def length_remove1 heap_top_in)

declare collect_same_key.simps [simp del]

text \<open>
  With a winner that no cursor of the key beats, the loop moves all cursors of the key and fails
  exactly when one of them has the sequence number of the winner.
\<close>

lemma collect_rest:
  assumes "\<forall>c \<in> set heap. key \<le> r_key (current c)"
    and "\<forall>c \<in> set heap. r_key (current c) = key \<longrightarrow> r_sequence (current c) \<le> r_sequence w"
  shows "case collect_same_key current reused key heap (Some w) same of
      Inl s \<Rightarrow> s = reused \<and> (\<exists>c \<in> set heap. r_key (current c) = key \<and> r_sequence (current c) = r_sequence w)
    | Inr (heap', w', same') \<Rightarrow> w' = Some w \<and>
        mset heap' = {#c \<in># mset heap. r_key (current c) \<noteq> key#} \<and>
        mset same' = mset same + {#c \<in># mset heap. r_key (current c) = key#} \<and>
        (\<forall>c \<in> set heap. r_key (current c) = key \<longrightarrow> r_sequence (current c) < r_sequence w)"
  using assms
proof (induction heap arbitrary: same rule: measure_induct_rule [of length])
  case (less heap)
  let ?t = "heap_top (cursor_later current) heap" and ?h = "heap_pop (cursor_later current) heap"
  show ?case
  proof (cases "heap = [] \<or> r_key (current ?t) \<noteq> key")
    case True
    have "r_key (current c) \<noteq> key" if "c \<in> set heap" for c
      using True cursors.top_key_least [of c heap current] cursors.top_in [of heap current] less.prems(1) that
      by (metis empty_iff list.set(1) mset_zero_iff order_antisym set_mset_mset)
    then have "{#c \<in># mset heap. r_key (current c) \<noteq> key#} = mset heap"
        "{#c \<in># mset heap. r_key (current c) = key#} = {#}"
        "\<forall>c \<in> set heap. r_key (current c) \<noteq> key"
      by (auto simp: filter_mset_eq_conv)
    then show ?thesis
      using True by (subst collect_same_key.simps) (auto simp: Let_def)
  next
    case False
    have m: "mset heap = add_mset ?t (mset ?h)"
      using False cursors.elems_pop [of heap current] by simp
    have t: "?t \<in> set heap" and sub: "set heap = insert ?t (set ?h)" and "length ?h < length heap"
      using m False by (metis mset_eq_setD set_mset_add_mset_insert set_mset_mset insertI1)
        (metis m set_mset_add_mset_insert set_mset_mset, metis m lessI size_add_mset size_mset)
    note IH = less.IH [OF this(3), of "same @ [?t]"]
    have "r_sequence (current ?t) \<le> r_sequence w"
      using less.prems(2) t False by blast
    then consider "r_sequence (current ?t) = r_sequence w" | "r_sequence (current ?t) < r_sequence w"
      by fastforce
    then show ?thesis
    proof cases
      case 1
      then show ?thesis
        using False t by (subst collect_same_key.simps) (auto simp: Let_def)
    next
      case 2
      then have "collect_same_key current reused key heap (Some w) same =
          collect_same_key current reused key ?h (Some w) (same @ [?t])"
        using False by (subst collect_same_key.simps) (auto simp: Let_def)
      then show ?thesis
        using IH less.prems 2 False unfolding sub
        by (simp add: m split: sum.splits prod.splits)
    qed
  qed
qed

lemma collect_first:
  assumes "heap \<noteq> []" and "key = r_key (current (heap_top (cursor_later current) heap))"
  shows "case collect_same_key current reused key heap None [] of
      Inl s \<Rightarrow> s = reused \<and> \<not> (\<exists>w. strictly_newest (image_mset current (mset heap)) w \<and> r_key w = key)
    | Inr (heap', w', same') \<Rightarrow>
        mset heap' = {#c \<in># mset heap. r_key (current c) \<noteq> key#} \<and>
        mset same' = {#c \<in># mset heap. r_key (current c) = key#} \<and> same' \<noteq> [] \<and>
        (\<exists>w. w' = Some w \<and> r_key w = key \<and> strictly_newest (image_mset current (mset heap)) w)"
proof -
  let ?t = "heap_top (cursor_later current) heap" and ?h = "heap_pop (cursor_later current) heap"
  have m: "mset heap = add_mset ?t (mset ?h)"
    using assms(1) cursors.elems_pop [of heap current] by simp
  have "c \<in># mset heap" if "c \<in> set ?h" for c
    using that m by simp
  then have least: "\<forall>c \<in> set ?h. key \<le> r_key (current c)"
    and newer: "\<forall>c \<in> set ?h. r_key (current c) = key \<longrightarrow> r_sequence (current c) \<le> r_sequence (current ?t)"
    using cursors.top_key_least [of _ heap current] cursors.top_newest [of _ heap current] assms(2) by auto
  have "collect_same_key current reused key heap None [] =
      collect_same_key current reused key ?h (Some (current ?t)) [?t]"
    using assms by (subst collect_same_key.simps) (simp add: Let_def)
  then show ?thesis
    using collect_rest [OF least newer, of reused "[?t]"] assms(2) newer
      no_strictly_newest [of "image_mset current (mset ?h)" "current ?t"]
    by (auto simp: m strictly_newest_add split: sum.splits prod.splits)
qed

lemma collect_partition:
  assumes "heap \<noteq> []" and "key = r_key (current (heap_top (cursor_later current) heap))"
    and "collect_same_key current reused key heap None [] = Inr (heap', winner, same)"
  shows "mset heap = mset heap' + mset same" and "same \<noteq> []" and "winner \<noteq> None"
proof -
  have *: "mset heap' = {#c \<in># mset heap. r_key (current c) \<noteq> key#}"
      "mset same = {#c \<in># mset heap. r_key (current c) = key#}" "same \<noteq> [] \<and> winner \<noteq> None"
    using collect_first [of heap key current reused, OF assms(1,2)] assms(3) by auto
  show "mset heap = mset heap' + mset same"
    by (metis *(1,2) multiset_partition union_commute)
  show "same \<noteq> []" "winner \<noteq> None"
    using *(3) by simp_all
qed

section \<open>One round of a merge\<close>

text \<open>
  Every cursor stands at the head of the records it has still to deliver, in key order. The pool
  is all that the cursors of a queue have to deliver.
\<close>

definition pool :: "('c \<Rightarrow> MemTableRecord list) \<Rightarrow> 'c multiset \<Rightarrow> MemTableRecord multiset" where
  "pool rest C = \<Sum>\<^sub># (image_mset (\<lambda>c. mset (rest c)) C)"

definition standing :: "('c \<Rightarrow> MemTableRecord) \<Rightarrow> ('c \<Rightarrow> MemTableRecord list) \<Rightarrow> 'c \<Rightarrow> bool" where
  "standing current rest c \<longleftrightarrow> rest c \<noteq> [] \<and> current c = hd (rest c) \<and> records_sorted (rest c)"

lemma pool_union [simp]: "pool rest (A + B) = pool rest A + pool rest B"
  by (simp add: pool_def)

lemma pool_add [simp]: "pool rest (add_mset c A) = mset (rest c) + pool rest A"
  by (simp add: pool_def)

lemma pool_empty [simp]: "pool rest {#} = {#}"
  by (simp add: pool_def)

lemma pool_cong: "(\<And>c. c \<in># C \<Longrightarrow> rest c = rest' c) \<Longrightarrow> pool rest C = pool rest' C"
  by (simp add: pool_def cong: image_mset_cong)

lemma in_pool: "r \<in># pool rest C \<longleftrightarrow> (\<exists>c \<in># C. r \<in> set (rest c))"
  by (induction C) auto

lemma pool_heads:
  assumes "\<forall>c \<in># C. standing current rest c"
  shows "pool rest C = image_mset current C + pool (tl \<circ> rest) C"
  using assms
proof (induction C)
  case (add c C)
  have "mset (rest c) = add_mset (current c) (mset (tl (rest c)))"
    using add.prems by (cases "rest c") (simp_all add: standing_def)
  then show ?case
    using add by simp
qed simp

lemma standing_le:
  assumes "standing current rest c" and "r \<in> set (rest c)"
  shows "r_key (current c) \<le> r_key r"
  using assms sorted_hd_le [of "map r_key (rest c)" "r_key r"] by (simp add: standing_def hd_map)

lemma standing_less:
  assumes "standing current rest c" and "r \<in> set (tl (rest c))"
  shows "r_key (current c) < r_key r"
  using assms by (cases "rest c") (simp_all add: standing_def)

text \<open>The pool splits into the versions of the smallest key and what is left after the round.\<close>

lemma round_split:
  assumes st: "\<forall>c \<in> set heap. standing current rest c"
    and least: "\<forall>c \<in> set heap. key \<le> r_key (current c)"
    and rest': "pool' = pool rest {#c \<in># mset heap. r_key (current c) \<noteq> key#} +
      pool (tl \<circ> rest) {#c \<in># mset heap. r_key (current c) = key#}"
    and K: "K = image_mset current {#c \<in># mset heap. r_key (current c) = key#}"
  shows "pool rest (mset heap) = K + pool'" and "\<forall>q \<in># K. r_key q = key"
    and "\<forall>q \<in># pool'. key < r_key q"
proof -
  let ?S = "{#c \<in># mset heap. r_key (current c) = key#}"
  have "mset heap = {#c \<in># mset heap. r_key (current c) \<noteq> key#} + ?S"
    by (metis multiset_partition union_commute)
  then have "pool rest (mset heap) = pool rest {#c \<in># mset heap. r_key (current c) \<noteq> key#} + pool rest ?S"
    by (metis pool_union)
  then show "pool rest (mset heap) = K + pool'"
    using pool_heads [of ?S current rest] st by (simp add: K rest' ac_simps)
  show "\<forall>q \<in># K. r_key q = key"
    by (auto simp: K)
  have "key < r_key q" if "c \<in> set heap" "r_key (current c) \<noteq> key" "q \<in> set (rest c)" for c q
    using that st least standing_le [of current rest c q] by fastforce
  moreover have "key < r_key q" if "c \<in> set heap" "r_key (current c) = key" "q \<in> set (tl (rest c))" for c q
    using that st standing_less [of current rest c q] by auto
  ultimately show "\<forall>q \<in># pool'. key < r_key q"
    by (auto simp: rest' in_pool)
qed

definition pool_after :: "('c \<Rightarrow> MemTableRecord list) \<Rightarrow> 'c list \<Rightarrow> 'c list \<Rightarrow> MemTableRecord multiset" where
  "pool_after rest heap same = pool rest (mset heap) + pool (tl \<circ> rest) (mset same)"

lemma merge_round:
  assumes "heap \<noteq> []" and key: "key = r_key (current (heap_top (cursor_later current) heap))"
    and st: "\<forall>c \<in> set heap. standing current rest c"
  shows "case collect_same_key current reused key heap None [] of
      Inl s \<Rightarrow> s = reused \<and> \<not> unambiguous (pool rest (mset heap))
    | Inr (heap', w', same') \<Rightarrow>
        mset heap = mset heap' + mset same' \<and> same' \<noteq> [] \<and>
        (\<forall>q \<in># pool_after rest heap' same'. key < r_key q) \<and>
        (unambiguous (pool rest (mset heap)) \<longleftrightarrow> unambiguous (pool_after rest heap' same')) \<and>
        (\<exists>w. w' = Some w \<and> r_key w = key \<and>
           (\<forall>r. strictly_newest (pool rest (mset heap)) r \<longleftrightarrow>
              r = w \<or> strictly_newest (pool_after rest heap' same') r))"
proof -
  let ?S = "{#c \<in># mset heap. r_key (current c) = key#}"
    and ?N = "{#c \<in># mset heap. r_key (current c) \<noteq> key#}"
  define K where K: "K = image_mset current ?S"
  define P where P: "P = pool rest ?N + pool (tl \<circ> rest) ?S"
  have least: "\<forall>c \<in> set heap. key \<le> r_key (current c)"
    using cursors.top_key_least [of _ heap current] key by auto
  note split = round_split [OF st least P K]
  have P_not: "\<forall>q \<in># P. r_key q \<noteq> key"
    using split(3) by auto
  note newest = strictly_newest_split [OF split(2) P_not, folded split(1)]
  have heads: "image_mset current (mset heap) = K + image_mset current ?N"
    by (metis K image_mset_union multiset_partition)
  have at_key: "strictly_newest (image_mset current (mset heap)) w \<longleftrightarrow> strictly_newest K w" if "r_key w = key" for w
    using strictly_newest_split [OF split(2), of "image_mset current ?N" w] that heads by auto
  show ?thesis
  proof (cases "collect_same_key current reused key heap None []")
    case (Inl s)
    have "\<exists>q \<in># pool rest (mset heap). r_key q = key"
      using key cursors.top_in [of heap current] assms(1) split(1) by (auto simp: K)
    then show ?thesis
      using collect_first [of heap key current reused, OF assms(1) key] Inl newest at_key by (auto simp: unambiguous_def)
  next
    case (Inr res)
    obtain heap' w' same' where res: "res = (heap', w', same')"
      by (cases res)
    obtain w where w: "mset heap' = ?N" "mset same' = ?S" "same' \<noteq> []" "w' = Some w" "r_key w = key"
        "strictly_newest K w"
      using collect_first [of heap key current reused, OF assms(1) key] Inr at_key by (auto simp: res)
    have P': "pool_after rest heap' same' = P"
      by (simp add: pool_after_def w P)
    have heap: "mset heap = mset heap' + mset same'"
      by (metis w(1,2) multiset_partition union_commute)
    have new: "strictly_newest (pool rest (mset heap)) r \<longleftrightarrow> r = w \<or> strictly_newest P r" for r
      using newest [of r] strictly_newest_unique [of K r w] w(5,6) P_not
      by (auto simp: strictly_newest_def)
    have "q \<in># pool rest (mset heap) \<longleftrightarrow> q \<in># K \<or> q \<in># P" for q
      by (simp add: split(1))
    then have "unambiguous (pool rest (mset heap)) \<longleftrightarrow> unambiguous P"
      unfolding unambiguous_def new using split(2) P_not w(5) by metis
    then show ?thesis
      using w(3-5) heap new split(3) by (simp add: Inr res P')
  qed
qed

lemma size_pool:
  assumes "mset heap = mset heap' + mset same" and "\<forall>c \<in> set heap. standing current rest c"
  shows "size (pool rest (mset heap)) = length same + size (pool_after rest heap' same)"
proof -
  have "\<forall>c \<in># mset same. standing current rest c"
    using assms by (metis set_mset_mset union_iff)
  then show ?thesis
    using pool_heads [of "mset same" current rest] by (simp add: assms(1) pool_after_def)
qed

end
