(* ===== verification/TableBuilder.thy ===== *)
theory TableBuilder
  imports TableFormat
begin

text \<open>
  The writing half of \<^verbatim>\<open>src/table.cpp\<close>: \<open>EncodeTable\<close> packs the records of a MemTable into data
  blocks, appends the sparse index and the Bloom filter, and frames everything between a header and
  a footer. The string positions and sizes of the code are naturals, its \<open>uint32_t\<close> and \<open>uint64_t\<close>
  variables words.
\<close>

section \<open>Data blocks\<close>

record BuiltIndexEntry =
  bi_first_key :: bytes
  bi_block_offset :: u64
  bi_block_size :: u32

text \<open>The local variables of \<open>EncodeTable\<close> that its loop and \<open>FinishBlock\<close> update.\<close>

record TableBuild =
  tb_data :: bytes
  tb_index :: "BuiltIndexEntry list"
  tb_payload :: bytes
  tb_first_key :: bytes
  tb_records :: u32
  tb_minimum_sequence :: u64
  tb_maximum_sequence :: u64

definition empty_TableBuild :: TableBuild where
  "empty_TableBuild = \<lparr>tb_data = [], tb_index = [], tb_payload = [], tb_first_key = [],
     tb_records = 0, tb_minimum_sequence = - 1, tb_maximum_sequence = 0\<rparr>"

definition block_limit :: status where
  "block_limit = InvalidArgument ''SSTable data block exceeds format limit''"

definition FinishBlock :: "TableBuild \<Rightarrow> TableBuild result" where
  "FinishBlock b =
     (if tb_records b = 0 then Inr b
      else let block_size_64 = kTableBlockHeaderSize + length (tb_payload b) in
      if block_size_64 > u32_max then Inl block_limit
      else if length (tb_index b) = u32_max
        then Inl (InvalidArgument ''SSTable block count exceeds format limit'')
      else let
        prefix = kBlockMagic;
        prefix = PutFixed32 prefix (word_of_nat block_size_64);
        prefix = PutFixed32 prefix (tb_records b);
        prefix = PutFixed32 prefix (word_of_nat (length (tb_payload b)));
        entry = \<lparr>bi_first_key = tb_first_key b,
                 bi_block_offset = word_of_nat (kTableHeaderSize + length (tb_data b)),
                 bi_block_size = word_of_nat block_size_64\<rparr>;
        data = tb_data b @ prefix;
        data = PutFixed32 data (ChecksumParts prefix (tb_payload b));
        data = data @ tb_payload b
      in Inr (b\<lparr>tb_data := data, tb_index := tb_index b @ [entry], tb_payload := [],
                tb_first_key := [], tb_records := 0\<rparr>))"

text \<open>One iteration of the loop over the records.\<close>

definition add_record :: "Options \<Rightarrow> MemTableRecord \<Rightarrow> TableBuild \<Rightarrow> TableBuild result" where
  "add_record options entry b =
     and_then (EncodeWalRecord (wal_of entry) options) (\<lambda>encoded.
     let candidate_size = kTableBlockHeaderSize + length (tb_payload b) + length encoded in
     and_then
       (if tb_records b \<noteq> 0 \<and> candidate_size > sstable_block_size options
        then FinishBlock b else Inr b) (\<lambda>b.
     let b = (if tb_records b = 0 then b\<lparr>tb_first_key := r_key entry\<rparr> else b) in
     if tb_records b = - 1 \<or> length (tb_payload b) > u32_max - length encoded
     then Inl block_limit
     else Inr (b\<lparr>tb_payload := tb_payload b @ encoded, tb_records := tb_records b + 1,
                 tb_minimum_sequence := min (tb_minimum_sequence b) (r_sequence entry),
                 tb_maximum_sequence := max (tb_maximum_sequence b) (r_sequence entry)\<rparr>)))"

fun add_records :: "Options \<Rightarrow> MemTableRecord list \<Rightarrow> TableBuild \<Rightarrow> TableBuild result" where
  "add_records options [] b = Inr b"
| "add_records options (entry # rest) b =
     and_then (add_record options entry b) (add_records options rest)"

section \<open>Sparse index and Bloom filter\<close>

fun encode_index_entries :: "BuiltIndexEntry list \<Rightarrow> bytes \<Rightarrow> bytes result" where
  "encode_index_entries [] index_payload = Inr index_payload"
| "encode_index_entries (entry # rest) index_payload =
     (if length (bi_first_key entry) > u32_max
      then Inl (InvalidArgument ''SSTable index key exceeds format limit'')
      else let
        index_payload = PutFixed32 index_payload (word_of_nat (length (bi_first_key entry)));
        index_payload = PutFixed64 index_payload (bi_block_offset entry);
        index_payload = PutFixed32 index_payload (bi_block_size entry);
        index_payload = index_payload @ bi_first_key entry
      in encode_index_entries rest index_payload)"

definition encode_index :: "BuiltIndexEntry list \<Rightarrow> bytes result" where
  "encode_index index_entries =
     and_then (encode_index_entries index_entries []) (\<lambda>index_payload.
     let index_size_64 = kTableIndexHeaderSize + length index_payload in
     if index_size_64 > u32_max \<or> index_size_64 > kMaximumTableIndexSize
     then Inl (InvalidArgument ''SSTable sparse index exceeds format limit'')
     else let
       index = kIndexMagic;
       index = PutFixed32 index (word_of_nat index_size_64);
       index = PutFixed32 index (word_of_nat (length index_entries));
       index = PutFixed32 index (word_of_nat (length index_payload));
       index = PutFixed32 index (ChecksumParts index index_payload)
     in Inr (index @ index_payload))"

fun add_keys :: "MemTableRecord list \<Rightarrow> BloomFilter \<Rightarrow> BloomFilter result" where
  "add_keys [] flt = Inr flt"
| "add_keys (record # records) flt = and_then (Bloom_Add (r_key record) flt) (add_keys records)"

definition encode_bloom :: "FloatMath \<Rightarrow> MemTableRecord list \<Rightarrow> Options \<Rightarrow> bytes result" where
  "encode_bloom fm records options =
     (if bloom_filter_enabled options
      then and_then (Bloom_Create fm (length records) (bloom_false_positive_rate options)) (\<lambda>flt.
           and_then (add_keys records flt) EncodeBloomFilter)
      else Inr [])"

section \<open>Header, footer, table\<close>

definition encode_header :: "u64 \<Rightarrow> nat \<Rightarrow> nat \<Rightarrow> bytes" where
  "encode_header generation record_count block_count =
     (let header = kTableMagic;
        header = header @ [kTableFormatVersion];
        header = header @ [0];
        header = PutFixed16 header (word_of_nat kTableHeaderSize);
        header = PutFixed64 header generation;
        header = PutFixed64 header (word_of_nat record_count);
        header = PutFixed32 header (word_of_nat block_count)
      in PutFixed32 header (Crc32c header))"

text \<open>The footer fields of the table as the metadata record; key bounds and Bloom shape are not stored.\<close>

definition encode_footer :: "SSTableMetadata \<Rightarrow> bytes" where
  "encode_footer md =
     (let footer = kFooterMagic;
        footer = footer @ [kTableFormatVersion];
        footer = footer @ [0];
        footer = PutFixed16 footer (word_of_nat kTableFooterSize);
        footer = PutFixed64 footer (md_file_size md);
        footer = PutFixed64 footer (md_generation md);
        footer = PutFixed64 footer (md_record_count md);
        footer = PutFixed64 footer (md_minimum_sequence md);
        footer = PutFixed64 footer (md_maximum_sequence md);
        footer = PutFixed64 footer (md_data_offset md);
        footer = PutFixed64 footer (md_data_size md);
        footer = PutFixed64 footer (md_index_offset md);
        footer = PutFixed64 footer (md_index_size md);
        footer = PutFixed64 footer (md_bloom_offset md);
        footer = PutFixed64 footer (md_bloom_size md);
        footer = PutFixed32 footer (md_block_count md)
      in PutFixed32 footer (Crc32c footer))"

definition table_layout :: "u64 \<Rightarrow> nat \<Rightarrow> TableBuild \<Rightarrow> nat \<Rightarrow> nat \<Rightarrow> SSTableMetadata result" where
  "table_layout generation record_count b index_length bloom_length =
     (let bad = InvalidArgument ''SSTable physical size overflows'';
        data_offset = word_of_nat kTableHeaderSize;
        data_size = word_of_nat (length (tb_data b));
        index_size = word_of_nat index_length;
        bloom_size = word_of_nat bloom_length
      in or_fail (CheckedAdd data_offset data_size) bad (\<lambda>index_offset.
         or_fail (CheckedAdd index_offset index_size) bad (\<lambda>bloom_offset.
         or_fail (CheckedAdd bloom_offset bloom_size) bad (\<lambda>footer_offset.
         or_fail (CheckedAdd footer_offset (word_of_nat kTableFooterSize)) bad (\<lambda>file_size.
         if unat file_size > size_max then Inl bad
         else Inr (empty_SSTableMetadata\<lparr>md_generation := generation,
           md_record_count := word_of_nat record_count,
           md_minimum_sequence := tb_minimum_sequence b,
           md_maximum_sequence := tb_maximum_sequence b, md_file_size := file_size,
           md_data_offset := data_offset, md_data_size := data_size,
           md_index_offset := index_offset, md_index_size := index_size,
           md_bloom_offset := bloom_offset, md_bloom_size := bloom_size,
           md_block_count := word_of_nat (length (tb_index b))\<rparr>))))))"

definition EncodeTable :: "FloatMath \<Rightarrow> u64 \<Rightarrow> MemTable \<Rightarrow> Options \<Rightarrow> bytes result" where
  "EncodeTable fm generation memtable options =
     (if generation = 0 \<or> MemTable_empty memtable
      then Inl (InvalidArgument ''SSTable requires a non-zero generation and at least one record'')
      else if \<not> ok (ValidateTableOptions options) then Inl (ValidateTableOptions options)
      else let records = Records memtable in
      and_then (add_records options records empty_TableBuild) (\<lambda>b.
      and_then (FinishBlock b) (\<lambda>b.
      and_then (encode_index (tb_index b)) (\<lambda>index.
      and_then (encode_bloom fm records options) (\<lambda>bloom.
      and_then (table_layout generation (length records) b (length index) (length bloom)) (\<lambda>md.
      Inr (encode_header generation (length records) (length (tb_index b)) @
           tb_data b @ index @ bloom @ encode_footer md)))))))"

end
