(* ===== verification/TableReader.thy ===== *)
theory TableReader
  imports TableFormat
begin

text \<open>
  The reading half of \<^verbatim>\<open>src/table.cpp\<close>: \<open>SSTableReader::Open\<close> checks every region of a table file,
  \<open>Get\<close> answers point lookups, \<open>ReadRecords\<close> and the iterator read ranges. A reader holds its
  \<open>RecoveryFile\<close>, whose scripted outcomes advance with every read; the content never changes.
  \<open>std::upper_bound\<close> and \<open>std::lower_bound\<close> are the partition points they return on the sorted
  ranges the code calls them on. Statistics are always counted; a caller that passes no pointer
  ignores them.
\<close>

section \<open>Types\<close>

record SSTableReadStats =
  tables_considered :: u64
  range_rejections :: u64
  bloom_filter_checks :: u64
  bloom_filter_rejections :: u64
  bloom_false_positives :: u64
  data_blocks_read :: u64
  st_bytes_read :: u64

definition empty_SSTableReadStats :: SSTableReadStats where
  "empty_SSTableReadStats = \<lparr>tables_considered = 0, range_rejections = 0, bloom_filter_checks = 0,
     bloom_filter_rejections = 0, bloom_false_positives = 0, data_blocks_read = 0, st_bytes_read = 0\<rparr>"

record IndexEntry =
  ix_first_key :: bytes
  ix_block_offset :: u64
  ix_block_size :: u32

record SSTableReader =
  rd_path :: string
  rd_options :: Options
  rd_file :: RecoveryFile
  rd_metadata :: SSTableMetadata
  rd_index :: "IndexEntry list"
  rd_bloom :: "BloomFilter option"

definition ReadRegion :: "RecoveryFile \<Rightarrow> u64 \<Rightarrow> u64 \<Rightarrow> RecoveryFile \<times> bytes result" where
  "ReadRegion f offset count =
     (if unat count > size_max
      then (f, Inl (TableCorruption ''region size exceeds addressable memory''))
      else case ReadAllAt f (unat offset) (unat count) of
        (f', Inl s) \<Rightarrow>
          (f', Inl (if IsIncomplete s
                    then TableCorruption ''region reaches beyond the physical file'' else s))
      | (f', Inr bs) \<Rightarrow> (f', Inr bs))"

text \<open>Continue with the bytes of a region, or return the status of the failed read.\<close>

definition with_region :: "RecoveryFile \<times> bytes result \<Rightarrow> (RecoveryFile \<Rightarrow> bytes \<Rightarrow> 'a result) \<Rightarrow> 'a result" where
  "with_region r k = (case r of (f, Inl s) \<Rightarrow> Inl s | (f, Inr bs) \<Rightarrow> k f bs)"

section \<open>Data blocks\<close>

text \<open>The loop of \<open>ReadBlock\<close>: \<open>n\<close> records are left, \<open>record_number\<close> is the next one.\<close>

fun decode_block_records ::
  "Options \<Rightarrow> nat \<Rightarrow> nat \<Rightarrow> bytes \<Rightarrow> bytes \<Rightarrow> (MemTableRecord list \<times> bytes) result" where
  "decode_block_records options 0 record_number previous_key remaining = Inr ([], remaining)"
| "decode_block_records options (Suc n) record_number previous_key remaining =
     (case DecodeWalRecord remaining options of
        Inl s \<Rightarrow> Inl (TableCorruption (''data record '' @ to_string record_number @
                        '' is invalid: '' @ ToString s))
      | Inr (bytes_consumed, record) \<Rightarrow>
        if record_number \<noteq> 0 \<and> w_key record \<le> previous_key
        then Inl (TableCorruption ''data block keys are not strictly ordered'')
        else and_then
          (decode_block_records options n (record_number + 1) (w_key record)
            (substr_from remaining bytes_consumed))
          (\<lambda>(records, rest). Inr (record_of record # records, rest)))"

definition decode_block :: "Options \<Rightarrow> IndexEntry \<Rightarrow> bytes \<Rightarrow> MemTableRecord list result" where
  "decode_block options entry block =
     (if take 4 block \<noteq> kBlockMagic then Inl (TableCorruption ''data block magic does not match'')
      else let bad = TableCorruption ''data block fields or checksum are invalid'' in
      or_fail (DecodeFixed32 (substr_from block 4)) bad (\<lambda>block_size.
      or_fail (DecodeFixed32 (substr_from block 8)) bad (\<lambda>record_count.
      or_fail (DecodeFixed32 (substr_from block 12)) bad (\<lambda>payload_size.
      or_fail (DecodeFixed32 (substr_from block 16)) bad (\<lambda>checksum.
      if block_size \<noteq> ix_block_size entry \<or> record_count = 0 \<or>
         unat payload_size \<noteq> length block - kTableBlockHeaderSize \<or>
         unat record_count > unat payload_size div kWalHeaderSize \<or>
         ChecksumParts (substr block 0 16) (substr_from block kTableBlockHeaderSize) \<noteq> checksum
      then Inl bad
      else and_then
        (decode_block_records options (unat record_count) 0 [] (substr_from block kTableBlockHeaderSize))
        (\<lambda>(records, remaining).
           if remaining \<noteq> [] then Inl (TableCorruption ''data block has trailing records or bytes'')
           else Inr records))))))"

text \<open>The region buffer has the requested size whether or not it could be read, and is counted.\<close>

definition ReadBlock ::
  "nat \<Rightarrow> SSTableReadStats \<Rightarrow> SSTableReader \<Rightarrow> SSTableReader \<times> SSTableReadStats \<times> MemTableRecord list result" where
  "ReadBlock i stats rd =
     (if i \<ge> length (rd_index rd)
      then (rd, stats, Inl (InvalidArgument ''SSTable block read arguments are invalid''))
      else let
        entry = rd_index rd ! i;
        (f, r) = ReadRegion (rd_file rd) (ix_block_offset entry) (ucast (ix_block_size entry));
        stats = stats\<lparr>data_blocks_read := data_blocks_read stats + 1,
                      st_bytes_read := st_bytes_read stats + ucast (ix_block_size entry)\<rparr>
      in (rd\<lparr>rd_file := f\<rparr>, stats, and_then r (decode_block (rd_options rd) entry)))"

section \<open>Opening\<close>

definition decode_table_header :: "bytes \<Rightarrow> (u64 \<times> u64 \<times> u32) result" where
  "decode_table_header header =
     (if take 4 header \<noteq> kTableMagic \<or> header ! 4 \<noteq> kTableFormatVersion
      then Inl (TableCorruption ''header magic or format version is unsupported'')
      else let bad = TableCorruption ''header fields or checksum are invalid'' in
      or_fail (DecodeFixed16 (substr_from header 6)) bad (\<lambda>header_size.
      or_fail (DecodeFixed64 (substr_from header 8)) bad (\<lambda>header_generation.
      or_fail (DecodeFixed64 (substr_from header 16)) bad (\<lambda>header_records.
      or_fail (DecodeFixed32 (substr_from header 24)) bad (\<lambda>header_blocks.
      or_fail (DecodeFixed32 (substr_from header 28)) bad (\<lambda>header_checksum.
      if unat header_size \<noteq> kTableHeaderSize \<or> header_generation = 0 \<or> header_records = 0 \<or>
         header_blocks = 0 \<or> Crc32c (substr header 0 28) \<noteq> header_checksum
      then Inl bad
      else Inr (header_generation, header_records, header_blocks)))))))"

definition decode_table_footer :: "bytes \<Rightarrow> u64 \<Rightarrow> u64 \<times> u64 \<times> u32 \<Rightarrow> SSTableMetadata result" where
  "decode_table_footer footer file_size hdr =
     (let (header_generation, header_records, header_blocks) = hdr in
      if take 4 footer \<noteq> kFooterMagic \<or> footer ! 4 \<noteq> kTableFormatVersion
      then Inl (TableCorruption ''Footer magic or format version is unsupported'')
      else let bad = TableCorruption ''Footer fields cannot be decoded'' in
      or_fail (DecodeFixed16 (substr_from footer 6)) bad (\<lambda>footer_size.
      or_fail (DecodeFixed64 (substr_from footer 8)) bad (\<lambda>encoded_file_size.
      or_fail (DecodeFixed64 (substr_from footer 16)) bad (\<lambda>generation.
      or_fail (DecodeFixed64 (substr_from footer 24)) bad (\<lambda>record_count.
      or_fail (DecodeFixed64 (substr_from footer 32)) bad (\<lambda>minimum_sequence.
      or_fail (DecodeFixed64 (substr_from footer 40)) bad (\<lambda>maximum_sequence.
      or_fail (DecodeFixed64 (substr_from footer 48)) bad (\<lambda>data_offset.
      or_fail (DecodeFixed64 (substr_from footer 56)) bad (\<lambda>data_size.
      or_fail (DecodeFixed64 (substr_from footer 64)) bad (\<lambda>index_offset.
      or_fail (DecodeFixed64 (substr_from footer 72)) bad (\<lambda>index_size.
      or_fail (DecodeFixed64 (substr_from footer 80)) bad (\<lambda>bloom_offset.
      or_fail (DecodeFixed64 (substr_from footer 88)) bad (\<lambda>bloom_size.
      or_fail (DecodeFixed32 (substr_from footer 96)) bad (\<lambda>block_count.
      or_fail (DecodeFixed32 (substr_from footer 100)) bad (\<lambda>footer_checksum.
      if unat footer_size \<noteq> kTableFooterSize \<or> encoded_file_size \<noteq> file_size \<or>
         generation \<noteq> header_generation \<or> record_count \<noteq> header_records \<or>
         block_count \<noteq> header_blocks \<or> minimum_sequence = 0 \<or>
         minimum_sequence > maximum_sequence \<or>
         Crc32c (substr footer 0 100) \<noteq> footer_checksum
      then Inl (TableCorruption ''Footer fields or checksum are invalid'')
      else Inr (empty_SSTableMetadata\<lparr>md_generation := generation, md_record_count := record_count,
        md_minimum_sequence := minimum_sequence, md_maximum_sequence := maximum_sequence,
        md_file_size := file_size, md_data_offset := data_offset, md_data_size := data_size,
        md_index_offset := index_offset, md_index_size := index_size,
        md_bloom_offset := bloom_offset, md_bloom_size := bloom_size,
        md_block_count := block_count\<rparr>))))))))))))))))"

definition regions_invalid :: "SSTableMetadata \<Rightarrow> bool" where
  "regions_invalid md \<longleftrightarrow>
     md_data_offset md \<noteq> word_of_nat kTableHeaderSize \<or> md_data_size md = 0 \<or>
     unat (md_index_size md) < kTableIndexHeaderSize \<or>
     unat (md_index_size md) > kMaximumTableIndexSize \<or>
     (md_bloom_size md \<noteq> 0 \<and> unat (md_bloom_size md) < kBloomFilterHeaderSize) \<or>
     unat (md_bloom_size md) > kBloomFilterHeaderSize + kMaximumBloomFilterSize \<or>
     CheckedAdd (md_data_offset md) (md_data_size md) \<noteq> Some (md_index_offset md) \<or>
     CheckedAdd (md_index_offset md) (md_index_size md) \<noteq> Some (md_bloom_offset md) \<or>
     (case CheckedAdd (md_bloom_offset md) (md_bloom_size md) of
        None \<Rightarrow> True
      | Some expected_file_size \<Rightarrow>
        CheckedAdd expected_file_size (word_of_nat kTableFooterSize) \<noteq> Some (md_file_size md))"

definition check_index_size :: "Options \<Rightarrow> SSTableMetadata \<Rightarrow> status" where
  "check_index_size options md =
     (case CheckedAdd (word_of_nat kIndexEntryFixedSize) (word_of_nat (max_key_size options)) of
        None \<Rightarrow> InvalidArgument ''configured index key limit overflows''
      | Some max_index_entry \<Rightarrow>
        if (ucast (md_block_count md) :: u64) >
             (- 1 - word_of_nat kTableIndexHeaderSize) div max_index_entry \<or>
           md_index_size md >
             word_of_nat kTableIndexHeaderSize + ucast (md_block_count md) * max_index_entry
        then TableCorruption ''sparse index size exceeds configured limits''
        else Ok)"

definition check_index_header :: "SSTableMetadata \<Rightarrow> bytes \<Rightarrow> unit result" where
  "check_index_header md encoded_index =
     (if take 4 encoded_index \<noteq> kIndexMagic
      then Inl (TableCorruption ''sparse index magic does not match'')
      else let bad = TableCorruption ''sparse index fields or checksum are invalid'' in
      or_fail (DecodeFixed32 (substr_from encoded_index 4)) bad (\<lambda>encoded_index_size.
      or_fail (DecodeFixed32 (substr_from encoded_index 8)) bad (\<lambda>index_entries.
      or_fail (DecodeFixed32 (substr_from encoded_index 12)) bad (\<lambda>index_payload_size.
      or_fail (DecodeFixed32 (substr_from encoded_index 16)) bad (\<lambda>index_checksum.
      if ucast encoded_index_size \<noteq> md_index_size md \<or> index_entries \<noteq> md_block_count md \<or>
         ucast index_payload_size \<noteq> md_index_size md - word_of_nat kTableIndexHeaderSize \<or>
         ChecksumParts (substr encoded_index 0 16) (substr_from encoded_index kTableIndexHeaderSize)
           \<noteq> index_checksum
      then Inl bad else Inr ())))))"

definition check_bloom :: "SSTableMetadata \<Rightarrow> bytes \<Rightarrow> BloomFilter result" where
  "check_bloom md encoded_bloom =
     (case DecodeBloomFilter encoded_bloom of
        Inl s \<Rightarrow> Inl (TableCorruption (ToString s))
      | Inr flt \<Rightarrow>
        if key_count flt \<noteq> md_record_count md
        then Inl (TableCorruption ''Bloom key count disagrees with the Footer'')
        else Inr flt)"

definition load_bloom ::
  "RecoveryFile \<Rightarrow> SSTableMetadata \<Rightarrow> (RecoveryFile \<times> SSTableMetadata \<times> BloomFilter option) result" where
  "load_bloom f md =
     (if md_bloom_size md = 0 then Inr (f, md, None)
      else with_region (ReadRegion f (md_bloom_offset md) (md_bloom_size md)) (\<lambda>f encoded_bloom.
        and_then (check_bloom md encoded_bloom) (\<lambda>flt.
        Inr (f, md\<lparr>md_bloom_bit_count := bit_count flt, md_bloom_hash_count := hash_count flt\<rparr>,
             Some flt))))"

text \<open>One turn of the loop over the sparse index; \<open>index\<close> is \<open>reader->index_\<close> so far.\<close>

definition decode_index_entry ::
  "Options \<Rightarrow> SSTableMetadata \<Rightarrow> u64 \<Rightarrow> bytes \<Rightarrow> u64 \<Rightarrow> IndexEntry list \<Rightarrow>
   (IndexEntry \<times> bytes \<times> u64) result" where
  "decode_index_entry options md maximum_block_size remaining expected_block_offset index =
     (let bad = TableCorruption ''sparse index entry header is incomplete'' in
      if length remaining < kIndexEntryFixedSize then Inl bad
      else
      or_fail (DecodeFixed32 remaining) bad (\<lambda>key_size.
      or_fail (DecodeFixed64 (substr_from remaining 4)) bad (\<lambda>block_offset.
      or_fail (DecodeFixed32 (substr_from remaining 12)) bad (\<lambda>block_size.
      let remaining = substr_from remaining kIndexEntryFixedSize in
      if key_size = 0 \<or> unat key_size > max_key_size options \<or> unat key_size > length remaining \<or>
         unat block_size < kTableBlockHeaderSize \<or> ucast block_size > maximum_block_size \<or>
         block_offset \<noteq> expected_block_offset \<or>
         \<not> RegionWithin block_offset (ucast block_size) (md_data_offset md) (md_data_size md)
      then Inl (TableCorruption ''sparse index entry is out of bounds'')
      else let
        entry = \<lparr>ix_first_key = substr remaining 0 (unat key_size), ix_block_offset = block_offset,
                 ix_block_size = block_size\<rparr>;
        remaining = substr_from remaining (unat key_size)
      in if index \<noteq> [] \<and> ix_first_key entry \<le> ix_first_key (last index)
      then Inl (TableCorruption ''sparse index keys are not strictly ordered'')
      else or_fail (CheckedAdd expected_block_offset (ucast block_size))
        (TableCorruption ''data block offset overflows'') (\<lambda>expected_block_offset.
      Inr (entry, remaining, expected_block_offset))))))"

fun decode_index_entries ::
  "Options \<Rightarrow> SSTableMetadata \<Rightarrow> u64 \<Rightarrow> nat \<Rightarrow> bytes \<Rightarrow> u64 \<Rightarrow> IndexEntry list \<Rightarrow>
   (bytes \<times> u64 \<times> IndexEntry list) result" where
  "decode_index_entries options md maximum_block_size 0 remaining expected_block_offset index =
     Inr (remaining, expected_block_offset, index)"
| "decode_index_entries options md maximum_block_size (Suc n) remaining expected_block_offset index =
     and_then (decode_index_entry options md maximum_block_size remaining expected_block_offset index)
       (\<lambda>(entry, remaining, expected_block_offset).
     decode_index_entries options md maximum_block_size n remaining expected_block_offset
       (index @ [entry]))"

definition load_index :: "Options \<Rightarrow> SSTableMetadata \<Rightarrow> bytes \<Rightarrow> IndexEntry list result" where
  "load_index options md encoded_index =
     and_then (MaximumBlockSize options) (\<lambda>maximum_block_size.
     and_then (decode_index_entries options md maximum_block_size (unat (md_block_count md))
         (substr_from encoded_index kTableIndexHeaderSize) (md_data_offset md) [])
       (\<lambda>(remaining, expected_block_offset, index).
     if remaining \<noteq> [] \<or> expected_block_offset \<noteq> md_index_offset md
     then Inl (TableCorruption ''sparse index has trailing bytes or misses data'')
     else Inr index))"

record Verified =
  v_records :: u64
  v_minimum_sequence :: u64
  v_maximum_sequence :: u64
  v_previous_key :: bytes
  v_minimum_key :: bytes

definition empty_Verified :: Verified where
  "empty_Verified = \<lparr>v_records = 0, v_minimum_sequence = - 1, v_maximum_sequence = 0,
     v_previous_key = [], v_minimum_key = []\<rparr>"

fun verify_records :: "BloomFilter option \<Rightarrow> MemTableRecord list \<Rightarrow> Verified \<Rightarrow> Verified result" where
  "verify_records bloom [] v = Inr v"
| "verify_records bloom (r # rs) v =
     (if (case bloom of None \<Rightarrow> False | Some flt \<Rightarrow> \<not> MayContain flt (r_key r))
      then Inl (TableCorruption ''Bloom filter has a false negative for a stored key'')
      else verify_records bloom rs
        (v\<lparr>v_minimum_sequence := min (v_minimum_sequence v) (r_sequence r),
           v_maximum_sequence := max (v_maximum_sequence v) (r_sequence r)\<rparr>))"

definition verify_block :: "IndexEntry \<Rightarrow> nat \<Rightarrow> BloomFilter option \<Rightarrow> MemTableRecord list \<Rightarrow> Verified \<Rightarrow> Verified result" where
  "verify_block entry block bloom records v =
     (if records = [] \<or> r_key (hd records) \<noteq> ix_first_key entry \<or>
         (v_previous_key v \<noteq> [] \<and> r_key (hd records) \<le> v_previous_key v)
      then Inl (TableCorruption ''data blocks disagree with the sparse index'')
      else and_then (verify_records bloom records v) (\<lambda>v.
        or_fail (CheckedAdd (v_records v) (word_of_nat (length records)))
          (TableCorruption ''verified record count overflows'') (\<lambda>verified_records.
        Inr (v\<lparr>v_records := verified_records,
               v_minimum_key := (if block = 0 then r_key (hd records) else v_minimum_key v),
               v_previous_key := r_key (last records)\<rparr>))))"

fun verify_blocks :: "nat list \<Rightarrow> SSTableReader \<Rightarrow> Verified \<Rightarrow> (SSTableReader \<times> Verified) result" where
  "verify_blocks [] rd v = Inr (rd, v)"
| "verify_blocks (block # blocks) rd v =
     (case ReadBlock block empty_SSTableReadStats rd of
        (rd', _, Inl s) \<Rightarrow> Inl s
      | (rd', _, Inr records) \<Rightarrow>
        and_then (verify_block (rd_index rd' ! block) block (rd_bloom rd') records v)
          (verify_blocks blocks rd'))"

definition verify_table :: "SSTableReader \<Rightarrow> SSTableReader result" where
  "verify_table rd =
     (let md = rd_metadata rd in
      and_then (verify_blocks [0..<length (rd_index rd)] rd empty_Verified) (\<lambda>(rd, v).
      if v_records v \<noteq> md_record_count md \<or> v_minimum_sequence v \<noteq> md_minimum_sequence md \<or>
         v_maximum_sequence v \<noteq> md_maximum_sequence md
      then Inl (TableCorruption ''Footer record or sequence summary is incorrect'')
      else Inr (rd\<lparr>rd_metadata := md\<lparr>md_minimum_key := v_minimum_key v,
                                         md_maximum_key := v_previous_key v\<rparr>\<rparr>)))"

text \<open>Header, footer and the frame of the sparse index; the encoded index is returned.\<close>

definition read_frames ::
  "Options \<Rightarrow> RecoveryFile \<Rightarrow> nat \<Rightarrow> (RecoveryFile \<times> SSTableMetadata \<times> bytes) result" where
  "read_frames options f file_size =
     with_region (ReadRegion f 0 (word_of_nat kTableHeaderSize)) (\<lambda>f header.
     and_then (decode_table_header header) (\<lambda>hdr.
     with_region (ReadRegion f (word_of_nat (file_size - kTableFooterSize)) (word_of_nat kTableFooterSize))
       (\<lambda>f footer.
     and_then (decode_table_footer footer (word_of_nat file_size) hdr) (\<lambda>md.
     if regions_invalid md
     then Inl (TableCorruption ''Footer regions overlap, contain gaps, or escape the file'')
     else if \<not> ok (check_index_size options md) then Inl (check_index_size options md)
     else
     with_region (ReadRegion f (md_index_offset md) (md_index_size md)) (\<lambda>f encoded_index.
     and_then (check_index_header md encoded_index) (\<lambda>_. Inr (f, md, encoded_index)))))))"

text \<open>\<open>opened\<close> is what \<open>PosixRecoveryFile::OpenReadOnly\<close> returned for the path.\<close>

definition SSTableReader_Open :: "RecoveryFile result \<Rightarrow> string \<Rightarrow> Options \<Rightarrow> SSTableReader result" where
  "SSTableReader_Open opened path options =
     (if path = [] then Inl (InvalidArgument ''SSTable path must not be empty'')
      else if \<not> ok (ValidateTableOptions options) then Inl (ValidateTableOptions options)
      else and_then opened (\<lambda>f.
      case Size f of
        (Inl s, f) \<Rightarrow> Inl s
      | (Inr file_size, f) \<Rightarrow>
      if file_size < kTableHeaderSize + kTableIndexHeaderSize + kTableFooterSize
      then Inl (TableCorruption ''file is too small for required regions'')
      else
      and_then (read_frames options f file_size) (\<lambda>(f, md, encoded_index).
      and_then (load_bloom f md) (\<lambda>(f, md, bloom).
      and_then (load_index options md encoded_index) (\<lambda>index.
      verify_table \<lparr>rd_path = path, rd_options = options, rd_file = f, rd_metadata = md,
                    rd_index = index, rd_bloom = bloom\<rparr>)))))"

section \<open>Point lookup\<close>

definition no_result :: "status \<Rightarrow> LookupResult" where
  "no_result s = \<lparr>lr_status = s, lr_sequence = 0, lr_type = kValue, lr_value = []\<rparr>"

definition index_upper_bound :: "IndexEntry list \<Rightarrow> bytes \<Rightarrow> nat" where
  "index_upper_bound index key = length (takeWhile (\<lambda>entry. \<not> key < ix_first_key entry) index)"

definition record_lower_bound :: "MemTableRecord list \<Rightarrow> bytes \<Rightarrow> nat" where
  "record_lower_bound records key = length (takeWhile (\<lambda>record. r_key record < key) records)"

definition SSTableReader_Get :: "SSTableReader \<Rightarrow> bytes \<Rightarrow> SSTableReader \<times> SSTableReadStats \<times> LookupResult" where
  "SSTableReader_Get rd key =
     (let stats = empty_SSTableReadStats\<lparr>tables_considered := 1\<rparr> in
      if key = [] then (rd, stats, no_result (InvalidArgument ''key must not be empty''))
      else if length key > max_key_size (rd_options rd)
      then (rd, stats, no_result (InvalidArgument ''key exceeds configured maximum size''))
      else if key < md_minimum_key (rd_metadata rd) \<or> key > md_maximum_key (rd_metadata rd)
      then (rd, stats\<lparr>range_rejections := range_rejections stats + 1\<rparr>,
            no_result (NotFound ''key is outside table range''))
      else let
        bloom_checked = (bloom_filter_enabled (rd_options rd) \<and> rd_bloom rd \<noteq> None);
        stats = (if bloom_checked
                 then stats\<lparr>bloom_filter_checks := bloom_filter_checks stats + 1\<rparr> else stats)
      in if bloom_checked \<and> \<not> MayContain (the (rd_bloom rd)) key
      then (rd, stats\<lparr>bloom_filter_rejections := bloom_filter_rejections stats + 1\<rparr>,
            no_result (NotFound ''Bloom filter excludes key''))
      else let upper = index_upper_bound (rd_index rd) key in
      if upper = 0 then (rd, stats, no_result (NotFound ''key precedes sparse index''))
      else case ReadBlock (upper - 1) stats rd of
        (rd, stats, Inl s) \<Rightarrow> (rd, stats, no_result s)
      | (rd, stats, Inr records) \<Rightarrow>
        (let i = record_lower_bound records key in
         if i = length records \<or> r_key (records ! i) \<noteq> key
         then (rd, (if bloom_checked
                    then stats\<lparr>bloom_false_positives := bloom_false_positives stats + 1\<rparr> else stats),
               no_result (NotFound ''key does not exist in candidate block''))
         else (rd, stats, \<lparr>lr_status = Ok, lr_sequence = r_sequence (records ! i),
                           lr_type = r_type (records ! i), lr_value = r_value (records ! i)\<rparr>)))"

section \<open>Reading records\<close>

text \<open>\<open>limit\<close> is positive; \<open>acc\<close> holds fewer than \<open>limit\<close> records.\<close>

fun read_records_loop ::
  "nat list \<Rightarrow> nat \<Rightarrow> MemTableRecord list \<Rightarrow> SSTableReader \<Rightarrow> SSTableReader \<times> MemTableRecord list result" where
  "read_records_loop [] limit acc rd = (rd, Inr acc)"
| "read_records_loop (block # blocks) limit acc rd =
     (case ReadBlock block empty_SSTableReadStats rd of
        (rd', _, Inl s) \<Rightarrow> (rd', Inl s)
      | (rd', _, Inr records) \<Rightarrow>
        (let acc' = acc @ take (limit - length acc) records in
         if length acc' = limit then (rd', Inr acc')
         else read_records_loop blocks limit acc' rd'))"

definition ReadRecords :: "nat \<Rightarrow> SSTableReader \<Rightarrow> SSTableReader \<times> MemTableRecord list result" where
  "ReadRecords limit rd =
     (if limit = 0 then (rd, Inr [])
      else read_records_loop [0..<length (rd_index rd)] limit [] rd)"

section \<open>Regions\<close>

lemma with_region_Inr:
  "with_region r k = Inr b \<longleftrightarrow> (\<exists>f bs. r = (f, Inr bs) \<and> k f bs = Inr b)"
  by (auto simp: with_region_def split: prod.split sum.split)

lemma with_region_simps [simp]:
  "with_region (f, Inr bs) k = k f bs" "with_region (f, Inl s) k = Inl s"
  by (simp_all add: with_region_def)

text \<open>Reading never changes the content; what is delivered is the region.\<close>

lemma ReadRegion_frame:
  assumes "ReadRegion f off n = (f', r)"
  shows "rf_data f' = rf_data f"
    and "r = Inr bs \<Longrightarrow> bs = substr (rf_data f) (unat off) (unat n) \<and> length bs = unat n"
  using assms ReadAllAt_data [of f "unat off" "unat n"]
  by (auto simp: ReadRegion_def substr_def split: prod.splits sum.splits if_splits)

lemma ReadRegion_length:
  assumes "ReadRegion f off n = (f', Inr bs)" and "n \<noteq> 0"
  shows "unat off + unat n \<le> length (rf_data f)"
proof -
  have "0 < unat n"
    using assms(2) by (simp add: unat_gt_0)
  then show ?thesis
    using ReadRegion_frame(2) [OF assms(1) refl] by auto
qed

lemma ReadRegion_benign:
  assumes "benign_file f" and "unat off + unat n \<le> length (rf_data f)"
  obtains f' where "ReadRegion f off n = (f', Inr (substr (rf_data f) (unat off) (unat n)))"
    "benign_file f'" "rf_data f' = rf_data f"
proof -
  obtain f' where "ReadAllAt f (unat off) (unat n) = (f', Inr (take (unat n) (drop (unat off) (rf_data f))))"
      "benign_file f'" "rf_data f' = rf_data f"
    using assms by (auto intro: ReadAllAt_benign [of f "unat off" "unat n"])
  then show thesis
    using unat_lt_u64 [of n] by (intro that [of f']) (simp_all add: ReadRegion_def substr_def)
qed

section \<open>What a data block decodes to\<close>

lemma decode_block_records_sound:
  "decode_block_records options n k prev bs = Inr (rs, rest) \<Longrightarrow>
     length rs = n \<and> records_encodable options rs \<and> records_sorted rs \<and>
     (k \<noteq> 0 \<longrightarrow> (\<forall>r \<in> set rs. prev < r_key r)) \<and> bs = block_payload rs @ rest"
proof (induction n arbitrary: k prev bs rs)
  case (Suc n)
  obtain m w rs' where dec: "DecodeWalRecord bs options = Inr (m, w)"
      and ord: "k \<noteq> 0 \<longrightarrow> prev < w_key w"
      and rs: "rs = record_of w # rs'"
      and rest: "decode_block_records options n (Suc k) (w_key w) (drop m bs) = Inr (rs', rest)"
    using Suc.prems by (auto simp: and_then_Inr not_le split: sum.splits if_splits)
  obtain tail where w: "encodable options w" "m = length (wal_bytes w)" "bs = wal_bytes w @ tail"
    using DecodeWalRecord_sound [OF dec] by auto
  have IH: "length rs' = n \<and> records_encodable options rs' \<and> records_sorted rs' \<and>
     (\<forall>r \<in> set rs'. w_key w < r_key r) \<and> tail = block_payload rs' @ rest"
    using Suc.IH [OF rest] w by simp
  then show ?case
    using ord w rs by auto
qed simp

lemma decode_block_records_payload:
  "records_encodable options rs \<Longrightarrow> records_sorted rs \<Longrightarrow>
   (k \<noteq> 0 \<longrightarrow> (\<forall>r \<in> set rs. prev < r_key r)) \<Longrightarrow>
     decode_block_records options (length rs) k prev (block_payload rs @ rest) = Inr (rs, rest)"
proof (induction rs arbitrary: k prev)
  case (Cons r rs)
  have dec: "DecodeWalRecord (wal_bytes (wal_of r) @ block_payload rs @ rest) options =
      Inr (length (wal_bytes (wal_of r)), wal_of r)"
    using Cons.prems(1) by (intro DecodeWalRecord_bytes) simp
  have "decode_block_records options (length rs) (Suc k) (r_key r) (block_payload rs @ rest) = Inr (rs, rest)"
    using Cons.prems by (intro Cons.IH) auto
  then show ?case
    using dec Cons.prems(3) by (auto simp: not_le simp del: length_wal_bytes)
qed simp

lemma decode_block_sound:
  assumes "decode_block options e block = Inr rs"
  shows "rs \<noteq> []" and "records_encodable options rs" and "records_sorted rs"
    and "frame_ok 16 block" and "20 \<le> length block" and "length rs \<le> u32_max"
proof -
  obtain count where cs: "count \<noteq> 0"
      "DecodeFixed32 (drop 16 block) = Some (ChecksumParts (substr block 0 16) (drop 20 block))"
      "decode_block_records options (unat (count :: u32)) 0 [] (drop 20 block) = Inr (rs, [])"
    using assms by (auto simp: decode_block_def Let_def or_fail_Inr and_then_Inr split: if_splits)
  show "rs \<noteq> []" "records_encodable options rs" "records_sorted rs" "length rs \<le> u32_max"
    using decode_block_records_sound [OF cs(3)] cs(1) unat_lt_u32 [of count] by (auto simp: unat_eq_0)
  show "frame_ok 16 block"
    using cs by (simp add: frame_ok_def ChecksumParts_def substr_0)
  show "20 \<le> length block"
    using cs(2) by (auto simp: fixed32.dec_Some_iff)
qed

lemma decode_block_bytes:
  assumes rs: "rs \<noteq> []" "records_encodable options rs" "records_sorted rs"
    and size: "20 + length (block_payload rs) \<le> u32_max"
    and e: "ix_block_size e = word_of_nat (length (block_bytes rs))"
  shows "decode_block options e (block_bytes rs) = Inr rs"
proof -
  note len = length_block_payload [of rs]
  have nz: "(word_of_nat (length rs) :: u32) \<noteq> 0"
    using rs(1) size len by (subst word_unat_eq_iff) (simp add: unat_of_nat_u32)
  have "unat (word_of_nat (length rs) :: u32) = length rs"
    "unat (word_of_nat (length (block_payload rs)) :: u32) = length (block_payload rs)"
    using size len by (simp_all add: unat_of_nat_u32)
  moreover have "decode_block_records options (length rs) 0 [] (block_payload rs) = Inr (rs, [])"
    using decode_block_records_payload [OF rs(2,3), of 0 "[]" "[]"] by simp
  moreover have "take 4 (block_bytes rs) = kBlockMagic" "take 16 (block_bytes rs) = block_prefix rs"
    by (simp_all add: block_bytes_def, simp add: block_prefix_def)
  moreover have "drop 20 (block_bytes rs) = block_payload rs"
    by (simp add: block_bytes_def)
  moreover have "DecodeFixed32 (drop 4 (block_bytes rs)) = Some (word_of_nat (20 + length (block_payload rs)))"
    "DecodeFixed32 (drop 8 (block_bytes rs)) = Some (word_of_nat (length rs))"
    "DecodeFixed32 (drop 12 (block_bytes rs)) = Some (word_of_nat (length (block_payload rs)))"
    "DecodeFixed32 (drop 16 (block_bytes rs)) = Some (ChecksumParts (block_prefix rs) (block_payload rs))"
    by (simp_all add: block_bytes_def block_prefix_def dec_put del: of_nat_add)
  ultimately show ?thesis
    using nz len by (simp add: decode_block_def Let_def e substr_0 del: of_nat_add)
qed

section \<open>The content of a reader\<close>

text \<open>
  \<open>block_of\<close> is what a block of the file decodes to, \<open>table_records\<close> the records of the table.
  A reader is sound when every block of its index lies in the file and decodes, the index holds
  the first keys, the records are strictly sorted, the key range is exact and the Bloom filter
  admits every stored key.
\<close>

definition block_of :: "SSTableReader \<Rightarrow> IndexEntry \<Rightarrow> MemTableRecord list result" where
  "block_of rd e = decode_block (rd_options rd) e
     (substr (rf_data (rd_file rd)) (unat (ix_block_offset e)) (unat (ix_block_size e)))"

definition block_records :: "SSTableReader \<Rightarrow> IndexEntry \<Rightarrow> MemTableRecord list" where
  "block_records rd e = (case block_of rd e of Inl s \<Rightarrow> [] | Inr rs \<Rightarrow> rs)"

definition table_records :: "SSTableReader \<Rightarrow> MemTableRecord list" where
  "table_records rd = concat (map (block_records rd) (rd_index rd))"

definition block_sound :: "SSTableReader \<Rightarrow> IndexEntry \<Rightarrow> bool" where
  "block_sound rd e \<longleftrightarrow>
     unat (ix_block_offset e) + unat (ix_block_size e) \<le> length (rf_data (rd_file rd)) \<and>
     (\<exists>rs. block_of rd e = Inr rs \<and> r_key (hd rs) = ix_first_key e)"

definition reader_sound :: "SSTableReader \<Rightarrow> bool" where
  "reader_sound rd \<longleftrightarrow>
     rd_index rd \<noteq> [] \<and> (\<forall>e \<in> set (rd_index rd). block_sound rd e) \<and>
     records_sorted (table_records rd) \<and>
     md_minimum_key (rd_metadata rd) = r_key (hd (table_records rd)) \<and>
     md_maximum_key (rd_metadata rd) = r_key (last (table_records rd)) \<and>
     (\<forall>flt. rd_bloom rd = Some flt \<longrightarrow> (\<forall>r \<in> set (table_records rd). MayContain flt (r_key r)))"

text \<open>Reads advance the script of the file and nothing else.\<close>

definition same_table :: "SSTableReader \<Rightarrow> SSTableReader \<Rightarrow> bool" where
  "same_table rd rd' \<longleftrightarrow>
     rd_path rd' = rd_path rd \<and> rd_options rd' = rd_options rd \<and>
     rd_metadata rd' = rd_metadata rd \<and> rd_index rd' = rd_index rd \<and>
     rd_bloom rd' = rd_bloom rd \<and> rf_data (rd_file rd') = rf_data (rd_file rd)"

lemma same_table_refl [simp]: "same_table rd rd"
  by (simp add: same_table_def)

lemma same_table_trans: "same_table rd rd' \<Longrightarrow> same_table rd' rd'' \<Longrightarrow> same_table rd rd''"
  by (simp add: same_table_def)

lemma same_table_block_of:
  assumes "same_table rd rd'"
  shows "block_of rd' = block_of rd" and "block_records rd' = block_records rd"
proof -
  show "block_of rd' = block_of rd"
    using assms by (simp add: same_table_def block_of_def fun_eq_iff)
  then show "block_records rd' = block_records rd"
    by (simp add: block_records_def fun_eq_iff)
qed

lemma same_table_content:
  assumes "same_table rd rd'"
  shows "table_records rd' = table_records rd" "block_sound rd' = block_sound rd"
    "reader_sound rd' = reader_sound rd"
proof -
  show records: "table_records rd' = table_records rd"
    using assms same_table_block_of [OF assms] by (simp add: table_records_def same_table_def)
  show blocks: "block_sound rd' = block_sound rd"
    using assms same_table_block_of [OF assms] by (simp add: block_sound_def same_table_def fun_eq_iff)
  show "reader_sound rd' = reader_sound rd"
    using assms unfolding reader_sound_def records blocks by (simp add: same_table_def)
qed

lemma ReadBlock_same:
  assumes "ReadBlock i st rd = (rd', st', r)"
  shows "same_table rd rd'"
  using assms ReadRegion_frame(1) [of "rd_file rd"]
  by (auto simp: ReadBlock_def Let_def same_table_def split: if_splits prod.splits)

lemma unat_ucast_u32 [simp]: "unat (ucast (w :: u32) :: u64) = unat w"
  using unat_lt_u32 [of w] by (simp add: unsigned_ucast_eq take_bit_nat_eq_self_iff)

lemma ReadBlock_Inr:
  assumes "ReadBlock i st rd = (rd', st', Inr rs)"
  shows "i < length (rd_index rd)" and "block_of rd (rd_index rd ! i) = Inr rs"
    and "unat (ix_block_offset (rd_index rd ! i)) + unat (ix_block_size (rd_index rd ! i)) \<le>
      length (rf_data (rd_file rd))"
proof -
  let ?e = "rd_index rd ! i"
  obtain f bs where i: "i < length (rd_index rd)"
      and rr: "ReadRegion (rd_file rd) (ix_block_offset ?e) (ucast (ix_block_size ?e)) = (f, Inr bs)"
      and dec: "decode_block (rd_options rd) ?e bs = Inr rs"
    using assms by (auto simp: ReadBlock_def Let_def and_then_Inr split: if_splits prod.splits)
  note bs = ReadRegion_frame(2) [OF rr refl]
  show "i < length (rd_index rd)" by (rule i)
  show "block_of rd ?e = Inr rs"
    using bs dec by (simp add: block_of_def)
  have "20 \<le> unat (ix_block_size ?e)"
    using decode_block_sound(5) [OF dec] bs by simp
  then show "unat (ix_block_offset ?e) + unat (ix_block_size ?e) \<le> length (rf_data (rd_file rd))"
    using bs by auto
qed

lemma ReadBlock_benign:
  assumes "benign_file (rd_file rd)" and "i < length (rd_index rd)"
    and "block_sound rd (rd_index rd ! i)"
  obtains rd' st' where "ReadBlock i st rd = (rd', st', Inr (block_records rd (rd_index rd ! i)))"
    "same_table rd rd'" "benign_file (rd_file rd')"
proof -
  let ?e = "rd_index rd ! i"
  obtain f where f: "ReadRegion (rd_file rd) (ix_block_offset ?e) (ucast (ix_block_size ?e)) =
      (f, Inr (substr (rf_data (rd_file rd)) (unat (ix_block_offset ?e)) (unat (ix_block_size ?e))))"
      "benign_file f" "rf_data f = rf_data (rd_file rd)"
    using assms(3) ReadRegion_benign [OF assms(1), of "ix_block_offset ?e" "ucast (ix_block_size ?e)"]
    by (auto simp: block_sound_def)
  obtain rs where "block_of rd ?e = Inr rs"
    using assms(3) by (auto simp: block_sound_def)
  then show thesis
    using assms(2) f
    by (intro that [of "rd\<lparr>rd_file := f\<rparr>" "st\<lparr>data_blocks_read := data_blocks_read st + 1,
          st_bytes_read := st_bytes_read st + ucast (ix_block_size ?e)\<rparr>"])
      (auto simp: ReadBlock_def same_table_def block_records_def block_of_def)
qed

section \<open>What Open has verified\<close>

lemma encodable_key_not_Nil: "encodable options (wal_of r) \<Longrightarrow> r_key r \<noteq> []"
  by (auto simp: encodable_def ValidateWalRecord_ok_iff ValidateLengths_ok_iff)

lemma verify_records_Inr:
  "verify_records bloom rs v = Inr v' \<longleftrightarrow>
     (\<forall>flt. bloom = Some flt \<longrightarrow> (\<forall>r \<in> set rs. MayContain flt (r_key r))) \<and>
     v' = v\<lparr>v_minimum_sequence := fold min (map r_sequence rs) (v_minimum_sequence v),
            v_maximum_sequence := fold max (map r_sequence rs) (v_maximum_sequence v)\<rparr>"
  by (induction rs arbitrary: v) (auto simp: min.commute max.commute split: option.splits)

lemma verify_block_Inr:
  assumes "verify_block e n bloom rs v = Inr v'"
  shows "rs \<noteq> []" "r_key (hd rs) = ix_first_key e"
    "v_previous_key v \<noteq> [] \<Longrightarrow> v_previous_key v < r_key (hd rs)"
    "\<forall>flt. bloom = Some flt \<longrightarrow> (\<forall>r \<in> set rs. MayContain flt (r_key r))"
    "unat (v_records v') = unat (v_records v) + unat (word_of_nat (length rs) :: u64)"
    "v_minimum_sequence v' = fold min (map r_sequence rs) (v_minimum_sequence v)"
    "v_maximum_sequence v' = fold max (map r_sequence rs) (v_maximum_sequence v)"
    "v_previous_key v' = r_key (last rs)"
    "v_minimum_key v' = (if n = 0 then r_key (hd rs) else v_minimum_key v)"
  using assms
  by (auto simp: verify_block_def and_then_Inr or_fail_Inr verify_records_Inr CheckedAdd_Some_iff not_le
      split: if_splits)

text \<open>The state of the verification after the blocks of \<open>is\<close>.\<close>

definition verified :: "MemTableRecord list \<Rightarrow> Verified \<Rightarrow> Verified \<Rightarrow> bool" where
  "verified rs v v' \<longleftrightarrow>
     records_sorted rs \<and> (\<forall>r \<in> set rs. r_key r \<noteq> []) \<and>
     (v_previous_key v \<noteq> [] \<longrightarrow> (\<forall>r \<in> set rs. v_previous_key v < r_key r)) \<and>
     unat (v_records v') = unat (v_records v) + length rs \<and>
     v_minimum_sequence v' = fold min (map r_sequence rs) (v_minimum_sequence v) \<and>
     v_maximum_sequence v' = fold max (map r_sequence rs) (v_maximum_sequence v) \<and>
     v_previous_key v' = (if rs = [] then v_previous_key v else r_key (last rs))"

lemma verified_append:
  assumes "verified rs v v'" and "verified qs v' v''"
  shows "verified (rs @ qs) v v''"
proof (cases "rs = []")
  case False
  have prev: "v_previous_key v' = r_key (last rs)" "v_previous_key v' \<noteq> []"
    using assms(1) False by (auto simp: verified_def)
  then have "\<forall>q \<in> set qs. r_key (last rs) < r_key q"
    using assms(2) by (auto simp: verified_def)
  then have step: "r_key r < r_key q" if "r \<in> set rs" "q \<in> set qs" for r q
    using sorted_last_less [of "map r_key rs" "r_key q" "r_key r"] assms(1) False that
    by (auto simp: verified_def last_map)
  have "v_previous_key v < r_key q" if "v_previous_key v \<noteq> []" "q \<in> set qs" for q
    using step [of "hd rs" q] that assms(1) False
    by (auto simp: verified_def dest: order.strict_trans)
  then show ?thesis
    using assms step prev False by (auto simp: verified_def sorted_wrt_append)
qed (use assms in \<open>auto simp: verified_def\<close>)

lemma verify_block_verified:
  assumes dec: "block_of rd e = Inr rs" and "verify_block e n bloom rs v = Inr v'"
  shows "verified rs v v'"
proof -
  note b = verify_block_Inr [OF assms(2)] and d = decode_block_sound [OF dec [unfolded block_of_def]]
  have keys: "\<forall>r \<in> set rs. r_key r \<noteq> []"
    using d(2) by (auto simp: list_all_iff encodable_key_not_Nil)
  have "v_previous_key v < r_key r" if "v_previous_key v \<noteq> []" "r \<in> set rs" for r
    using b(3) [OF that(1)] sorted_hd_le [of "map r_key rs" "r_key r"] that(2) d(3) b(1)
    by (auto simp: hd_map dest: order.strict_trans2)
  moreover have "unat (word_of_nat (length rs) :: u64) = length rs"
    using d(6) by (simp add: unat_of_nat_u64)
  ultimately show ?thesis
    using b d keys by (simp add: verified_def)
qed

lemma verify_blocks_sound:
  "verify_blocks is rd v = Inr (rd', v') \<Longrightarrow>
     same_table rd rd' \<and> (\<forall>i \<in> set is. i < length (rd_index rd) \<and> block_sound rd (rd_index rd ! i)) \<and>
     verified (concat (map (\<lambda>i. block_records rd (rd_index rd ! i)) is)) v v' \<and>
     (\<forall>flt. rd_bloom rd = Some flt \<longrightarrow>
        (\<forall>i \<in> set is. \<forall>r \<in> set (block_records rd (rd_index rd ! i)). MayContain flt (r_key r))) \<and>
     (0 \<notin> set is \<longrightarrow> v_minimum_key v' = v_minimum_key v) \<and>
     (\<forall>i \<in> set is. block_records rd (rd_index rd ! i) \<noteq> [])"
proof (induction "is" arbitrary: rd v)
  case Nil
  then show ?case by (simp add: verified_def)
next
  case (Cons i "is")
  obtain rd1 st rs v1 where read: "ReadBlock i empty_SSTableReadStats rd = (rd1, st, Inr rs)"
      and ver: "verify_block (rd_index rd1 ! i) i (rd_bloom rd1) rs v = Inr v1"
      and rest: "verify_blocks is rd1 v1 = Inr (rd', v')"
    using Cons.prems by (auto simp: and_then_Inr split: prod.splits sum.splits)
  note same = ReadBlock_same [OF read] and blk = ReadBlock_Inr [OF read]
  note fields = same [unfolded same_table_def] and content = same_table_content [OF same] same_table_block_of [OF same]
  have rs: "block_records rd (rd_index rd ! i) = rs"
    using blk(2) by (simp add: block_records_def)
  note b = verify_block_Inr [OF ver]
  have sound: "block_sound rd (rd_index rd ! i)"
    using blk b(2) fields by (auto simp: block_sound_def)
  have first: "verified rs v v1"
    using verify_block_verified [OF _ ver] blk(2) fields by (metis content(4))
  note IH = Cons.IH [OF rest]
  have "verified (rs @ concat (map (\<lambda>i. block_records rd (rd_index rd ! i)) is)) v v'"
    using verified_append [OF first] IH by (simp add: content fields)
  moreover have "\<forall>flt. rd_bloom rd = Some flt \<longrightarrow> (\<forall>r \<in> set rs. MayContain flt (r_key r))"
    using b(4) fields by simp
  ultimately show ?case
    using IH same_table_trans [OF same] blk(1) sound rs b(1,9) by (auto simp: content fields)
qed

lemma fold_min_top: "fold min xs (- 1 :: u64) = (if xs = [] then - 1 else Min (set xs))"
proof -
  have "fold min xs (- 1) = Min (insert (- 1) (set xs))"
    by (metis Min.set_eq_fold list.set(2))
  then show ?thesis
    by (cases xs) (auto simp: min_absorb2 word_order.extremum)
qed

lemma fold_max_bot: "fold max xs (0 :: u64) = (if xs = [] then 0 else Max (set xs))"
proof -
  have "fold max xs 0 = Max (insert 0 (set xs))"
    by (metis Max.set_eq_fold list.set(2))
  then show ?thesis
    by (cases xs) (auto simp: max_absorb2)
qed

text \<open>The metadata summarise the records.\<close>

definition summary_sound :: "SSTableReader \<Rightarrow> bool" where
  "summary_sound rd \<longleftrightarrow>
     unat (md_record_count (rd_metadata rd)) = length (table_records rd) \<and>
     md_minimum_sequence (rd_metadata rd) = Min (r_sequence ` set (table_records rd)) \<and>
     md_maximum_sequence (rd_metadata rd) = Max (r_sequence ` set (table_records rd))"

lemma verify_table_sound:
  assumes "verify_table rd = Inr rd'" and index: "rd_index rd \<noteq> []"
  shows "reader_sound rd'" and "summary_sound rd'" and "rd_options rd' = rd_options rd"
    and "rf_data (rd_file rd') = rf_data (rd_file rd)" and "rd_path rd' = rd_path rd"
    and "rd_index rd' = rd_index rd" and "rd_bloom rd' = rd_bloom rd"
proof -
  obtain rd1 v where ver: "verify_blocks [0..<length (rd_index rd)] rd empty_Verified = Inr (rd1, v)"
      and sums: "v_records v = md_record_count (rd_metadata rd)"
        "v_minimum_sequence v = md_minimum_sequence (rd_metadata rd)"
        "v_maximum_sequence v = md_maximum_sequence (rd_metadata rd)"
      and rd': "rd' = rd1\<lparr>rd_metadata := (rd_metadata rd)\<lparr>md_minimum_key := v_minimum_key v,
        md_maximum_key := v_previous_key v\<rparr>\<rparr>"
    using assms(1) by (auto simp: verify_table_def Let_def and_then_Inr split: if_splits)
  note vb = verify_blocks_sound [OF ver]
  have same: "same_table rd rd1" and
    fields: "rd_options rd' = rd_options rd" "rf_data (rd_file rd') = rf_data (rd_file rd)"
      "rd_path rd' = rd_path rd" "rd_index rd' = rd_index rd" "rd_bloom rd' = rd_bloom rd"
    using vb by (simp_all add: rd' same_table_def)
  then show "rd_options rd' = rd_options rd" "rf_data (rd_file rd') = rf_data (rd_file rd)"
      "rd_path rd' = rd_path rd" "rd_index rd' = rd_index rd" "rd_bloom rd' = rd_bloom rd"
    by simp_all
  have blocks: "block_of rd' = block_of rd" "block_records rd' = block_records rd"
    using fields by (simp_all add: block_of_def block_records_def fun_eq_iff)
  have records: "table_records rd' = table_records rd"
    by (simp add: table_records_def blocks fields)
  have "map (\<lambda>i. block_records rd (rd_index rd ! i)) [0..<length (rd_index rd)] =
      map (block_records rd) (rd_index rd)"
    by (rule nth_equalityI) simp_all
  then have all: "verified (table_records rd) empty_Verified v"
    using vb by (simp add: table_records_def)
  have each: "\<forall>e \<in> set (rd_index rd). block_sound rd e"
    "\<forall>e \<in> set (rd_index rd). block_records rd e \<noteq> []"
    "\<forall>flt. rd_bloom rd = Some flt \<longrightarrow>
       (\<forall>e \<in> set (rd_index rd). \<forall>r \<in> set (block_records rd e). MayContain flt (r_key r))"
    using vb by (simp_all add: all_set_conv_all_nth)
  then have ne: "table_records rd \<noteq> []"
    using index by (cases "rd_index rd") (auto simp: table_records_def)
  have minimum: "v_minimum_key v = r_key (hd (table_records rd))"
  proof -
    have "[0..<length (rd_index rd)] = 0 # [1..<length (rd_index rd)]"
      using index by (simp add: upt_rec)
    then obtain rda st rs va rdb where read: "ReadBlock 0 empty_SSTableReadStats rd = (rda, st, Inr rs)"
        and first: "verify_block (rd_index rda ! 0) 0 (rd_bloom rda) rs empty_Verified = Inr va"
        and rest: "verify_blocks [1..<length (rd_index rd)] rda va = Inr (rd1, v)"
      using ver by (auto simp: and_then_Inr split: prod.splits sum.splits)
    have "v_minimum_key v = r_key (hd rs)"
      using verify_blocks_sound [OF rest] verify_block_Inr(9) [OF first] by simp
    moreover have "block_records rd (rd_index rd ! 0) = rs" "rs \<noteq> []"
      using ReadBlock_Inr(2) [OF read] verify_block_Inr(1) [OF first] by (simp_all add: block_records_def)
    ultimately show ?thesis
      using index by (cases "rd_index rd") (simp_all add: table_records_def)
  qed
  have "rd_metadata rd' = (rd_metadata rd)\<lparr>md_minimum_key := v_minimum_key v,
        md_maximum_key := v_previous_key v\<rparr>"
    by (simp add: rd')
  then show "reader_sound rd'" "summary_sound rd'"
    using all each ne index minimum sums fields
    by (auto simp: reader_sound_def summary_sound_def records verified_def empty_Verified_def
        fold_min_top fold_max_bot block_sound_def blocks table_records_def)
qed

text \<open>The entries of the sparse index tile the data region.\<close>

fun index_chain :: "nat \<Rightarrow> IndexEntry list \<Rightarrow> nat \<Rightarrow> bool" where
  "index_chain a [] b \<longleftrightarrow> a = b"
| "index_chain a (e # es) b \<longleftrightarrow>
     unat (ix_block_offset e) = a \<and> 20 \<le> unat (ix_block_size e) \<and>
     index_chain (a + unat (ix_block_size e)) es b"

lemma decode_index_entry_sound:
  assumes "decode_index_entry options md m rem off idx = Inr (e, rem', off')"
  shows "ix_block_offset e = off" and "20 \<le> unat (ix_block_size e)"
    and "unat off' = unat off + unat (ix_block_size e)"
  using assms
  by (auto simp: decode_index_entry_def Let_def or_fail_Inr CheckedAdd_Some_iff not_less split: if_splits)

lemma decode_index_entries_sound:
  "decode_index_entries options md m n rem off idx = Inr (rem', off', idx') \<Longrightarrow>
     \<exists>es. idx' = idx @ es \<and> length es = n \<and> index_chain (unat off) es (unat off')"
proof (induction n arbitrary: rem off idx)
  case (Suc n)
  obtain e off1 rem1 where e: "decode_index_entry options md m rem off idx = Inr (e, rem1, off1)"
      and rest: "decode_index_entries options md m n rem1 off1 (idx @ [e]) = Inr (rem', off', idx')"
    using Suc.prems by (auto simp: and_then_Inr)
  obtain es where "idx' = (idx @ [e]) @ es" "length es = n" "index_chain (unat off1) es (unat off')"
    using Suc.IH [OF rest] by blast
  then show ?case
    using decode_index_entry_sound [OF e] by (intro exI [of _ "e # es"]) auto
qed simp

text \<open>
  What \<open>Open\<close> has read before the verification of the blocks, as a relation between the content of
  the file and the metadata, the encoded index, the filter and the index.
\<close>

definition bloom_metadata :: "SSTableMetadata \<Rightarrow> BloomFilter option \<Rightarrow> SSTableMetadata" where
  "bloom_metadata md bloom = (case bloom of None \<Rightarrow> md
     | Some flt \<Rightarrow> md\<lparr>md_bloom_bit_count := bit_count flt, md_bloom_hash_count := hash_count flt\<rparr>)"

definition footer_of :: "bytes \<Rightarrow> SSTableMetadata \<Rightarrow> bool" where
  "footer_of bs md \<longleftrightarrow>
     156 \<le> length bs \<and>
     (\<exists>hdr. decode_table_header (substr bs 0 32) = Inr hdr \<and>
        decode_table_footer (substr bs (length bs - 104) 104) (word_of_nat (length bs)) hdr = Inr md) \<and>
     \<not> regions_invalid md"

definition bloom_of :: "bytes \<Rightarrow> SSTableMetadata \<Rightarrow> BloomFilter option \<Rightarrow> bool" where
  "bloom_of bs md bloom \<longleftrightarrow>
     (if md_bloom_size md = 0 then bloom = None
      else \<exists>flt. DecodeBloomFilter (substr bs (unat (md_bloom_offset md)) (unat (md_bloom_size md))) = Inr flt \<and>
        key_count flt = md_record_count md \<and> bloom = Some flt)"

definition index_bytes :: "bytes \<Rightarrow> SSTableMetadata \<Rightarrow> bytes" where
  "index_bytes bs md = substr bs (unat (md_index_offset md)) (unat (md_index_size md))"

definition table_of :: "Options \<Rightarrow> bytes \<Rightarrow> SSTableMetadata \<Rightarrow> BloomFilter option \<Rightarrow> IndexEntry list \<Rightarrow> bool" where
  "table_of options bs md bloom index \<longleftrightarrow>
     footer_of bs md \<and> ok (check_index_size options md) \<and>
     check_index_header md (index_bytes bs md) = Inr () \<and> bloom_of bs md bloom \<and>
     load_index options (bloom_metadata md bloom) (index_bytes bs md) = Inr index"

lemma regions_valid:
  assumes "\<not> regions_invalid md"
  shows "md_data_offset md = 32" and "0 < unat (md_data_size md)"
    and "20 \<le> unat (md_index_size md)"
    and "unat (md_index_offset md) = 32 + unat (md_data_size md)"
    and "unat (md_bloom_offset md) = unat (md_index_offset md) + unat (md_index_size md)"
    and "unat (md_file_size md) = unat (md_bloom_offset md) + unat (md_bloom_size md) + 104"
  using assms by (auto simp: regions_invalid_def CheckedAdd_Some_iff unat_gt_0 split: option.splits)

lemma decode_table_footer_size:
  "decode_table_footer footer file_size hdr = Inr md \<Longrightarrow> md_file_size md = file_size"
  by (auto simp: decode_table_footer_def or_fail_Inr Let_def split: prod.splits if_splits)

lemma footer_of_layout:
  assumes "footer_of bs md" and "length bs \<le> u64_max"
  shows "unat (md_index_offset md) = 32 + unat (md_data_size md)"
    and "unat (md_bloom_offset md) = unat (md_index_offset md) + unat (md_index_size md)"
    and "length bs = unat (md_bloom_offset md) + unat (md_bloom_size md) + 104"
    and "md_data_offset md = 32" and "20 \<le> unat (md_index_size md)" and "156 \<le> length bs"
proof -
  have "md_file_size md = word_of_nat (length bs)"
    using assms(1) by (auto simp: footer_of_def dest: decode_table_footer_size)
  then show "unat (md_index_offset md) = 32 + unat (md_data_size md)"
      "unat (md_bloom_offset md) = unat (md_index_offset md) + unat (md_index_size md)"
      "length bs = unat (md_bloom_offset md) + unat (md_bloom_size md) + 104"
      "md_data_offset md = 32" "20 \<le> unat (md_index_size md)" "156 \<le> length bs"
    using assms regions_valid [of md] by (auto simp: footer_of_def unat_of_nat_u64)
qed

lemma Size_result: "Size f = (r, f') \<Longrightarrow> rf_data f' = rf_data f \<and> (r = Inr n \<longrightarrow> n = length (rf_data f))"
  by (auto simp: Size_def Let_def split: prod.splits if_splits)

lemma read_frames_sound:
  assumes "read_frames options f n = Inr (f', md, enc)" and "n = length (rf_data f)"
    and "n \<le> u64_max" and "156 \<le> n"
  shows "rf_data f' = rf_data f" and "footer_of (rf_data f) md" and "ok (check_index_size options md)"
    and "enc = index_bytes (rf_data f) md" and "check_index_header md enc = Inr ()"
proof -
  obtain f1 header hdr f2 footer where
      r1: "ReadRegion f 0 (word_of_nat kTableHeaderSize) = (f1, Inr header)"
      and hdr: "decode_table_header header = Inr hdr"
      and r2: "ReadRegion f1 (word_of_nat (n - kTableFooterSize)) (word_of_nat kTableFooterSize) = (f2, Inr footer)"
      and md: "decode_table_footer footer (word_of_nat n) hdr = Inr md"
      and "\<not> regions_invalid md" "ok (check_index_size options md)"
      and r3: "ReadRegion f2 (md_index_offset md) (md_index_size md) = (f', Inr enc)"
      and "check_index_header md enc = Inr ()"
    using assms(1) by (auto simp: read_frames_def with_region_Inr and_then_Inr split: if_splits)
  moreover have "rf_data f1 = rf_data f" "rf_data f2 = rf_data f" "rf_data f' = rf_data f"
    using ReadRegion_frame(1) [OF r1] ReadRegion_frame(1) [OF r2] ReadRegion_frame(1) [OF r3] by simp_all
  moreover have "header = substr (rf_data f) 0 32" "footer = substr (rf_data f) (n - 104) 104"
    "enc = index_bytes (rf_data f) md"
    using ReadRegion_frame(2) [OF r1 refl] ReadRegion_frame(2) [OF r2 refl] ReadRegion_frame(2) [OF r3 refl]
      assms(3) calculation by (simp_all add: unat_of_nat_u64 index_bytes_def)
  ultimately show "rf_data f' = rf_data f" "footer_of (rf_data f) md" "ok (check_index_size options md)"
      "enc = index_bytes (rf_data f) md" "check_index_header md enc = Inr ()"
    using assms(2,4) by (auto simp: footer_of_def)
qed

lemma read_frames_benign:
  assumes "benign_file f" and n: "n = length (rf_data f)"
    and "footer_of (rf_data f) md" and "ok (check_index_size options md)"
    and "check_index_header md (index_bytes (rf_data f) md) = Inr ()"
  obtains f' where "read_frames options f n = Inr (f', md, index_bytes (rf_data f) md)"
    "benign_file f'" "rf_data f' = rf_data f"
proof -
  have len: "n \<le> u64_max" "156 \<le> n"
    using assms(1-3) by (auto simp: benign_file_def footer_of_def)
  note layout = footer_of_layout [OF assms(3)] 
  obtain hdr where hdr: "decode_table_header (substr (rf_data f) 0 32) = Inr hdr"
      "decode_table_footer (substr (rf_data f) (n - 104) 104) (word_of_nat n) hdr = Inr md"
      "\<not> regions_invalid md"
    using assms(3) n by (auto simp: footer_of_def)
  obtain f1 where f1: "ReadRegion f 0 (word_of_nat kTableHeaderSize) = (f1, Inr (substr (rf_data f) 0 32))"
      "benign_file f1" "rf_data f1 = rf_data f"
    using ReadRegion_benign [OF assms(1), of 0 "word_of_nat kTableHeaderSize"] len n by auto
  obtain f2 where f2: "ReadRegion f1 (word_of_nat (n - kTableFooterSize)) (word_of_nat kTableFooterSize) =
        (f2, Inr (substr (rf_data f) (n - 104) 104))" "benign_file f2" "rf_data f2 = rf_data f"
    using ReadRegion_benign [OF f1(2), of "word_of_nat (n - kTableFooterSize)" "word_of_nat kTableFooterSize"]
      len n f1(3) by (auto simp: unat_of_nat_u64 simp del: of_nat_diff)
  obtain f3 where f3: "ReadRegion f2 (md_index_offset md) (md_index_size md) =
        (f3, Inr (index_bytes (rf_data f) md))" "benign_file f3" "rf_data f3 = rf_data f"
    using ReadRegion_benign [OF f2(2), of "md_index_offset md" "md_index_size md"] layout len n f2(3)
    by (auto simp: index_bytes_def)
  show thesis
    using f1 f2 f3 hdr assms(4,5) by (intro that [of f3]) (simp_all add: read_frames_def)
qed

lemma check_bloom_Inr:
  "check_bloom md bs = Inr flt \<longleftrightarrow> DecodeBloomFilter bs = Inr flt \<and> key_count flt = md_record_count md"
  by (auto simp: check_bloom_def split: sum.split)

lemma load_bloom_sound:
  assumes "load_bloom f md = Inr (f', md', bloom)"
  shows "rf_data f' = rf_data f" and "bloom_of (rf_data f) md bloom" and "md' = bloom_metadata md bloom"
proof (atomize (full), cases "md_bloom_size md = 0")
  case False
  then obtain bs flt where r: "ReadRegion f (md_bloom_offset md) (md_bloom_size md) = (f', Inr bs)"
      and "check_bloom md bs = Inr flt" "bloom = Some flt"
        "md' = md\<lparr>md_bloom_bit_count := bit_count flt, md_bloom_hash_count := hash_count flt\<rparr>"
    using assms by (auto simp: load_bloom_def with_region_Inr and_then_Inr)
  then show "rf_data f' = rf_data f \<and> bloom_of (rf_data f) md bloom \<and> md' = bloom_metadata md bloom"
    using False ReadRegion_frame(1) [OF r] ReadRegion_frame(2) [OF r refl]
    by (auto simp: bloom_of_def bloom_metadata_def check_bloom_Inr)
qed (use assms in \<open>auto simp: load_bloom_def bloom_of_def bloom_metadata_def\<close>)

lemma load_bloom_benign:
  assumes "benign_file f" and "footer_of (rf_data f) md" and "bloom_of (rf_data f) md bloom"
  obtains f' where "load_bloom f md = Inr (f', bloom_metadata md bloom, bloom)"
    "benign_file f'" "rf_data f' = rf_data f"
proof (cases "md_bloom_size md = 0")
  case True
  then show thesis
    using assms by (intro that [of f]) (auto simp: load_bloom_def bloom_of_def bloom_metadata_def)
next
  case False
  have "length (rf_data f) \<le> u64_max"
    using assms(1) by (simp add: benign_file_def)
  then obtain f' where "ReadRegion f (md_bloom_offset md) (md_bloom_size md) =
      (f', Inr (substr (rf_data f) (unat (md_bloom_offset md)) (unat (md_bloom_size md))))"
      "benign_file f'" "rf_data f' = rf_data f"
    using ReadRegion_benign [OF assms(1), of "md_bloom_offset md" "md_bloom_size md"]
      footer_of_layout [OF assms(2)] by auto
  then show thesis
    using False assms(3)
    by (intro that [of f'])
      (auto simp: load_bloom_def bloom_of_def bloom_metadata_def with_region_Inr and_then_Inr check_bloom_Inr)
qed

lemma decode_table_footer_blocks:
  "decode_table_header header = Inr hdr \<Longrightarrow> decode_table_footer footer n hdr = Inr md \<Longrightarrow>
     md_block_count md \<noteq> 0"
  by (auto simp: decode_table_footer_def decode_table_header_def or_fail_Inr Let_def
      split: prod.splits if_splits)

lemma load_index_sound:
  assumes "load_index options md enc = Inr index"
  shows "length index = unat (md_block_count md)"
    and "index_chain (unat (md_data_offset md)) index (unat (md_index_offset md))"
proof -
  obtain m where "decode_index_entries options md m (unat (md_block_count md)) (drop 20 enc)
      (md_data_offset md) [] = Inr ([], md_index_offset md, index)"
    using assms by (auto simp: load_index_def and_then_Inr split: if_splits)
  from decode_index_entries_sound [OF this]
  show "length index = unat (md_block_count md)"
    and "index_chain (unat (md_data_offset md)) index (unat (md_index_offset md))"
    by auto
qed

lemma bloom_metadata_fields [simp]:
  "md_block_count (bloom_metadata md b) = md_block_count md"
  "md_data_offset (bloom_metadata md b) = md_data_offset md"
  "md_data_size (bloom_metadata md b) = md_data_size md"
  "md_index_offset (bloom_metadata md b) = md_index_offset md"
  "md_record_count (bloom_metadata md b) = md_record_count md"
  "md_minimum_sequence (bloom_metadata md b) = md_minimum_sequence md"
  "md_maximum_sequence (bloom_metadata md b) = md_maximum_sequence md"
  "md_generation (bloom_metadata md b) = md_generation md"
  by (simp_all add: bloom_metadata_def split: option.split)

lemma table_of_index_not_Nil: "table_of options bs md bloom index \<Longrightarrow> index \<noteq> []"
  using load_index_sound(1) [of options "bloom_metadata md bloom" "index_bytes bs md" index]
  by (auto simp: table_of_def footer_of_def unat_eq_0 dest: decode_table_footer_blocks)

lemma Open_sound:
  assumes open': "SSTableReader_Open (Inr f) path options = Inr rd"
    and fits: "length (rf_data f) \<le> u64_max"
  obtains md bloom index f' where "table_of options (rf_data f) md bloom index"
    "rf_data f' = rf_data f" "table_limits options" "path \<noteq> []"
    "verify_table \<lparr>rd_path = path, rd_options = options, rd_file = f',
       rd_metadata = bloom_metadata md bloom, rd_index = index, rd_bloom = bloom\<rparr> = Inr rd"
proof -
  obtain g n f1 md enc f2 md' bloom index where size: "Size f = (Inr n, g)" "156 \<le> n"
      and frames: "read_frames options g n = Inr (f1, md, enc)"
      and bloom: "load_bloom f1 md = Inr (f2, md', bloom)"
      and index: "load_index options md' enc = Inr index"
      and ver: "verify_table \<lparr>rd_path = path, rd_options = options, rd_file = f2, rd_metadata = md',
        rd_index = index, rd_bloom = bloom\<rparr> = Inr rd"
      and opts: "ok (ValidateTableOptions options)" "path \<noteq> []"
    using open' by (auto simp: SSTableReader_Open_def and_then_Inr split: prod.splits sum.splits if_splits)
  have g: "rf_data g = rf_data f" "n = length (rf_data f)"
    using Size_result [OF size(1)] by auto
  note fr = read_frames_sound [OF frames]
  have fr: "rf_data f1 = rf_data f" "footer_of (rf_data f) md" "ok (check_index_size options md)"
      "enc = index_bytes (rf_data f) md" "check_index_header md enc = Inr ()"
    using fr g fits size(2) by auto
  note bl = load_bloom_sound [OF bloom]
  have "table_of options (rf_data f) md bloom index"
    using fr bl index by (simp add: table_of_def)
  then show thesis
    using that [of md bloom index f2] bl fr ver opts by (simp add: ValidateTableOptions_ok_iff)
qed

text \<open>A sound reader comes out of every successful \<open>Open\<close>, whatever faults the reads met.\<close>

lemma Open_reader_sound:
  assumes "SSTableReader_Open (Inr f) path options = Inr rd" and "length (rf_data f) \<le> u64_max"
  shows "reader_sound rd" and "summary_sound rd" and "rd_options rd = options"
    and "rf_data (rd_file rd) = rf_data f" and "table_limits options"
proof -
  obtain md bloom index f' where t: "table_of options (rf_data f) md bloom index"
    "rf_data f' = rf_data f" "table_limits options"
    "verify_table \<lparr>rd_path = path, rd_options = options, rd_file = f',
       rd_metadata = bloom_metadata md bloom, rd_index = index, rd_bloom = bloom\<rparr> = Inr rd"
    by (rule Open_sound [OF assms])
  from verify_table_sound [OF t(4)] table_of_index_not_Nil [OF t(1)] t
  show "reader_sound rd" "summary_sound rd" "rd_options rd = options"
    "rf_data (rd_file rd) = rf_data f" "table_limits options"
    by simp_all
qed

lemma Open_benign:
  assumes "benign_file f" and t: "table_of options (rf_data f) md bloom index"
    and "table_limits options" and "path \<noteq> []"
  obtains f' where "SSTableReader_Open (Inr f) path options =
      verify_table \<lparr>rd_path = path, rd_options = options, rd_file = f',
        rd_metadata = bloom_metadata md bloom, rd_index = index, rd_bloom = bloom\<rparr>"
    "benign_file f'" "rf_data f' = rf_data f"
proof -
  note parts = t [unfolded table_of_def]
  have f: "footer_of (rf_data f) md" using parts by simp
  obtain f1 where f1: "read_frames options f (length (rf_data f)) = Inr (f1, md, index_bytes (rf_data f) md)"
      "benign_file f1" "rf_data f1 = rf_data f"
    by (rule read_frames_benign [OF assms(1) refl f]) (use parts in auto)
  obtain f2 where f2: "load_bloom f1 md = Inr (f2, bloom_metadata md bloom, bloom)"
      "benign_file f2" "rf_data f2 = rf_data f"
    by (rule load_bloom_benign [OF f1(2)]) (use parts f1 in auto)
  have size: "Size f = (Inr (length (rf_data f)), f)"
    using assms(1) by (simp add: Size_def benign_file_def)
  have "156 \<le> length (rf_data f)"
    using f by (simp add: footer_of_def)
  then show thesis
    using f1 f2 size parts assms(3,4) ValidateTableOptions_ok_iff [of options]
    by (intro that [of f2]) (simp_all add: SSTableReader_Open_def)
qed

section \<open>Point lookups find exactly the stored records\<close>

definition lookup_records :: "MemTableRecord list \<Rightarrow> bytes \<Rightarrow> MemTableRecord option" where
  "lookup_records rs key = find (\<lambda>r. r_key r = key) rs"

definition found_result :: "MemTableRecord \<Rightarrow> LookupResult" where
  "found_result r = \<lparr>lr_status = Ok, lr_sequence = r_sequence r, lr_type = r_type r, lr_value = r_value r\<rparr>"

lemma lookup_records_append:
  "lookup_records (rs @ qs) key =
     (case lookup_records rs key of None \<Rightarrow> lookup_records qs key | Some r \<Rightarrow> Some r)"
  by (induction rs) (simp_all add: lookup_records_def)

lemma lookup_records_None_iff: "lookup_records rs key = None \<longleftrightarrow> (\<forall>r \<in> set rs. r_key r \<noteq> key)"
  by (auto simp: lookup_records_def find_None_iff)

lemma lookup_records_Some: "lookup_records rs key = Some r \<Longrightarrow> r \<in> set rs \<and> r_key r = key"
  by (auto simp: lookup_records_def find_Some_iff)

lemma lower_bound_lookup:
  "records_sorted rs \<Longrightarrow>
     lookup_records rs key =
       (let i = record_lower_bound rs key in
        if i = length rs \<or> r_key (rs ! i) \<noteq> key then None else Some (rs ! i))"
proof (induction rs)
  case (Cons r rs)
  show ?case
  proof (cases "r_key r < key")
    case True
    then show ?thesis
      using Cons by (auto simp: lookup_records_def record_lower_bound_def Let_def)
  next
    case False
    then have "r_key r \<noteq> key \<Longrightarrow> lookup_records rs key = None"
      using Cons.prems by (auto simp: lookup_records_None_iff)
    with False show ?thesis
      by (auto simp: lookup_records_def record_lower_bound_def Let_def)
  qed
qed (simp add: lookup_records_def record_lower_bound_def)

lemma index_lookup:
  "records_sorted (concat (map blk es)) \<Longrightarrow> \<forall>e \<in> set es. blk e \<noteq> [] \<and> r_key (hd (blk e)) = ix_first_key e \<Longrightarrow>
     lookup_records (concat (map blk es)) key =
       (let u = index_upper_bound es key in if u = 0 then None else lookup_records (blk (es ! (u - 1))) key)"
proof (induction es)
  case (Cons e es)
  let ?rest = "concat (map blk es)"
  have ne: "blk e \<noteq> []" "r_key (hd (blk e)) = ix_first_key e"
    using Cons.prems(2) by simp_all
  have sorted: "records_sorted (blk e)" "records_sorted ?rest"
    "\<forall>r \<in> set (blk e). \<forall>q \<in> set ?rest. r_key r < r_key q"
    using Cons.prems(1) by (auto simp: sorted_wrt_append)
  have IH: "lookup_records ?rest key =
      (let u = index_upper_bound es key in if u = 0 then None else lookup_records (blk (es ! (u - 1))) key)"
    using Cons.IH [OF sorted(2)] Cons.prems(2) by simp
  show ?case
  proof (cases "key < ix_first_key e")
    case True
    have "key < r_key r" if "r \<in> set (blk e)" for r
      using sorted_hd_le [OF sorted(1), of "r_key r"] that True ne by (auto simp: hd_map)
    moreover from this have "key < r_key q" if "q \<in> set ?rest" for q
      using sorted(3) ne(1) that by (meson hd_in_set order.strict_trans)
    ultimately show ?thesis
      using True by (fastforce simp: index_upper_bound_def lookup_records_None_iff)
  next
    case False
    show ?thesis
    proof (cases "index_upper_bound es key = 0")
      case True
      then have "index_upper_bound (e # es) key = 1" "lookup_records ?rest key = None"
        using False IH by (simp_all add: index_upper_bound_def)
      then show ?thesis
        by (simp add: lookup_records_append split: option.split)
    next
      case later: False
      then obtain e' es' where es: "es = e' # es'" "\<not> key < ix_first_key e'"
        by (cases es) (auto simp: index_upper_bound_def split: if_splits)
      then have "hd (blk e') \<in> set ?rest" "r_key (hd (blk e')) \<le> key"
        using Cons.prems(2) by auto
      then have "lookup_records (blk e) key = None"
        using sorted(3) by (fastforce simp: lookup_records_None_iff)
      moreover have "index_upper_bound (e # es) key = Suc (index_upper_bound es key)"
        using False by (simp add: index_upper_bound_def)
      ultimately show ?thesis
        using IH later by (simp add: lookup_records_append Let_def nth_Cons')
    qed
  qed
qed (simp add: lookup_records_def index_upper_bound_def)

lemma reader_sound_blocks:
  assumes "reader_sound rd" and "e \<in> set (rd_index rd)"
  shows "block_records rd e \<noteq> []" "r_key (hd (block_records rd e)) = ix_first_key e"
    "records_sorted (block_records rd e)"
proof -
  obtain rs where rs: "block_of rd e = Inr rs" "r_key (hd rs) = ix_first_key e"
    using assms by (auto simp: reader_sound_def block_sound_def)
  then show "block_records rd e \<noteq> []" "r_key (hd (block_records rd e)) = ix_first_key e"
    "records_sorted (block_records rd e)"
    using decode_block_sound [OF rs(1) [unfolded block_of_def]] by (simp_all add: block_records_def)
qed

lemma reader_sound_nth:
  assumes "reader_sound rd" and "i < length (rd_index rd)"
  shows "block_sound rd (rd_index rd ! i)"
    and "block_of rd (rd_index rd ! i) = Inr (block_records rd (rd_index rd ! i))"
proof -
  show "block_sound rd (rd_index rd ! i)"
    using assms by (simp add: reader_sound_def)
  then show "block_of rd (rd_index rd ! i) = Inr (block_records rd (rd_index rd ! i))"
    by (auto simp: block_sound_def block_records_def)
qed

lemma outside_range:
  assumes "reader_sound rd"
    and "key < md_minimum_key (rd_metadata rd) \<or> key > md_maximum_key (rd_metadata rd)"
  shows "lookup_records (table_records rd) key = None"
proof -
  let ?rs = "table_records rd"
  have "r_key r \<noteq> key" if r: "r \<in> set ?rs" for r
  proof -
    have ne: "?rs \<noteq> []" and keys: "sorted_wrt (<) (map r_key ?rs)" "r_key r \<in> set (map r_key ?rs)"
      using assms(1) r by (auto simp: reader_sound_def)
    have "md_minimum_key (rd_metadata rd) \<le> r_key r" "r_key r \<le> md_maximum_key (rd_metadata rd)"
      using sorted_hd_le [OF keys] sorted_le_last [OF keys] assms(1) ne
      by (simp_all add: hd_map last_map reader_sound_def)
    then show ?thesis
      using assms(2) by auto
  qed
  then show ?thesis
    by (simp add: lookup_records_None_iff)
qed

lemma upper_bound_le: "index_upper_bound es key \<le> length es"
  by (simp add: index_upper_bound_def length_takeWhile_le)

lemma candidate_block:
  assumes "reader_sound rd" and "u = index_upper_bound (rd_index rd) key"
  shows "u = 0 \<Longrightarrow> lookup_records (table_records rd) key = None"
    and "u \<noteq> 0 \<Longrightarrow> lookup_records (table_records rd) key =
      lookup_records (block_records rd (rd_index rd ! (u - 1))) key"
    and "u \<noteq> 0 \<Longrightarrow> u - 1 < length (rd_index rd)"
proof -
  have "lookup_records (table_records rd) key =
      (if u = 0 then None else lookup_records (block_records rd (rd_index rd ! (u - 1))) key)"
    using index_lookup [of "block_records rd" "rd_index rd" key] reader_sound_blocks [OF assms(1)] assms
    by (simp add: table_records_def reader_sound_def Let_def)
  then show "u = 0 \<Longrightarrow> lookup_records (table_records rd) key = None"
    and "u \<noteq> 0 \<Longrightarrow> lookup_records (table_records rd) key =
      lookup_records (block_records rd (rd_index rd ! (u - 1))) key"
    by simp_all
  show "u \<noteq> 0 \<Longrightarrow> u - 1 < length (rd_index rd)"
    using upper_bound_le [of "rd_index rd" key] assms(2) by linarith
qed

text \<open>The right answer of a lookup, and the answer the code gives when no read fails.\<close>

definition answers :: "SSTableReader \<Rightarrow> bytes \<Rightarrow> LookupResult \<Rightarrow> bool" where
  "answers rd key res \<longleftrightarrow>
     (case lookup_records (table_records rd) key of
        None \<Rightarrow> \<exists>m. res = no_result (NotFound m)
      | Some r \<Rightarrow> res = found_result r)"

lemma ReadRegion_Inl: "ReadRegion f off n = (f', Inl s) \<Longrightarrow> \<not> ok s"
  using ReadAllAt_Inl [of f "unat off" "unat n"]
  by (auto simp: ReadRegion_def TableCorruption_def split: if_splits prod.splits sum.splits)

lemma ReadBlock_Inl:
  assumes "ReadBlock i st rd = (rd', st', Inl s)" and "reader_sound rd" and "i < length (rd_index rd)"
  shows "\<not> ok s"
proof -
  let ?e = "rd_index rd ! i"
  obtain f r where r: "ReadRegion (rd_file rd) (ix_block_offset ?e) (ucast (ix_block_size ?e)) = (f, r)"
    by force
  obtain rs where "block_of rd ?e = Inr rs"
    using reader_sound_nth [OF assms(2,3)] by simp
  then have "and_then r (decode_block (rd_options rd) ?e) = Inr rs" if "r = Inr bs" for bs
    using ReadRegion_frame(2) [OF r that] that by (simp add: block_of_def)
  then show ?thesis
    using assms(1,3) r ReadRegion_Inl [of "rd_file rd"]
    by (cases r) (auto simp: ReadBlock_def)
qed

lemma Get_sound:
  assumes rd: "reader_sound rd" and key: "key \<noteq> []" "length key \<le> max_key_size (rd_options rd)"
    and run: "SSTableReader_Get rd key = (rd', st, res)"
  shows "same_table rd rd'" and "answers rd key res \<or>
      (\<exists>i st0 st1 s. i < length (rd_index rd) \<and> ReadBlock i st0 rd = (rd', st1, Inl s) \<and> \<not> ok s \<and> res = no_result s)"
    and "benign_file (rd_file rd) \<Longrightarrow> answers rd key res \<and> benign_file (rd_file rd')"
proof -
  let ?range = "key < md_minimum_key (rd_metadata rd) \<or> key > md_maximum_key (rd_metadata rd)"
  let ?denied = "bloom_filter_enabled (rd_options rd) \<and> (\<exists>flt. rd_bloom rd = Some flt \<and> \<not> MayContain flt key)"
  let ?u = "index_upper_bound (rd_index rd) key"
  note cand = candidate_block [OF rd refl, of key]
  consider (none) m where "rd' = rd" "res = no_result (NotFound m)" "?range \<or> ?denied \<or> ?u = 0"
    | (fail) st0 st1 s where "?u \<noteq> 0" "ReadBlock (?u - 1) st0 rd = (rd', st1, Inl s)" "res = no_result s"
    | (read) st0 st1 rs m where "?u \<noteq> 0" "ReadBlock (?u - 1) st0 rd = (rd', st1, Inr rs)"
        "res = (let i = record_lower_bound rs key in
           if i = length rs \<or> r_key (rs ! i) \<noteq> key then no_result (NotFound m) else found_result (rs ! i))"
    using run key
    by (auto simp: SSTableReader_Get_def Let_def found_result_def split: if_splits prod.splits sum.splits option.splits)
  then have "same_table rd rd' \<and> (answers rd key res \<or>
      (\<exists>i st0 st1 s. i < length (rd_index rd) \<and> ReadBlock i st0 rd = (rd', st1, Inl s) \<and> \<not> ok s \<and> res = no_result s)) \<and>
      (benign_file (rd_file rd) \<longrightarrow> answers rd key res \<and> benign_file (rd_file rd'))"
  proof cases
    case none
    have "lookup_records (table_records rd) key = None"
      using none(3) cand(1) outside_range [OF rd, of key] rd lookup_records_Some [of "table_records rd" key]
      by (cases "lookup_records (table_records rd) key") (auto simp: reader_sound_def)
    then show ?thesis
      using none by (auto simp: answers_def)
  next
    case fail
    note nth = reader_sound_nth [OF rd cand(3) [OF fail(1)]]
    have "\<not> benign_file (rd_file rd)"
      using ReadBlock_benign [OF _ cand(3) [OF fail(1)] nth(1), of st0] fail(2)
      by (metis Inl_Inr_False prod.inject)
    then show ?thesis
      using ReadBlock_Inl [OF fail(2) rd cand(3) [OF fail(1)]] ReadBlock_same [OF fail(2)] fail(2,3) cand(3) [OF fail(1)]
      by blast
  next
    case "read"
    note nth = reader_sound_nth [OF rd cand(3) [OF read(1)]]
    let ?e = "rd_index rd ! (?u - 1)"
    have rs: "block_records rd ?e = rs"
      using ReadBlock_Inr(2) [OF read(2)] by (simp add: block_records_def)
    have "records_sorted rs"
      using reader_sound_blocks(3) [OF rd, of ?e] cand(3) [OF read(1)] rs by simp
    then have "answers rd key res"
      using lower_bound_lookup [of rs key] cand(2) [OF read(1)] read(3) rs
      by (auto simp: answers_def Let_def)
    moreover have "benign_file (rd_file rd) \<Longrightarrow> benign_file (rd_file rd')"
      using ReadBlock_benign [OF _ cand(3) [OF read(1)] nth(1), of st0] read(2)
      by (metis prod.inject)
    ultimately show ?thesis
      using ReadBlock_same [OF read(2)] by simp
  qed
  then show "same_table rd rd'" and "answers rd key res \<or>
      (\<exists>i st0 st1 s. i < length (rd_index rd) \<and> ReadBlock i st0 rd = (rd', st1, Inl s) \<and> \<not> ok s \<and> res = no_result s)"
    and "benign_file (rd_file rd) \<Longrightarrow> answers rd key res \<and> benign_file (rd_file rd')"
    by (blast, blast, blast)
qed

lemma read_records_loop_benign:
  assumes "reader_sound rd"
  shows "benign_file (rd_file rd0) \<Longrightarrow> same_table rd rd0 \<Longrightarrow> \<forall>i \<in> set is. i < length (rd_index rd) \<Longrightarrow>
     length acc < limit \<Longrightarrow>
     \<exists>rd'. read_records_loop is limit acc rd0 =
       (rd', Inr (take limit (acc @ concat (map (\<lambda>i. block_records rd (rd_index rd ! i)) is)))) \<and>
       same_table rd rd' \<and> benign_file (rd_file rd')"
proof (induction "is" arbitrary: acc rd0)
  case (Cons i "is")
  let ?rs = "block_records rd (rd_index rd ! i)"
  note same = Cons.prems(2) [unfolded same_table_def]
  have i: "i < length (rd_index rd0)" "block_sound rd0 (rd_index rd0 ! i)"
    using reader_sound_nth(1) [OF assms] Cons.prems(3) same same_table_content(2) [OF Cons.prems(2)] by auto
  obtain rd1 st where r: "ReadBlock i empty_SSTableReadStats rd0 = (rd1, st, Inr ?rs)"
      "same_table rd0 rd1" "benign_file (rd_file rd1)"
    using ReadBlock_benign [OF Cons.prems(1) i] same same_table_block_of(2) [OF Cons.prems(2)] by metis
  have rd1: "same_table rd rd1"
    using same_table_trans [OF Cons.prems(2) r(2)] .
  let ?acc = "acc @ take (limit - length acc) ?rs"
  show ?case
  proof (cases "length ?acc = limit")
    case True
    have full: "take limit (acc @ concat (map (\<lambda>i. block_records rd (rd_index rd ! i)) (i # is))) = ?acc"
      using True Cons.prems(4) by simp
    have "read_records_loop (i # is) limit acc rd0 = (rd1, Inr ?acc)"
      using r(1) True by (simp add: Let_def)
    then show ?thesis
      unfolding full using r(3) rd1 by blast
  next
    case False
    then have short: "length ?rs < limit - length acc"
      using Cons.prems(4) by auto
    then have "length acc + length ?rs \<noteq> limit" "take (limit - length acc) ?rs = ?rs"
      by simp_all
    then have run: "read_records_loop (i # is) limit acc rd0 = read_records_loop is limit (acc @ ?rs) rd1"
      using r(1) by (simp add: Let_def)
    have "length (acc @ ?rs) < limit"
      using short by simp
    then show ?thesis
      using Cons.IH [OF r(3) rd1 _, of "acc @ ?rs"] Cons.prems(3) unfolding run by simp
  qed
qed simp

lemma ReadRecords_benign:
  assumes "reader_sound rd" and "benign_file (rd_file rd)"
  obtains rd' where "ReadRecords limit rd = (rd', Inr (take limit (table_records rd)))"
    "same_table rd rd'" "benign_file (rd_file rd')"
proof (cases "limit = 0")
  case True
  then show thesis
    using assms(2) by (intro that [of rd]) (simp_all add: ReadRecords_def)
next
  case False
  have "map (\<lambda>i. block_records rd (rd_index rd ! i)) [0..<length (rd_index rd)] =
      map (block_records rd) (rd_index rd)"
    by (rule nth_equalityI) simp_all
  then show thesis
    using read_records_loop_benign [OF assms(1,2), of "[0..<length (rd_index rd)]" "[]" limit] False that
    by (auto simp: ReadRecords_def table_records_def)
qed

end
