(* ===== verification/TableRoundtrip.thy ===== *)
theory TableRoundtrip
  imports TableBuilder TableReader
begin

text \<open>
  The two halves of \<^verbatim>\<open>src/table.cpp\<close> together: what \<open>EncodeTable\<close> writes, \<open>SSTableReader::Open\<close>
  accepts, and the opened table holds exactly the records of the MemTable; a table in which one
  byte changed is never accepted.
\<close>

section \<open>What the builder has written\<close>

text \<open>
  \<open>bss\<close> are the finished blocks, \<open>cur\<close> the records of the block under construction. A block fits
  the configured size unless it holds a single record.
\<close>

fun built_entries :: "nat \<Rightarrow> MemTableRecord list list \<Rightarrow> BuiltIndexEntry list" where
  "built_entries off [] = []"
| "built_entries off (rs # bss) =
     \<lparr>bi_first_key = r_key (hd rs), bi_block_offset = word_of_nat off,
      bi_block_size = word_of_nat (length (block_bytes rs))\<rparr> #
     built_entries (off + length (block_bytes rs)) bss"

abbreviation data_bytes :: "MemTableRecord list list \<Rightarrow> bytes" where
  "data_bytes bss \<equiv> concat (map block_bytes bss)"

definition block_fits :: "Options \<Rightarrow> MemTableRecord list \<Rightarrow> bool" where
  "block_fits options rs \<longleftrightarrow>
     records_encodable options rs \<and> 20 + length (block_payload rs) \<le> u32_max \<and>
     (length rs \<le> 1 \<or> 20 + length (block_payload rs) \<le> sstable_block_size options)"

definition built :: "Options \<Rightarrow> MemTableRecord list list \<Rightarrow> MemTableRecord list \<Rightarrow> TableBuild \<Rightarrow> bool" where
  "built options bss cur b \<longleftrightarrow>
     (\<forall>rs \<in> set bss. rs \<noteq> [] \<and> block_fits options rs) \<and>
     records_encodable options cur \<and> length (block_payload cur) \<le> u32_max \<and>
     (length cur \<le> 1 \<or> 20 + length (block_payload cur) \<le> sstable_block_size options) \<and>
     length bss \<le> u32_max \<and>
     tb_data b = data_bytes bss \<and> tb_index b = built_entries 32 bss \<and>
     tb_payload b = block_payload cur \<and> tb_records b = word_of_nat (length cur) \<and>
     (cur \<noteq> [] \<longrightarrow> tb_first_key b = r_key (hd cur)) \<and>
     tb_minimum_sequence b = fold min (map r_sequence (concat bss @ cur)) (- 1) \<and>
     tb_maximum_sequence b = fold max (map r_sequence (concat bss @ cur)) 0"

lemma built_empty: "built options [] [] empty_TableBuild"
  by (simp add: built_def empty_TableBuild_def)

lemma length_built_entries [simp]: "length (built_entries off bss) = length bss"
  by (induction bss arbitrary: off) simp_all

lemma built_entries_snoc:
  "built_entries off (bss @ [rs]) = built_entries off bss @
     [\<lparr>bi_first_key = r_key (hd rs), bi_block_offset = word_of_nat (off + length (data_bytes bss)),
       bi_block_size = word_of_nat (length (block_bytes rs))\<rparr>]"
  by (induction bss arbitrary: off) (simp_all add: add.assoc)

lemma built_records_zero:
  assumes "built options bss cur b"
  shows "tb_records b = 0 \<longleftrightarrow> cur = []" and "length cur \<le> u32_max"
proof -
  have "32 * length cur \<le> u32_max"
    using assms length_block_payload [of cur] by (auto simp: built_def)
  then show "length cur \<le> u32_max" by simp
  then show "tb_records b = 0 \<longleftrightarrow> cur = []"
    using assms unat_of_nat_u32 [of "length cur"] by (auto simp: built_def)
qed

lemma built_fields:
  assumes "built options bss cur b"
  shows "tb_payload b = block_payload cur" "tb_data b = data_bytes bss" "tb_index b = built_entries 32 bss"
    "tb_records b = word_of_nat (length cur)" "cur \<noteq> [] \<Longrightarrow> tb_first_key b = r_key (hd cur)"
  using assms by (simp_all add: built_def)

lemma FinishBlock_Inr:
  assumes inv: "built options bss cur b" and run: "FinishBlock b = Inr b'" and cur: "cur \<noteq> []"
  shows "20 + length (block_payload cur) \<le> u32_max" and "length bss \<noteq> u32_max"
    and "b' = b\<lparr>tb_data := data_bytes (bss @ [cur]), tb_index := built_entries 32 (bss @ [cur]),
      tb_payload := [], tb_first_key := [], tb_records := 0\<rparr>"
proof -
  note f = built_fields [OF inv]
  have nz: "(word_of_nat (length cur) :: u32) \<noteq> 0"
    using built_records_zero(1) [OF inv] cur f(4) by simp
  have eq: "FinishBlock b = (if 20 + length (block_payload cur) > u32_max then Inl block_limit
      else if length bss = u32_max then Inl (InvalidArgument ''SSTable block count exceeds format limit'')
      else Inr (b\<lparr>tb_data := data_bytes (bss @ [cur]), tb_index := built_entries 32 (bss @ [cur]),
        tb_payload := [], tb_first_key := [], tb_records := 0\<rparr>))"
    unfolding FinishBlock_def Let_def f(1-4) if_not_P [OF nz] f(5) [OF cur]
    by (simp add: codec_simps block_bytes_def block_prefix_def built_entries_snoc del: of_nat_add)
  show "20 + length (block_payload cur) \<le> u32_max" and "length bss \<noteq> u32_max"
    and "b' = b\<lparr>tb_data := data_bytes (bss @ [cur]), tb_index := built_entries 32 (bss @ [cur]),
      tb_payload := [], tb_first_key := [], tb_records := 0\<rparr>"
    using run unfolding eq by (simp_all split: if_splits)
qed

lemma FinishBlock_built:
  assumes inv: "built options bss cur b" and run: "FinishBlock b = Inr b'"
  shows "built options (if cur = [] then bss else bss @ [cur]) [] b'"
proof (cases "cur = []")
  case True
  then show ?thesis
    using assms built_records_zero(1) [OF inv] by (simp add: FinishBlock_def)
next
  case False
  note r = FinishBlock_Inr [OF inv run False]
  have "block_fits options cur"
    using inv r(1) by (auto simp: built_def block_fits_def)
  then show ?thesis
    using False inv r(2) unfolding r(3) by (simp add: built_def ball_Un)
qed

lemma add_record_built:
  assumes inv: "built options bss cur b" and run: "add_record options r b = Inr b'"
    and limit: "table_limits options"
  obtains bss' cur' where "built options bss' cur' b'" "concat bss' @ cur' = concat bss @ cur @ [r]"
proof -
  obtain encoded where enc: "encodable options (wal_of r)" "encoded = wal_bytes (wal_of r)"
    using run by (auto simp: add_record_def and_then_Inr EncodeWalRecord_Inr_iff)
  let ?full = "tb_records b \<noteq> 0 \<and> 20 + length (tb_payload b) + length encoded > sstable_block_size options"
  obtain b1 where b1: "(if ?full then FinishBlock b else Inr b) = Inr b1"
      and last: "tb_records b1 \<noteq> - 1" "length (tb_payload b1) \<le> u32_max - length encoded"
      and b': "b' = (if tb_records b1 = 0 then b1\<lparr>tb_first_key := r_key r\<rparr> else b1)
        \<lparr>tb_payload := tb_payload b1 @ encoded, tb_records := tb_records b1 + 1,
         tb_minimum_sequence := min (tb_minimum_sequence b1) (r_sequence r),
         tb_maximum_sequence := max (tb_maximum_sequence b1) (r_sequence r)\<rparr>"
    using run enc unfolding add_record_def EncodeWalRecord_encodable [OF enc(1)]
    by (auto simp: and_then_Inr Let_def split: if_splits)
  obtain bss1 cur1 where inv1: "built options bss1 cur1 b1" "concat bss1 @ cur1 = concat bss @ cur"
      and room: "cur1 = [] \<or> 20 + length (block_payload cur1) + length encoded \<le> sstable_block_size options"
  proof (cases ?full)
    case True
    then show thesis
      using FinishBlock_built [OF inv, of b1] b1 built_records_zero [OF inv]
      by (intro that [of "bss @ [cur]" "[]"]) auto
  next
    case False
    then have "b1 = b" "cur = [] \<or> 20 + length (block_payload cur) + length encoded \<le> sstable_block_size options"
      using b1 built_records_zero(1) [OF inv] built_fields(1) [OF inv] by auto
    then show thesis
      using inv by (intro that [of bss cur]) simp_all
  qed
  have "length (wal_bytes (wal_of r)) \<le> u32_max"
    using encodable_bounds(1) [OF enc(1)] by simp
  then have "built options bss1 (cur1 @ [r]) b'"
    using inv1(1) room last(2) enc built_records_zero [OF inv1(1)]
    by (auto simp: built_def b' min.commute max.commute)
  then show thesis
    using inv1(2) by (intro that [of bss1 "cur1 @ [r]"]) simp_all
qed

lemma add_records_built:
  "built options bss cur b \<Longrightarrow> add_records options rs b = Inr b' \<Longrightarrow> table_limits options \<Longrightarrow>
     \<exists>bss' cur'. built options bss' cur' b' \<and> concat bss' @ cur' = concat bss @ cur @ rs"
proof (induction rs arbitrary: b bss cur)
  case (Cons r rs)
  obtain b1 where b1: "add_record options r b = Inr b1" "add_records options rs b1 = Inr b'"
    using Cons.prems(2) by (auto simp: and_then_Inr)
  obtain bss1 cur1 where "built options bss1 cur1 b1" "concat bss1 @ cur1 = concat bss @ cur @ [r]"
    by (rule add_record_built [OF Cons.prems(1) b1(1) Cons.prems(3)])
  then show ?case
    using Cons.IH [OF _ b1(2) Cons.prems(3), of bss1 cur1] by (metis append.assoc append_Cons append_Nil)
qed auto

section \<open>The sparse index\<close>

definition entry_bytes :: "BuiltIndexEntry \<Rightarrow> bytes" where
  "entry_bytes e = PutFixed32 [] (word_of_nat (length (bi_first_key e))) @
     PutFixed64 [] (bi_block_offset e) @ PutFixed32 [] (bi_block_size e) @ bi_first_key e"

definition index_payload :: "BuiltIndexEntry list \<Rightarrow> bytes" where
  "index_payload es = concat (map entry_bytes es)"

definition index_prefix :: "BuiltIndexEntry list \<Rightarrow> bytes" where
  "index_prefix es = kIndexMagic @ PutFixed32 [] (word_of_nat (20 + length (index_payload es))) @
     PutFixed32 [] (word_of_nat (length es)) @ PutFixed32 [] (word_of_nat (length (index_payload es)))"

definition index_frame :: "BuiltIndexEntry list \<Rightarrow> bytes" where
  "index_frame es = index_prefix es @
     PutFixed32 [] (ChecksumParts (index_prefix es) (index_payload es)) @ index_payload es"

lemma index_lengths [simp]:
  "length (entry_bytes e) = 16 + length (bi_first_key e)" "length (index_prefix es) = 16"
  "length (index_frame es) = 20 + length (index_payload es)"
  by (simp_all add: entry_bytes_def index_prefix_def index_frame_def)

lemma index_payload_Cons [simp]:
  "index_payload [] = []" "index_payload (e # es) = entry_bytes e @ index_payload es"
  by (simp_all add: index_payload_def)

lemma encode_index_entries_Inr:
  "encode_index_entries es acc = Inr bs \<longleftrightarrow>
     (\<forall>e \<in> set es. length (bi_first_key e) \<le> u32_max) \<and> bs = acc @ index_payload es"
proof (induction es arbitrary: acc)
  case (Cons e es)
  have "PutFixed32 (PutFixed64 (PutFixed32 acc a) b) c @ k = acc @ PutFixed32 [] a @ PutFixed64 [] b @ PutFixed32 [] c @ k"
    for a b c k
    by (subst fixed32.put_split, subst fixed64.put_split, subst fixed32.put_split) simp
  then show ?case
    using Cons.IH by (auto simp: Let_def entry_bytes_def not_less)
qed auto

lemma encode_index_Inr:
  "encode_index es = Inr bs \<longleftrightarrow>
     (\<forall>e \<in> set es. length (bi_first_key e) \<le> u32_max) \<and>
     20 + length (index_payload es) \<le> kMaximumTableIndexSize \<and> bs = index_frame es"
proof -
  have "encode_index es = Inr bs \<longleftrightarrow>
      (\<forall>e \<in> set es. length (bi_first_key e) \<le> u32_max) \<and>
      (if 20 + length (index_payload es) > kMaximumTableIndexSize
       then Inl (InvalidArgument ''SSTable sparse index exceeds format limit'')
       else Inr (index_frame es)) = Inr bs"
    unfolding encode_index_def and_then_Inr encode_index_entries_Inr Let_def
    by (simp add: codec_simps index_frame_def index_prefix_def del: of_nat_add)
  then show ?thesis
    by auto
qed

text \<open>The entry the reader makes of a written one.\<close>

definition entry_of :: "BuiltIndexEntry \<Rightarrow> IndexEntry" where
  "entry_of e = \<lparr>ix_first_key = bi_first_key e, ix_block_offset = bi_block_offset e,
     ix_block_size = bi_block_size e\<rparr>"

lemma decode_index_entry_bytes:
  assumes key: "bi_first_key e \<noteq> []" "length (bi_first_key e) \<le> max_key_size options"
      "max_key_size options \<le> u32_max"
    and blk: "20 \<le> unat (bi_block_size e)" "unat (bi_block_size e) \<le> unat m" "bi_block_offset e = off"
    and within: "RegionWithin off (ucast (bi_block_size e)) (md_data_offset md) (md_data_size md)"
    and sorted: "idx \<noteq> [] \<Longrightarrow> ix_first_key (last idx) < bi_first_key e"
    and off': "unat off' = unat off + unat (bi_block_size e)"
  shows "decode_index_entry options md m (entry_bytes e @ rest) off idx = Inr (entry_of e, rest, off')"
proof -
  let ?n = "word_of_nat (length (bi_first_key e)) :: u32"
  have n: "unat ?n = length (bi_first_key e)"
    using key by (intro unat_of_nat_u32) linarith
  then have nz: "?n \<noteq> 0"
    using key(1) by (metis length_0_conv unat_0)
  have fields: "DecodeFixed32 (entry_bytes e @ rest) = Some ?n"
    "DecodeFixed64 (drop 4 (entry_bytes e @ rest)) = Some off"
    "DecodeFixed32 (drop 12 (entry_bytes e @ rest)) = Some (bi_block_size e)"
    "drop 16 (entry_bytes e @ rest) = bi_first_key e @ rest"
    by (simp_all add: entry_bytes_def dec_put blk(3))
  have add: "CheckedAdd off (ucast (bi_block_size e)) = Some off'"
    using off' unat_lt_u64 [of off'] by (simp add: CheckedAdd_Some_iff)
  have le: "ucast (bi_block_size e) \<le> m"
    using blk(2) by (simp add: word_le_nat_alt)
  show ?thesis
    unfolding decode_index_entry_def Let_def fields or_fail_simps n
    using nz key blk(1) within sorted add le
    by (auto simp: entry_of_def substr_def blk(3) not_le)
qed

text \<open>The limits the options put on a block the builder writes.\<close>

lemma block_fits_maximum:
  assumes "table_limits options" and "block_fits options rs"
  shows "20 + length (block_payload rs) \<le>
    20 + max (sstable_block_size options) (32 + max_key_size options + max_value_size options)"
proof (cases "length rs \<le> 1")
  case True
  then consider "rs = []" | r where "rs = [r]"
    by (cases rs) auto
  then show ?thesis
    using assms(2)
    by cases (auto simp: block_fits_def encodable_def ValidateWalRecord_ok_iff ValidateLengths_ok_iff)
qed (use assms(2) in \<open>auto simp: block_fits_def\<close>)

lemma block_fits_hd:
  assumes "block_fits options rs" and "rs \<noteq> []"
  shows "r_key (hd rs) \<noteq> []" and "length (r_key (hd rs)) \<le> max_key_size options"
    and "length (r_key (hd rs)) \<le> u32_max"
proof -
  have "encodable options (wal_of (hd rs))"
    using assms by (cases rs) (auto simp: block_fits_def)
  then show "r_key (hd rs) \<noteq> []" "length (r_key (hd rs)) \<le> max_key_size options"
    "length (r_key (hd rs)) \<le> u32_max"
    by (auto simp: encodable_def ValidateWalRecord_ok_iff ValidateLengths_ok_iff)
qed

lemma decode_built_entries:
  assumes limits: "table_limits options"
    and m: "unat m = 20 + max (sstable_block_size options) (32 + max_key_size options + max_value_size options)"
    and md: "md_data_offset md = 32" "32 + unat (md_data_size md) \<le> u64_max"
  shows "\<forall>rs \<in> set bss. rs \<noteq> [] \<and> block_fits options rs \<Longrightarrow> sorted_wrt (<) (map (\<lambda>rs. r_key (hd rs)) bss) \<Longrightarrow>
     (idx \<noteq> [] \<Longrightarrow> \<forall>rs \<in> set bss. ix_first_key (last idx) < r_key (hd rs)) \<Longrightarrow>
     32 \<le> off \<Longrightarrow> off + length (data_bytes bss) = 32 + unat (md_data_size md) \<Longrightarrow>
     decode_index_entries options md m (length bss) (index_payload (built_entries off bss)) (word_of_nat off) idx =
       Inr ([], word_of_nat (off + length (data_bytes bss)), idx @ map entry_of (built_entries off bss))"
proof (induction bss arbitrary: off idx)
  case (Cons rs bss)
  let ?e = "\<lparr>bi_first_key = r_key (hd rs), bi_block_offset = word_of_nat off,
      bi_block_size = word_of_nat (length (block_bytes rs))\<rparr>"
  let ?off = "off + length (block_bytes rs)"
  have rs: "rs \<noteq> []" "block_fits options rs"
    using Cons.prems(1) by simp_all
  have bound: "?off \<le> 32 + unat (md_data_size md)"
    using Cons.prems(5) by simp
  have offs: "unat (word_of_nat off :: u64) = off" "unat (word_of_nat ?off :: u64) = ?off"
    using bound md(2) by (intro unat_of_nat_u64; simp)+
  have size: "unat (bi_block_size ?e) = length (block_bytes rs)"
    using rs(2) by (simp add: block_fits_def unat_of_nat_u32 del: of_nat_add)
  have "decode_index_entry options md m (entry_bytes ?e @ index_payload (built_entries ?off bss))
      (word_of_nat off) idx = Inr (entry_of ?e, index_payload (built_entries ?off bss), word_of_nat ?off)"
  proof (rule decode_index_entry_bytes)
    show "max_key_size options \<le> u32_max"
      using limits by (simp add: table_limits_def)
    show "20 \<le> unat (bi_block_size ?e)"
      unfolding size by simp
    show "unat (bi_block_size ?e) \<le> unat m"
      unfolding size m using block_fits_maximum [OF limits rs(2)] by simp
    show "RegionWithin (word_of_nat off) (ucast (bi_block_size ?e)) (md_data_offset md) (md_data_size md)"
      unfolding RegionWithin_iff unat_ucast_u32 size offs md(1)
      using bound md(2) Cons.prems(4) by simp
    show "unat (word_of_nat ?off :: u64) = unat (word_of_nat off :: u64) + unat (bi_block_size ?e)"
      unfolding offs size ..
  qed (use Cons.prems(3) block_fits_hd [OF rs(2,1)] in simp_all)
  moreover have "decode_index_entries options md m (length bss) (index_payload (built_entries ?off bss))
      (word_of_nat ?off) (idx @ [entry_of ?e]) =
      Inr ([], word_of_nat (?off + length (data_bytes bss)), (idx @ [entry_of ?e]) @ map entry_of (built_entries ?off bss))"
    using Cons.prems by (intro Cons.IH) (auto simp: entry_of_def)
  ultimately show ?case
    by (simp add: add.assoc del: of_nat_add block_lengths)
qed simp

section \<open>Header, footer and filter\<close>

lemma length_encode_header [simp]: "length (encode_header generation n k) = 32"
  by (simp add: encode_header_def Let_def)

lemma length_encode_footer [simp]: "length (encode_footer md) = 104"
  by (simp add: encode_footer_def Let_def)

lemma header_bytes:
  assumes "generation \<noteq> 0" and "(word_of_nat n :: u64) \<noteq> 0" and "(word_of_nat k :: u32) \<noteq> 0"
  shows "decode_table_header (encode_header generation n k) = Inr (generation, word_of_nat n, word_of_nat k)"
proof -
  have 32: "unat (32 :: u16) = 32" by simp
  show ?thesis
    using assms
    by (simp add: encode_header_def decode_table_header_def Let_def codec_simps nth_append substr_def 32)
qed

text \<open>The fields a footer stores.\<close>

definition stored :: "SSTableMetadata \<Rightarrow> SSTableMetadata" where
  "stored md = empty_SSTableMetadata\<lparr>md_generation := md_generation md, md_record_count := md_record_count md,
        md_minimum_sequence := md_minimum_sequence md, md_maximum_sequence := md_maximum_sequence md,
        md_file_size := md_file_size md, md_data_offset := md_data_offset md, md_data_size := md_data_size md,
        md_index_offset := md_index_offset md, md_index_size := md_index_size md,
        md_bloom_offset := md_bloom_offset md, md_bloom_size := md_bloom_size md,
        md_block_count := md_block_count md\<rparr>"

lemma footer_bytes:
  assumes "md_minimum_sequence md \<noteq> 0" and "md_minimum_sequence md \<le> md_maximum_sequence md"
    and "md = stored md"
  shows "decode_table_footer (encode_footer md) (md_file_size md)
      (md_generation md, md_record_count md, md_block_count md) = Inr md"
proof -
  have 104: "unat (104 :: u16) = 104" by simp
  show ?thesis
    using assms(1,2)
    by (simp add: encode_footer_def decode_table_footer_def Let_def codec_simps nth_append substr_def 104
        not_less stored_def [symmetric] assms(3) [symmetric])
qed

lemma add_keys_add_all: "add_keys rs = bloom.add_all (map r_key rs)"
proof
  show "add_keys rs flt = bloom.add_all (map r_key rs) flt" for flt
    by (induction rs arbitrary: flt) (auto simp: and_then_def split: sum.split)
qed

lemma add_keys_frame:
  "add_keys rs flt = Inr flt' \<Longrightarrow> FilterShapeIsValid flt \<Longrightarrow>
     FilterShapeIsValid flt' \<and> key_count flt' = key_count flt + word_of_nat (length rs)"
proof (induction rs arbitrary: flt)
  case (Cons r rs)
  then obtain flt1 where "Bloom_Add (r_key r) flt = Inr flt1" "add_keys rs flt1 = Inr flt'"
    by (auto simp: and_then_Inr)
  then show ?case
    using Cons.IH [of flt1] Bloom_Add_frame [of "r_key r" flt flt1] by simp
qed simp

lemma encode_bloom_Inr:
  assumes "encode_bloom fm rs options = Inr bs"
  shows "if bloom_filter_enabled options
    then \<exists>flt. bs = bloom_bytes flt \<and> FilterShapeIsValid flt \<and>
      key_count flt = word_of_nat (length rs) \<and> (\<forall>r \<in> set rs. MayContain flt (r_key r))
    else bs = []"
proof (cases "bloom_filter_enabled options")
  case True
  then obtain flt0 flt where flt0: "Bloom_Create fm (length rs) (bloom_false_positive_rate options) = Inr flt0"
      and flt: "add_keys rs flt0 = Inr flt" and "EncodeBloomFilter flt = Inr bs"
    using assms by (auto simp: encode_bloom_def and_then_Inr)
  then show ?thesis
    using True Bloom_Create_valid [OF flt0] add_keys_frame [OF flt]
      bloom.no_false_negatives [of "map r_key rs" flt0 flt]
    by (auto simp: EncodeBloomFilter_Inr_iff add_keys_add_all)
qed (use assms in \<open>simp add: encode_bloom_def\<close>)

section \<open>The encoded table\<close>

text \<open>The metadata of the table with the given blocks, and the parts \<open>EncodeTable\<close> puts together.\<close>

lemma table_layout_Inr:
  assumes "table_layout generation n b il bl = Inr md"
    and fits: "32 + length (tb_data b) + il + bl + 104 \<le> u64_max"
  shows "md_generation md = generation" "md_record_count md = word_of_nat n"
    "md_minimum_sequence md = tb_minimum_sequence b" "md_maximum_sequence md = tb_maximum_sequence b"
    "md_block_count md = word_of_nat (length (tb_index b))"
    "md_data_offset md = 32" "unat (md_data_size md) = length (tb_data b)"
    "unat (md_index_size md) = il" "unat (md_bloom_size md) = bl"
    "unat (md_index_offset md) = 32 + length (tb_data b)"
    "unat (md_bloom_offset md) = 32 + length (tb_data b) + il"
    "unat (md_file_size md) = 32 + length (tb_data b) + il + bl + 104"
    "md = stored md"
proof -
  obtain io bo fo fs where adds: "CheckedAdd (word_of_nat 32) (word_of_nat (length (tb_data b))) = Some io"
      "CheckedAdd io (word_of_nat il) = Some bo" "CheckedAdd bo (word_of_nat bl) = Some fo"
      "CheckedAdd fo (word_of_nat 104) = Some fs"
    and md: "md = empty_SSTableMetadata\<lparr>md_generation := generation, md_record_count := word_of_nat n,
           md_minimum_sequence := tb_minimum_sequence b, md_maximum_sequence := tb_maximum_sequence b,
           md_file_size := fs, md_data_offset := word_of_nat 32, md_data_size := word_of_nat (length (tb_data b)),
           md_index_offset := io, md_index_size := word_of_nat il, md_bloom_offset := bo,
           md_bloom_size := word_of_nat bl, md_block_count := word_of_nat (length (tb_index b))\<rparr>"
    using assms(1) unfolding table_layout_def Let_def or_fail_Inr by (auto split: if_splits)
  have sizes: "unat (word_of_nat (length (tb_data b)) :: u64) = length (tb_data b)"
    "unat (word_of_nat il :: u64) = il" "unat (word_of_nat bl :: u64) = bl"
    using fits by (simp_all add: unat_of_nat_u64)
  have offs: "unat io = 32 + length (tb_data b)" "unat bo = 32 + length (tb_data b) + il"
    "unat fs = 32 + length (tb_data b) + il + bl + 104"
    using adds by (simp_all add: CheckedAdd_Some_iff sizes)
  show "md_generation md = generation" "md_record_count md = word_of_nat n"
    "md_minimum_sequence md = tb_minimum_sequence b" "md_maximum_sequence md = tb_maximum_sequence b"
    "md_block_count md = word_of_nat (length (tb_index b))" "md_data_offset md = 32"
    "unat (md_data_size md) = length (tb_data b)"
    "unat (md_index_size md) = il" "unat (md_bloom_size md) = bl"
    "unat (md_index_offset md) = 32 + length (tb_data b)"
    "unat (md_bloom_offset md) = 32 + length (tb_data b) + il"
    "unat (md_file_size md) = 32 + length (tb_data b) + il + bl + 104"
    using offs sizes by (simp_all add: md)
  show "md = stored md"
    by (simp add: md stored_def)
qed

text \<open>The file as the concatenation of its regions.\<close>

definition table_bytes :: "u64 \<Rightarrow> MemTableRecord list list \<Rightarrow> bytes \<Rightarrow> SSTableMetadata \<Rightarrow> bytes" where
  "table_bytes generation bss bloom md =
     encode_header generation (length (concat bss)) (length bss) @ data_bytes bss @
     index_frame (built_entries 32 bss) @ bloom @ encode_footer md"

text \<open>What a written table satisfies.\<close>

definition written :: "Options \<Rightarrow> u64 \<Rightarrow> MemTableRecord list list \<Rightarrow> bytes \<Rightarrow> SSTableMetadata \<Rightarrow> bool" where
  "written options generation bss bloom md \<longleftrightarrow>
     table_limits options \<and> generation \<noteq> 0 \<and> concat bss \<noteq> [] \<and>
     (\<forall>rs \<in> set bss. rs \<noteq> [] \<and> block_fits options rs) \<and> length bss \<le> u32_max \<and>
     20 + length (index_payload (built_entries 32 bss)) \<le> kMaximumTableIndexSize \<and>
     md_generation md = generation \<and> md_record_count md = word_of_nat (length (concat bss)) \<and>
     md_minimum_sequence md = fold min (map r_sequence (concat bss)) (- 1) \<and>
     md_maximum_sequence md = fold max (map r_sequence (concat bss)) 0 \<and>
     md_block_count md = word_of_nat (length bss) \<and>
     md_data_offset md = 32 \<and> unat (md_data_size md) = length (data_bytes bss) \<and>
     unat (md_index_size md) = 20 + length (index_payload (built_entries 32 bss)) \<and>
     unat (md_bloom_size md) = length bloom \<and>
     unat (md_index_offset md) = 32 + length (data_bytes bss) \<and>
     unat (md_bloom_offset md) = unat (md_index_offset md) + unat (md_index_size md) \<and>
     unat (md_file_size md) = unat (md_bloom_offset md) + length bloom + 104 \<and> md = stored md"

text \<open>Block and block count limits keep every table below \<open>2\<^sup>6\<^sup>4\<close> bytes.\<close>

lemma data_bytes_length:
  assumes "\<forall>rs \<in> set bss. block_fits options rs" and "length bss \<le> u32_max"
  shows "length (data_bytes bss) \<le> u32_max * u32_max"
proof -
  have "length (block_bytes rs) \<le> u32_max" if "rs \<in> set bss" for rs
    using assms(1) that by (auto simp: block_fits_def block_bytes_def block_prefix_def)
  then have "length (data_bytes bss) \<le> length bss * u32_max"
    by (induction bss) (auto intro: add_mono)
  also have "\<dots> \<le> u32_max * u32_max"
    using assms(2) by (intro mult_right_mono) auto
  finally show ?thesis .
qed

lemma EncodeTable_length:
  assumes run: "EncodeTable fm generation mt options = Inr bs"
  shows "length bs \<le> u64_max"
proof -
  obtain b b' index bloom md where opts: "ok (ValidateTableOptions options)"
      and b: "add_records options (Records mt) empty_TableBuild = Inr b" "FinishBlock b = Inr b'"
      and index: "encode_index (tb_index b') = Inr index"
      and bloom: "encode_bloom fm (Records mt) options = Inr bloom"
      and bs: "bs = encode_header generation (length (Records mt)) (length (tb_index b')) @
           tb_data b' @ index @ bloom @ encode_footer md"
    using run by (auto simp: EncodeTable_def Let_def and_then_Inr MemTable_empty_def split: if_splits)
  obtain bss0 cur where "built options bss0 cur b"
    using add_records_built [OF built_empty b(1)] opts by (auto simp: ValidateTableOptions_ok_iff)
  then obtain bss where inv: "built options bss [] b'"
    using FinishBlock_built [OF _ b(2)] by blast
  then have "length (tb_data b') \<le> u32_max * u32_max"
    using data_bytes_length [of bss options] by (auto simp: built_def)
  moreover have "length index \<le> kMaximumTableIndexSize"
    using index [unfolded encode_index_Inr] by (auto simp: index_frame_def index_prefix_def)
  moreover have "length bloom \<le> 32 + kMaximumBloomFilterSize"
    using encode_bloom_Inr [OF bloom] FilterShape_length by (auto split: if_splits)
  ultimately show ?thesis
    by (simp add: bs)
qed

lemma EncodeTable_written:
  assumes run: "EncodeTable fm generation mt options = Inr bs" and fits: "length bs \<le> u64_max"
  obtains bss bloom md where "bs = table_bytes generation bss bloom md" "concat bss = Records mt"
    "written options generation bss bloom md" "encode_bloom fm (Records mt) options = Inr bloom"
proof -
  obtain b b' index bloom md where g: "generation \<noteq> 0" "entries mt \<noteq> []" "ok (ValidateTableOptions options)"
      and b: "add_records options (Records mt) empty_TableBuild = Inr b" "FinishBlock b = Inr b'"
      and index: "encode_index (tb_index b') = Inr index"
      and bloom: "encode_bloom fm (Records mt) options = Inr bloom"
      and md: "table_layout generation (length (Records mt)) b' (length index) (length bloom) = Inr md"
      and bs: "bs = encode_header generation (length (Records mt)) (length (tb_index b')) @
           tb_data b' @ index @ bloom @ encode_footer md"
    using run by (auto simp: EncodeTable_def Let_def and_then_Inr MemTable_empty_def split: if_splits)
  have limits: "table_limits options"
    using g(3) by (simp add: ValidateTableOptions_ok_iff)
  obtain bss0 cur where "built options bss0 cur b" "concat bss0 @ cur = Records mt"
    using add_records_built [OF built_empty b(1) limits] by auto
  then obtain bss where inv: "built options bss [] b'" and records: "concat bss = Records mt"
    using FinishBlock_built [OF _ b(2)] by (cases "cur = []") (fastforce+)
  note f = built_fields [OF inv] and i = index [unfolded encode_index_Inr f(3)]
  have "32 + length (tb_data b') + length index + length bloom + 104 \<le> u64_max"
    using fits by (simp add: bs)
  note layout = table_layout_Inr [OF md this]
  have "Records mt \<noteq> []"
    using g(2) by (simp add: Records_def)
  then have "written options generation bss bloom md"
    using limits g(1) records inv i layout f by (simp add: written_def built_def)
  then show thesis
    using that bs bloom records i f by (simp add: table_bytes_def)
qed

lemma regions_of:
  assumes "bs = table_bytes generation bss bloom md" and "written options generation bss bloom md"
  shows "length bs = unat (md_file_size md)" and "156 \<le> length bs"
    and "substr bs 0 32 = encode_header generation (length (concat bss)) (length bss)"
    and "substr bs (length bs - 104) 104 = encode_footer md"
    and "index_bytes bs md = index_frame (built_entries 32 bss)"
    and "substr bs (unat (md_bloom_offset md)) (unat (md_bloom_size md)) = bloom"
proof -
  show len: "length bs = unat (md_file_size md)"
    using assms by (simp add: table_bytes_def written_def)
  have "20 \<le> length (data_bytes bss)"
    using assms(2) by (cases bss) (simp_all add: written_def)
  then show "156 \<le> length bs"
    using assms unfolding len by (simp add: written_def)
  show "substr bs 0 32 = encode_header generation (length (concat bss)) (length bss)"
    by (simp add: assms(1) table_bytes_def substr_def)
  have "length bs - 104 = length (encode_header generation (length (concat bss)) (length bss) @
      data_bytes bss @ index_frame (built_entries 32 bss) @ bloom)"
    by (simp add: assms(1) table_bytes_def)
  then show "substr bs (length bs - 104) 104 = encode_footer md"
    unfolding assms(1) table_bytes_def by (simp add: substr_def)
  show "index_bytes bs md = index_frame (built_entries 32 bss)"
    "substr bs (unat (md_bloom_offset md)) (unat (md_bloom_size md)) = bloom"
    using assms(2) unfolding assms(1) table_bytes_def by (simp_all add: written_def substr_def index_bytes_def)
qed

lemma fold_min_le: "x \<in> set xs \<Longrightarrow> fold min xs (a :: u64) \<le> x"
  by (metis Min.coboundedI Min.set_eq_fold finite_set list.set_intros(2))

lemma fold_max_ge: "x \<in> set xs \<Longrightarrow> x \<le> fold max xs (a :: u64)"
  by (metis Max.coboundedI Max.set_eq_fold finite_set list.set_intros(2))

lemma fold_min_in: "fold min xs (a :: u64) \<in> insert a (set xs)"
  by (metis List.finite_set Min_in Min.set_eq_fold insert_not_empty list.set(2))

lemma written_count:
  assumes w: "written options generation bss bloom md"
  shows "32 * length (concat bss) \<le> length (data_bytes bss)" and "length (data_bytes bss) \<le> u64_max"
    and "unat (md_record_count md) = length (concat bss)" and "unat (md_block_count md) = length bss"
proof -
  show len: "32 * length (concat bss) \<le> length (data_bytes bss)"
    by (induction bss) (use length_block_payload in \<open>simp_all add: add_mono trans_le_add2\<close>)
  show data: "length (data_bytes bss) \<le> u64_max"
    using w unat_lt_u64 [of "md_data_size md"] by (simp add: written_def)
  show "unat (md_record_count md) = length (concat bss)"
    using w len data by (simp add: written_def unat_of_nat_u64)
  show "unat (md_block_count md) = length bss"
    using w by (simp add: written_def unat_of_nat_u32)
qed

lemma written_sequences:
  assumes w: "written options generation bss bloom md"
  shows "md_minimum_sequence md \<noteq> 0" and "md_minimum_sequence md \<le> md_maximum_sequence md"
proof -
  have "\<forall>r \<in> set (concat bss). r_sequence r \<noteq> 0"
    using w by (auto simp: written_def block_fits_def list_all_iff encodable_def ValidateWalRecord_ok_iff)
  then show "md_minimum_sequence md \<noteq> 0"
    using w fold_min_in [of "map r_sequence (concat bss)" "- 1"] by (auto simp: written_def)
  have "concat bss \<noteq> []"
    using w unfolding written_def by blast
  then obtain r where "r \<in> set (concat bss)"
    by (meson last_in_set)
  then show "md_minimum_sequence md \<le> md_maximum_sequence md"
    using w fold_min_le [of "r_sequence r" "map r_sequence (concat bss)" "- 1"]
      fold_max_ge [of "r_sequence r" "map r_sequence (concat bss)" 0]
    by (auto simp: written_def)
qed

lemma written_footer:
  assumes bs: "bs = table_bytes generation bss bloom md" and w: "written options generation bss bloom md"
    and bl: "bloom = [] \<or> (\<exists>flt. bloom = bloom_bytes flt \<and> FilterShapeIsValid flt)"
  shows "footer_of bs md"
proof -
  note r = regions_of [OF bs w] and c = written_count [OF w]
  have nz: "(word_of_nat (length (concat bss)) :: u64) \<noteq> 0" "(word_of_nat (length bss) :: u32) \<noteq> 0"
    using w c(3,4) by (auto simp: written_def)
  have "md = stored md"
    using w by (simp add: written_def)
  note footer = footer_bytes [OF written_sequences [OF w] this]
  have hdr: "decode_table_header (substr bs 0 32) = Inr (md_generation md, md_record_count md, md_block_count md)"
    using header_bytes [OF _ nz, of generation] w unfolding r(3) by (simp add: written_def)
  have "md_file_size md = word_of_nat (length bs)"
    unfolding r(1) by simp
  then have "decode_table_footer (substr bs (length bs - 104) 104) (word_of_nat (length bs))
      (md_generation md, md_record_count md, md_block_count md) = Inr md"
    using footer unfolding r(4) by simp
  moreover have "\<not> regions_invalid md"
  proof -
    have sum: "unat (md_bloom_offset md + md_bloom_size md) = unat (md_bloom_offset md) + unat (md_bloom_size md)"
      using w unat_lt_u64 [of "md_file_size md"] unat_plus_u64 [of "md_bloom_offset md" "md_bloom_size md"]
      by (simp add: written_def)
    have "CheckedAdd (md_data_offset md) (md_data_size md) = Some (md_index_offset md)"
      "CheckedAdd (md_index_offset md) (md_index_size md) = Some (md_bloom_offset md)"
      "CheckedAdd (md_bloom_offset md) (md_bloom_size md) = Some (md_bloom_offset md + md_bloom_size md)"
      "CheckedAdd (md_bloom_offset md + md_bloom_size md) (word_of_nat 104) = Some (md_file_size md)"
      unfolding CheckedAdd_Some_iff sum using w unat_lt_u64 [of "md_file_size md"] by (simp_all add: written_def)
    moreover have "md_data_size md \<noteq> 0"
    proof -
      have "0 < unat (md_data_size md)"
        using w by (cases bss) (simp_all add: written_def)
      then show ?thesis by (simp add: unat_gt_0)
    qed
    moreover have "md_bloom_size md = 0 \<or> 32 \<le> unat (md_bloom_size md)"
      "unat (md_bloom_size md) \<le> 32 + kMaximumBloomFilterSize"
      using bl w FilterShape_length by (auto simp: written_def unat_eq_0 [symmetric])
    ultimately show ?thesis
      using w unfolding regions_invalid_def by (auto simp: written_def)
  qed
  ultimately show ?thesis
    using hdr r(2) by (auto simp: footer_of_def)
qed

lemma index_payload_bound:
  "\<forall>rs \<in> set bss. rs \<noteq> [] \<and> block_fits options rs \<Longrightarrow>
     length (index_payload (built_entries off bss)) \<le> length bss * (16 + max_key_size options)"
proof (induction bss arbitrary: off)
  case (Cons rs bss)
  then show ?case
    using block_fits_hd(2) [of options rs] Cons.IH by (simp add: add_mono)
qed simp

lemma written_index:
  assumes bs: "bs = table_bytes generation bss bloom md" and w: "written options generation bss bloom md"
  shows "ok (check_index_size options md)" and "check_index_header md (index_bytes bs md) = Inr ()"
proof -
  note r = regions_of [OF bs w] and c = written_count [OF w]
  let ?p = "index_payload (built_entries 32 bss)"
  have mk: "16 + max_key_size options \<le> u32_max" "max_key_size options \<le> u32_max"
    using w by (simp_all add: written_def table_limits_def)
  obtain me where me: "CheckedAdd (word_of_nat kIndexEntryFixedSize) (word_of_nat (max_key_size options)) = Some me"
      "unat me = 16 + max_key_size options"
    using mk CheckedAdd_None_iff [of "word_of_nat kIndexEntryFixedSize" "word_of_nat (max_key_size options)"]
    by (cases "CheckedAdd (word_of_nat kIndexEntryFixedSize) (word_of_nat (max_key_size options))")
      (auto simp: CheckedAdd_Some_iff unat_of_nat_u64)
  let ?prod = "length bss * (16 + max_key_size options)"
  have prod: "20 + ?prod \<le> u64_max"
  proof -
    have "?prod \<le> u32_max * u32_max"
      using w mk(1) by (intro mult_mono) (simp_all add: written_def)
    then show ?thesis by simp
  qed
  have bc: "unat (ucast (md_block_count md) :: u64) = length bss"
    using c(4) by simp
  have mult: "unat (ucast (md_block_count md) * me :: u64) = ?prod"
    using prod unat_word_ariths(2) [of "ucast (md_block_count md)" me] bc me(2) by simp
  then have total: "unat (20 + ucast (md_block_count md) * me :: u64) = 20 + ?prod"
    using prod unat_plus_u64 [of 20 "ucast (md_block_count md) * me"] by simp
  have "length bss \<le> (u64_max - 20) div (16 + max_key_size options)"
    using prod by (simp add: less_eq_div_iff_mult_less_eq)
  then have "\<not> (ucast (md_block_count md) :: u64) > (- 1 - 20) div me"
    using bc me(2) u64_max_minus [of 20] by (simp add: word_less_nat_alt unat_div_distrib)
  moreover have "\<not> md_index_size md > 20 + ucast (md_block_count md) * me"
    using w index_payload_bound [of bss options 32] total by (simp add: word_less_nat_alt written_def)
  ultimately show "ok (check_index_size options md)"
    using me(1) by (simp add: check_index_size_def)
  have size: "(ucast (word_of_nat (20 + length ?p) :: u32) :: u64) = md_index_size md"
    "(ucast (word_of_nat (length ?p) :: u32) :: u64) = md_index_size md - 20"
    using w unat_sub_if_size
    by (simp_all add: written_def word_unat_eq_iff unat_of_nat_u32 unat_sub_if' word_le_nat_alt del: of_nat_add)
  have "DecodeFixed32 (drop 4 (index_frame (built_entries 32 bss))) = Some (word_of_nat (20 + length ?p))"
    "DecodeFixed32 (drop 8 (index_frame (built_entries 32 bss))) = Some (word_of_nat (length bss))"
    "DecodeFixed32 (drop 12 (index_frame (built_entries 32 bss))) = Some (word_of_nat (length ?p))"
    "DecodeFixed32 (drop 16 (index_frame (built_entries 32 bss))) =
       Some (ChecksumParts (index_prefix (built_entries 32 bss)) ?p)"
    "take 4 (index_frame (built_entries 32 bss)) = kIndexMagic"
    "substr (index_frame (built_entries 32 bss)) 0 16 = index_prefix (built_entries 32 bss)"
    "drop 20 (index_frame (built_entries 32 bss)) = ?p"
    by (simp_all add: index_frame_def index_prefix_def dec_put substr_def del: of_nat_add)
  then show "check_index_header md (index_bytes bs md) = Inr ()"
    using size w unfolding r(5) check_index_header_def Let_def by (simp add: written_def del: of_nat_add)
qed

lemma sorted_blocks_firsts:
  "records_sorted (concat bss) \<Longrightarrow> \<forall>rs \<in> set bss. rs \<noteq> [] \<Longrightarrow>
     sorted_wrt (<) (map (\<lambda>rs. r_key (hd rs)) bss)"
  by (induction bss) (fastforce simp: sorted_wrt_append)+

lemma written_load_index:
  assumes bs: "bs = table_bytes generation bss bloom md" and w: "written options generation bss bloom md"
    and sorted: "records_sorted (concat bss)"
  shows "load_index options (bloom_metadata md flt) (index_bytes bs md) =
    Inr (map entry_of (built_entries 32 bss))"
proof -
  let ?md = "bloom_metadata md flt"
  note r = regions_of [OF bs w] and c = written_count [OF w]
  have limits: "table_limits options"
    using w by (simp add: written_def)
  obtain m where m: "MaximumBlockSize options = Inr m"
      "unat m = 20 + max (sstable_block_size options) (32 + max_key_size options + max_value_size options)"
    using MaximumBlockSize_value [OF limits] by blast
  have off: "unat (md_index_offset md) = 32 + length (data_bytes bss)"
    using w by (simp add: written_def)
  then have end': "word_of_nat (32 + length (data_bytes bss)) = md_index_offset md"
    by (metis of_nat_unat ucast_id)
  have "decode_index_entries options ?md m (length bss) (index_payload (built_entries 32 bss)) (word_of_nat 32) [] =
       Inr ([], word_of_nat (32 + length (data_bytes bss)), [] @ map entry_of (built_entries 32 bss))"
  proof (rule decode_built_entries [OF limits m(2)])
    show "32 + unat (md_data_size ?md) \<le> u64_max" "32 + length (data_bytes bss) = 32 + unat (md_data_size ?md)"
      using w unat_lt_u64 [of "md_index_offset md"] by (simp_all add: written_def)
    show "\<forall>rs \<in> set bss. rs \<noteq> [] \<and> block_fits options rs" "md_data_offset ?md = 32"
      using w by (simp_all add: written_def)
    then show "sorted_wrt (<) (map (\<lambda>rs. r_key (hd rs)) bss)"
      using sorted by (intro sorted_blocks_firsts) auto
  qed simp_all
  moreover have "drop 20 (index_bytes bs md) = index_payload (built_entries 32 bss)"
    unfolding r(5) by (simp add: index_frame_def)
  moreover have "md_data_offset md = word_of_nat 32"
    using w by (simp add: written_def)
  ultimately show ?thesis
    using m(1) c(4) end' by (simp add: load_index_def del: of_nat_add of_nat_numeral)
qed

text \<open>The filter the reader loads.\<close>

lemma written_bloom:
  assumes bs: "bs = table_bytes generation bss bloom md" and w: "written options generation bss bloom md"
    and "encode_bloom fm (concat bss) options = Inr bloom"
  obtains flt where "bloom_of bs md flt" "bloom = [] \<or> (\<exists>f. bloom = bloom_bytes f \<and> FilterShapeIsValid f)"
    "\<forall>f. flt = Some f \<longrightarrow> (\<forall>r \<in> set (concat bss). MayContain f (r_key r))"
    "bloom_filter_enabled options = (flt \<noteq> None)"
proof (cases "bloom_filter_enabled options")
  case True
  then obtain f where f: "bloom = bloom_bytes f" "FilterShapeIsValid f"
      "key_count f = word_of_nat (length (concat bss))" "\<forall>r \<in> set (concat bss). MayContain f (r_key r)"
    using encode_bloom_Inr [OF assms(3)] by auto
  have "0 < unat (md_bloom_size md)"
    using w f(1) by (simp add: written_def)
  then have "md_bloom_size md \<noteq> 0"
    by (simp add: unat_gt_0)
  then show thesis
    using that [of "Some f"] True f w regions_of(6) [OF bs w] bloom_roundtrip [OF f(2)]
    by (auto simp: bloom_of_def written_def)
next
  case False
  then have "bloom = []"
    using encode_bloom_Inr [OF assms(3)] by simp
  moreover have "md_bloom_size md = 0"
    using w calculation by (simp add: written_def unat_eq_0)
  ultimately show thesis
    using that [of None] False by (simp add: bloom_of_def)
qed

text \<open>Every region named by the index is the block it was built from.\<close>

lemma built_regions:
  "length pre = off \<Longrightarrow> off + length (data_bytes bss) \<le> u64_max \<Longrightarrow> \<forall>rs \<in> set bss. block_fits options rs \<Longrightarrow>
     list_all2 (\<lambda>e rs. unat (bi_block_offset e) + unat (bi_block_size e) \<le> off + length (data_bytes bss) \<and>
         substr (pre @ data_bytes bss @ rest) (unat (bi_block_offset e)) (unat (bi_block_size e)) = block_bytes rs \<and>
         bi_block_size e = word_of_nat (length (block_bytes rs)) \<and> bi_first_key e = r_key (hd rs))
       (built_entries off bss) bss"
proof (induction bss arbitrary: pre off)
  case (Cons rs bss)
  let ?off = "off + length (block_bytes rs)"
  have "unat (word_of_nat off :: u64) = off"
    using Cons.prems(2) by (intro unat_of_nat_u64) simp
  moreover have "unat (word_of_nat (length (block_bytes rs)) :: u32) = length (block_bytes rs)"
    using Cons.prems(3) by (intro unat_of_nat_u32) (simp add: block_fits_def)
  ultimately show ?case
    using Cons.IH [of "pre @ block_bytes rs" ?off] Cons.prems
    by (simp add: substr_def add.assoc del: block_lengths of_nat_add)
qed simp

section \<open>Verification succeeds\<close>

lemma verify_block_succeeds:
  assumes "rs \<noteq> []" and "r_key (hd rs) = ix_first_key e"
    and "v_previous_key v \<noteq> [] \<Longrightarrow> v_previous_key v < r_key (hd rs)"
    and "\<forall>flt. bloom = Some flt \<longrightarrow> (\<forall>r \<in> set rs. MayContain flt (r_key r))"
    and "unat (v_records v) + length rs \<le> u64_max"
  shows "\<exists>v'. verify_block e n bloom rs v = Inr v'"
proof -
  let ?v = "v\<lparr>v_minimum_sequence := fold min (map r_sequence rs) (v_minimum_sequence v),
            v_maximum_sequence := fold max (map r_sequence rs) (v_maximum_sequence v)\<rparr>"
  have "verify_records bloom rs v = Inr ?v"
    using assms(4) by (simp add: verify_records_Inr)
  moreover obtain c where "CheckedAdd (v_records ?v) (word_of_nat (length rs)) = Some c"
    using assms(5) CheckedAdd_None_iff [of "v_records v" "word_of_nat (length rs)"]
    by (cases "CheckedAdd (v_records ?v) (word_of_nat (length rs))") (auto simp: unat_of_nat_u64)
  moreover have "\<not> (rs = [] \<or> r_key (hd rs) \<noteq> ix_first_key e \<or>
         (v_previous_key v \<noteq> [] \<and> r_key (hd rs) \<le> v_previous_key v))"
    using assms(1-3) by auto
  ultimately show ?thesis
    unfolding verify_block_def by simp
qed

lemma verify_blocks_succeed:
  "benign_file (rd_file rd) \<Longrightarrow> \<forall>i \<in> set is. i < length (rd_index rd) \<and> block_sound rd (rd_index rd ! i) \<Longrightarrow>
   records_sorted (concat (map (\<lambda>i. block_records rd (rd_index rd ! i)) is)) \<Longrightarrow>
   (v_previous_key v \<noteq> [] \<longrightarrow>
      (\<forall>i \<in> set is. \<forall>r \<in> set (block_records rd (rd_index rd ! i)). v_previous_key v < r_key r)) \<Longrightarrow>
   (\<forall>flt. rd_bloom rd = Some flt \<longrightarrow>
      (\<forall>i \<in> set is. \<forall>r \<in> set (block_records rd (rd_index rd ! i)). MayContain flt (r_key r))) \<Longrightarrow>
   unat (v_records v) + length (concat (map (\<lambda>i. block_records rd (rd_index rd ! i)) is)) \<le> u64_max \<Longrightarrow>
     \<exists>rd' v'. verify_blocks is rd v = Inr (rd', v') \<and> benign_file (rd_file rd')"
proof (induction "is" arbitrary: rd v)
  case (Cons i "is")
  let ?rs = "block_records rd (rd_index rd ! i)" and ?e = "rd_index rd ! i"
  have i: "i < length (rd_index rd)" "block_sound rd ?e"
    using Cons.prems(2) by simp_all
  obtain rd1 st where r: "ReadBlock i empty_SSTableReadStats rd = (rd1, st, Inr ?rs)"
      "same_table rd rd1" "benign_file (rd_file rd1)"
    by (rule ReadBlock_benign [OF Cons.prems(1) i])
  note same = r(2) [unfolded same_table_def] and content = same_table_block_of [OF r(2)] same_table_content [OF r(2)]
  obtain rs where rs: "block_of rd ?e = Inr rs" "?rs = rs" "r_key (hd rs) = ix_first_key ?e"
    using i(2) by (auto simp: block_sound_def block_records_def)
  have ne: "?rs \<noteq> []"
    using decode_block_sound(1) [OF rs(1) [unfolded block_of_def]] rs(2) by simp
  have bloom: "\<forall>flt. rd_bloom rd = Some flt \<longrightarrow> (\<forall>r \<in> set ?rs. MayContain flt (r_key r))"
    using Cons.prems(5) by simp
  obtain v1 where v1: "verify_block ?e i (rd_bloom rd) ?rs v = Inr v1"
  proof -
    have "r_key (hd ?rs) = ix_first_key ?e"
      using rs by simp
    moreover have "v_previous_key v \<noteq> [] \<Longrightarrow> v_previous_key v < r_key (hd ?rs)"
      using Cons.prems(4) ne by simp
    moreover have "unat (v_records v) + length ?rs \<le> u64_max"
      using Cons.prems(6) by simp
    ultimately show thesis
      using verify_block_succeeds [OF ne _ _ bloom, of ?e v i] that by blast
  qed
  have ver: "verified ?rs v v1"
    using verify_block_verified [OF rs(1)] v1 rs(2) by simp
  have next': "\<forall>j \<in> set is. \<forall>q \<in> set (block_records rd (rd_index rd ! j)). r_key (last ?rs) < r_key q"
    using Cons.prems(3) ne by (auto simp: sorted_wrt_append)
  have "\<exists>rd' v'. verify_blocks is rd1 v1 = Inr (rd', v') \<and> benign_file (rd_file rd')"
  proof (rule Cons.IH [OF r(3)])
    show "\<forall>j \<in> set is. j < length (rd_index rd1) \<and> block_sound rd1 (rd_index rd1 ! j)"
      using Cons.prems(2) same content(4) by simp
    show "records_sorted (concat (map (\<lambda>i. block_records rd1 (rd_index rd1 ! i)) is))"
      using Cons.prems(3) same content(2) by (simp add: sorted_wrt_append)
    show "v_previous_key v1 \<noteq> [] \<longrightarrow>
        (\<forall>j \<in> set is. \<forall>q \<in> set (block_records rd1 (rd_index rd1 ! j)). v_previous_key v1 < r_key q)"
      using ver next' ne same content(2) by (simp add: verified_def)
    show "\<forall>flt. rd_bloom rd1 = Some flt \<longrightarrow>
        (\<forall>j \<in> set is. \<forall>q \<in> set (block_records rd1 (rd_index rd1 ! j)). MayContain flt (r_key q))"
      using Cons.prems(5) same content(2) by simp
    show "unat (v_records v1) + length (concat (map (\<lambda>i. block_records rd1 (rd_index rd1 ! i)) is)) \<le> u64_max"
      using Cons.prems(6) ver same content(2) by (simp add: verified_def)
  qed
  then show ?case
    using r(1) v1 same by simp
qed auto

lemma verify_table_succeeds:
  assumes "benign_file (rd_file rd)" and "rd_index rd \<noteq> []" and "\<forall>e \<in> set (rd_index rd). block_sound rd e"
    and "records_sorted (table_records rd)"
    and "\<forall>flt. rd_bloom rd = Some flt \<longrightarrow> (\<forall>r \<in> set (table_records rd). MayContain flt (r_key r))"
    and "unat (md_record_count (rd_metadata rd)) = length (table_records rd)"
    and "md_minimum_sequence (rd_metadata rd) = fold min (map r_sequence (table_records rd)) (- 1)"
    and "md_maximum_sequence (rd_metadata rd) = fold max (map r_sequence (table_records rd)) 0"
  shows "\<exists>rd'. verify_table rd = Inr rd' \<and> benign_file (rd_file rd')"
proof -
  let ?is = "[0..<length (rd_index rd)]"
  have all: "concat (map (\<lambda>i. block_records rd (rd_index rd ! i)) ?is) = table_records rd"
    unfolding table_records_def by (rule arg_cong [where f = concat], rule nth_equalityI) simp_all
  have mem: "r \<in> set (table_records rd)" if "i < length (rd_index rd)" "r \<in> set (block_records rd (rd_index rd ! i))" for i r
    using that by (auto simp: table_records_def)
  obtain rd1 v where v: "verify_blocks ?is rd empty_Verified = Inr (rd1, v)" "benign_file (rd_file rd1)"
    using verify_blocks_succeed [OF assms(1), of ?is empty_Verified] assms(3-6) mem
      unat_lt_u64 [of "md_record_count (rd_metadata rd)"]
    by (auto simp: all empty_Verified_def)
  have "verified (table_records rd) empty_Verified v"
    using verify_blocks_sound [OF v(1)] by (simp add: all)
  then have "v_records v = md_record_count (rd_metadata rd)"
      "v_minimum_sequence v = md_minimum_sequence (rd_metadata rd)"
      "v_maximum_sequence v = md_maximum_sequence (rd_metadata rd)"
    using assms(6-8) by (auto simp: verified_def empty_Verified_def word_unat_eq_iff)
  then show ?thesis
    using v by (simp add: verify_table_def)
qed

lemma verify_table_generation:
  "verify_table rd = Inr rd' \<Longrightarrow> md_generation (rd_metadata rd') = md_generation (rd_metadata rd)"
  by (auto simp: verify_table_def Let_def and_then_Inr split: if_splits)

lemma written_blocks:
  assumes bs: "bs = table_bytes generation bss bloom md" and w: "written options generation bss bloom md"
    and sorted: "records_sorted (concat bss)"
    and rd: "rf_data (rd_file rd) = bs" "rd_options rd = options" "rd_index rd = map entry_of (built_entries 32 bss)"
  shows "\<forall>e \<in> set (rd_index rd). block_sound rd e" and "table_records rd = concat bss"
proof -
  have fits: "\<forall>rs \<in> set bss. block_fits options rs" and ne: "\<forall>rs \<in> set bss. rs \<noteq> []"
    and data: "32 + length (data_bytes bss) \<le> u64_max" "32 + length (data_bytes bss) \<le> length bs"
    using w unat_lt_u64 [of "md_index_offset md"] by (auto simp: written_def bs table_bytes_def)
  have ord: "\<forall>rs \<in> set bss. records_sorted rs"
    using sorted by (induction bss) (auto simp: sorted_wrt_append)
  let ?hdr = "encode_header generation (length (concat bss)) (length bss)"
  have "list_all2 (\<lambda>e rs. block_of rd (entry_of e) = Inr rs \<and> block_sound rd (entry_of e)) (built_entries 32 bss) bss"
    using built_regions [OF length_encode_header data(1) fits, of generation "length (concat bss)" "length bss"
        "index_frame (built_entries 32 bss) @ bloom @ encode_footer md"]
  proof (rule list.rel_mono_strong)
    fix e :: BuiltIndexEntry and rs
    assume "rs \<in> set bss" and e: "unat (bi_block_offset e) + unat (bi_block_size e) \<le> 32 + length (data_bytes bss) \<and>
        substr (?hdr @ data_bytes bss @ index_frame (built_entries 32 bss) @ bloom @ encode_footer md)
          (unat (bi_block_offset e)) (unat (bi_block_size e)) = block_bytes rs \<and>
        bi_block_size e = word_of_nat (length (block_bytes rs)) \<and> bi_first_key e = r_key (hd rs)"
    then have "decode_block options (entry_of e) (block_bytes rs) = Inr rs"
      using fits ne ord by (intro decode_block_bytes) (auto simp: block_fits_def entry_of_def)
    moreover have "substr bs (unat (bi_block_offset e)) (unat (bi_block_size e)) = block_bytes rs"
      unfolding bs table_bytes_def using e by blast
    ultimately have "block_of rd (entry_of e) = Inr rs"
      unfolding block_of_def rd by (simp add: entry_of_def)
    then show "block_of rd (entry_of e) = Inr rs \<and> block_sound rd (entry_of e)"
      using e data(2) by (auto simp: block_sound_def rd entry_of_def)
  qed
  then have all: "list_all2 (\<lambda>e rs. block_of rd e = Inr rs \<and> block_sound rd e) (rd_index rd) bss"
    by (simp add: rd list_all2_map1)
  then show "\<forall>e \<in> set (rd_index rd). block_sound rd e"
    by (auto simp: list_all2_conv_all_nth in_set_conv_nth)
  have "map (block_records rd) (rd_index rd) = bss"
    using all by (auto simp: list_all2_conv_all_nth block_records_def intro!: nth_equalityI)
  then show "table_records rd = concat bss"
    by (simp add: table_records_def)
qed

lemma EncodeTable_opens:
  assumes run: "EncodeTable fm generation mt options = Inr bs" and mt: "keys_sorted (entries mt)"
    and f: "benign_file f" "rf_data f = bs" and path: "path \<noteq> []"
  obtains rd where "SSTableReader_Open (Inr f) path options = Inr rd" "table_records rd = Records mt"
    "reader_sound rd" "summary_sound rd" "benign_file (rd_file rd)" "rd_options rd = options"
    "md_generation (rd_metadata rd) = generation"
proof -
  have len: "length bs \<le> u64_max"
    using f by (simp add: benign_file_def)
  obtain bss bloom md where bs: "bs = table_bytes generation bss bloom md" and recs: "concat bss = Records mt"
      and w: "written options generation bss bloom md" and bl: "encode_bloom fm (concat bss) options = Inr bloom"
    by (rule EncodeTable_written [OF run len]) simp
  have sorted: "records_sorted (concat bss)"
    using Records_sorted [OF mt] recs by simp
  obtain flt where flt: "bloom_of bs md flt" "bloom = [] \<or> (\<exists>f. bloom = bloom_bytes f \<and> FilterShapeIsValid f)"
      "\<forall>f. flt = Some f \<longrightarrow> (\<forall>r \<in> set (concat bss). MayContain f (r_key r))"
    by (rule written_bloom [OF bs w bl])
  let ?index = "map entry_of (built_entries 32 bss)"
  have t: "table_of options (rf_data f) md flt ?index"
    unfolding table_of_def f(2)
    using written_footer [OF bs w flt(2)] written_index [OF bs w] flt(1) written_load_index [OF bs w sorted] by simp
  have limits: "table_limits options"
    using w by (simp add: written_def)
  obtain f' where f': "SSTableReader_Open (Inr f) path options =
      verify_table \<lparr>rd_path = path, rd_options = options, rd_file = f',
        rd_metadata = bloom_metadata md flt, rd_index = ?index, rd_bloom = flt\<rparr>"
      "benign_file f'" "rf_data f' = rf_data f"
    by (rule Open_benign [OF f(1) t limits path])
  let ?rd = "\<lparr>rd_path = path, rd_options = options, rd_file = f',
        rd_metadata = bloom_metadata md flt, rd_index = ?index, rd_bloom = flt\<rparr>"
  note blocks = written_blocks [OF bs w sorted, of ?rd]
  have content: "\<forall>e \<in> set (rd_index ?rd). block_sound ?rd e" "table_records ?rd = concat bss"
    by (rule blocks; use f' f in simp)+
  have index: "rd_index ?rd \<noteq> []"
    using table_of_index_not_Nil [OF t] by simp
  have "\<exists>rd. verify_table ?rd = Inr rd \<and> benign_file (rd_file rd)"
  proof (rule verify_table_succeeds [OF _ index content(1), unfolded content(2)])
    show "unat (md_record_count (rd_metadata ?rd)) = length (concat bss)"
      using written_count(3) [OF w] by simp
    show "md_minimum_sequence (rd_metadata ?rd) = fold min (map r_sequence (concat bss)) (- 1)"
      "md_maximum_sequence (rd_metadata ?rd) = fold max (map r_sequence (concat bss)) 0"
      using w by (simp_all add: written_def)
  qed (use f'(2) flt(3) sorted in simp_all)
  then obtain rd where rd: "verify_table ?rd = Inr rd" "benign_file (rd_file rd)"
    by blast
  note v = verify_table_sound [OF rd(1) index]
  have "table_records rd = Records mt"
    using v content(2) recs by (simp add: table_records_def block_records_def [abs_def] block_of_def [abs_def])
  then show thesis
    using that [of rd] v rd f'(1) verify_table_generation [OF rd(1)] w by (simp add: written_def)
qed

section \<open>The content of a file determines the table\<close>

lemma table_of_functional:
  assumes "table_of options bs md bloom index" and "table_of options bs md' bloom' index'"
  shows "md' = md \<and> bloom' = bloom \<and> index' = index"
proof -
  have md: "md' = md"
    using assms by (auto simp: table_of_def footer_of_def)
  moreover have "bloom' = bloom"
    using assms md by (auto simp: table_of_def bloom_of_def split: if_splits)
  ultimately show ?thesis
    using assms by (auto simp: table_of_def)
qed

lemma Open_functional:
  assumes "SSTableReader_Open (Inr f) path options = Inr rd" and "SSTableReader_Open (Inr g) path' options = Inr rd'"
    and "rf_data g = rf_data f" and "length (rf_data f) \<le> u64_max"
  shows "table_records rd' = table_records rd" and "md_generation (rd_metadata rd') = md_generation (rd_metadata rd)"
proof -
  obtain md bloom index f1 where t1: "table_of options (rf_data f) md bloom index"
    and v1: "verify_table \<lparr>rd_path = path, rd_options = options, rd_file = f1,
       rd_metadata = bloom_metadata md bloom, rd_index = index, rd_bloom = bloom\<rparr> = Inr rd"
    by (rule Open_sound [OF assms(1,4)])
  obtain md' bloom' index' g1 where t2: "table_of options (rf_data g) md' bloom' index'"
    and v2: "verify_table \<lparr>rd_path = path', rd_options = options, rd_file = g1,
       rd_metadata = bloom_metadata md' bloom', rd_index = index', rd_bloom = bloom'\<rparr> = Inr rd'"
    by (rule Open_sound [OF assms(2)]) (use assms(3,4) in simp)
  have same: "md' = md" "bloom' = bloom" "index' = index"
    using table_of_functional [OF t1] t2 assms(3) by simp_all
  have idx: "rd_index rd = index" "rd_index rd' = index"
    using verify_table_sound(6) [OF v1] verify_table_sound(6) [OF v2] same(3)
      table_of_index_not_Nil [OF t1] table_of_index_not_Nil [OF t2] by simp_all
  have "block_of rd' = block_of rd"
    using Open_reader_sound(3,4) [OF assms(1,4)] Open_reader_sound(3,4) [OF assms(2)] assms(3,4)
    by (simp add: block_of_def fun_eq_iff)
  then show "table_records rd' = table_records rd"
    using idx by (simp add: table_records_def block_records_def [abs_def])
  show "md_generation (rd_metadata rd') = md_generation (rd_metadata rd)"
    using verify_table_generation [OF v1] verify_table_generation [OF v2] same by simp
qed

text \<open>Every table opened from the bytes of a MemTable holds its records, whatever the reads met.\<close>

lemma opened_records:
  assumes run: "EncodeTable fm generation mt options = Inr bs" and mt: "keys_sorted (entries mt)"
    and o: "SSTableReader_Open (Inr f) path options = Inr rd" and f: "rf_data f = bs" "length bs \<le> u64_max"
  shows "table_records rd = Records mt" and "md_generation (rd_metadata rd) = generation"
proof -
  let ?g = "\<lparr>rf_name = path, rf_data = bs, rf_reads = [], rf_sizes = [], rf_truncates = [], rf_syncs = []\<rparr>"
  have "benign_file ?g" "rf_data ?g = bs"
    using f by (simp_all add: benign_file_def)
  moreover have "path \<noteq> []"
    using o by (auto simp: SSTableReader_Open_def)
  ultimately obtain rd0 where rd0: "SSTableReader_Open (Inr ?g) path options = Inr rd0"
      "table_records rd0 = Records mt" "md_generation (rd_metadata rd0) = generation"
    using EncodeTable_opens [OF run mt] by blast
  show "table_records rd = Records mt" "md_generation (rd_metadata rd) = generation"
    using Open_functional [OF rd0(1) o] rd0 f by simp_all
qed

section \<open>A changed byte\<close>

lemma substr_update_in:
  assumes "off \<le> i" and "i < off + n" and "i < length xs"
  shows "substr (xs[i := b]) off n = (substr xs off n)[i - off := b]"
  using assms by (simp add: substr_def drop_update_swap take_update_swap)

lemma substr_update_out: "i < off \<or> off + n \<le> i \<Longrightarrow> substr (xs[i := b]) off n = substr xs off n"
  unfolding substr_def by (rule field_update)

text \<open>No two files that differ in one byte of a framed region both have a consistent frame there.\<close>

lemma frame_region_changed:
  assumes "frame_ok p (substr xs off n)" and "frame_ok p (substr (xs[i := b]) off n)"
    and "b \<noteq> xs ! i" and "off \<le> i" and "i < off + n" and "off + n \<le> length xs" and "p + 4 \<le> n"
  shows False
proof -
  have "substr xs off n ! (i - off) = xs ! i"
    using assms(4-6) by (simp add: substr_def)
  then show False
    using frame_ok_changed [OF assms(1), of "i - off" b] assms substr_update_in [of off i n xs b] by simp
qed

lemma decode_table_header_frame:
  assumes "decode_table_header header = Inr hdr" and "length header = 32"
  shows "frame_ok 28 header"
  using assms
  by (auto simp: decode_table_header_def Let_def or_fail_Inr frame_ok_def substr_0 split: if_splits)

lemma decode_table_footer_frame:
  assumes "decode_table_footer footer n hdr = Inr md" and "length footer = 104"
  shows "frame_ok 100 footer"
  using assms
  by (auto simp: decode_table_footer_def Let_def or_fail_Inr frame_ok_def substr_0 split: prod.splits if_splits)

lemma check_index_header_frame:
  assumes "check_index_header md enc = Inr ()"
  shows "frame_ok 16 enc"
  using assms
  by (auto simp: check_index_header_def Let_def or_fail_Inr frame_ok_def substr_0 ChecksumParts_def split: if_splits)

lemma index_chain_covers:
  "index_chain a es c \<Longrightarrow> a \<le> i \<Longrightarrow> i < c \<Longrightarrow>
     \<exists>e \<in> set es. unat (ix_block_offset e) \<le> i \<and> i < unat (ix_block_offset e) + unat (ix_block_size e)"
proof (induction es arbitrary: a)
  case (Cons e es)
  then show ?case
    by (cases "i < a + unat (ix_block_size e)") (auto simp: not_less)
qed simp

lemma block_sound_frame:
  assumes "block_sound rd e"
  shows "frame_ok 16 (substr (rf_data (rd_file rd)) (unat (ix_block_offset e)) (unat (ix_block_size e)))"
    and "20 \<le> unat (ix_block_size e)"
    and "unat (ix_block_offset e) + unat (ix_block_size e) \<le> length (rf_data (rd_file rd))"
proof -
  obtain rs where rs: "block_of rd e = Inr rs"
    using assms by (auto simp: block_sound_def)
  note d = decode_block_sound [OF rs [unfolded block_of_def]]
  show "frame_ok 16 (substr (rf_data (rd_file rd)) (unat (ix_block_offset e)) (unat (ix_block_size e)))"
    "20 \<le> unat (ix_block_size e)"
    "unat (ix_block_offset e) + unat (ix_block_size e) \<le> length (rf_data (rd_file rd))"
    using d(4,5) assms by (auto simp: block_sound_def)
qed

text \<open>Two accepted files that differ in one byte outside the frame have the same metadata.\<close>

lemma footer_of_changed:
  assumes "footer_of xs md" and "footer_of (xs[i := b]) md'" and "i < length xs" and "b \<noteq> xs ! i"
  shows "md' = md" and "32 \<le> i" and "i < length xs - 104"
proof -
  let ?ys = "xs[i := b]" and ?n = "length xs"
  obtain hdr hdr' where d: "decode_table_header (substr xs 0 32) = Inr hdr"
      "decode_table_footer (substr xs (?n - 104) 104) (word_of_nat ?n) hdr = Inr md"
      "decode_table_header (substr ?ys 0 32) = Inr hdr'"
      "decode_table_footer (substr ?ys (?n - 104) 104) (word_of_nat ?n) hdr' = Inr md'" "156 \<le> ?n"
    using assms(1,2) by (auto simp: footer_of_def)
  show i: "32 \<le> i"
    using frame_region_changed [of 28 xs 0 32 i b] d assms(4)
      decode_table_header_frame [OF d(1)] decode_table_header_frame [OF d(3)] by fastforce
  show j: "i < ?n - 104"
    using frame_region_changed [of 100 xs "?n - 104" 104 i b] d(5) assms(3,4)
      decode_table_footer_frame [OF d(2)] decode_table_footer_frame [OF d(4)] by fastforce
  show "md' = md"
    using d substr_update_out [of i 0 32 xs b] substr_update_out [of i "?n - 104" 104 xs b] i j by simp
qed

lemma table_of_changed:
  assumes t: "table_of options xs md bloom index" "table_of options (xs[i := b]) md' bloom' index'"
    and i: "i < length xs" and b: "b \<noteq> xs ! i" and len: "length xs \<le> u64_max"
  shows "index' = index" and "32 \<le> i" and "i < unat (md_index_offset md)" and "md' = md"
proof -
  let ?ys = "xs[i := b]"
  have f: "footer_of xs md" "footer_of ?ys md'"
    using t by (simp_all add: table_of_def)
  note same = footer_of_changed [OF f i b] and layout = footer_of_layout [OF f(1) len]
  show "32 \<le> i" by (rule same(2))
  have headers: "frame_ok 16 (index_bytes xs md)" "frame_ok 16 (index_bytes ?ys md)"
    using t same(1) by (auto simp: table_of_def intro: check_index_header_frame)
  have before: "i < unat (md_index_offset md) \<or> unat (md_index_offset md) + unat (md_index_size md) \<le> i"
    using frame_region_changed [of 16 xs "unat (md_index_offset md)" "unat (md_index_size md)" i b] headers b layout
    unfolding index_bytes_def by fastforce
  then have enc: "index_bytes ?ys md = index_bytes xs md"
    unfolding index_bytes_def by (rule substr_update_out)
  let ?bo = "unat (md_bloom_offset md)" and ?bn = "unat (md_bloom_size md)"
  show lt: "i < unat (md_index_offset md)"
  proof (rule ccontr)
    assume "\<not> i < unat (md_index_offset md)"
    then have inside: "?bo \<le> i" "i < ?bo + ?bn"
      using before same(3) layout by linarith+
    then have "md_bloom_size md \<noteq> 0"
      by auto
    then obtain flt flt' where "DecodeBloomFilter (substr xs ?bo ?bn) = Inr flt"
        "DecodeBloomFilter (substr ?ys ?bo ?bn) = Inr flt'"
      using t same(1) by (auto simp: table_of_def bloom_of_def)
    then have "frame_ok 28 (substr xs ?bo ?bn)" "frame_ok 28 (substr ?ys ?bo ?bn)"
        "32 \<le> length (substr xs ?bo ?bn)"
      by (simp_all add: DecodeBloomFilter_Inr_iff frame_ok_def)
    then show False
      using frame_region_changed [of 28 xs ?bo ?bn i b] b inside layout by simp
  qed
  then have "substr ?ys ?bo ?bn = substr xs ?bo ?bn"
    using layout by (intro substr_update_out) simp
  then have "bloom' = bloom"
    using t same(1) by (auto simp: table_of_def bloom_of_def split: if_splits)
  then show "index' = index" "md' = md"
    using t enc same(1) by (auto simp: table_of_def)
qed

lemma Open_changed_byte:
  assumes open1: "SSTableReader_Open (Inr f) path options = Inr rd"
    and open2: "SSTableReader_Open (Inr g) path' options = Inr rd'"
    and g: "rf_data g = (rf_data f)[i := b]" and i: "i < length (rf_data f)" and b: "b \<noteq> rf_data f ! i"
    and len: "length (rf_data f) \<le> u64_max"
  shows False
proof -
  let ?xs = "rf_data f"
  have len': "length (rf_data g) \<le> u64_max"
    using len g by simp
  obtain md bloom index f1 where t1: "table_of options ?xs md bloom index"
    and v1: "verify_table \<lparr>rd_path = path, rd_options = options, rd_file = f1,
       rd_metadata = bloom_metadata md bloom, rd_index = index, rd_bloom = bloom\<rparr> = Inr rd"
    by (rule Open_sound [OF open1 len])
  obtain md' bloom' index' g1 where t2: "table_of options (rf_data g) md' bloom' index'"
    and v2: "verify_table \<lparr>rd_path = path', rd_options = options, rd_file = g1,
       rd_metadata = bloom_metadata md' bloom', rd_index = index', rd_bloom = bloom'\<rparr> = Inr rd'"
    by (rule Open_sound [OF open2 len'])
  note same = table_of_changed [OF t1 t2 [unfolded g] i b len]
  have idx: "rd_index rd = index" "rd_index rd' = index"
    using verify_table_sound(6) [OF v1] verify_table_sound(6) [OF v2] same(1)
      table_of_index_not_Nil [OF t1] table_of_index_not_Nil [OF t2] by simp_all
  have "index_chain 32 index (unat (md_index_offset md))"
    using t1 load_index_sound(2) [of options "bloom_metadata md bloom" "index_bytes ?xs md" index]
      footer_of_layout(4) [OF _ len, of md] by (simp add: table_of_def)
  then obtain e where e: "e \<in> set index" "unat (ix_block_offset e) \<le> i"
      "i < unat (ix_block_offset e) + unat (ix_block_size e)"
    using index_chain_covers same(2,3) by blast
  have sound: "block_sound rd e" "block_sound rd' e"
    using Open_reader_sound(1) [OF open1 len] Open_reader_sound(1) [OF open2 len'] e(1) idx
    by (simp_all add: reader_sound_def)
  have data: "rf_data (rd_file rd) = ?xs" "rf_data (rd_file rd') = ?xs[i := b]"
    using Open_reader_sound(4) [OF open1 len] Open_reader_sound(4) [OF open2 len'] g by simp_all
  note blk = block_sound_frame [OF sound(1)] block_sound_frame [OF sound(2)]
  show False
    by (rule frame_region_changed [of 16 ?xs "unat (ix_block_offset e)" "unat (ix_block_size e)" i b])
      (use blk e b in \<open>simp_all add: data\<close>)
qed

section \<open>Properties\<close>

lemma lookup_Records:
  "lookup_records (Records mt) key =
     map_option (\<lambda>e. \<lparr>r_key = key, r_sequence = e_sequence e, r_type = e_type e, r_value = e_value e\<rparr>)
       (map_of (entries mt) key)"
proof -
  have "find (\<lambda>r. r_key r = key) (map (\<lambda>(k, e). \<lparr>r_key = k, r_sequence = e_sequence e,
      r_type = e_type e, r_value = e_value e\<rparr>) ps) =
    map_option (\<lambda>e. \<lparr>r_key = key, r_sequence = e_sequence e, r_type = e_type e, r_value = e_value e\<rparr>)
      (map_of ps key)" for ps
    by (induction ps) auto
  then show ?thesis
    by (simp add: Records_def lookup_records_def)
qed

text \<open>
  A reader serves a MemTable when \<open>Get\<close> answers every key as \<open>Lookup\<close> of the MemTable does: with the
  same record, tombstones included, or with the same status code.
\<close>

definition serves :: "SSTableReader \<Rightarrow> MemTable \<Rightarrow> bool" where
  "serves rd mt \<longleftrightarrow>
     (\<forall>key. let res = snd (snd (SSTableReader_Get rd key)) in
        if found (Lookup mt key) then res = Lookup mt key
        else code (lr_status res) = code (lr_status (Lookup mt key)))"

lemma Get_like_Lookup:
  assumes "reader_sound rd" and "benign_file (rd_file rd)" and "table_records rd = Records mt"
    and "rd_options rd = mt_options mt"
  shows "if found (Lookup mt key) then snd (snd (SSTableReader_Get rd key)) = Lookup mt key
    else code (lr_status (snd (snd (SSTableReader_Get rd key)))) = code (lr_status (Lookup mt key))"
proof (cases "key \<noteq> [] \<and> length key \<le> max_key_size (mt_options mt)")
  case True
  then have ok: "ok (Validate mt key [])"
    by (simp add: Validate_ok_iff)
  obtain rd' st res where run: "SSTableReader_Get rd key = (rd', st, res)"
    by (metis prod_cases3)
  have "answers rd key res"
    using Get_sound(3) [OF assms(1) _ _ run assms(2)] True assms(4) by simp
  then show ?thesis
    using run ok
    by (cases "map_of (entries mt) key")
      (auto simp: answers_def assms(3) lookup_Records Lookup_def found_def no_result_def found_result_def)
next
  case False
  then show ?thesis
    using assms(4)
    by (auto simp: SSTableReader_Get_def Lookup_def Validate_def found_def no_result_def Let_def)
qed

text \<open>
  C10. What \<open>EncodeTable\<close> writes can be read: \<open>SSTableReader::Open\<close> accepts the file, the opened table
  carries the generation, \<open>Get\<close> answers for every key exactly as \<open>Lookup\<close> of the MemTable does
  (tombstones included; only the text of a NotFound message may differ), and \<open>ReadRecords\<close> returns
  the records of the MemTable in key order up to its limit.
\<close>

theorem Table_roundtrip:
  assumes "EncodeTable fm generation mt options = Inr bs" and "mt_wf mt" and "mt_options mt = options"
    and "benign_file f" and "rf_data f = bs" and "path \<noteq> []"
  shows "\<exists>rd. SSTableReader_Open (Inr f) path options = Inr rd \<and>
    md_generation (rd_metadata rd) = generation \<and>
    serves rd mt \<and>
    (\<forall>limit. snd (ReadRecords limit rd) = Inr (take limit (Records mt)))"
proof -
  have "keys_sorted (entries mt)"
    using assms(2) by (simp add: mt_wf_def)
  then obtain rd where rd: "SSTableReader_Open (Inr f) path options = Inr rd" "table_records rd = Records mt"
    "reader_sound rd" "benign_file (rd_file rd)" "rd_options rd = options"
    "md_generation (rd_metadata rd) = generation"
    by (rule EncodeTable_opens [OF assms(1) _ assms(4,5,6)])
  have "snd (ReadRecords limit rd) = Inr (take limit (Records mt))" for limit
    by (rule ReadRecords_benign [OF rd(3,4), of limit]) (simp add: rd(2))
  then show ?thesis
    using rd Get_like_Lookup [OF rd(3,4,2)] assms(3) by (auto simp: serves_def Let_def)
qed

definition sample_math :: FloatMath where
  "sample_math = \<lparr>requested_bits = \<lambda>n p. Finite 64, rounded_hashes = \<lambda>b n. 7\<rparr>"

definition sample_memtable :: MemTable where
  "sample_memtable = \<lparr>mt_options = default_Options,
     entries = [([107], \<lparr>e_sequence = 7, e_type = kValue, e_value = [118, 119]\<rparr>)],
     approximate_data_size = 12\<rparr>"

lemma sample_memtable_wf: "mt_wf sample_memtable" "mt_options sample_memtable = default_Options"
  by (simp_all add: mt_wf_def sample_memtable_def entry_wf_def payload_total_def entry_size_def default_Options_def)

lemma sample_table_limits: "table_limits default_Options"
  by (simp add: table_limits_def default_Options_def bad_rate_def)

lemma sample_table_Records: "Records sample_memtable = [record_of sample_record]"
  by (simp add: Records_def sample_memtable_def record_of_def sample_record_def)

lemma sample_bloom:
  obtains bloom where "encode_bloom sample_math [record_of sample_record] default_Options = Inr bloom"
    "length bloom \<le> 32 + kMaximumBloomFilterSize"
proof -
  obtain flt0 where flt0: "Bloom_Create sample_math 1 (bloom_false_positive_rate default_Options) = Inr flt0"
    by (simp add: Bloom_Create_def sample_math_def default_Options_def bad_rate_def Let_def)
  note v = Bloom_Create_valid [OF flt0]
  obtain flt where flt: "Bloom_Add [107] flt0 = Inr flt"
    using v by (simp add: Bloom_Add_def)
  have "FilterShapeIsValid flt"
    using Bloom_Add_frame(1) [OF flt] .
  then have "EncodeBloomFilter flt = Inr (bloom_bytes flt)" "length (bloom_bytes flt) \<le> 32 + kMaximumBloomFilterSize"
    using FilterShape_length by (simp_all add: EncodeBloomFilter_Inr_iff)
  then show thesis
    using that flt0 flt
    by (simp add: encode_bloom_def sample_record_def record_of_def default_Options_def)
qed

lemma sample_built:
  obtains b where "add_records default_Options [record_of sample_record] empty_TableBuild = Inr b"
    "built default_Options [] [record_of sample_record] b" "\<exists>b'. FinishBlock b = Inr b'"
proof -
  obtain b where b: "add_records default_Options [record_of sample_record] empty_TableBuild = Inr b"
      "tb_records b = 1" "length (tb_payload b) = 35" "tb_index b = []"
    using sample_record_encodes(2)
    by (simp add: add_record_def sample_record_encodes(1) empty_TableBuild_def Let_def)
  obtain bss cur where inv: "built default_Options bss cur b" "concat bss @ cur = [record_of sample_record]"
    using add_records_built [OF built_empty b(1) sample_table_limits] by auto
  have "bss = []"
    using inv(1) b(4) by (metis built_fields(3) length_built_entries length_0_conv)
  then show thesis
    using that [OF b(1)] inv b(2-4) by (simp add: FinishBlock_def Let_def)
qed

lemma sample_table_encodes:
  obtains bs where "EncodeTable sample_math 1 sample_memtable default_Options = Inr bs" "length bs \<le> u64_max"
proof -
  let ?rs = "[record_of sample_record]"
  obtain bloom where bloom: "encode_bloom sample_math ?rs default_Options = Inr bloom"
      "length bloom \<le> 32 + kMaximumBloomFilterSize"
    by (rule sample_bloom)
  obtain b b' where b: "add_records default_Options ?rs empty_TableBuild = Inr b"
      "built default_Options [] ?rs b" "FinishBlock b = Inr b'"
    using sample_built by metis
  have inv: "built default_Options [?rs] [] b'"
    using FinishBlock_built [OF b(2,3)] by simp
  note f = built_fields [OF inv]
  have len: "length (tb_data b') = 55" "length (block_payload ?rs) = 35" "length (index_payload (built_entries 32 [?rs])) = 17"
    using sample_record_encodes(2) by (simp_all add: f(2) sample_record_def del: of_nat_add)
  have index: "encode_index (tb_index b') = Inr (index_frame (built_entries 32 [?rs]))"
    unfolding f(3) encode_index_Inr using len(3) by (simp add: sample_record_def)
  obtain md where md: "table_layout 1 (length ?rs) b' (length (index_frame (built_entries 32 [?rs]))) (length bloom) = Inr md"
  proof -
    have "CheckedAdd (x :: u64) y = Some (x + y)" if "unat x + unat y \<le> u64_max" for x y
      using that unat_plus_u64 by (simp add: CheckedAdd_Some_iff)
    note add = this
    have l: "unat (word_of_nat (length bloom) :: u64) = length bloom"
      using bloom(2) by (simp add: unat_of_nat_u64)
    have "unat (124 + word_of_nat (length bloom) :: u64) = 124 + length bloom"
      using unat_plus_u64 [of 124 "word_of_nat (length bloom)"] bloom(2) l by simp
    then show thesis
      using that bloom(2) l unfolding table_layout_def Let_def index_lengths len
      by (simp add: add leD [OF unat_lt_u64])
  qed
  let ?bs = "encode_header 1 (length ?rs) (length (tb_index b')) @ tb_data b' @ index_frame (built_entries 32 [?rs]) @ bloom @ encode_footer md"
  have "EncodeTable sample_math 1 sample_memtable default_Options = Inr ?bs"
  proof -
    have "\<not> MemTable_empty sample_memtable" "ok (ValidateTableOptions default_Options)"
      using sample_table_limits by (simp_all add: MemTable_empty_def sample_memtable_def ValidateTableOptions_ok_iff)
    then show ?thesis
      unfolding EncodeTable_def Let_def sample_table_Records b(1) and_then_simps b(3) index bloom(1) md
      by simp
  qed
  moreover have "length ?bs \<le> u64_max"
    using bloom(2) len by simp
  ultimately show thesis
    using that by blast
qed

definition sample_file :: "bytes \<Rightarrow> RecoveryFile" where
  "sample_file bs = \<lparr>rf_name = ''000001.sst'', rf_data = bs, rf_reads = [Delivers 3, ReadInterrupts],
     rf_sizes = [], rf_truncates = [], rf_syncs = []\<rparr>"

lemma sample_file_benign: "length bs \<le> u64_max \<Longrightarrow> benign_file (sample_file bs)" "rf_data (sample_file bs) = bs"
  by (simp_all add: sample_file_def benign_file_def)

lemma sample_reader:
  obtains rd where "reader_sound rd" "rd_options rd = default_Options" "benign_file (rd_file rd)"
    "table_records rd = [record_of sample_record]" "summary_sound rd"
proof -
  obtain bs where bs: "EncodeTable sample_math 1 sample_memtable default_Options = Inr bs" "length bs \<le> u64_max"
    by (rule sample_table_encodes)
  obtain rd where rd: "SSTableReader_Open (Inr (sample_file bs)) ''000001.sst'' default_Options = Inr rd"
      "table_records rd = Records sample_memtable" "benign_file (rd_file rd)"
    by (rule EncodeTable_opens [OF bs(1) _ sample_file_benign(1) [OF bs(2)] sample_file_benign(2), of "''000001.sst''"])
      (use sample_memtable_wf in \<open>simp_all add: mt_wf_def\<close>)
  show thesis
    using Open_reader_sound(1-3) [OF rd(1)] bs(2) sample_file_benign(2) rd(2,3)
    by (intro that [of rd]) (simp_all add: sample_table_Records)
qed

theorem Table_roundtrip_witness:
  "\<exists>bs rd. EncodeTable sample_math 1 sample_memtable default_Options = Inr bs \<and>
     SSTableReader_Open (Inr (sample_file bs)) ''000001.sst'' default_Options = Inr rd \<and>
     snd (snd (SSTableReader_Get rd [107])) = Lookup sample_memtable [107]"
proof -
  obtain bs where bs: "EncodeTable sample_math 1 sample_memtable default_Options = Inr bs" "length bs \<le> u64_max"
    by (rule sample_table_encodes)
  have "found (Lookup sample_memtable [107])"
    by (simp add: Lookup_def sample_memtable_def Validate_def default_Options_def found_def)
  then show ?thesis
    using Table_roundtrip [OF bs(1) sample_memtable_wf sample_file_benign(1) [OF bs(2)] sample_file_benign(2),
        of "''000001.sst''"] bs(1) by (auto simp: serves_def Let_def)
qed

text \<open>
  C11. \<open>Open\<close> is a complete check. Of whatever bytes the file holds and whatever faults its reads meet,
  an accepted table has strictly increasing keys and non-zero sequence numbers, metadata that are
  the exact count, key range and sequence range of its records, and a \<open>Get\<close> that answers with the
  stored record of the key or NotFound when there is none; only a failed read can make it
  answer otherwise, and then with the error.
\<close>

theorem Open_verifies:
  assumes "SSTableReader_Open (Inr f) path options = Inr rd" and "length (rf_data f) \<le> u64_max"
  shows "rf_data (rd_file rd) = rf_data f \<and> reader_sound rd \<and> summary_sound rd \<and>
    (\<forall>key rd' st res. key \<noteq> [] \<longrightarrow> length key \<le> max_key_size options \<longrightarrow>
       SSTableReader_Get rd key = (rd', st, res) \<longrightarrow>
       reader_sound rd' \<and>
       (case lookup_records (table_records rd) key of
          None \<Rightarrow> \<not> found res
        | Some r \<Rightarrow> res = found_result r \<or> \<not> found res) \<and>
       (benign_file (rd_file rd) \<longrightarrow> answers rd key res))"
proof -
  note o = Open_reader_sound [OF assms]
  have "reader_sound rd' \<and>
       (case lookup_records (table_records rd) key of
          None \<Rightarrow> \<not> found res
        | Some r \<Rightarrow> res = found_result r \<or> \<not> found res) \<and>
       (benign_file (rd_file rd) \<longrightarrow> answers rd key res)"
    if "key \<noteq> []" "length key \<le> max_key_size options" "SSTableReader_Get rd key = (rd', st, res)"
    for key rd' st res
  proof -
    note g = Get_sound [OF o(1) that(1) _ that(3)]
    have g: "same_table rd rd'" "answers rd key res \<or> (\<exists>s. \<not> ok s \<and> res = no_result s)"
      "benign_file (rd_file rd) \<Longrightarrow> answers rd key res"
      using g that(2) o(3) by auto
    then show ?thesis
      using same_table_content(3) [OF g(1)] o(1)
      by (auto simp: answers_def found_def no_result_def split: option.splits)
  qed
  then show ?thesis
    using o by blast
qed

theorem Open_verifies_witness:
  "\<exists>bs rd. SSTableReader_Open (Inr (sample_file bs)) ''000001.sst'' default_Options = Inr rd \<and>
     reader_sound rd \<and> summary_sound rd"
proof -
  obtain bs where bs: "EncodeTable sample_math 1 sample_memtable default_Options = Inr bs" "length bs \<le> u64_max"
    by (rule sample_table_encodes)
  obtain rd where rd: "SSTableReader_Open (Inr (sample_file bs)) ''000001.sst'' default_Options = Inr rd"
    by (rule EncodeTable_opens [OF bs(1) _ sample_file_benign(1) [OF bs(2)] sample_file_benign(2), of "''000001.sst''"])
      (use sample_memtable_wf in \<open>simp_all add: mt_wf_def\<close>)
  then show ?thesis
    using Open_verifies [OF rd] bs(2) sample_file_benign(2) by auto
qed

text \<open>
  C12. One changed byte anywhere in an SSTable, be it in the header, a data block, the index, the
  filter, the footer or a reserved field, keeps it from being accepted.
\<close>

theorem Table_changed_byte:
  assumes "SSTableReader_Open (Inr f) path options = Inr rd" and "length (rf_data f) \<le> u64_max"
    and "i < length (rf_data f)" and "b \<noteq> rf_data f ! i" and "rf_data g = (rf_data f)[i := b]"
  shows "\<exists>s. SSTableReader_Open (Inr g) path' options = Inl s"
  using Open_changed_byte [OF assms(1) _ assms(5,3,4,2)]
  by (cases "SSTableReader_Open (Inr g) path' options") auto

theorem Table_changed_byte_witness:
  "\<exists>bs s. EncodeTable sample_math 1 sample_memtable default_Options = Inr bs \<and>
     SSTableReader_Open (Inr (sample_file (bs[5 := bs ! 5 + 1]))) ''000001.sst'' default_Options = Inl s"
proof -
  obtain bs where bs: "EncodeTable sample_math 1 sample_memtable default_Options = Inr bs" "length bs \<le> u64_max"
    by (rule sample_table_encodes)
  obtain rd where rd: "SSTableReader_Open (Inr (sample_file bs)) ''000001.sst'' default_Options = Inr rd"
    by (rule EncodeTable_opens [OF bs(1) _ sample_file_benign(1) [OF bs(2)] sample_file_benign(2), of "''000001.sst''"])
      (use sample_memtable_wf in \<open>simp_all add: mt_wf_def\<close>)
  obtain bss bloom md where "bs = table_bytes 1 bss bloom md"
    by (rule EncodeTable_written [OF bs])
  then have "5 < length bs"
    by (simp add: table_bytes_def)
  then show ?thesis
    using Table_changed_byte [OF rd, of 5 "bs ! 5 + 1" "sample_file (bs[5 := bs ! 5 + 1])" "''000001.sst''"] bs
    by (simp add: sample_file_benign(2))
qed

end
