(* ===== verification/Environment.thy ===== *)
theory Environment
  imports FileIO
begin

text \<open>
  \<^verbatim>\<open>include/minikv/flush.hpp\<close> and \<^verbatim>\<open>src/flush.cpp\<close>: the directory operations behind the interface
  \<open>FlushEnvironment\<close>, and the publication protocol (temporary file, file sync, rename, directory
  sync) that manifests, flushed tables and compaction outputs share.

  A directory maps names to files. \<open>env_names\<close> is what the running process sees; \<open>env_disk\<close> is
  the mapping at the last successful directory sync. A crash may keep or lose every later change of
  an entry independently, and keeps of a file at least what was flushed. As for files, the next
  calls answer with scripted statuses.
\<close>

section \<open>The directory\<close>

record Env =
  env_names :: "string \<Rightarrow> nat option"
  env_disk :: "string \<Rightarrow> nat option"
  env_inodes :: "nat \<Rightarrow> WritableFile"
  env_next :: nat
  env_creates :: "status list"
  env_renames :: "status list"
  env_removes :: "status list"
  env_dirsyncs :: "status list"
  env_scripts :: "(WriteOutcome list \<times> status list) list"
  env_opens :: "(status \<times> ReadOutcome list \<times> status list) list"

text \<open>
  Opening with truncation binds the name to an empty file; the previous file of that name is what a
  crash may still show. \<open>env_scripts\<close> holds the write and sync outcomes of the files to be created.
\<close>

fun next_script :: "(WriteOutcome list \<times> status list) list \<Rightarrow>
    (WriteOutcome list \<times> status list) \<times> (WriteOutcome list \<times> status list) list" where
  "next_script [] = (([], []), [])"
| "next_script (s # rest) = (s, rest)"

definition CreateTruncated :: "string \<Rightarrow> Env \<Rightarrow> nat result \<times> Env" where
  "CreateTruncated path env =
     (let (s, rest) = next_status (env_creates env); env = env\<lparr>env_creates := rest\<rparr> in
      if \<not> ok s then (Inl s, env)
      else let ((writes, syncs), scripts) = next_script (env_scripts env); i = env_next env in
        (Inr i,
         env\<lparr>env_names := (env_names env)(path \<mapsto> i),
             env_inodes := (env_inodes env)(i := \<lparr>wf_name = path, wf_data = [], wf_durable = [],
               wf_writes = writes, wf_syncs = syncs\<rparr>),
             env_next := i + 1, env_scripts := scripts\<rparr>))"

definition Rename :: "string \<Rightarrow> string \<Rightarrow> Env \<Rightarrow> status \<times> Env" where
  "Rename source destination env =
     (let (s, rest) = next_status (env_renames env); env = env\<lparr>env_renames := rest\<rparr> in
      if \<not> ok s then (s, env)
      else case env_names env source of
        None \<Rightarrow> (IOError (''rename '' @ quoted source), env)
      | Some i \<Rightarrow> (Ok, env\<lparr>env_names := (env_names env)(source := None, destination := Some i)\<rparr>))"

definition RemoveFile :: "string \<Rightarrow> Env \<Rightarrow> status \<times> Env" where
  "RemoveFile path env =
     (let (s, rest) = next_status (env_removes env); env = env\<lparr>env_removes := rest\<rparr> in
      if \<not> ok s then (s, env) else (Ok, env\<lparr>env_names := (env_names env)(path := None)\<rparr>))"

definition SyncDirectory :: "Env \<Rightarrow> status \<times> Env" where
  "SyncDirectory env =
     (let (s, rest) = next_status (env_dirsyncs env); env = env\<lparr>env_dirsyncs := rest\<rparr> in
      if \<not> ok s then (s, env) else (Ok, env\<lparr>env_disk := env_names env\<rparr>))"

text \<open>A file handle is the number of its file; using it updates the file in place.\<close>

definition env_write :: "nat \<Rightarrow> bytes \<Rightarrow> Env \<Rightarrow> status \<times> Env" where
  "env_write i data env =
     (let (f, s) = WriteAll (env_inodes env i) data
      in (s, env\<lparr>env_inodes := (env_inodes env)(i := f)\<rparr>))"

definition env_sync :: "nat \<Rightarrow> Env \<Rightarrow> status \<times> Env" where
  "env_sync i env =
     (let (s, f) = Sync (env_inodes env i) in (s, env\<lparr>env_inodes := (env_inodes env)(i := f)\<rparr>))"

text \<open>
  \<open>PosixRecoveryFile::OpenReadOnly\<close>: the opened file has the content of the moment; published files
  are never written again. \<open>env_opens\<close> holds, for every open to come, its status and the read and
  size outcomes of the file.
\<close>

definition OpenReadOnly :: "string \<Rightarrow> Env \<Rightarrow> RecoveryFile result \<times> Env" where
  "OpenReadOnly path env =
     (let ((s, reads, sizes), rest) =
        (case env_opens env of [] \<Rightarrow> ((Ok, [], []), []) | x # rest \<Rightarrow> (x, rest));
        env = env\<lparr>env_opens := rest\<rparr> in
      if path = [] then (Inl (InvalidArgument ''read-only file path must not be empty''), env)
      else if \<not> ok s then (Inl s, env)
      else case env_names env path of
        None \<Rightarrow> (Inl (IOError (''open '' @ quoted path)), env)
      | Some i \<Rightarrow>
        (Inr \<lparr>rf_name = path, rf_data = wf_data (env_inodes env i), rf_reads = reads, rf_sizes = sizes,
              rf_truncates = [], rf_syncs = []\<rparr>, env))"

section \<open>Names and publication\<close>

definition JoinPath :: "string \<Rightarrow> string \<Rightarrow> string" where
  "JoinPath directory name =
     (if directory \<noteq> [] \<and> last directory = CHR ''/'' then directory @ name
      else directory @ ''/'' @ name)"

text \<open>\<open>std::setw(20)\<close> with fill character \<open>0\<close>, then the extension.\<close>

definition GenerationFileName :: "u64 \<Rightarrow> string \<Rightarrow> string" where
  "GenerationFileName generation extension =
     (let digits = to_string (unat generation)
      in replicate (20 - length digits) CHR ''0'' @ digits @ ''.'' @ extension)"

definition BestEffortRemove :: "string \<Rightarrow> Env \<Rightarrow> Env" where
  "BestEffortRemove path env = snd (RemoveFile path env)"

text \<open>Write, sync and rename a temporary file, then sync the directory.\<close>

definition publish_file :: "string \<Rightarrow> bytes \<Rightarrow> Env \<Rightarrow> status \<times> Env" where
  "publish_file final_path encoded env =
     (let temporary_path = final_path @ ''.tmp'';
          (created, env) = CreateTruncated temporary_path env in
      case created of
        Inl s \<Rightarrow> (s, env)
      | Inr i \<Rightarrow>
      (let (s, env) = env_write i encoded env in
       if \<not> ok s then (s, BestEffortRemove temporary_path env)
       else let (s, env) = env_sync i env in
       if \<not> ok s then (s, BestEffortRemove temporary_path env)
       else let (s, env) = Rename temporary_path final_path env in
       if \<not> ok s then (s, BestEffortRemove temporary_path env)
       else SyncDirectory env))"

section \<open>Crashes\<close>

text \<open>
  What a name can hold after a crash: the entry of the last directory sync or the present one, with
  a content that has at least the flushed bytes; \<open>None\<close> when the entry is absent.
\<close>

definition crash_content :: "Env \<Rightarrow> string \<Rightarrow> bytes option \<Rightarrow> bool" where
  "crash_content env path content \<longleftrightarrow>
     (\<exists>entry \<in> {env_names env path, env_disk env path}.
        case entry of
          None \<Rightarrow> content = None
        | Some i \<Rightarrow> \<exists>bs. content = Some bs \<and> wal_device.crash_image (env_inodes env i) bs)"

text \<open>
  A name is settled with a content when a crash can show nothing else; file numbers in use are
  below the next one.
\<close>

definition settled :: "Env \<Rightarrow> string \<Rightarrow> bytes option \<Rightarrow> bool" where
  "settled env path content \<longleftrightarrow> (\<forall>c. crash_content env path c \<longrightarrow> c = content)"

definition env_wf :: "Env \<Rightarrow> bool" where
  "env_wf env \<longleftrightarrow>
     (\<forall>p i. env_names env p = Some i \<or> env_disk env p = Some i \<longrightarrow>
        i < env_next env \<and> wal_device.device_ok (env_inodes env i))"


section \<open>The outcomes of a publication\<close>

lemma env_write_cases:
  assumes "env_write i data env = (s, env')"
  obtains f where "env' = env\<lparr>env_inodes := (env_inodes env)(i := f)\<rparr>"
    "wal_device.device_ok (env_inodes env i) \<Longrightarrow> wal_device.device_ok f"
    "ok s \<Longrightarrow> wf_data f = wf_data (env_inodes env i) @ data"
  using assms wal_device.append_ok [of "env_inodes env i" data]
    wal_device.append_device_ok [of "env_inodes env i" data]
  by (auto simp: env_write_def Let_def split: prod.splits)

lemma env_sync_cases:
  assumes "env_sync i env = (s, env')"
  obtains f where "env' = env\<lparr>env_inodes := (env_inodes env)(i := f)\<rparr>"
    "wal_device.device_ok (env_inodes env i) \<Longrightarrow> wal_device.device_ok f"
    "wf_data f = wf_data (env_inodes env i)" "ok s \<Longrightarrow> wf_durable f = wf_data f"
  using assms wal_device.flush_content [of "env_inodes env i"] wal_device.flush_durable [of "env_inodes env i"]
    wal_device.flush_device_ok [of "env_inodes env i"]
  by (auto simp: env_sync_def Let_def split: prod.splits)

lemma next_status_cases: obtains s rest where "next_status xs = (s, rest)"
  by force

text \<open>
  Up to its scripts, the directory after a publication: nothing happened; or a new file is left
  under the temporary name or under none; or the new file, complete and flushed, has the final name.
\<close>

definition same_dir :: "Env \<Rightarrow> Env \<Rightarrow> bool" where
  "same_dir env env' \<longleftrightarrow> env_names env' = env_names env \<and> env_disk env' = env_disk env \<and>
     env_inodes env' = env_inodes env \<and> env_next env' = env_next env"

lemma same_dir_refl [simp]: "same_dir env env"
  by (simp add: same_dir_def)

lemma BestEffortRemove_cases:
  "same_dir env (BestEffortRemove p env) \<or>
   same_dir (env\<lparr>env_names := (env_names env)(p := None)\<rparr>) (BestEffortRemove p env)"
  by (auto simp: BestEffortRemove_def RemoveFile_def same_dir_def Let_def split: prod.splits)

lemma CreateTruncated_cases:
  assumes "CreateTruncated path env = (r, env')"
  obtains s where "r = Inl s" "\<not> ok s" "same_dir env env'"
  | "r = Inr (env_next env)" "env_names env' = (env_names env)(path \<mapsto> env_next env)"
      "env_disk env' = env_disk env" "env_next env' = env_next env + 1"
      "env_inodes env' = (env_inodes env)(env_next env := env_inodes env' (env_next env))"
      "wf_data (env_inodes env' (env_next env)) = []" "wal_device.device_ok (env_inodes env' (env_next env))"
  using assms
  by (auto simp: CreateTruncated_def Let_def same_dir_def wal_device.device_ok_def
      split: prod.splits if_splits)

lemma Rename_cases:
  assumes "Rename source destination env = (s, env')"
  obtains "\<not> ok s" "same_dir env env'"
  | i where "s = Ok" "env_names env source = Some i"
      "same_dir (env\<lparr>env_names := (env_names env)(source := None, destination := Some i)\<rparr>) env'"
  using assms
  by (auto simp: Rename_def Let_def same_dir_def split: prod.splits if_splits option.splits)

lemma SyncDirectory_cases:
  assumes "SyncDirectory env = (s, env')"
  shows "same_dir (if ok s then env\<lparr>env_disk := env_names env\<rparr> else env) env'"
  using assms by (auto simp: SyncDirectory_def Let_def same_dir_def split: prod.splits if_splits)

definition published :: "string \<Rightarrow> bytes \<Rightarrow> Env \<Rightarrow> bool \<Rightarrow> Env \<Rightarrow> bool" where
  "published path encoded env success env' \<longleftrightarrow>
     (let i = env_next env; tmp = path @ ''.tmp'' in
      \<not> success \<and> same_dir env env' \<or>
      (\<exists>f. wal_device.device_ok f \<and> env_inodes env' = (env_inodes env)(i := f) \<and> env_next env' = i + 1 \<and>
         (\<not> success \<and> env_disk env' = env_disk env \<and>
            env_names env' \<in> {(env_names env)(tmp \<mapsto> i), (env_names env)(tmp := None)} \<or>
          wf_data f = encoded \<and> wf_durable f = encoded \<and>
            env_names env' = (env_names env)(tmp := None, path \<mapsto> i) \<and>
            env_disk env' = (if success then env_names env' else env_disk env))))"


lemma tmp_not_path [simp]: "path @ ''.tmp'' \<noteq> path" "path \<noteq> path @ ''.tmp''"
  by simp_all

text \<open>The states in which the new file has the temporary name.\<close>

definition working :: "string \<Rightarrow> Env \<Rightarrow> Env \<Rightarrow> WritableFile \<Rightarrow> bool" where
  "working path env e f \<longleftrightarrow> wal_device.device_ok f \<and> env_disk e = env_disk env \<and>
     env_names e = (env_names env)(path @ ''.tmp'' \<mapsto> env_next env) \<and>
     env_inodes e = (env_inodes env)(env_next env := f) \<and> env_next e = env_next env + 1"

lemma working_same: "working path env e f \<Longrightarrow> same_dir e e' \<Longrightarrow> working path env e' f"
  by (auto simp: working_def same_dir_def)

lemma working_removed:
  "working path env e f \<Longrightarrow> published path encoded env False (BestEffortRemove (path @ ''.tmp'') e)"
  using BestEffortRemove_cases [of e "path @ ''.tmp''"]
  by (auto simp: published_def working_def same_dir_def Let_def)

lemma publish_file_published:
  assumes run: "publish_file path encoded env = (s, env')"
  shows "published path encoded env (ok s) env'"
proof -
  let ?i = "env_next env" and ?tmp = "path @ ''.tmp''"
  obtain r e1 where e1: "CreateTruncated ?tmp env = (r, e1)"
    by force
  obtain s2 e2 where e2: "env_write ?i encoded e1 = (s2, e2)"
    by force
  obtain s3 e3 where e3: "env_sync ?i e2 = (s3, e3)"
    by force
  obtain s4 e4 where e4: "Rename ?tmp path e3 = (s4, e4)"
    by force
  from e1 show ?thesis
  proof (cases rule: CreateTruncated_cases)
    case (1 t)
    then show ?thesis
      using run e1 by (simp add: publish_file_def published_def)
  next
    case 2
    obtain f2 where f2: "e2 = e1\<lparr>env_inodes := (env_inodes e1)(?i := f2)\<rparr>" "wal_device.device_ok f2"
        "ok s2 \<Longrightarrow> wf_data f2 = encoded"
      by (rule env_write_cases [OF e2]) (use 2 in auto)
    obtain f3 where f3: "e3 = e2\<lparr>env_inodes := (env_inodes e2)(?i := f3)\<rparr>" "wal_device.device_ok f3"
        "wf_data f3 = wf_data f2" "ok s3 \<Longrightarrow> wf_durable f3 = wf_data f3"
      by (rule env_sync_cases [OF e3]) (use f2 in auto)
    have upd: "(env_inodes e1)(?i := x) = (env_inodes env)(?i := x)" for x
      using 2(5) by (metis fun_upd_upd)
    have at2: "working path env e2 f2" and at3: "working path env e3 f3"
      using 2(2-4) f2(2) f3(2) by (simp_all add: working_def f2(1) f3(1) upd)
    note run = run [unfolded publish_file_def Let_def e1 prod.case 2(1) sum.case e2 e3 e4]
    consider (unsafe) "\<not> ok s2 \<or> \<not> ok s3" | (safe) "ok s2" "ok s3"
      by blast
    then show ?thesis
    proof cases
      case unsafe
      then show ?thesis
        using run working_removed [OF at2] working_removed [OF at3] by (auto split: if_splits)
    next
      case safe
      from e4 show ?thesis
      proof (cases rule: Rename_cases)
        case 1
        then show ?thesis
          using run safe working_removed [OF working_same [OF at3 1(2)]] by (auto split: if_splits)
      next
        case (2 j)
        then have "SyncDirectory e4 = (s, env')"
          using run safe by (simp split: if_splits)
        from SyncDirectory_cases [OF this] show ?thesis
          using at3 2 f2(3) f3 safe
          by (auto simp: published_def Let_def working_def same_dir_def split: if_splits)
      qed
    qed
  qed
qed


lemma crash_content_other:
  assumes "env_wf env" and "p \<noteq> path" and "p \<noteq> path @ ''.tmp''"
    and "published path encoded env success env'" and "crash_content env' p c"
  shows "crash_content env p c"
proof -
  have old: "env_inodes env' j = env_inodes env j" if "env_names env p = Some j \<or> env_disk env p = Some j" for j
  proof -
    have "j \<noteq> env_next env"
      using assms(1) that unfolding env_wf_def by blast
    then show ?thesis
      using assms(4) by (auto simp: published_def same_dir_def Let_def)
  qed
  have "env_names env' p = env_names env p \<and> (env_disk env' p = env_disk env p \<or> env_disk env' p = env_names env p)"
    using assms(2-4) by (auto simp: published_def same_dir_def Let_def)
  then show ?thesis
    using assms(5) old by (auto simp: crash_content_def split: option.splits)
qed

lemma publish_file_safe:
  assumes "env_wf env" and "publish_file path encoded env = (s, env')"
  shows "env_wf env'"
    and "crash_content env' path c \<Longrightarrow> crash_content env path c \<or> c = Some encoded"
    and "p \<noteq> path \<Longrightarrow> p \<noteq> path @ ''.tmp'' \<Longrightarrow> crash_content env' p c \<Longrightarrow> crash_content env p c"
    and "ok s \<Longrightarrow> settled env' path (Some encoded)"
proof -
  have pub: "published path encoded env (ok s) env'"
    by (rule publish_file_published [OF assms(2)])
  have fresh: "env_names env p \<noteq> Some (env_next env)" "env_disk env p \<noteq> Some (env_next env)" for p
    using assms(1) by (auto simp: env_wf_def)
  show "env_wf env'"
    using pub assms(1) fresh
    by (fastforce simp: published_def env_wf_def same_dir_def Let_def split: if_splits)
  show "crash_content env path c \<or> c = Some encoded" if "crash_content env' path c"
    using pub fresh that
    by (auto simp: published_def crash_content_def same_dir_def Let_def wal_device.crash_image_def
        split: option.splits if_splits)
  show "settled env' path (Some encoded)" if "ok s"
    using pub that
    by (auto simp: published_def settled_def crash_content_def Let_def wal_device.crash_image_def
        split: option.splits)
  show "crash_content env p c" if "p \<noteq> path" "p \<noteq> path @ ''.tmp''" "crash_content env' p c"
    by (rule crash_content_other [OF assms(1) that(1,2) pub that(3)])
qed

section \<open>Properties\<close>

text \<open>
  C31. Publication is atomic, whatever call fails and whenever the machine crashes: afterwards the
  final name holds, even after a crash, either what it could hold before or exactly the new
  content, never a part of it; no other name except the temporary one can hold anything new; and
  when the publication reports success, the new content is there and survives every crash. The
  scripts may let any operation and the clean-up after it fail, so that every state in between is
  covered.
\<close>

theorem publish_file_atomic:
  assumes "env_wf env" and "publish_file path encoded env = (s, env')"
  shows "env_wf env' \<and>
    (\<forall>c. crash_content env' path c \<longrightarrow> crash_content env path c \<or> c = Some encoded) \<and>
    (\<forall>p c. p \<noteq> path \<longrightarrow> p \<noteq> path @ ''.tmp'' \<longrightarrow> crash_content env' p c \<longrightarrow> crash_content env p c) \<and>
    (ok s \<longrightarrow> settled env' path (Some encoded))"
  using publish_file_safe [OF assms] by blast

definition empty_env :: Env where
  "empty_env = \<lparr>env_names = Map.empty, env_disk = Map.empty, env_inodes = (\<lambda>_. \<lparr>wf_name = [], wf_data = [],
     wf_durable = [], wf_writes = [], wf_syncs = []\<rparr>), env_next = 0, env_creates = [], env_renames = [],
     env_removes = [], env_dirsyncs = [], env_scripts = [], env_opens = []\<rparr>"

theorem publish_file_atomic_witness:
  "\<exists>s env'. publish_file ''db/MANIFEST'' [1, 2, 3] empty_env = (s, env') \<and> env_wf env' \<and>
     (\<forall>c. crash_content env' ''db/MANIFEST'' c \<longrightarrow> c = None \<or> c = Some [1, 2, 3])"
proof -
  obtain s env' where run: "publish_file ''db/MANIFEST'' [1, 2, 3] empty_env = (s, env')"
    by force
  have wf: "env_wf empty_env" and empty: "\<And>p c. crash_content empty_env p c \<Longrightarrow> c = None"
    by (auto simp: env_wf_def empty_env_def crash_content_def)
  note atomic = publish_file_atomic [OF wf run]
  have "\<forall>c. crash_content env' ''db/MANIFEST'' c \<longrightarrow> c = None \<or> c = Some [1, 2, 3]"
    using conjunct1 [OF conjunct2 [OF atomic]] empty [of "''db/MANIFEST''"] by (intro allI impI) metis
  then show ?thesis
    using run conjunct1 [OF atomic] by (intro exI [of _ s] exI [of _ env'] conjI)
qed

end
