(* ===== verification/Flush.thy ===== *)
theory Flush
  imports TableRoundtrip Environment
begin

text \<open>
  \<open>PublishTable\<close> of \<^verbatim>\<open>src/flush.cpp\<close>: a MemTable is encoded, published under the name of its
  generation and opened again.
\<close>

definition table_path :: "string \<Rightarrow> u64 \<Rightarrow> string" where
  "table_path directory generation = JoinPath directory (GenerationFileName generation ''sst'')"

definition PublishTable ::
  "FloatMath \<Rightarrow> string \<Rightarrow> u64 \<Rightarrow> MemTable \<Rightarrow> Options \<Rightarrow> Env \<Rightarrow> SSTableReader result \<times> Env" where
  "PublishTable fm directory generation memtable options env =
     (if directory = [] \<or> generation = 0 \<or> MemTable_empty memtable
      then (Inl (InvalidArgument ''flush requires a directory, generation, and non-empty MemTable''), env)
      else case EncodeTable fm generation memtable options of
        Inl encode_status \<Rightarrow> (Inl encode_status, env)
      | Inr encoded \<Rightarrow>
        (let final_path = table_path directory generation;
           (s, env) = publish_file final_path encoded env in
         if \<not> ok s then (Inl s, env)
         else let (opened, env) = OpenReadOnly final_path env in
           (SSTableReader_Open opened final_path options, env)))"

lemma OpenReadOnly_frame:
  assumes "OpenReadOnly path env = (r, env')"
  shows "same_dir env env'"
    and "r = Inr f \<Longrightarrow> \<exists>i. env_names env path = Some i \<and> rf_data f = wf_data (env_inodes env i)"
  using assms
  by (auto simp: OpenReadOnly_def Let_def same_dir_def split: prod.splits list.splits if_splits option.splits)

lemma crash_content_same: "same_dir env env' \<Longrightarrow> crash_content env' = crash_content env"
  by (rule ext)+ (auto simp: same_dir_def crash_content_def split: option.split)

lemma settled_same: "same_dir env env' \<Longrightarrow> settled env' = settled env"
  by (simp add: settled_def crash_content_same fun_eq_iff)

lemma env_wf_same: "same_dir env env' \<Longrightarrow> env_wf env' = env_wf env"
  by (simp add: same_dir_def env_wf_def)

lemma settled_content:
  assumes "env_wf env" and "settled env path (Some bs)" and "env_names env path = Some i"
  shows "wf_data (env_inodes env i) = bs"
proof -
  have "wal_device.device_ok (env_inodes env i)"
    using assms(1,3) by (auto simp: env_wf_def)
  then have "wal_device.crash_image (env_inodes env i) (wf_data (env_inodes env i))"
    by (auto simp: wal_device.crash_image_def wal_device.device_ok_def
        intro!: exI [of _ "length (wf_data (env_inodes env i))"])
  then have "crash_content env path (Some (wf_data (env_inodes env i)))"
    using assms(3) by (auto simp: crash_content_def)
  then show ?thesis
    using assms(2) by (auto simp: settled_def)
qed

text \<open>A reader that holds the records of a MemTable under its generation.\<close>

definition holds_memtable :: "SSTableReader \<Rightarrow> u64 \<Rightarrow> Options \<Rightarrow> MemTable \<Rightarrow> bool" where
  "holds_memtable rd generation options mt \<longleftrightarrow>
     rd_options rd = options \<and> reader_sound rd \<and> summary_sound rd \<and> table_records rd = Records mt \<and>
     md_generation (rd_metadata rd) = generation"

lemma PublishTable_reader:
  assumes wf: "env_wf env" and mt: "keys_sorted (entries memtable)"
    and enc: "EncodeTable fm generation memtable options = Inr bs"
    and settled: "settled env path (Some bs)"
    and "OpenReadOnly path env = (opened, env')" and "SSTableReader_Open opened path options = Inr rd"
  shows "holds_memtable rd generation options memtable"
proof -
  note len = EncodeTable_length [OF enc]
  obtain f where f: "opened = Inr f"
    using assms(6) by (cases opened) (auto simp: SSTableReader_Open_def split: if_splits)
  then obtain i where "env_names env path = Some i" "rf_data f = wf_data (env_inodes env i)"
    using OpenReadOnly_frame(2) [OF assms(5)] by blast
  then have data: "rf_data f = bs"
    using settled_content [OF wf settled] by simp
  have run: "SSTableReader_Open (Inr f) path options = Inr rd"
    using assms(6) f by simp
  show ?thesis
    using opened_records [OF enc mt run data len] Open_reader_sound(1-3) [OF run] data len
    by (simp add: holds_memtable_def)
qed

text \<open>The effect of a publication on the directory and on the reader it returns.\<close>

definition table_published ::
  "FloatMath \<Rightarrow> string \<Rightarrow> u64 \<Rightarrow> MemTable \<Rightarrow> Options \<Rightarrow> Env \<Rightarrow> SSTableReader result \<Rightarrow> Env \<Rightarrow> bool" where
  "table_published fm directory generation mt options env r env' \<longleftrightarrow>
     (let path = table_path directory generation; encoded = EncodeTable fm generation mt options in
      env_wf env' \<and>
      (\<forall>p c. p \<noteq> path \<longrightarrow> p \<noteq> path @ ''.tmp'' \<longrightarrow> crash_content env' p c \<longrightarrow> crash_content env p c) \<and>
      (\<forall>c. crash_content env' path c \<longrightarrow> crash_content env path c \<or> (\<exists>bs. encoded = Inr bs \<and> c = Some bs)) \<and>
      (\<forall>rd. r = Inr rd \<longrightarrow> (\<exists>bs. encoded = Inr bs \<and> settled env' path (Some bs) \<and>
         holds_memtable rd generation options mt)))"

lemma table_published_names:
  assumes "table_published fm directory generation mt options env r env'"
  shows "p \<noteq> table_path directory generation \<Longrightarrow> p \<noteq> table_path directory generation @ ''.tmp'' \<Longrightarrow>
      crash_content env' p c \<Longrightarrow> crash_content env p c"
    and "crash_content env' (table_path directory generation) c \<Longrightarrow>
      crash_content env (table_path directory generation) c \<or>
      (\<exists>bs. EncodeTable fm generation mt options = Inr bs \<and> c = Some bs)"
  using assms by (simp_all add: table_published_def Let_def)

lemma table_published_reader:
  assumes "table_published fm directory generation mt options env r env'" and "r = Inr rd"
  obtains bs where "EncodeTable fm generation mt options = Inr bs"
    and "settled env' (table_path directory generation) (Some bs)"
    and "holds_memtable rd generation options mt"
  using assms by (auto simp: table_published_def Let_def)

lemma holds_memtable_serves:
  assumes "holds_memtable rd generation options mt" and "mt_options mt = options" and "mt_wf mt"
    and "benign_file (rd_file rd)"
  shows "serves rd mt"
  using Get_like_Lookup [of rd mt] assms by (simp add: holds_memtable_def serves_def Let_def)

lemma PublishTable_published:
  assumes wf: "env_wf env" and mt: "keys_sorted (entries memtable)"
    and run: "PublishTable fm directory generation memtable options env = (r, env')"
  shows "table_published fm directory generation memtable options env r env'"
proof (cases "directory = [] \<or> generation = 0 \<or> MemTable_empty memtable \<or>
    (\<exists>s. EncodeTable fm generation memtable options = Inl s)")
  case True
  then have "env' = env" "\<exists>s. r = Inl s"
    using run by (auto simp: PublishTable_def split: if_splits)
  then show ?thesis
    using wf by (auto simp: table_published_def Let_def)
next
  case False
  let ?path = "table_path directory generation"
  obtain bs where enc: "EncodeTable fm generation memtable options = Inr bs"
    using False by (cases "EncodeTable fm generation memtable options") auto
  obtain s e1 where pub: "publish_file ?path bs env = (s, e1)"
    by force
  note safe = publish_file_safe [OF wf pub]
  show ?thesis
  proof (cases "ok s")
    case fail: False
    then have "r = Inl s" "env' = e1"
      using run False enc pub by (simp_all add: PublishTable_def)
    then show ?thesis
      using safe(1-3) enc by (auto simp: table_published_def Let_def)
  next
    case True
    obtain opened e2 where op: "OpenReadOnly ?path e1 = (opened, e2)"
      by force
    have r: "r = SSTableReader_Open opened ?path options" "env' = e2"
      using run False enc pub op True by (simp_all add: PublishTable_def Let_def)
    note same = OpenReadOnly_frame(1) [OF op]
    have "holds_memtable rd generation options memtable" if "r = Inr rd" for rd
      using PublishTable_reader [OF safe(1) mt enc safe(4) [OF True] op] that r(1) by simp
    then show ?thesis
      using safe True enc r(2) env_wf_same [OF same] crash_content_same [OF same] settled_same [OF same]
      by (auto simp: table_published_def Let_def)
  qed
qed

section \<open>Properties\<close>

text \<open>
  C13. Flushing is atomic and loses nothing. Whatever fails in \<open>PublishTable\<close> and whenever the machine
  crashes, the name of the generation shows what it showed before or the complete table, and no
  other name but the temporary one is affected. When \<open>PublishTable\<close> succeeds the table survives
  every crash, and the reader it returns answers every lookup as the MemTable does.
\<close>

theorem PublishTable_atomic:
  assumes "env_wf env" and "mt_wf memtable" and "mt_options memtable = options"
    and "PublishTable fm directory generation memtable options env = (r, env')"
  shows "(\<forall>p c. crash_content env' p c \<longrightarrow> crash_content env p c \<or>
      p = table_path directory generation @ ''.tmp'' \<or>
      p = table_path directory generation \<and> (\<exists>bs. EncodeTable fm generation memtable options = Inr bs \<and> c = Some bs)) \<and>
    (\<forall>rd. r = Inr rd \<longrightarrow> (\<exists>bs. EncodeTable fm generation memtable options = Inr bs \<and>
       settled env' (table_path directory generation) (Some bs) \<and>
       (benign_file (rd_file rd) \<longrightarrow> serves rd memtable)))"
proof -
  let ?path = "table_path directory generation"
  have "keys_sorted (entries memtable)"
    using assms(2) by (simp add: mt_wf_def)
  then have pub: "table_published fm directory generation memtable options env r env'"
    using PublishTable_published assms(1,4) by blast
  have "crash_content env p c \<or> p = ?path @ ''.tmp'' \<or>
      p = ?path \<and> (\<exists>bs. EncodeTable fm generation memtable options = Inr bs \<and> c = Some bs)"
    if "crash_content env' p c" for p c
    using table_published_names [OF pub] that by metis
  moreover have "\<exists>bs. EncodeTable fm generation memtable options = Inr bs \<and> settled env' ?path (Some bs) \<and>
       (benign_file (rd_file rd) \<longrightarrow> serves rd memtable)" if "r = Inr rd" for rd
    using table_published_reader [OF pub that] holds_memtable_serves assms(2,3) by metis
  ultimately show ?thesis
    by simp
qed

definition faulty_env :: Env where
  "faulty_env = \<lparr>env_names = (\<lambda>_. None), env_disk = (\<lambda>_. None),
     env_inodes = (\<lambda>_. \<lparr>wf_name = [], wf_data = [], wf_durable = [], wf_writes = [], wf_syncs = []\<rparr>),
     env_next = 0, env_creates = [], env_renames = [], env_removes = [], env_dirsyncs = [IOError ''fsync''],
     env_scripts = [([Accepts 7, Interrupts], [])], env_opens = []\<rparr>"

theorem PublishTable_atomic_witness:
  "\<exists>r env'. PublishTable sample_math ''db'' 1 sample_memtable default_Options faulty_env = (r, env') \<and>
     (\<forall>c. crash_content env' (table_path ''db'' 1) c \<longrightarrow>
        c = None \<or> (\<exists>bs. EncodeTable sample_math 1 sample_memtable default_Options = Inr bs \<and> c = Some bs))"
proof -
  obtain r env' where run: "PublishTable sample_math ''db'' 1 sample_memtable default_Options faulty_env = (r, env')"
    by force
  have "env_wf faulty_env" "\<And>p c. crash_content faulty_env p c \<Longrightarrow> c = None"
    by (simp_all add: env_wf_def faulty_env_def crash_content_def)
  then show ?thesis
    using PublishTable_atomic [OF _ sample_memtable_wf run] run by fastforce
qed

end
