(* ===== verification/Compaction.thy ===== *)
theory Compaction
  imports Merge Flush
begin

text \<open>
  \<^verbatim>\<open>src/compaction.cpp\<close>: merging of the input tables into MemTables of bounded size and the batch
  publication of these as tables. The merge loop runs over cursors into the records of the
  inputs; each round is the round of theory \<open>Merge\<close>.
\<close>

section \<open>Types\<close>

record MergeCursor =
  mc_source :: nat
  mc_record :: nat

record CompactionInput =
  ci_level :: u32
  ci_table :: "SSTableReader option"

record CompactionBuildStats =
  input_records :: u64
  output_records :: u64
  duplicate_records_dropped :: u64
  tombstones_dropped :: u64

definition empty_CompactionBuildStats :: CompactionBuildStats where
  "empty_CompactionBuildStats = \<lparr>input_records = 0, output_records = 0,
     duplicate_records_dropped = 0, tombstones_dropped = 0\<rparr>"

definition CompactionCorruption :: "string \<Rightarrow> status" where
  "CompactionCorruption msg = Corruption (''compaction: '' @ msg)"

section \<open>The outputs\<close>

definition ApproximateRecordSize :: "MemTableRecord \<Rightarrow> nat" where
  "ApproximateRecordSize rec = 8 + 1 + length (r_key rec) + length (r_value rec)"

definition AddOutputRecord ::
  "MemTableRecord \<Rightarrow> Options \<Rightarrow> MemTable list \<Rightarrow> MemTable list \<times> status" where
  "AddOutputRecord rec options outputs =
     (let outputs = (if outputs = [] then [new_MemTable options] else outputs);
          record_size = ApproximateRecordSize rec;
          outputs =
            (if \<not> MemTable_empty (last outputs) \<and>
                (record_size > compaction_output_size_limit options \<or>
                 unat (ApproximateDataSize (last outputs)) > compaction_output_size_limit options - record_size)
             then outputs @ [new_MemTable options] else outputs);
          (current, s) =
            (if r_type rec = kDeletion then Delete (r_sequence rec) (r_key rec) (last outputs)
             else Put (r_sequence rec) (r_key rec) (r_value rec) (last outputs))
      in (butlast outputs @ [current], s))"

section \<open>The merge\<close>

text \<open>The inputs are read completely, one after the other.\<close>

fun load_inputs :: "u64 list \<Rightarrow> CompactionInput list \<Rightarrow> u64 \<Rightarrow> (MemTableRecord list list \<times> u64) result" where
  "load_inputs file_numbers [] n = Inr ([], n)"
| "load_inputs file_numbers (input # inputs) n =
     (case ci_table input of
        None \<Rightarrow> Inl (InvalidArgument ''compaction input is invalid'')
      | Some table \<Rightarrow>
        let md = rd_metadata table in
        if ci_level input > 1 \<or> md_generation md \<in> set file_numbers \<or> unat (md_record_count md) > size_max
        then Inl (InvalidArgument ''compaction input is invalid'')
        else and_then (snd (ReadRecords (unat (md_record_count md)) table)) (\<lambda>records.
          if length records \<noteq> unat (md_record_count md)
          then Inl (CompactionCorruption ''input record count changed while reading'')
          else or_fail (CheckedAdd n (word_of_nat (length records)))
            (InvalidArgument ''compaction record count overflows'') (\<lambda>n.
          and_then (load_inputs (md_generation md # file_numbers) inputs n) (\<lambda>(sources, n).
          Inr (records # sources, n)))))"

definition cursor_record :: "MemTableRecord list list \<Rightarrow> MergeCursor \<Rightarrow> MemTableRecord" where
  "cursor_record sources c = sources ! mc_source c ! mc_record c"

definition first_cursors :: "MemTableRecord list list \<Rightarrow> MergeCursor list" where
  "first_cursors sources =
     foldl (\<lambda>heap source. if sources ! source \<noteq> []
       then heap_push \<lparr>mc_source = source, mc_record = 0\<rparr> heap else heap) [] [0..<length sources]"

definition next_cursor :: "MergeCursor \<Rightarrow> MergeCursor" where
  "next_cursor c = c\<lparr>mc_record := mc_record c + 1\<rparr>"

definition push_next :: "MemTableRecord list list \<Rightarrow> MergeCursor list \<Rightarrow> MergeCursor list \<Rightarrow> MergeCursor list" where
  "push_next sources same_key heap =
     foldl (\<lambda>heap c. let c = next_cursor c in
       if mc_record c < length (sources ! mc_source c) then heap_push c heap else heap) heap same_key"

definition reused_sequence :: status where
  "reused_sequence = CompactionCorruption ''two input records reuse one global Sequence number''"

text \<open>What happens to the winner of a round: it is dropped or added to the outputs.\<close>

definition emit_winner ::
  "Options \<Rightarrow> bool \<Rightarrow> MemTableRecord \<Rightarrow> MemTable list \<times> CompactionBuildStats \<Rightarrow>
     (MemTable list \<times> CompactionBuildStats) result" where
  "emit_winner options may_drop_tombstones winner = (\<lambda>(outputs, stats).
     if r_type winner = kDeletion \<and> may_drop_tombstones
     then Inr (outputs, stats\<lparr>tombstones_dropped := tombstones_dropped stats + 1\<rparr>)
     else let (outputs, s) = AddOutputRecord winner options outputs in
       if \<not> ok s then Inl s
       else Inr (outputs, stats\<lparr>output_records := output_records stats + 1\<rparr>))"

function merge_loop ::
  "MemTableRecord list list \<Rightarrow> Options \<Rightarrow> bool \<Rightarrow> MergeCursor list \<Rightarrow> MemTable list \<times> CompactionBuildStats \<Rightarrow>
     (MemTable list \<times> CompactionBuildStats) result" where
  "merge_loop sources options may_drop_tombstones heap out =
     (if heap = [] then Inr out
      else let key = r_key (cursor_record sources (heap_top (cursor_later (cursor_record sources)) heap)) in
      case collect_same_key (cursor_record sources) reused_sequence key heap None [] of
        Inl s \<Rightarrow> Inl s
      | Inr (heap', winner, same_key) \<Rightarrow>
        (case winner of
           None \<Rightarrow> Inl (CompactionCorruption ''merge heap lost a user key'')
         | Some w \<Rightarrow>
           (let (outputs, stats) = out;
                stats = stats\<lparr>duplicate_records_dropped :=
                  duplicate_records_dropped stats + word_of_nat (length same_key - 1)\<rparr> in
            case emit_winner options may_drop_tombstones w (outputs, stats) of
              Inl s \<Rightarrow> Inl s
            | Inr out \<Rightarrow>
              merge_loop sources options may_drop_tombstones (push_next sources same_key heap') out)))"
  by pat_completeness auto

text \<open>Every round takes cursors off the queue and puts back only advanced ones.\<close>

definition cursor_weight :: "MemTableRecord list list \<Rightarrow> MergeCursor \<Rightarrow> nat" where
  "cursor_weight sources c = Suc (length (sources ! mc_source c) - mc_record c)"

definition heap_weight :: "MemTableRecord list list \<Rightarrow> MergeCursor multiset \<Rightarrow> nat" where
  "heap_weight sources C = \<Sum>\<^sub># (image_mset (cursor_weight sources) C)"

lemma mset_push_next:
  "mset (push_next sources same heap) = mset heap +
     {#c \<in># image_mset next_cursor (mset same). mc_record c < length (sources ! mc_source c)#}"
  unfolding push_next_def
  by (induction same arbitrary: heap) (simp_all add: Let_def heap_push_def)

lemma weight_push_next:
  assumes "same \<noteq> []"
  shows "heap_weight sources (mset (push_next sources same heap)) < heap_weight sources (mset heap + mset same)"
proof -
  let ?in = "\<lambda>c. mc_record c < length (sources ! mc_source c)"
  have "heap_weight sources {#c \<in># image_mset next_cursor (mset cs). ?in c#} + length cs \<le>
      heap_weight sources (mset cs)" for cs
    by (induction cs) (auto simp: heap_weight_def cursor_weight_def next_cursor_def)
  from this [of same] show ?thesis
    using assms by (cases same) (simp_all add: mset_push_next heap_weight_def)
qed

lemma collect_weight:
  assumes "heap \<noteq> []" and "key = r_key (cursor_record sources (heap_top (cursor_later (cursor_record sources)) heap))"
    and "collect_same_key (cursor_record sources) reused_sequence key heap None [] = Inr (heap', winner, same)"
  shows "heap_weight sources (mset (push_next sources same heap')) < heap_weight sources (mset heap)"
  using weight_push_next [of same sources heap'] collect_partition(1,2) [OF assms] by simp

termination merge_loop
  by (relation "measure (\<lambda>(sources, _, _, heap, _). heap_weight sources (mset heap))")
    (auto intro: collect_weight)

declare merge_loop.simps [simp del]

definition BuildCompactionOutputs ::
  "CompactionInput list \<Rightarrow> Options \<Rightarrow> bool \<Rightarrow> (MemTable list \<times> CompactionBuildStats) result" where
  "BuildCompactionOutputs inputs options may_drop_tombstones =
     (if inputs = [] \<or> compaction_output_size_limit options = 0
      then Inl (InvalidArgument ''compaction requires inputs and a non-zero output size limit'')
      else and_then (load_inputs [] inputs 0) (\<lambda>(sources, n).
        merge_loop sources options may_drop_tombstones (first_cursors sources)
          ([], empty_CompactionBuildStats\<lparr>input_records := n\<rparr>)))"

section \<open>The merge loop delivers the newest versions\<close>

definition rest_of :: "MemTableRecord list list \<Rightarrow> MergeCursor \<Rightarrow> MemTableRecord list" where
  "rest_of sources c = drop (mc_record c) (sources ! mc_source c)"

definition placed :: "MemTableRecord list list \<Rightarrow> MergeCursor \<Rightarrow> bool" where
  "placed sources c \<longleftrightarrow> mc_source c < length sources \<and> mc_record c < length (sources ! mc_source c)"

lemma placed_standing:
  assumes "\<forall>rs \<in> set sources. records_sorted rs" and "placed sources c"
  shows "standing (cursor_record sources) (rest_of sources) c"
  using assms
  by (simp add: standing_def placed_def cursor_record_def rest_of_def hd_drop_conv_nth drop_map [symmetric]
      sorted_wrt_drop)

lemma rest_of_next: "rest_of sources (next_cursor c) = tl (rest_of sources c)"
  by (simp add: rest_of_def next_cursor_def tl_drop drop_Suc)

lemma pool_push_next:
  "pool (rest_of sources) (mset (push_next sources same heap)) = pool_after (rest_of sources) heap same"
proof -
  let ?in = "\<lambda>c. mc_record c < length (sources ! mc_source c)"
  have "pool (rest_of sources) {#c \<in># image_mset next_cursor C. ?in c#} = pool (tl \<circ> rest_of sources) C" for C
  proof (induction C)
    case (add c C)
    have "rest_of sources (next_cursor c) = []" if "\<not> ?in (next_cursor c)"
      using that by (simp add: rest_of_def)
    then show ?case
      using add rest_of_next [of sources c] by (simp add: fun_eq_iff)
  qed simp
  then show ?thesis
    by (simp add: mset_push_next pool_after_def)
qed

lemma placed_push_next:
  assumes "\<forall>c \<in> set heap. placed sources c" and "mset heap = mset heap' + mset same"
  shows "\<forall>c \<in> set (push_next sources same heap'). placed sources c"
proof -
  have "set heap = set heap' \<union> set same"
    by (metis assms(2) set_mset_mset set_mset_union)
  moreover have "set (push_next sources same heap') = set_mset (mset (push_next sources same heap'))"
    by simp
  ultimately show ?thesis
    using assms(1) unfolding mset_push_next by (auto simp: placed_def next_cursor_def)
qed

fun add_outputs :: "Options \<Rightarrow> MemTableRecord list \<Rightarrow> MemTable list \<Rightarrow> MemTable list result" where
  "add_outputs options [] outputs = Inr outputs"
| "add_outputs options (r # rs) outputs =
     (let (outputs, s) = AddOutputRecord r options outputs in
      if \<not> ok s then Inl s else add_outputs options rs outputs)"

definition kept :: "bool \<Rightarrow> MemTableRecord \<Rightarrow> bool" where
  "kept may_drop_tombstones r \<longleftrightarrow> \<not> (r_type r = kDeletion \<and> may_drop_tombstones)"

definition counted :: "bool \<Rightarrow> nat \<Rightarrow> MemTableRecord list \<Rightarrow> CompactionBuildStats \<Rightarrow> CompactionBuildStats" where
  "counted drop_them n rs st = st\<lparr>
     output_records := output_records st + word_of_nat (length (filter (kept drop_them) rs)),
     duplicate_records_dropped := duplicate_records_dropped st + word_of_nat n - word_of_nat (length rs),
     tombstones_dropped := tombstones_dropped st + word_of_nat (length (filter (\<lambda>r. \<not> kept drop_them r) rs))\<rparr>"

lemma emit_winner_cases:
  "emit_winner options drop_them w (outs, st) =
     (if kept drop_them w
      then and_then (add_outputs options [w] outs) (\<lambda>outs. Inr (outs, st\<lparr>output_records := output_records st + 1\<rparr>))
      else Inr (outs, st\<lparr>tombstones_dropped := tombstones_dropped st + 1\<rparr>))"
  by (auto simp: emit_winner_def kept_def Let_def split: prod.splits)

lemma add_outputs_append:
  "add_outputs options (xs @ ys) outs = and_then (add_outputs options xs outs) (add_outputs options ys)"
  by (induction xs arbitrary: outs) (auto split: prod.splits)

lemma counted_step:
  assumes "same \<noteq> []" and "st1 = st\<lparr>duplicate_records_dropped :=
      duplicate_records_dropped st + word_of_nat (length same - 1)\<rparr>"
    and "st2 = (if kept drop_them w then st1\<lparr>output_records := output_records st + 1\<rparr>
      else st1\<lparr>tombstones_dropped := tombstones_dropped st + 1\<rparr>)"
  shows "counted drop_them n rs st2 = counted drop_them (length same + n) (w # rs) st"
  using assms by (cases same) (simp_all add: counted_def)

text \<open>The whole run: a list of the strictly newest records in key order goes to the outputs.\<close>

definition merged :: "MemTableRecord multiset \<Rightarrow> MemTableRecord list \<Rightarrow> bool" where
  "merged P rs \<longleftrightarrow> records_sorted rs \<and> set rs = {r. strictly_newest P r}"

definition merge_result ::
  "Options \<Rightarrow> bool \<Rightarrow> MemTableRecord multiset \<Rightarrow> MemTable list \<Rightarrow> CompactionBuildStats \<Rightarrow>
     (MemTable list \<times> CompactionBuildStats) result \<Rightarrow> bool" where
  "merge_result options drop_them P outs st r \<longleftrightarrow>
     (case r of
        Inl s \<Rightarrow> s = reused_sequence \<and> \<not> unambiguous P \<or>
          (\<exists>rs. records_sorted rs \<and> (\<forall>r \<in> set rs. strictly_newest P r) \<and>
             add_outputs options (filter (kept drop_them) rs) outs = Inl s)
      | Inr (outs', st') \<Rightarrow> unambiguous P \<and>
          (\<exists>rs. merged P rs \<and> add_outputs options (filter (kept drop_them) rs) outs = Inr outs' \<and>
             st' = counted drop_them (size P) rs st))"

lemma merge_result_step:
  assumes r: "merge_result options drop_them P' outs' st' r"
    and outs: "add_outputs options (filter (kept drop_them) [w]) outs = Inr outs'"
    and w: "\<forall>q \<in># P'. r_key w < r_key q" "\<forall>r. strictly_newest P r \<longleftrightarrow> r = w \<or> strictly_newest P' r"
    and "unambiguous P \<longleftrightarrow> unambiguous P'"
    and st: "\<And>rs. counted drop_them (size P') rs st' = counted drop_them (size P) (w # rs) st"
  shows "merge_result options drop_them P outs st r"
proof -
  have above: "r_key w < r_key q" if "strictly_newest P' q" for q
    using that w(1) by (auto simp: strictly_newest_def)
  have more: "add_outputs options (filter (kept drop_them) (w # rs)) outs =
      add_outputs options (filter (kept drop_them) rs) outs'" for rs
  proof -
    have "filter (kept drop_them) (w # rs) = filter (kept drop_them) [w] @ filter (kept drop_them) rs"
      by simp
    then show ?thesis
      by (simp only: add_outputs_append outs and_then_simps)
  qed
  show ?thesis
  proof (cases r)
    case (Inl s)
    then consider "s = reused_sequence" "\<not> unambiguous P'"
      | rs where "records_sorted rs" "\<forall>r \<in> set rs. strictly_newest P' r"
          "add_outputs options (filter (kept drop_them) rs) outs' = Inl s"
      using r by (auto simp: merge_result_def)
    then show ?thesis
    proof cases
      case 1
      then show ?thesis
        using assms(5) by (simp add: merge_result_def Inl)
    next
      case (2 rs)
      then have "records_sorted (w # rs)" "\<forall>r \<in> set (w # rs). strictly_newest P r"
        using above w(2) by auto
      moreover have "add_outputs options (filter (kept drop_them) (w # rs)) outs = Inl s"
        unfolding more using 2(3) .
      ultimately show ?thesis
        unfolding merge_result_def Inl sum.case by blast
    qed
  next
    case (Inr x)
    obtain outs2 st2 where x: "x = (outs2, st2)"
      by force
    obtain rs where rs: "unambiguous P'" "merged P' rs"
        "add_outputs options (filter (kept drop_them) rs) outs' = Inr outs2"
        "st2 = counted drop_them (size P') rs st'"
      using r by (auto simp: Inr x merge_result_def)
    have "merged P (w # rs)"
      using rs(2) above w(2) by (auto simp: merged_def)
    moreover have "add_outputs options (filter (kept drop_them) (w # rs)) outs = Inr outs2"
      unfolding more using rs(3) .
    moreover have "st2 = counted drop_them (size P) (w # rs) st"
      using rs(4) st by simp
    ultimately show ?thesis
      unfolding merge_result_def Inr x sum.case prod.case using rs(1) assms(5) by blast
  qed
qed

lemma merge_loop_correct:
  assumes sorted: "\<forall>rs \<in> set sources. records_sorted rs" and "\<forall>c \<in> set heap. placed sources c"
  shows "merge_result options drop_them (pool (rest_of sources) (mset heap)) outs st
    (merge_loop sources options drop_them heap (outs, st))"
  using assms(2)
proof (induction heap arbitrary: outs st
    rule: measure_induct_rule [of "\<lambda>heap. heap_weight sources (mset heap)"])
  case (less heap)
  let ?P = "pool (rest_of sources) (mset heap)" and ?cur = "cursor_record sources"
  show ?case
  proof (cases "heap = []")
    case True
    then show ?thesis
      by (subst merge_loop.simps)
        (simp add: merge_result_def merged_def unambiguous_def strictly_newest_def counted_def)
  next
    case False
    define key where key: "key = r_key (?cur (heap_top (cursor_later ?cur) heap))"
    have standing: "\<forall>c \<in> set heap. standing ?cur (rest_of sources) c"
      using less.prems placed_standing [OF sorted] by blast
    note round = merge_round [of heap key ?cur, OF False key this, of reused_sequence]
    show ?thesis
    proof (cases "collect_same_key ?cur reused_sequence key heap None []")
      case (Inl s)
      then show ?thesis
        using round False by (subst merge_loop.simps) (simp add: merge_result_def key Let_def)
    next
      case (Inr res)
      obtain heap' winner same where res: "res = (heap', winner, same)"
        by (cases res)
      let ?h = "push_next sources same heap'" and ?st = "st\<lparr>duplicate_records_dropped :=
        duplicate_records_dropped st + word_of_nat (length same - 1)\<rparr>"
      obtain w where w: "winner = Some w" "r_key w = key" "mset heap = mset heap' + mset same" "same \<noteq> []"
        "\<forall>q \<in># pool (rest_of sources) (mset ?h). key < r_key q"
        "unambiguous ?P \<longleftrightarrow> unambiguous (pool (rest_of sources) (mset ?h))"
        "\<forall>r. strictly_newest ?P r \<longleftrightarrow> r = w \<or> strictly_newest (pool (rest_of sources) (mset ?h)) r"
        using round by (auto simp: Inr res pool_push_next)
      have run: "merge_loop sources options drop_them heap (outs, st) =
          and_then (emit_winner options drop_them w (outs, ?st)) (merge_loop sources options drop_them ?h)"
        using False Inr [unfolded res w(1)] by (subst merge_loop.simps) (simp add: key Let_def and_then_def)
      have size: "size ?P = length same + size (pool (rest_of sources) (mset ?h))"
        using size_pool [OF w(3)] standing by (simp add: pool_push_next)
      show ?thesis
      proof (cases "emit_winner options drop_them w (outs, ?st)")
        case (Inl s)
        then have "add_outputs options (filter (kept drop_them) [w]) outs = Inl s"
          by (auto simp: emit_winner_cases and_then_def split: if_splits sum.splits)
        moreover have "records_sorted [w]" "\<forall>r \<in> set [w]. strictly_newest ?P r"
          using w(7) by simp_all
        ultimately show ?thesis
          unfolding run Inl and_then_simps merge_result_def sum.case by blast
      next
        case (Inr x)
        obtain outs' st' where x: "x = (outs', st')"
          by force
        have emit: "add_outputs options (filter (kept drop_them) [w]) outs = Inr outs'"
          "st' = (if kept drop_them w then ?st\<lparr>output_records := output_records st + 1\<rparr>
             else ?st\<lparr>tombstones_dropped := tombstones_dropped st + 1\<rparr>)"
          using Inr by (auto simp: x emit_winner_cases and_then_Inr split: if_splits)
        have st: "counted drop_them n rs st' = counted drop_them (length same + n) (w # rs) st" for n rs
          by (rule counted_step [OF w(4) refl emit(2)])
        have "heap_weight sources (mset ?h) < heap_weight sources (mset heap)"
          using weight_push_next [OF w(4), of sources heap'] by (simp add: w(3))
        from less.IH [OF this placed_push_next [OF less.prems w(3)], of outs' st']
        show ?thesis
          unfolding run Inr x and_then_simps
          by (rule merge_result_step) (use emit(1) w st size in auto)
      qed
    qed
  qed
qed

end
