(* ===== verification/CompactionOutputs.thy ===== *)
theory CompactionOutputs
  imports Compaction
begin

text \<open>
  What \<open>BuildCompactionOutputs\<close> of \<^verbatim>\<open>src/compaction.cpp\<close> produces: MemTables of bounded size that
  together hold, in key order, exactly the newest version of every key of the inputs.
\<close>

section \<open>Adding in key order\<close>

lemma emplace_last: "\<forall>k' \<in> fst ` set ps. k' < k \<Longrightarrow> map_emplace k v ps = ps @ [(k, v)]"
  by (induction ps) auto

lemma encodable_valid:
  assumes "encodable options (wal_of r)" and "mt_options mt = options"
  shows "r_sequence r \<noteq> 0" and "ok (Validate mt (r_key r) (r_value r))" and "storable r"
  using assms
  by (auto simp: encodable_def ValidateWalRecord_ok_iff ValidateLengths_ok_iff Validate_ok_iff wal_of_def
      storable_def)

lemma add_last:
  assumes mt: "mt_wf mt" "mt_options mt = options" and fit: "options_fit options"
    and r: "encodable options (wal_of r)" and above: "\<forall>q \<in> set (Records mt). r_key q < r_key r"
    and room: "payload_total (entries mt) + ApproximateRecordSize r \<le> size_max"
  shows "\<exists>mt'. apply_record r mt = (mt', Ok) \<and> mt_wf mt' \<and> mt_options mt' = options \<and>
    Records mt' = Records mt @ [r] \<and>
    payload_total (entries mt') = payload_total (entries mt) + ApproximateRecordSize r"
proof -
  note valid = encodable_valid [OF r mt(2)]
  let ?add = "Add (r_sequence r) (r_type r) (r_key r) (r_value r) mt"
  have keys: "\<forall>k \<in> fst ` set (entries mt). k < r_key r"
    using above by (force simp: Records_def)
  have none: "map_of (entries mt) (r_key r) = None"
    using keys by (auto simp: map_of_eq_None_iff)
  have size: "entry_size (r_key r) (r_value r) = ApproximateRecordSize r"
    by (simp add: entry_size_def ApproximateRecordSize_def)
  have ok: "ok (snd ?add)"
    using Add_succeeds [OF mt(1) valid(1,2)] none room by (simp add: view_def size)
  have "entries (fst ?add) = entries mt @ [(r_key r, new_entry (r_sequence r) (r_type r) (r_value r))]"
    using Add_ok_entries(1) [OF ok] none emplace_last [OF keys] by (simp add: omap.upsert_def)
  moreover have "mt_wf (fst ?add)"
    using Add_ok_wf [OF mt(1) ok] valid(3) fit mt(2) by (simp add: storable_def)
  moreover have "snd ?add = Ok"
    using ok by (auto simp: Add_def Let_def Validate_def split: if_splits option.splits)
  ultimately show ?thesis
    using apply_record_Add [OF valid(3), of mt] Add_ok_entries(2) [OF ok] mt(2) size
    by (intro exI [of _ "fst ?add"])
      (auto simp: Records_def payload_total_def new_entry_def prod_eq_iff)
qed

text \<open>Outputs that hold a list of records: full tables are cut at the size limit.\<close>

definition bounded :: "Options \<Rightarrow> MemTable \<Rightarrow> bool" where
  "bounded options mt \<longleftrightarrow>
     unat (ApproximateDataSize mt) \<le> compaction_output_size_limit options \<or> MemTable_size mt = 1"

definition outputs_hold :: "Options \<Rightarrow> MemTable list \<Rightarrow> MemTableRecord list \<Rightarrow> bool" where
  "outputs_hold options outs rs \<longleftrightarrow> concat (map Records outs) = rs \<and>
     (\<forall>mt \<in> set outs. mt_wf mt \<and> mt_options mt = options \<and> \<not> MemTable_empty mt \<and> bounded options mt)"

lemma AddOutputRecord_target:
  assumes "pre @ [mt] = (if outs = [] then [new_MemTable options]
      else if ApproximateRecordSize r > compaction_output_size_limit options \<or>
        unat (ApproximateDataSize (last outs)) > compaction_output_size_limit options - ApproximateRecordSize r
      then outs @ [new_MemTable options] else outs)"
    and "\<forall>mt \<in> set outs. \<not> MemTable_empty mt"
  shows "AddOutputRecord r options outs = (let (mt', s) = apply_record r mt in (pre @ [mt'], s))"
proof -
  have type: "r_type r = kDeletion \<longleftrightarrow> r_type r \<noteq> kValue"
    by (cases "r_type r") simp_all
  have "MemTable_empty (new_MemTable options)"
    by (simp add: MemTable_empty_def new_MemTable_def)
  then show ?thesis
    using assms
    by (cases "outs = []") (auto simp: AddOutputRecord_def Let_def apply_record_def type butlast_append
        append_eq_append_conv2 split: if_splits)
qed

lemma new_MemTable_facts:
  "Records (new_MemTable options) = []" "payload_total (entries (new_MemTable options)) = 0"
  by (simp_all add: Records_def payload_total_def new_MemTable_def)

lemma MemTable_size_Records: "MemTable_size mt = length (Records mt)"
  by (simp add: MemTable_size_def Records_def)

lemma MemTable_empty_Records: "MemTable_empty mt \<longleftrightarrow> Records mt = []"
  by (simp add: MemTable_empty_def Records_def)

lemma outputs_hold_snoc:
  assumes "outputs_hold options pre rs" and "mt_wf mt" "mt_options mt = options" "Records mt = ms @ [r]" "bounded options mt"
  shows "outputs_hold options (pre @ [mt]) (rs @ ms @ [r])"
  using assms by (auto simp: outputs_hold_def MemTable_empty_Records)

lemma AddOutputRecord_holds:
  assumes outs: "outputs_hold options outs rs"
    and fit: "options_fit options" "compaction_output_size_limit options \<le> size_max"
    and r: "encodable options (wal_of r)" and above: "\<forall>q \<in> set rs. r_key q < r_key r"
  shows "\<exists>outs'. AddOutputRecord r options outs = (outs', Ok) \<and> outputs_hold options outs' (rs @ [r])"
proof (cases "outs = [] \<or> ApproximateRecordSize r > compaction_output_size_limit options \<or>
    unat (ApproximateDataSize (last outs)) > compaction_output_size_limit options - ApproximateRecordSize r")
  case True
  let ?new = "new_MemTable options"
  have run: "AddOutputRecord r options outs = (let (mt', s) = apply_record r ?new in (outs @ [mt'], s))"
    by (rule AddOutputRecord_target) (use True outs in \<open>auto simp: outputs_hold_def\<close>)
  have "ApproximateRecordSize r \<le> size_max"
    using encodable_bounds(1) [OF r] by (simp add: ApproximateRecordSize_def wal_of_def)
  then obtain mt' where mt': "apply_record r ?new = (mt', Ok)" "mt_wf mt'" "mt_options mt' = options"
      "Records mt' = [] @ [r]"
    using add_last [of ?new options r] fit(1) r by (auto simp: new_MemTable_facts)
  moreover have "bounded options mt'"
    using mt'(4) by (simp add: bounded_def MemTable_size_Records)
  ultimately show ?thesis
    using run outputs_hold_snoc [OF outs mt'(2-4)] by auto
next
  case False
  obtain pre mt where last: "outs = pre @ [mt]"
    using False by (metis rev_exhaust)
  have run: "AddOutputRecord r options outs = (let (mt', s) = apply_record r mt in (pre @ [mt'], s))"
    by (rule AddOutputRecord_target) (use False outs last in \<open>auto simp: outputs_hold_def\<close>)
  have pre: "outputs_hold options pre (concat (map Records pre))" and rs: "rs = concat (map Records pre) @ Records mt"
    and mt: "mt_wf mt" "mt_options mt = options"
    using outs by (auto simp: outputs_hold_def last)
  have size: "unat (ApproximateDataSize mt) = payload_total (entries mt)"
    using mt(1) by (simp add: mt_wf_def ApproximateDataSize_def)
  have room: "payload_total (entries mt) + ApproximateRecordSize r \<le> compaction_output_size_limit options"
    using False size by (auto simp: last not_less)
  obtain mt' where mt': "apply_record r mt = (mt', Ok)" "mt_wf mt'" "mt_options mt' = options"
      "Records mt' = Records mt @ [r]" "payload_total (entries mt') = payload_total (entries mt) + ApproximateRecordSize r"
    using add_last [OF mt fit(1) r] above room fit(2) by (auto simp: rs)
  have "bounded options mt'"
    using mt'(2,5) room by (simp add: bounded_def mt_wf_def ApproximateDataSize_def)
  then show ?thesis
    using run mt'(1) outputs_hold_snoc [OF pre mt'(2-4)] by (auto simp: rs)
qed

lemma add_outputs_holds:
  assumes "options_fit options" and "compaction_output_size_limit options \<le> size_max"
  shows "outputs_hold options outs ps \<Longrightarrow> records_sorted (ps @ rs) \<Longrightarrow> records_encodable options rs \<Longrightarrow>
    \<exists>outs'. add_outputs options rs outs = Inr outs' \<and> outputs_hold options outs' (ps @ rs)"
proof (induction rs arbitrary: outs ps)
  case (Cons r rs)
  obtain outs1 where step: "AddOutputRecord r options outs = (outs1, Ok)" "outputs_hold options outs1 (ps @ [r])"
    using AddOutputRecord_holds [OF Cons.prems(1) assms, of r] Cons.prems(2,3) by (auto simp: sorted_wrt_append)
  show ?case
    using Cons.IH [OF step(2)] Cons.prems(2,3) step(1) by simp
qed simp

section \<open>The inputs\<close>

lemma read_records_loop_sound:
  assumes "read_records_loop ixs limit acc rd = (rd', Inr rs)" and "length acc < limit"
  shows "rs = take limit (acc @ concat (map (\<lambda>i. block_records rd (rd_index rd ! i)) ixs))"
  using assms
proof (induction ixs arbitrary: acc rd)
  case (Cons i ixs)
  obtain rd1 st bs where rb: "ReadBlock i empty_SSTableReadStats rd = (rd1, st, Inr bs)"
    using Cons.prems(1) by (auto split: prod.splits sum.splits)
  have bs: "block_records rd (rd_index rd ! i) = bs"
    using ReadBlock_Inr(2) [OF rb] by (simp add: block_records_def)
  have same: "rd_index rd1 = rd_index rd" "block_records rd1 = block_records rd"
    using ReadBlock_same [OF rb] same_table_block_of(2) [OF ReadBlock_same [OF rb]] by (simp_all add: same_table_def)
  show ?case
  proof (cases "length (acc @ take (limit - length acc) bs) = limit")
    case True
    then show ?thesis
      using Cons.prems rb bs by (auto simp: Let_def)
  next
    case False
    then have short: "length (acc @ bs) < limit" "take (limit - length acc) bs = bs"
      using Cons.prems(2) by auto
    then have "read_records_loop ixs limit (acc @ bs) rd1 = (rd', Inr rs)"
      using Cons.prems(1) rb by (simp add: Let_def)
    from Cons.IH [OF this short(1)] show ?thesis
      by (simp add: same bs)
  qed
qed simp

lemma ReadRecords_sound:
  assumes "ReadRecords limit rd = (rd', Inr rs)"
  shows "rs = take limit (table_records rd)"
proof -
  have "map (\<lambda>i. block_records rd (rd_index rd ! i)) [0..<length (rd_index rd)] =
      map (block_records rd) (rd_index rd)"
    by (rule nth_equalityI) simp_all
  then show ?thesis
    using assms read_records_loop_sound [of "[0..<length (rd_index rd)]" limit "[]" rd rd' rs]
    by (cases "limit = 0") (auto simp: ReadRecords_def table_records_def)
qed

definition opened_input :: "Options \<Rightarrow> CompactionInput \<Rightarrow> bool" where
  "opened_input options input \<longleftrightarrow> (case ci_table input of None \<Rightarrow> False
     | Some rd \<Rightarrow> reader_sound rd \<and> summary_sound rd \<and> rd_options rd = options)"

definition input_records_of :: "CompactionInput \<Rightarrow> MemTableRecord list" where
  "input_records_of input = (case ci_table input of None \<Rightarrow> [] | Some rd \<Rightarrow> table_records rd)"

lemma CheckedAdd_Some: "CheckedAdd a b = Some c \<longleftrightarrow> unat a + unat b \<le> u64_max \<and> c = a + b"
  by (auto simp: CheckedAdd_def overflow_guard not_less not_le split: if_splits)

lemma load_inputs_sound:
  assumes "load_inputs nums inputs n = Inr (sources, n')" and "\<forall>i \<in> set inputs. opened_input options i"
  shows "sources = map input_records_of inputs \<and>
    unat n' = unat n + length (concat (map input_records_of inputs))"
  using assms
proof (induction inputs arbitrary: nums n sources n')
  case (Cons input inputs)
  obtain rd where rd: "ci_table input = Some rd" "summary_sound rd"
    using Cons.prems by (auto simp: opened_input_def split: option.splits)
  obtain rs m sources' where load: "snd (ReadRecords (unat (md_record_count (rd_metadata rd))) rd) = Inr rs"
      "CheckedAdd n (word_of_nat (length rs)) = Some m" "length rs = unat (md_record_count (rd_metadata rd))"
      "load_inputs (md_generation (rd_metadata rd) # nums) inputs m = Inr (sources', n')" "sources = rs # sources'"
    using Cons.prems(1) rd(1) by (auto simp: Let_def and_then_Inr or_fail_Inr split: if_splits)
  obtain rd' where "ReadRecords (unat (md_record_count (rd_metadata rd))) rd = (rd', Inr rs)"
    using load(1) by (metis prod.collapse)
  from ReadRecords_sound [OF this] have rs: "rs = input_records_of input"
    using rd by (simp add: input_records_of_def summary_sound_def)
  have "unat (word_of_nat (length rs) :: u64) = length rs"
    using unat_lt_u64 [of "md_record_count (rd_metadata rd)"] load(3) by (simp add: unat_of_nat_u64)
  then have "unat m = unat n + length rs"
    using load(2) by (auto simp: CheckedAdd_Some unat_plus_u64)
  then show ?case
    using Cons.IH [OF load(4)] Cons.prems(2) load(5) rs by simp
qed simp

lemma load_inputs_benign:
  assumes "\<forall>i \<in> set inputs. opened_input options i \<and> ci_level i \<le> 1"
    and "\<forall>i \<in> set inputs. benign_file (rd_file (the (ci_table i)))"
    and "distinct (nums @ map (\<lambda>i. md_generation (rd_metadata (the (ci_table i)))) inputs)"
    and "unat n + length (concat (map input_records_of inputs)) \<le> u64_max"
  shows "\<exists>r. load_inputs nums inputs n = Inr r"
  using assms
proof (induction inputs arbitrary: nums n)
  case (Cons input inputs)
  obtain rd where rd: "ci_table input = Some rd" "reader_sound rd" "summary_sound rd"
    using Cons.prems(1) by (auto simp: opened_input_def split: option.splits)
  let ?count = "md_record_count (rd_metadata rd)" and ?gen = "md_generation (rd_metadata rd)"
    and ?n = "n + word_of_nat (length (table_records rd))"
  have count: "unat ?count = length (table_records rd)"
    using rd(3) by (simp add: summary_sound_def)
  obtain rd' where read: "ReadRecords (unat ?count) rd = (rd', Inr (table_records rd))"
    using ReadRecords_benign [OF rd(2), of "unat ?count"] Cons.prems(2) rd(1) count by auto
  have len: "unat (word_of_nat (length (table_records rd)) :: u64) = length (table_records rd)"
    using unat_lt_u64 [of ?count] count by (simp add: unat_of_nat_u64)
  then have n: "unat ?n = unat n + length (table_records rd)"
    using Cons.prems(4) by (simp add: unat_plus_u64 input_records_of_def rd(1))
  have "\<exists>r. load_inputs (?gen # nums) inputs ?n = Inr r"
    by (rule Cons.IH) (use Cons.prems rd(1) n in \<open>auto simp: input_records_of_def\<close>)
  then obtain r where r: "load_inputs (?gen # nums) inputs ?n = Inr r"
    by blast
  moreover have "CheckedAdd n (word_of_nat (length (table_records rd))) = Some ?n"
    using Cons.prems(4) len by (simp add: CheckedAdd_Some input_records_of_def rd(1))
  ultimately show ?case
    using Cons.prems(1,3) rd(1) read count unat_lt_u64 [of ?count] by (auto simp: Let_def not_less split: prod.split)
qed simp

section \<open>The reference\<close>

lemma strictly_newest_once:
  assumes "strictly_newest (mset rs) r"
  shows "count (mset rs) r = 1"
proof -
  have "r \<notin># mset rs - {#r#}" "r \<in># mset rs"
    using assms by (auto simp: strictly_newest_def)
  then show ?thesis
    by (metis One_nat_def count_single count_greater_zero_iff in_diff_count less_one linorder_neqE_nat not_less_eq)
qed

lemma newest_merged: "merged (mset rs) (newest rs)"
proof -
  let ?N = "filter (strictly_newest (mset rs)) rs"
  have set: "set ?N = {r. strictly_newest (mset rs) r}"
    by (auto simp: strictly_newest_def)
  have "count (mset ?N) r \<le> 1" for r
    using strictly_newest_once [of rs r] by auto
  then have "distinct ?N"
    by (metis One_nat_def count_greater_eq_one_iff count_mset_0_iff distinct_count_atmost_1 le_antisym set_mset_mset)
  moreover have "inj_on r_key (set ?N)"
    unfolding set by (auto intro!: inj_onI strictly_newest_unique)
  ultimately have "distinct (map r_key (newest rs))"
    by (simp add: newest_def distinct_map)
  then have "records_sorted (newest rs)"
    using strict_sorted_iff [of "map r_key (newest rs)"] by (simp add: newest_def)
  then show ?thesis
    using set by (simp add: merged_def newest_def)
qed

lemma merged_unique:
  assumes "merged P xs" and "merged P ys"
  shows "xs = ys"
proof (rule map_sorted_distinct_set_unique)
  show "inj_on r_key (set xs \<union> set ys)"
    using assms by (auto simp: merged_def intro!: inj_onI strictly_newest_unique)
qed (use assms in \<open>auto simp: merged_def strict_sorted_iff\<close>)

lemma merged_newest: "merged (mset rs) xs \<longleftrightarrow> xs = newest rs"
  using newest_merged merged_unique by blast

section \<open>The result of a compaction\<close>

lemma first_cursors_pool:
  "\<forall>c \<in> set (first_cursors sources). placed sources c"
  "pool (rest_of sources) (mset (first_cursors sources)) = mset (concat sources)"
proof -
  define push where "push = (\<lambda>heap source. if sources ! source \<noteq> []
       then heap_push \<lparr>mc_source = source, mc_record = 0\<rparr> heap else heap)"
  have placed: "\<forall>c \<in> set (push heap i). placed sources c"
    if "\<forall>c \<in> set heap. placed sources c" "i < length sources" for heap i
    using that by (auto simp: push_def heap_push_def placed_def)
  have pool: "pool (rest_of sources) (mset (push heap i)) = mset (sources ! i) + pool (rest_of sources) (mset heap)"
    for heap i
    by (simp add: push_def heap_push_def rest_of_def)
  have step: "(\<forall>c \<in> set (foldl push heap ixs). placed sources c) \<and>
      pool (rest_of sources) (mset (foldl push heap ixs)) =
        pool (rest_of sources) (mset heap) + (\<Sum>i \<leftarrow> ixs. mset (sources ! i))"
    if "\<forall>c \<in> set heap. placed sources c" "\<forall>i \<in> set ixs. i < length sources" for heap ixs
    using that
  proof (induction ixs arbitrary: heap)
    case (Cons i ixs)
    have "\<forall>c \<in> set (push heap i). placed sources c"
      using Cons.prems by (intro placed) simp_all
    from Cons.IH [OF this] show ?case
      using Cons.prems(2) by (simp add: pool ac_simps)
  qed simp
  have "(\<Sum>i \<leftarrow> [0..<length sources]. mset (sources ! i)) = mset (concat sources)"
    using map_nth [of sources] by (simp add: mset_concat flip: map_map [unfolded comp_def])
  then show "\<forall>c \<in> set (first_cursors sources). placed sources c"
    "pool (rest_of sources) (mset (first_cursors sources)) = mset (concat sources)"
    using step [of "[]" "[0..<length sources]"] by (simp_all add: first_cursors_def push_def)
qed

lemma reader_records_encodable:
  assumes "reader_sound rd"
  shows "records_encodable (rd_options rd) (table_records rd)"
proof -
  have "records_encodable (rd_options rd) (block_records rd e)" if e: "e \<in> set (rd_index rd)" for e
  proof -
    obtain rs where "block_of rd e = Inr rs"
      using assms e by (auto simp: reader_sound_def block_sound_def)
    then show ?thesis
      using decode_block_sound(2) [of "rd_options rd" e] by (simp add: block_records_def block_of_def)
  qed
  then show ?thesis
    by (auto simp: table_records_def list_all_iff)
qed

lemma opened_input_records:
  assumes "opened_input options input"
  shows "records_sorted (input_records_of input)" "records_encodable options (input_records_of input)"
  using assms reader_records_encodable
  by (auto simp: opened_input_def input_records_of_def reader_sound_def split: option.splits)

definition compacted ::
  "Options \<Rightarrow> bool \<Rightarrow> MemTableRecord list \<Rightarrow> (MemTable list \<times> CompactionBuildStats) result \<Rightarrow> bool" where
  "compacted options drop_them rs result \<longleftrightarrow>
     (if unambiguous (mset rs)
      then \<exists>outs. result = Inr (outs, counted drop_them (length rs) (newest rs)
             (empty_CompactionBuildStats\<lparr>input_records := word_of_nat (length rs)\<rparr>)) \<and>
           outputs_hold options outs (filter (kept drop_them) (newest rs))
      else result = Inl reused_sequence)"

lemma BuildCompactionOutputs_compacted:
  assumes inputs: "\<forall>i \<in> set inputs. opened_input options i"
    and fit: "options_fit options" "compaction_output_size_limit options \<le> size_max"
    and load: "load_inputs [] inputs 0 = Inr (sources, n)"
    and "inputs \<noteq> []" "compaction_output_size_limit options \<noteq> 0"
  shows "compacted options drop_them (concat (map input_records_of inputs))
    (BuildCompactionOutputs inputs options drop_them)"
proof -
  let ?rs = "concat (map input_records_of inputs)"
  note sources = load_inputs_sound [OF load inputs]
  have P: "pool (rest_of sources) (mset (first_cursors sources)) = mset ?rs"
    using first_cursors_pool(2) [of sources] sources by simp
  have sorted: "\<forall>rs \<in> set sources. records_sorted rs"
    using inputs opened_input_records(1) sources by auto
  have n: "n = word_of_nat (length ?rs)"
    using sources by (metis add_0 of_nat_unat ucast_id unsigned_0)
  let ?st = "empty_CompactionBuildStats\<lparr>input_records := n\<rparr>"
  define r where "r = merge_loop sources options drop_them (first_cursors sources) ([], ?st)"
  have build: "BuildCompactionOutputs inputs options drop_them = r"
    using assms(5,6) load by (simp add: BuildCompactionOutputs_def r_def)
  have result: "merge_result options drop_them (mset ?rs) [] ?st r"
    using merge_loop_correct [OF sorted first_cursors_pool(1)] P by (simp add: r_def)
  have adds: "\<exists>outs. add_outputs options (filter (kept drop_them) E) [] = Inr outs \<and>
      outputs_hold options outs (filter (kept drop_them) E)"
    if E: "records_sorted E" "\<forall>r \<in> set E. strictly_newest (mset ?rs) r" for E
  proof -
    have "records_encodable options E"
      using E(2) opened_input_records(2) [of options] inputs by (fastforce simp: strictly_newest_def list_all_iff)
    moreover have "records_sorted (filter (kept drop_them) E)"
      using E(1) by (simp add: sorted_wrt_map sorted_wrt_filter)
    ultimately show ?thesis
      using add_outputs_holds [OF fit, of "[]" "[]" "filter (kept drop_them) E"]
      by (auto simp: outputs_hold_def list_all_iff)
  qed
  show ?thesis
  proof (cases r)
    case (Inl s)
    then show ?thesis
      using result adds unfolding build by (fastforce simp: merge_result_def compacted_def)
  next
    case (Inr x)
    obtain outs st where x: "x = (outs, st)"
      by force
    obtain E where E: "unambiguous (mset ?rs)" "E = newest ?rs"
        "add_outputs options (filter (kept drop_them) E) [] = Inr outs" "st = counted drop_them (length ?rs) E ?st"
      using result unfolding Inr x merge_result_def by (auto simp: merged_newest)
    have "outputs_hold options outs (filter (kept drop_them) E)"
      using adds [of E] newest_merged [of ?rs] E(2,3) by (auto simp: merged_def)
    then show ?thesis
      unfolding build Inr x compacted_def using E n by simp
  qed
qed

section \<open>Properties\<close>

lemma BuildCompactionOutputs_Inr:
  assumes "\<forall>i \<in> set inputs. opened_input options i" and "options_fit options"
    and "compaction_output_size_limit options \<le> size_max"
    and "BuildCompactionOutputs inputs options drop_them = Inr (outs, st)"
  defines "rs \<equiv> concat (map input_records_of inputs)"
  shows "unambiguous (mset rs)" and "outputs_hold options outs (filter (kept drop_them) (newest rs))"
    and "st = counted drop_them (length rs) (newest rs)
      (empty_CompactionBuildStats\<lparr>input_records := word_of_nat (length rs)\<rparr>)"
proof -
  obtain sources n where load: "load_inputs [] inputs 0 = Inr (sources, n)"
    using assms(4) by (auto simp: BuildCompactionOutputs_def and_then_Inr split: if_splits)
  have "inputs \<noteq> []" "compaction_output_size_limit options \<noteq> 0"
    using assms(4) by (auto simp: BuildCompactionOutputs_def split: if_splits)
  then show "unambiguous (mset rs)" "outputs_hold options outs (filter (kept drop_them) (newest rs))"
    "st = counted drop_them (length rs) (newest rs)
      (empty_CompactionBuildStats\<lparr>input_records := word_of_nat (length rs)\<rparr>)"
    using BuildCompactionOutputs_compacted [OF assms(1-3) load, of drop_them] assms(4)
    by (auto simp: compacted_def rs_def split: if_splits)
qed

text \<open>
  C14. Compaction keeps exactly the newest versions. Whatever reads fail, outputs that are returned
  hold, over all tables and in key order, the newest version of every key of the inputs, without
  the tombstones when these may be dropped; every output is a well-formed non-empty MemTable. With
  readable inputs the outputs are returned unless two versions compete for being the newest of a
  key, which is reported as corruption.
\<close>

theorem BuildCompactionOutputs_newest:
  assumes "\<forall>i \<in> set inputs. opened_input options i" and "options_fit options"
    and "compaction_output_size_limit options \<le> size_max"
  shows "(\<forall>outs st. BuildCompactionOutputs inputs options drop_them = Inr (outs, st) \<longrightarrow>
      concat (map Records outs) =
        filter (\<lambda>r. \<not> (r_type r = kDeletion \<and> drop_them)) (newest (concat (map input_records_of inputs))) \<and>
      (\<forall>mt \<in> set outs. mt_wf mt \<and> mt_options mt = options \<and> \<not> MemTable_empty mt)) \<and>
    (inputs \<noteq> [] \<and> compaction_output_size_limit options \<noteq> 0 \<and>
     (\<forall>i \<in> set inputs. ci_level i \<le> 1 \<and> benign_file (rd_file (the (ci_table i)))) \<and>
     distinct (map (\<lambda>i. md_generation (rd_metadata (the (ci_table i)))) inputs) \<and>
     length (concat (map input_records_of inputs)) \<le> u64_max \<longrightarrow>
       (if unambiguous (mset (concat (map input_records_of inputs)))
        then \<exists>out. BuildCompactionOutputs inputs options drop_them = Inr out
        else BuildCompactionOutputs inputs options drop_them = Inl reused_sequence))"
proof (intro conjI allI impI, goal_cases)
  case (1 outs st)
  then show ?case
    using BuildCompactionOutputs_Inr(2) [OF assms 1] by (simp add: outputs_hold_def kept_def [abs_def])
next
  case (2 outs st)
  then show ?case
    using BuildCompactionOutputs_Inr(2) [OF assms 2] by (simp add: outputs_hold_def)
next
  case 3
  obtain r where "load_inputs [] inputs 0 = Inr r"
    using load_inputs_benign [of inputs options "[]" 0] assms(1) 3 by auto
  then have "compacted options drop_them (concat (map input_records_of inputs))
      (BuildCompactionOutputs inputs options drop_them)"
    using BuildCompactionOutputs_compacted [OF assms, of "fst r" "snd r" drop_them] 3 by simp
  then show ?case
    by (auto simp: compacted_def split: if_splits)
qed

lemma sample_input:
  obtains rd where "opened_input default_Options \<lparr>ci_level = 0, ci_table = Some rd\<rparr>" "benign_file (rd_file rd)"
    "table_records rd = [record_of sample_record]"
proof -
  obtain rd where "reader_sound rd" "rd_options rd = default_Options" "benign_file (rd_file rd)"
    "table_records rd = [record_of sample_record]" "summary_sound rd"
    by (rule sample_reader)
  then show thesis
    by (intro that [of rd]) (simp_all add: opened_input_def)
qed

lemma sample_fits: "options_fit default_Options" "compaction_output_size_limit default_Options \<le> size_max"
    "compaction_output_size_limit default_Options \<noteq> 0"
  by (simp_all add: options_fit_def default_Options_def)

lemma newest_single: "newest [r] = [r]" "unambiguous (mset [r])"
  by (simp_all add: newest_def strictly_newest_def unambiguous_def)

theorem BuildCompactionOutputs_newest_witness:
  "\<exists>rd outs st. BuildCompactionOutputs [\<lparr>ci_level = 0, ci_table = Some rd\<rparr>] default_Options True = Inr (outs, st) \<and>
     concat (map Records outs) = [record_of sample_record]"
proof -
  obtain rd where rd: "opened_input default_Options \<lparr>ci_level = 0, ci_table = Some rd\<rparr>" "benign_file (rd_file rd)"
    "table_records rd = [record_of sample_record]"
    by (rule sample_input)
  let ?inputs = "[\<lparr>ci_level = 0, ci_table = Some rd\<rparr>]"
  have all: "concat (map input_records_of ?inputs) = [record_of sample_record]"
    by (simp add: input_records_of_def rd(3))
  note newest = BuildCompactionOutputs_newest [of ?inputs default_Options True,
    unfolded all newest_single(1)]
  obtain out where "BuildCompactionOutputs ?inputs default_Options True = Inr out"
    using newest rd sample_fits newest_single(2) [of "record_of sample_record"] by auto
  moreover have "concat (map Records (fst out)) = [record_of sample_record]"
    using newest rd(1) sample_fits calculation by (cases out) (simp add: record_of_def sample_record_def)
  ultimately show ?thesis
    by (metis prod.collapse)
qed

text \<open>
  C32. Outputs stay within the size limit: an output exceeds \<open>compaction_output_size_limit\<close> only
  when it consists of a single record. Nothing is lost from the statistics: every input record is
  counted as written, superseded or dropped.
\<close>

theorem BuildCompactionOutputs_bounded:
  assumes "\<forall>i \<in> set inputs. opened_input options i" and "options_fit options"
    and "compaction_output_size_limit options \<le> size_max"
    and "BuildCompactionOutputs inputs options drop_them = Inr (outs, st)"
  shows "(\<forall>mt \<in> set outs. unat (ApproximateDataSize mt) \<le> compaction_output_size_limit options \<or>
      MemTable_size mt = 1) \<and>
    output_records st = word_of_nat (length (concat (map Records outs))) \<and>
    input_records st = output_records st + duplicate_records_dropped st + tombstones_dropped st"
proof -
  note r = BuildCompactionOutputs_Inr(2,3) [OF assms]
  have "length (filter (kept drop_them) rs) + length (filter (\<lambda>r. \<not> kept drop_them r) rs) = length rs" for rs
    by (rule sum_length_filter_compl)
  then have split: "word_of_nat (length rs) = word_of_nat (length (filter (kept drop_them) rs)) +
      (word_of_nat (length (filter (\<lambda>r. \<not> kept drop_them r) rs)) :: u64)" for rs
    by (metis of_nat_add)
  show ?thesis
    using r(1) unfolding r(2) counted_def split [of "newest _"]
    by (simp add: outputs_hold_def bounded_def empty_CompactionBuildStats_def)
qed

theorem BuildCompactionOutputs_bounded_witness:
  "\<exists>rd outs st. BuildCompactionOutputs [\<lparr>ci_level = 0, ci_table = Some rd\<rparr>] default_Options False = Inr (outs, st) \<and>
     input_records st = output_records st + duplicate_records_dropped st + tombstones_dropped st"
proof -
  obtain rd where rd: "opened_input default_Options \<lparr>ci_level = 0, ci_table = Some rd\<rparr>" "benign_file (rd_file rd)"
    "table_records rd = [record_of sample_record]"
    by (rule sample_input)
  let ?inputs = "[\<lparr>ci_level = 0, ci_table = Some rd\<rparr>]"
  have all: "concat (map input_records_of ?inputs) = [record_of sample_record]"
    by (simp add: input_records_of_def rd(3))
  obtain r where load: "load_inputs [] ?inputs 0 = Inr r"
    using load_inputs_benign [of ?inputs default_Options "[]" 0] rd all by auto
  obtain outs st where run: "BuildCompactionOutputs ?inputs default_Options False = Inr (outs, st)"
    using BuildCompactionOutputs_compacted [of ?inputs default_Options "fst r" "snd r" False] rd(1) sample_fits load
      newest_single(2) [of "record_of sample_record"]
    unfolding all by (auto simp: compacted_def)
  show ?thesis
    using BuildCompactionOutputs_bounded [OF _ sample_fits(1,2) run] run rd(1) by auto
qed

end
