(* ===== verification/CompactionPublish.thy ===== *)
theory CompactionPublish
  imports Compaction
begin

text \<open>
  \<open>PublishCompactionTables\<close> of \<^verbatim>\<open>src/compaction.cpp\<close>: all outputs are encoded, written and synced
  under temporary names, renamed, made durable by one directory sync and opened again. The
  invariant of the phases is \<open>safe_batch\<close>: apart from temporary names, a name holds what it held
  before or a complete output.
\<close>

section \<open>Definitions\<close>

record PreparedOutput =
  file_number :: u64
  po_encoded :: bytes
  temporary_path :: string
  final_path :: string

fun prepare_outputs ::
  "FloatMath \<Rightarrow> string \<Rightarrow> Options \<Rightarrow> u64 \<Rightarrow> MemTable list \<Rightarrow> PreparedOutput list result" where
  "prepare_outputs fm directory options number [] = Inr []"
| "prepare_outputs fm directory options number (memtable # outputs) =
     and_then (EncodeTable fm number memtable options) (\<lambda>encoded.
     and_then (prepare_outputs fm directory options (number + 1) outputs) (\<lambda>prepared.
     let final = table_path directory number in
     Inr (\<lparr>file_number = number, po_encoded = encoded, temporary_path = final @ ''.tmp'',
           final_path = final\<rparr> # prepared)))"

definition BestEffortRemove_all :: "PreparedOutput list \<Rightarrow> Env \<Rightarrow> Env" where
  "BestEffortRemove_all outputs env = foldl (\<lambda>env output. BestEffortRemove (temporary_path output) env) env outputs"

fun write_outputs :: "PreparedOutput list \<Rightarrow> PreparedOutput list \<Rightarrow> Env \<Rightarrow> status \<times> Env" where
  "write_outputs prepared [] env = (Ok, env)"
| "write_outputs prepared (output # outputs) env =
     (let (created, env) = CreateTruncated (temporary_path output) env in
      case created of
        Inl s \<Rightarrow> (s, BestEffortRemove_all prepared env)
      | Inr i \<Rightarrow>
      (let (s, env) = env_write i (po_encoded output) env in
       if \<not> ok s then (s, BestEffortRemove_all prepared env)
       else let (s, env) = env_sync i env in
       if \<not> ok s then (s, BestEffortRemove_all prepared env)
       else write_outputs prepared outputs env))"

fun rename_outputs :: "PreparedOutput list \<Rightarrow> PreparedOutput list \<Rightarrow> Env \<Rightarrow> status \<times> Env" where
  "rename_outputs prepared [] env = (Ok, env)"
| "rename_outputs prepared (output # outputs) env =
     (let (s, env) = Rename (temporary_path output) (final_path output) env in
      if \<not> ok s then (s, BestEffortRemove_all prepared env)
      else rename_outputs prepared outputs env)"

fun open_outputs :: "Options \<Rightarrow> PreparedOutput list \<Rightarrow> Env \<Rightarrow> SSTableReader list result \<times> Env" where
  "open_outputs options [] env = (Inr [], env)"
| "open_outputs options (output # outputs) env =
     (let (opened, env) = OpenReadOnly (final_path output) env in
      case SSTableReader_Open opened (final_path output) options of
        Inl s \<Rightarrow> (Inl s, env)
      | Inr table \<Rightarrow>
        (let (r, env) = open_outputs options outputs env in
         (and_then r (\<lambda>tables. Inr (table # tables)), env)))"

definition PublishCompactionTables ::
  "FloatMath \<Rightarrow> string \<Rightarrow> u64 \<Rightarrow> MemTable list \<Rightarrow> Options \<Rightarrow> Env \<Rightarrow> SSTableReader list result \<times> Env" where
  "PublishCompactionTables fm directory first_file_number outputs options env =
     (if directory = [] \<or> first_file_number = 0
      then (Inl (InvalidArgument ''compaction publication arguments are invalid''), env)
      else if outputs = [] then (Inr [], env)
      else if length outputs > unat (- 1 - first_file_number)
      then (Inl (InvalidArgument ''compaction file numbers overflow''), env)
      else case prepare_outputs fm directory options first_file_number outputs of
        Inl s \<Rightarrow> (Inl s, env)
      | Inr prepared \<Rightarrow>
        (let (s, env) = write_outputs prepared prepared env in
         if \<not> ok s then (Inl s, env)
         else let (s, env) = rename_outputs prepared prepared env in
         if \<not> ok s then (Inl s, env)
         else let (s, env) = SyncDirectory env in
         if \<not> ok s then (Inl s, env)
         else open_outputs options prepared env))"

section \<open>File names\<close>

text \<open>The decimal number a string of digits denotes.\<close>

definition decimal :: "string \<Rightarrow> nat" where
  "decimal s = foldl (\<lambda>v c. 10 * v + (of_char c - 48)) 0 s"

lemma of_char_digit: "d < 10 \<Longrightarrow> (of_char (digit_char d) :: nat) = 48 + d"
  by (simp add: digit_char_def)

lemma decimal_to_string: "decimal (to_string n) = n"
proof (induction n rule: to_string.induct)
  case (1 n)
  then show ?case
    by (subst to_string.simps) (auto simp: decimal_def of_char_digit)
qed

lemma decimal_padded: "decimal (replicate k CHR ''0'' @ s) = decimal s"
  by (induction k) (simp_all add: decimal_def)

lemma length_to_string: "0 < k \<Longrightarrow> n < 10 ^ k \<Longrightarrow> length (to_string n) \<le> k"
proof (induction n arbitrary: k rule: to_string.induct)
  case (1 n)
  show ?case
  proof (cases "n < 10")
    case True
    then show ?thesis
      using "1.prems"(1) by (subst to_string.simps) simp
  next
    case False
    have k: "1 < k"
      using "1.prems" False by (cases "k = 1") auto
    then have "n div 10 < 10 ^ (k - 1)"
      using "1.prems"(2) by (simp add: div_less_iff_less_mult flip: power_Suc2)
    then have "length (to_string (n div 10)) \<le> k - 1"
      using "1.IH" [OF False, of "k - 1"] k by simp
    then show ?thesis
      using False k by (subst to_string.simps) simp
  qed
qed

lemma generation_digits: "length (to_string (unat (g :: u64))) \<le> 20"
  using length_to_string [of 20 "unat g"] unat_lt_u64 [of g] by simp

lemma length_GenerationFileName: "length (GenerationFileName g ext) = 21 + length ext"
  using generation_digits [of g] by (simp add: GenerationFileName_def Let_def)

lemma GenerationFileName_inject: "GenerationFileName g ext = GenerationFileName h ext \<longleftrightarrow> g = h"
proof
  let ?d = "\<lambda>x :: u64. replicate (20 - length (to_string (unat x))) CHR ''0'' @ to_string (unat x)"
  assume "GenerationFileName g ext = GenerationFileName h ext"
  then have "take 20 (GenerationFileName g ext) = take 20 (GenerationFileName h ext)"
    by simp
  then have "?d g = ?d h"
    using generation_digits [of g] generation_digits [of h] by (simp add: GenerationFileName_def Let_def)
  then have "decimal (?d g) = decimal (?d h)"
    by simp
  then show "g = h"
    by (simp add: decimal_padded decimal_to_string word_unat_eq_iff)
qed simp

lemma table_path_inject: "table_path d g = table_path d h \<longleftrightarrow> g = h"
  by (simp add: table_path_def JoinPath_def GenerationFileName_inject)

lemma table_path_tmp: "table_path d g \<noteq> table_path d h @ ''.tmp''"
proof
  assume "table_path d g = table_path d h @ ''.tmp''"
  then have "length (table_path d g) = length (table_path d h) + 4"
    by simp
  then show False
    by (simp add: table_path_def JoinPath_def length_GenerationFileName split: if_splits)
qed

section \<open>The phases\<close>

definition whole :: "Env \<Rightarrow> string \<Rightarrow> bytes \<Rightarrow> bool" where
  "whole e p bs \<longleftrightarrow> (\<exists>j. env_names e p = Some j \<and> wf_data (env_inodes e j) = bs \<and> wf_durable (env_inodes e j) = bs)"

definition batch :: "PreparedOutput list \<Rightarrow> bool" where
  "batch outs \<longleftrightarrow> distinct (map final_path outs) \<and>
     (\<forall>a \<in> set outs. temporary_path a = final_path a @ ''.tmp'' \<and> (\<forall>b \<in> set outs. final_path a \<noteq> temporary_path b))"

definition safe_batch :: "PreparedOutput list \<Rightarrow> Env \<Rightarrow> Env \<Rightarrow> bool" where
  "safe_batch outs env e \<longleftrightarrow> env_wf e \<and> env_disk e = env_disk env \<and> env_next env \<le> env_next e \<and>
     (\<forall>j < env_next env. env_inodes e j = env_inodes env j) \<and>
     (\<forall>p. p \<notin> temporary_path ` set outs \<longrightarrow>
        env_names e p = env_names env p \<or> (\<exists>a \<in> set outs. p = final_path a \<and> whole e p (po_encoded a)))"

lemma whole_same: "same_dir e e' \<Longrightarrow> whole e' = whole e"
  by (simp add: whole_def same_dir_def fun_eq_iff)

lemma safe_batch_same: "same_dir e e' \<Longrightarrow> safe_batch outs env e' = safe_batch outs env e"
  using whole_same [of e e'] env_wf_same [of e e'] by (simp add: safe_batch_def same_dir_def)

lemma safe_batch_refl: "env_wf env \<Longrightarrow> safe_batch outs env env"
  by (simp add: safe_batch_def)

lemma whole_upd: "p \<noteq> q \<Longrightarrow> whole (e\<lparr>env_names := (env_names e)(q := x)\<rparr>) p bs = whole e p bs"
  by (simp add: whole_def)

lemma safe_batch_unlink:
  assumes "safe_batch outs env e" and "q \<in> temporary_path ` set outs"
  shows "safe_batch outs env (e\<lparr>env_names := (env_names e)(q := None)\<rparr>)"
proof -
  have "env_wf (e\<lparr>env_names := (env_names e)(q := None)\<rparr>)"
    using assms(1) by (auto simp: safe_batch_def env_wf_def)
  moreover have "whole (e\<lparr>env_names := (env_names e)(q := None)\<rparr>) p bs = whole e p bs"
    if "p \<notin> temporary_path ` set outs" for p bs
    using that assms(2) by (intro whole_upd) auto
  ultimately show ?thesis
    using assms unfolding safe_batch_def by auto
qed

lemma safe_batch_remove_all:
  assumes "safe_batch outs env e" and "set rs \<subseteq> set outs"
  shows "safe_batch outs env (BestEffortRemove_all rs e)"
  using assms unfolding BestEffortRemove_all_def
proof (induction rs arbitrary: e)
  case (Cons r rs)
  have "safe_batch outs env (BestEffortRemove (temporary_path r) e)"
    using BestEffortRemove_cases [of e "temporary_path r"] safe_batch_same Cons.prems
      safe_batch_unlink [OF Cons.prems(1), of "temporary_path r"] by auto
  then show ?case
    using Cons by simp
qed simp

text \<open>Writing one output touches only a new file under its temporary name.\<close>

lemma fresh_write:
  assumes safe: "safe_batch outs env e" and q: "q \<in> temporary_path ` set outs"
    and e': "env_names e' = (env_names e)(q \<mapsto> env_next e)" "env_disk e' = env_disk e" "env_next e' = env_next e + 1"
      "env_inodes e' = (env_inodes e)(env_next e := f)" "wal_device.device_ok f"
  shows "safe_batch outs env e'"
    and "p \<noteq> q \<Longrightarrow> whole e p bs \<Longrightarrow> whole e' p bs"
    and "wf_data f = bs \<Longrightarrow> wf_durable f = bs \<Longrightarrow> whole e' q bs"
proof -
  have wf: "env_wf e" and old: "\<And>p j. env_names e p = Some j \<or> env_disk e p = Some j \<Longrightarrow> j < env_next e"
    using safe by (auto simp: safe_batch_def env_wf_def)
  show keep: "whole e' p bs" if "p \<noteq> q" "whole e p bs" for p bs
    using that old by (fastforce simp: whole_def e')
  show "wf_data f = bs \<Longrightarrow> wf_durable f = bs \<Longrightarrow> whole e' q bs"
    by (simp add: whole_def e')
  have "env_wf e'"
    using wf old e'(5) unfolding env_wf_def e'(1-4) by (fastforce split: if_splits)
  moreover have "env_inodes e' j = env_inodes env j" if "j < env_next env" for j
    using that safe by (simp add: safe_batch_def e')
  moreover have "env_names e' p = env_names env p \<or> (\<exists>a \<in> set outs. p = final_path a \<and> whole e' p (po_encoded a))"
    if p: "p \<notin> temporary_path ` set outs" for p
  proof -
    have "p \<noteq> q"
      using p q by auto
    moreover have "env_names e p = env_names env p \<or> (\<exists>a \<in> set outs. p = final_path a \<and> whole e p (po_encoded a))"
      using safe p unfolding safe_batch_def by blast
    ultimately show ?thesis
      using keep [of p] by (auto simp: e'(1))
  qed
  ultimately show "safe_batch outs env e'"
    using safe by (auto simp: safe_batch_def e'(2,3))
qed

lemma write_outputs_safe:
  assumes "batch outs"
  shows "write_outputs outs todo e = (s, e') \<Longrightarrow> safe_batch outs env e \<Longrightarrow> set todo \<subseteq> set outs \<Longrightarrow>
    distinct (map final_path todo) \<Longrightarrow>
    safe_batch outs env e' \<and>
    (ok s \<longrightarrow> (\<forall>a \<in> set todo. whole e' (temporary_path a) (po_encoded a)) \<and>
      (\<forall>p bs. p \<notin> temporary_path ` set todo \<longrightarrow> whole e p bs \<longrightarrow> whole e' p bs))"
proof (induction todo arbitrary: e)
  case (Cons a todo)
  let ?q = "temporary_path a" and ?i = "env_next e"
  have q: "?q \<in> temporary_path ` set outs"
    using Cons.prems(3) by simp
  have new: "?q \<notin> temporary_path ` set todo"
    using Cons.prems(3,4) assms by (auto simp: batch_def subset_iff)
  obtain r e1 where e1: "CreateTruncated ?q e = (r, e1)" by force
  obtain s2 e2 where e2: "env_write ?i (po_encoded a) e1 = (s2, e2)" by force
  obtain s3 e3 where e3: "env_sync ?i e2 = (s3, e3)" by force
  from e1 show ?case
  proof (cases rule: CreateTruncated_cases)
    case (1 t)
    then have "s = t" "e' = BestEffortRemove_all outs e1"
      using Cons.prems(1) e1 by simp_all
    then show ?thesis
      using 1 Cons.prems(2) safe_batch_same [OF 1(3)] safe_batch_remove_all by simp
  next
    case 2
    obtain f2 where f2: "e2 = e1\<lparr>env_inodes := (env_inodes e1)(?i := f2)\<rparr>" "wal_device.device_ok f2"
        "ok s2 \<Longrightarrow> wf_data f2 = po_encoded a"
      by (rule env_write_cases [OF e2]) (use 2 in auto)
    obtain f3 where f3: "e3 = e2\<lparr>env_inodes := (env_inodes e2)(?i := f3)\<rparr>" "wal_device.device_ok f3"
        "wf_data f3 = wf_data f2" "ok s3 \<Longrightarrow> wf_durable f3 = wf_data f3"
      by (rule env_sync_cases [OF e3]) (use f2 in auto)
    have upd: "(env_inodes e1)(?i := x) = (env_inodes e)(?i := x)" for x
      using 2(5) by (metis fun_upd_upd)
    have fields: "env_names e2 = (env_names e)(?q \<mapsto> ?i)" "env_disk e2 = env_disk e" "env_next e2 = ?i + 1"
        "env_names e3 = (env_names e)(?q \<mapsto> ?i)" "env_disk e3 = env_disk e" "env_next e3 = ?i + 1"
        "env_inodes e2 = (env_inodes e)(?i := f2)" "env_inodes e3 = (env_inodes e)(?i := f3)"
      using 2(2-4) by (simp_all add: f2(1) f3(1) upd)
    note at2 = fresh_write(1) [OF Cons.prems(2) q fields(1-3,7) f2(2)]
    note at3 = fresh_write [OF Cons.prems(2) q fields(4-6,8) f3(2)]
    note run = Cons.prems(1) [unfolded write_outputs.simps Let_def e1 prod.case 2(1) sum.case e2 e3]
    consider (unsafe) "\<not> ok s2 \<or> \<not> ok s3" | (safe) "ok s2" "ok s3"
      by blast
    then show ?thesis
    proof cases
      case unsafe
      then show ?thesis
        using run safe_batch_remove_all [OF at2] safe_batch_remove_all [OF at3(1)] by (auto split: if_splits)
    next
      case safe
      have rest: "write_outputs outs todo e3 = (s, e')"
        using run safe by simp
      have here: "whole e3 ?q (po_encoded a)"
        using at3(3) safe f2(3) f3(3,4) by simp
      show ?thesis
        using Cons.IH [OF rest at3(1)] Cons.prems(3,4) here new at3(2) by auto
    qed
  qed
qed auto

lemma safe_batch_rename:
  assumes "batch outs" and safe: "safe_batch outs env e" and a: "a \<in> set outs"
    and tmp: "whole e (temporary_path a) (po_encoded a)" and "env_names e (temporary_path a) = Some i"
    and e': "same_dir (e\<lparr>env_names := (env_names e)(temporary_path a := None, final_path a := Some i)\<rparr>) e'"
  shows "safe_batch outs env e'" and "whole e' (final_path a) (po_encoded a)"
    and "p \<noteq> temporary_path a \<Longrightarrow> p \<noteq> final_path a \<Longrightarrow> whole e p bs \<Longrightarrow> whole e' p bs"
proof -
  let ?e = "e\<lparr>env_names := (env_names e)(temporary_path a := None, final_path a := Some i)\<rparr>"
  have final: "whole ?e (final_path a) (po_encoded a)"
    using tmp assms(5) by (simp add: whole_def)
  have keep: "whole ?e p bs" if "p \<noteq> temporary_path a" "p \<noteq> final_path a" "whole e p bs" for p bs
    using that by (simp add: whole_def)
  have "env_wf ?e"
    using safe assms(5) unfolding safe_batch_def env_wf_def by auto
  moreover have "env_names ?e p = env_names env p \<or> (\<exists>b \<in> set outs. p = final_path b \<and> whole ?e p (po_encoded b))"
    if p: "p \<notin> temporary_path ` set outs" for p
  proof (cases "p = final_path a")
    case True
    then show ?thesis
      using final a by blast
  next
    case False
    have "p \<noteq> temporary_path a"
      using p a by auto
    moreover have "env_names e p = env_names env p \<or> (\<exists>b \<in> set outs. p = final_path b \<and> whole e p (po_encoded b))"
      using safe p unfolding safe_batch_def by blast
    ultimately show ?thesis
      using keep [of p] False by auto
  qed
  ultimately have "safe_batch outs env ?e"
    using safe by (auto simp: safe_batch_def)
  then show "safe_batch outs env e'"
    using safe_batch_same [OF e'] by simp
  show "whole e' (final_path a) (po_encoded a)"
    "p \<noteq> temporary_path a \<Longrightarrow> p \<noteq> final_path a \<Longrightarrow> whole e p bs \<Longrightarrow> whole e' p bs"
    using final keep whole_same [OF e'] by simp_all
qed

lemma rename_outputs_safe:
  assumes "batch outs"
  shows "rename_outputs outs todo e = (s, e') \<Longrightarrow> safe_batch outs env e \<Longrightarrow> set todo \<subseteq> set outs \<Longrightarrow>
    distinct (map final_path todo) \<Longrightarrow> \<forall>a \<in> set todo. whole e (temporary_path a) (po_encoded a) \<Longrightarrow>
    safe_batch outs env e' \<and>
    (ok s \<longrightarrow> (\<forall>a \<in> set todo. whole e' (final_path a) (po_encoded a)) \<and>
      (\<forall>p bs. p \<notin> temporary_path ` set todo \<longrightarrow> p \<notin> final_path ` set todo \<longrightarrow> whole e p bs \<longrightarrow> whole e' p bs))"
proof (induction todo arbitrary: e)
  case (Cons a todo)
  obtain s1 e1 where e1: "Rename (temporary_path a) (final_path a) e = (s1, e1)" by force
  have a: "a \<in> set outs" and tmp: "whole e (temporary_path a) (po_encoded a)"
    using Cons.prems(3,5) by simp_all
  from e1 show ?case
  proof (cases rule: Rename_cases)
    case 1
    then show ?thesis
      using Cons.prems(1,2) e1 safe_batch_same [OF 1(2)] safe_batch_remove_all by auto
  next
    case (2 i)
    note step = safe_batch_rename [OF assms Cons.prems(2) a tmp 2(2,3)]
    have rest: "rename_outputs outs todo e1 = (s, e')"
      using Cons.prems(1) e1 2(1) by simp
    have apart: "temporary_path b \<noteq> temporary_path a" "temporary_path b \<noteq> final_path a"
        "final_path a \<noteq> temporary_path b" "final_path a \<noteq> final_path b" if "b \<in> set todo" for b
    proof -
      have b: "b \<in> set outs" "final_path a \<noteq> final_path b"
        using that Cons.prems(3,4) by auto
      then show "temporary_path b \<noteq> temporary_path a" "temporary_path b \<noteq> final_path a"
        "final_path a \<noteq> temporary_path b" "final_path a \<noteq> final_path b"
        using assms a unfolding batch_def by (metis append_same_eq, metis, metis, metis)
    qed
    have tmps: "\<forall>b \<in> set todo. whole e1 (temporary_path b) (po_encoded b)"
      using Cons.prems(5) step(3) apart(1,2) by simp
    have IH: "safe_batch outs env e' \<and> (ok s \<longrightarrow> (\<forall>a \<in> set todo. whole e' (final_path a) (po_encoded a)) \<and>
      (\<forall>p bs. p \<notin> temporary_path ` set todo \<longrightarrow> p \<notin> final_path ` set todo \<longrightarrow> whole e1 p bs \<longrightarrow> whole e' p bs))"
      by (rule Cons.IH [OF rest step(1) _ _ tmps]) (use Cons.prems(3,4) in simp_all)
    moreover have "final_path a \<notin> temporary_path ` set todo" "final_path a \<notin> final_path ` set todo"
      using apart(3,4) by auto
    ultimately show ?thesis
      using step(2,3) by auto
  qed
qed auto

lemma safe_batch_crash:
  assumes env: "env_wf env" and safe: "safe_batch outs env e" and p: "p \<notin> temporary_path ` set outs"
    and disk: "env_names e' = env_names e" "env_inodes e' = env_inodes e" "env_disk e' = env_disk e \<or> env_disk e' = env_names e"
    and c: "crash_content e' p c"
  shows "crash_content env p c \<or> (\<exists>a \<in> set outs. p = final_path a \<and> c = Some (po_encoded a))"
proof -
  obtain entry where entry: "entry \<in> {env_names e' p, env_disk e' p}"
      "case entry of None \<Rightarrow> c = None | Some i \<Rightarrow> \<exists>bs. c = Some bs \<and> wal_device.crash_image (env_inodes e i) bs"
    using c unfolding crash_content_def disk(2) by blast
  have "env_disk e = env_disk env"
    using safe by (simp add: safe_batch_def)
  then have entry: "entry = env_names e p \<or> entry = env_disk env p"
      "case entry of None \<Rightarrow> c = None | Some i \<Rightarrow> \<exists>bs. c = Some bs \<and> wal_device.crash_image (env_inodes e i) bs"
    using entry disk(1,3) by auto
  have old: ?thesis if "entry = env_names env p \<or> entry = env_disk env p"
  proof -
    have "env_inodes e i = env_inodes env i" if "entry = Some i" for i
      using that \<open>entry = env_names env p \<or> entry = env_disk env p\<close> env safe
      unfolding env_wf_def safe_batch_def by metis
    then have "crash_content env p c"
      using that entry(2) unfolding crash_content_def by (auto split: option.splits)
    then show ?thesis ..
  qed
  show ?thesis
  proof (cases "env_names e p = env_names env p")
    case True
    then show ?thesis
      using old entry(1) by auto
  next
    case False
    then obtain a where a: "a \<in> set outs" "p = final_path a" "whole e p (po_encoded a)"
      using safe p unfolding safe_batch_def by blast
    then have "c = Some (po_encoded a)" if "entry = env_names e p"
      using entry(2) that by (auto simp: whole_def wal_device.crash_image_def)
    then show ?thesis
      using old entry(1) a by blast
  qed
qed

lemma whole_settled:
  assumes "whole e p bs" and "env_disk e = env_names e"
  shows "settled e p (Some bs)"
  using assms by (auto simp: whole_def settled_def crash_content_def wal_device.crash_image_def)

section \<open>Preparation and reopening\<close>

definition prepared_for :: "FloatMath \<Rightarrow> string \<Rightarrow> Options \<Rightarrow> u64 \<Rightarrow> MemTable \<Rightarrow> PreparedOutput \<Rightarrow> bool" where
  "prepared_for fm directory options number mt a \<longleftrightarrow>
     EncodeTable fm number mt options = Inr (po_encoded a) \<and> final_path a = table_path directory number \<and>
     temporary_path a = final_path a @ ''.tmp''"

lemma prepare_outputs_nth:
  "prepare_outputs fm directory options number outputs = Inr prepared \<Longrightarrow>
     length prepared = length outputs \<and>
     (\<forall>i < length outputs. prepared_for fm directory options (number + word_of_nat i) (outputs ! i) (prepared ! i))"
proof (induction outputs arbitrary: number prepared)
  case (Cons mt outputs)
  obtain encoded rest where *: "EncodeTable fm number mt options = Inr encoded"
      "prepare_outputs fm directory options (number + 1) outputs = Inr rest"
      "prepared = \<lparr>file_number = number, po_encoded = encoded, temporary_path = table_path directory number @ ''.tmp'',
         final_path = table_path directory number\<rparr> # rest"
    using Cons.prems by (auto simp: and_then_Inr Let_def)
  have "prepared_for fm directory options (number + word_of_nat i) ((mt # outputs) ! i) (prepared ! i)"
    if "i < length (mt # outputs)" for i
    using that Cons.IH [OF *(2)] *(1,3) by (cases i) (simp_all add: prepared_for_def add.assoc)
  then show ?case
    using Cons.IH [OF *(2)] *(3) by simp
qed simp

lemma file_numbers_distinct:
  assumes "length outputs \<le> unat (- 1 - first :: u64)" and "i < length outputs" and "j < length outputs"
    and "first + word_of_nat i = first + (word_of_nat j :: u64)"
  shows "i = j"
proof -
  have "(word_of_nat i :: u64) = word_of_nat j"
    using assms(4) by simp
  then have "unat (word_of_nat i :: u64) = unat (word_of_nat j :: u64)"
    by simp
  then show ?thesis
    using assms(1-3) unat_lt_u64 [of "- 1 - first"] by (simp add: unat_of_nat_u64)
qed

lemma prepared_batch:
  assumes "prepare_outputs fm directory options number outputs = Inr prepared"
    and "length outputs \<le> unat (- 1 - number)"
  shows "batch prepared"
proof -
  note prep = prepare_outputs_nth [OF assms(1)]
  have "distinct (map final_path prepared)"
    unfolding distinct_conv_nth
    using prep file_numbers_distinct [OF assms(2)] by (auto simp: prepared_for_def table_path_inject)
  moreover have "\<exists>g. final_path a = table_path directory g \<and> temporary_path a = table_path directory g @ ''.tmp''"
    if "a \<in> set prepared" for a
    using that prep by (auto simp: in_set_conv_nth prepared_for_def)
  ultimately show ?thesis
    using table_path_tmp unfolding batch_def by metis
qed

definition reopened :: "Options \<Rightarrow> Env \<Rightarrow> string \<Rightarrow> SSTableReader \<Rightarrow> bool" where
  "reopened options e path table \<longleftrightarrow> (\<exists>opened e1 e2. same_dir e e1 \<and> OpenReadOnly path e1 = (opened, e2) \<and>
     SSTableReader_Open opened path options = Inr table)"

lemma same_dir_trans: "same_dir a b \<Longrightarrow> same_dir b c \<Longrightarrow> same_dir a c"
  by (simp add: same_dir_def)

lemma reopened_later: "reopened options e1 path table \<Longrightarrow> same_dir e e1 \<Longrightarrow> reopened options e path table"
  unfolding reopened_def using same_dir_trans by blast

lemma open_outputs_same:
  "open_outputs options outs e = (r, e') \<Longrightarrow>
     same_dir e e' \<and> (\<forall>tables. r = Inr tables \<longrightarrow> list_all2 (\<lambda>a. reopened options e (final_path a)) outs tables)"
proof (induction outs arbitrary: e r)
  case (Cons a outs)
  obtain opened e1 where o: "OpenReadOnly (final_path a) e = (opened, e1)" by force
  note same = OpenReadOnly_frame(1) [OF o]
  show ?case
  proof (cases "SSTableReader_Open opened (final_path a) options")
    case (Inl s)
    then have "r = Inl s" "e' = e1"
      using Cons.prems o by simp_all
    then show ?thesis
      using same by simp
  next
    case (Inr table)
    obtain r1 where rest: "open_outputs options outs e1 = (r1, e')" "r = and_then r1 (\<lambda>tables. Inr (table # tables))"
      using Cons.prems o Inr by (auto split: prod.splits)
    have "reopened options e (final_path a) table"
      using o Inr same_dir_refl [of e] unfolding reopened_def by blast
    moreover have "list_all2 (\<lambda>a. reopened options e (final_path a)) outs ts" if "r1 = Inr ts" for ts
      using Cons.IH [OF rest(1)] that reopened_later [OF _ same] by (auto elim: list_all2_mono)
    ultimately show ?thesis
      using Cons.IH [OF rest(1)] same_dir_trans [OF same] rest(2) by (auto simp: and_then_Inr)
  qed
qed simp

lemma PublishCompactionTables_published:
  assumes wf: "env_wf env" and dir: "directory \<noteq> []" "first \<noteq> 0" "outputs \<noteq> []"
      "length outputs \<le> unat (- 1 - first)"
    and prep: "prepare_outputs fm directory options first outputs = Inr prepared"
    and run: "PublishCompactionTables fm directory first outputs options env = (r, env')"
  shows "(\<forall>p c. p \<notin> temporary_path ` set prepared \<longrightarrow> crash_content env' p c \<longrightarrow>
      crash_content env p c \<or> (\<exists>a \<in> set prepared. p = final_path a \<and> c = Some (po_encoded a))) \<and>
    (\<forall>tables. r = Inr tables \<longrightarrow> (\<exists>e. open_outputs options prepared e = (r, env') \<and> env_wf e \<and>
       (\<forall>a \<in> set prepared. settled e (final_path a) (Some (po_encoded a)))))"
proof -
  obtain s1 e1 where e1: "write_outputs prepared prepared env = (s1, e1)" by force
  obtain s2 e2 where e2: "rename_outputs prepared prepared e1 = (s2, e2)" by force
  obtain s3 e3 where e3: "SyncDirectory e2 = (s3, e3)" by force
  obtain r4 e4 where e4: "open_outputs options prepared e3 = (r4, e4)" by force
  have b: "batch prepared"
    by (rule prepared_batch [OF prep dir(4)])
  then have dist: "distinct (map final_path prepared)"
    by (simp add: batch_def)
  note w = write_outputs_safe [OF b e1 safe_batch_refl [OF wf] subset_refl dist]
  note rn = rename_outputs_safe [OF b e2 conjunct1 [OF w] subset_refl dist]
  note sd = SyncDirectory_cases [OF e3]
  note run = run [unfolded PublishCompactionTables_def prep sum.case Let_def e1 prod.case e2 e3 e4]
  consider (early) "\<not> ok s1" | (renaming) "ok s1" "\<not> ok s2" | (syncing) "ok s1" "ok s2" "\<not> ok s3"
    | (reopening) "ok s1" "ok s2" "ok s3"
    by blast
  then show ?thesis
  proof cases
    case early
    then have "env' = e1" "r = Inl s1"
      using run dir by (simp_all add: not_less)
    then show ?thesis
      using safe_batch_crash [OF wf conjunct1 [OF w], of _ e1] by auto
  next
    case renaming
    then have "env' = e2" "r = Inl s2" "safe_batch prepared env e2"
      using run dir rn w by (simp_all add: not_less)
    then show ?thesis
      using safe_batch_crash [OF wf _ _ _ _ _ , of prepared e2 _ e2] by auto
  next
    case syncing
    then have "env' = e3" "r = Inl s3" "safe_batch prepared env e2" "same_dir e2 e3"
      using run dir rn w sd by (simp_all add: not_less)
    then show ?thesis
      using safe_batch_crash [OF wf _ _ _ _ _ , of prepared e2 _ e3] by (auto simp: same_dir_def)
  next
    case reopening
    have r: "env' = e4" "r = r4" and safe: "safe_batch prepared env e2"
      and done_: "\<forall>a \<in> set prepared. whole e2 (final_path a) (po_encoded a)"
      using run dir rn w reopening by (simp_all add: not_less)
    have dirs: "env_names e3 = env_names e2" "env_inodes e3 = env_inodes e2" "env_disk e3 = env_names e2"
        "env_next e3 = env_next e2"
      using sd reopening by (simp_all add: same_dir_def)
    have "env_wf e3"
      using safe by (simp add: safe_batch_def env_wf_def dirs)
    moreover have "settled e3 (final_path a) (Some (po_encoded a))" if "a \<in> set prepared" for a
      using that done_ dirs by (intro whole_settled) (simp_all add: whole_def)
    moreover have "crash_content env' = crash_content e3"
      using open_outputs_same [OF e4] crash_content_same r(1) by blast
    ultimately show ?thesis
      using e4 r safe_batch_crash [OF wf safe, of _ e3] dirs by (metis (no_types, lifting))
  qed
qed

lemma reopened_holds:
  assumes "env_wf e" and "settled e path (Some bs)" and "reopened options e path rd"
    and mt: "mt_wf mt" and enc: "EncodeTable fm number mt options = Inr bs"
  shows "holds_memtable rd number options mt"
proof -
  obtain opened e1 e2 where o: "same_dir e e1" "OpenReadOnly path e1 = (opened, e2)"
      "SSTableReader_Open opened path options = Inr rd"
    using assms(3) by (auto simp: reopened_def)
  have "env_wf e1" "settled e1 path (Some bs)" "keys_sorted (entries mt)"
    using assms(1,2) env_wf_same [OF o(1)] settled_same [OF o(1)] mt by (simp_all add: mt_wf_def)
  then show ?thesis
    using PublishTable_reader [OF _ _ enc _ o(2,3)] by blast
qed

text \<open>The arguments with which outputs are prepared, and what is prepared for the output \<open>i\<close>.\<close>

lemma PublishCompactionTables_args:
  assumes "PublishCompactionTables fm directory first outputs options env = (r, env')"
  obtains (refused) "env' = env" "outputs = [] \<or> (\<exists>s. r = Inl s)" "outputs = [] \<longrightarrow> r = Inr [] \<or> (\<exists>s. r = Inl s)"
  | (encoded) prepared where "directory \<noteq> []" "first \<noteq> 0" "outputs \<noteq> []" "length outputs \<le> unat (- 1 - first)"
      "prepare_outputs fm directory options first outputs = Inr prepared" "length prepared = length outputs"
      "\<And>i. i < length outputs \<Longrightarrow>
         EncodeTable fm (first + word_of_nat i) (outputs ! i) options = Inr (po_encoded (prepared ! i)) \<and>
         final_path (prepared ! i) = table_path directory (first + word_of_nat i) \<and>
         temporary_path (prepared ! i) = table_path directory (first + word_of_nat i) @ ''.tmp''"
proof (cases "directory = [] \<or> first = 0 \<or> outputs = [] \<or> length outputs > unat (- 1 - first) \<or>
    (\<exists>s. prepare_outputs fm directory options first outputs = Inl s)")
  case True
  then show thesis
    using assms by (intro refused) (auto simp: PublishCompactionTables_def split: if_splits)
next
  case False
  then obtain prepared where prep: "prepare_outputs fm directory options first outputs = Inr prepared"
    by (cases "prepare_outputs fm directory options first outputs") auto
  show thesis
    using False prepare_outputs_nth [OF prep] by (intro encoded [OF _ _ _ _ prep]) (auto simp: prepared_for_def)
qed

lemma PublishCompactionTables_readers:
  assumes wf: "env_wf env" and mts: "\<forall>mt \<in> set outputs. mt_wf mt \<and> mt_options mt = options"
    and run: "PublishCompactionTables fm directory first outputs options env = (Inr rds, env')"
  shows "length rds = length outputs" and "i < length outputs \<Longrightarrow>
    (\<exists>bs. EncodeTable fm (first + word_of_nat i) (outputs ! i) options = Inr bs \<and>
       settled env' (table_path directory (first + word_of_nat i)) (Some bs)) \<and>
    holds_memtable (rds ! i) (first + word_of_nat i) options (outputs ! i)"
proof -
  have "length rds = length outputs \<and> (i < length outputs \<longrightarrow>
    (\<exists>bs. EncodeTable fm (first + word_of_nat i) (outputs ! i) options = Inr bs \<and>
       settled env' (table_path directory (first + word_of_nat i)) (Some bs)) \<and>
    holds_memtable (rds ! i) (first + word_of_nat i) options (outputs ! i))"
    using run
  proof (cases rule: PublishCompactionTables_args)
    case (encoded prepared)
    obtain e where e: "open_outputs options prepared e = (Inr rds, env')" "env_wf e"
        "\<forall>a \<in> set prepared. settled e (final_path a) (Some (po_encoded a))"
      using PublishCompactionTables_published [OF wf encoded(1-5) run] by blast
    note same = open_outputs_same [OF e(1)]
    have len: "length rds = length outputs"
      using same encoded(6) by (auto dest: list_all2_lengthD)
    have dir: "settled env' = settled e"
      using same settled_same by blast
    show ?thesis
    proof (intro conjI impI len)
      assume i: "i < length outputs"
      note nth = encoded(7) [OF i]
      have re: "reopened options e (final_path (prepared ! i)) (rds ! i)"
        and settled: "settled e (final_path (prepared ! i)) (Some (po_encoded (prepared ! i)))"
        using i encoded(6) same e(3) by (auto dest: list_all2_nthD)
      then show "\<exists>bs. EncodeTable fm (first + word_of_nat i) (outputs ! i) options = Inr bs \<and>
          settled env' (table_path directory (first + word_of_nat i)) (Some bs)"
        using nth dir by simp
      show "holds_memtable (rds ! i) (first + word_of_nat i) options (outputs ! i)"
        by (rule reopened_holds [OF e(2) settled re]) (use mts nth i in auto)
    qed
  qed auto
  then show "length rds = length outputs" and "i < length outputs \<Longrightarrow>
    (\<exists>bs. EncodeTable fm (first + word_of_nat i) (outputs ! i) options = Inr bs \<and>
       settled env' (table_path directory (first + word_of_nat i)) (Some bs)) \<and>
    holds_memtable (rds ! i) (first + word_of_nat i) options (outputs ! i)"
    by blast+
qed

section \<open>Properties\<close>

text \<open>
  C15. Compaction publishes its outputs as a batch that is safe at every moment. Whatever fails and
  whenever the machine crashes, the name of an output shows what it showed before or the complete
  output, and only temporary names are affected otherwise. When the publication succeeds all
  outputs survive every crash, and their readers answer every lookup as the MemTables do.
\<close>

theorem PublishCompactionTables_atomic:
  assumes wf: "env_wf env" and mts: "\<forall>mt \<in> set outputs. mt_wf mt \<and> mt_options mt = options"
    and run: "PublishCompactionTables fm directory first outputs options env = (r, env')"
  shows "(\<forall>p c. crash_content env' p c \<longrightarrow> crash_content env p c \<or>
      (\<exists>i < length outputs. p = table_path directory (first + word_of_nat i) @ ''.tmp'' \<or>
         p = table_path directory (first + word_of_nat i) \<and>
         (\<exists>bs. EncodeTable fm (first + word_of_nat i) (outputs ! i) options = Inr bs \<and> c = Some bs))) \<and>
    (\<forall>rds. r = Inr rds \<longrightarrow> length rds = length outputs \<and>
      (\<forall>i < length outputs. \<exists>bs. EncodeTable fm (first + word_of_nat i) (outputs ! i) options = Inr bs \<and>
         settled env' (table_path directory (first + word_of_nat i)) (Some bs) \<and>
         (benign_file (rd_file (rds ! i)) \<longrightarrow> serves (rds ! i) (outputs ! i))))"
proof (intro conjI allI impI, goal_cases)
  case (1 q c)
  from run show ?case
  proof (cases rule: PublishCompactionTables_args)
    case (encoded prepared)
    consider "q \<in> temporary_path ` set prepared" | "crash_content env q c"
      | a where "a \<in> set prepared" "q = final_path a" "c = Some (po_encoded a)"
      using PublishCompactionTables_published [OF wf encoded(1-5) run] 1 by blast
    then show ?thesis
      using encoded(6,7) by cases (auto simp: in_set_conv_nth, metis+)
  qed (use 1 in simp)
next
  case (2 rds)
  then show ?case
    using PublishCompactionTables_readers(1) [OF wf mts] run by blast
next
  case (3 rds i)
  then have "holds_memtable (rds ! i) (first + word_of_nat i) options (outputs ! i)"
    "mt_wf (outputs ! i)" "mt_options (outputs ! i) = options"
    using PublishCompactionTables_readers(2) [OF wf mts] run mts by auto
  then show ?case
    using 3 PublishCompactionTables_readers(2) [OF wf mts, of fm directory first rds env' i] run holds_memtable_serves by metis
qed

theorem PublishCompactionTables_atomic_witness:
  "\<exists>r env'. PublishCompactionTables sample_math ''db'' 5 [sample_memtable] default_Options faulty_env = (r, env') \<and>
     (\<forall>c. crash_content env' (table_path ''db'' 5) c \<longrightarrow>
        c = None \<or> (\<exists>bs. EncodeTable sample_math 5 sample_memtable default_Options = Inr bs \<and> c = Some bs))"
proof -
  obtain r env' where run: "PublishCompactionTables sample_math ''db'' 5 [sample_memtable] default_Options faulty_env = (r, env')"
    by force
  have wf: "env_wf faulty_env" and none: "\<And>p c. crash_content faulty_env p c \<Longrightarrow> c = None"
    by (simp_all add: env_wf_def faulty_env_def crash_content_def)
  have "\<forall>mt \<in> set [sample_memtable]. mt_wf mt \<and> mt_options mt = default_Options"
    by (simp add: sample_memtable_wf)
  from PublishCompactionTables_atomic [OF wf this run]
  have "\<forall>c. crash_content env' (table_path ''db'' 5) c \<longrightarrow> crash_content faulty_env (table_path ''db'' 5) c \<or>
      (\<exists>bs. EncodeTable sample_math 5 sample_memtable default_Options = Inr bs \<and> c = Some bs)"
    using table_path_tmp [of "''db''" 5 5] by fastforce
  then show ?thesis
    using run none by blast
qed

end
