(* ===== verification/Manifest.thy ===== *)
theory Manifest
  imports TableFormat Environment
begin

text \<open>
  \<^verbatim>\<open>src/manifest.cpp\<close>: versions (the set of live tables with the file-number and sequence
  frontiers), the edits that lead from one version to the next, the manifest encoding, and loading
  and publishing the manifest file.
\<close>

section \<open>Types\<close>

abbreviation kManifestFormatVersion :: u8 where "kManifestFormatVersion \<equiv> 1"
abbreviation kStorageFormatVersion :: u8 where "kStorageFormatVersion \<equiv> 2"
abbreviation kManifestHeaderSize :: nat where "kManifestHeaderSize \<equiv> 64"
abbreviation kManifestTableFixedSize :: nat where "kManifestTableFixedSize \<equiv> 56"
abbreviation kMaximumManifestSize :: nat where "kMaximumManifestSize \<equiv> 67108864"

definition kManifestFileName :: string where "kManifestFileName = ''MANIFEST''"
definition kManifestMagic :: bytes where "kManifestMagic = ascii ''MKMF''"

record VersionTable =
  vt_level :: u32
  vt_metadata :: SSTableMetadata

record VersionEdit =
  added_tables :: "VersionTable list"
  deleted_file_numbers :: "u64 list"
  edit_next_file_number :: "u64 option"
  edit_last_sequence :: "u64 option"

record Version =
  version_id :: u64
  next_file_number :: u64
  last_sequence :: u64
  version_tables :: "VersionTable list"

definition ManifestCorruption :: "string \<Rightarrow> status" where
  "ManifestCorruption m = Corruption (''manifest: '' @ m)"

abbreviation table_generation :: "VersionTable \<Rightarrow> u64" where
  "table_generation t \<equiv> md_generation (vt_metadata t)"

section \<open>Validation\<close>

text \<open>The loop over the tables; \<open>file_numbers\<close> are the generations seen so far.\<close>

definition table_invalid :: "Version \<Rightarrow> Options \<Rightarrow> u64 list \<Rightarrow> VersionTable \<Rightarrow> bool" where
  "table_invalid version options file_numbers t \<longleftrightarrow>
     (let metadata = vt_metadata t in
      vt_level t > 1 \<or> md_generation metadata = 0 \<or>
      md_generation metadata \<ge> next_file_number version \<or>
      md_file_size metadata = 0 \<or> md_record_count metadata = 0 \<or>
      md_minimum_sequence metadata = 0 \<or>
      md_minimum_sequence metadata > md_maximum_sequence metadata \<or>
      length (md_minimum_key metadata) > max_key_size options \<or>
      length (md_maximum_key metadata) > max_key_size options \<or>
      md_minimum_key metadata > md_maximum_key metadata \<or>
      md_generation metadata \<in> set file_numbers)"

fun validate_tables :: "Version \<Rightarrow> Options \<Rightarrow> u64 list \<Rightarrow> VersionTable list \<Rightarrow> bool" where
  "validate_tables version options file_numbers [] = True"
| "validate_tables version options file_numbers (t # ts) =
     (if table_invalid version options file_numbers t then False
      else validate_tables version options (table_generation t # file_numbers) ts)"

text \<open>
  Neighbours that overlap, in the order of their smallest keys. Two tables with the same smallest
  key overlap whichever comes first, so the order \<open>std::sort\<close> leaves them in does not matter.
\<close>

fun ranges_overlap :: "VersionTable list \<Rightarrow> bool" where
  "ranges_overlap (x # y # ts) =
     (md_maximum_key (vt_metadata x) \<ge> md_minimum_key (vt_metadata y) \<or> ranges_overlap (y # ts))"
| "ranges_overlap _ = False"

definition level_one_tables :: "VersionTable list \<Rightarrow> VersionTable list" where
  "level_one_tables ts =
     sort_key (\<lambda>t. md_minimum_key (vt_metadata t)) (filter (\<lambda>t. vt_level t = 1) ts)"

definition maximum_table_sequence :: "VersionTable list \<Rightarrow> u64" where
  "maximum_table_sequence ts = foldl (\<lambda>m t. max m (md_maximum_sequence (vt_metadata t))) 0 ts"

definition ValidateVersion :: "Version \<Rightarrow> Options \<Rightarrow> status" where
  "ValidateVersion version options =
     (if version_id version = 0 \<or> next_file_number version = 0 \<or> max_key_size options = 0
      then ManifestCorruption ''global Version fields are invalid''
      else if \<not> validate_tables version options [] (version_tables version)
        then ManifestCorruption ''table metadata is invalid''
      else if ranges_overlap (level_one_tables (version_tables version))
        then ManifestCorruption ''level-one table ranges overlap''
      else if last_sequence version < maximum_table_sequence (version_tables version)
        then ManifestCorruption ''sequence frontier precedes a live table''
      else Ok)"

section \<open>Versions\<close>

definition NewDatabase :: Version where
  "NewDatabase = \<lparr>version_id = 1, next_file_number = 1, last_sequence = 0, version_tables = []\<rparr>"

fun collect_deletions :: "u64 list \<Rightarrow> u64 list \<Rightarrow> u64 list result" where
  "collect_deletions deletions [] = Inr deletions"
| "collect_deletions deletions (n # ns) =
     (if n = 0 \<or> n \<in> set deletions then Inl (InvalidArgument ''VersionEdit deletion is invalid'')
      else collect_deletions (n # deletions) ns)"

fun add_tables :: "Version \<Rightarrow> u64 list \<Rightarrow> VersionTable list \<Rightarrow> VersionTable list \<Rightarrow> VersionTable list result" where
  "add_tables version deletions ts [] = Inr ts"
| "add_tables version deletions ts (added # rest) =
     (if table_generation added < next_file_number version
      then Inl (InvalidArgument ''VersionEdit reuses an allocated file number'')
      else if table_generation added \<in> set (map table_generation ts) \<or>
              table_generation added \<in> set deletions
        then Inl (InvalidArgument ''VersionEdit adds a duplicate file'')
      else add_tables version deletions (ts @ [added]) rest)"

definition Version_Apply :: "Version \<Rightarrow> VersionEdit \<Rightarrow> Options \<Rightarrow> Version result" where
  "Version_Apply version edit options =
     (let current_status = ValidateVersion version options in
      if \<not> ok current_status then Inl current_status
      else if version_id version = - 1 then Inl (InvalidArgument ''Version id space is exhausted'')
      else and_then (collect_deletions [] (deleted_file_numbers edit)) (\<lambda>deletions.
        if \<not> list_all (\<lambda>n. n \<in> set (map table_generation (version_tables version))) deletions
        then Inl (InvalidArgument ''VersionEdit deletes a non-live file'')
        else let
          kept = filter (\<lambda>t. table_generation t \<notin> set deletions) (version_tables version)
        in and_then (add_tables version deletions kept (added_tables edit)) (\<lambda>ts.
        let
          next_file = (case edit_next_file_number edit of None \<Rightarrow> next_file_number version | Some n \<Rightarrow> n);
          last_seq = (case edit_last_sequence edit of None \<Rightarrow> last_sequence version | Some n \<Rightarrow> n)
        in if next_file < next_file_number version \<or> last_seq < last_sequence version
        then Inl (InvalidArgument ''VersionEdit regresses a monotonic frontier'')
        else let
          candidate = \<lparr>version_id = version_id version + 1, next_file_number = next_file,
                       last_sequence = last_seq, version_tables = sort_key table_generation ts\<rparr>;
          st = ValidateVersion candidate options
        in if \<not> ok st then Inl (InvalidArgument (message st)) else Inr candidate)))"

section \<open>Encoding\<close>

fun encode_tables :: "bytes \<Rightarrow> VersionTable list \<Rightarrow> bytes result" where
  "encode_tables payload [] = Inr payload"
| "encode_tables payload (t # ts) =
     (let metadata = vt_metadata t; bad = InvalidArgument ''Manifest table record is too large'' in
      or_fail (CheckedAdd (word_of_nat kManifestTableFixedSize) (word_of_nat (length (md_minimum_key metadata)))) bad (\<lambda>record_size.
      or_fail (CheckedAdd record_size (word_of_nat (length (md_maximum_key metadata)))) bad (\<lambda>record_size.
      if unat record_size > u32_max \<or> length (md_minimum_key metadata) > u32_max \<or>
         length (md_maximum_key metadata) > u32_max
      then Inl bad
      else let
        payload = PutFixed32 payload (ucast record_size);
        payload = PutFixed32 payload (vt_level t);
        payload = PutFixed64 payload (md_generation metadata);
        payload = PutFixed64 payload (md_file_size metadata);
        payload = PutFixed64 payload (md_record_count metadata);
        payload = PutFixed64 payload (md_minimum_sequence metadata);
        payload = PutFixed64 payload (md_maximum_sequence metadata);
        payload = PutFixed32 payload (word_of_nat (length (md_minimum_key metadata)));
        payload = PutFixed32 payload (word_of_nat (length (md_maximum_key metadata)));
        payload = payload @ md_minimum_key metadata;
        payload = payload @ md_maximum_key metadata
      in if length payload > kMaximumManifestSize - kManifestHeaderSize
        then Inl (InvalidArgument ''Manifest exceeds the format size limit'')
        else encode_tables payload ts)))"

definition EncodeManifest :: "Version \<Rightarrow> Options \<Rightarrow> bytes result" where
  "EncodeManifest version options =
     (let validation = ValidateVersion version options in
      if \<not> ok validation then Inl validation
      else if length (version_tables version) > u32_max
        then Inl (InvalidArgument ''Manifest has too many tables'')
      else and_then (encode_tables [] (version_tables version)) (\<lambda>payload.
        let file_size = kManifestHeaderSize + length payload in
        if file_size > kMaximumManifestSize \<or> length payload > u32_max
        then Inl (InvalidArgument ''Manifest exceeds the format size limit'')
        else let
          header = kManifestMagic;
          header = header @ [kManifestFormatVersion];
          header = header @ [kStorageFormatVersion];
          header = PutFixed16 header (word_of_nat kManifestHeaderSize);
          header = PutFixed64 header (word_of_nat file_size);
          header = PutFixed64 header (version_id version);
          header = PutFixed64 header (next_file_number version);
          header = PutFixed64 header (last_sequence version);
          header = PutFixed32 header (word_of_nat (length (version_tables version)));
          header = PutFixed32 header (word_of_nat (length payload));
          header = PutFixed64 header 0;
          checksum_input = header @ payload;
          header = PutFixed32 header (Crc32c checksum_input);
          header = PutFixed32 header 0
        in Inr (header @ payload)))"


section \<open>Decoding\<close>

text \<open>One turn of the loop over the table records, on the rest of the file from the record on.\<close>

definition decode_table_record :: "Options \<Rightarrow> bytes \<Rightarrow> (nat \<times> VersionTable) result" where
  "decode_table_record options record =
     (if length record < kManifestTableFixedSize
      then Inl (ManifestCorruption ''table record is truncated'')
      else let bad = ManifestCorruption ''table record fields cannot be decoded'' in
      or_fail (DecodeFixed32 record) bad (\<lambda>record_size.
      or_fail (DecodeFixed32 (substr_from record 4)) bad (\<lambda>level.
      or_fail (DecodeFixed64 (substr_from record 8)) bad (\<lambda>generation.
      or_fail (DecodeFixed64 (substr_from record 16)) bad (\<lambda>file_size.
      or_fail (DecodeFixed64 (substr_from record 24)) bad (\<lambda>record_count.
      or_fail (DecodeFixed64 (substr_from record 32)) bad (\<lambda>minimum_sequence.
      or_fail (DecodeFixed64 (substr_from record 40)) bad (\<lambda>maximum_sequence.
      or_fail (DecodeFixed32 (substr_from record 48)) bad (\<lambda>minimum_key_size.
      or_fail (DecodeFixed32 (substr_from record 52)) bad (\<lambda>maximum_key_size.
      let expected_size = kManifestTableFixedSize + unat minimum_key_size + unat maximum_key_size in
      if unat record_size \<noteq> expected_size \<or> unat record_size > length record \<or>
         unat minimum_key_size > max_key_size options \<or> unat maximum_key_size > max_key_size options
      then Inl (ManifestCorruption ''table record length is invalid'')
      else let keys = substr_from record kManifestTableFixedSize in
        Inr (unat record_size, \<lparr>vt_level = level, vt_metadata = empty_SSTableMetadata\<lparr>
          md_generation := generation, md_file_size := file_size, md_record_count := record_count,
          md_minimum_sequence := minimum_sequence, md_maximum_sequence := maximum_sequence,
          md_minimum_key := substr keys 0 (unat minimum_key_size),
          md_maximum_key := substr keys (unat minimum_key_size) (unat maximum_key_size)\<rparr>\<rparr>)))))))))))"

fun decode_tables :: "Options \<Rightarrow> bytes \<Rightarrow> nat \<Rightarrow> nat \<Rightarrow> VersionTable list \<Rightarrow> (nat \<times> VersionTable list) result" where
  "decode_tables options encoded 0 offset ts = Inr (offset, ts)"
| "decode_tables options encoded (Suc n) offset ts =
     and_then (decode_table_record options (substr_from encoded offset)) (\<lambda>(record_size, t).
       decode_tables options encoded n (offset + record_size) (ts @ [t]))"

definition DecodeManifest :: "bytes \<Rightarrow> Options \<Rightarrow> Version result" where
  "DecodeManifest encoded options =
     (if length encoded < kManifestHeaderSize
      then Inl (ManifestCorruption ''file is smaller than its header'')
      else if take 4 encoded \<noteq> kManifestMagic then Inl (ManifestCorruption ''magic is invalid'')
      else if encoded ! 4 \<noteq> kManifestFormatVersion \<or> encoded ! 5 \<noteq> kStorageFormatVersion
      then Inl (VersionMismatch (''manifest format '' @ to_string (unat (encoded ! 4)) @
        '' / storage format '' @ to_string (unat (encoded ! 5)) @ '' is unsupported''))
      else let bad = ManifestCorruption ''header fields are invalid'' in
      or_fail (DecodeFixed16 (substr_from encoded 6)) bad (\<lambda>header_size.
      or_fail (DecodeFixed64 (substr_from encoded 8)) bad (\<lambda>file_size.
      or_fail (DecodeFixed64 (substr_from encoded 16)) bad (\<lambda>id.
      or_fail (DecodeFixed64 (substr_from encoded 24)) bad (\<lambda>next_file.
      or_fail (DecodeFixed64 (substr_from encoded 32)) bad (\<lambda>last_seq.
      or_fail (DecodeFixed32 (substr_from encoded 40)) bad (\<lambda>table_count.
      or_fail (DecodeFixed32 (substr_from encoded 44)) bad (\<lambda>payload_size.
      or_fail (DecodeFixed64 (substr_from encoded 48)) bad (\<lambda>reserved64.
      or_fail (DecodeFixed32 (substr_from encoded 56)) bad (\<lambda>checksum.
      or_fail (DecodeFixed32 (substr_from encoded 60)) bad (\<lambda>reserved32.
      if unat header_size \<noteq> kManifestHeaderSize \<or> unat file_size \<noteq> length encoded \<or>
         unat payload_size \<noteq> length encoded - kManifestHeaderSize \<or>
         length encoded > kMaximumManifestSize \<or> reserved64 \<noteq> 0 \<or> reserved32 \<noteq> 0 \<or>
         unat table_count > unat payload_size div kManifestTableFixedSize
      then Inl bad
      else if Crc32c (substr encoded 0 56 @ substr_from encoded kManifestHeaderSize) \<noteq> checksum
      then Inl (ManifestCorruption ''checksum mismatch'')
      else and_then (decode_tables options encoded (unat table_count) kManifestHeaderSize []) (\<lambda>(offset, ts).
        if offset \<noteq> length encoded then Inl (ManifestCorruption ''unreferenced trailing bytes exist'')
        else let
          version = \<lparr>version_id = id, next_file_number = next_file, last_sequence = last_seq,
                     version_tables = ts\<rparr>;
          validation = ValidateVersion version options
        in if \<not> ok validation then Inl validation else Inr version))))))))))))"

section \<open>The manifest file\<close>

text \<open>\<open>opened\<close> is what opening the manifest for reading returned.\<close>

definition LoadManifest :: "string \<Rightarrow> Options \<Rightarrow> RecoveryFile result \<Rightarrow> Version result" where
  "LoadManifest directory options opened =
     (if directory = [] then Inl (InvalidArgument ''Manifest load arguments are invalid'')
      else and_then opened (\<lambda>f.
        let (file_size, f) = Size f in
        and_then file_size (\<lambda>n.
          if n > kMaximumManifestSize \<or> n > size_max
          then Inl (ManifestCorruption ''file exceeds the format size limit'')
          else let (f, r) = ReadAllAt f 0 n in
          case r of
            Inl s \<Rightarrow> if IsIncomplete s
                    then Inl (ManifestCorruption ''file was truncated while reading'') else Inl s
          | Inr encoded \<Rightarrow> DecodeManifest encoded options)))"

definition PublishManifest :: "string \<Rightarrow> Version \<Rightarrow> Options \<Rightarrow> Env \<Rightarrow> status \<times> Env" where
  "PublishManifest directory version options env =
     (if directory = [] then (InvalidArgument ''Manifest directory must not be empty'', env)
      else case EncodeManifest version options of
        Inl s \<Rightarrow> (s, env)
      | Inr encoded \<Rightarrow> publish_file (JoinPath directory kManifestFileName) encoded env)"

section \<open>The encoding of a table record\<close>

text \<open>
  A manifest stores eight fields of the metadata; \<open>stored\<close> says that the others have their initial
  values, as after decoding.
\<close>

definition strip_metadata :: "SSTableMetadata \<Rightarrow> SSTableMetadata" where
  "strip_metadata m = empty_SSTableMetadata\<lparr>md_generation := md_generation m,
     md_file_size := md_file_size m, md_record_count := md_record_count m,
     md_minimum_sequence := md_minimum_sequence m, md_maximum_sequence := md_maximum_sequence m,
     md_minimum_key := md_minimum_key m, md_maximum_key := md_maximum_key m\<rparr>"

definition strip_table :: "VersionTable \<Rightarrow> VersionTable" where
  "strip_table t = \<lparr>vt_level = vt_level t, vt_metadata = strip_metadata (vt_metadata t)\<rparr>"

definition strip :: "Version \<Rightarrow> Version" where
  "strip v = v\<lparr>version_tables := map strip_table (version_tables v)\<rparr>"

definition record_bytes :: "VersionTable \<Rightarrow> bytes" where
  "record_bytes t = (let m = vt_metadata t in
     PutFixed32 [] (word_of_nat (56 + length (md_minimum_key m) + length (md_maximum_key m))) @
     PutFixed32 [] (vt_level t) @ PutFixed64 [] (md_generation m) @ PutFixed64 [] (md_file_size m) @
     PutFixed64 [] (md_record_count m) @ PutFixed64 [] (md_minimum_sequence m) @
     PutFixed64 [] (md_maximum_sequence m) @ PutFixed32 [] (word_of_nat (length (md_minimum_key m))) @
     PutFixed32 [] (word_of_nat (length (md_maximum_key m))) @ md_minimum_key m @ md_maximum_key m)"

definition recordable :: "Options \<Rightarrow> VersionTable \<Rightarrow> bool" where
  "recordable options t \<longleftrightarrow> (let m = vt_metadata t in
     56 + length (md_minimum_key m) + length (md_maximum_key m) \<le> u32_max \<and>
     length (md_minimum_key m) \<le> max_key_size options \<and> length (md_maximum_key m) \<le> max_key_size options)"

lemma length_record_bytes [simp, width_simps]:
  "length (record_bytes t) = 56 + length (md_minimum_key (vt_metadata t)) + length (md_maximum_key (vt_metadata t))"
  by (simp add: record_bytes_def Let_def)

lemma strip_simps [simp]:
  "vt_level (strip_table t) = vt_level t" "table_generation (strip_table t) = table_generation t"
  "md_file_size (vt_metadata (strip_table t)) = md_file_size (vt_metadata t)"
  "md_record_count (vt_metadata (strip_table t)) = md_record_count (vt_metadata t)"
  "md_minimum_sequence (vt_metadata (strip_table t)) = md_minimum_sequence (vt_metadata t)"
  "md_maximum_sequence (vt_metadata (strip_table t)) = md_maximum_sequence (vt_metadata t)"
  "md_minimum_key (vt_metadata (strip_table t)) = md_minimum_key (vt_metadata t)"
  "md_maximum_key (vt_metadata (strip_table t)) = md_maximum_key (vt_metadata t)"
  "strip_table (strip_table t) = strip_table t"
  by (simp_all add: strip_table_def strip_metadata_def)

lemma record_bytes_strip [simp]: "record_bytes (strip_table t) = record_bytes t"
  by (simp add: record_bytes_def Let_def)

lemma recordable_strip [simp]: "recordable options (strip_table t) = recordable options t"
  by (simp add: recordable_def Let_def)

lemma decode_table_record_bytes:
  assumes "recordable options t"
  shows "decode_table_record options (record_bytes t @ rest) = Inr (length (record_bytes t), strip_table t)"
proof -
  let ?m = "vt_metadata t"
  let ?min = "md_minimum_key ?m" and ?max = "md_maximum_key ?m"
  have w: "unat (word_of_nat (56 + length ?min + length ?max) :: u32) = 56 + length ?min + length ?max"
    "unat (word_of_nat (length ?min) :: u32) = length ?min" "unat (word_of_nat (length ?max) :: u32) = length ?max"
    using assms by (intro unat_of_nat_u32; simp add: recordable_def Let_def)+
  have "record_bytes t @ rest =
     PutFixed32 [] (word_of_nat (56 + length ?min + length ?max)) @
     PutFixed32 [] (vt_level t) @ PutFixed64 [] (md_generation ?m) @ PutFixed64 [] (md_file_size ?m) @
     PutFixed64 [] (md_record_count ?m) @ PutFixed64 [] (md_minimum_sequence ?m) @
     PutFixed64 [] (md_maximum_sequence ?m) @ PutFixed32 [] (word_of_nat (length ?min)) @
     PutFixed32 [] (word_of_nat (length ?max)) @ ?min @ ?max @ rest"
    by (simp add: record_bytes_def Let_def)
  then show ?thesis
    using assms
    by (simp add: decode_table_record_def dec_put w substr_def recordable_def Let_def strip_table_def
        strip_metadata_def del: of_nat_add of_nat_numeral)
qed


lemma record_fields:
  "take 56 xs = take 4 xs @ take 4 (drop 4 xs) @ take 8 (drop 8 xs) @ take 8 (drop 16 xs) @
     take 8 (drop 24 xs) @ take 8 (drop 32 xs) @ take 8 (drop 40 xs) @ take 4 (drop 48 xs) @ take 4 (drop 52 xs)"
  using take_add [of 4 52 xs] take_add [of 4 48 "drop 4 xs"] take_add [of 8 40 "drop 8 xs"]
    take_add [of 8 32 "drop 16 xs"] take_add [of 8 24 "drop 24 xs"] take_add [of 8 16 "drop 32 xs"]
    take_add [of 8 8 "drop 40 xs"] take_add [of 4 4 "drop 48 xs"]
  by simp

lemma decode_table_record_sound:
  assumes dec: "decode_table_record options record = Inr (n, t)"
  shows "recordable options t \<and> strip_table t = t \<and> n = length (record_bytes t) \<and>
    (\<exists>rest. record = record_bytes t @ rest)"
proof -
  obtain rs lv gen fs rc mins maxs k1 k2 where fields: "DecodeFixed32 record = Some rs"
      "DecodeFixed32 (drop 4 record) = Some lv" "DecodeFixed64 (drop 8 record) = Some gen"
      "DecodeFixed64 (drop 16 record) = Some fs" "DecodeFixed64 (drop 24 record) = Some rc"
      "DecodeFixed64 (drop 32 record) = Some mins" "DecodeFixed64 (drop 40 record) = Some maxs"
      "DecodeFixed32 (drop 48 record) = Some k1" "DecodeFixed32 (drop 52 record) = Some k2"
    and sizes: "n = unat rs" "n = 56 + unat k1 + unat k2" "n \<le> length record"
      "unat k1 \<le> max_key_size options" "unat k2 \<le> max_key_size options"
    and t: "t = \<lparr>vt_level = lv, vt_metadata = empty_SSTableMetadata\<lparr>
          md_generation := gen, md_file_size := fs, md_record_count := rc,
          md_minimum_sequence := mins, md_maximum_sequence := maxs,
          md_minimum_key := substr (drop 56 record) 0 (unat k1),
          md_maximum_key := substr (drop 56 record) (unat k1) (unat k2)\<rparr>\<rparr>"
    using dec unfolding decode_table_record_def Let_def
    by (auto simp: or_fail_Inr not_less split: if_splits)
  let ?m = "vt_metadata t"
  have len: "length (md_minimum_key ?m) = unat k1" "length (md_maximum_key ?m) = unat k2"
    using sizes by (simp_all add: t)
  have keys: "md_minimum_key ?m @ md_maximum_key ?m = take (n - 56) (drop 56 record)"
    unfolding sizes(2) by (simp add: t substr_def take_add)
  have widths: "(word_of_nat (length (md_minimum_key ?m)) :: u32) = k1"
    "(word_of_nat (length (md_maximum_key ?m)) :: u32) = k2"
    "(word_of_nat (56 + length (md_minimum_key ?m) + length (md_maximum_key ?m)) :: u32) = rs"
    using len sizes(1,2) by (metis of_nat_unat ucast_id)+
  have "record_bytes t = take 56 record @ (md_minimum_key ?m @ md_maximum_key ?m)"
    unfolding record_fields [of "record"] record_bytes_def Let_def widths
    using fields [unfolded fixed32.dec_Some_iff fixed64.dec_Some_iff] by (simp add: t)
  also have "\<dots> = take n record"
    unfolding keys using take_add [of 56 "n - 56" "record"] sizes(2) by (simp add: add.assoc)
  finally have "record = record_bytes t @ drop n record"
    by (metis append_take_drop_id)
  moreover have "recordable options t"
    using sizes len unat_lt_u32 [of rs] by (simp add: recordable_def Let_def)
  moreover have "strip_table t = t"
    by (simp add: t strip_table_def strip_metadata_def)
  ultimately show ?thesis
    using sizes(2) len by auto
qed

interpretation records: frame_codec record_bytes "decode_table_record options"
    "\<lambda>t. recordable options t \<and> strip_table t = t" for options
proof
  show "record_bytes t \<noteq> []" for t
    by (metis add_gr_0 length_greater_0_conv length_record_bytes zero_less_numeral)
qed (use decode_table_record_bytes decode_table_record_sound in \<open>auto simp del: length_record_bytes\<close>)


lemma decode_tables_parse:
  "decode_tables options encoded n offset ts =
     and_then (records.parse options n (drop offset encoded)) (\<lambda>(qs, rest).
       Inr (offset + (length (drop offset encoded) - length rest), ts @ qs))"
  if "offset \<le> length encoded"
  using that
proof (induction n arbitrary: offset ts)
  case 0
  then show ?case by simp
next
  case (Suc n)
  show ?case
  proof (cases "decode_table_record options (drop offset encoded)")
    case (Inl s)
    then show ?thesis by simp
  next
    case (Inr p)
    obtain k t where p: "p = (k, t)"
      by force
    then have "k \<le> length encoded - offset"
      using records.dec_sound [of options "drop offset encoded" k t] Inr
      by (auto dest: arg_cong [of _ _ length])
    then have k: "offset + k \<le> length encoded"
      using Suc.prems by simp
    have "records.parse options n (drop k (drop offset encoded)) = Inr (qs, rest) \<Longrightarrow>
        length rest \<le> length encoded - (offset + k)" for qs rest
      using records.parse_sound [of options n "drop k (drop offset encoded)" qs rest]
      by (auto dest: arg_cong [of _ _ length])
    then show ?thesis
      using Suc.IH [OF k, of "ts @ [t]"] k
      by (auto simp: Inr p add.commute and_then_def split: sum.split prod.split)
  qed
qed


section \<open>The encoding of a manifest\<close>

definition sized :: "VersionTable \<Rightarrow> bool" where
  "sized t \<longleftrightarrow> length (record_bytes t) \<le> u32_max"

lemma CheckedAdd_small:
  "a \<le> u32_max \<Longrightarrow> b \<le> u32_max \<Longrightarrow>
     CheckedAdd (word_of_nat a) (word_of_nat b) = Some (word_of_nat (a + b))"
  by (simp add: CheckedAdd_Some_iff unat_of_nat_u64 del: of_nat_add)

lemma encode_tables_Cons:
  "encode_tables payload (t # ts) = Inr out \<longleftrightarrow>
     sized t \<and> length (payload @ record_bytes t) \<le> kMaximumManifestSize - kManifestHeaderSize \<and>
     encode_tables (payload @ record_bytes t) ts = Inr out"
proof (cases "length (md_minimum_key (vt_metadata t)) \<le> u32_max \<and> length (md_maximum_key (vt_metadata t)) \<le> u32_max")
  case True
  let ?m = "vt_metadata t"
  let ?a = "length (md_minimum_key ?m)" and ?b = "length (md_maximum_key ?m)"
  have sum: "CheckedAdd (word_of_nat 56) (word_of_nat ?a) = Some (word_of_nat (56 + ?a))"
    "CheckedAdd (word_of_nat (56 + ?a)) (word_of_nat ?b) = Some (word_of_nat (56 + ?a + ?b))"
    "unat (word_of_nat (56 + ?a + ?b) :: u64) = 56 + ?a + ?b"
    using True by (simp_all only: CheckedAdd_Some_iff unat_of_nat_u64) (simp_all add: unat_of_nat_u64 del: of_nat_add)
  have "(ucast (word_of_nat (56 + ?a + ?b) :: u64) :: u32) = word_of_nat (56 + ?a + ?b)"
    using sum(3) by (metis of_nat_unat)
  then show ?thesis
    using True unfolding encode_tables.simps Let_def sum or_fail_simps
    by (simp add: sum(3) sized_def record_bytes_def Let_def codec_simps fixed32.put_split [of payload] not_less
        del: of_nat_add)
next
  case False
  then show ?thesis
    by (auto simp: Let_def or_fail_Inr sized_def)
qed


lemma encode_tables_Inl: "encode_tables payload ts = Inl s \<Longrightarrow> \<not> ok s"
  by (induction ts arbitrary: payload) (auto simp: Let_def or_fail_def split: if_splits option.splits)

lemma EncodeManifest_Inl: "EncodeManifest v options = Inl s \<Longrightarrow> \<not> ok s"
  by (auto simp: EncodeManifest_def Let_def and_then_def split: if_splits sum.splits dest: encode_tables_Inl)

lemma encode_tables_iff:
  "encode_tables payload ts = Inr out \<longleftrightarrow>
     list_all sized ts \<and> out = payload @ records.log ts \<and>
     (ts \<noteq> [] \<longrightarrow> length out \<le> kMaximumManifestSize - kManifestHeaderSize)"
proof (induction ts arbitrary: payload)
  case (Cons t ts)
  show ?case
    unfolding encode_tables_Cons Cons.IH by (cases "ts = []") (auto simp del: length_record_bytes)
qed auto

definition manifest_prefix :: "Version \<Rightarrow> bytes" where
  "manifest_prefix v = (let payload = records.log (version_tables v) in
     kManifestMagic @ [kManifestFormatVersion, kStorageFormatVersion] @ PutFixed16 [] 64 @
     PutFixed64 [] (word_of_nat (64 + length payload)) @ PutFixed64 [] (version_id v) @
     PutFixed64 [] (next_file_number v) @ PutFixed64 [] (last_sequence v) @
     PutFixed32 [] (word_of_nat (length (version_tables v))) @
     PutFixed32 [] (word_of_nat (length payload)) @ PutFixed64 [] 0)"

definition manifest_bytes :: "Version \<Rightarrow> bytes" where
  "manifest_bytes v = manifest_prefix v @
     PutFixed32 [] (Crc32c (manifest_prefix v @ records.log (version_tables v))) @ PutFixed32 [] 0 @
     records.log (version_tables v)"

definition encodable_version :: "Options \<Rightarrow> Version \<Rightarrow> bool" where
  "encodable_version options v \<longleftrightarrow> ok (ValidateVersion v options) \<and> list_all sized (version_tables v) \<and>
     64 + length (records.log (version_tables v)) \<le> kMaximumManifestSize"

lemma length_kManifestMagic [simp, width_simps]: "length kManifestMagic = 4"
  by (simp add: kManifestMagic_def)

lemma kManifestMagic_not_Nil [simp]: "kManifestMagic \<noteq> []"
  using length_kManifestMagic by (metis length_0_conv zero_neq_numeral)

lemma length_manifest_prefix [simp, width_simps]: "length (manifest_prefix v) = 56"
  by (simp add: manifest_prefix_def Let_def)

lemma length_manifest_bytes [simp, width_simps]:
  "length (manifest_bytes v) = 64 + length (records.log (version_tables v))"
  by (simp add: manifest_bytes_def)

lemma log_count: "56 * length ts \<le> length (records.log ts)"
  by (induction ts) auto

lemma EncodeManifest_Inr_iff:
  "EncodeManifest v options = Inr bs \<longleftrightarrow> encodable_version options v \<and> bs = manifest_bytes v"
proof (cases "ok (ValidateVersion v options) \<and> list_all sized (version_tables v) \<and>
    64 + length (records.log (version_tables v)) \<le> kMaximumManifestSize")
  case True
  then have enc: "encode_tables [] (version_tables v) = Inr (records.log (version_tables v))"
    by (simp add: encode_tables_iff)
  have "EncodeManifest v options = Inr (manifest_bytes v)"
    using True log_count [of "version_tables v"]
    by (simp add: EncodeManifest_def Let_def enc manifest_bytes_def manifest_prefix_def codec_simps)
  with True show ?thesis
    by (auto simp: encodable_version_def)
next
  case False
  then show ?thesis
    by (auto simp: EncodeManifest_def Let_def encodable_version_def and_then_Inr encode_tables_iff)
qed


section \<open>What the manifest decoder accepts\<close>

lemma decode_tables_iff:
  assumes "64 \<le> length encoded"
  shows "(\<exists>offset. decode_tables options encoded n 64 [] = Inr (offset, ts) \<and> offset = length encoded) \<longleftrightarrow>
    n = length ts \<and> list_all (\<lambda>t. recordable options t \<and> strip_table t = t) ts \<and> drop 64 encoded = records.log ts"
proof -
  let ?valid = "\<lambda>t. recordable options t \<and> strip_table t = t"
  have "n = length ts \<and> list_all ?valid ts \<and> drop 64 encoded = records.log ts"
    if run: "decode_tables options encoded n 64 [] = Inr (length encoded, ts)"
  proof -
    obtain rest where parse: "records.parse options n (drop 64 encoded) = Inr (ts, rest)"
      and len: "64 + (length encoded - 64 - length rest) = length encoded"
      using run unfolding decode_tables_parse [OF assms] by (auto simp: and_then_Inr)
    note sound = records.parse_sound [OF parse]
    then have "length encoded - 64 = length (records.log ts) + length rest"
      by (metis length_append length_drop)
    then have "rest = []"
      using len by (cases rest) auto
    then show ?thesis
      using sound by auto
  qed
  moreover have "decode_tables options encoded n 64 [] = Inr (length encoded, ts)"
    if "n = length ts" "list_all ?valid ts" "drop 64 encoded = records.log ts"
  proof -
    have "records.parse options n (drop 64 encoded) = Inr (ts, [])"
      using records.parse_log [OF that(2), of "[]"] that(1,3) by simp
    then show ?thesis
      unfolding decode_tables_parse [OF assms] using assms by simp
  qed
  ultimately show ?thesis
    by auto
qed

definition manifest_header :: "bytes \<Rightarrow> Version \<Rightarrow> bool" where
  "manifest_header encoded v \<longleftrightarrow>
     64 \<le> length encoded \<and> length encoded \<le> kMaximumManifestSize \<and> take 4 encoded = kManifestMagic \<and>
     encoded ! 4 = kManifestFormatVersion \<and> encoded ! 5 = kStorageFormatVersion \<and>
     DecodeFixed16 (drop 6 encoded) = Some 64 \<and>
     DecodeFixed64 (drop 8 encoded) = Some (word_of_nat (length encoded)) \<and>
     DecodeFixed64 (drop 16 encoded) = Some (version_id v) \<and>
     DecodeFixed64 (drop 24 encoded) = Some (next_file_number v) \<and>
     DecodeFixed64 (drop 32 encoded) = Some (last_sequence v) \<and>
     DecodeFixed32 (drop 40 encoded) = Some (word_of_nat (length (version_tables v))) \<and>
     DecodeFixed32 (drop 44 encoded) = Some (word_of_nat (length encoded - 64)) \<and>
     DecodeFixed64 (drop 48 encoded) = Some 0 \<and>
     DecodeFixed32 (drop 56 encoded) = Some (Crc32c (take 56 encoded @ drop 64 encoded)) \<and>
     DecodeFixed32 (drop 60 encoded) = Some 0"

lemma DecodeManifest_Inr_iff:
  "DecodeManifest encoded options = Inr v \<longleftrightarrow>
     manifest_header encoded v \<and> drop 64 encoded = records.log (version_tables v) \<and>
     list_all (\<lambda>t. recordable options t \<and> strip_table t = t) (version_tables v) \<and> ok (ValidateVersion v options)"
proof (cases "64 \<le> length encoded \<and> length encoded \<le> kMaximumManifestSize")
  case True
  obtain hs fs id nf ls tc ps r64 cs r32 where fields: "DecodeFixed16 (drop 6 encoded) = Some hs"
      "DecodeFixed64 (drop 8 encoded) = Some fs" "DecodeFixed64 (drop 16 encoded) = Some id"
      "DecodeFixed64 (drop 24 encoded) = Some nf" "DecodeFixed64 (drop 32 encoded) = Some ls"
      "DecodeFixed32 (drop 40 encoded) = Some tc" "DecodeFixed32 (drop 44 encoded) = Some ps"
      "DecodeFixed64 (drop 48 encoded) = Some r64" "DecodeFixed32 (drop 56 encoded) = Some cs"
      "DecodeFixed32 (drop 60 encoded) = Some r32"
    using True fixed16.dec_drop_total [of 6 encoded] fixed64.dec_drop_total [of 8 encoded]
      fixed64.dec_drop_total [of 16 encoded] fixed64.dec_drop_total [of 24 encoded]
      fixed64.dec_drop_total [of 32 encoded] fixed32.dec_drop_total [of 40 encoded]
      fixed32.dec_drop_total [of 44 encoded] fixed64.dec_drop_total [of 48 encoded]
      fixed32.dec_drop_total [of 56 encoded] fixed32.dec_drop_total [of 60 encoded] by auto
  have words: "unat hs = kManifestHeaderSize \<longleftrightarrow> hs = 64" "unat fs = length encoded \<longleftrightarrow> fs = word_of_nat (length encoded)"
    "unat ps = length encoded - kManifestHeaderSize \<longleftrightarrow> ps = word_of_nat (length encoded - 64)"
  proof -
    show "unat hs = kManifestHeaderSize \<longleftrightarrow> hs = 64"
      by (simp add: word_unat_eq_iff)
    show "unat fs = length encoded \<longleftrightarrow> fs = word_of_nat (length encoded)"
      by (rule unat_eq_of_nat_u64) (use True in simp)
    show "unat ps = length encoded - kManifestHeaderSize \<longleftrightarrow> ps = word_of_nat (length encoded - 64)"
      by (rule unat_eq_of_nat_u32) (use True in linarith)
  qed
  let ?ts = "version_tables v"
  have count: "unat tc = length ?ts \<and> drop 64 encoded = records.log ?ts \<longleftrightarrow>
      tc = word_of_nat (length ?ts) \<and> drop 64 encoded = records.log ?ts"
    "unat tc = length ?ts \<and> drop 64 encoded = records.log ?ts \<Longrightarrow> unat tc \<le> (length encoded - 64) div 56"
  proof -
    have "56 * length ?ts \<le> length encoded - 64" if "drop 64 encoded = records.log ?ts"
      using log_count [of ?ts] that [symmetric] by simp
    then show "unat tc = length ?ts \<and> drop 64 encoded = records.log ?ts \<longleftrightarrow>
        tc = word_of_nat (length ?ts) \<and> drop 64 encoded = records.log ?ts"
      "unat tc = length ?ts \<and> drop 64 encoded = records.log ?ts \<Longrightarrow> unat tc \<le> (length encoded - 64) div 56"
      using True unat_eq_of_nat_u32 [of "length ?ts" tc] by auto
  qed
  have "DecodeManifest encoded options = Inr v \<longleftrightarrow> take 4 encoded = kManifestMagic \<and>
      encoded ! 4 = kManifestFormatVersion \<and> encoded ! 5 = kStorageFormatVersion \<and> hs = 64 \<and>
      fs = word_of_nat (length encoded) \<and> ps = word_of_nat (length encoded - 64) \<and> r64 = 0 \<and> r32 = 0 \<and>
      unat tc \<le> (length encoded - 64) div 56 \<and> cs = Crc32c (take 56 encoded @ drop 64 encoded) \<and>
      (\<exists>offset. decode_tables options encoded (unat tc) 64 [] = Inr (offset, ?ts) \<and> offset = length encoded) \<and>
      v = \<lparr>version_id = id, next_file_number = nf, last_sequence = ls, version_tables = ?ts\<rparr> \<and>
      ok (ValidateVersion v options)"
    using True
    by (cases v) (auto simp: DecodeManifest_def Let_def fields words and_then_Inr substr_0 not_less
        unat_of_nat_u32 simp del: of_nat_diff)
  also have "\<dots> \<longleftrightarrow> manifest_header encoded v \<and> drop 64 encoded = records.log ?ts \<and>
     list_all (\<lambda>t. recordable options t \<and> strip_table t = t) ?ts \<and> ok (ValidateVersion v options)"
    using True count unfolding decode_tables_iff [OF conjunct1 [OF True]] manifest_header_def fields
    by (cases v) auto
  finally show ?thesis .
next
  case False
  then show ?thesis
    by (auto simp: manifest_header_def DecodeManifest_def Let_def or_fail_Inr)
qed


section \<open>Round trip\<close>

lemma log_strip [simp]: "records.log (map strip_table ts) = records.log ts"
  by (induction ts) simp_all

lemma table_invalid_strip [simp]:
  "table_invalid (strip v) options ns (strip_table t) = table_invalid v options ns t"
  by (simp add: table_invalid_def Let_def strip_def)

lemma validate_tables_strip [simp]:
  "validate_tables (strip v) options ns (map strip_table ts) = validate_tables v options ns ts"
  by (induction ts arbitrary: ns) simp_all

lemma ranges_overlap_strip [simp]: "ranges_overlap (map strip_table ts) = ranges_overlap ts"
  by (induction ts rule: ranges_overlap.induct) simp_all

lemma filter_map_strip: "filter (\<lambda>t. vt_level t = 1) (map strip_table ts) = map strip_table (filter (\<lambda>t. vt_level t = 1) ts)"
  by (induction ts) simp_all

lemma insort_map_strip:
  "insort_key (\<lambda>t. md_minimum_key (vt_metadata t)) (strip_table x) (map strip_table ts) =
     map strip_table (insort_key (\<lambda>t. md_minimum_key (vt_metadata t)) x ts)"
  by (induction ts) simp_all

lemma level_one_tables_strip [simp]: "level_one_tables (map strip_table ts) = map strip_table (level_one_tables ts)"
proof -
  have "sort_key (\<lambda>t. md_minimum_key (vt_metadata t)) (map strip_table us) =
      map strip_table (sort_key (\<lambda>t. md_minimum_key (vt_metadata t)) us)" for us
    by (induction us) (simp_all add: insort_map_strip)
  then show ?thesis
    by (simp add: level_one_tables_def filter_map_strip)
qed

lemma maximum_table_sequence_strip [simp]:
  "maximum_table_sequence (map strip_table ts) = maximum_table_sequence ts"
  by (simp add: maximum_table_sequence_def foldl_map)

lemma ValidateVersion_strip [simp]: "ValidateVersion (strip v) options = ValidateVersion v options"
proof -
  have "version_tables (strip v) = map strip_table (version_tables v)" "version_id (strip v) = version_id v"
    "next_file_number (strip v) = next_file_number v" "last_sequence (strip v) = last_sequence v"
    by (simp_all add: strip_def)
  then show ?thesis
    by (simp add: ValidateVersion_def)
qed

lemma validate_tables_all:
  "validate_tables v options ns ts \<Longrightarrow> t \<in> set ts \<Longrightarrow>
     length (md_minimum_key (vt_metadata t)) \<le> max_key_size options \<and>
     length (md_maximum_key (vt_metadata t)) \<le> max_key_size options"
  by (induction ts arbitrary: ns) (auto simp: table_invalid_def Let_def split: if_splits)

lemma encodable_recordable:
  assumes "encodable_version options v"
  shows "list_all (recordable options) (version_tables v)"
proof -
  have "validate_tables v options [] (version_tables v)"
    using assms by (simp add: encodable_version_def ValidateVersion_def ManifestCorruption_def split: if_splits)
  then show ?thesis
    using assms validate_tables_all [of v options "[]" "version_tables v"]
    by (auto simp: list_all_iff recordable_def Let_def encodable_version_def sized_def)
qed

lemma manifest_prefix_strip [simp]: "manifest_prefix (strip v) = manifest_prefix v"
  by (simp add: manifest_prefix_def strip_def Let_def)

lemma manifest_bytes_strip [simp]: "manifest_bytes (strip v) = manifest_bytes v"
  by (simp add: manifest_bytes_def) (simp add: strip_def)

lemma manifest_header_bytes:
  assumes "64 + length (records.log (version_tables v)) \<le> kMaximumManifestSize"
  shows "manifest_header (manifest_bytes v) v"
  using assms unfolding manifest_header_def
  by (simp add: manifest_bytes_def manifest_prefix_def Let_def dec_put nth_append)

lemma DecodeManifest_bytes:
  assumes "encodable_version options v"
  shows "DecodeManifest (manifest_bytes v) options = Inr (strip v)"
proof -
  have "manifest_header (manifest_bytes (strip v)) (strip v)"
    using assms by (intro manifest_header_bytes) (simp add: encodable_version_def strip_def)
  moreover have "drop 64 (manifest_bytes v) = records.log (version_tables (strip v))"
    by (simp add: manifest_bytes_def strip_def)
  moreover have "list_all (\<lambda>t. recordable options t \<and> strip_table t = t) (version_tables (strip v))"
    using encodable_recordable [OF assms] by (auto simp: strip_def list_all_iff)
  ultimately show ?thesis
    using assms by (simp add: DecodeManifest_Inr_iff encodable_version_def)
qed


lemma header_fields:
  "take 64 xs = take 4 xs @ take 1 (drop 4 xs) @ take 1 (drop 5 xs) @ take 2 (drop 6 xs) @ take 8 (drop 8 xs) @
     take 8 (drop 16 xs) @ take 8 (drop 24 xs) @ take 8 (drop 32 xs) @ take 4 (drop 40 xs) @ take 4 (drop 44 xs) @
     take 8 (drop 48 xs) @ take 4 (drop 56 xs) @ take 4 (drop 60 xs)"
  using take_add [of 4 60 xs] take_add [of 1 59 "drop 4 xs"] take_add [of 1 58 "drop 5 xs"]
    take_add [of 2 56 "drop 6 xs"] take_add [of 8 48 "drop 8 xs"] take_add [of 8 40 "drop 16 xs"]
    take_add [of 8 32 "drop 24 xs"] take_add [of 8 24 "drop 32 xs"] take_add [of 4 20 "drop 40 xs"]
    take_add [of 4 16 "drop 44 xs"] take_add [of 8 8 "drop 48 xs"] take_add [of 4 4 "drop 56 xs"]
  by simp

lemma manifest_canonical:
  assumes "DecodeManifest encoded options = Inr v"
  shows "encodable_version options v \<and> encoded = manifest_bytes v"
proof -
  note d = assms [unfolded DecodeManifest_Inr_iff]
  note h = conjunct1 [OF d, unfolded manifest_header_def fixed16.dec_Some_iff fixed32.dec_Some_iff fixed64.dec_Some_iff]
  have log: "drop 64 encoded = records.log (version_tables v)"
    using d by blast
  have len: "length encoded = 64 + length (records.log (version_tables v))"
    using h log [symmetric] by simp
  have ones: "take 1 (drop 4 encoded) = [kManifestFormatVersion]" "take 1 (drop 5 encoded) = [kStorageFormatVersion]"
    using h take_one_drop [of 4 encoded] take_one_drop [of 5 encoded] by auto
  have fields: "take 4 encoded = kManifestMagic" "take 2 (drop 6 encoded) = PutFixed16 [] 64"
    "take 8 (drop 8 encoded) = PutFixed64 [] (word_of_nat (64 + length (records.log (version_tables v))))"
    "take 8 (drop 16 encoded) = PutFixed64 [] (version_id v)"
    "take 8 (drop 24 encoded) = PutFixed64 [] (next_file_number v)"
    "take 8 (drop 32 encoded) = PutFixed64 [] (last_sequence v)"
    "take 4 (drop 40 encoded) = PutFixed32 [] (word_of_nat (length (version_tables v)))"
    "take 4 (drop 44 encoded) = PutFixed32 [] (word_of_nat (length (records.log (version_tables v))))"
    "take 8 (drop 48 encoded) = PutFixed64 [] 0"
    "take 4 (drop 56 encoded) = PutFixed32 [] (Crc32c (take 56 encoded @ records.log (version_tables v)))"
    "take 4 (drop 60 encoded) = PutFixed32 [] 0"
    using h len log by (simp_all del: of_nat_add)
  have pre: "take 64 encoded = manifest_prefix v @ take 4 (drop 56 encoded) @ take 4 (drop 60 encoded)"
    unfolding header_fields [of encoded] manifest_prefix_def Let_def using fields ones by simp
  have "take 56 (take 64 encoded) = manifest_prefix v"
    unfolding pre by simp
  then have "take 56 encoded = manifest_prefix v"
    by simp
  then have "encoded = manifest_bytes v"
    using pre fields(10,11) append_take_drop_id [of 64 encoded] log
    unfolding manifest_bytes_def by (metis append.assoc)
  then show ?thesis
    using d len h by (auto simp: encodable_version_def list_all_iff sized_def recordable_def Let_def)
qed

section \<open>Properties of valid versions\<close>

lemma ValidateVersion_ok_iff:
  "ok (ValidateVersion v options) \<longleftrightarrow>
     version_id v \<noteq> 0 \<and> next_file_number v \<noteq> 0 \<and> max_key_size options \<noteq> 0 \<and>
     validate_tables v options [] (version_tables v) \<and>
     \<not> ranges_overlap (level_one_tables (version_tables v)) \<and>
     maximum_table_sequence (version_tables v) \<le> last_sequence v"
  by (auto simp: ValidateVersion_def ManifestCorruption_def not_less)

lemma validate_tables_iff:
  "validate_tables v options ns ts \<longleftrightarrow>
     list_all (\<lambda>t. \<not> table_invalid v options [] t) ts \<and>
     distinct (map table_generation ts) \<and> set (map table_generation ts) \<inter> set ns = {}"
  by (induction ts arbitrary: ns) (auto simp: table_invalid_def Let_def split: if_splits)

lemma table_sequence_bound: "t \<in> set ts \<Longrightarrow> md_maximum_sequence (vt_metadata t) \<le> maximum_table_sequence ts"
proof -
  have "m \<le> foldl (\<lambda>m t. max m (md_maximum_sequence (vt_metadata t))) m ts \<and>
      (\<forall>t \<in> set ts. md_maximum_sequence (vt_metadata t) \<le> foldl (\<lambda>m t. max m (md_maximum_sequence (vt_metadata t))) m ts)" for m
  proof (induction ts arbitrary: m)
    case (Cons a ts)
    show ?case
      using Cons.IH [of "max m (md_maximum_sequence (vt_metadata a))"] by (auto simp: max.bounded_iff)
  qed simp
  then show "t \<in> set ts \<Longrightarrow> ?thesis"
    by (simp add: maximum_table_sequence_def)
qed

abbreviation smallest :: "VersionTable \<Rightarrow> bytes" where "smallest t \<equiv> md_minimum_key (vt_metadata t)"
abbreviation largest :: "VersionTable \<Rightarrow> bytes" where "largest t \<equiv> md_maximum_key (vt_metadata t)"

text \<open>Neighbours that do not overlap, and ranges that are not empty: then no two ranges overlap.\<close>

lemma not_overlap_sorted:
  "\<not> ranges_overlap ts \<Longrightarrow> (\<And>t. t \<in> set ts \<Longrightarrow> smallest t \<le> largest t) \<Longrightarrow>
     sorted_wrt (\<lambda>x y. largest x < smallest y) ts"
proof (induction ts rule: ranges_overlap.induct)
  case (1 x y ts)
  then have rest: "sorted_wrt (\<lambda>x y. largest x < smallest y) (y # ts)"
    by auto
  have "largest x < smallest y"
    using "1.prems"(1) by auto
  moreover have "largest x < smallest z" if "z \<in> set ts" for z
  proof -
    have "largest x < smallest y" "smallest y \<le> largest y" "largest y < smallest z"
      using \<open>largest x < smallest y\<close> "1.prems"(2) rest that by auto
    then show ?thesis
      by order
  qed
  ultimately show ?case
    using rest by simp
qed simp_all

lemma level_one_disjoint:
  assumes "ok (ValidateVersion v options)" and "s \<in> set (version_tables v)" "t \<in> set (version_tables v)"
    and "vt_level s = 1" "vt_level t = 1" and "table_generation s \<noteq> table_generation t"
  shows "largest s < smallest t \<or> largest t < smallest s"
proof -
  let ?l = "level_one_tables (version_tables v)"
  have "set ?l = {t \<in> set (version_tables v). vt_level t = 1}"
    by (auto simp: level_one_tables_def)
  moreover have "\<forall>t \<in> set (version_tables v). smallest t \<le> largest t"
    using assms(1) by (auto simp: ValidateVersion_ok_iff validate_tables_iff list_all_iff table_invalid_def Let_def not_less)
  ultimately have sorted: "sorted_wrt (\<lambda>x y. largest x < smallest y) ?l" and st: "s \<in> set ?l" "t \<in> set ?l"
    using assms not_overlap_sorted [of ?l] by (auto simp: ValidateVersion_ok_iff)
  obtain i j where ij: "i < length ?l" "j < length ?l" "?l ! i = s" "?l ! j = t"
    using st by (metis in_set_conv_nth)
  moreover have "i \<noteq> j"
    using ij assms(6) by auto
  ultimately show ?thesis
    using sorted by (metis linorder_neqE_nat sorted_wrt_iff_nth_less)
qed


lemma collect_deletions_set: "collect_deletions ds ns = Inr ds' \<Longrightarrow> set ds' = set ds \<union> set ns"
  by (induction ns arbitrary: ds) (auto split: if_splits)

lemma add_tables_iff:
  "add_tables v ds ts added = Inr out \<Longrightarrow>
     out = ts @ added \<and> (\<forall>t \<in> set added. next_file_number v \<le> table_generation t)"
  by (induction added arbitrary: ts) (fastforce simp: not_less split: if_splits)+

lemma Version_Apply_cases:
  assumes "Version_Apply v edit options = Inr v'"
  shows "ok (ValidateVersion v options) \<and> ok (ValidateVersion v' options) \<and> version_id v \<noteq> - 1 \<and>
    version_id v' = version_id v + 1 \<and>
    next_file_number v \<le> next_file_number v' \<and> last_sequence v \<le> last_sequence v' \<and>
    set (deleted_file_numbers edit) \<subseteq> table_generation ` set (version_tables v) \<and>
    (\<forall>t \<in> set (added_tables edit). next_file_number v \<le> table_generation t) \<and>
    version_tables v' = sort_key table_generation
      (filter (\<lambda>t. table_generation t \<notin> set (deleted_file_numbers edit)) (version_tables v) @ added_tables edit)"
proof -
  obtain ds ts where ds: "collect_deletions [] (deleted_file_numbers edit) = Inr ds"
    and ts: "add_tables v ds (filter (\<lambda>t. table_generation t \<notin> set ds) (version_tables v)) (added_tables edit) = Inr ts"
    and rest: "list_all (\<lambda>n. n \<in> set (map table_generation (version_tables v))) ds"
      "ok (ValidateVersion v options)" "ok (ValidateVersion v' options)" "version_id v \<noteq> - 1"
      "version_id v' = version_id v + 1" "next_file_number v \<le> next_file_number v'"
      "last_sequence v \<le> last_sequence v'" "version_tables v' = sort_key table_generation ts"
    using assms by (auto simp: Version_Apply_def Let_def and_then_Inr not_less split: if_splits)
  show ?thesis
    using rest collect_deletions_set [OF ds] add_tables_iff [OF ts] by (auto simp: list_all_iff)
qed

text \<open>A file that only interrupts and shortens reads is loaded as its content decodes.\<close>

lemma LoadManifest_benign:
  assumes "directory \<noteq> []" and "benign_file f" and "length (rf_data f) \<le> kMaximumManifestSize"
  shows "LoadManifest directory options (Inr f) = DecodeManifest (rf_data f) options"
proof -
  let ?g = "f\<lparr>rf_sizes := []\<rparr>"
  have "benign_file ?g"
    using assms(2) by (simp add: benign_file_def)
  then obtain g' where "ReadAllAt ?g 0 (length (rf_data f)) = (g', Inr (rf_data f))"
    by (rule ReadAllAt_benign [where offset = 0 and count = "length (rf_data f)"]) auto
  then show ?thesis
    using assms by (simp add: LoadManifest_def Size_def benign_file_def)
qed

lemma manifest_changed:
  assumes "DecodeManifest bs options = Inr v" and "i < length bs" and "b \<noteq> bs ! i"
  shows "DecodeManifest (bs[i := b]) options \<noteq> Inr w"
proof
  assume "DecodeManifest (bs[i := b]) options = Inr w"
  then have h: "manifest_header bs v" "manifest_header (bs[i := b]) w"
    using assms(1) by (simp_all add: DecodeManifest_Inr_iff)
  let ?ys = "bs[i := b]"
  have long: "64 \<le> length bs"
    using h by (simp add: manifest_header_def)
  consider (crc) "56 \<le> i" "i < 60" | (reserved) "60 \<le> i" "i < 64" | (covered) "i < 56 \<or> 64 \<le> i"
    by linarith
  then show False
  proof cases
    case crc
    then have "Crc32c (take 56 ?ys @ drop 64 ?ys) = Crc32c (take 56 bs @ drop 64 bs)"
      by (intro crc32c.frame_uncovered) auto
    then have "take 4 (drop 56 ?ys) = take 4 (drop 56 bs)"
      using h unfolding manifest_header_def fixed32.dec_Some_iff by auto
    then show False
      using changed_field [OF assms(2,3), of 56 4] crc by simp
  next
    case reserved
    have "take 4 (drop 60 ?ys) = take 4 (drop 60 bs)"
      using h unfolding manifest_header_def fixed32.dec_Some_iff by auto
    then show False
      using changed_field [OF assms(2,3), of 60 4] reserved by simp
  next
    case covered
    then have "DecodeFixed32 (drop 56 ?ys) = DecodeFixed32 (drop 56 bs)"
      by (intro fixed32.dec_cong field_update) auto
    then show False
      using h crc32c.frame_covered [OF covered assms(2) _ long assms(3)] by (auto simp: manifest_header_def)
  qed
qed

section \<open>Properties\<close>

text \<open>
  C25. The manifest round trip: what \<open>EncodeManifest\<close> writes, \<open>DecodeManifest\<close> reads back as the same
  version, up to the metadata fields a manifest does not store; and whatever decodes is the
  encoding of the decoded version, so that a manifest file has exactly one reading.
\<close>

theorem Manifest_roundtrip:
  "(EncodeManifest v options = Inr bs \<longrightarrow> DecodeManifest bs options = Inr (strip v)) \<and>
   (DecodeManifest bs options = Inr v \<longrightarrow> EncodeManifest v options = Inr bs)"
  using DecodeManifest_bytes manifest_canonical [of bs options v]
  by (auto simp: EncodeManifest_Inr_iff)

definition sample_table :: "u64 \<Rightarrow> bytes \<Rightarrow> bytes \<Rightarrow> VersionTable" where
  "sample_table generation low high = \<lparr>vt_level = 1, vt_metadata = empty_SSTableMetadata\<lparr>
     md_generation := generation, md_file_size := 500, md_record_count := 3, md_minimum_sequence := 1,
     md_maximum_sequence := 3, md_minimum_key := low, md_maximum_key := high\<rparr>\<rparr>"

definition sample_version :: Version where
  "sample_version = \<lparr>version_id = 2, next_file_number = 9, last_sequence = 3,
     version_tables = [sample_table 4 [10] [20], sample_table 5 [21] [30, 1]]\<rparr>"

lemma sample_version_encodable: "encodable_version default_Options sample_version"
  by (simp add: encodable_version_def ValidateVersion_def sample_version_def sample_table_def
      table_invalid_def level_one_tables_def maximum_table_sequence_def default_Options_def sized_def
      empty_SSTableMetadata_def word_less_nat_alt word_le_nat_alt max_def)

theorem Manifest_roundtrip_witness:
  "\<exists>bs. EncodeManifest sample_version default_Options = Inr bs \<and>
     DecodeManifest bs default_Options = Inr (strip sample_version)"
  using Manifest_roundtrip [of sample_version default_Options "manifest_bytes sample_version"]
    sample_version_encodable by (simp add: EncodeManifest_Inr_iff)


text \<open>
  C33. One changed byte anywhere in a manifest, in the reserved fields too, keeps it from being
  accepted.
\<close>

theorem Manifest_changed_byte:
  assumes "EncodeManifest v options = Inr bs" and "i < length bs" and "b \<noteq> bs ! i"
  shows "\<exists>s. DecodeManifest (bs[i := b]) options = Inl s"
proof -
  have "DecodeManifest bs options = Inr (strip v)"
    using assms(1) DecodeManifest_bytes by (auto simp: EncodeManifest_Inr_iff)
  then show ?thesis
    using manifest_changed [OF _ assms(2,3)] by (cases "DecodeManifest (bs[i := b]) options") auto
qed

theorem Manifest_changed_byte_witness:
  "\<exists>bs s. EncodeManifest sample_version default_Options = Inr bs \<and>
     DecodeManifest (bs[62 := bs ! 62 + 1]) default_Options = Inl s"
  using Manifest_changed_byte [of sample_version default_Options "manifest_bytes sample_version" 62
      "manifest_bytes sample_version ! 62 + 1"] sample_version_encodable
  by (simp add: EncodeManifest_Inr_iff)

text \<open>
  C27. What \<open>ValidateVersion\<close> guarantees of every version that is accepted, loaded or published: file
  numbers are distinct, non-zero and below the next one; every table has a non-empty key range and
  sequence range below the sequence frontier; and any two tables of level one have disjoint key
  ranges, so that a key is in at most one of them.
\<close>

theorem ValidateVersion_invariants:
  assumes "ok (ValidateVersion v options)"
  shows "distinct (map table_generation (version_tables v)) \<and>
    (\<forall>t \<in> set (version_tables v). vt_level t \<le> 1 \<and> table_generation t \<noteq> 0 \<and>
       table_generation t < next_file_number v \<and> smallest t \<le> largest t \<and>
       md_minimum_sequence (vt_metadata t) \<le> md_maximum_sequence (vt_metadata t) \<and>
       md_maximum_sequence (vt_metadata t) \<le> last_sequence v) \<and>
    (\<forall>s \<in> set (version_tables v). \<forall>t \<in> set (version_tables v). \<forall>k.
       vt_level s = 1 \<longrightarrow> vt_level t = 1 \<longrightarrow> smallest s \<le> k \<longrightarrow> k \<le> largest s \<longrightarrow>
       smallest t \<le> k \<longrightarrow> k \<le> largest t \<longrightarrow> table_generation s = table_generation t)"
proof (intro conjI ballI allI impI)
  note v = assms [unfolded ValidateVersion_ok_iff validate_tables_iff list_all_iff]
  show "distinct (map table_generation (version_tables v))"
    using v by blast
  fix t
  assume t: "t \<in> set (version_tables v)"
  then show "vt_level t \<le> 1" "table_generation t \<noteq> 0" "table_generation t < next_file_number v"
    "smallest t \<le> largest t" "md_minimum_sequence (vt_metadata t) \<le> md_maximum_sequence (vt_metadata t)"
    using v by (auto simp: table_invalid_def Let_def not_less)
  show "md_maximum_sequence (vt_metadata t) \<le> last_sequence v"
    using table_sequence_bound [OF t] v by (elim conjE) (rule order_trans)
  fix s k
  assume "s \<in> set (version_tables v)" "vt_level t = 1" "vt_level s = 1" "smallest t \<le> k" "k \<le> largest t"
    "smallest s \<le> k" "k \<le> largest s"
  then show "table_generation t = table_generation s"
    using level_one_disjoint [OF assms t, of s] by (meson not_le order_trans)
qed

theorem ValidateVersion_invariants_witness:
  "ok (ValidateVersion sample_version default_Options) \<and>
   distinct (map table_generation (version_tables sample_version))"
proof -
  have ok: "ok (ValidateVersion sample_version default_Options)"
    using sample_version_encodable by (simp add: encodable_version_def)
  then show ?thesis
    using ValidateVersion_invariants [OF ok] by blast
qed

text \<open>
  C26. The effect of an accepted edit: the identifier goes up by one, neither frontier goes back, the
  tables are the old ones less the deleted and plus the added ones in order of their file numbers,
  only live files were deleted, every added file has a number that had never been allocated, and
  the result is again a valid version.
\<close>

theorem Version_Apply_effect:
  assumes "Version_Apply v edit options = Inr v'"
  shows "unat (version_id v') = unat (version_id v) + 1 \<and>
    next_file_number v \<le> next_file_number v' \<and> last_sequence v \<le> last_sequence v' \<and>
    set (version_tables v') = {t \<in> set (version_tables v). table_generation t \<notin> set (deleted_file_numbers edit)}
      \<union> set (added_tables edit) \<and>
    sorted_wrt (<) (map table_generation (version_tables v')) \<and>
    set (deleted_file_numbers edit) \<subseteq> table_generation ` set (version_tables v) \<and>
    (\<forall>t \<in> set (added_tables edit). next_file_number v \<le> table_generation t \<and>
       table_generation t < next_file_number v') \<and>
    ok (ValidateVersion v' options)"
proof -
  note a = Version_Apply_cases [OF assms]
  have v': "distinct (map table_generation (version_tables v'))"
    "\<forall>t \<in> set (version_tables v'). table_generation t < next_file_number v'"
    using a by (auto simp: ValidateVersion_ok_iff validate_tables_iff list_all_iff table_invalid_def Let_def not_le)
  have "sorted (map table_generation (version_tables v'))"
    using a by simp
  then have "sorted_wrt (<) (map table_generation (version_tables v'))"
    using v'(1) by (simp add: strict_sorted_iff)
  moreover have "set (version_tables v') = {t \<in> set (version_tables v). table_generation t \<notin> set (deleted_file_numbers edit)}
      \<union> set (added_tables edit)"
    using a by auto
  ultimately show ?thesis
    using a v'(2) by (auto simp: unat_Suc_u64)
qed

theorem Version_Apply_effect_witness:
  "\<exists>v'. Version_Apply NewDatabase \<lparr>added_tables = [sample_table 1 [10] [20]], deleted_file_numbers = [],
       edit_next_file_number = Some 2, edit_last_sequence = Some 3\<rparr> default_Options = Inr v' \<and>
     unat (version_id v') = 2"
proof -
  let ?e = "\<lparr>added_tables = [sample_table 1 [10] [20]], deleted_file_numbers = [],
       edit_next_file_number = Some 2, edit_last_sequence = Some 3\<rparr>"
  obtain v' where run: "Version_Apply NewDatabase ?e default_Options = Inr v'"
    by (simp add: Version_Apply_def ValidateVersion_def NewDatabase_def sample_table_def
      table_invalid_def level_one_tables_def maximum_table_sequence_def default_Options_def
      empty_SSTableMetadata_def word_less_nat_alt word_le_nat_alt max_def)
  then show ?thesis
    using Version_Apply_effect [OF run] by (simp add: NewDatabase_def)
qed

text \<open>
  C24. Publishing a manifest is atomic and durable. From a directory whose manifest can only be read
  as one version, after \<open>PublishManifest\<close>, whatever failed and whenever the machine crashed, loading
  the manifest gives that version or the new one; and when the publication reported success it
  gives the new one.
\<close>

theorem PublishManifest_atomic:
  assumes "env_wf env" and "directory \<noteq> []"
    and "settled env (JoinPath directory kManifestFileName) (Some old)"
    and "DecodeManifest old options = Inr v0"
    and "PublishManifest directory v options env = (s, env')"
    and "crash_content env' (JoinPath directory kManifestFileName) c"
  shows "\<exists>bs. c = Some bs \<and> (\<forall>f. benign_file f \<longrightarrow> rf_data f = bs \<longrightarrow>
    LoadManifest directory options (Inr f) = Inr (strip v) \<or>
    \<not> ok s \<and> LoadManifest directory options (Inr f) = Inr v0)"
proof -
  let ?path = "JoinPath directory kManifestFileName"
  have load: "LoadManifest directory options (Inr f) = Inr w"
    if "benign_file f" "DecodeManifest (rf_data f) options = Inr w" for f w
    using LoadManifest_benign [OF assms(2) that(1)] that(2)
    by (simp add: DecodeManifest_Inr_iff manifest_header_def)
  have old: "c = Some old" if "crash_content env ?path c"
    using assms(3) that by (simp add: settled_def)
  show ?thesis
  proof (cases "EncodeManifest v options")
    case (Inl t)
    then have "env' = env" "\<not> ok s"
      using assms(2,5) EncodeManifest_Inl by (auto simp: PublishManifest_def)
    then show ?thesis
      using old assms(4,6) load by auto
  next
    case (Inr encoded)
    then have run: "publish_file ?path encoded env = (s, env')"
      using assms(2,5) by (simp add: PublishManifest_def)
    have new: "DecodeManifest encoded options = Inr (strip v)"
      using Inr DecodeManifest_bytes by (auto simp: EncodeManifest_Inr_iff)
    show ?thesis
    proof (cases "c = Some encoded")
      case True
      then show ?thesis
        using new load by auto
    next
      case False
      then have "c = Some old" "\<not> ok s"
        using publish_file_safe(2,4) [OF assms(1) run] assms(6) old by (auto simp: settled_def)
      then show ?thesis
        using assms(4) load by auto
    qed
  qed
qed


definition sample_env :: Env where
  "sample_env = \<lparr>env_names = [''db/MANIFEST'' \<mapsto> 0], env_disk = [''db/MANIFEST'' \<mapsto> 0],
     env_inodes = (\<lambda>_. \<lparr>wf_name = ''db/MANIFEST'', wf_data = manifest_bytes NewDatabase,
       wf_durable = manifest_bytes NewDatabase, wf_writes = [], wf_syncs = []\<rparr>),
     env_next = 1, env_creates = [], env_renames = [IOError ''rename''], env_removes = [], env_dirsyncs = [],
     env_scripts = [], env_opens = []\<rparr>"

lemma NewDatabase_encodable: "encodable_version default_Options NewDatabase"
  by (simp add: encodable_version_def ValidateVersion_def NewDatabase_def level_one_tables_def
      maximum_table_sequence_def default_Options_def)

theorem PublishManifest_atomic_witness:
  "\<exists>s env'. PublishManifest ''db'' sample_version default_Options sample_env = (s, env') \<and>
     (\<forall>c. crash_content env' ''db/MANIFEST'' c \<longrightarrow> c \<noteq> None)"
proof -
  obtain s env' where run: "PublishManifest ''db'' sample_version default_Options sample_env = (s, env')"
    by force
  have path: "JoinPath ''db'' kManifestFileName = ''db/MANIFEST''"
    by (simp add: JoinPath_def kManifestFileName_def)
  have "env_wf sample_env"
    by (auto simp: env_wf_def sample_env_def wal_device.device_ok_def split: if_splits
        intro!: exI [of _ "length (manifest_bytes NewDatabase)"])
  moreover have "settled sample_env ''db/MANIFEST'' (Some (manifest_bytes NewDatabase))"
    by (auto simp: settled_def crash_content_def sample_env_def wal_device.crash_image_def)
  ultimately have "\<exists>bs. c = Some bs" if "crash_content env' ''db/MANIFEST'' c" for c
    using PublishManifest_atomic [of sample_env "''db''" "manifest_bytes NewDatabase" default_Options
        "strip NewDatabase" sample_version s env' c]
      run path that DecodeManifest_bytes [OF NewDatabase_encodable] by auto
  then show ?thesis
    using run by blast
qed

end
