(* ===== verification/TableIterator.thy ===== *)
theory TableIterator
  imports TableRoundtrip
begin

text \<open>
  \<open>SSTableIterator\<close> of \<^verbatim>\<open>src/table.cpp\<close>: a forward iterator over the keys in \<open>[begin, end)\<close> that
  holds one data block at a time. The locale \<open>record_cursor\<close> states what a client of such a cursor
  may rely on; it is interpreted on the iterator here and on the sources of a scan in theory
  \<open>Scan\<close>.
\<close>

section \<open>Definitions\<close>

text \<open>The reader is the one that made the iterator; it is never null.\<close>

record SSTableIterator =
  it_reader :: SSTableReader
  it_begin :: bytes
  it_end :: "bytes option"
  it_records :: "MemTableRecord list"
  it_block :: nat
  it_record :: nat
  it_valid :: bool
  it_statistics :: SSTableReadStats

definition new_SSTableIterator :: "SSTableReader \<Rightarrow> bytes \<Rightarrow> bytes option \<Rightarrow> SSTableIterator" where
  "new_SSTableIterator rd lower upper =
     \<lparr>it_reader = rd, it_begin = lower, it_end = upper, it_records = [], it_block = 0, it_record = 0,
      it_valid = False, it_statistics = empty_SSTableReadStats\<lparr>tables_considered := 1\<rparr>\<rparr>"

definition iterator_record :: "SSTableIterator \<Rightarrow> MemTableRecord option" where
  "iterator_record it =
     (if \<not> it_valid it \<or> it_record it \<ge> length (it_records it) then None
      else Some (it_records it ! it_record it))"

definition LoadBlock :: "nat \<Rightarrow> SSTableIterator \<Rightarrow> SSTableIterator \<times> status" where
  "LoadBlock block it =
     (let it = it\<lparr>it_records := [], it_record := 0\<rparr> in
      if block \<ge> length (rd_index (it_reader it)) then (it\<lparr>it_valid := False\<rparr>, Ok)
      else let it = it\<lparr>it_block := block\<rparr>;
        (rd, stats, r) = ReadBlock block (it_statistics it) (it_reader it);
        it = it\<lparr>it_reader := rd, it_statistics := stats\<rparr> in
      case r of
        Inl s \<Rightarrow> (it\<lparr>it_valid := False, it_records := []\<rparr>, s)
      | Inr records \<Rightarrow> (it\<lparr>it_records := records, it_valid := records \<noteq> []\<rparr>, Ok))"

definition EnforceUpperBound :: "SSTableIterator \<Rightarrow> SSTableIterator" where
  "EnforceUpperBound it =
     (case (iterator_record it, it_end it) of
        (Some current, Some upper) \<Rightarrow>
          if r_key current \<ge> upper then it\<lparr>it_valid := False, it_records := [], it_record := 0\<rparr> else it
      | _ \<Rightarrow> it)"

text \<open>
  The loop that moves on to the next non-empty block; \<open>Some s\<close> when the caller returns \<open>s\<close> from
  inside it.
\<close>

function skip_blocks :: "SSTableIterator \<Rightarrow> SSTableIterator \<times> status option" where
  "skip_blocks it =
     (if it_record it < length (it_records it) then (it, None)
      else let (it, s) = LoadBlock (it_block it + 1) it in
      if \<not> ok s \<or> \<not> it_valid it then (it, Some s) else skip_blocks it)"
  by pat_completeness auto

lemma LoadBlock_positioned:
  assumes "LoadBlock block it = (it', s)" and "it_valid it'"
  shows "it_record it' = 0" and "it_records it' \<noteq> []"
  using assms by (auto simp: LoadBlock_def Let_def split: if_splits prod.splits sum.splits)

termination skip_blocks
proof (relation "measure (\<lambda>it. if it_record it < length (it_records it) then 0 else 1)")
  fix it it' :: SSTableIterator and x s
  assume "\<not> it_record it < length (it_records it)" "x = LoadBlock (it_block it + 1) it" "(it', s) = x"
    "\<not> (\<not> ok s \<or> \<not> it_valid it')"
  then show "(it', it) \<in> measure (\<lambda>it. if it_record it < length (it_records it) then 0 else 1)"
    using LoadBlock_positioned [of "it_block it + 1" it it' s] by simp
qed simp

declare skip_blocks.simps [simp del]

definition first_block :: "SSTableReader \<Rightarrow> bytes \<Rightarrow> nat" where
  "first_block rd lower = (if lower = [] then 0 else index_upper_bound (rd_index rd) lower - 1)"

definition Initialize :: "SSTableIterator \<Rightarrow> SSTableIterator \<times> status" where
  "Initialize it =
     (let rd = it_reader it; lower = it_begin it in
      if rd_index rd = [] then (it, InvalidArgument ''SSTable iterator has no reader'')
      else if md_maximum_key (rd_metadata rd) < lower \<or>
        (case it_end it of None \<Rightarrow> False | Some upper \<Rightarrow> md_minimum_key (rd_metadata rd) \<ge> upper \<or> lower = upper)
      then (it\<lparr>it_valid := False\<rparr>, Ok)
      else let (it, s) = LoadBlock (first_block rd lower) it in
      if \<not> ok s then (it, s)
      else case skip_blocks (it\<lparr>it_record := record_lower_bound (it_records it) lower\<rparr>) of
        (it, Some s) \<Rightarrow> (it, s)
      | (it, None) \<Rightarrow> (EnforceUpperBound (it\<lparr>it_valid := True\<rparr>), Ok))"

definition Next :: "SSTableIterator \<Rightarrow> SSTableIterator \<times> status" where
  "Next it =
     (if \<not> it_valid it then (it, Ok)
      else case skip_blocks (it\<lparr>it_record := it_record it + 1\<rparr>) of
        (it, Some s) \<Rightarrow> (it, s)
      | (it, None) \<Rightarrow> (EnforceUpperBound it, Ok))"

definition NewIterator :: "bytes \<Rightarrow> bytes option \<Rightarrow> SSTableReader \<Rightarrow> SSTableIterator result" where
  "NewIterator lower upper rd =
     (if length lower > max_key_size (rd_options rd) \<or>
         (case upper of None \<Rightarrow> False | Some u \<Rightarrow> length u > max_key_size (rd_options rd))
      then Inl (InvalidArgument ''SSTable iterator bound is too large'')
      else if (case upper of None \<Rightarrow> False | Some u \<Rightarrow> lower > u)
      then Inl (InvalidArgument ''SSTable iterator range is reversed'')
      else let (it, s) = Initialize (new_SSTableIterator rd lower upper) in
      if \<not> ok s then Inl s else Inr it)"

section \<open>The interface of a cursor\<close>

text \<open>
  A cursor stands at the first of its remaining records; advancing it drops that record, or fails
  and says so. A cursor that is sound now stays sound; a trouble-free one never fails.
\<close>

locale record_cursor =
  fixes current :: "'s \<Rightarrow> MemTableRecord option"
    and advance :: "'s \<Rightarrow> 's \<times> status"
    and remaining :: "'s \<Rightarrow> MemTableRecord list"
    and invar :: "'s \<Rightarrow> bool"
    and trouble_free :: "'s \<Rightarrow> bool"
  assumes current_remaining: "invar s \<Longrightarrow> current s = (case remaining s of [] \<Rightarrow> None | r # _ \<Rightarrow> Some r)"
    and advance_remaining: "invar s \<Longrightarrow> advance s = (s', st) \<Longrightarrow> ok st \<Longrightarrow>
      invar s' \<and> remaining s' = tl (remaining s)"
    and advance_succeeds: "invar s \<Longrightarrow> trouble_free s \<Longrightarrow> advance s = (s', st) \<Longrightarrow> ok st \<and> trouble_free s'"
begin

text \<open>\<open>n\<close> advances in a row, up to the first that fails.\<close>

fun run :: "nat \<Rightarrow> 's \<Rightarrow> 's \<times> status" where
  "run 0 s = (s, Ok)"
| "run (Suc n) s = (let (s', st) = advance s in if ok st then run n s' else (s', st))"

lemma run_remaining: "invar s \<Longrightarrow> run n s = (s', st) \<Longrightarrow> ok st \<Longrightarrow> invar s' \<and> remaining s' = drop n (remaining s)"
proof (induction n arbitrary: s)
  case (Suc n)
  obtain s1 st1 where adv: "advance s = (s1, st1)" by force
  then have "ok st1" "run n s1 = (s', st)"
    using Suc.prems(2,3) by (auto split: if_splits)
  then show ?case
    using Suc.IH [of s1] advance_remaining [OF Suc.prems(1) adv] Suc.prems(3) by (simp add: drop_Suc tl_drop)
qed simp

lemma run_succeeds: "invar s \<Longrightarrow> trouble_free s \<Longrightarrow> ok (snd (run n s))"
proof (induction n arbitrary: s)
  case (Suc n)
  obtain s1 st1 where adv: "advance s = (s1, st1)" by force
  then show ?case
    using Suc.IH [of s1] advance_succeeds [OF Suc.prems adv] advance_remaining [OF Suc.prems(1) adv] by simp
qed simp

lemma run_current:
  assumes "invar s" and "run n s = (s', st)" and "ok st"
  shows "current s' = (if n < length (remaining s) then Some (remaining s ! n) else None)"
proof -
  have s': "invar s'" "remaining s' = drop n (remaining s)"
    using run_remaining [OF assms] by simp_all
  show ?thesis
    using current_remaining [OF s'(1)] s'(2) by (cases "n < length (remaining s)") (simp_all add: Cons_nth_drop_Suc [symmetric])
qed

end

section \<open>The records ahead of an iterator\<close>

definition below :: "bytes option \<Rightarrow> MemTableRecord \<Rightarrow> bool" where
  "below upper r \<longleftrightarrow> (case upper of None \<Rightarrow> True | Some u \<Rightarrow> r_key r < u)"

definition blocks_from :: "nat \<Rightarrow> SSTableReader \<Rightarrow> MemTableRecord list" where
  "blocks_from block rd = concat (map (block_records rd) (drop block (rd_index rd)))"

definition records_ahead :: "SSTableIterator \<Rightarrow> MemTableRecord list" where
  "records_ahead it = drop (it_record it) (it_records it) @ blocks_from (Suc (it_block it)) (it_reader it)"

definition iterator_remaining :: "SSTableIterator \<Rightarrow> MemTableRecord list" where
  "iterator_remaining it = (if it_valid it then takeWhile (below (it_end it)) (records_ahead it) else [])"

definition iterator_ok :: "SSTableIterator \<Rightarrow> bool" where
  "iterator_ok it \<longleftrightarrow> reader_sound (it_reader it) \<and>
     (it_valid it \<longrightarrow> it_record it < length (it_records it) \<and> below (it_end it) (it_records it ! it_record it))"

definition iterator_benign :: "SSTableIterator \<Rightarrow> bool" where
  "iterator_benign it \<longleftrightarrow> benign_file (rd_file (it_reader it))"

text \<open>Operations keep the table and the bound, and on a trouble-free file they succeed.\<close>

definition advanced :: "SSTableIterator \<Rightarrow> SSTableIterator \<Rightarrow> status \<Rightarrow> bool" where
  "advanced it it' s \<longleftrightarrow> same_table (it_reader it) (it_reader it') \<and> it_end it' = it_end it \<and>
     (iterator_benign it \<longrightarrow> ok s \<and> iterator_benign it')"

lemma blocks_from_same: "same_table rd rd' \<Longrightarrow> blocks_from block rd' = blocks_from block rd"
  using same_table_block_of(2) [of rd rd'] by (simp add: blocks_from_def same_table_def)

lemma blocks_from_Cons:
  "block < length (rd_index rd) \<Longrightarrow>
     blocks_from block rd = block_records rd (rd_index rd ! block) @ blocks_from (Suc block) rd"
  by (simp add: blocks_from_def Cons_nth_drop_Suc [symmetric])

lemma LoadBlock_cases:
  assumes run: "LoadBlock block it = (it', s)" and sound: "reader_sound (it_reader it)"
  shows "advanced it it' s"
    and "(\<not> ok s \<and> \<not> it_valid it') \<or>
      (s = Ok \<and> length (rd_index (it_reader it)) \<le> block \<and> \<not> it_valid it' \<and> it_records it' = [] \<and> it_block it' = it_block it) \<or>
      (s = Ok \<and> it_valid it' \<and> it_record it' = 0 \<and> it_records it' \<noteq> [] \<and>
       it_records it' = block_records (it_reader it) (rd_index (it_reader it) ! block) \<and>
       records_ahead it' = blocks_from block (it_reader it))"
proof -
  let ?rd = "it_reader it"
  have "advanced it it' s \<and>
    ((\<not> ok s \<and> \<not> it_valid it') \<or>
      (s = Ok \<and> length (rd_index ?rd) \<le> block \<and> \<not> it_valid it' \<and> it_records it' = [] \<and> it_block it' = it_block it) \<or>
      (s = Ok \<and> it_valid it' \<and> it_record it' = 0 \<and> it_records it' \<noteq> [] \<and>
       it_records it' = block_records ?rd (rd_index ?rd ! block) \<and> records_ahead it' = blocks_from block ?rd))"
  proof (cases "block < length (rd_index ?rd)")
    case False
    then have "it' = it\<lparr>it_records := [], it_record := 0, it_valid := False\<rparr>" "s = Ok"
      using run by (auto simp: LoadBlock_def Let_def split: if_splits)
    then show ?thesis
      using False by (simp add: advanced_def iterator_benign_def)
  next
    case True
    obtain rd st r where rb: "ReadBlock block (it_statistics it) ?rd = (rd, st, r)"
      using prod_cases3 by blast
    note same = ReadBlock_same [OF rb]
    have benign: "benign_file (rd_file rd) \<and> r = Inr (block_records ?rd (rd_index ?rd ! block))" if "iterator_benign it"
      using ReadBlock_benign [of ?rd block "it_statistics it"] that True reader_sound_nth(1) [OF sound True] rb
      by (auto simp: iterator_benign_def)
    show ?thesis
    proof (cases r)
      case (Inl t)
      then have it': "it' = it\<lparr>it_records := [], it_record := 0, it_block := block, it_reader := rd,
          it_statistics := st, it_valid := False\<rparr>" "s = t"
        using run True rb by (auto simp: LoadBlock_def Let_def not_le)
      then show ?thesis
        using Inl ReadBlock_Inl [OF rb [unfolded Inl] sound True] same benign
        by (auto simp: advanced_def iterator_benign_def)
    next
      case (Inr rs)
      have rs: "rs = block_records ?rd (rd_index ?rd ! block)"
        using ReadBlock_Inr(2) [OF rb [unfolded Inr]] by (simp add: block_records_def)
      have ne: "rs \<noteq> []"
        using reader_sound_blocks(1) [OF sound] True by (simp add: rs)
      have it': "it' = it\<lparr>it_records := rs, it_record := 0, it_block := block, it_reader := rd,
          it_statistics := st, it_valid := True\<rparr>" "s = Ok"
        using run True rb Inr ne by (auto simp: LoadBlock_def Let_def not_le)
      have "records_ahead it' = blocks_from block ?rd"
        using blocks_from_same [OF same] blocks_from_Cons [OF True] by (simp add: records_ahead_def it' rs)
      then show ?thesis
        using it' same benign ne rs by (auto simp: advanced_def iterator_benign_def)
    qed
  qed
  then show "advanced it it' s"
    "(\<not> ok s \<and> \<not> it_valid it') \<or>
      (s = Ok \<and> length (rd_index ?rd) \<le> block \<and> \<not> it_valid it' \<and> it_records it' = [] \<and> it_block it' = it_block it) \<or>
      (s = Ok \<and> it_valid it' \<and> it_record it' = 0 \<and> it_records it' \<noteq> [] \<and>
       it_records it' = block_records ?rd (rd_index ?rd ! block) \<and> records_ahead it' = blocks_from block ?rd)"
    by (blast, blast)
qed

text \<open>The loop over blocks ends at a record, behind the last block, or with an error.\<close>

lemma skip_blocks_cases:
  assumes run: "skip_blocks it = (it', r)" and sound: "reader_sound (it_reader it)"
  shows "advanced it it' (case r of None \<Rightarrow> Ok | Some s \<Rightarrow> s)"
    and "(r = None \<and> it_record it' < length (it_records it') \<and> records_ahead it' = records_ahead it \<and> (it_valid it \<longrightarrow> it_valid it')) \<or>
      (r = Some Ok \<and> records_ahead it = [] \<and> \<not> it_valid it') \<or>
      (\<exists>s. r = Some s \<and> \<not> ok s \<and> \<not> it_valid it')"
proof -
  have "advanced it it' (case r of None \<Rightarrow> Ok | Some s \<Rightarrow> s) \<and>
      ((r = None \<and> it_record it' < length (it_records it') \<and> records_ahead it' = records_ahead it \<and> (it_valid it \<longrightarrow> it_valid it')) \<or>
      (r = Some Ok \<and> records_ahead it = [] \<and> \<not> it_valid it') \<or>
      (\<exists>s. r = Some s \<and> \<not> ok s \<and> \<not> it_valid it'))"
  proof (cases "it_record it < length (it_records it)")
    case True
    then show ?thesis
      using run by (subst (asm) skip_blocks.simps) (simp add: advanced_def)
  next
    case False
    obtain it1 s1 where load: "LoadBlock (it_block it + 1) it = (it1, s1)" by force
    note cases = LoadBlock_cases [OF load sound]
    have ahead: "records_ahead it = blocks_from (Suc (it_block it)) (it_reader it)"
      using False by (simp add: records_ahead_def)
    show ?thesis
    proof (cases "ok s1 \<and> it_valid it1")
      case True
      then have at: "it_record it1 = 0" "it_records it1 \<noteq> []" "s1 = Ok"
          "records_ahead it1 = blocks_from (Suc (it_block it)) (it_reader it)"
        using cases(2) by auto
      have "skip_blocks it1 = (it1, None)"
        using at by (subst skip_blocks.simps) simp
      moreover have "skip_blocks it = skip_blocks it1"
        using False load True by (subst skip_blocks.simps) simp
      ultimately have "it' = it1" "r = None"
        using run by simp_all
      then show ?thesis
        using cases(1) at ahead True by simp
    next
      case stop: False
      have "skip_blocks it = (it1, Some s1)"
        using False load stop by (subst skip_blocks.simps) auto
      then have "it' = it1" "r = Some s1"
        using run by simp_all
      moreover have "blocks_from (Suc (it_block it)) (it_reader it) = []" if "length (rd_index (it_reader it)) \<le> it_block it + 1"
        using that by (simp add: blocks_from_def)
      ultimately show ?thesis
        using cases stop ahead by auto
    qed
  qed
  then show "advanced it it' (case r of None \<Rightarrow> Ok | Some s \<Rightarrow> s)"
    and "(r = None \<and> it_record it' < length (it_records it') \<and> records_ahead it' = records_ahead it \<and> (it_valid it \<longrightarrow> it_valid it')) \<or>
      (r = Some Ok \<and> records_ahead it = [] \<and> \<not> it_valid it') \<or>
      (\<exists>s. r = Some s \<and> \<not> ok s \<and> \<not> it_valid it')"
    by (blast, blast)
qed

lemma EnforceUpperBound_remaining:
  assumes "it_valid it" and "it_record it < length (it_records it)" and "reader_sound (it_reader it)"
  shows "iterator_ok (EnforceUpperBound it)" and "advanced it (EnforceUpperBound it) Ok"
    and "iterator_remaining (EnforceUpperBound it) = takeWhile (below (it_end it)) (records_ahead it)"
proof -
  let ?r = "it_records it ! it_record it"
  obtain rest where ahead: "records_ahead it = ?r # rest"
    using assms(2) by (simp add: records_ahead_def Cons_nth_drop_Suc [symmetric])
  have "EnforceUpperBound it = (if below (it_end it) ?r then it else it\<lparr>it_valid := False, it_records := [], it_record := 0\<rparr>)"
    using assms(1,2) by (auto simp: EnforceUpperBound_def iterator_record_def below_def split: option.splits)
  then show "iterator_ok (EnforceUpperBound it)" "advanced it (EnforceUpperBound it) Ok"
    "iterator_remaining (EnforceUpperBound it) = takeWhile (below (it_end it)) (records_ahead it)"
    using assms ahead by (simp_all add: iterator_ok_def advanced_def iterator_remaining_def iterator_benign_def)
qed

lemma advanced_trans: "advanced it it' Ok \<Longrightarrow> advanced it' it'' s \<Longrightarrow> advanced it it'' s"
  using same_table_trans by (auto simp: advanced_def)

lemma advanced_ok: "advanced it it' s \<Longrightarrow> ok s \<Longrightarrow> advanced it it' Ok"
  by (simp add: advanced_def)

lemma advanced_sound: "advanced it it' s \<Longrightarrow> reader_sound (it_reader it) \<Longrightarrow> reader_sound (it_reader it')"
  using same_table_content(3) [of "it_reader it" "it_reader it'"] by (simp add: advanced_def)

lemma Next_remaining:
  assumes it: "iterator_ok it" and run: "Next it = (it', s)"
  shows "advanced it it' s" and "ok s \<Longrightarrow> iterator_ok it' \<and> iterator_remaining it' = tl (iterator_remaining it)"
proof -
  have "advanced it it' s \<and> (ok s \<longrightarrow> iterator_ok it' \<and> iterator_remaining it' = tl (iterator_remaining it))"
  proof (cases "it_valid it")
    case False
    then show ?thesis
      using run it by (simp add: Next_def advanced_def iterator_remaining_def)
  next
    case True
    let ?it = "it\<lparr>it_record := it_record it + 1\<rparr>"
    have at: "it_record it < length (it_records it)" "below (it_end it) (it_records it ! it_record it)"
        and sound: "reader_sound (it_reader ?it)"
      using it True by (simp_all add: iterator_ok_def)
    have ahead: "records_ahead it = it_records it ! it_record it # records_ahead ?it"
      using at(1) by (simp add: records_ahead_def Cons_nth_drop_Suc [symmetric])
    then have rem: "tl (iterator_remaining it) = takeWhile (below (it_end it)) (records_ahead ?it)"
      using True at(2) by (simp add: iterator_remaining_def)
    obtain it1 r where skip: "skip_blocks ?it = (it1, r)" by force
    note cases = skip_blocks_cases [OF skip sound]
    have adv: "advanced it it1 (case r of None \<Rightarrow> Ok | Some s \<Rightarrow> s)"
      using cases(1) by (simp add: advanced_def iterator_benign_def)
    consider (at) "r = None" "it_record it1 < length (it_records it1)" "records_ahead it1 = records_ahead ?it" "it_valid it1"
      | (past) "r = Some Ok" "records_ahead ?it = []" "\<not> it_valid it1"
      | (fault) t where "r = Some t" "\<not> ok t"
      using cases(2) True by auto
    then show ?thesis
    proof cases
      case at
      note bound = EnforceUpperBound_remaining [OF at(4,2) advanced_sound [OF cases(1) sound]]
      have "it' = EnforceUpperBound it1" "s = Ok" "it_end it1 = it_end it"
        using run True skip at(1) adv by (simp_all add: Next_def advanced_def)
      then show ?thesis
        using bound rem at(3) advanced_trans [of it it1] adv at(1) by simp
    next
      case past
      then show ?thesis
        using run True skip adv rem advanced_sound [OF cases(1) sound]
        by (simp add: Next_def iterator_ok_def iterator_remaining_def)
    next
      case (fault t)
      then show ?thesis
        using run True skip adv by (simp add: Next_def)
    qed
  qed
  then show "advanced it it' s" "ok s \<Longrightarrow> iterator_ok it' \<and> iterator_remaining it' = tl (iterator_remaining it)"
    by blast+
qed

lemma iterator_record_remaining:
  assumes "iterator_ok it"
  shows "iterator_record it = (case iterator_remaining it of [] \<Rightarrow> None | r # _ \<Rightarrow> Some r)"
  using assms
  by (auto simp: iterator_ok_def iterator_record_def iterator_remaining_def records_ahead_def
      Cons_nth_drop_Suc [symmetric])

interpretation table_cursor: record_cursor iterator_record Next iterator_remaining iterator_ok iterator_benign
proof
  fix it it' s
  assume "iterator_ok it" "iterator_benign it" "Next it = (it', s)"
  then show "ok s \<and> iterator_benign it'"
    using Next_remaining(1) by (simp add: advanced_def)
qed (use iterator_record_remaining Next_remaining in auto)

section \<open>Positioning\<close>

definition in_range :: "bytes \<Rightarrow> bytes option \<Rightarrow> MemTableRecord \<Rightarrow> bool" where
  "in_range lower upper r \<longleftrightarrow> lower \<le> r_key r \<and> below upper r"

lemma sorted_drop_lower:
  "records_sorted rs \<Longrightarrow> filter (\<lambda>r. lower \<le> r_key r) rs = drop (record_lower_bound rs lower) rs"
proof (induction rs)
  case (Cons r rs)
  have "filter (\<lambda>r. lower \<le> r_key r) rs = rs" if "lower \<le> r_key r"
    using that Cons.prems by (auto intro!: filter_True)
  then show ?case
    using Cons by (auto simp: record_lower_bound_def not_less)
qed (simp add: record_lower_bound_def)

lemma sorted_take_below:
  "records_sorted rs \<Longrightarrow> takeWhile (below upper) rs = filter (below upper) rs"
proof (induction rs)
  case (Cons r rs)
  have "filter (below upper) rs = []" if "\<not> below upper r"
    using that Cons.prems by (fastforce simp: below_def filter_empty_conv split: option.splits)
  then show ?case
    using Cons by simp
qed simp

lemma in_range_filter:
  assumes "records_sorted rs"
  shows "takeWhile (below upper) (filter (\<lambda>r. lower \<le> r_key r) rs) = filter (in_range lower upper) rs"
proof -
  have "records_sorted (filter (\<lambda>r. lower \<le> r_key r) rs)"
    using assms by (simp add: sorted_wrt_map sorted_wrt_filter)
  then show ?thesis
    by (simp add: sorted_take_below in_range_def [abs_def] conj_commute)
qed

text \<open>The block the index points to: everything before it is too small, everything after it is not.\<close>

lemma first_block_ahead:
  fixes lower
  assumes sound: "reader_sound rd"
  defines "fb \<equiv> first_block rd lower" and "B \<equiv> block_records rd (rd_index rd ! first_block rd lower)"
  shows "fb < length (rd_index rd)"
    and "filter (\<lambda>r. lower \<le> r_key r) (table_records rd) = drop (record_lower_bound B lower) B @ blocks_from (Suc fb) rd"
proof -
  let ?idx = "rd_index rd" and ?u = "index_upper_bound (rd_index rd) lower"
  have pos: "0 < length ?idx"
    using sound by (simp add: reader_sound_def)
  then have "?u - 1 < length ?idx"
    using upper_bound_le [of ?idx lower] by linarith
  then show fb: "fb < length ?idx"
    using pos by (simp add: fb_def first_block_def)
  define A where "A = concat (map (block_records rd) (take fb ?idx))"
  have split: "table_records rd = A @ B @ blocks_from (Suc fb) rd"
    unfolding table_records_def A_def blocks_from_def B_def fb_def [symmetric]
    by (subst id_take_nth_drop [OF fb]) simp
  have sorted: "records_sorted (A @ B @ blocks_from (Suc fb) rd)"
    using sound split by (simp add: reader_sound_def)
  have first: "B \<noteq> []" "r_key (hd B) = ix_first_key (?idx ! fb)"
    using reader_sound_blocks(1,2) [OF sound, of "?idx ! fb"] fb by (simp_all add: B_def fb_def)
  have before: "\<not> lower \<le> r_key r" if r: "r \<in> set A" for r
  proof -
    have "0 < fb"
      using r by (cases fb) (auto simp: A_def)
    then have "fb < ?u"
      by (auto simp: fb_def first_block_def split: if_splits)
    then have "ix_first_key (?idx ! fb) \<le> lower"
      using nth_mem [of fb "takeWhile (\<lambda>entry. \<not> lower < ix_first_key entry) ?idx"]
      by (auto simp: index_upper_bound_def takeWhile_nth dest!: set_takeWhileD)
    moreover have "r_key r < r_key (hd B)"
      using sorted r first(1) by (auto simp: sorted_wrt_append)
    ultimately show ?thesis
      using first(2) by simp
  qed
  have after: "lower \<le> r_key r" if r: "r \<in> set (blocks_from (Suc fb) rd)" for r
  proof (cases "lower = []")
    case False
    have "?u \<le> Suc fb"
      using False by (simp add: fb_def first_block_def)
    then have mem: "r \<in> set (blocks_from ?u rd)"
      using r set_drop_subset_set_drop [of ?u "Suc fb" ?idx] unfolding blocks_from_def by auto
    then have u: "?u < length ?idx"
      by (cases "?u < length ?idx") (simp_all add: blocks_from_def)
    have "table_records rd = concat (map (block_records rd) (take ?u ?idx)) @ blocks_from ?u rd"
      unfolding table_records_def blocks_from_def by (metis append_take_drop_id concat_append map_append)
    then have "records_sorted (blocks_from ?u rd)"
      using sound by (simp add: reader_sound_def sorted_wrt_append)
    then have "r_key (hd (blocks_from ?u rd)) \<le> r_key r"
      using sorted_hd_le [of "map r_key (blocks_from ?u rd)" "r_key r"] mem
      by (cases "blocks_from ?u rd") auto
    moreover have "hd (blocks_from ?u rd) = hd (block_records rd (?idx ! ?u))"
      using blocks_from_Cons [OF u] reader_sound_blocks(1) [OF sound, of "?idx ! ?u"] u by simp
    moreover have "lower < ix_first_key (?idx ! ?u)"
      using nth_length_takeWhile [of "\<lambda>entry. \<not> lower < ix_first_key entry" ?idx] u by (simp add: index_upper_bound_def)
    ultimately show ?thesis
      using reader_sound_blocks(2) [OF sound, of "?idx ! ?u"] u by simp
  qed simp
  have "filter (\<lambda>r. lower \<le> r_key r) A = []" "filter (\<lambda>r. lower \<le> r_key r) (blocks_from (Suc fb) rd) = blocks_from (Suc fb) rd"
    using before after by (simp_all add: filter_empty_conv)
  moreover have "records_sorted B"
    using sorted by (simp add: sorted_wrt_append)
  ultimately show "filter (\<lambda>r. lower \<le> r_key r) (table_records rd) = drop (record_lower_bound B lower) B @ blocks_from (Suc fb) rd"
    by (simp add: split sorted_drop_lower)
qed

lemma Initialize_shortcut:
  assumes "reader_sound rd" and "md_maximum_key (rd_metadata rd) < lower \<or>
      (case upper of None \<Rightarrow> False | Some u \<Rightarrow> md_minimum_key (rd_metadata rd) \<ge> u \<or> lower = u)"
  shows "filter (in_range lower upper) (table_records rd) = []"
proof -
  have "\<not> in_range lower upper r" if r: "r \<in> set (table_records rd)" for r
  proof -
    let ?rs = "table_records rd"
    have ne: "?rs \<noteq> []" and keys: "sorted_wrt (<) (map r_key ?rs)" "r_key r \<in> set (map r_key ?rs)"
      using assms(1) r by (auto simp: reader_sound_def)
    have "md_minimum_key (rd_metadata rd) \<le> r_key r" "r_key r \<le> md_maximum_key (rd_metadata rd)"
      using sorted_hd_le [OF keys] sorted_le_last [OF keys] assms(1) ne
      by (simp_all add: hd_map last_map reader_sound_def)
    then show ?thesis
      using assms(2) by (auto simp: in_range_def below_def split: option.splits)
  qed
  then show ?thesis
    by (simp add: filter_empty_conv)
qed

lemma Initialize_range:
  assumes sound: "reader_sound rd" and run: "Initialize (new_SSTableIterator rd lower upper) = (it, s)"
  shows "advanced (new_SSTableIterator rd lower upper) it s"
    and "ok s \<Longrightarrow> iterator_ok it \<and> iterator_remaining it = filter (in_range lower upper) (table_records rd)"
proof -
  let ?new = "new_SSTableIterator rd lower upper"
  have sound': "reader_sound (it_reader ?new)"
    using sound by (simp add: new_SSTableIterator_def)
  have fields: "it_reader ?new = rd" "it_begin ?new = lower" "it_end ?new = upper" "rd_index rd \<noteq> []"
    using sound by (simp_all add: new_SSTableIterator_def reader_sound_def)
  have "advanced ?new it s \<and> (ok s \<longrightarrow> iterator_ok it \<and> iterator_remaining it = filter (in_range lower upper) (table_records rd))"
  proof (cases "md_maximum_key (rd_metadata rd) < lower \<or>
      (case upper of None \<Rightarrow> False | Some u \<Rightarrow> md_minimum_key (rd_metadata rd) \<ge> u \<or> lower = u)")
    case True
    then have "it = ?new\<lparr>it_valid := False\<rparr>" "s = Ok"
      using run fields by (simp_all add: Initialize_def Let_def)
    then show ?thesis
      using Initialize_shortcut [OF sound True] sound'
      by (simp add: advanced_def iterator_benign_def iterator_ok_def iterator_remaining_def)
  next
    case False
    obtain it1 s1 where load: "LoadBlock (first_block rd lower) ?new = (it1, s1)" by force
    note cases = LoadBlock_cases [OF load sound', unfolded fields]
    let ?it1 = "it1\<lparr>it_record := record_lower_bound (it_records it1) lower\<rparr>"
    note run = run [unfolded Initialize_def Let_def fields, unfolded load prod.case]
    show ?thesis
    proof (cases "ok s1")
      case err: False
      then have "it = it1" "s = s1"
        using run False fields(4) by simp_all
      then show ?thesis
        using cases(1) err by simp
    next
      case True
      let ?B = "block_records rd (rd_index rd ! first_block rd lower)"
      note ahead = first_block_ahead [OF sound, of lower]
      have at: "it_record it1 = 0" "it_records it1 = ?B" "records_ahead it1 = ?B @ blocks_from (Suc (first_block rd lower)) rd"
        using cases(2) True ahead(1) blocks_from_Cons [OF ahead(1)] by auto
      have "records_ahead ?it1 = filter (\<lambda>r. lower \<le> r_key r) (table_records rd)"
        using at ahead(2) by (simp add: records_ahead_def)
      then have range: "takeWhile (below upper) (records_ahead ?it1) = filter (in_range lower upper) (table_records rd)"
        using in_range_filter [of "table_records rd" upper lower] sound by (simp add: reader_sound_def)
      have adv1: "advanced ?new ?it1 Ok" and sound1: "reader_sound (it_reader ?it1)"
        using cases(1) True advanced_sound [OF cases(1) sound'] by (simp_all add: advanced_def iterator_benign_def)
      obtain it2 r where skip: "skip_blocks ?it1 = (it2, r)" by force
      note sk = skip_blocks_cases [OF skip sound1]
      have adv2: "advanced ?new it2 (case r of None \<Rightarrow> Ok | Some s \<Rightarrow> s)"
        by (rule advanced_trans [OF adv1 sk(1)])
      note run = run [unfolded skip prod.case]
      show ?thesis
      proof (cases r)
        case None
        let ?it2 = "it2\<lparr>it_valid := True\<rparr>"
        have it: "it = EnforceUpperBound ?it2" "s = Ok"
          using run False fields(4) True None by simp_all
        have at2: "it_record ?it2 < length (it_records ?it2)" "records_ahead ?it2 = records_ahead ?it1" "it_end ?it2 = upper"
          using sk None adv2 fields by (simp_all add: records_ahead_def advanced_def)
        note bound = EnforceUpperBound_remaining [OF _ at2(1) , simplified, OF advanced_sound [OF sk(1) sound1]]
        have "advanced ?new ?it2 Ok"
          using adv2 None by (simp add: advanced_def iterator_benign_def)
        then show ?thesis
          using bound it range at2 advanced_trans [of ?new ?it2] by simp
      next
        case (Some t)
        then have "it = it2" "s = t"
          using run False fields(4) True by simp_all
        then show ?thesis
          using sk Some adv2 range advanced_sound [OF sk(1) sound1]
          by (auto simp: iterator_ok_def iterator_remaining_def)
      qed
    qed
  qed
  then show "advanced ?new it s"
    "ok s \<Longrightarrow> iterator_ok it \<and> iterator_remaining it = filter (in_range lower upper) (table_records rd)"
    by (blast, blast)
qed

lemma NewIterator_range:
  assumes "reader_sound rd" and "NewIterator lower upper rd = Inr it"
  shows "iterator_ok it" and "iterator_remaining it = filter (in_range lower upper) (table_records rd)"
    and "same_table rd (it_reader it)" and "it_end it = upper"
    and "benign_file (rd_file rd) \<Longrightarrow> iterator_benign it"
proof -
  obtain s where run: "Initialize (new_SSTableIterator rd lower upper) = (it, s)" "ok s"
    using assms(2) by (auto simp: NewIterator_def split: if_splits prod.splits)
  show "iterator_ok it" "iterator_remaining it = filter (in_range lower upper) (table_records rd)"
    "same_table rd (it_reader it)" "it_end it = upper" "benign_file (rd_file rd) \<Longrightarrow> iterator_benign it"
    using Initialize_range [OF assms(1) run(1)] run(2)
    by (simp_all add: advanced_def new_SSTableIterator_def iterator_benign_def)
qed

definition range_bounds :: "Options \<Rightarrow> bytes \<Rightarrow> bytes option \<Rightarrow> bool" where
  "range_bounds options lower upper \<longleftrightarrow> length lower \<le> max_key_size options \<and>
     (case upper of None \<Rightarrow> True | Some u \<Rightarrow> length u \<le> max_key_size options \<and> lower \<le> u)"

lemma NewIterator_benign:
  assumes "reader_sound rd" and "benign_file (rd_file rd)" and "range_bounds (rd_options rd) lower upper"
  obtains it where "NewIterator lower upper rd = Inr it"
proof -
  obtain it s where run: "Initialize (new_SSTableIterator rd lower upper) = (it, s)" by force
  have "ok s"
    using Initialize_range(1) [OF assms(1) run] assms(2)
    by (simp add: advanced_def new_SSTableIterator_def iterator_benign_def)
  then show thesis
    using that [of it] run assms(3) by (auto simp: NewIterator_def range_bounds_def not_less split: option.splits)
qed

section \<open>Properties\<close>

text \<open>
  C22. An iterator enumerates a range of the table. Whatever reads fail, an iterator for
  \<open>[begin, end)\<close> that has been advanced \<open>n\<close> times without error shows the \<open>n\<close>-th record of the
  table with a key in the range, and no record once these are exhausted; on a file that only
  interrupts or shortens reads it is created for every admissible range and never fails.
\<close>

theorem NewIterator_enumerates:
  assumes "reader_sound rd"
  shows "(\<forall>it n it' s. NewIterator lower upper rd = Inr it \<longrightarrow> table_cursor.run n it = (it', s) \<longrightarrow> ok s \<longrightarrow>
      iterator_record it' =
        (let rs = filter (in_range lower upper) (table_records rd) in if n < length rs then Some (rs ! n) else None)) \<and>
    (benign_file (rd_file rd) \<longrightarrow> range_bounds (rd_options rd) lower upper \<longrightarrow>
      (\<exists>it. NewIterator lower upper rd = Inr it \<and> (\<forall>n. ok (snd (table_cursor.run n it)))))"
proof (intro conjI allI impI)
  fix it n it' s
  assume it: "NewIterator lower upper rd = Inr it" and "table_cursor.run n it = (it', s)" "ok s"
  then show "iterator_record it' =
      (let rs = filter (in_range lower upper) (table_records rd) in if n < length rs then Some (rs ! n) else None)"
    using table_cursor.run_current [of it n it' s] NewIterator_range(1,2) [OF assms it] by (simp add: Let_def)
next
  assume "benign_file (rd_file rd)" "range_bounds (rd_options rd) lower upper"
  then show "\<exists>it. NewIterator lower upper rd = Inr it \<and> (\<forall>n. ok (snd (table_cursor.run n it)))"
    using NewIterator_benign [OF assms] NewIterator_range(1,5) [OF assms] table_cursor.run_succeeds by metis
qed

theorem NewIterator_enumerates_witness:
  "\<exists>rd it. table_records rd = [record_of sample_record] \<and> NewIterator [106] (Some [108]) rd = Inr it \<and>
     iterator_record it = Some (record_of sample_record) \<and> ok (snd (Next it))"
proof -
  obtain rd where rd: "reader_sound rd" "rd_options rd = default_Options" "benign_file (rd_file rd)"
    "table_records rd = [record_of sample_record]"
    by (rule sample_reader)
  have "range_bounds (rd_options rd) [106] (Some [108])"
    by (simp add: rd(2) range_bounds_def default_Options_def)
  then obtain it where it: "NewIterator [106] (Some [108]) rd = Inr it" "\<forall>n. ok (snd (table_cursor.run n it))"
    using NewIterator_enumerates [OF rd(1), of "[106]" "Some [108]"] rd(3) by auto
  have "filter (in_range [106] (Some [108])) (table_records rd) = [record_of sample_record]"
    by (simp add: rd(4) in_range_def below_def record_of_def sample_record_def)
  then have "iterator_record it = Some (record_of sample_record)"
    using conjunct1 [OF NewIterator_enumerates [OF rd(1), of "[106]" "Some [108]"], rule_format, OF it(1), of 0 it Ok]
    by simp
  moreover have "ok (snd (Next it))"
    using it(2) [rule_format, of 1] by (auto split: prod.splits if_splits)
  ultimately show ?thesis
    using rd(4) it(1) by blast
qed

end
