(* ===== verification/Database.thy ===== *)
theory Database
  imports CompactionOutputs CompactionPublish Manifest Flush TableIterator
begin

text \<open>
  The state of \<open>Database\<close> (\<^verbatim>\<open>include/minikv/database.hpp\<close>, \<^verbatim>\<open>src/database.cpp\<close>), file names, and
  point lookups through the mutable and the immutable MemTable and all tables.

  Operations take the locks of the code for their whole duration and are therefore atomic here; the
  mutexes, condition variables and the thread handle are left out of the state.
\<close>

section \<open>Types\<close>

record DatabaseReadStats =
  point_lookups :: u64
  mutable_hits :: u64
  immutable_hits :: u64
  ds_tables_considered :: u64
  ds_range_rejections :: u64
  ds_bloom_filter_checks :: u64
  ds_bloom_filter_rejections :: u64
  ds_bloom_false_positives :: u64
  ds_data_blocks_read :: u64
  ds_bytes_read :: u64

definition empty_DatabaseReadStats :: DatabaseReadStats where
  "empty_DatabaseReadStats = \<lparr>point_lookups = 0, mutable_hits = 0, immutable_hits = 0, ds_tables_considered = 0,
     ds_range_rejections = 0, ds_bloom_filter_checks = 0, ds_bloom_filter_rejections = 0,
     ds_bloom_false_positives = 0, ds_data_blocks_read = 0, ds_bytes_read = 0\<rparr>"

datatype DatabaseState = kRunning | kClosing | kClosed

record ImmutableGeneration =
  ig_generation :: u64
  ig_maximum_sequence :: u64
  ig_wal_path :: string
  ig_memtable :: MemTable
  ig_pending_table :: "SSTableReader option"
  ig_version_published :: bool
  ig_wal_removed_and_synced :: bool

definition new_ImmutableGeneration :: "u64 \<Rightarrow> string \<Rightarrow> MemTable \<Rightarrow> ImmutableGeneration" where
  "new_ImmutableGeneration generation wal_path memtable =
     \<lparr>ig_generation = generation,
      ig_maximum_sequence = foldl (\<lambda>m rec. max m (r_sequence rec)) 0 (Records memtable),
      ig_wal_path = wal_path, ig_memtable = memtable, ig_pending_table = None,
      ig_version_published = False, ig_wal_removed_and_synced = False\<rparr>"

text \<open>The duration of a compaction, measured with the clock, is left out of its statistics.\<close>

record CompactionStats =
  cst_input_files :: u64
  cst_output_files :: u64
  cst_input_records :: u64
  cst_output_records :: u64
  cst_duplicate_records_dropped :: u64
  cst_tombstones_dropped :: u64
  cst_input_bytes :: u64
  cst_output_bytes :: u64
  cst_bytes_reclaimed :: u64

definition empty_CompactionStats :: CompactionStats where
  "empty_CompactionStats = \<lparr>cst_input_files = 0, cst_output_files = 0, cst_input_records = 0, cst_output_records = 0,
     cst_duplicate_records_dropped = 0, cst_tombstones_dropped = 0, cst_input_bytes = 0, cst_output_bytes = 0,
     cst_bytes_reclaimed = 0\<rparr>"

record BackgroundMaintenanceStats =
  flushes_completed :: u64
  compactions_completed :: u64
  failures :: u64
  work_scheduled :: bool
  work_running :: bool

definition empty_BackgroundMaintenanceStats :: BackgroundMaintenanceStats where
  "empty_BackgroundMaintenanceStats = \<lparr>flushes_completed = 0, compactions_completed = 0, failures = 0,
     work_scheduled = False, work_running = False\<rparr>"

text \<open>The \<open>std::set\<close> of input file numbers is a sorted list without repetitions.\<close>

record CompactionState =
  cs_input_file_numbers :: "u64 list"
  cs_cleanup_paths :: "string list"
  cs_output_memtables :: "MemTable list"
  cs_published_outputs :: "SSTableReader list"
  cs_build_stats :: CompactionBuildStats
  cs_candidate :: Version
  cs_stats :: CompactionStats
  cs_first_output_file_number :: u64
  cs_cleanup_index :: nat
  cs_candidate_ready :: bool
  cs_version_published :: bool
  cs_cleanup_synced :: bool
  cs_wal_generation_advanced :: bool

definition new_CompactionState :: CompactionState where
  "new_CompactionState = \<lparr>cs_input_file_numbers = [], cs_cleanup_paths = [], cs_output_memtables = [],
     cs_published_outputs = [], cs_build_stats = empty_CompactionBuildStats,
     cs_candidate = \<lparr>version_id = 0, next_file_number = 0, last_sequence = 0, version_tables = []\<rparr>,
     cs_stats = empty_CompactionStats, cs_first_output_file_number = 0, cs_cleanup_index = 0,
     cs_candidate_ready = False, cs_version_published = False, cs_cleanup_synced = False,
     cs_wal_generation_advanced = False\<rparr>"

text \<open>
  The readers of \<open>tables_\<close> are never null: \<open>Open\<close>, flush and compaction only add opened tables. The
  writer of the active log is kept with the number of its file in the directory.
\<close>

record Database =
  db_directory :: string
  db_options :: Options
  db_environment :: Env
  db_version :: Version
  db_mutable :: MemTable
  db_mutable_generation :: u64
  db_wal :: "(nat \<times> WalWriter) option"
  db_immutable :: "ImmutableGeneration option"
  db_compaction :: "CompactionState option"
  db_tables :: "SSTableReader list"
  db_last_sequence :: u64
  db_read_statistics :: DatabaseReadStats
  db_last_compaction_statistics :: CompactionStats
  db_status :: status
  db_background_status :: status
  db_close_status :: status
  db_state :: DatabaseState
  db_background_work_requested :: bool
  db_background_work_running :: bool
  db_stop_background :: bool
  db_background_statistics :: BackgroundMaintenanceStats

definition DatabaseCorruption :: "string \<Rightarrow> status" where
  "DatabaseCorruption msg = Corruption (''database: '' @ msg)"

definition IsRunningLocked :: "Database \<Rightarrow> bool" where
  "IsRunningLocked db \<longleftrightarrow> db_state db = kRunning"

section \<open>File names\<close>

text \<open>
  \<open>fs::path(directory) / name\<close> inserts a separator unless the directory ends with one; this is
  \<open>JoinPath\<close> of \<^verbatim>\<open>src/flush.cpp\<close>.
\<close>

definition WalPath :: "string \<Rightarrow> u64 \<Rightarrow> string" where
  "WalPath directory generation = JoinPath directory (GenerationFileName generation ''wal'')"

definition isdigit :: "char \<Rightarrow> bool" where
  "isdigit c \<longleftrightarrow> 48 \<le> (of_char c :: nat) \<and> (of_char c :: nat) \<le> 57"

fun parse_digits :: "u64 \<Rightarrow> string \<Rightarrow> u64 option" where
  "parse_digits v [] = Some v"
| "parse_digits v (c # cs) =
     (if \<not> isdigit c then None
      else let digit = word_of_nat (of_char c - 48) in
      if v > (- 1 - digit) div 10 then None else parse_digits (v * 10 + digit) cs)"

definition ParseGenerationFile :: "string \<Rightarrow> string \<Rightarrow> u64 option" where
  "ParseGenerationFile name extension =
     (if length name \<noteq> 24 \<or> name ! 20 \<noteq> CHR ''.'' \<or> drop 21 name \<noteq> extension then None
      else case parse_digits 0 (take 20 name) of
        None \<Rightarrow> None
      | Some v \<Rightarrow> if v = 0 then None else Some v)"

definition ManifestMetadataMatches :: "SSTableMetadata \<Rightarrow> SSTableMetadata \<Rightarrow> bool" where
  "ManifestMetadataMatches expected actual \<longleftrightarrow>
     md_generation expected = md_generation actual \<and> md_file_size expected = md_file_size actual \<and>
     md_record_count expected = md_record_count actual \<and>
     md_minimum_sequence expected = md_minimum_sequence actual \<and>
     md_maximum_sequence expected = md_maximum_sequence actual \<and>
     md_minimum_key expected = md_minimum_key actual \<and> md_maximum_key expected = md_maximum_key actual"

definition IsStorageTemporaryFile :: "string \<Rightarrow> bool" where
  "IsStorageTemporaryFile name \<longleftrightarrow>
     name = ''MANIFEST.tmp'' \<or> (length name > 8 \<and> drop (length name - 8) name = ''.sst.tmp'')"

section \<open>Lookups\<close>

definition AccumulateTableStats :: "SSTableReadStats \<Rightarrow> DatabaseReadStats \<Rightarrow> DatabaseReadStats" where
  "AccumulateTableStats source destination = destination\<lparr>
     ds_tables_considered := ds_tables_considered destination + tables_considered source,
     ds_range_rejections := ds_range_rejections destination + range_rejections source,
     ds_bloom_filter_checks := ds_bloom_filter_checks destination + bloom_filter_checks source,
     ds_bloom_filter_rejections := ds_bloom_filter_rejections destination + bloom_filter_rejections source,
     ds_bloom_false_positives := ds_bloom_false_positives destination + bloom_false_positives source,
     ds_data_blocks_read := ds_data_blocks_read destination + data_blocks_read source,
     ds_bytes_read := ds_bytes_read destination + st_bytes_read source\<rparr>"

definition AccumulateDatabaseStats :: "DatabaseReadStats \<Rightarrow> DatabaseReadStats \<Rightarrow> DatabaseReadStats" where
  "AccumulateDatabaseStats source destination =
     \<lparr>point_lookups = point_lookups destination + point_lookups source,
      mutable_hits = mutable_hits destination + mutable_hits source,
      immutable_hits = immutable_hits destination + immutable_hits source,
      ds_tables_considered = ds_tables_considered destination + ds_tables_considered source,
      ds_range_rejections = ds_range_rejections destination + ds_range_rejections source,
      ds_bloom_filter_checks = ds_bloom_filter_checks destination + ds_bloom_filter_checks source,
      ds_bloom_filter_rejections = ds_bloom_filter_rejections destination + ds_bloom_filter_rejections source,
      ds_bloom_false_positives = ds_bloom_false_positives destination + ds_bloom_false_positives source,
      ds_data_blocks_read = ds_data_blocks_read destination + ds_data_blocks_read source,
      ds_bytes_read = ds_bytes_read destination + ds_bytes_read source\<rparr>"

definition UserVisible :: "LookupResult \<Rightarrow> LookupResult" where
  "UserVisible result =
     (if deleted result then result\<lparr>lr_status := NotFound ''key was deleted'', lr_value := []\<rparr> else result)"

definition FinishRead ::
  "LookupResult \<Rightarrow> DatabaseReadStats \<Rightarrow> Database \<Rightarrow> Database \<times> DatabaseReadStats \<times> LookupResult" where
  "FinishRead result operation db =
     (db\<lparr>db_read_statistics := AccumulateDatabaseStats operation (db_read_statistics db)\<rparr>, operation, result)"

text \<open>The loop over the tables, from the last to the first; \<open>Inl\<close> when it returns from \<open>Get\<close>.\<close>

fun get_tables ::
  "bytes \<Rightarrow> SSTableReader list \<Rightarrow> LookupResult \<Rightarrow> DatabaseReadStats \<Rightarrow>
     SSTableReader list \<times> DatabaseReadStats \<times> (LookupResult + LookupResult)" where
  "get_tables key [] best operation = ([], operation, Inr best)"
| "get_tables key (table # tables) best operation =
     (let (table, table_stats, result) = SSTableReader_Get table key;
          operation = AccumulateTableStats table_stats operation in
      if \<not> ok (lr_status result) \<and> \<not> IsNotFound (lr_status result)
      then (table # tables, operation, Inl result)
      else let
        best = (if ok (lr_status result) \<and> (\<not> ok (lr_status best) \<or> lr_sequence result > lr_sequence best)
                  then result else best);
        (tables, operation, r) = get_tables key tables best operation
      in (table # tables, operation, r))"

definition immutable_lookup :: "bytes \<Rightarrow> Database \<Rightarrow> LookupResult option" where
  "immutable_lookup key db =
     (case db_immutable db of
        None \<Rightarrow> None
      | Some immutable \<Rightarrow>
        (let result = Lookup (ig_memtable immutable) key in
         if IsNotFound (lr_status result) then None else Some result))"

definition tables_lookup ::
  "bytes \<Rightarrow> DatabaseReadStats \<Rightarrow> Database \<Rightarrow> Database \<times> DatabaseReadStats \<times> LookupResult" where
  "tables_lookup key operation db =
     (let (tables, operation, r) =
        get_tables key (rev (db_tables db)) (no_result (NotFound ''key does not exist'')) operation;
        db = db\<lparr>db_tables := rev tables\<rparr> in
      case r of
        Inl result \<Rightarrow> FinishRead result operation db
      | Inr best \<Rightarrow>
        if ok (lr_status best) then FinishRead (UserVisible best) operation db
        else FinishRead (no_result (NotFound ''key does not exist'')) operation db)"

definition Database_Get :: "bytes \<Rightarrow> Database \<Rightarrow> Database \<times> DatabaseReadStats \<times> LookupResult" where
  "Database_Get key db =
     (let operation = empty_DatabaseReadStats\<lparr>point_lookups := 1\<rparr> in
      if \<not> IsRunningLocked db then FinishRead (no_result (Closed ''database is not running'')) operation db
      else let result = Lookup (db_mutable db) key in
      if \<not> IsNotFound (lr_status result)
      then FinishRead (UserVisible result)
        (if ok (lr_status result) then operation\<lparr>mutable_hits := 1\<rparr> else operation) db
      else case immutable_lookup key db of
        Some result \<Rightarrow>
          FinishRead (UserVisible result)
            (if ok (lr_status result) then operation\<lparr>immutable_hits := 1\<rparr> else operation) db
      | None \<Rightarrow> tables_lookup key operation db)"

section \<open>File names are parsed back\<close>

lemma parse_digits_append: "parse_digits v (xs @ ys) = Option.bind (parse_digits v xs) (\<lambda>w. parse_digits w ys)"
  by (induction xs arbitrary: v) (simp_all add: Let_def)

lemma isdigit_digit_char: "d < 10 \<Longrightarrow> isdigit (digit_char d)"
  by (simp add: isdigit_def of_char_digit)

lemma u64_div_10: "unat ((- 1 - word_of_nat d) div 10 :: u64) = (u64_max - d) div 10" if "d < 10" for d
  using that unat_of_nat_u64 [of d] by (simp add: unat_div u64_max_minus)

lemma parse_digits_step:
  assumes "10 * unat v + d \<le> u64_max" and "d < 10"
  shows "parse_digits v [digit_char d] = Some (word_of_nat (10 * unat v + d))"
proof -
  have "unat v \<le> (u64_max - d) div 10"
    using assms by simp
  then have "\<not> (- 1 - word_of_nat d) div 10 < v"
    using u64_div_10 [OF assms(2)] by (simp add: word_less_nat_alt not_less)
  then show ?thesis
    using assms(2) isdigit_digit_char [OF assms(2)] of_char_digit [OF assms(2)]
    by (simp add: Let_def mult.commute)
qed

lemma parse_to_string: "n \<le> u64_max \<Longrightarrow> parse_digits 0 (to_string n) = Some (word_of_nat n)"
proof (induction n rule: to_string.induct)
  case (1 n)
  show ?case
  proof (cases "n < 10")
    case True
    then show ?thesis
      using parse_digits_step [of 0 n] "1.prems" by (subst to_string.simps) simp
  next
    case False
    have "unat (word_of_nat (n div 10) :: u64) = n div 10"
      using "1.prems" by (intro unat_of_nat_u64) (simp add: div_le_mono order_trans [OF div_le_dividend])
    then show ?thesis
      using "1.IH" [OF False] "1.prems" False parse_digits_step [of "word_of_nat (n div 10)" "n mod 10"]
      by (subst to_string.simps) (simp add: parse_digits_append)
  qed
qed

lemma parse_zeros: "parse_digits 0 (replicate k CHR ''0'' @ s) = parse_digits 0 s"
  by (induction k) (simp_all add: isdigit_def Let_def)

lemma ParseGenerationFile_name:
  assumes "generation \<noteq> 0" and "length extension = 3"
  shows "ParseGenerationFile (GenerationFileName generation extension) extension = Some generation"
proof -
  let ?d = "replicate (20 - length (to_string (unat generation))) CHR ''0'' @ to_string (unat generation)"
  have name: "GenerationFileName generation extension = ?d @ ''.'' @ extension" and len: "length ?d = 20"
    using generation_digits [of generation] by (simp_all add: GenerationFileName_def Let_def)
  have "parse_digits 0 ?d = Some generation"
    using parse_to_string [OF unat_lt_u64 [of generation]] by (simp add: parse_zeros)
  moreover have "take 20 (?d @ ''.'' @ extension) = ?d" "drop 21 (?d @ ''.'' @ extension) = extension"
    "(?d @ ''.'' @ extension) ! 20 = CHR ''.''"
    using len by (simp_all add: nth_append del: append_assoc)
  ultimately show ?thesis
    unfolding ParseGenerationFile_def name using assms len by simp
qed

section \<open>What a lookup returns\<close>

text \<open>A failed read of a table never reports NotFound (\<open>pread\<close> has no such error).\<close>

definition honest_file :: "RecoveryFile \<Rightarrow> bool" where
  "honest_file f \<longleftrightarrow> (\<forall>s. ReadFails s \<in> set (rf_reads f) \<longrightarrow> \<not> IsNotFound s)"

lemma ReadSome_error:
  assumes "ReadSome f offset cnt = (result, copied, f')" and "rr_kind result = kReadError"
  shows "ReadFails (rr_status result) \<in> set (rf_reads f)"
  using assms
  by (auto simp: ReadSome_def Let_def io_result_defs split: list.splits ReadOutcome.splits if_splits)

lemma read_loop_honest:
  "honest_file f \<Longrightarrow> read_loop f offset cnt acc = (f', Inl s) \<Longrightarrow> \<not> IsNotFound s"
proof (induction f offset cnt acc rule: read_loop.induct)
  case (1 f offset cnt acc)
  show ?case
  proof (cases "length acc < cnt \<and> offset \<le> u64_max - length acc")
    case False
    then show ?thesis
      using "1.prems"(2) by (subst (asm) read_loop.simps) (auto simp: IsNotFound_def IOError_def split: if_splits)
  next
    case True
    obtain result copied g where some: "ReadSome f (offset + length acc) (cnt - length acc) = (result, copied, g)"
      by (metis prod_cases3)
    obtain xs where "g = f\<lparr>rf_reads := xs\<rparr>" "set xs \<subseteq> set (rf_reads f)"
      using ReadSome_frame [OF some] by blast
    then have honest: "honest_file g"
      using "1.prems"(1) by (auto simp: honest_file_def)
    have err: "\<not> IsNotFound (rr_status result)" if "rr_kind result = kReadError"
      using ReadSome_error [OF some that] "1.prems"(1) by (auto simp: honest_file_def)
    have again: "\<not> IsNotFound s"
      if "rr_kind result = kReadInterrupted" "read_loop g offset cnt acc = (f', Inl s)"
      using "1.IH"(1) [OF _ _ some [symmetric] refl] honest True that by auto
    have more: "\<not> IsNotFound s"
      if "rr_kind result \<noteq> kReadInterrupted" "rr_kind result \<noteq> kEndOfFile" "rr_kind result \<noteq> kReadError"
        "bytes_read result \<noteq> 0" "\<not> bytes_read result > cnt - length acc"
        "read_loop g offset cnt (acc @ copied) = (f', Inl s)"
      using "1.IH"(2) [OF _ _ some [symmetric] refl] honest True that by auto
    show ?thesis
      using "1.prems"(2) True some again more err
      by (subst (asm) read_loop.simps) (auto simp: Let_def IsNotFound_def IOError_def Incomplete_def split: if_splits)
  qed
qed

lemma ReadBlock_honest:
  assumes "reader_sound rd" and "honest_file (rd_file rd)" and "i < length (rd_index rd)"
    and run: "ReadBlock i st rd = (rd', st', Inl s)"
  shows "\<not> IsNotFound s"
proof -
  let ?e = "rd_index rd ! i"
  obtain f r where r: "ReadRegion (rd_file rd) (ix_block_offset ?e) (ucast (ix_block_size ?e)) = (f, r)"
    by force
  obtain rs where "block_of rd ?e = Inr rs"
    using reader_sound_nth [OF assms(1,3)] by simp
  then have "and_then r (decode_block (rd_options rd) ?e) = Inr rs" if "r = Inr bs" for bs
    using ReadRegion_frame(2) [OF r that] that by (simp add: block_of_def)
  then have "r = Inl s"
    using assms(3) run r by (cases r) (auto simp: ReadBlock_def)
  then show ?thesis
    using r read_loop_honest [OF assms(2)]
    by (auto simp: ReadRegion_def ReadAllAt_def TableCorruption_def IsNotFound_def Corruption_def
        split: if_splits prod.splits sum.splits)
qed

lemma SSTableReader_Get_honest:
  assumes rd: "reader_sound rd" and key: "key \<noteq> []" "length key \<le> max_key_size (rd_options rd)"
    and run: "SSTableReader_Get rd key = (rd', st, res)" and honest: "honest_file (rd_file rd)"
  shows "answers rd key res \<or>
    (\<not> ok (lr_status res) \<and> \<not> IsNotFound (lr_status res) \<and> \<not> benign_file (rd_file rd))"
  using Get_sound(2,3) [OF rd key run] ReadBlock_honest [OF rd honest] by (auto simp: no_result_def)

text \<open>The best answer among records: the newest version of the key, or none.\<close>

definition best_answer :: "MemTableRecord list \<Rightarrow> bytes \<Rightarrow> LookupResult \<Rightarrow> bool" where
  "best_answer rs key res \<longleftrightarrow>
     (if \<exists>r \<in> set rs. r_key r = key
      then \<exists>r \<in> set rs. r_key r = key \<and> (\<forall>q \<in> set rs. r_key q = key \<longrightarrow> r_sequence q \<le> r_sequence r) \<and>
        res = found_result r
      else \<not> ok (lr_status res))"

lemma lookup_records_unique:
  assumes "records_sorted rs" and "lookup_records rs key = Some r" and "q \<in> set rs" and "r_key q = key"
  shows "q = r"
proof -
  have "inj_on r_key (set rs)"
    using sorted_wrt_less_distinct [OF assms(1)] by (simp add: distinct_map)
  then show ?thesis
    using assms(3,4) lookup_records_Some [OF assms(2)] by (auto dest: inj_onD)
qed

lemma found_result_simps [simp]:
  "lr_status (found_result r) = Ok" "lr_sequence (found_result r) = r_sequence r"
  by (simp_all add: found_result_def)

lemma best_answer_found:
  assumes "r \<in> set rs" and "r_key r = key" and "\<forall>q \<in> set rs. r_key q = key \<longrightarrow> r_sequence q \<le> r_sequence r"
  shows "best_answer rs key (found_result r)"
  unfolding best_answer_def using assms by metis

lemma best_answer_none:
  assumes "\<forall>q \<in> set rs. r_key q \<noteq> key" and "\<not> ok (lr_status res)"
  shows "best_answer rs key res"
  unfolding best_answer_def using assms by metis

lemma best_answer_cases:
  assumes "best_answer rs key res"
  obtains (found) r where "r \<in> set rs" "r_key r = key" "\<forall>q \<in> set rs. r_key q = key \<longrightarrow> r_sequence q \<le> r_sequence r"
      "res = found_result r"
  | (none) "\<forall>q \<in> set rs. r_key q \<noteq> key" "\<not> ok (lr_status res)"
  using assms unfolding best_answer_def by metis

lemma best_answer_append:
  assumes best: "best_answer rs key best" and ans: "answers rd key res" and sorted: "records_sorted (table_records rd)"
  shows "best_answer (rs @ table_records rd) key
    (if ok (lr_status res) \<and> (\<not> ok (lr_status best) \<or> lr_sequence res > lr_sequence best) then res else best)"
proof (cases "lookup_records (table_records rd) key")
  case None
  have bad: "\<not> ok (lr_status res)"
    using ans None by (auto simp: answers_def no_result_def)
  have absent: "\<forall>q \<in> set (table_records rd). r_key q \<noteq> key"
    using None by (simp add: lookup_records_None_iff)
  from best have "best_answer (rs @ table_records rd) key best"
  proof (cases rule: best_answer_cases)
    case (found r)
    then show ?thesis
      unfolding found(4) using absent by (intro best_answer_found) auto
  next
    case none
    then show ?thesis
      using absent by (intro best_answer_none) auto
  qed
  then show ?thesis
    using bad by simp
next
  case (Some r)
  then have res: "res = found_result r" and r: "r \<in> set (table_records rd)" "r_key r = key"
    and only: "\<And>q. q \<in> set (table_records rd) \<Longrightarrow> r_key q = key \<Longrightarrow> q = r"
    using ans lookup_records_Some [OF Some] lookup_records_unique [OF sorted Some] by (auto simp: answers_def)
  from best show ?thesis
  proof (cases rule: best_answer_cases)
    case (found q)
    show ?thesis
    proof (cases "r_sequence r > r_sequence q")
      case True
      then have "\<forall>p \<in> set rs. r_key p = key \<longrightarrow> r_sequence p \<le> r_sequence r"
        using found(3) order_less_imp_le order_trans by meson
      then have "\<forall>p \<in> set (rs @ table_records rd). r_key p = key \<longrightarrow> r_sequence p \<le> r_sequence r"
        using only by (metis Un_iff order_refl set_append)
      then have "best_answer (rs @ table_records rd) key (found_result r)"
        using r by (intro best_answer_found) simp_all
      then show ?thesis
        using True found(4) by (simp add: res)
    next
      case False
      then have "\<forall>p \<in> set (rs @ table_records rd). r_key p = key \<longrightarrow> r_sequence p \<le> r_sequence q"
        using only found(3) by (metis Un_iff linorder_not_less set_append)
      then have "best_answer (rs @ table_records rd) key (found_result q)"
        using found(1,2) by (intro best_answer_found) simp_all
      then show ?thesis
        using False found(4) by (simp add: res)
    qed
  next
    case none
    then have "\<forall>p \<in> set (rs @ table_records rd). r_key p = key \<longrightarrow> r_sequence p \<le> r_sequence r"
      using only by (metis Un_iff order_refl set_append)
    then have "best_answer (rs @ table_records rd) key (found_result r)"
      using r by (intro best_answer_found) simp_all
    then show ?thesis
      using none(2) by (simp add: res)
  qed
qed

definition sound_tables :: "Options \<Rightarrow> SSTableReader list \<Rightarrow> bool" where
  "sound_tables options tables \<longleftrightarrow>
     (\<forall>t \<in> set tables. reader_sound t \<and> rd_options t = options \<and> honest_file (rd_file t))"

lemma get_tables_best:
  assumes key: "key \<noteq> []" "length key \<le> max_key_size options"
  shows "sound_tables options tables \<Longrightarrow> best_answer rs key best \<Longrightarrow>
    get_tables key tables best operation = (tables', operation', r) \<Longrightarrow>
    list_all2 same_table tables tables' \<and>
    (case r of
       Inl res \<Rightarrow> \<not> ok (lr_status res) \<and> \<not> IsNotFound (lr_status res) \<and> (\<exists>t \<in> set tables. \<not> benign_file (rd_file t))
     | Inr best' \<Rightarrow> best_answer (rs @ concat (map table_records tables)) key best')"
proof (induction tables arbitrary: rs best operation tables' operation' r)
  case (Cons t tables)
  obtain t' st res where get: "SSTableReader_Get t key = (t', st, res)"
    by (metis prod_cases3)
  have t: "reader_sound t" "rd_options t = options" "honest_file (rd_file t)" "records_sorted (table_records t)"
    using Cons.prems(1) by (auto simp: sound_tables_def reader_sound_def)
  have len: "length key \<le> max_key_size (rd_options t)"
    using key(2) t(2) by simp
  note same = Get_sound(1) [OF t(1) key(1) len get]
  note honest = SSTableReader_Get_honest [OF t(1) key(1) len get t(3)]
  have refl: "list_all2 same_table ts ts" for ts
    by (simp add: list_all2_same)
  show ?case
  proof (cases "\<not> ok (lr_status res) \<and> \<not> IsNotFound (lr_status res)")
    case True
    then have "\<not> answers t key res"
      by (auto simp: answers_def no_result_def split: option.splits)
    then show ?thesis
      using True Cons.prems(3) get same honest refl by auto
  next
    case False
    then have ans: "answers t key res"
      using honest by auto
    define best1 where "best1 =
      (if ok (lr_status res) \<and> (\<not> ok (lr_status best) \<or> lr_sequence res > lr_sequence best) then res else best)"
    obtain ts1 op1 r1 where rest: "get_tables key tables best1 (AccumulateTableStats st operation) = (ts1, op1, r1)"
      by (metis prod_cases3)
    have eq: "tables' = t' # ts1" "r = r1"
      using Cons.prems(3) get False rest by (simp_all add: best1_def Let_def)
    have "sound_tables options tables"
      using Cons.prems(1) by (simp add: sound_tables_def)
    from Cons.IH [OF this best_answer_append [OF Cons.prems(2) ans t(4), folded best1_def] rest]
    show ?thesis
      using same eq by (auto split: sum.splits)
  qed
qed simp

text \<open>
  All versions a database holds, from the newest layer to the oldest. A database is in order when
  its MemTables are well-formed, its tables are sound, and a key's version in an upper layer is
  never older than one below; it is strictly newer above the immutable MemTable, which may share
  records with the table it has just been flushed to.
\<close>

definition immutable_records :: "Database \<Rightarrow> MemTableRecord list" where
  "immutable_records db = (case db_immutable db of None \<Rightarrow> [] | Some ig \<Rightarrow> Records (ig_memtable ig))"

definition table_versions :: "Database \<Rightarrow> MemTableRecord list" where
  "table_versions db = concat (map table_records (db_tables db))"

definition all_records :: "Database \<Rightarrow> MemTableRecord list" where
  "all_records db = Records (db_mutable db) @ immutable_records db @ table_versions db"

definition db_layers :: "Database \<Rightarrow> bool" where
  "db_layers db \<longleftrightarrow>
     (\<forall>r \<in> set (Records (db_mutable db)). \<forall>q \<in> set (immutable_records db @ table_versions db).
        r_key q = r_key r \<longrightarrow> r_sequence q < r_sequence r) \<and>
     (\<forall>r \<in> set (immutable_records db). \<forall>q \<in> set (table_versions db).
        r_key q = r_key r \<longrightarrow> r_sequence q \<le> r_sequence r)"

definition db_ok :: "Database \<Rightarrow> bool" where
  "db_ok db \<longleftrightarrow> mt_wf (db_mutable db) \<and> mt_options (db_mutable db) = db_options db \<and>
     (\<forall>ig. db_immutable db = Some ig \<longrightarrow> mt_wf (ig_memtable ig) \<and> mt_options (ig_memtable ig) = db_options db) \<and>
     sound_tables (db_options db) (db_tables db) \<and> db_layers db"

definition newest_version :: "Database \<Rightarrow> bytes \<Rightarrow> MemTableRecord \<Rightarrow> bool" where
  "newest_version db key r \<longleftrightarrow> r \<in> set (all_records db) \<and> r_key r = key \<and>
     (\<forall>q \<in> set (all_records db). r_key q = key \<longrightarrow> r_sequence q \<le> r_sequence r)"

definition reads_right :: "Database \<Rightarrow> bytes \<Rightarrow> LookupResult \<Rightarrow> bool" where
  "reads_right db key res \<longleftrightarrow>
     (if \<exists>r \<in> set (all_records db). r_key r = key
      then \<exists>r. newest_version db key r \<and> res = UserVisible (found_result r)
      else res = no_result (NotFound ''key does not exist''))"

lemma Lookup_Records:
  assumes "key \<noteq> []" and "length key \<le> max_key_size (mt_options mt)"
  shows "Lookup mt key = (case lookup_records (Records mt) key of
      None \<Rightarrow> no_result (NotFound ''key does not exist'') | Some r \<Rightarrow> found_result r)"
  using assms lookup_Records [of mt key]
  by (auto simp: Lookup_def Validate_def no_result_def found_result_def split: option.splits)

lemma IsNotFound_found [simp]: "\<not> IsNotFound (lr_status (found_result r))" "IsNotFound (lr_status (no_result (NotFound m)))"
  by (simp_all add: no_result_def IsNotFound_def Ok_def)

lemma reads_right_found: "newest_version db key r \<Longrightarrow> reads_right db key (UserVisible (found_result r))"
  unfolding reads_right_def newest_version_def by metis

lemma reads_right_layer:
  assumes "lookup_records (Records mt) key = Some r" and "mt_wf mt" and "set (Records mt) \<subseteq> set (all_records db)"
    and "\<forall>q \<in> set (all_records db). q \<notin> set (Records mt) \<longrightarrow> r_key q = key \<longrightarrow> r_sequence q \<le> r_sequence r"
  shows "reads_right db key (UserVisible (found_result r))"
proof (rule reads_right_found)
  have r: "r \<in> set (Records mt)" "r_key r = key"
    using lookup_records_Some [OF assms(1)] by auto
  have "q = r" if "q \<in> set (Records mt)" "r_key q = key" for q
    using lookup_records_unique [OF _ assms(1) that] Records_sorted assms(2) by (simp add: mt_wf_def)
  then have "r_sequence q \<le> r_sequence r" if "q \<in> set (all_records db)" "r_key q = key" for q
    using assms(4) that by (cases "q \<in> set (Records mt)") auto
  then show "newest_version db key r"
    using r assms(3) by (auto simp: newest_version_def)
qed

lemma FinishRead_result:
  assumes "FinishRead result operation db = (db', operation', res)"
  shows "res = result" "db_tables db' = db_tables db" "db_mutable db' = db_mutable db" "db_immutable db' = db_immutable db"
    "all_records db' = all_records db"
  using assms by (auto simp: FinishRead_def all_records_def immutable_records_def table_versions_def)

lemma tables_lookup_result:
  assumes "tables_lookup key operation db = (db', operation', res)"
  obtains tables' op' r where
      "get_tables key (rev (db_tables db)) (no_result (NotFound ''key does not exist'')) operation = (tables', op', r)"
      "db_tables db' = rev tables'" "db_mutable db' = db_mutable db" "db_immutable db' = db_immutable db"
      "res = (case r of Inl res \<Rightarrow> res | Inr best \<Rightarrow>
         if ok (lr_status best) then UserVisible best else no_result (NotFound ''key does not exist''))"
proof -
  obtain tables' op' r where
    g: "get_tables key (rev (db_tables db)) (no_result (NotFound ''key does not exist'')) operation = (tables', op', r)"
    by (metis prod_cases3)
  note run = assms [unfolded tables_lookup_def g Let_def prod.case]
  have "res = (case r of Inl res \<Rightarrow> res | Inr best \<Rightarrow>
      if ok (lr_status best) then UserVisible best else no_result (NotFound ''key does not exist'')) \<and>
    db_tables db' = rev tables' \<and> db_mutable db' = db_mutable db \<and> db_immutable db' = db_immutable db"
    using run FinishRead_result(1-4) [of _ op' "db\<lparr>db_tables := rev tables'\<rparr>" db' operation' res]
    by (cases r) (auto split: if_splits)
  then show thesis
    using that [OF g] by blast
qed

lemma Lookup_layer:
  assumes "mt_options mt = options" and "key \<noteq> []" and "length key \<le> max_key_size options"
  shows "IsNotFound (lr_status (Lookup mt key)) \<longleftrightarrow> lookup_records (Records mt) key = None"
    and "lookup_records (Records mt) key = Some r \<Longrightarrow> Lookup mt key = found_result r"
  using Lookup_Records [of key mt] assms by (auto split: option.splits)

text \<open>The three layers in which \<open>Get\<close> finds its answer.\<close>

lemma Database_Get_layers:
  assumes db: "db_ok db" "IsRunningLocked db" and key: "key \<noteq> []" "length key \<le> max_key_size (db_options db)"
    and run: "Database_Get key db = (db', operation, res)"
  obtains (in_mutable) r where "lookup_records (Records (db_mutable db)) key = Some r"
      "res = UserVisible (found_result r)" "all_records db' = all_records db"
  | (in_immutable) ig r where "lookup_records (Records (db_mutable db)) key = None" "db_immutable db = Some ig"
      "lookup_records (Records (ig_memtable ig)) key = Some r"
      "res = UserVisible (found_result r)" "all_records db' = all_records db"
  | (in_tables) operation where "lookup_records (Records (db_mutable db)) key = None"
      "lookup_records (immutable_records db) key = None"
      "tables_lookup key (empty_DatabaseReadStats\<lparr>point_lookups := 1\<rparr>) db = (db', operation, res)"
proof -
  have "mt_options (db_mutable db) = db_options db"
    using db(1) by (simp add: db_ok_def)
  note m = Lookup_layer [OF this key]
  have i: "immutable_lookup key db = map_option found_result (lookup_records (immutable_records db) key)"
  proof (cases "db_immutable db")
    case (Some ig)
    then have "mt_options (ig_memtable ig) = db_options db"
      using db(1) by (simp add: db_ok_def)
    note Lookup_layer [OF this key]
    then show ?thesis
      by (cases "lookup_records (Records (ig_memtable ig)) key")
        (simp_all add: immutable_lookup_def immutable_records_def Some)
  qed (simp add: immutable_lookup_def immutable_records_def lookup_records_def)
  note run = run [unfolded Database_Get_def Let_def]
  show thesis
  proof (cases "lookup_records (Records (db_mutable db)) key")
    case (Some r)
    then have "\<exists>op. FinishRead (UserVisible (found_result r)) op db = (db', operation, res)"
      using run db(2) m by auto
    then show thesis
      using FinishRead_result(1,5) in_mutable [OF Some] by blast
  next
    case none: None
    show thesis
    proof (cases "lookup_records (immutable_records db) key")
      case None
      show thesis
        by (rule in_tables [OF none None]) (use run db(2) m none None i in simp)
    next
      case (Some r)
      then obtain ig where ig: "db_immutable db = Some ig" "lookup_records (Records (ig_memtable ig)) key = Some r"
        by (cases "db_immutable db") (simp_all add: immutable_records_def lookup_records_def)
      have "\<exists>op. FinishRead (UserVisible (found_result r)) op db = (db', operation, res)"
        using run db(2) m none i Some by auto
      then show thesis
        using FinishRead_result(1,5) in_immutable [OF none ig] by blast
    qed
  qed
qed

lemma same_tables_records: "list_all2 same_table ts ts' \<Longrightarrow> map table_records ts' = map table_records ts"
  by (induction rule: list_all2_induct) (simp_all add: same_table_content(1))

lemma tables_lookup_right:
  assumes db: "db_ok db" and key: "key \<noteq> []" "length key \<le> max_key_size (db_options db)"
    and none: "lookup_records (Records (db_mutable db)) key = None" "lookup_records (immutable_records db) key = None"
    and run: "tables_lookup key operation db = (db', operation', res)"
  shows "all_records db' = all_records db \<and> (reads_right db key res \<or>
      (\<not> ok (lr_status res) \<and> \<not> IsNotFound (lr_status res) \<and> (\<exists>t \<in> set (db_tables db). \<not> benign_file (rd_file t))))"
proof -
  let ?rs = "concat (map table_records (rev (db_tables db)))" and ?no = "no_result (NotFound ''key does not exist'')"
  obtain tables' op' r where
      g: "get_tables key (rev (db_tables db)) ?no operation = (tables', op', r)"
    and db': "db_tables db' = rev tables'" "db_mutable db' = db_mutable db" "db_immutable db' = db_immutable db"
    and res: "res = (case r of Inl res \<Rightarrow> res | Inr best \<Rightarrow> if ok (lr_status best) then UserVisible best else ?no)"
    by (rule tables_lookup_result [OF run])
  have "sound_tables (db_options db) (rev (db_tables db))" "best_answer [] key ?no"
    using db by (simp_all add: db_ok_def sound_tables_def best_answer_def no_result_def)
  note got = get_tables_best [OF key this g]
  have in_tables: "q \<in> set ?rs" if "q \<in> set (all_records db)" "r_key q = key" for q
    using that none by (auto simp: all_records_def table_versions_def lookup_records_None_iff)
  have rs: "set ?rs \<subseteq> set (all_records db)"
    by (auto simp: all_records_def table_versions_def)
  have "map table_records tables' = map table_records (rev (db_tables db))"
    using got same_tables_records by blast
  then have "map table_records (rev tables') = map table_records (db_tables db)"
    by (metis rev_map rev_rev_ident)
  then have "all_records db' = all_records db"
    by (simp add: all_records_def immutable_records_def table_versions_def db')
  moreover have "reads_right db key res \<or>
      (\<not> ok (lr_status res) \<and> \<not> IsNotFound (lr_status res) \<and> (\<exists>t \<in> set (db_tables db). \<not> benign_file (rd_file t)))"
  proof (cases r)
    case (Inl x)
    then show ?thesis
      using got res by auto
  next
    case (Inr best)
    have "best_answer ?rs key best"
      using got Inr by simp
    then show ?thesis
    proof (cases rule: best_answer_cases)
      case (found q)
      then have "newest_version db key q"
        unfolding newest_version_def using in_tables rs by blast
      then show ?thesis
        using reads_right_found res Inr found(4) by simp
    next
      case none
      then have "\<not> (\<exists>q \<in> set (all_records db). r_key q = key)"
        using in_tables by blast
      then show ?thesis
        using res Inr none(2) by (simp add: reads_right_def)
    qed
  qed
  ultimately show ?thesis
    by blast
qed

lemma Database_Get_result:
  assumes db: "db_ok db" "IsRunningLocked db" and key: "key \<noteq> []" "length key \<le> max_key_size (db_options db)"
    and run: "Database_Get key db = (db', operation, res)"
  shows "all_records db' = all_records db \<and> (reads_right db key res \<or>
      (\<not> ok (lr_status res) \<and> \<not> IsNotFound (lr_status res) \<and> (\<exists>t \<in> set (db_tables db). \<not> benign_file (rd_file t))))"
  using db key run
proof (cases rule: Database_Get_layers)
  case (in_mutable r)
  have "reads_right db key (UserVisible (found_result r))"
    using db(1) lookup_records_Some [OF in_mutable(1)]
    by (intro reads_right_layer [OF in_mutable(1)])
      (auto simp: all_records_def db_ok_def db_layers_def less_imp_le)
  then show ?thesis
    using in_mutable by simp
next
  case (in_immutable ig r)
  have absent: "\<forall>q \<in> set (Records (db_mutable db)). r_key q \<noteq> key"
    using in_immutable(1) by (simp add: lookup_records_None_iff)
  have "reads_right db key (UserVisible (found_result r))"
    using db(1) lookup_records_Some [OF in_immutable(3)] in_immutable(2) absent
    by (intro reads_right_layer [OF in_immutable(3)])
      (auto simp: all_records_def db_ok_def db_layers_def immutable_records_def)
  then show ?thesis
    using in_immutable by simp
next
  case (in_tables op)
  then show ?thesis
    by (intro tables_lookup_right [OF db(1) key])
qed

section \<open>Properties\<close>

text \<open>
  C16. A lookup returns the newest version. In a database whose layers are in order, \<open>Get\<close> of an
  admissible key answers with the version of the greatest sequence number among the mutable
  MemTable, the immutable one and all tables (as NotFound when that is a tombstone), with NotFound
  when no layer has the key, and otherwise with the error of a table read that failed; a failed
  read is never taken for an absent key. No lookup changes the content of the database.
\<close>

theorem Database_Get_newest:
  assumes db: "db_ok db" "IsRunningLocked db" and key: "key \<noteq> []" "length key \<le> max_key_size (db_options db)"
    and run: "Database_Get key db = (db', operation, res)"
  shows "all_records db' = all_records db \<and> (reads_right db key res \<or>
      (\<not> ok (lr_status res) \<and> \<not> IsNotFound (lr_status res) \<and> (\<exists>t \<in> set (db_tables db). \<not> benign_file (rd_file t))))"
  using assms by (rule Database_Get_result)

definition sample_db :: "SSTableReader \<Rightarrow> Database" where
  "sample_db rd = \<lparr>db_directory = ''db'', db_options = default_Options, db_environment = faulty_env,
     db_version = NewDatabase, db_mutable = new_MemTable default_Options, db_mutable_generation = 2,
     db_wal = None, db_immutable = None, db_compaction = None, db_tables = [rd], db_last_sequence = 7,
     db_read_statistics = empty_DatabaseReadStats, db_last_compaction_statistics = empty_CompactionStats,
     db_status = Ok, db_background_status = Ok, db_close_status = Ok, db_state = kRunning,
     db_background_work_requested = False, db_background_work_running = False, db_stop_background = False,
     db_background_statistics = empty_BackgroundMaintenanceStats\<rparr>"

lemma benign_honest: "benign_file f \<Longrightarrow> honest_file f"
  by (auto simp: benign_file_def honest_file_def list_all_iff)

lemma sample_db_ok:
  assumes "reader_sound rd" "rd_options rd = default_Options" "benign_file (rd_file rd)"
  shows "db_ok (sample_db rd)" "IsRunningLocked (sample_db rd)" "all_records (sample_db rd) = table_records rd"
  using assms benign_honest
  by (simp_all add: db_ok_def sample_db_def sound_tables_def db_layers_def immutable_records_def IsRunningLocked_def
      all_records_def table_versions_def new_MemTable_facts)

theorem Database_Get_newest_witness:
  "\<exists>rd. table_records rd = [record_of sample_record] \<and>
     snd (snd (Database_Get [107] (sample_db rd))) = found_result (record_of sample_record)"
proof -
  obtain rd where rd: "reader_sound rd" "rd_options rd = default_Options" "benign_file (rd_file rd)"
    "table_records rd = [record_of sample_record]"
    by (rule sample_reader)
  note ok = sample_db_ok [OF rd(1-3)]
  obtain db' op res where run: "Database_Get [107] (sample_db rd) = (db', op, res)"
    by (metis prod_cases3)
  have "reads_right (sample_db rd) [107] res"
    using Database_Get_newest [OF ok(1,2) _ _ run] rd(3) by (simp add: sample_db_def default_Options_def)
  then have "res = found_result (record_of sample_record)"
    using ok(3) rd(4)
    by (auto simp: reads_right_def newest_version_def UserVisible_def deleted_def found_result_def record_of_def
        sample_record_def split: if_splits)
  then show ?thesis
    using rd(4) run by auto
qed

end
