(* ===== verification/SSTableDump.thy ===== *)
theory SSTableDump
  imports Database
begin

text \<open>
  The command-line tool of \<^verbatim>\<open>tools/sstable_dump.cpp\<close>: a function from the arguments and the opened
  file to the exit code and what is written to the two output streams.
\<close>

section \<open>Numbers and bytes as text\<close>

text \<open>
  \<open>std::from_chars\<close> for an unsigned 64-bit integer: the number that the longest prefix of digits
  stands for and the rest of the text, or nothing when there is no digit or the number is too large.
\<close>

definition from_chars :: "string \<Rightarrow> (u64 \<times> string) option" where
  "from_chars text =
     (let digits = takeWhile isdigit text; n = decimal digits in
      if digits = [] \<or> n > u64_max then None else Some (word_of_nat n, dropWhile isdigit text))"

definition hex_digit :: "u8 \<Rightarrow> char" where
  "hex_digit d = ''0123456789abcdef'' ! unat d"

definition Hex :: "bytes \<Rightarrow> string" where
  "Hex bs = concat (map (\<lambda>b. [hex_digit (drop_bit 4 b), hex_digit (b AND 15)]) bs)"

definition ParseLimit :: "string \<Rightarrow> u64 option" where
  "ParseLimit text =
     (if text = [] then None
      else case from_chars text of
        Some (limit, rest) \<Rightarrow> if rest = [] then Some limit else None
      | None \<Rightarrow> None)"

section \<open>The output\<close>

abbreviation new_line :: string where "new_line \<equiv> [CHR 0x0A]"

abbreviation number :: "'a::len word \<Rightarrow> string" where "number w \<equiv> to_string (unat w)"

abbreviation interval :: "string \<Rightarrow> string \<Rightarrow> string" where
  "interval a b \<equiv> ''['' @ a @ '','' @ b @ '']'' @ new_line"

definition dump_metadata :: "SSTableReader \<Rightarrow> string" where
  "dump_metadata reader =
     (let metadata = rd_metadata reader in
      ''path='' @ rd_path reader @ new_line @
      ''format_version='' @ number kTableFormatVersion @ new_line @
      ''generation='' @ number (md_generation metadata) @ new_line @
      ''file_size='' @ number (md_file_size metadata) @ new_line @
      ''record_count='' @ number (md_record_count metadata) @ new_line @
      ''block_count='' @ number (md_block_count metadata) @ new_line @
      ''sequence_range='' @ interval (number (md_minimum_sequence metadata)) (number (md_maximum_sequence metadata)) @
      ''key_range_hex='' @ interval (Hex (md_minimum_key metadata)) (Hex (md_maximum_key metadata)) @
      ''data_region='' @ interval (number (md_data_offset metadata)) (number (md_data_size metadata)) @
      ''index_region='' @ interval (number (md_index_offset metadata)) (number (md_index_size metadata)) @
      ''bloom_region='' @ interval (number (md_bloom_offset metadata)) (number (md_bloom_size metadata)) @
      ''bloom_bits='' @ number (md_bloom_bit_count metadata) @ new_line @
      ''bloom_hashes='' @ number (md_bloom_hash_count metadata) @ new_line)"

definition dump_record :: "nat \<Rightarrow> MemTableRecord \<Rightarrow> string" where
  "dump_record index rec =
     ''record['' @ to_string index @ ''] sequence='' @ number (r_sequence rec) @
     '' type='' @ (if r_type rec = kDeletion then ''deletion'' else ''value'') @
     '' key_hex='' @ Hex (r_key rec) @ '' value_hex='' @ Hex (r_value rec) @ new_line"

definition dump_records :: "MemTableRecord list \<Rightarrow> string" where
  "dump_records rs = concat (map (\<lambda>(index, rec). dump_record index rec) (zip [0..<length rs] rs))"

record DumpOutput =
  exit_code :: nat
  out :: string
  err :: string

text \<open>\<open>arguments\<close> are those after the program's name; \<open>opened\<close> is the file of the first one.\<close>

definition sstable_dump :: "string list \<Rightarrow> RecoveryFile result \<Rightarrow> DumpOutput" where
  "sstable_dump arguments opened =
     (if arguments = [] \<or> length arguments > 2
      then \<lparr>exit_code = 2, out = [], err = ''usage: minikv_sstable_dump <table.sst> [record-limit]'' @ new_line\<rparr>
      else case (if length arguments = 2 then ParseLimit (arguments ! 1) else Some 20) of
        None \<Rightarrow> \<lparr>exit_code = 2, out = [], err = ''record-limit must be a non-negative integer'' @ new_line\<rparr>
      | Some limit \<Rightarrow>
        (case SSTableReader_Open opened (arguments ! 0) default_Options of
           Inl s \<Rightarrow> \<lparr>exit_code = 1, out = [], err = ToString s @ new_line\<rparr>
         | Inr reader \<Rightarrow>
           (case snd (ReadRecords (unat limit) reader) of
              Inl s \<Rightarrow> \<lparr>exit_code = 1, out = dump_metadata reader, err = ToString s @ new_line\<rparr>
            | Inr records \<Rightarrow> \<lparr>exit_code = 0, out = dump_metadata reader @ dump_records records, err = []\<rparr>)))"

section \<open>What the output means\<close>

lemma hex_digit_inject: "a < 16 \<Longrightarrow> b < 16 \<Longrightarrow> hex_digit a = hex_digit b \<longleftrightarrow> a = b"
proof -
  assume small: "a < 16" "b < 16"
  have "distinct ''0123456789abcdef''"
    by simp
  moreover have "unat a < length ''0123456789abcdef''" "unat b < length ''0123456789abcdef''"
    using small by (simp_all add: word_less_nat_alt)
  ultimately show ?thesis
    unfolding hex_digit_def by (simp only: nth_eq_iff_index_eq word_unat_eq_iff)
qed

lemma nibbles:
  fixes b :: u8
  shows "drop_bit 4 b < 16" and "b AND 15 < 16" and "push_bit 4 (drop_bit 4 b) + (b AND 15) = b"
proof -
  have "unat b < 256"
    using unsigned_less [of b] by simp
  then show "drop_bit 4 b < 16"
    by (simp add: word_less_nat_alt drop_bit_eq_div unat_div)
  have "(b AND 15) = take_bit 4 b"
    by (simp add: take_bit_eq_mask mask_numeral)
  then show "b AND 15 < 16"
    by (simp add: word_less_nat_alt take_bit_eq_mod unat_mod)
  show "push_bit 4 (drop_bit 4 b) + (b AND 15) = b"
    using \<open>(b AND 15) = take_bit 4 b\<close> bits_ident [of 4 b] by simp
qed

lemma Hex_inject: "Hex a = Hex b \<longleftrightarrow> a = b"
proof (induction a arbitrary: b)
  case (Cons x a)
  show ?case
  proof (cases b)
    case (Cons y b')
    have "drop_bit 4 x = drop_bit 4 y \<and> x AND 15 = y AND 15 \<longleftrightarrow> x = y"
      using nibbles(3) [of x] nibbles(3) [of y] by metis
    then show ?thesis
      using Cons.IH [of b'] Cons nibbles(1,2) [of x] nibbles(1,2) [of y]
      by (auto simp: Hex_def hex_digit_inject)
  qed (simp add: Hex_def)
qed (auto simp: Hex_def)

lemma from_chars_to_string:
  assumes "n \<le> u64_max"
  shows "from_chars (to_string n) = Some (word_of_nat n, [])"
proof -
  have digits: "list_all isdigit (to_string n)" for n
  proof (induction n rule: to_string.induct)
    case (1 n)
    then show ?case
      by (subst to_string.simps) (simp add: isdigit_digit_char)
  qed
  then have split: "takeWhile isdigit (to_string n) = to_string n" "dropWhile isdigit (to_string n) = []"
    by (simp_all add: takeWhile_eq_all_conv dropWhile_eq_Nil_conv list_all_iff)
  have "to_string n \<noteq> []"
    by (subst to_string.simps) simp
  then show ?thesis
    using assms unfolding from_chars_def split by (simp add: decimal_to_string)
qed

text \<open>The two characters of a byte are its hexadecimal digits, the higher one first.\<close>

definition hex_text :: "bytes \<Rightarrow> string" where
  "hex_text bs = concat (map (\<lambda>b. [''0123456789abcdef'' ! (unat b div 16), ''0123456789abcdef'' ! (unat b mod 16)]) bs)"

lemma Hex_hex_text: "Hex bs = hex_text bs"
proof -
  have "unat (drop_bit 4 b) = unat b div 16" "unat (b AND 15) = unat b mod 16" for b :: u8
  proof -
    have "(b AND 15) = take_bit 4 b"
      by (simp add: take_bit_eq_mask mask_numeral)
    then show "unat (b AND 15) = unat b mod 16"
      by (simp add: take_bit_eq_mod unat_mod)
    show "unat (drop_bit 4 b) = unat b div 16"
      by (simp add: drop_bit_eq_div unat_div)
  qed
  then show ?thesis
    by (simp add: Hex_def hex_text_def hex_digit_def)
qed

text \<open>What the metadata of a table file says of the file and its records.\<close>

lemma opened_metadata:
  assumes run: "SSTableReader_Open (Inr f) path options = Inr rd" and len: "length (rf_data f) \<le> u64_max"
  shows "rd_path rd = path" and "unat (md_file_size (rd_metadata rd)) = length (rf_data f)"
proof -
  obtain md bloom index g where t: "table_of options (rf_data f) md bloom index"
    and v: "verify_table \<lparr>rd_path = path, rd_options = options, rd_file = g,
       rd_metadata = bloom_metadata md bloom, rd_index = index, rd_bloom = bloom\<rparr> = Inr rd"
    by (rule Open_sound [OF run len])
  show "rd_path rd = path"
    using verify_table_sound(5) [OF v] table_of_index_not_Nil [OF t] by simp
  have "md_file_size md = word_of_nat (length (rf_data f))"
    using t decode_table_footer_size by (auto simp: table_of_def footer_of_def)
  moreover have "md_file_size (rd_metadata rd) = md_file_size md"
    using v by (auto simp: verify_table_def bloom_metadata_def Let_def and_then_Inr split: if_splits option.splits)
  ultimately show "unat (md_file_size (rd_metadata rd)) = length (rf_data f)"
    using unat_of_nat_u64 len by simp
qed

lemma dump_records_lines:
  "dump_records (take n rs) = concat (map (\<lambda>i. dump_record i (rs ! i)) [0..<min n (length rs)])"
proof -
  have "zip [0..<min n (length rs)] (take n rs) = map (\<lambda>i. (i, rs ! i)) [0..<min n (length rs)]"
    by (auto intro!: nth_equalityI)
  then show ?thesis
    by (simp add: dump_records_def min.commute comp_def)
qed

text \<open>
  C37. The dump shows the table. For a table file written from a MemTable with the default options,
  which are the ones the tool opens every file with, on a file that at worst interrupts and shortens
  reads, and a record limit in decimal, the tool ends with code 0 and writes nothing to the error
  stream. It prints the path, the format version, the generation, the size of the file, the number
  of records, the blocks, the smallest and the largest sequence number and the first and the last
  key, the regions and the parameters of the Bloom filter as the table file records them; and then
  one line for each of the first records of the MemTable, in order, up to the limit: its index,
  sequence number, kind, key and value. Keys and values are in hexadecimal, from which they can be
  told.
\<close>

theorem sstable_dump_shows_table:
  assumes "EncodeTable fm generation mt default_Options = Inr bs" and "mt_wf mt" and "benign_file f" and "rf_data f = bs"
    and "path \<noteq> []" and "limit \<le> u64_max"
  shows "(\<exists>reader md. SSTableReader_Open (Inr f) path default_Options = Inr reader \<and> rd_metadata reader = md \<and>
      exit_code (sstable_dump [path, to_string limit] (Inr f)) = 0 \<and> err (sstable_dump [path, to_string limit] (Inr f)) = [] \<and>
      out (sstable_dump [path, to_string limit] (Inr f)) =
        ''path='' @ path @ new_line @ ''format_version=3'' @ new_line @
        ''generation='' @ to_string (unat generation) @ new_line @
        ''file_size='' @ to_string (length bs) @ new_line @
        ''record_count='' @ to_string (length (Records mt)) @ new_line @
        ''block_count='' @ to_string (unat (md_block_count md)) @ new_line @
        ''sequence_range=['' @ to_string (unat (Min (r_sequence ` set (Records mt)))) @ '','' @
          to_string (unat (Max (r_sequence ` set (Records mt)))) @ '']'' @ new_line @
        ''key_range_hex=['' @ hex_text (r_key (hd (Records mt))) @ '','' @ hex_text (r_key (last (Records mt))) @ '']'' @ new_line @
        ''data_region=['' @ to_string (unat (md_data_offset md)) @ '','' @ to_string (unat (md_data_size md)) @ '']'' @ new_line @
        ''index_region=['' @ to_string (unat (md_index_offset md)) @ '','' @ to_string (unat (md_index_size md)) @ '']'' @ new_line @
        ''bloom_region=['' @ to_string (unat (md_bloom_offset md)) @ '','' @ to_string (unat (md_bloom_size md)) @ '']'' @ new_line @
        ''bloom_bits='' @ to_string (unat (md_bloom_bit_count md)) @ new_line @
        ''bloom_hashes='' @ to_string (unat (md_bloom_hash_count md)) @ new_line @
        concat (map (\<lambda>i. ''record['' @ to_string i @ ''] sequence='' @ to_string (unat (r_sequence (Records mt ! i))) @
            '' type='' @ (case r_type (Records mt ! i) of kValue \<Rightarrow> ''value'' | kDeletion \<Rightarrow> ''deletion'') @
            '' key_hex='' @ hex_text (r_key (Records mt ! i)) @ '' value_hex='' @ hex_text (r_value (Records mt ! i)) @ new_line)
          [0..<min limit (length (Records mt))])) \<and>
    inj hex_text"
proof -
  have "keys_sorted (entries mt)"
    using assms(2) by (simp add: mt_wf_def)
  then obtain rd where rd: "SSTableReader_Open (Inr f) path default_Options = Inr rd" "table_records rd = Records mt"
    "reader_sound rd" "summary_sound rd" "benign_file (rd_file rd)" "md_generation (rd_metadata rd) = generation"
    by (rule EncodeTable_opens [OF assms(1) _ assms(3-5)])
  have len: "length (rf_data f) \<le> u64_max"
    using assms(3) by (simp add: benign_file_def)
  note file' = opened_metadata [OF rd(1) len]
  have "unat (word_of_nat limit :: u64) = limit"
    using assms(6) by (intro unat_of_nat_u64) simp
  moreover have "to_string limit \<noteq> []"
    by (subst to_string.simps) simp
  moreover have "snd (ReadRecords limit rd) = Inr (take limit (Records mt))"
    by (rule ReadRecords_benign [OF rd(3,5), of limit]) (simp add: rd(2))
  ultimately have dump: "sstable_dump [path, to_string limit] (Inr f) =
      \<lparr>exit_code = 0, out = dump_metadata rd @ dump_records (take limit (Records mt)), err = []\<rparr>"
    using rd(1) from_chars_to_string [OF assms(6)] by (simp add: sstable_dump_def ParseLimit_def)
  have version: "number kTableFormatVersion = ''3''"
    by code_simp
  have kind: "(if t = kDeletion then ''deletion'' else ''value'') = (case t of kValue \<Rightarrow> ''value'' | kDeletion \<Rightarrow> ''deletion'')" for t
    by (cases t) simp_all
  have "inj hex_text"
    using Hex_inject by (simp add: inj_def Hex_hex_text)
  then show ?thesis
    using rd(1,2,6) file' assms(4) rd(3) [unfolded reader_sound_def] rd(4) [unfolded summary_sound_def]
    unfolding dump dump_metadata_def dump_records_lines dump_record_def Let_def version kind Hex_hex_text
    by (intro conjI exI [of _ rd] exI [of _ "rd_metadata rd"]) simp_all
qed

lemma ends_with_eq: "x = ys \<Longrightarrow> \<exists>b. ys = b @ t \<Longrightarrow> \<exists>b. x = b @ t"
  by simp

lemma ends_with_append: "\<exists>b. ys = b @ t \<Longrightarrow> \<exists>b. zs @ ys = b @ t"
  by (metis append_assoc)

theorem sstable_dump_shows_table_witness:
  "\<exists>bs. EncodeTable sample_math 1 sample_memtable default_Options = Inr bs \<and>
     exit_code (sstable_dump [''000001.sst'', ''1''] (Inr (sample_file bs))) = 0 \<and>
     (\<exists>before. out (sstable_dump [''000001.sst'', ''1''] (Inr (sample_file bs))) =
        before @ ''record[0] sequence=7 type=value key_hex=6b value_hex=7677'' @ new_line)"
proof -
  obtain bs where bs: "EncodeTable sample_math 1 sample_memtable default_Options = Inr bs" "length bs \<le> u64_max"
    by (rule sample_table_encodes)
  have chars: "to_string 1 = ''1''" "to_string 0 = ''0''" "to_string 7 = ''7''" "hex_text [107] = ''6b''" "hex_text [118, 119] = ''7677''"
    by code_simp+
  have records: "Records sample_memtable = [\<lparr>r_key = [107], r_sequence = 7, r_type = kValue, r_value = [118, 119]\<rparr>]"
    by (simp add: sample_memtable_def Records_def)
  have one: "[0..<min 1 (length (Records sample_memtable))] = [0]"
    by (simp add: records)
  have args: "''000001.sst'' \<noteq> []" "1 \<le> u64_max"
    by simp_all
  note shown = sstable_dump_shows_table [OF bs(1) sample_memtable_wf(1) sample_file_benign(1) [OF bs(2)]
      sample_file_benign(2) args, unfolded chars(1) one]
  then have code: "exit_code (sstable_dump [''000001.sst'', ''1''] (Inr (sample_file bs))) = 0"
    by auto
  have "\<exists>before. out (sstable_dump [''000001.sst'', ''1''] (Inr (sample_file bs))) =
      before @ ''record[0] sequence=7 type=value key_hex=6b value_hex=7677'' @ new_line"
    using shown
    by (elim conjE exE) (rule ends_with_eq, assumption, (rule ends_with_append)+, simp add: records chars)
  then show ?thesis
    using bs(1) code by blast
qed

end
