(* ===== verification/DatabaseWrite.thy ===== *)
theory DatabaseWrite
  imports Database
begin

text \<open>
  The operations of \<^verbatim>\<open>src/database.cpp\<close> that change the database: writes, freezing and flushing the
  mutable MemTable, compaction, closing, and the work of the background thread.
\<close>

section \<open>The active log\<close>

text \<open>
  \<open>PosixWritableFile::OpenAppend\<close>: the file of the name, or a new empty one. Its status comes from
  the same script as those of the other opens for writing.
\<close>

definition OpenAppend :: "string \<Rightarrow> Env \<Rightarrow> nat result \<times> Env" where
  "OpenAppend path env =
     (if path = [] then (Inl (InvalidArgument ''WAL path must not be empty''), env)
      else let (s, rest) = next_status (env_creates env); env = env\<lparr>env_creates := rest\<rparr> in
      if \<not> ok s then (Inl s, env)
      else case env_names env path of
        Some i \<Rightarrow> (Inr i, env)
      | None \<Rightarrow>
        (let ((writes, syncs), scripts) = next_script (env_scripts env); i = env_next env in
         (Inr i,
          env\<lparr>env_names := (env_names env)(path \<mapsto> i),
              env_inodes := (env_inodes env)(i := \<lparr>wf_name = path, wf_data = [], wf_durable = [],
                wf_writes = writes, wf_syncs = syncs\<rparr>),
              env_next := i + 1, env_scripts := scripts\<rparr>)))"

definition open_wal :: "string \<Rightarrow> Options \<Rightarrow> Env \<Rightarrow> (nat \<times> WalWriter) result \<times> Env" where
  "open_wal path options env =
     (let (opened, env) = OpenAppend path env in
      (and_then opened (\<lambda>i. and_then (WalWriter_Open (Inr (env_inodes env i)) options) (\<lambda>w. Inr (i, w))), env))"

text \<open>A write through the handle; the file in the directory changes with it.\<close>

definition append_wal :: "WalRecord \<Rightarrow> SyncMode \<Rightarrow> nat \<times> WalWriter \<Rightarrow> Env \<Rightarrow> (nat \<times> WalWriter) \<times> status \<times> Env" where
  "append_wal rec mode = (\<lambda>(i, w) env.
     let (w, s) = Append rec mode w in
     ((i, w), s, case ww_file w of None \<Rightarrow> env | Some f \<Rightarrow> env\<lparr>env_inodes := (env_inodes env)(i := f)\<rparr>))"

definition OpenMutableWal :: "Database \<Rightarrow> Database \<times> status" where
  "OpenMutableWal db =
     (if db_wal db \<noteq> None then (db, Ok)
      else let (opened, env) = open_wal (WalPath (db_directory db) (db_mutable_generation db)) (db_options db)
        (db_environment db); db = db\<lparr>db_environment := env\<rparr> in
      case opened of
        Inl s \<Rightarrow> (db, s)
      | Inr new_wal \<Rightarrow>
        (let (s, env) = SyncDirectory (db_environment db); db = db\<lparr>db_environment := env\<rparr> in
         if \<not> ok s then (db, s) else (db\<lparr>db_wal := Some new_wal\<rparr>, Ok)))"

section \<open>Flush\<close>

definition FreezeMutable :: "bool \<Rightarrow> Database \<Rightarrow> Database \<times> status" where
  "FreezeMutable open_next_wal db =
     (if db_immutable db \<noteq> None \<or> MemTable_empty (db_mutable db) \<or> db_wal db = None
      then (db, InvalidArgument ''Mutable MemTable cannot be frozen'')
      else if db_mutable_generation db = - 1
      then (db, InvalidArgument ''MemTable generation space is exhausted'')
      else let
        frozen_generation = db_mutable_generation db;
        db = db\<lparr>db_wal := None,
          db_immutable := Some (new_ImmutableGeneration frozen_generation
            (WalPath (db_directory db) frozen_generation) (db_mutable db)),
          db_mutable_generation := db_mutable_generation db + 1,
          db_mutable := new_MemTable (db_options db)\<rparr>
      in if open_next_wal then OpenMutableWal db else (db, Ok))"

text \<open>The table of the immutable generation, published unless it is pending from an earlier attempt.\<close>

definition flush_table :: "FloatMath \<Rightarrow> ImmutableGeneration \<Rightarrow> Database \<Rightarrow> Database \<times> SSTableReader result" where
  "flush_table fm immutable db =
     (case ig_pending_table immutable of
        Some table \<Rightarrow> (db, Inr table)
      | None \<Rightarrow>
        (let (result, env) = PublishTable fm (db_directory db) (ig_generation immutable) (ig_memtable immutable)
           (db_options db) (db_environment db); db = db\<lparr>db_environment := env\<rparr> in
         case result of
           Inl s \<Rightarrow> (db, Inl s)
         | Inr table \<Rightarrow> (db\<lparr>db_immutable := Some (immutable\<lparr>ig_pending_table := Some table\<rparr>)\<rparr>, Inr table)))"

definition flush_edit :: "ImmutableGeneration \<Rightarrow> SSTableReader \<Rightarrow> Database \<Rightarrow> VersionEdit" where
  "flush_edit immutable table db =
     \<lparr>added_tables = [\<lparr>vt_level = 0, vt_metadata = rd_metadata table\<rparr>], deleted_file_numbers = [],
      edit_next_file_number = Some (db_mutable_generation db),
      edit_last_sequence = Some (ig_maximum_sequence immutable)\<rparr>"

definition publish_flush :: "FloatMath \<Rightarrow> ImmutableGeneration \<Rightarrow> Database \<Rightarrow> Database \<times> status" where
  "publish_flush fm immutable db =
     (if ig_version_published immutable then (db, Ok)
      else case flush_table fm immutable db of
        (db, Inl s) \<Rightarrow> (db, s)
      | (db, Inr table) \<Rightarrow>
        (case Version_Apply (db_version db) (flush_edit immutable table db) (db_options db) of
           Inl s \<Rightarrow> (db, s)
         | Inr candidate \<Rightarrow>
           (let (s, env) = PublishManifest (db_directory db) candidate (db_options db) (db_environment db);
              db = db\<lparr>db_environment := env\<rparr> in
            if \<not> ok s then (db, s)
            else (db\<lparr>db_tables := db_tables db @ [table], db_version := candidate,
                db_immutable := Some (immutable\<lparr>ig_pending_table := None, ig_version_published := True\<rparr>)\<rparr>, Ok))))"

definition remove_flushed_wal :: "Database \<Rightarrow> Database \<times> status" where
  "remove_flushed_wal db =
     (case db_immutable db of
        None \<Rightarrow> (db, Ok)
      | Some immutable \<Rightarrow>
        if ig_wal_removed_and_synced immutable then (db, Ok)
        else let (s, env) = RemoveFile (ig_wal_path immutable) (db_environment db); db = db\<lparr>db_environment := env\<rparr> in
          if \<not> ok s then (db, s)
          else let (s, env) = SyncDirectory (db_environment db); db = db\<lparr>db_environment := env\<rparr> in
          if \<not> ok s then (db, s)
          else (db\<lparr>db_immutable := Some (immutable\<lparr>ig_wal_removed_and_synced := True\<rparr>)\<rparr>, Ok))"

definition ContinueFlush :: "FloatMath \<Rightarrow> Database \<Rightarrow> Database \<times> status" where
  "ContinueFlush fm db =
     (case db_immutable db of
        None \<Rightarrow> (db, Ok)
      | Some immutable \<Rightarrow>
        (let (db, s) = publish_flush fm immutable db in
         if \<not> ok s then (db, s)
         else let (db, s) = remove_flushed_wal db in
         if \<not> ok s then (db, s)
         else let (db, s) = OpenMutableWal db in
         if \<not> ok s then (db, s)
         else (db\<lparr>db_immutable := None\<rparr>, Ok)))"

section \<open>Compaction\<close>

text \<open>The smallest and the largest key of the level-zero tables.\<close>

fun level_zero_range :: "VersionTable list \<Rightarrow> (bytes \<times> bytes) option \<Rightarrow> (bytes \<times> bytes) option" where
  "level_zero_range [] keys = keys"
| "level_zero_range (t # ts) keys =
     level_zero_range ts
       (if vt_level t \<noteq> 0 then keys
        else case keys of
          None \<Rightarrow> Some (md_minimum_key (vt_metadata t), md_maximum_key (vt_metadata t))
        | Some (lo, hi) \<Rightarrow> Some (min lo (md_minimum_key (vt_metadata t)), max hi (md_maximum_key (vt_metadata t))))"

definition selected :: "bytes \<times> bytes \<Rightarrow> VersionTable \<Rightarrow> bool" where
  "selected keys t \<longleftrightarrow>
     (let overlaps = (vt_level t = 1 \<and> md_maximum_key (vt_metadata t) \<ge> fst keys \<and>
        md_minimum_key (vt_metadata t) \<le> snd keys)
      in \<not> (vt_level t \<noteq> 0 \<and> \<not> overlaps))"

fun select_inputs ::
  "bytes \<times> bytes \<Rightarrow> (VersionTable \<times> SSTableReader) list \<Rightarrow> CompactionInput list \<times> CompactionState \<Rightarrow>
     (CompactionInput list \<times> CompactionState) result" where
  "select_inputs keys [] acc = Inr acc"
| "select_inputs keys ((t, reader) # rest) acc =
     (if md_generation (rd_metadata reader) \<noteq> table_generation t
      then Inl (DatabaseCorruption ''table reader order is inconsistent'')
      else if \<not> selected keys t then select_inputs keys rest acc
      else let (inputs, st) = acc;
        inputs = inputs @ [\<lparr>ci_level = vt_level t, ci_table = Some reader\<rparr>];
        st = st\<lparr>cs_input_file_numbers := insort_insert (table_generation t) (cs_input_file_numbers st),
          cs_cleanup_paths := cs_cleanup_paths st @ [rd_path reader]\<rparr> in
      if cst_input_bytes (cs_stats st) > - 1 - md_file_size (vt_metadata t)
      then Inl (InvalidArgument ''compaction byte count overflows'')
      else select_inputs keys rest (inputs, st\<lparr>cs_stats := (cs_stats st)\<lparr>cst_input_bytes :=
          cst_input_bytes (cs_stats st) + md_file_size (vt_metadata t)\<rparr>\<rparr>))"

definition PrepareCompaction :: "Database \<Rightarrow> Database \<times> status" where
  "PrepareCompaction db =
     (if db_compaction db \<noteq> None \<or> length (db_tables db) \<noteq> length (version_tables (db_version db))
      then (db, DatabaseCorruption ''table readers and Version disagree'')
      else case level_zero_range (version_tables (db_version db)) None of
        None \<Rightarrow> (db\<lparr>db_last_compaction_statistics := empty_CompactionStats\<rparr>, Ok)
      | Some keys \<Rightarrow>
        (case select_inputs keys (zip (version_tables (db_version db)) (db_tables db))
            ([], new_CompactionState\<lparr>cs_first_output_file_number := next_file_number (db_version db)\<rparr>) of
           Inl s \<Rightarrow> (db, s)
         | Inr (inputs, st) \<Rightarrow>
           (case BuildCompactionOutputs inputs (db_options db) True of
              Inl s \<Rightarrow> (db, s)
            | Inr (outputs, build_stats) \<Rightarrow>
              if length outputs > unat (- 1 - cs_first_output_file_number st)
              then (db, InvalidArgument ''compaction file numbers overflow'')
              else let stats = (cs_stats st)\<lparr>
                  cst_input_files := word_of_nat (length (cs_input_file_numbers st)),
                  cst_input_records := input_records build_stats,
                  cst_output_records := output_records build_stats,
                  cst_duplicate_records_dropped := duplicate_records_dropped build_stats,
                  cst_tombstones_dropped := tombstones_dropped build_stats\<rparr>
                in (db\<lparr>db_compaction := Some (st\<lparr>cs_output_memtables := outputs, cs_build_stats := build_stats,
                      cs_stats := stats\<rparr>)\<rparr>, Ok))))"

text \<open>\<open>ContinueCompaction\<close> works on the state in place: what a failing step has changed remains.\<close>

definition publish_outputs :: "FloatMath \<Rightarrow> CompactionState \<Rightarrow> Database \<Rightarrow> Database \<times> status" where
  "publish_outputs fm st db =
     (if cs_output_memtables st \<noteq> [] \<and> cs_published_outputs st = []
      then let (r, env) = PublishCompactionTables fm (db_directory db) (cs_first_output_file_number st)
          (cs_output_memtables st) (db_options db) (db_environment db); db = db\<lparr>db_environment := env\<rparr> in
        case r of
          Inl s \<Rightarrow> (db, s)
        | Inr readers \<Rightarrow> (db\<lparr>db_compaction := Some (st\<lparr>cs_published_outputs := readers\<rparr>)\<rparr>, Ok)
      else (db, Ok))"

fun add_output_bytes :: "SSTableReader list \<Rightarrow> u64 \<Rightarrow> u64 \<times> bool" where
  "add_output_bytes [] n = (n, True)"
| "add_output_bytes (t # ts) n =
     (if n > - 1 - md_file_size (rd_metadata t) then (n, False)
      else add_output_bytes ts (n + md_file_size (rd_metadata t)))"

definition compaction_edit :: "CompactionState \<Rightarrow> VersionEdit" where
  "compaction_edit st =
     \<lparr>added_tables = map (\<lambda>t. \<lparr>vt_level = 1, vt_metadata = rd_metadata t\<rparr>) (cs_published_outputs st),
      deleted_file_numbers = cs_input_file_numbers st,
      edit_next_file_number = (if cs_published_outputs st \<noteq> []
        then Some (cs_first_output_file_number st + word_of_nat (length (cs_published_outputs st))) else None),
      edit_last_sequence = None\<rparr>"

definition prepare_candidate :: "CompactionState \<Rightarrow> Database \<Rightarrow> Database \<times> status" where
  "prepare_candidate st db =
     (if cs_candidate_ready st then (db, Ok)
      else let (bytes, fits) = add_output_bytes (cs_published_outputs st) (cst_output_bytes (cs_stats st));
        st = st\<lparr>cs_stats := (cs_stats st)\<lparr>cst_output_bytes := bytes\<rparr>\<rparr> in
      if \<not> fits
      then (db\<lparr>db_compaction := Some st\<rparr>, InvalidArgument ''compaction byte count overflows'')
      else let st = st\<lparr>cs_stats := (cs_stats st)\<lparr>cst_output_files := word_of_nat (length (cs_published_outputs st))\<rparr>\<rparr> in
      case Version_Apply (db_version db) (compaction_edit st) (db_options db) of
        Inl s \<Rightarrow> (db\<lparr>db_compaction := Some st\<rparr>, s)
      | Inr candidate \<Rightarrow> (db\<lparr>db_compaction := Some (st\<lparr>cs_candidate := candidate, cs_candidate_ready := True\<rparr>)\<rparr>, Ok))"

text \<open>\<open>std::sort\<close> by generation; generations of live tables are distinct.\<close>

definition live_tables :: "CompactionState \<Rightarrow> SSTableReader list \<Rightarrow> SSTableReader list" where
  "live_tables st tables =
     sort_key (\<lambda>t. md_generation (rd_metadata t))
       (filter (\<lambda>t. md_generation (rd_metadata t) \<notin> set (cs_input_file_numbers st)) tables @ cs_published_outputs st)"

text \<open>
  The readers of the outputs move to the tables of the database. \<open>published_outputs\<close> keeps its
  length, which is all that is read of it afterwards, and so do the entries here.
\<close>

definition publish_compaction :: "CompactionState \<Rightarrow> Database \<Rightarrow> Database \<times> status" where
  "publish_compaction st db =
     (if cs_version_published st then (db, Ok)
      else let (s, env) = PublishManifest (db_directory db) (cs_candidate st) (db_options db) (db_environment db);
        db = db\<lparr>db_environment := env\<rparr> in
      if \<not> ok s then (db, s)
      else let
        db = db\<lparr>db_tables := live_tables st (db_tables db), db_version := cs_candidate st\<rparr>;
        st = st\<lparr>cs_version_published := True\<rparr> in
      if cs_output_memtables st \<noteq> []
      then (db\<lparr>db_wal := None, db_mutable_generation := next_file_number (db_version db),
          db_compaction := Some (st\<lparr>cs_cleanup_paths := cs_cleanup_paths st @
              [WalPath (db_directory db) (db_mutable_generation db)], cs_wal_generation_advanced := True\<rparr>)\<rparr>, Ok)
      else (db\<lparr>db_compaction := Some st\<rparr>, Ok))"

text \<open>The removal loop: how many of the paths were removed, and the status it ends with.\<close>

fun remove_paths :: "string list \<Rightarrow> Env \<Rightarrow> nat \<times> status \<times> Env" where
  "remove_paths [] env = (0, Ok, env)"
| "remove_paths (path # paths) env =
     (let (s, env) = RemoveFile path env in
      if \<not> ok s then (0, s, env)
      else let (n, s, env) = remove_paths paths env in (n + 1, s, env))"

definition clean_up :: "CompactionState \<Rightarrow> Database \<Rightarrow> Database \<times> status" where
  "clean_up st db =
     (let (n, s, env) = remove_paths (drop (cs_cleanup_index st) (cs_cleanup_paths st)) (db_environment db);
        st = st\<lparr>cs_cleanup_index := cs_cleanup_index st + n\<rparr>;
        db = db\<lparr>db_environment := env, db_compaction := Some st\<rparr> in
      if \<not> ok s then (db, s)
      else if cs_cleanup_synced st then (db, Ok)
      else let (s, env) = SyncDirectory (db_environment db); db = db\<lparr>db_environment := env\<rparr> in
      if \<not> ok s then (db, s) else (db\<lparr>db_compaction := Some (st\<lparr>cs_cleanup_synced := True\<rparr>)\<rparr>, Ok))"

definition finish_compaction :: "CompactionState \<Rightarrow> Database \<Rightarrow> Database \<times> status" where
  "finish_compaction st db =
     (let (db, s) = (if cs_wal_generation_advanced st then OpenMutableWal db else (db, Ok)) in
      if \<not> ok s then (db, s)
      else let stats = (cs_stats st)\<lparr>cst_bytes_reclaimed :=
          (if cst_input_bytes (cs_stats st) > cst_output_bytes (cs_stats st)
           then cst_input_bytes (cs_stats st) - cst_output_bytes (cs_stats st) else 0)\<rparr>
        in (db\<lparr>db_last_compaction_statistics := stats, db_compaction := None\<rparr>, Ok))"

text \<open>One stage on the compaction state the previous one left.\<close>

definition compaction_stage ::
  "(CompactionState \<Rightarrow> Database \<Rightarrow> Database \<times> status) \<Rightarrow> Database \<times> status \<Rightarrow> Database \<times> status" where
  "compaction_stage stage = (\<lambda>(db, s).
     if \<not> ok s then (db, s)
     else case db_compaction db of None \<Rightarrow> (db, s) | Some st \<Rightarrow> stage st db)"

definition ContinueCompaction :: "FloatMath \<Rightarrow> Database \<Rightarrow> Database \<times> status" where
  "ContinueCompaction fm db =
     compaction_stage finish_compaction
       (compaction_stage clean_up
         (compaction_stage publish_compaction
           (compaction_stage prepare_candidate
             (compaction_stage (publish_outputs fm) (db, Ok)))))"

section \<open>The operations\<close>

definition FlushLocked :: "FloatMath \<Rightarrow> Database \<Rightarrow> Database \<times> status" where
  "FlushLocked fm db =
     (if \<not> ok (db_status db) then (db, db_status db)
      else let (db, s) = ContinueCompaction fm db in
      if \<not> ok s then (db, s)
      else if db_immutable db = None \<and> MemTable_empty (db_mutable db) then (db, Ok)
      else let (db, s) = (if db_immutable db = None then FreezeMutable False db else (db, Ok)) in
      if \<not> ok s then (db, s) else ContinueFlush fm db)"

text \<open>
  \<open>Flush\<close> and \<open>Compact\<close> wait until the background thread is idle and then run to the end; here they
  run at such a moment.
\<close>

definition Database_Flush :: "FloatMath \<Rightarrow> Database \<Rightarrow> Database \<times> status" where
  "Database_Flush fm db =
     (if \<not> IsRunningLocked db then (db, Closed ''database is not running'')
      else let (db, s) = FlushLocked fm db in
      (if ok s then db\<lparr>db_background_status := Ok\<rparr> else db, s))"

definition CompactLocked :: "FloatMath \<Rightarrow> Database \<Rightarrow> Database \<times> status" where
  "CompactLocked fm db =
     (if \<not> ok (db_status db) then (db, db_status db)
      else if db_compaction db \<noteq> None then ContinueCompaction fm db
      else let (db, s) = (if db_immutable db \<noteq> None \<or> \<not> MemTable_empty (db_mutable db)
          then FlushLocked fm db else (db, Ok)) in
      if \<not> ok s then (db, s)
      else if db_immutable db \<noteq> None \<or> \<not> MemTable_empty (db_mutable db) \<or> db_wal db = None
      then (db, DatabaseCorruption ''compaction requires an empty active WAL generation'')
      else let (db, s) = PrepareCompaction db in
      if \<not> ok s \<or> db_compaction db = None then (db, s) else ContinueCompaction fm db)"

definition Database_Compact :: "FloatMath \<Rightarrow> Database \<Rightarrow> Database \<times> status" where
  "Database_Compact fm db =
     (if \<not> IsRunningLocked db then (db, Closed ''database is not running'')
      else let (db, s) = CompactLocked fm db in
      (if ok s then db\<lparr>db_background_status := Ok\<rparr> else db, s))"


definition ScheduleBackgroundWorkLocked :: "Database \<Rightarrow> Database" where
  "ScheduleBackgroundWorkLocked db =
     (if \<not> background_maintenance (db_options db) \<or> db_stop_background db then db
      else db\<lparr>db_background_work_requested := True,
        db_background_statistics := (db_background_statistics db)\<lparr>work_scheduled := True\<rparr>\<rparr>)"

text \<open>The maintenance a write does first when there is no background thread.\<close>

definition maintain_before_write :: "FloatMath \<Rightarrow> Database \<Rightarrow> Database \<times> status" where
  "maintain_before_write fm db =
     (if background_maintenance (db_options db) then (db, Ok)
      else let (db, s) = ContinueCompaction fm db in
      if \<not> ok s then (db, s)
      else let (db, s) = ContinueFlush fm db in
      if \<not> ok s then (db, s)
      else if \<not> MemTable_empty (db_mutable db) \<and>
        unat (ApproximateDataSize (db_mutable db)) \<ge> memtable_size_limit (db_options db)
      then FlushLocked fm db else (db, Ok))"

text \<open>A full mutable MemTable in front of an immutable one: the write waits for the background thread.\<close>

definition write_waits :: "Database \<Rightarrow> bool" where
  "write_waits db \<longleftrightarrow> background_maintenance (db_options db) \<and> db_immutable db \<noteq> None \<and>
     unat (ApproximateDataSize (db_mutable db)) \<ge> memtable_size_limit (db_options db) \<and>
     ok (db_background_status db) \<and> IsRunningLocked db"

definition apply_write :: "ValueType \<Rightarrow> u64 \<Rightarrow> bytes \<Rightarrow> bytes \<Rightarrow> Database \<Rightarrow> Database \<times> status" where
  "apply_write type sequence key value db =
     (let (mt, s) = (if type = kValue then MemTable.Put sequence key value (db_mutable db)
                     else MemTable.Delete sequence key (db_mutable db));
        db = db\<lparr>db_mutable := mt\<rparr> in
      if \<not> ok s
      then let s = DatabaseCorruption ''WAL append succeeded but Mutable MemTable apply failed'' in
        (db\<lparr>db_status := s\<rparr>, s)
      else (db, Ok))"

definition after_write :: "FloatMath \<Rightarrow> Database \<Rightarrow> Database \<times> status" where
  "after_write fm db =
     (if unat (ApproximateDataSize (db_mutable db)) < memtable_size_limit (db_options db) then (db, Ok)
      else if \<not> background_maintenance (db_options db) then FlushLocked fm db
      else if db_immutable db \<noteq> None then (db, Ok)
      else let (db, s) = FreezeMutable True db;
        db = (if \<not> ok s then db\<lparr>db_background_status := s, db_background_statistics :=
          (db_background_statistics db)\<lparr>failures := failures (db_background_statistics db) + 1\<rparr>\<rparr> else db)
      in (ScheduleBackgroundWorkLocked db, Ok))"

definition log_and_apply :: "FloatMath \<Rightarrow> WalRecord \<Rightarrow> SyncMode \<Rightarrow> Database \<Rightarrow> Database \<times> status" where
  "log_and_apply fm rec mode db =
     (if db_last_sequence db = - 1 then (db, InvalidArgument ''sequence number space is exhausted'')
      else case db_wal db of
        None \<Rightarrow> (db, IOError ''database has no active WAL'')
      | Some wal \<Rightarrow>
        (let db = db\<lparr>db_last_sequence := db_last_sequence db + 1\<rparr>;
           rec = rec\<lparr>w_sequence := db_last_sequence db\<rparr>;
           (wal, s, env) = append_wal rec mode wal (db_environment db);
           db = db\<lparr>db_wal := Some wal, db_environment := env\<rparr> in
         if \<not> ok s then (db\<lparr>db_status := s\<rparr>, s)
         else let (db, s) = apply_write (w_type rec) (w_sequence rec) (w_key rec) (w_value rec) db in
         if \<not> ok s then (db, s) else after_write fm db))"

text \<open>
  \<open>None\<close> when the call waits; it continues once the background thread has changed the state. Nothing
  has happened before the wait: the maintenance above is for the mode without that thread.
\<close>

definition Database_Write ::
  "FloatMath \<Rightarrow> ValueType \<Rightarrow> bytes \<Rightarrow> bytes \<Rightarrow> SyncMode \<Rightarrow> Database \<Rightarrow> (Database \<times> status) option" where
  "Database_Write fm type key value mode db =
     (let rec = \<lparr>w_type = type, w_sequence = 1, w_key = key, w_value = value\<rparr>;
          validation = ValidateWalRecord rec (db_options db) in
      if \<not> ok validation then Some (db, validation)
      else if \<not> IsRunningLocked db then Some (db, Closed ''database is not running'')
      else if \<not> ok (db_status db) then Some (db, db_status db)
      else if mode \<noteq> kSync \<and> mode \<noteq> kAsync then Some (db, InvalidArgument ''write sync mode is invalid'')
      else let (db, s) = maintain_before_write fm db in
      if \<not> ok s then Some (db, s)
      else if write_waits db then None
      else if \<not> IsRunningLocked db then Some (db, Closed ''database is not running'')
      else if background_maintenance (db_options db) \<and> \<not> ok (db_background_status db)
      then Some (db, db_background_status db)
      else Some (log_and_apply fm rec mode db))"

definition Database_Put :: "FloatMath \<Rightarrow> bytes \<Rightarrow> bytes \<Rightarrow> SyncMode \<Rightarrow> Database \<Rightarrow> (Database \<times> status) option" where
  "Database_Put fm key value mode db = Database_Write fm kValue key value mode db"

definition Database_Delete :: "FloatMath \<Rightarrow> bytes \<Rightarrow> SyncMode \<Rightarrow> Database \<Rightarrow> (Database \<times> status) option" where
  "Database_Delete fm key mode db = Database_Write fm kDeletion key [] mode db"

text \<open>
  \<open>Close\<close>, with the background thread already joined. A second caller waits for the first to finish
  and returns its result.
\<close>

definition close_work :: "FloatMath \<Rightarrow> Database \<Rightarrow> Database \<times> status" where
  "close_work fm db =
     (let (db, s) = ContinueCompaction fm db in
      if \<not> ok s then (db, s)
      else let (db, s) = ContinueFlush fm db in
      if \<not> ok s \<or> MemTable_empty (db_mutable db) then (db, s)
      else let (db, s) = FreezeMutable False db in
      if \<not> ok s then (db, s) else ContinueFlush fm db)"

definition Database_Close :: "FloatMath \<Rightarrow> Database \<Rightarrow> Database \<times> status" where
  "Database_Close fm db =
     (if db_state db \<noteq> kRunning then (db, db_close_status db)
      else let (db, s) = close_work fm (db\<lparr>db_state := kClosing, db_stop_background := True\<rparr>) in
      (db\<lparr>db_wal := None, db_close_status := s, db_state := kClosed, db_background_work_requested := False,
          db_background_work_running := False, db_background_statistics :=
            (db_background_statistics db)\<lparr>work_scheduled := False, work_running := False\<rparr>\<rparr>, s))"

section \<open>The background thread\<close>

text \<open>
  \<open>RunBackgroundWorkLocked\<close> publishes the table with the lock released, takes the lock again and
  continues. These are two steps: between them other operations may run, and the second checks that
  the immutable generation is still the same.
\<close>

definition background_publish :: "FloatMath \<Rightarrow> Database \<Rightarrow> Database \<times> (u64 \<times> SSTableReader result) option" where
  "background_publish fm db =
     (case db_immutable db of
        None \<Rightarrow> (db, None)
      | Some immutable \<Rightarrow>
        if ig_version_published immutable \<or> ig_pending_table immutable \<noteq> None then (db, None)
        else let (r, env) = PublishTable fm (db_directory db) (ig_generation immutable) (ig_memtable immutable)
            (db_options db) (db_environment db)
          in (db\<lparr>db_environment := env\<rparr>, Some (ig_generation immutable, r)))"

definition background_adopt :: "(u64 \<times> SSTableReader result) option \<Rightarrow> Database \<Rightarrow> Database \<times> status" where
  "background_adopt table_result db =
     (case table_result of
        None \<Rightarrow> (db, Ok)
      | Some (generation, Inl s) \<Rightarrow> (db, s)
      | Some (generation, Inr table) \<Rightarrow>
        (case db_immutable db of
           None \<Rightarrow> (db, DatabaseCorruption ''Immutable generation changed during background Flush'')
         | Some immutable \<Rightarrow>
           if ig_generation immutable \<noteq> generation
           then (db, DatabaseCorruption ''Immutable generation changed during background Flush'')
           else (db\<lparr>db_immutable := Some (immutable\<lparr>ig_pending_table := Some table\<rparr>)\<rparr>, Ok)))"

definition level_table_count :: "u32 \<Rightarrow> Database \<Rightarrow> nat" where
  "level_table_count level db = length (filter (\<lambda>t. vt_level t = level) (version_tables (db_version db)))"

definition background_compact :: "FloatMath \<Rightarrow> Database \<Rightarrow> Database \<times> status" where
  "background_compact fm db =
     (if \<not> (\<not> db_stop_background db \<and> MemTable_empty (db_mutable db) \<and> db_immutable db = None \<and>
         level_table_count 0 db \<ge> level0_compaction_trigger (db_options db))
      then (db, Ok)
      else let (db, s) = PrepareCompaction db in
      if \<not> ok s \<or> db_compaction db = None then (db, s)
      else let (db, s) = ContinueCompaction fm db in
      if \<not> ok s then (db, s)
      else (db\<lparr>db_background_statistics := (db_background_statistics db)\<lparr>compactions_completed :=
          compactions_completed (db_background_statistics db) + 1\<rparr>\<rparr>, Ok))"

definition background_finish ::
  "FloatMath \<Rightarrow> bool \<Rightarrow> (u64 \<times> SSTableReader result) option \<Rightarrow> Database \<Rightarrow> Database \<times> status" where
  "background_finish fm had_immutable table_result db =
     (let (db, s) = background_adopt table_result db in
      if \<not> ok s then (db, s)
      else let (db, s) = ContinueFlush fm db in
      if \<not> ok s then (db, s)
      else let db = (if had_immutable then db\<lparr>db_background_statistics := (db_background_statistics db)\<lparr>flushes_completed :=
          flushes_completed (db_background_statistics db) + 1\<rparr>\<rparr> else db)
      in background_compact fm db)"

text \<open>The two halves of an iteration of \<open>BackgroundLoop\<close>.\<close>

definition background_begin :: "FloatMath \<Rightarrow> Database \<Rightarrow> Database \<times> (u64 \<times> SSTableReader result) option" where
  "background_begin fm db =
     background_publish fm (db\<lparr>db_background_work_requested := False, db_background_work_running := True,
       db_background_statistics := (db_background_statistics db)\<lparr>work_scheduled := False, work_running := True\<rparr>\<rparr>)"

definition background_end ::
  "FloatMath \<Rightarrow> bool \<Rightarrow> (u64 \<times> SSTableReader result) option \<Rightarrow> Database \<Rightarrow> Database" where
  "background_end fm had_immutable table_result db =
     (let (db, s) = background_finish fm had_immutable table_result db;
        stats = db_background_statistics db;
        stats = (if \<not> ok s then stats\<lparr>failures := failures stats + 1\<rparr> else stats) in
      db\<lparr>db_background_status := s, db_background_work_running := False,
        db_background_statistics := stats\<lparr>work_running := False\<rparr>\<rparr>)"

definition WaitForBackgroundWork :: "Database \<Rightarrow> status option" where
  "WaitForBackgroundWork db =
     (if \<not> IsRunningLocked db then Some (Closed ''database is not running'')
      else if db_background_work_requested db \<or> db_background_work_running db then None
      else Some (db_background_status db))"

end
