(* ===== verification/DatabaseEnv.thy ===== *)
theory DatabaseEnv
  imports DatabaseWrite
begin

text \<open>
  What the directory operations leave in place, as far as the database relies on it: files stay
  well-formed and the outcomes scripted for later reads stay honest, that is, a read of a table
  never fails with NotFound (the POSIX files report \<open>IOError\<close>). Readers opened from such a
  directory are honest too.
\<close>

named_theorems env_frame

section \<open>Reads consume their script\<close>

definition reads_within :: "RecoveryFile \<Rightarrow> RecoveryFile \<Rightarrow> bool" where
  "reads_within f f' \<longleftrightarrow> set (rf_reads f') \<subseteq> set (rf_reads f)"

lemma reads_within_refl [simp]: "reads_within f f"
  by (simp add: reads_within_def)

lemma reads_within_trans: "reads_within f g \<Longrightarrow> reads_within g h \<Longrightarrow> reads_within f h"
  by (auto simp: reads_within_def)

lemma honest_within: "reads_within f f' \<Longrightarrow> honest_file f \<Longrightarrow> honest_file f'"
  by (auto simp: reads_within_def honest_file_def)

lemma ReadRegion_within: "ReadRegion f off n = (f', r) \<Longrightarrow> reads_within f f'"
  using read_loop_data [of "[]" "unat n" "unat off" f]
  by (fastforce simp: ReadRegion_def ReadAllAt_def reads_within_def split: if_splits prod.splits sum.splits)

lemma ReadBlock_within: "ReadBlock i st rd = (rd', st', r) \<Longrightarrow> reads_within (rd_file rd) (rd_file rd')"
  by (auto simp: ReadBlock_def Let_def split: if_splits prod.splits dest: ReadRegion_within)

lemma read_frames_within: "read_frames options f n = Inr (f', md, enc) \<Longrightarrow> reads_within f f'"
  by (auto simp: read_frames_def with_region_Inr and_then_Inr split: if_splits
      dest!: ReadRegion_within intro: reads_within_trans)

lemma load_bloom_within: "load_bloom f md = Inr (f', md', bloom) \<Longrightarrow> reads_within f f'"
  by (auto simp: load_bloom_def with_region_Inr and_then_Inr split: if_splits dest!: ReadRegion_within)

lemma verify_blocks_within: "verify_blocks bs rd v = Inr (rd', v') \<Longrightarrow> reads_within (rd_file rd) (rd_file rd')"
proof (induction bs arbitrary: rd v)
  case (Cons b bs)
  then show ?case
    by (auto simp: and_then_Inr split: prod.splits sum.splits dest!: ReadBlock_within intro: reads_within_trans)
qed simp

lemma SSTableReader_Open_within:
  assumes "SSTableReader_Open (Inr f) path options = Inr rd"
  shows "reads_within f (rd_file rd)"
proof -
  have "Size f = (Inr n, g) \<Longrightarrow> reads_within f g" for n g
    by (auto simp: Size_def Let_def reads_within_def split: prod.splits if_splits)
  then show ?thesis
    using assms
    by (auto simp: SSTableReader_Open_def verify_table_def Let_def and_then_Inr split: if_splits prod.splits sum.splits
        dest!: read_frames_within load_bloom_within verify_blocks_within) (meson reads_within_trans)
qed

lemma SSTableReader_Get_within:
  "SSTableReader_Get rd key = (rd', st, res) \<Longrightarrow> reads_within (rd_file rd) (rd_file rd')"
  by (auto simp: SSTableReader_Get_def Let_def split: if_splits prod.splits sum.splits dest!: ReadBlock_within)

lemma get_tables_within:
  "get_tables key ts best op = (ts', op', r) \<Longrightarrow> list_all2 (\<lambda>t t'. reads_within (rd_file t) (rd_file t')) ts ts'"
proof (induction ts arbitrary: best op ts' op' r)
  case (Cons t ts)
  then show ?case
    by (auto simp: Let_def list_all2_refl split: prod.splits if_splits dest!: SSTableReader_Get_within)
qed simp

section \<open>Directories\<close>

definition honest_opens :: "Env \<Rightarrow> bool" where
  "honest_opens env \<longleftrightarrow> (\<forall>x \<in> set (env_opens env). \<forall>s. ReadFails s \<in> set (fst (snd x)) \<longrightarrow> \<not> IsNotFound s)"

definition env_ok :: "Env \<Rightarrow> bool" where
  "env_ok env \<longleftrightarrow> env_wf env \<and> honest_opens env"

lemma OpenReadOnly_honest:
  assumes "OpenReadOnly path env = (r, env')" and "honest_opens env"
  shows "honest_opens env'" and "r = Inr f \<Longrightarrow> honest_file f"
  using assms
  by (auto simp: OpenReadOnly_def honest_opens_def honest_file_def Let_def
      split: prod.splits list.splits if_splits option.splits)

text \<open>The other operations do not touch the scripts of the reads.\<close>

lemma opens_frame [env_frame]:
  "CreateTruncated p env = (r, env') \<Longrightarrow> env_opens env' = env_opens env"
  "Rename p q env = (s, env') \<Longrightarrow> env_opens env' = env_opens env"
  "RemoveFile p env = (s, env') \<Longrightarrow> env_opens env' = env_opens env"
  "SyncDirectory env = (s, env') \<Longrightarrow> env_opens env' = env_opens env"
  "env_write i bs env = (s, env') \<Longrightarrow> env_opens env' = env_opens env"
  "env_sync i env = (s, env') \<Longrightarrow> env_opens env' = env_opens env"
  "OpenAppend p env = (r, env') \<Longrightarrow> env_opens env' = env_opens env"
  by (auto simp: CreateTruncated_def Rename_def RemoveFile_def SyncDirectory_def env_write_def env_sync_def OpenAppend_def
      Let_def split: prod.splits if_splits option.splits)

lemma BestEffortRemove_opens [env_frame]: "env_opens (BestEffortRemove p env) = env_opens env"
  using opens_frame(3) [of p env] by (cases "RemoveFile p env") (simp add: BestEffortRemove_def)

lemma BestEffortRemove_all_opens [env_frame]: "env_opens (BestEffortRemove_all ps env) = env_opens env"
  unfolding BestEffortRemove_all_def by (induction ps arbitrary: env) (simp_all add: BestEffortRemove_opens)

lemma publish_file_opens: "publish_file p bs env = (s, env') \<Longrightarrow> env_opens env' = env_opens env"
  by (auto simp: publish_file_def Let_def env_frame split: prod.splits sum.splits if_splits dest!: opens_frame)

lemma PublishManifest_opens: "PublishManifest d v options env = (s, env') \<Longrightarrow> env_opens env' = env_opens env"
  by (auto simp: PublishManifest_def split: if_splits sum.splits dest: publish_file_opens)

lemma write_outputs_opens: "write_outputs ps qs env = (s, env') \<Longrightarrow> env_opens env' = env_opens env"
  by (induction qs arbitrary: env)
    (auto simp: Let_def env_frame split: prod.splits sum.splits if_splits dest!: opens_frame)

lemma rename_outputs_opens: "rename_outputs ps qs env = (s, env') \<Longrightarrow> env_opens env' = env_opens env"
  by (induction qs arbitrary: env) (auto simp: Let_def env_frame split: prod.splits if_splits dest!: opens_frame)

lemma honest_opens_cong: "env_opens env' = env_opens env \<Longrightarrow> honest_opens env' = honest_opens env"
  by (simp add: honest_opens_def)

text \<open>Files stay well-formed.\<close>

lemma wf_frame:
  "Rename p q env = (s, env') \<Longrightarrow> env_wf env \<Longrightarrow> env_wf env'"
  "RemoveFile p env = (s, env') \<Longrightarrow> env_wf env \<Longrightarrow> env_wf env'"
  "SyncDirectory env = (s, env') \<Longrightarrow> env_wf env \<Longrightarrow> env_wf env'"
  by (fastforce simp: Rename_def RemoveFile_def SyncDirectory_def env_wf_def Let_def
      split: prod.splits if_splits option.splits)+

lemma BestEffortRemove_wf: "env_wf env \<Longrightarrow> env_wf (BestEffortRemove p env)"
  using wf_frame(2) [of p env] by (cases "RemoveFile p env") (simp add: BestEffortRemove_def)

lemma BestEffortRemove_all_wf: "env_wf env \<Longrightarrow> env_wf (BestEffortRemove_all ps env)"
  unfolding BestEffortRemove_all_def by (induction ps arbitrary: env) (simp_all add: BestEffortRemove_wf)

lemma inode_wf:
  "env_wf env \<Longrightarrow> wal_device.device_ok f \<Longrightarrow> env_wf (env\<lparr>env_inodes := (env_inodes env)(i := f)\<rparr>)"
  by (simp add: env_wf_def)

lemma CreateTruncated_wf:
  assumes "CreateTruncated p env = (r, env')" and "env_wf env"
  shows "env_wf env'" and "r = Inr i \<Longrightarrow> wal_device.device_ok (env_inodes env' i)"
  using assms
  by (auto simp: CreateTruncated_def env_wf_def wal_device.device_ok_def Let_def less_Suc_eq
      split: prod.splits if_splits)

lemma written_wf:
  assumes "env_wf env" and "wal_device.device_ok (env_inodes env i)"
  shows "env_write i bs env = (s, env') \<Longrightarrow> env_wf env' \<and> wal_device.device_ok (env_inodes env' i)"
    and "env_sync i env = (s, env') \<Longrightarrow> env_wf env' \<and> wal_device.device_ok (env_inodes env' i)"
  using assms inode_wf by (auto elim!: env_write_cases env_sync_cases)

lemma write_outputs_wf: "write_outputs ps qs env = (s, env') \<Longrightarrow> env_wf env \<Longrightarrow> env_wf env'"
proof (induction qs arbitrary: env)
  case (Cons a qs)
  obtain r e1 where e1: "CreateTruncated (temporary_path a) env = (r, e1)" by force
  note c = CreateTruncated_wf [OF e1 Cons.prems(2)]
  show ?case
  proof (cases r)
    case (Inl t)
    then show ?thesis
      using Cons.prems(1) e1 c(1) BestEffortRemove_all_wf by auto
  next
    case (Inr i)
    obtain s2 e2 where e2: "env_write i (po_encoded a) e1 = (s2, e2)" by force
    obtain s3 e3 where e3: "env_sync i e2 = (s3, e3)" by force
    note w = written_wf(1) [OF c(1) c(2) [OF Inr] e2]
    note y = written_wf(2) [OF conjunct1 [OF w] conjunct2 [OF w] e3]
    show ?thesis
      using Cons.prems(1) Cons.IH [of e3] e1 Inr e2 e3 w y BestEffortRemove_all_wf by (auto split: if_splits)
  qed
qed simp

lemma rename_outputs_wf: "rename_outputs ps qs env = (s, env') \<Longrightarrow> env_wf env \<Longrightarrow> env_wf env'"
proof (induction qs arbitrary: env)
  case (Cons a qs)
  then show ?case
    by (auto simp: Let_def split: prod.splits if_splits dest!: wf_frame(1) intro: BestEffortRemove_all_wf)
qed simp

lemma PublishManifest_wf: "PublishManifest d v options env = (s, env') \<Longrightarrow> env_wf env \<Longrightarrow> env_wf env'"
  by (auto simp: PublishManifest_def split: if_splits sum.splits dest: publish_file_safe(1))

lemma OpenAppend_wf:
  assumes "OpenAppend p env = (r, env')" and "env_wf env"
  shows "env_wf env'" and "r = Inr i \<Longrightarrow> wal_device.device_ok (env_inodes env' i)"
  using assms
  by (auto simp: OpenAppend_def env_wf_def wal_device.device_ok_def Let_def less_Suc_eq
      split: prod.splits if_splits option.splits)

lemma env_ok_frame:
  "PublishManifest d v options env = (s, env') \<Longrightarrow> env_ok env \<Longrightarrow> env_ok env'"
  "RemoveFile p env = (s, env') \<Longrightarrow> env_ok env \<Longrightarrow> env_ok env'"
  "SyncDirectory env = (s, env') \<Longrightarrow> env_ok env \<Longrightarrow> env_ok env'"
  "OpenAppend p env = (r, env') \<Longrightarrow> env_ok env \<Longrightarrow> env_ok env'"
  by (auto simp: env_ok_def honest_opens_def dest: PublishManifest_wf PublishManifest_opens wf_frame opens_frame OpenAppend_wf)

lemma remove_paths_ok: "remove_paths ps env = (n, s, env') \<Longrightarrow> env_ok env \<Longrightarrow> env_ok env' \<and> n \<le> length ps"
proof (induction ps arbitrary: env n s env')
  case (Cons p ps)
  obtain s1 e1 where e1: "RemoveFile p env = (s1, e1)"
    by force
  obtain n2 s2 e2 where e2: "remove_paths ps e1 = (n2, s2, e2)"
    by (metis prod_cases3)
  show ?case
    using Cons.prems Cons.IH [OF e2] e1 e2 env_ok_frame(2) [OF e1] by (auto split: if_splits)
qed simp

section \<open>Published tables\<close>

lemma opened_honest:
  assumes "OpenReadOnly path env = (opened, env')" and "honest_opens env"
    and "SSTableReader_Open opened path options = Inr rd"
  shows "honest_file (rd_file rd)"
proof -
  obtain f where "opened = Inr f"
    using assms(3) by (cases opened) (auto simp: SSTableReader_Open_def split: if_splits)
  then show ?thesis
    using OpenReadOnly_honest(2) [OF assms(1,2)] SSTableReader_Open_within assms(3) honest_within by blast
qed

lemma PublishTable_env_ok:
  assumes "env_ok env" and "keys_sorted (entries mt)"
    and run: "PublishTable fm directory generation mt options env = (r, env')"
  shows "env_ok env'" and "r = Inr rd \<Longrightarrow> honest_file (rd_file rd)"
proof -
  have "honest_opens env"
    using assms(1) by (simp add: env_ok_def)
  then have "honest_opens env' \<and> (\<forall>rd. r = Inr rd \<longrightarrow> honest_file (rd_file rd))"
    using run
    by (auto simp: PublishTable_def Let_def split: if_splits sum.splits prod.splits
        dest!: publish_file_opens honest_opens_cong elim: OpenReadOnly_honest(1) opened_honest)
  then show "env_ok env'" "r = Inr rd \<Longrightarrow> honest_file (rd_file rd)"
    using PublishTable_published [OF _ assms(2) run] assms(1) by (auto simp: env_ok_def table_published_def Let_def)
qed

lemma open_outputs_honest:
  "open_outputs options outs env = (r, env') \<Longrightarrow> honest_opens env \<Longrightarrow>
     honest_opens env' \<and> (\<forall>rds. r = Inr rds \<longrightarrow> (\<forall>rd \<in> set rds. honest_file (rd_file rd)))"
proof (induction outs arbitrary: env r env')
  case (Cons a outs)
  obtain opened e1 where op: "OpenReadOnly (final_path a) env = (opened, e1)"
    by force
  note e1 = OpenReadOnly_honest(1) [OF op Cons.prems(2)] and rd = opened_honest [OF op Cons.prems(2)]
  show ?case
  proof (cases "SSTableReader_Open opened (final_path a) options")
    case (Inl s)
    then show ?thesis
      using Cons.prems(1) op e1 by auto
  next
    case (Inr t)
    obtain q e2 where rest: "open_outputs options outs e1 = (q, e2)"
      by force
    then show ?thesis
      using Cons.prems(1) Cons.IH [OF rest e1] rd [OF Inr] op Inr by (auto simp: and_then_Inr)
  qed
qed simp

lemma PublishCompactionTables_env_ok:
  assumes "env_ok env" and "\<forall>mt \<in> set outputs. mt_wf mt \<and> mt_options mt = options"
    and run: "PublishCompactionTables fm directory first outputs options env = (r, env')"
  shows "env_ok env'" and "r = Inr rds \<Longrightarrow> \<forall>rd \<in> set rds. honest_file (rd_file rd)"
proof -
  have "honest_opens env"
    using assms(1) by (simp add: env_ok_def)
  then have "honest_opens env' \<and> (\<forall>rds. r = Inr rds \<longrightarrow> (\<forall>rd \<in> set rds. honest_file (rd_file rd)))"
    using run
    by (auto simp: PublishCompactionTables_def Let_def split: if_splits sum.splits prod.splits
        dest!: write_outputs_opens rename_outputs_opens opens_frame honest_opens_cong open_outputs_honest)
  moreover have "env_wf env'"
    using run assms(1) unfolding env_ok_def
    by (auto simp: PublishCompactionTables_def Let_def split: if_splits sum.splits prod.splits
        dest!: write_outputs_wf rename_outputs_wf wf_frame open_outputs_same env_wf_same)
  ultimately show "env_ok env'" "r = Inr rds \<Longrightarrow> \<forall>rd \<in> set rds. honest_file (rd_file rd)"
    by (simp_all add: env_ok_def)
qed

end
