(* ===== verification/DatabaseView.thy ===== *)
theory DatabaseView
  imports Database
begin

text \<open>
  The abstract content of a database: a partial map from keys to values. A key has the value of its
  newest version, and none when that version is a tombstone. What matters of the layers is only the
  set of versions they hold, in which no two versions share a sequence number.
\<close>

section \<open>The newest version of a key\<close>

fun latest_version :: "bytes \<Rightarrow> MemTableRecord list \<Rightarrow> MemTableRecord option" where
  "latest_version key [] = None"
| "latest_version key (r # rs) =
     (case latest_version key rs of
        None \<Rightarrow> if r_key r = key then Some r else None
      | Some q \<Rightarrow> if r_key r = key \<and> r_sequence q < r_sequence r then Some r else Some q)"

definition version_value :: "MemTableRecord option \<Rightarrow> bytes option" where
  "version_value v = (case v of None \<Rightarrow> None | Some r \<Rightarrow> if r_type r = kValue then Some (r_value r) else None)"

definition db_map :: "Database \<Rightarrow> bytes \<Rightarrow> bytes option" where
  "db_map db key = version_value (latest_version key (all_records db))"

text \<open>A version that no version of its key in the set is newer than.\<close>

definition top_version :: "MemTableRecord set \<Rightarrow> bytes \<Rightarrow> MemTableRecord \<Rightarrow> bool" where
  "top_version R key r \<longleftrightarrow> r \<in> R \<and> r_key r = key \<and> (\<forall>q \<in> R. r_key q = key \<longrightarrow> r_sequence q \<le> r_sequence r)"

lemma newest_version_top: "newest_version db key r \<longleftrightarrow> top_version (set (all_records db)) key r"
  by (simp add: newest_version_def top_version_def)

lemma latest_version_None: "latest_version key rs = None \<longleftrightarrow> (\<forall>r \<in> set rs. r_key r \<noteq> key)"
  by (induction rs) (auto split: option.splits)

lemma latest_version_top: "latest_version key rs = Some r \<Longrightarrow> top_version (set rs) key r"
proof (induction rs arbitrary: r)
  case (Cons a rs)
  show ?case
  proof (cases "latest_version key rs")
    case None
    have "r = a" "r_key a = key"
      using Cons.prems None by (simp_all split: if_splits)
    moreover have "\<forall>r \<in> set rs. r_key r \<noteq> key"
      using None latest_version_None by blast
    ultimately show ?thesis
      by (simp add: top_version_def)
  next
    case (Some q)
    then have "r = (if r_key a = key \<and> r_sequence q < r_sequence a then a else q)"
      using Cons.prems by (auto split: if_splits)
    then show ?thesis
      using Cons.IH [OF Some] by (auto simp: top_version_def)
  qed
qed simp

lemma top_version_unique:
  "inj_on r_sequence R \<Longrightarrow> top_version R key r \<Longrightarrow> top_version R key q \<Longrightarrow> r = q"
  by (simp add: top_version_def inj_on_def) (metis order_antisym)

lemma latest_version_Some_iff:
  assumes "inj_on r_sequence (set rs)"
  shows "latest_version key rs = Some r \<longleftrightarrow> top_version (set rs) key r"
proof
  assume r: "top_version (set rs) key r"
  then obtain q where q: "latest_version key rs = Some q"
    by (cases "latest_version key rs") (auto simp: latest_version_None top_version_def)
  then show "latest_version key rs = Some r"
    using top_version_unique [OF assms r latest_version_top [OF q]] by simp
qed (rule latest_version_top)

text \<open>Versions may go as long as every key keeps its newest one, or had a tombstone and loses all.\<close>

lemma version_value_shrink:
  assumes inj: "inj_on r_sequence (set rs)" and sub: "set rs' \<subseteq> set rs"
    and keep: "\<And>r. top_version (set rs) key r \<Longrightarrow> r \<in> set rs' \<or> r_type r = kDeletion \<and> (\<forall>q \<in> set rs'. r_key q \<noteq> key)"
  shows "version_value (latest_version key rs') = version_value (latest_version key rs)"
proof (cases "latest_version key rs")
  case None
  then have "latest_version key rs' = None"
    using sub by (auto simp: latest_version_None)
  then show ?thesis
    using None by simp
next
  case (Some r)
  note top = latest_version_top [OF Some]
  from keep [OF top] show ?thesis
  proof (elim disjE conjE)
    assume "r \<in> set rs'"
    then have "top_version (set rs') key r"
      using top sub by (auto simp: top_version_def)
    then show ?thesis
      using latest_version_Some_iff inj_on_subset [OF inj sub] Some by metis
  next
    assume "r_type r = kDeletion" "\<forall>q \<in> set rs'. r_key q \<noteq> key"
    then show ?thesis
      using Some by (simp add: version_value_def flip: latest_version_None)
  qed
qed

lemma version_value_same:
  assumes "inj_on r_sequence (set rs)" and "set rs' = set rs"
  shows "version_value (latest_version key rs') = version_value (latest_version key rs)"
  using assms by (intro version_value_shrink) (auto simp: top_version_def)

text \<open>A version newer than all replaces those of its key.\<close>

lemma latest_version_write:
  assumes inj: "inj_on r_sequence (set rs)" and new: "\<forall>q \<in> set rs. r_sequence q < r_sequence r"
    and r: "r \<in> set rs'" "set rs' \<subseteq> insert r (set rs)" and keep: "\<forall>q \<in> set rs. r_key q \<noteq> r_key r \<longrightarrow> q \<in> set rs'"
  shows "inj_on r_sequence (set rs')"
    and "latest_version key rs' = (if key = r_key r then Some r else latest_version key rs)"
proof -
  have "inj_on r_sequence (insert r (set rs))"
    using inj new by (subst inj_on_insert) auto
  then show inj': "inj_on r_sequence (set rs')"
    using inj_on_subset r(2) by blast
  show "latest_version key rs' = (if key = r_key r then Some r else latest_version key rs)"
  proof (cases "key = r_key r")
    case True
    have "\<forall>q \<in> set rs'. r_sequence q \<le> r_sequence r"
      using r(2) new by (auto intro: less_imp_le)
    then have "top_version (set rs') key r"
      using r True by (simp add: top_version_def)
    then show ?thesis
      using True latest_version_Some_iff [OF inj'] by simp
  next
    case False
    then have "top_version (set rs') key q \<longleftrightarrow> top_version (set rs) key q" for q
      using r(2) keep by (auto simp: top_version_def)
    then show ?thesis
      using False latest_version_Some_iff [OF inj] latest_version_Some_iff [OF inj'] by (metis option.exhaust)
  qed
qed

section \<open>What reads show of the map\<close>

lemma value_not_deletion: "r_type r = kValue \<longleftrightarrow> r_type r \<noteq> kDeletion"
  by (cases "r_type r") simp_all

lemma UserVisible_value:
  "ok (lr_status (UserVisible (found_result r))) \<longleftrightarrow> r_type r = kValue"
  "r_type r = kValue \<Longrightarrow> lr_value (UserVisible (found_result r)) = r_value r"
  "r_type r \<noteq> kValue \<Longrightarrow> IsNotFound (lr_status (UserVisible (found_result r)))"
  by (simp_all add: UserVisible_def deleted_def found_def found_result_def IsNotFound_def value_not_deletion)

lemma reads_right_map:
  assumes "inj_on r_sequence (set (all_records db))" and "reads_right db key res"
  shows "case db_map db key of Some v \<Rightarrow> ok (lr_status res) \<and> lr_value res = v | None \<Rightarrow> IsNotFound (lr_status res)"
proof (cases "latest_version key (all_records db)")
  case None
  then have "res = no_result (NotFound ''key does not exist'')"
    using assms(2) by (auto simp: reads_right_def latest_version_None)
  then show ?thesis
    using None by (simp add: db_map_def version_value_def)
next
  case (Some r)
  then have "\<exists>r \<in> set (all_records db). r_key r = key"
    using latest_version_top [OF Some] by (auto simp: top_version_def)
  then obtain q where q: "newest_version db key q" "res = UserVisible (found_result q)"
    using assms(2) by (auto simp: reads_right_def)
  then have "q = r"
    using top_version_unique [OF assms(1)] latest_version_top [OF Some] newest_version_top by blast
  then show ?thesis
    using q(2) Some UserVisible_value [of r] by (auto simp: db_map_def version_value_def)
qed

end
