(* ===== verification/Failures.thy ===== *)
theory Failures
  imports DatabaseWrite
begin

text \<open>
  A computation that returns no result returns an error: no \<open>Inl\<close> carries the status OK. Callers
  test the status only, so that a missing result with status OK would go unnoticed.
\<close>

definition proper :: "'a result \<Rightarrow> bool" where
  "proper r \<longleftrightarrow> (\<forall>s. r = Inl s \<longrightarrow> \<not> ok s)"

named_theorems proper_intros

lemma proper_Inr [simp, proper_intros]: "proper (Inr x)"
  by (simp add: proper_def)

lemma proper_Inl [simp]: "proper (Inl s) \<longleftrightarrow> \<not> ok s"
  by (simp add: proper_def)

lemma properD: "proper r \<Longrightarrow> r = Inl s \<Longrightarrow> \<not> ok s"
  by simp

lemma proper_and_then [proper_intros]: "proper r \<Longrightarrow> (\<And>x. r = Inr x \<Longrightarrow> proper (k x)) \<Longrightarrow> proper (and_then r k)"
  by (cases r) simp_all

lemma proper_or_fail [proper_intros]: "\<not> ok s \<Longrightarrow> (\<And>x. proper (k x)) \<Longrightarrow> proper (or_fail v s k)"
  by (cases v) simp_all

lemma proper_with_region [proper_intros]:
  "proper (snd r) \<Longrightarrow> (\<And>f bs. proper (k f bs)) \<Longrightarrow> proper (with_region r k)"
  by (cases r; cases "snd r") (auto simp: with_region_def)

lemma proper_if [proper_intros]: "(b \<Longrightarrow> proper x) \<Longrightarrow> (\<not> b \<Longrightarrow> proper y) \<Longrightarrow> proper (if b then x else y)"
  by simp

lemma proper_Let [proper_intros]: "proper (k x) \<Longrightarrow> proper (Let x k)"
  by (simp add: Let_def)

lemma proper_prod [proper_intros]: "(\<And>a b. proper (k a b)) \<Longrightarrow> proper (case p of (a, b) \<Rightarrow> k a b)"
  by (cases p) simp

lemma not_ok_errors [simp]: "\<not> ok (TableCorruption m)" "\<not> ok (DatabaseCorruption m)" "\<not> ok (CompactionCorruption m)"
  "\<not> ok (ManifestCorruption m)" "\<not> ok block_limit" "\<not> ok reused_sequence"
  by (simp_all add: TableCorruption_def DatabaseCorruption_def CompactionCorruption_def ManifestCorruption_def
      block_limit_def reused_sequence_def)

section \<open>Encoding\<close>

lemma proper_EncodeWalRecord [simp]: "proper (EncodeWalRecord r options)"
  using EncodeWalRecord_Inl_code [of r options] by (auto simp: proper_def IsInvalidArgument_def ok_def)

lemma proper_FinishBlock [simp]: "proper (FinishBlock b)"
  by (simp add: FinishBlock_def Let_def)

lemma proper_add_records [simp]: "proper (add_records options rs b)"
proof (induction rs arbitrary: b)
  case (Cons r rs)
  have "proper (add_record options r b)"
    unfolding add_record_def by (intro proper_intros) simp_all
  then show ?case
    using Cons by (simp add: proper_and_then)
qed simp

lemma proper_encode_index [simp]: "proper (encode_index es)"
proof -
  have "proper (encode_index_entries es p)" for p
    by (induction es arbitrary: p) (simp_all add: Let_def)
  then show ?thesis
    unfolding encode_index_def by (intro proper_intros) simp_all
qed

lemma proper_encode_bloom [simp]: "proper (encode_bloom fm rs options)"
proof -
  have "proper (Bloom_Create fm n rate)" for n rate
    by (simp add: Bloom_Create_def Let_def split: double.split)
  moreover have "proper (add_keys rs flt)" for flt
    by (induction rs arbitrary: flt) (simp_all add: proper_and_then Bloom_Add_def Let_def)
  moreover have "proper (EncodeBloomFilter flt)" for flt
    by (simp add: EncodeBloomFilter_def Let_def)
  ultimately show ?thesis
    unfolding encode_bloom_def by (intro proper_intros) simp_all
qed

lemma proper_EncodeTable [simp]: "proper (EncodeTable fm g mt options)"
proof -
  have "proper (table_layout g n b i l)" for n b i l
    unfolding table_layout_def by (intro proper_intros) (simp_all add: Let_def proper_or_fail)
  then show ?thesis
    unfolding EncodeTable_def by (intro proper_intros) simp_all
qed

section \<open>Reading\<close>

lemma proper_ReadRegion [simp]: "proper (snd (ReadRegion f off n))"
proof -
  have "proper (snd (read_loop f offset cnt acc))" for f offset cnt acc
  proof (induction f offset cnt acc rule: read_loop.induct)
    case (1 f offset cnt acc)
    then show ?case
      by (subst read_loop.simps) (auto simp: Let_def split: prod.split)
  qed
  then have "proper (snd (ReadAllAt f (unat off) (unat n)))"
    by (simp add: ReadAllAt_def)
  then show ?thesis
    by (auto simp: ReadRegion_def split: prod.splits sum.splits)
qed

lemma proper_decode_block: "proper (decode_block options e b)"
proof -
  have "proper (decode_block_records options n i k bs)" for n i k bs
    by (induction n arbitrary: i k bs) (auto simp: split: sum.splits prod.splits intro!: proper_intros)
  then show ?thesis
    unfolding decode_block_def by (intro proper_intros) simp_all
qed

lemma proper_ReadBlock: "ReadBlock i st rd = (rd', st', r) \<Longrightarrow> proper r"
  by (auto simp: ReadBlock_def Let_def proper_decode_block split: prod.splits if_splits intro!: proper_and_then)
    (metis proper_ReadRegion snd_conv)

lemma proper_verify_blocks: "proper (verify_blocks bs rd v)"
proof (induction bs arbitrary: rd v)
  case (Cons b bs)
  have records: "proper (verify_records bloom rs v)" for bloom rs v
    by (induction rs arbitrary: v) simp_all
  have "proper (verify_block e i bloom rs v)" for e i bloom rs v
    unfolding verify_block_def by (intro proper_intros) (simp_all add: records)
  then show ?case
    using Cons by (auto split: prod.split sum.split dest: proper_ReadBlock intro!: proper_and_then)
qed simp

lemma proper_read_frames: "proper (read_frames options f n)"
proof -
  have "proper (decode_table_header h)" for h
    unfolding decode_table_header_def by (intro proper_intros) simp_all
  moreover have "proper (decode_table_footer g m hdr)" for g m hdr
    unfolding decode_table_footer_def by (intro proper_intros) simp_all
  moreover have "proper (check_index_header md bs)" for md bs
    unfolding check_index_header_def by (intro proper_intros) simp_all
  ultimately show ?thesis
    unfolding read_frames_def by (intro proper_intros) simp_all
qed

lemma proper_load_bloom: "proper (load_bloom f md)"
proof -
  have "proper (check_bloom md bs)" for bs
    by (simp add: check_bloom_def split: sum.split)
  then show ?thesis
    unfolding load_bloom_def by (intro proper_intros) simp_all
qed

lemma proper_load_index: "proper (load_index options md bs)"
proof -
  have "proper (decode_index_entry options md m r x i)" for m r x i
    unfolding decode_index_entry_def by (intro proper_intros) simp_all
  then have "proper (decode_index_entries options md m n r x i)" for m n r x i
    by (induction n arbitrary: r x i) (auto intro!: proper_intros)
  moreover have "proper (MaximumBlockSize options)"
    unfolding MaximumBlockSize_def by (intro proper_intros) simp_all
  ultimately show ?thesis
    unfolding load_index_def by (intro proper_intros) simp_all
qed

lemma proper_SSTableReader_Open:
  assumes "proper opened"
  shows "proper (SSTableReader_Open opened path options)"
proof -
  have verify: "proper (verify_table rd)" for rd
    unfolding verify_table_def by (intro proper_intros) (simp_all add: proper_verify_blocks)
  have size: "Size f = (Inl s, f') \<Longrightarrow> \<not> ok s" for f s f'
    by (auto simp: Size_def Let_def split: prod.splits if_splits)
  show ?thesis
    unfolding SSTableReader_Open_def using assms
    by (auto split: prod.split sum.split dest: size
        intro!: proper_and_then proper_read_frames proper_load_bloom proper_load_index verify)
qed

lemma OpenReadOnly_proper: "OpenReadOnly path env = (r, env') \<Longrightarrow> proper r"
  by (auto simp: OpenReadOnly_def Let_def split: prod.splits if_splits option.splits)

section \<open>Publication and compaction\<close>

lemma PublishTable_proper: "PublishTable fm d g mt options env = (r, env') \<Longrightarrow> proper r"
  by (auto simp: PublishTable_def Let_def split: if_splits sum.splits prod.splits
      dest: properD [OF proper_EncodeTable] OpenReadOnly_proper intro!: proper_SSTableReader_Open)

lemma open_outputs_proper: "open_outputs options outs env = (r, env') \<Longrightarrow> proper r"
proof (induction outs arbitrary: env r env')
  case (Cons a outs)
  obtain opened e1 where op: "OpenReadOnly (final_path a) env = (opened, e1)"
    by force
  note rd = proper_SSTableReader_Open [OF OpenReadOnly_proper [OF op], of "final_path a" options]
  obtain q e2 where rest: "open_outputs options outs e1 = (q, e2)"
    by force
  then show ?case
    using Cons.prems Cons.IH [OF rest] rd op by (auto split: sum.splits intro!: proper_and_then)
qed simp

lemma PublishCompactionTables_proper: "PublishCompactionTables fm d n outs options env = (r, env') \<Longrightarrow> proper r"
proof -
  have prepare: "proper (prepare_outputs fm d options n outs)" for n outs
    by (induction outs arbitrary: n) (auto simp: Let_def intro!: proper_and_then)
  show "PublishCompactionTables fm d n outs options env = (r, env') \<Longrightarrow> ?thesis"
    by (auto simp: PublishCompactionTables_def Let_def split: if_splits sum.splits prod.splits
        dest: properD [OF prepare] open_outputs_proper)
qed

lemma Version_Apply_proper: "proper (Version_Apply v edit options)"
proof -
  have "proper (collect_deletions ds ns)" for ds ns
    by (induction ns arbitrary: ds) simp_all
  moreover have "proper (add_tables v ds ts as)" for ds ts as
    by (induction as arbitrary: ts) simp_all
  ultimately show ?thesis
    unfolding Version_Apply_def by (intro proper_intros) simp_all
qed

end
