(* ===== verification/DatabaseInv.thy ===== *)
theory DatabaseInv
  imports DatabaseEnv DatabaseView Failures
begin

text \<open>
  The invariant of a database without a background thread, and that the steps of a flush keep it
  and the abstract map. It links the layers, the tables and the version in the manifest, and says
  what an interrupted flush or compaction may rely on when it is resumed.
\<close>

section \<open>The invariant\<close>

definition table_ok :: "Options \<Rightarrow> SSTableReader \<Rightarrow> bool" where
  "table_ok options t \<longleftrightarrow> reader_sound t \<and> summary_sound t \<and> rd_options t = options \<and> honest_file (rd_file t)"

text \<open>
  No two versions share a sequence number, and none is newer than the last one assigned. Every
  version is stored once, except that the immutable MemTable is kept for a while after its table is
  in the version.
\<close>

definition unflushed_records :: "Database \<Rightarrow> MemTableRecord list" where
  "unflushed_records db =
     (case db_immutable db of None \<Rightarrow> [] | Some ig \<Rightarrow> if ig_version_published ig then [] else Records (ig_memtable ig))"

definition stored_once :: "Database \<Rightarrow> bool" where
  "stored_once db \<longleftrightarrow> distinct (Records (db_mutable db) @ unflushed_records db @ table_versions db)"

definition layers_inv :: "Database \<Rightarrow> bool" where
  "layers_inv db \<longleftrightarrow> db_ok db \<and> (\<forall>t \<in> set (db_tables db). table_ok (db_options db) t) \<and>
     inj_on r_sequence (set (all_records db)) \<and> (\<forall>r \<in> set (all_records db). r_sequence r \<le> db_last_sequence db) \<and>
     stored_once db"

text \<open>The readers and the version list the same tables in the order of their generations.\<close>

definition tables_match :: "Version \<Rightarrow> SSTableReader list \<Rightarrow> bool" where
  "tables_match version tables \<longleftrightarrow>
     list_all2 (\<lambda>t rd. ManifestMetadataMatches (vt_metadata t) (rd_metadata rd)) (version_tables version) tables \<and>
     sorted (map table_generation (version_tables version))"

text \<open>A pending table holds the immutable MemTable; once the version is published, the tables do.\<close>

definition flush_inv :: "Database \<Rightarrow> bool" where
  "flush_inv db \<longleftrightarrow> (\<forall>ig. db_immutable db = Some ig \<longrightarrow>
     (\<forall>t. ig_pending_table ig = Some t \<longrightarrow> table_ok (db_options db) t \<and> table_records t = Records (ig_memtable ig)) \<and>
     (ig_version_published ig \<longrightarrow> set (Records (ig_memtable ig)) \<subseteq> set (table_versions db)))"

definition is_input :: "CompactionState \<Rightarrow> SSTableReader \<Rightarrow> bool" where
  "is_input st t \<longleftrightarrow> md_generation (rd_metadata t) \<in> set (cs_input_file_numbers st)"

definition input_versions :: "CompactionState \<Rightarrow> Database \<Rightarrow> MemTableRecord list" where
  "input_versions st db = concat (map table_records (filter (is_input st) (db_tables db)))"

definition other_versions :: "CompactionState \<Rightarrow> Database \<Rightarrow> MemTableRecord list" where
  "other_versions st db = concat (map table_records (filter (\<lambda>t. \<not> is_input st t) (db_tables db)))"

text \<open>
  Before its version is published, a compaction has the newest versions of its inputs as outputs,
  the tables it leaves alone share no key with the inputs, and the candidate is the version that
  the outputs give.
\<close>

definition outputs_published :: "CompactionState \<Rightarrow> Options \<Rightarrow> bool" where
  "outputs_published st options \<longleftrightarrow> map table_records (cs_published_outputs st) = map Records (cs_output_memtables st) \<and>
     (\<forall>t \<in> set (cs_published_outputs st). table_ok options t)"

definition unpublished_inv :: "CompactionState \<Rightarrow> Database \<Rightarrow> bool" where
  "unpublished_inv st db \<longleftrightarrow> unambiguous (mset (input_versions st db)) \<and>
     outputs_hold (db_options db) (cs_output_memtables st) (filter (kept True) (newest (input_versions st db))) \<and>
     r_key ` set (input_versions st db) \<inter> r_key ` set (other_versions st db) = {} \<and>
     (cs_published_outputs st = [] \<and> \<not> cs_candidate_ready st \<or> outputs_published st (db_options db)) \<and>
     (cs_candidate_ready st \<longrightarrow> Version_Apply (db_version db) (compaction_edit st) (db_options db) = Inr (cs_candidate st))"

definition stage_inv :: "CompactionState \<Rightarrow> Database \<Rightarrow> bool" where
  "stage_inv st db \<longleftrightarrow>
     (if cs_version_published st
      then cs_candidate_ready st \<and> (cs_output_memtables st = [] \<or> cs_published_outputs st \<noteq> [])
      else unpublished_inv st db)"

definition compaction_inv :: "Database \<Rightarrow> bool" where
  "compaction_inv db \<longleftrightarrow> (\<forall>st. db_compaction db = Some st \<longrightarrow>
     MemTable_empty (db_mutable db) \<and> db_immutable db = None \<and> stage_inv st db)"

definition wal_inv :: "Database \<Rightarrow> bool" where
  "wal_inv db \<longleftrightarrow> (\<forall>i w. db_wal db = Some (i, w) \<longrightarrow> (\<exists>f. ww_file w = Some f \<and> wal_device.device_ok f))"

definition options_inv :: "Options \<Rightarrow> bool" where
  "options_inv options \<longleftrightarrow> options_fit options \<and> compaction_output_size_limit options \<le> size_max"

definition db_inv :: "Database \<Rightarrow> bool" where
  "db_inv db \<longleftrightarrow> layers_inv db \<and> flush_inv db \<and> compaction_inv db \<and> wal_inv db \<and> env_ok (db_environment db) \<and>
     tables_match (db_version db) (db_tables db) \<and> ok (ValidateVersion (db_version db) (db_options db)) \<and>
     options_inv (db_options db)"

text \<open>A step that users cannot see.\<close>

definition keeps :: "Database \<Rightarrow> Database \<Rightarrow> bool" where
  "keeps db db' \<longleftrightarrow> db_inv db' \<and> db_map db' = db_map db \<and> db_options db' = db_options db \<and> db_state db' = db_state db"

lemma keeps_refl [simp]: "db_inv db \<Longrightarrow> keeps db db"
  by (simp add: keeps_def)

lemma keeps_trans: "keeps db db1 \<Longrightarrow> keeps db1 db2 \<Longrightarrow> keeps db db2"
  by (simp add: keeps_def)

lemma keeps_inv: "keeps db db' \<Longrightarrow> db_inv db'"
  by (simp add: keeps_def)

lemmas layer_defs = all_records_def immutable_records_def table_versions_def db_layers_def
lemmas inv_defs = layers_inv_def db_ok_def layer_defs stored_once_def unflushed_records_def flush_inv_def compaction_inv_def stage_inv_def unpublished_inv_def
  input_versions_def other_versions_def wal_inv_def

text \<open>The parts of the invariant that a change of the environment or of the log leaves alone.\<close>

lemma inv_frame [simp]:
  "layers_inv (db\<lparr>db_environment := env\<rparr>) = layers_inv db" "layers_inv (db\<lparr>db_wal := w\<rparr>) = layers_inv db"
  "flush_inv (db\<lparr>db_environment := env\<rparr>) = flush_inv db" "flush_inv (db\<lparr>db_wal := w\<rparr>) = flush_inv db"
  "compaction_inv (db\<lparr>db_environment := env\<rparr>) = compaction_inv db" "compaction_inv (db\<lparr>db_wal := w\<rparr>) = compaction_inv db"
  "wal_inv (db\<lparr>db_environment := env\<rparr>) = wal_inv db"
  "all_records (db\<lparr>db_environment := env\<rparr>) = all_records db" "all_records (db\<lparr>db_wal := w\<rparr>) = all_records db"
  by (simp_all add: inv_defs)

lemma db_inv_env: "db_inv (db\<lparr>db_environment := env\<rparr>) \<longleftrightarrow> db_inv db \<and> env_ok env" if "db_inv db"
  using that by (simp add: db_inv_def)

lemma keeps_env: "db_inv db \<Longrightarrow> env_ok env \<Longrightarrow> keeps db (db\<lparr>db_environment := env\<rparr>)"
  by (simp add: keeps_def db_inv_env) (simp add: db_map_def fun_eq_iff)

lemma keeps_wal:
  "db_inv db \<Longrightarrow> w = None \<or> (\<exists>f. ww_file (snd (the w)) = Some f \<and> wal_device.device_ok f) \<Longrightarrow> keeps db (db\<lparr>db_wal := w\<rparr>)"
  by (auto simp: keeps_def db_inv_def wal_inv_def db_map_def fun_eq_iff)

section \<open>The active log\<close>

lemma OpenAppend_Inl: "OpenAppend p env = (Inl s, env') \<Longrightarrow> \<not> ok s"
  by (auto simp: OpenAppend_def Let_def split: if_splits prod.splits option.splits)

lemma OpenMutableWal_keeps:
  assumes "db_inv db" and run: "OpenMutableWal db = (db', s)"
  shows "keeps db db'" and "ok s \<Longrightarrow> db_wal db' \<noteq> None" and "db_compaction db' = db_compaction db"
    and "db_immutable db' = db_immutable db" and "db_mutable db' = db_mutable db"
    and "db_tables db' = db_tables db" and "db_version db' = db_version db"
proof -
  have "keeps db db' \<and> (ok s \<longrightarrow> db_wal db' \<noteq> None) \<and> db_compaction db' = db_compaction db \<and>
    db_immutable db' = db_immutable db \<and> db_mutable db' = db_mutable db \<and>
    db_tables db' = db_tables db \<and> db_version db' = db_version db"
  proof (cases "db_wal db")
    case (Some w)
    then show ?thesis
      using assms by (auto simp: OpenMutableWal_def)
  next
    case None
    let ?path = "WalPath (db_directory db) (db_mutable_generation db)"
    obtain r e1 where e1: "OpenAppend ?path (db_environment db) = (r, e1)"
      by force
    obtain t e2 where e2: "SyncDirectory e1 = (t, e2)"
      by force
    have ok: "env_ok e1" "env_ok e2"
      using env_ok_frame(4) [OF e1] env_ok_frame(3) [OF e2] assms(1) by (auto simp: db_inv_def)
    show ?thesis
    proof (cases r)
      case (Inl u)
      then show ?thesis
        using run None e1 keeps_env [OF assms(1) ok(1)] OpenAppend_Inl [of ?path "db_environment db" u e1]
        by (auto simp: OpenMutableWal_def open_wal_def)
    next
      case (Inr i)
      have "wal_device.device_ok (env_inodes e1 i)"
        using OpenAppend_wf(2) [OF e1 _ Inr] assms(1) by (simp add: db_inv_def env_ok_def)
      then have wal: "keeps (db\<lparr>db_environment := e2\<rparr>)
          (db\<lparr>db_environment := e2, db_wal := Some (i, new_WalWriter (db_options db) (Some (env_inodes e1 i)))\<rparr>)"
        using keeps_wal [of "db\<lparr>db_environment := e2\<rparr>"] assms(1) ok(2)
        by (simp add: db_inv_env new_WalWriter_def)
      show ?thesis
        using run None e1 e2 Inr keeps_env [OF assms(1) ok(2)] keeps_trans [OF keeps_env [OF assms(1) ok(2)] wal]
        by (auto simp: OpenMutableWal_def open_wal_def WalWriter_Open_def Let_def split: if_splits)
    qed
  qed
  then show "keeps db db'" "ok s \<Longrightarrow> db_wal db' \<noteq> None" "db_compaction db' = db_compaction db"
    "db_immutable db' = db_immutable db" "db_mutable db' = db_mutable db"
    "db_tables db' = db_tables db" "db_version db' = db_version db"
    by blast+
qed

section \<open>Flush\<close>

lemma new_MemTable_empty [simp]: "MemTable_empty (new_MemTable options)" "Records (new_MemTable options) = []"
  by (simp_all add: new_MemTable_facts MemTable_empty_Records)

lemma frozen_keeps:
  assumes inv: "db_inv db" and "db_immutable db = None" "\<not> MemTable_empty (db_mutable db)"
    and ig: "ig_memtable ig = db_mutable db" "ig_pending_table ig = None" "\<not> ig_version_published ig"
  shows "keeps db (db\<lparr>db_wal := None, db_immutable := Some ig, db_mutable_generation := g,
    db_mutable := new_MemTable (db_options db)\<rparr>)"
proof -
  let ?db = "db\<lparr>db_wal := None, db_immutable := Some ig, db_mutable_generation := g,
    db_mutable := new_MemTable (db_options db)\<rparr>"
  have same: "all_records ?db = all_records db"
    by (simp add: layer_defs assms(2) ig)
  have "db_compaction db = None"
    using inv assms(3) by (cases "db_compaction db") (auto simp: db_inv_def compaction_inv_def)
  then have "db_inv ?db"
    using inv same assms(2) ig
    by (simp add: db_inv_def inv_defs new_MemTable_facts) (auto intro: less_imp_le)
  then show ?thesis
    by (simp add: keeps_def db_map_def same fun_eq_iff)
qed

lemma FreezeMutable_keeps:
  assumes inv: "db_inv db" and run: "FreezeMutable open_next db = (db', s)"
  shows "keeps db db'"
proof -
  let ?ig = "new_ImmutableGeneration (db_mutable_generation db)
    (WalPath (db_directory db) (db_mutable_generation db)) (db_mutable db)"
  let ?db = "db\<lparr>db_wal := None, db_immutable := Some ?ig, db_mutable_generation := db_mutable_generation db + 1,
    db_mutable := new_MemTable (db_options db)\<rparr>"
  consider "db' = db" | "db_immutable db = None" "\<not> MemTable_empty (db_mutable db)"
      "db' = ?db \<or> OpenMutableWal ?db = (db', s)"
    using run by (auto simp: FreezeMutable_def Let_def split: if_splits)
  then show ?thesis
  proof cases
    case 2
    have "keeps db ?db"
      using inv 2(1,2) by (intro frozen_keeps) (simp_all add: new_ImmutableGeneration_def)
    then show ?thesis
      using 2(3) OpenMutableWal_keeps(1) keeps_trans keeps_inv by blast
  qed (use inv in simp)
qed


lemma flush_table_keeps:
  assumes inv: "db_inv db" and ig: "db_immutable db = Some ig" "\<not> ig_version_published ig"
    and run: "flush_table fm ig db = (db', r)"
  obtains ig' where "keeps db db'" "db_immutable db' = Some ig'" "ig_memtable ig' = ig_memtable ig"
    "\<not> ig_version_published ig'" "db_version db' = db_version db" "db_mutable_generation db' = db_mutable_generation db"
    "\<And>t. r = Inr t \<Longrightarrow> table_ok (db_options db) t \<and> table_records t = Records (ig_memtable ig)"
proof (cases "ig_pending_table ig")
  case (Some t)
  then show thesis
    using inv ig run by (intro that [of ig]) (auto simp: flush_table_def db_inv_def flush_inv_def)
next
  case None
  obtain q e where pub: "PublishTable fm (db_directory db) (ig_generation ig) (ig_memtable ig) (db_options db)
      (db_environment db) = (q, e)"
    by force
  have env: "env_ok (db_environment db)" "env_wf (db_environment db)" and mt: "keys_sorted (entries (ig_memtable ig))"
    using inv ig(1) by (auto simp: db_inv_def env_ok_def layers_inv_def db_ok_def mt_wf_def)
  have e: "keeps db (db\<lparr>db_environment := e\<rparr>)"
    by (rule keeps_env [OF inv PublishTable_env_ok(1) [OF env(1) mt pub]])
  show thesis
  proof (cases q)
    case (Inl s)
    then show thesis
      using run None pub e ig by (intro that [of ig]) (auto simp: flush_table_def)
  next
    case (Inr t)
    have t: "table_ok (db_options db) t" "table_records t = Records (ig_memtable ig)"
      using PublishTable_env_ok(2) [OF env(1) mt pub Inr] Inr
        table_published_reader [OF PublishTable_published [OF env(2) mt pub]]
      by (auto simp: table_ok_def holds_memtable_def)
    let ?ig = "ig\<lparr>ig_pending_table := Some t\<rparr>"
    let ?db = "db\<lparr>db_environment := e, db_immutable := Some ?ig\<rparr>"
    have same: "all_records ?db = all_records (db\<lparr>db_environment := e\<rparr>)"
      by (simp add: layer_defs ig(1))
    have "db_inv ?db"
      using keeps_inv [OF e] ig t by (auto simp: db_inv_def inv_defs)
    then have "keeps (db\<lparr>db_environment := e\<rparr>) ?db"
      using same by (simp add: keeps_def db_map_def fun_eq_iff)
    then show thesis
      using run None pub Inr ig t keeps_trans [OF e]
      by (intro that [of ?ig]) (auto simp: flush_table_def)
  qed
qed

lemma generations_of:
  assumes "list_all2 (\<lambda>t rd. ManifestMetadataMatches (vt_metadata t) (rd_metadata rd)) ts rds"
  shows "map (\<lambda>t. md_generation (rd_metadata t)) rds = map table_generation ts"
  using assms by (induction rule: list_all2_induct) (simp_all add: ManifestMetadataMatches_def)

text \<open>A table added by a flush comes last.\<close>

lemma Apply_flush:
  assumes run: "Version_Apply v (flush_edit ig table db) options = Inr v'" and match: "tables_match v tables"
  shows "tables_match v' (tables @ [table])" and "ok (ValidateVersion v' options)"
proof -
  note a = Version_Apply_cases [OF run, unfolded flush_edit_def VersionEdit.simps]
  then show "ok (ValidateVersion v' options)"
    by blast
  let ?t = "\<lparr>vt_level = 0, vt_metadata = rd_metadata table\<rparr>"
  have "\<forall>t \<in> set (version_tables v). table_generation t \<le> md_generation (rd_metadata table)"
    using a by (auto simp: ValidateVersion_ok_iff validate_tables_iff list_all_iff table_invalid_def Let_def not_le
        intro: less_imp_le order.strict_trans2)
  then have sorted: "sorted (map table_generation (version_tables v @ [?t]))"
    using match by (auto simp: tables_match_def sorted_append)
  then have "version_tables v' = version_tables v @ [?t]"
    using a by (simp add: sort_key_id_if_sorted)
  then show "tables_match v' (tables @ [table])"
    using match sorted by (simp add: tables_match_def list_all2_appendI ManifestMetadataMatches_def)
qed

lemma flushed_keeps:
  assumes inv: "db_inv db" and ig: "db_immutable db = Some ig" "ig_memtable ig' = ig_memtable ig" "ig_pending_table ig' = None"
      "\<not> ig_version_published ig" "ig_version_published ig'"
    and t: "table_ok (db_options db) t" "table_records t = Records (ig_memtable ig)"
    and v: "tables_match v (db_tables db @ [t])" "ok (ValidateVersion v (db_options db))"
  shows "keeps db (db\<lparr>db_tables := db_tables db @ [t], db_version := v, db_immutable := Some ig'\<rparr>)"
proof -
  let ?db = "db\<lparr>db_tables := db_tables db @ [t], db_version := v, db_immutable := Some ig'\<rparr>"
  have none: "db_compaction db = None"
    using inv ig(1) by (cases "db_compaction db") (auto simp: db_inv_def compaction_inv_def)
  have same: "set (all_records ?db) = set (all_records db)"
    using ig t(2) by (auto simp: layer_defs)
  have sorted: "records_sorted (Records (ig_memtable ig))"
    using t(1) by (simp add: table_ok_def reader_sound_def flip: t(2))
  have "r = q" if "r \<in> set (Records (ig_memtable ig))" "q \<in> set (Records (ig_memtable ig))" "r_key q = r_key r" for r q
    using sorted that by (metis distinct_map inj_onD strict_sorted_iff)
  moreover have layers: "db_layers db" "db_ok db"
    using inv by (simp_all add: db_inv_def layers_inv_def db_ok_def)
  ultimately have "db_layers ?db"
    unfolding db_layers_def immutable_records_def table_versions_def using ig t(2) by (auto simp: ball_Un)
  moreover have "sound_tables (db_options db) (db_tables db @ [t])"
    using layers(2) t(1) by (auto simp: db_ok_def sound_tables_def table_ok_def)
  ultimately have "db_ok ?db"
    using layers(2) ig by (simp add: db_ok_def)
  moreover have "stored_once ?db"
    using inv ig t(2) by (auto simp: db_inv_def layers_inv_def stored_once_def unflushed_records_def table_versions_def)
  ultimately have "layers_inv ?db"
    using inv t(1) unfolding db_inv_def layers_inv_def same by auto
  then have "db_inv ?db"
    using inv ig t(2) v none by (auto simp: db_inv_def flush_inv_def compaction_inv_def wal_inv_def table_versions_def)
  moreover have "db_map ?db = db_map db"
    using inv version_value_same [OF _ same] by (auto simp: db_map_def db_inv_def layers_inv_def)
  ultimately show ?thesis
    by (simp add: keeps_def)
qed

lemma publish_flush_keeps:
  assumes inv: "db_inv db" and ig: "db_immutable db = Some ig"
    and run: "publish_flush fm ig db = (db', s)"
  shows "keeps db db' \<and> (\<exists>ig'. db_immutable db' = Some ig' \<and> (ok s \<longrightarrow> ig_version_published ig'))"
proof (cases "ig_version_published ig")
  case True
  then show ?thesis
    using inv ig run by (auto simp: publish_flush_def)
next
  case False
  obtain db1 r where ft: "flush_table fm ig db = (db1, r)"
    by force
  obtain ig1 where db1: "keeps db db1" "db_immutable db1 = Some ig1" "ig_memtable ig1 = ig_memtable ig"
      "\<not> ig_version_published ig1" "db_version db1 = db_version db"
      "db_mutable_generation db1 = db_mutable_generation db"
    and table: "\<And>t. r = Inr t \<Longrightarrow> table_ok (db_options db) t \<and> table_records t = Records (ig_memtable ig)"
    by (rule flush_table_keeps [OF inv ig False ft]) (rule that)
  note inv1 = keeps_inv [OF db1(1)] and run = run [unfolded publish_flush_def ft prod.case]
  have opts: "db_options db1 = db_options db"
    using db1(1) by (simp add: keeps_def)
  show ?thesis
  proof (cases "r")
    case (Inl u)
    have "\<not> ok u"
      using ft Inl
      by (auto simp: flush_table_def Let_def split: option.splits prod.splits sum.splits dest!: PublishTable_proper)
    then show ?thesis
      using run False Inl db1(1,2) by auto
  next
    case (Inr t)
    show ?thesis
    proof (cases "Version_Apply (db_version db1) (flush_edit ig t db1) (db_options db1)")
      case apply_fails: (Inl u)
      then show ?thesis
        using run False Inr db1(1,2) properD [OF Version_Apply_proper] by fastforce
    next
      case candidate: (Inr v)
      obtain u e where m: "PublishManifest (db_directory db1) v (db_options db1) (db_environment db1) = (u, e)"
        by force
      have "env_ok e"
        using env_ok_frame(1) [OF m] inv1 by (simp add: db_inv_def)
      note e = keeps_env [OF inv1 this]
      note v = Apply_flush [OF candidate, of "db_tables db1"]
      have "keeps (db1\<lparr>db_environment := e\<rparr>) (db1\<lparr>db_environment := e, db_tables := db_tables db1 @ [t], db_version := v,
          db_immutable := Some (ig\<lparr>ig_pending_table := None, ig_version_published := True\<rparr>)\<rparr>)"
        using flushed_keeps [of "db1\<lparr>db_environment := e\<rparr>" ig1 "ig\<lparr>ig_pending_table := None, ig_version_published := True\<rparr>" t v]
          table [OF Inr] v inv1 keeps_inv [OF e] db1(2-4) opts by (simp add: db_inv_def)
      then show ?thesis
        using run False Inr candidate m keeps_trans [OF db1(1) e] keeps_trans db1(2) by (auto simp: Let_def split: if_splits)
    qed
  qed
qed

lemma remove_flushed_wal_keeps:
  assumes inv: "db_inv db" and run: "remove_flushed_wal db = (db', s)"
  shows "keeps db db'"
    and "db_immutable db = Some ig \<Longrightarrow> \<exists>ig'. db_immutable db' = Some ig' \<and> ig_version_published ig' = ig_version_published ig"
proof -
  have removed: "keeps db (db\<lparr>db_environment := e, db_immutable := Some (ig\<lparr>ig_wal_removed_and_synced := True\<rparr>)\<rparr>)"
    if ig: "db_immutable db = Some ig" and "env_ok e" for ig e
  proof -
    let ?db = "db\<lparr>db_environment := e, db_immutable := Some (ig\<lparr>ig_wal_removed_and_synced := True\<rparr>)\<rparr>"
    have "all_records ?db = all_records db"
      by (simp add: layer_defs ig)
    moreover have "db_inv ?db"
      using inv ig that(2) by (simp add: db_inv_def inv_defs split: if_splits)
    ultimately show ?thesis
      by (simp add: keeps_def db_map_def fun_eq_iff)
  qed
  have "env_ok (db_environment db)"
    using inv by (simp add: db_inv_def)
  then show "keeps db db'"
    using run inv removed keeps_env [OF inv]
    by (auto simp: remove_flushed_wal_def Let_def split: option.splits if_splits prod.splits dest!: env_ok_frame)
  show "\<exists>ig'. db_immutable db' = Some ig' \<and> ig_version_published ig' = ig_version_published ig" if "db_immutable db = Some ig"
    using run that by (auto simp: remove_flushed_wal_def Let_def split: option.splits if_splits prod.splits)
qed

lemma drop_immutable_keeps:
  assumes inv: "db_inv db" and ig: "db_immutable db = Some ig" "ig_version_published ig"
  shows "keeps db (db\<lparr>db_immutable := None\<rparr>)"
proof -
  let ?db = "db\<lparr>db_immutable := None\<rparr>"
  have "set (Records (ig_memtable ig)) \<subseteq> set (table_versions db)"
    using inv ig by (simp add: db_inv_def flush_inv_def)
  then have same: "set (all_records ?db) = set (all_records db)"
    using ig(1) by (auto simp: layer_defs)
  have "db_compaction db = None"
    using inv ig(1) by (cases "db_compaction db") (auto simp: db_inv_def compaction_inv_def)
  moreover have "layers_inv ?db"
    using inv same ig unfolding db_inv_def layers_inv_def
    by (simp add: db_ok_def stored_once_def unflushed_records_def) (auto simp: layer_defs)
  ultimately have "db_inv ?db"
    using inv by (simp add: db_inv_def flush_inv_def compaction_inv_def wal_inv_def)
  moreover have "db_map ?db = db_map db"
    using inv version_value_same [OF _ same] by (auto simp: db_map_def db_inv_def layers_inv_def)
  ultimately show ?thesis
    by (simp add: keeps_def)
qed

lemma ContinueFlush_keeps:
  assumes inv: "db_inv db" and run: "ContinueFlush fm db = (db', s)"
  shows "keeps db db'" and "ok s \<Longrightarrow> db_immutable db' = None"
proof -
  have "keeps db db' \<and> (ok s \<longrightarrow> db_immutable db' = None)"
  proof (cases "db_immutable db")
    case None
    then show ?thesis
      using run inv by (simp add: ContinueFlush_def)
  next
    case (Some ig)
    obtain db1 s1 where 1: "publish_flush fm ig db = (db1, s1)" by force
    obtain db2 s2 where 2: "remove_flushed_wal db1 = (db2, s2)" by force
    obtain db3 s3 where 3: "OpenMutableWal db2 = (db3, s3)" by force
    obtain ig1 where k1: "keeps db db1" "db_immutable db1 = Some ig1" "ok s1 \<longrightarrow> ig_version_published ig1"
      using publish_flush_keeps [OF inv Some 1] by blast
    note k2 = remove_flushed_wal_keeps [OF keeps_inv [OF k1(1)] 2]
    obtain ig2 where ig2: "db_immutable db2 = Some ig2" "ig_version_published ig2 = ig_version_published ig1"
      using k2(2) [OF k1(2)] by blast
    note k3 = OpenMutableWal_keeps [OF keeps_inv [OF k2(1)] 3]
    have done_: "keeps db3 (db3\<lparr>db_immutable := None\<rparr>)" if "ok s1"
      using drop_immutable_keeps [OF keeps_inv [OF k3(1)], of ig2] k3(4) ig2 k1(3) that by simp
    note ks = k1(1) keeps_trans [OF k1(1) k2(1)] keeps_trans [OF keeps_trans [OF k1(1) k2(1)] k3(1)]
    show ?thesis
      using run [unfolded ContinueFlush_def Some option.case 1 2 3 Let_def prod.case] ks keeps_trans [OF ks(3) done_]
      by (auto split: if_splits)
  qed
  then show "keeps db db'" "ok s \<Longrightarrow> db_immutable db' = None"
    by blast+
qed

end
