(* ===== verification/DatabaseCompact.thy ===== *)
theory DatabaseCompact
  imports DatabaseInv
begin

text \<open>
  Compaction keeps the invariant and the abstract map: preparing it, and each of its stages, whether
  they run through or are interrupted and resumed.
\<close>

section \<open>The choice of inputs\<close>

definition pair_selected :: "bytes \<times> bytes \<Rightarrow> VersionTable \<times> SSTableReader \<Rightarrow> bool" where
  "pair_selected keys p \<longleftrightarrow> selected keys (fst p)"

lemma select_inputs_result:
  "select_inputs keys ps (inputs, st) = Inr (inputs', st') \<Longrightarrow>
     inputs' = inputs @ map (\<lambda>(t, rd). \<lparr>ci_level = vt_level t, ci_table = Some rd\<rparr>) (filter (pair_selected keys) ps) \<and>
     set (cs_input_file_numbers st') = set (cs_input_file_numbers st) \<union>
       (\<lambda>p. table_generation (fst p)) ` set (filter (pair_selected keys) ps) \<and>
     cs_output_memtables st' = cs_output_memtables st \<and> cs_published_outputs st' = cs_published_outputs st \<and>
     cs_candidate_ready st' = cs_candidate_ready st \<and> cs_version_published st' = cs_version_published st"
proof (induction ps arbitrary: inputs st)
  case (Cons p ps)
  obtain t rd where p: "p = (t, rd)"
    by force
  show ?case
  proof (cases "selected keys t")
    case False
    then show ?thesis
      using Cons.prems Cons.IH [of inputs st] by (simp add: p pair_selected_def split: if_splits)
  next
    case True
    let ?inputs = "inputs @ [\<lparr>ci_level = vt_level t, ci_table = Some rd\<rparr>]"
    let ?st = "st\<lparr>cs_input_file_numbers := insort_insert (table_generation t) (cs_input_file_numbers st),
        cs_cleanup_paths := cs_cleanup_paths st @ [rd_path rd], cs_stats := (cs_stats st)\<lparr>cst_input_bytes :=
          cst_input_bytes (cs_stats st) + md_file_size (vt_metadata t)\<rparr>\<rparr>"
    have "select_inputs keys ps (?inputs, ?st) = Inr (inputs', st')"
      using Cons.prems True by (simp add: p Let_def split: if_splits)
    from Cons.IH [OF this] show ?thesis
      using True by (simp add: p pair_selected_def set_insort_insert)
  qed
qed simp

text \<open>The range of the level-zero tables contains the keys of each of them.\<close>

lemma level_zero_range_covers:
  assumes "level_zero_range ts acc = Some (lo, hi)"
  shows "\<forall>t \<in> set ts. vt_level t = 0 \<longrightarrow> lo \<le> smallest t \<and> largest t \<le> hi"
    and "acc = Some (lo', hi') \<Longrightarrow> lo \<le> lo' \<and> hi' \<le> hi"
proof -
  have "(\<forall>t \<in> set ts. vt_level t = 0 \<longrightarrow> lo \<le> smallest t \<and> largest t \<le> hi) \<and>
    (\<forall>lo' hi'. acc = Some (lo', hi') \<longrightarrow> lo \<le> lo' \<and> hi' \<le> hi)"
    using assms
  proof (induction ts acc rule: level_zero_range.induct)
    case (2 t ts keys)
    show ?case
    proof (cases "vt_level t = 0")
      case False
      then show ?thesis
        using 2 by simp
    next
      case True
      obtain a b where acc: "(case keys of None \<Rightarrow> Some (smallest t, largest t)
          | Some (lo, hi) \<Rightarrow> Some (min lo (smallest t), max hi (largest t))) = Some (a, b)"
        "a \<le> smallest t" "largest t \<le> b" "\<forall>lo' hi'. keys = Some (lo', hi') \<longrightarrow> a \<le> lo' \<and> hi' \<le> b"
        by (cases keys) auto
      have "(\<forall>t \<in> set ts. vt_level t = 0 \<longrightarrow> lo \<le> smallest t \<and> largest t \<le> hi) \<and> lo \<le> a \<and> b \<le> hi"
        using 2 True acc(1) by auto
      then show ?thesis
        using acc(2-4) by (auto intro: order_trans)
    qed
  qed simp
  then show "\<forall>t \<in> set ts. vt_level t = 0 \<longrightarrow> lo \<le> smallest t \<and> largest t \<le> hi"
    "acc = Some (lo', hi') \<Longrightarrow> lo \<le> lo' \<and> hi' \<le> hi"
    by blast+
qed

text \<open>Tables that are not selected share no key with those that are.\<close>

definition key_within :: "SSTableMetadata \<Rightarrow> bytes \<Rightarrow> bool" where
  "key_within md k \<longleftrightarrow> md_minimum_key md \<le> k \<and> k \<le> md_maximum_key md"

lemma selected_disjoint:
  assumes v: "ok (ValidateVersion v options)" and range: "level_zero_range (version_tables v) None = Some keys"
    and st: "s \<in> set (version_tables v)" "t \<in> set (version_tables v)" "selected keys s" "\<not> selected keys t"
    and k: "key_within (vt_metadata s) k"
  shows "\<not> key_within (vt_metadata t) k"
proof
  assume k': "key_within (vt_metadata t) k"
  have "vt_level t \<le> 1" "vt_level s \<le> 1"
    using v st(1,2) by (auto simp: ValidateVersion_ok_iff validate_tables_iff list_all_iff table_invalid_def Let_def not_less)
  moreover have "vt_level t \<noteq> 0"
    using st(4) by (auto simp: selected_def Let_def)
  ultimately have t: "vt_level t = 1" and s: "vt_level s = 0 \<or> vt_level s = 1"
    by unat_arith+
  have gap: "largest t < fst keys \<or> snd keys < smallest t"
    using st(4) t by (auto simp: selected_def Let_def not_le)
  from s show False
  proof
    assume "vt_level s = 0"
    then have "fst keys \<le> smallest s" "largest s \<le> snd keys"
      using level_zero_range_covers(1) [of "version_tables v" None "fst keys" "snd keys"] range st(1) by auto
    then show False
      using gap k k' unfolding key_within_def by (elim disjE conjE) order+
  next
    assume "vt_level s = 1"
    moreover have "table_generation s \<noteq> table_generation t"
      using v st by (auto simp: ValidateVersion_ok_iff validate_tables_iff dest: distinct_map [THEN iffD1] inj_onD)
    ultimately show False
      using level_one_disjoint [OF v st(1,2) _ t] k k' unfolding key_within_def by (elim disjE conjE meta_impE) order+
  qed
qed

lemma sorted_key_within:
  "records_sorted rs \<Longrightarrow> r \<in> set rs \<Longrightarrow> r_key (hd rs) \<le> r_key r \<and> r_key r \<le> r_key (last rs)"
proof (induction rs)
  case (Cons a rs)
  then show ?case
    by (cases rs) (auto intro: less_imp_le less_le_trans)
qed simp

lemma reader_key_within: "reader_sound rd \<Longrightarrow> r \<in> set (table_records rd) \<Longrightarrow> key_within (rd_metadata rd) (r_key r)"
  using sorted_key_within by (simp add: reader_sound_def key_within_def)

lemma matching_pair:
  assumes "list_all2 (\<lambda>t rd. ManifestMetadataMatches (vt_metadata t) (rd_metadata rd)) ts rds" and "p \<in> set (zip ts rds)"
  shows "fst p \<in> set ts" "snd p \<in> set rds" "md_generation (rd_metadata (snd p)) = table_generation (fst p)"
    "key_within (rd_metadata (snd p)) k \<longleftrightarrow> key_within (vt_metadata (fst p)) k"
proof -
  have "ManifestMetadataMatches (vt_metadata (fst p)) (rd_metadata (snd p))"
    using assms by (auto simp: list_all2_iff)
  then show "md_generation (rd_metadata (snd p)) = table_generation (fst p)"
    "key_within (rd_metadata (snd p)) k \<longleftrightarrow> key_within (vt_metadata (fst p)) k"
    by (simp_all add: ManifestMetadataMatches_def key_within_def)
  show "fst p \<in> set ts" "snd p \<in> set rds"
    using assms(2) set_zip_leftD [of "fst p" "snd p"] set_zip_rightD [of "fst p" "snd p"] by (simp_all only: prod.collapse)
qed

lemma input_tables_selected:
  assumes match: "list_all2 (\<lambda>t rd. ManifestMetadataMatches (vt_metadata t) (rd_metadata rd)) ts rds"
    and "distinct (map table_generation ts)"
    and ns: "set ns = (\<lambda>p. table_generation (fst p)) ` set (filter (pair_selected keys) (zip ts rds))"
  shows "filter (\<lambda>rd. md_generation (rd_metadata rd) \<in> set ns) rds = map snd (filter (pair_selected keys) (zip ts rds))"
    and "filter (\<lambda>rd. md_generation (rd_metadata rd) \<notin> set ns) rds =
      map snd (filter (\<lambda>p. \<not> pair_selected keys p) (zip ts rds))"
proof -
  have rds: "rds = map snd (zip ts rds)"
    using match by (simp add: list_all2_lengthD)
  have iff: "md_generation (rd_metadata (snd p)) \<in> set ns \<longleftrightarrow> pair_selected keys p" if "p \<in> set (zip ts rds)" for p
  proof -
    have "fst p = fst q" if "q \<in> set (zip ts rds)" "table_generation (fst p) = table_generation (fst q)" for q
      using assms(2) matching_pair(1) [OF match that(1)] matching_pair(1) [OF match \<open>p \<in> set (zip ts rds)\<close>] that(2)
      by (metis distinct_map inj_onD)
    then show ?thesis
      using that matching_pair(3) [OF match that] unfolding ns by (auto simp: pair_selected_def)
  qed
  show "filter (\<lambda>rd. md_generation (rd_metadata rd) \<in> set ns) rds = map snd (filter (pair_selected keys) (zip ts rds))"
    by (subst rds, subst filter_map, rule arg_cong [of _ _ "map snd"], rule filter_cong) (simp_all add: iff)
  show "filter (\<lambda>rd. md_generation (rd_metadata rd) \<notin> set ns) rds =
      map snd (filter (\<lambda>p. \<not> pair_selected keys p) (zip ts rds))"
    by (subst rds, subst filter_map, rule arg_cong [of _ _ "map snd"], rule filter_cong) (simp_all add: iff)
qed

text \<open>What a prepared compaction starts from.\<close>

lemma prepared_unpublished:
  assumes inv: "db_inv db" and range: "level_zero_range (version_tables (db_version db)) None = Some keys"
    and select: "select_inputs keys (zip (version_tables (db_version db)) (db_tables db)) ([], st0) = Inr (inputs, st)"
    and build: "BuildCompactionOutputs inputs (db_options db) True = Inr (outputs, build_stats)"
    and st0: "cs_input_file_numbers st0 = []" "cs_published_outputs st0 = []" "\<not> cs_candidate_ready st0"
  shows "unpublished_inv (st\<lparr>cs_output_memtables := outputs, cs_build_stats := bst, cs_stats := cst\<rparr>) db"
proof -
  let ?ps = "zip (version_tables (db_version db)) (db_tables db)"
  let ?st = "st\<lparr>cs_output_memtables := outputs, cs_build_stats := bst, cs_stats := cst\<rparr>"
  have match: "list_all2 (\<lambda>t rd. ManifestMetadataMatches (vt_metadata t) (rd_metadata rd))
      (version_tables (db_version db)) (db_tables db)"
    and valid: "ok (ValidateVersion (db_version db) (db_options db))"
    and tables: "\<forall>t \<in> set (db_tables db). table_ok (db_options db) t"
    and options: "options_fit (db_options db)" "compaction_output_size_limit (db_options db) \<le> size_max"
    using inv by (simp_all add: db_inv_def tables_match_def layers_inv_def options_inv_def)
  note sel = select_inputs_result [OF select, unfolded st0, simplified]
  have dist: "distinct (map table_generation (version_tables (db_version db)))"
    using valid by (simp add: ValidateVersion_ok_iff validate_tables_iff)
  have ns: "set (cs_input_file_numbers st) = (\<lambda>p. table_generation (fst p)) ` set (filter (pair_selected keys) ?ps)"
    using sel by (simp only: set_filter)
  note parts = input_tables_selected [OF match dist ns]
  have ins: "filter (is_input ?st) (db_tables db) = map snd (filter (pair_selected keys) ?ps)"
    and others: "filter (\<lambda>t. \<not> is_input ?st t) (db_tables db) = map snd (filter (\<lambda>p. \<not> pair_selected keys p) ?ps)"
    using parts by (simp_all add: is_input_def [abs_def])
  have rs: "concat (map input_records_of inputs) = input_versions ?st db"
    using sel by (simp add: input_versions_def ins input_records_of_def comp_def case_prod_beta)
  have opened: "\<forall>i \<in> set inputs. opened_input (db_options db) i"
    using sel tables matching_pair(2) [OF match] by (auto simp: opened_input_def table_ok_def)
  note built = BuildCompactionOutputs_Inr [OF opened options build, unfolded rs]
  have within: "key_within (vt_metadata (fst p)) (r_key r)" if "p \<in> set ?ps" "r \<in> set (table_records (snd p))" for p r
    using matching_pair(2,4) [OF match that(1)] reader_key_within [OF _ that(2)] tables by (simp add: table_ok_def)
  have "r_key r \<noteq> r_key q" if r: "r \<in> set (input_versions ?st db)" and q: "q \<in> set (other_versions ?st db)" for r q
  proof -
    obtain p where p: "p \<in> set ?ps" "pair_selected keys p" "r \<in> set (table_records (snd p))"
      using r by (auto simp: input_versions_def ins)
    obtain p' where p': "p' \<in> set ?ps" "\<not> pair_selected keys p'" "q \<in> set (table_records (snd p'))"
      using q by (auto simp: other_versions_def others)
    have "key_within (vt_metadata (fst p)) (r_key r)" "key_within (vt_metadata (fst p')) (r_key q)"
      using within [OF p(1,3)] within [OF p'(1,3)] by simp_all
    then show ?thesis
      using selected_disjoint [OF valid range] matching_pair(1) [OF match] p(1,2) p'(1,2)
      by (metis pair_selected_def)
  qed
  then have "r_key ` set (input_versions ?st db) \<inter> r_key ` set (other_versions ?st db) = {}"
    by blast
  then show ?thesis
    using built sel st0 by (simp add: unpublished_inv_def)
qed

lemma compaction_frame [simp]:
  "layers_inv (db\<lparr>db_compaction := c\<rparr>) = layers_inv db" "flush_inv (db\<lparr>db_compaction := c\<rparr>) = flush_inv db"
  "wal_inv (db\<lparr>db_compaction := c\<rparr>) = wal_inv db" "all_records (db\<lparr>db_compaction := c\<rparr>) = all_records db"
  "stage_inv st (db\<lparr>db_compaction := c\<rparr>) = stage_inv st db" "stage_inv st (db\<lparr>db_environment := env\<rparr>) = stage_inv st db"
  "stage_inv st (db\<lparr>db_wal := w\<rparr>) = stage_inv st db"
  "layers_inv (db\<lparr>db_last_compaction_statistics := x\<rparr>) = layers_inv db"
  "flush_inv (db\<lparr>db_last_compaction_statistics := x\<rparr>) = flush_inv db"
  "compaction_inv (db\<lparr>db_last_compaction_statistics := x\<rparr>) = compaction_inv db"
  "wal_inv (db\<lparr>db_last_compaction_statistics := x\<rparr>) = wal_inv db"
  "all_records (db\<lparr>db_last_compaction_statistics := x\<rparr>) = all_records db"
  by (simp_all add: inv_defs)

lemma keeps_compaction:
  assumes "db_inv db" and "MemTable_empty (db_mutable db)" "db_immutable db = None"
    and "stage_inv st db"
  shows "keeps db (db\<lparr>db_compaction := Some st\<rparr>)"
  using assms by (simp add: keeps_def db_inv_def compaction_inv_def db_map_def fun_eq_iff)

lemma PrepareCompaction_keeps:
  assumes inv: "db_inv db" and "MemTable_empty (db_mutable db)" "db_immutable db = None"
    and run: "PrepareCompaction db = (db', s)"
  shows "keeps db db'"
proof -
  have stats: "keeps db (db\<lparr>db_last_compaction_statistics := x\<rparr>)" for x
    using inv by (simp add: keeps_def db_inv_def db_map_def fun_eq_iff)
  let ?st0 = "new_CompactionState\<lparr>cs_first_output_file_number := next_file_number (db_version db)\<rparr>"
  let ?ps = "zip (version_tables (db_version db)) (db_tables db)"
  have st0: "cs_input_file_numbers ?st0 = []" "cs_published_outputs ?st0 = []" "\<not> cs_candidate_ready ?st0"
    by (simp_all add: new_CompactionState_def)
  show ?thesis
  proof (cases "level_zero_range (version_tables (db_version db)) None")
    case None
    then show ?thesis
      using run inv stats by (auto simp: PrepareCompaction_def split: if_splits)
  next
    case (Some keys)
    show ?thesis
    proof (cases "select_inputs keys ?ps ([], ?st0)")
      case (Inl u)
      then show ?thesis
        using run inv Some by (auto simp: PrepareCompaction_def split: if_splits)
    next
      case (Inr x)
      obtain inputs st where x: "x = (inputs, st)"
        by force
      show ?thesis
      proof (cases "BuildCompactionOutputs inputs (db_options db) True")
        case failed: (Inl u)
        then show ?thesis
          using run inv Some Inr x by (auto simp: PrepareCompaction_def split: if_splits)
      next
        case built: (Inr y)
        obtain outputs bst where y: "y = (outputs, bst)"
          by force
        have "unpublished_inv (st\<lparr>cs_output_memtables := outputs, cs_build_stats := bst, cs_stats := cst\<rparr>) db" for cst
          using prepared_unpublished [OF inv Some _ _ st0] Inr built unfolding x y by blast
        moreover have "\<not> cs_version_published st"
          using select_inputs_result Inr unfolding x by (fastforce simp: new_CompactionState_def)
        ultimately have "keeps db (db\<lparr>db_compaction :=
            Some (st\<lparr>cs_output_memtables := outputs, cs_build_stats := bst, cs_stats := cst\<rparr>)\<rparr>)" for cst
          using keeps_compaction [OF inv assms(2,3)] by (simp add: stage_inv_def)
        then show ?thesis
          using run inv Some Inr built x y by (auto simp: PrepareCompaction_def Let_def split: if_splits)
      qed
    qed
  qed
qed


section \<open>The new tables\<close>

lemma list_all2_insort:
  "list_all2 P xs ys \<Longrightarrow> P x y \<Longrightarrow> (\<And>x y. P x y \<Longrightarrow> f x = g y) \<Longrightarrow> list_all2 P (insort_key f x xs) (insort_key g y ys)"
  by (induction rule: list_all2_induct) simp_all

lemma list_all2_sort_key:
  assumes "list_all2 P xs ys" and "\<And>x y. P x y \<Longrightarrow> f x = g y"
  shows "list_all2 P (sort_key f xs) (sort_key g ys)"
  using assms(1) by (induction rule: list_all2_induct) (simp_all add: list_all2_insort assms(2))

lemma list_all2_filter:
  assumes "list_all2 P xs ys" and "\<And>x y. P x y \<Longrightarrow> p x = q y"
  shows "list_all2 P (filter p xs) (filter q ys)"
  using assms(1) by (induction rule: list_all2_induct) (simp_all add: assms(2))

lemma Apply_compaction:
  assumes run: "Version_Apply v (compaction_edit st) options = Inr v'" and match: "tables_match v tables"
  shows "tables_match v' (live_tables st tables)" and "ok (ValidateVersion v' options)"
proof -
  let ?P = "\<lambda>t rd. ManifestMetadataMatches (vt_metadata t) (rd_metadata rd)"
  note a = Version_Apply_cases [OF run, unfolded compaction_edit_def VersionEdit.simps]
  then show "ok (ValidateVersion v' options)"
    by blast
  have gen: "table_generation t = md_generation (rd_metadata rd)" if "?P t rd" for t rd
    using that by (simp add: ManifestMetadataMatches_def)
  have "list_all2 ?P (filter (\<lambda>t. table_generation t \<notin> set (cs_input_file_numbers st)) (version_tables v))
      (filter (\<lambda>t. md_generation (rd_metadata t) \<notin> set (cs_input_file_numbers st)) tables)"
    using match by (intro list_all2_filter) (simp_all add: tables_match_def gen)
  moreover have "list_all2 ?P (map (\<lambda>t. \<lparr>vt_level = 1, vt_metadata = rd_metadata t\<rparr>) rds) rds" for rds
    by (induction rds) (simp_all add: ManifestMetadataMatches_def)
  ultimately have "list_all2 ?P (version_tables v') (live_tables st tables)"
    using a gen by (auto simp: live_tables_def intro!: list_all2_sort_key list_all2_appendI)
  then show "tables_match v' (live_tables st tables)"
    using a by (simp add: tables_match_def)
qed

lemma set_newest: "set (newest rs) = {r. strictly_newest (mset rs) r}"
  using newest_merged [of rs] by (simp add: merged_def)

lemma in_minus_other: "q \<in># M \<Longrightarrow> q \<noteq> r \<Longrightarrow> q \<in># M - {#r#}"
  by (simp add: in_diff_count)

lemma strictly_newest_same: "strictly_newest M r \<Longrightarrow> strictly_newest M q \<Longrightarrow> r_key r = r_key q \<Longrightarrow> r = q"
  unfolding strictly_newest_def by (metis in_minus_other less_asym)

lemma top_strictly_newest:
  assumes "unambiguous (mset rs)" and "top_version (set rs) key r"
  shows "strictly_newest (mset rs) r"
proof -
  obtain q where q: "strictly_newest (mset rs) q" "r_key q = r_key r"
    using assms unfolding unambiguous_def top_version_def by force
  have "q = r"
  proof (rule ccontr)
    assume "q \<noteq> r"
    then have "r_sequence r < r_sequence q"
      using q assms(2) in_minus_other [of r "mset rs" q] by (simp add: strictly_newest_def top_version_def)
    moreover have "r_sequence q \<le> r_sequence r"
      using q assms(2) by (simp add: strictly_newest_def top_version_def)
    ultimately show False
      by simp
  qed
  then show ?thesis
    using q(1) by simp
qed

text \<open>Replacing the inputs by their newest versions without tombstones leaves every key its value.\<close>

lemma compacted_value:
  assumes inj: "inj_on r_sequence (set rs)" and rs: "set rs = set ins \<union> set others"
    and un: "unambiguous (mset ins)" and apart: "r_key ` set ins \<inter> r_key ` set others = {}"
    and rs': "set rs' = set others \<union> set (filter (kept True) (newest ins))"
  shows "set rs' \<subseteq> set rs" and "version_value (latest_version key rs') = version_value (latest_version key rs)"
proof -
  show sub: "set rs' \<subseteq> set rs"
    unfolding rs rs' by (auto simp: set_newest strictly_newest_def)
  show "version_value (latest_version key rs') = version_value (latest_version key rs)"
  proof (rule version_value_shrink [OF inj sub])
    fix r
    assume top: "top_version (set rs) key r"
    show "r \<in> set rs' \<or> r_type r = kDeletion \<and> (\<forall>q \<in> set rs'. r_key q \<noteq> key)"
    proof (cases "r \<in> set ins")
      case False
      then show ?thesis
        using top by (simp add: top_version_def rs rs')
    next
      case True
      then have new: "strictly_newest (mset ins) r"
        using top by (intro top_strictly_newest [OF un, of key]) (simp add: top_version_def rs)
      have key: "r_key r = key"
        using top by (simp add: top_version_def)
      show ?thesis
      proof (cases "kept True r")
        case False
        have "r_key q \<noteq> key" if "q \<in> set rs'" for q
        proof
          assume q: "r_key q = key"
          then have "q \<notin> set others"
            using apart True key by blast
          then have "strictly_newest (mset ins) q" "kept True q"
            using that by (simp_all add: rs' set_newest)
          then show False
            using strictly_newest_same [OF new] False q key by auto
        qed
        then show ?thesis
          using False by (simp add: kept_def)
      qed (use new in \<open>simp add: rs' set_newest\<close>)
    qed
  qed
qed

section \<open>The stages\<close>

lemma pending_facts:
  assumes "db_inv db" and "db_compaction db = Some st"
  shows "MemTable_empty (db_mutable db)" "db_immutable db = None" "stage_inv st db" "env_ok (db_environment db)"
  using assms by (simp_all add: db_inv_def compaction_inv_def)

definition published_or_ready :: "CompactionState \<Rightarrow> Options \<Rightarrow> bool" where
  "published_or_ready st options \<longleftrightarrow> cs_version_published st \<or> outputs_published st options"

lemma publish_outputs_keeps:
  assumes inv: "db_inv db" and st: "db_compaction db = Some st" and run: "publish_outputs fm st db = (db', s)"
  shows "keeps db db' \<and> (ok s \<longrightarrow> (\<exists>st'. db_compaction db' = Some st' \<and> published_or_ready st' (db_options db')))"
proof (cases "cs_version_published st \<or> cs_output_memtables st = [] \<or> cs_published_outputs st \<noteq> []")
  case True
  then have "published_or_ready st (db_options db)" "db' = db"
    using pending_facts(3) [OF inv st] run
    by (auto simp: published_or_ready_def stage_inv_def unpublished_inv_def outputs_published_def publish_outputs_def split: if_splits)
  then show ?thesis
    using inv st by simp
next
  case False
  note p = pending_facts [OF inv st]
  obtain r e where pub: "PublishCompactionTables fm (db_directory db) (cs_first_output_file_number st)
      (cs_output_memtables st) (db_options db) (db_environment db) = (r, e)"
    by force
  have un: "unpublished_inv st db"
    using p(3) False by (simp add: stage_inv_def)
  then have mts: "\<forall>mt \<in> set (cs_output_memtables st). mt_wf mt \<and> mt_options mt = db_options db"
    and ready: "\<not> cs_candidate_ready st"
    using False by (auto simp: unpublished_inv_def outputs_hold_def outputs_published_def)
  note e = PublishCompactionTables_env_ok [OF p(4) mts pub]
  note k = keeps_env [OF inv e(1)]
  show ?thesis
  proof (cases r)
    case (Inl t)
    then show ?thesis
      using run pub False k properD [OF PublishCompactionTables_proper [OF pub] Inl] by (auto simp: publish_outputs_def)
  next
    case (Inr rds)
    let ?st = "st\<lparr>cs_published_outputs := rds\<rparr>"
    have wf: "env_wf (db_environment db)"
      using p(4) by (simp add: env_ok_def)
    note rd = PublishCompactionTables_readers [OF wf mts pub [unfolded Inr]]
    have "map table_records rds = map Records (cs_output_memtables st)"
      using rd by (intro nth_equalityI) (simp_all add: holds_memtable_def)
    moreover have "\<forall>t \<in> set rds. table_ok (db_options db) t"
      using rd e(2) [OF Inr] by (auto simp: in_set_conv_nth table_ok_def holds_memtable_def)
    ultimately have out: "outputs_published ?st (db_options db)"
      by (simp add: outputs_published_def)
    then have "stage_inv ?st db"
      using un ready False
      by (simp add: stage_inv_def unpublished_inv_def input_versions_def other_versions_def is_input_def [abs_def])
    then have "keeps (db\<lparr>db_environment := e\<rparr>) (db\<lparr>db_environment := e, db_compaction := Some ?st\<rparr>)"
      using keeps_compaction [OF keeps_inv [OF k]] p(1,2) by simp
    then show ?thesis
      using run pub False Inr out keeps_trans [OF k] by (auto simp: publish_outputs_def published_or_ready_def)
  qed
qed

lemma compaction_edit_frame [simp]:
  "compaction_edit (st\<lparr>cs_stats := x\<rparr>) = compaction_edit st"
  "compaction_edit (st\<lparr>cs_candidate := v, cs_candidate_ready := b\<rparr>) = compaction_edit st"
  by (simp_all add: compaction_edit_def)

lemma unpublished_stats:
  "unpublished_inv (st\<lparr>cs_stats := x\<rparr>) db = unpublished_inv st db"
  by (simp add: unpublished_inv_def input_versions_def other_versions_def is_input_def [abs_def] outputs_published_def)

lemma unpublished_candidate:
  assumes "unpublished_inv st db" and "outputs_published st (db_options db)"
    and "Version_Apply (db_version db) (compaction_edit st) (db_options db) = Inr v"
  shows "unpublished_inv (st\<lparr>cs_candidate := v, cs_candidate_ready := True\<rparr>) db"
  using assms by (simp add: unpublished_inv_def input_versions_def other_versions_def is_input_def [abs_def] outputs_published_def)

lemma prepare_candidate_keeps:
  assumes inv: "db_inv db" and st: "db_compaction db = Some st" and ready: "published_or_ready st (db_options db)"
    and run: "prepare_candidate st db = (db', s)"
  shows "keeps db db' \<and> (ok s \<longrightarrow> (\<exists>st'. db_compaction db' = Some st' \<and> cs_candidate_ready st'))"
proof (cases "cs_candidate_ready st")
  case True
  then show ?thesis
    using inv st run by (simp add: prepare_candidate_def)
next
  case False
  note p = pending_facts [OF inv st]
  have un: "unpublished_inv st db" "outputs_published st (db_options db)" "\<not> cs_version_published st"
    using p(3) ready False by (auto simp: stage_inv_def published_or_ready_def split: if_splits)
  have stats: "keeps db (db\<lparr>db_compaction := Some (st\<lparr>cs_stats := x\<rparr>)\<rparr>)" for x
    using un by (intro keeps_compaction [OF inv p(1,2)]) (simp add: stage_inv_def unpublished_stats)
  have cand: "keeps db (db\<lparr>db_compaction := Some (st\<lparr>cs_stats := x, cs_candidate := v, cs_candidate_ready := True\<rparr>)\<rparr>)"
    if "Version_Apply (db_version db) (compaction_edit st) (db_options db) = Inr v" for x v
    using un that
    by (intro keeps_compaction [OF inv p(1,2)])
      (simp add: stage_inv_def unpublished_candidate [of "st\<lparr>cs_stats := x\<rparr>"] unpublished_stats outputs_published_def)
  show ?thesis
  proof (cases "Version_Apply (db_version db) (compaction_edit st) (db_options db)")
    case (Inl t)
    then show ?thesis
      using run False stats properD [OF Version_Apply_proper Inl]
      by (auto simp: prepare_candidate_def Let_def split: prod.splits if_splits)
  next
    case (Inr v)
    then show ?thesis
      using run False stats cand [OF Inr]
      by (auto simp: prepare_candidate_def Let_def split: prod.splits if_splits)
  qed
qed

lemma table_versions_split:
  "set (table_versions db) = set (input_versions st db) \<union> set (other_versions st db)"
  by (auto simp: table_versions_def input_versions_def other_versions_def)

lemma mset_concat_map: "mset (concat (map g xs)) = \<Sum>\<^sub># (image_mset (\<lambda>x. mset (g x)) (mset xs))"
  by (induction xs) simp_all

lemma distinct_concat_filter: "distinct (concat (map g xs)) \<Longrightarrow> distinct (concat (map g (filter p xs)))"
  by (induction xs) auto

lemma live_tables_distinct:
  assumes "distinct (table_versions db)" and "r_key ` set (input_versions st db) \<inter> r_key ` set (other_versions st db) = {}"
    and out: "concat (map table_records (cs_published_outputs st)) = filter (kept True) (newest (input_versions st db))"
  shows "distinct (concat (map table_records (live_tables st (db_tables db))))"
proof -
  have "distinct (newest (input_versions st db))"
    using newest_merged [of "input_versions st db"] by (auto simp: merged_def distinct_map strict_sorted_iff)
  moreover have "set (newest (input_versions st db)) \<subseteq> set (input_versions st db)"
    by (auto simp: set_newest strictly_newest_def)
  moreover have "distinct (other_versions st db)"
    using assms(1) by (simp add: table_versions_def other_versions_def distinct_concat_filter)
  ultimately have "distinct (other_versions st db @ filter (kept True) (newest (input_versions st db)))"
    using assms(2) by auto
  moreover have "mset (concat (map table_records (live_tables st (db_tables db)))) =
      mset (other_versions st db @ concat (map table_records (cs_published_outputs st)))"
    by (simp add: mset_concat_map live_tables_def other_versions_def is_input_def [abs_def])
  ultimately show ?thesis
    unfolding out using mset_eq_imp_distinct_iff by blast
qed

lemma compacted_keeps:
  assumes inv: "db_inv db" and st: "db_compaction db = Some st" "\<not> cs_version_published st" "cs_candidate_ready st"
    and st': "cs_version_published st'" "cs_candidate_ready st'" "cs_output_memtables st' = cs_output_memtables st"
      "cs_published_outputs st' = cs_published_outputs st"
  shows "keeps db (db\<lparr>db_tables := live_tables st (db_tables db), db_version := cs_candidate st, db_compaction := Some st'\<rparr>)"
proof -
  let ?db = "db\<lparr>db_tables := live_tables st (db_tables db), db_version := cs_candidate st, db_compaction := Some st'\<rparr>"
  note p = pending_facts [OF inv st(1)]
  have un: "unambiguous (mset (input_versions st db))"
      "outputs_hold (db_options db) (cs_output_memtables st) (filter (kept True) (newest (input_versions st db)))"
      "r_key ` set (input_versions st db) \<inter> r_key ` set (other_versions st db) = {}"
      "outputs_published st (db_options db)"
      "Version_Apply (db_version db) (compaction_edit st) (db_options db) = Inr (cs_candidate st)"
    using p(3) st(2,3) by (simp_all add: stage_inv_def unpublished_inv_def)
  have inj: "inj_on r_sequence (set (all_records db))" and layers: "layers_inv db"
    using inv by (simp_all add: db_inv_def layers_inv_def)
  have memory: "Records (db_mutable db) = []"
    using p(1) by (simp add: MemTable_empty_Records)
  have out: "concat (map table_records (cs_published_outputs st)) = filter (kept True) (newest (input_versions st db))"
    using un(2,4) by (simp add: outputs_published_def outputs_hold_def)
  have "set (table_versions ?db) = set (other_versions st db) \<union> set (concat (map table_records (cs_published_outputs st)))"
    by (auto simp: table_versions_def other_versions_def live_tables_def is_input_def)
  then have "set (table_versions ?db) = set (other_versions st db) \<union> set (filter (kept True) (newest (input_versions st db)))"
    unfolding out .
  then have new: "set (all_records ?db) = set (other_versions st db) \<union> set (filter (kept True) (newest (input_versions st db)))"
    and old: "set (all_records db) = set (input_versions st db) \<union> set (other_versions st db)"
    using memory p(2) table_versions_split [of db st] by (simp_all add: all_records_def immutable_records_def)
  note shrunk = compacted_value [OF inj old un(1,3) new]
  have "table_ok (db_options db) t" if "t \<in> set (live_tables st (db_tables db))" for t
    using that layers un(4) by (auto simp: live_tables_def layers_inv_def outputs_published_def)
  moreover have "stored_once ?db"
    using live_tables_distinct [OF _ un(3) out] layers memory p(2)
    by (simp add: layers_inv_def stored_once_def unflushed_records_def table_versions_def)
  ultimately have "layers_inv ?db"
    using layers shrunk(1) memory p(2) inj_on_subset [OF inj shrunk(1)]
    by (auto simp: layers_inv_def db_ok_def sound_tables_def table_ok_def db_layers_def immutable_records_def)
  then have "db_inv ?db"
    using inv p(1,2) st' un(4) Apply_compaction [OF un(5), of "db_tables db"]
    by (auto simp: db_inv_def flush_inv_def compaction_inv_def stage_inv_def wal_inv_def outputs_published_def)
  then show ?thesis
    using shrunk(2) by (simp add: keeps_def db_map_def fun_eq_iff)
qed

lemma generation_frame [simp]:
  "layers_inv (db\<lparr>db_mutable_generation := g\<rparr>) = layers_inv db" "flush_inv (db\<lparr>db_mutable_generation := g\<rparr>) = flush_inv db"
  "compaction_inv (db\<lparr>db_mutable_generation := g\<rparr>) = compaction_inv db" "wal_inv (db\<lparr>db_mutable_generation := g\<rparr>) = wal_inv db"
  "all_records (db\<lparr>db_mutable_generation := g\<rparr>) = all_records db"
  by (simp_all add: inv_defs)

lemma keeps_generation: "db_inv db \<Longrightarrow> keeps db (db\<lparr>db_mutable_generation := g\<rparr>)"
  by (simp add: keeps_def db_inv_def db_map_def fun_eq_iff)

lemma publish_compaction_keeps:
  assumes inv: "db_inv db" and st: "db_compaction db = Some st" "cs_candidate_ready st"
    and run: "publish_compaction st db = (db', s)"
  shows "keeps db db' \<and> (ok s \<longrightarrow> (\<exists>st'. db_compaction db' = Some st' \<and> cs_version_published st'))"
proof (cases "cs_version_published st")
  case True
  then show ?thesis
    using inv st run by (simp add: publish_compaction_def)
next
  case False
  obtain t e where pub: "PublishManifest (db_directory db) (cs_candidate st) (db_options db) (db_environment db) = (t, e)"
    by force
  note k = keeps_env [OF inv env_ok_frame(1) [OF pub pending_facts(4) [OF inv st(1)]]]
  let ?db = "\<lambda>st'. db\<lparr>db_environment := e, db_tables := live_tables st (db_tables db), db_version := cs_candidate st,
      db_compaction := Some st'\<rparr>"
  have moved: "keeps db (?db st')" if "cs_version_published st'" "cs_candidate_ready st'"
      "cs_output_memtables st' = cs_output_memtables st" "cs_published_outputs st' = cs_published_outputs st" for st'
    using compacted_keeps [OF keeps_inv [OF k], of st st'] st False that keeps_trans [OF k] by simp
  have advanced: "keeps db (db1\<lparr>db_wal := None, db_mutable_generation := g\<rparr>)" if k: "keeps db db1" for db1 g
  proof -
    have "keeps db (db1\<lparr>db_wal := None\<rparr>)"
      by (rule keeps_trans [OF k keeps_wal [OF keeps_inv [OF k]]]) simp
    from keeps_trans [OF this keeps_generation [OF keeps_inv [OF this]]] show ?thesis .
  qed
  note run = run [unfolded publish_compaction_def pub Let_def prod.case]
  show ?thesis
  proof (cases "ok t")
    case fails: False
    then show ?thesis
      using run False k by simp
  next
    case True
    show ?thesis
    proof (cases "cs_output_memtables st = []")
      case none: True
      then show ?thesis
        using run False True moved [of "st\<lparr>cs_version_published := True\<rparr>"] st(2) by auto
    next
      case outputs: False
      let ?st = "st\<lparr>cs_version_published := True, cs_cleanup_paths := cs_cleanup_paths st @
          [WalPath (db_directory db) (db_mutable_generation db)], cs_wal_generation_advanced := True\<rparr>"
      have "db' = ?db ?st\<lparr>db_wal := None, db_mutable_generation := next_file_number (cs_candidate st)\<rparr>"
        using run False True outputs by (cases db) simp
      then show ?thesis
        using advanced [OF moved, of ?st] st(2) by simp
    qed
  qed
qed

lemma clean_up_keeps:
  assumes inv: "db_inv db" and st: "db_compaction db = Some st" "cs_version_published st"
    and run: "clean_up st db = (db', s)"
  shows "keeps db db' \<and> (ok s \<longrightarrow> (\<exists>st'. db_compaction db' = Some st' \<and> cs_version_published st'))"
proof -
  note p = pending_facts [OF inv st(1)]
  obtain n t e where r: "remove_paths (drop (cs_cleanup_index st) (cs_cleanup_paths st)) (db_environment db) = (n, t, e)"
    by (metis prod_cases3)
  obtain u e2 where d: "SyncDirectory e = (u, e2)"
    by force
  define db1 where "db1 = db\<lparr>db_environment := e, db_compaction := Some (st\<lparr>cs_cleanup_index := cs_cleanup_index st + n\<rparr>)\<rparr>"
  define db2 where "db2 = db1\<lparr>db_environment := e2\<rparr>"
  define db3 where "db3 = db2\<lparr>db_compaction :=
      Some (st\<lparr>cs_cleanup_index := cs_cleanup_index st + n, cs_cleanup_synced := True\<rparr>)\<rparr>"
  have e: "env_ok e"
    using remove_paths_ok [OF r] p(4) by simp
  note k = keeps_env [OF inv e]
  have k1: "keeps db db1"
    unfolding db1_def using keeps_trans [OF k keeps_compaction [OF keeps_inv [OF k]]] p(1-3) st(2)
    by (simp add: stage_inv_def)
  have k2: "keeps db db2"
    unfolding db2_def using keeps_trans [OF k1 keeps_env [OF keeps_inv [OF k1] env_ok_frame(3) [OF d e]]] .
  have k3: "keeps db db3"
    unfolding db3_def using keeps_trans [OF k2 keeps_compaction [OF keeps_inv [OF k2]]] p(1-3) st(2)
    by (simp add: stage_inv_def db2_def db1_def)
  have "clean_up st db = (if \<not> ok t then (db1, t) else if cs_cleanup_synced st then (db1, Ok)
      else if \<not> ok u then (db2, u) else (db3, Ok))"
    by (simp add: clean_up_def r d db1_def db2_def db3_def Let_def)
  then show ?thesis
    using run k1 k2 k3 st(2) by (auto simp: db1_def db2_def db3_def split: if_splits)
qed

lemma finish_compaction_keeps:
  assumes inv: "db_inv db" and run: "finish_compaction st db = (db', s)"
  shows "keeps db db' \<and> (ok s \<longrightarrow> db_compaction db' = None)"
proof -
  obtain db1 t where w: "(if cs_wal_generation_advanced st then OpenMutableWal db else (db, Ok)) = (db1, t)"
    by force
  have k: "keeps db db1"
    using w inv OpenMutableWal_keeps(1) [OF inv] by (auto split: if_splits)
  have "keeps db1 (db1\<lparr>db_last_compaction_statistics := x, db_compaction := None\<rparr>)" for x
    using keeps_inv [OF k] by (simp add: keeps_def db_inv_def compaction_inv_def db_map_def fun_eq_iff)
  then show ?thesis
    using run w k keeps_trans [OF k] by (auto simp: finish_compaction_def Let_def split: if_splits)
qed

definition reached :: "(CompactionState \<Rightarrow> Database \<Rightarrow> bool) \<Rightarrow> Database \<Rightarrow> Database \<times> status \<Rightarrow> bool" where
  "reached Q db x \<longleftrightarrow> keeps db (fst x) \<and> (ok (snd x) \<longrightarrow> (\<exists>st. db_compaction (fst x) = Some st \<and> Q st (fst x)))"

lemma compaction_stage_reached:
  assumes "reached Q db x"
    and stage: "\<And>db1 st. db_inv db1 \<Longrightarrow> db_compaction db1 = Some st \<Longrightarrow> Q st db1 \<Longrightarrow> reached R db1 (stage st db1)"
  shows "reached R db (compaction_stage stage x)"
proof (cases "ok (snd x)")
  case True
  then obtain st where st: "db_compaction (fst x) = Some st" "Q st (fst x)" and k: "keeps db (fst x)"
    using assms(1) by (auto simp: reached_def)
  then have "compaction_stage stage x = stage st (fst x)"
    using True by (simp add: compaction_stage_def case_prod_beta)
  then show ?thesis
    using stage [OF keeps_inv [OF k] st] keeps_trans [OF k] by (simp add: reached_def)
next
  case False
  then show ?thesis
    using assms(1) by (simp add: reached_def compaction_stage_def case_prod_beta)
qed

lemma stages_reached:
  assumes "db_inv db" and "db_compaction db = Some st"
  shows "reached (\<lambda>st db. published_or_ready st (db_options db)) db (publish_outputs fm st db)"
    and "published_or_ready st (db_options db) \<Longrightarrow> reached (\<lambda>st db. cs_candidate_ready st) db (prepare_candidate st db)"
    and "cs_candidate_ready st \<Longrightarrow> reached (\<lambda>st db. cs_version_published st) db (publish_compaction st db)"
    and "cs_version_published st \<Longrightarrow> reached (\<lambda>st db. True) db (clean_up st db)"
  using publish_outputs_keeps [OF assms, of fm] prepare_candidate_keeps [OF assms] publish_compaction_keeps [OF assms]
    clean_up_keeps [OF assms]
  by (auto simp: reached_def) (metis prod.collapse)+

text \<open>Every call of \<open>ContinueCompaction\<close>, however far it gets, is invisible to users.\<close>

lemma ContinueCompaction_keeps:
  assumes inv: "db_inv db" and run: "ContinueCompaction fm db = (db', s)"
  shows "keeps db db'" and "ok s \<Longrightarrow> db_compaction db' = None"
proof -
  have "keeps db db' \<and> (ok s \<longrightarrow> db_compaction db' = None)"
  proof (cases "db_compaction db")
    case None
    then show ?thesis
      using run inv by (simp add: ContinueCompaction_def compaction_stage_def)
  next
    case (Some st)
    let ?x = "compaction_stage clean_up (compaction_stage publish_compaction
        (compaction_stage prepare_candidate (compaction_stage (publish_outputs fm) (db, Ok))))"
    have "reached (\<lambda>st db. True) db (db, Ok)"
      using inv Some by (simp add: reached_def)
    then have "reached (\<lambda>st db. published_or_ready st (db_options db)) db (compaction_stage (publish_outputs fm) (db, Ok))"
      by (rule compaction_stage_reached) (rule stages_reached)
    then have "reached (\<lambda>st db. cs_candidate_ready st) db
        (compaction_stage prepare_candidate (compaction_stage (publish_outputs fm) (db, Ok)))"
      by (rule compaction_stage_reached) (rule stages_reached)
    then have "reached (\<lambda>st db. cs_version_published st) db (compaction_stage publish_compaction
        (compaction_stage prepare_candidate (compaction_stage (publish_outputs fm) (db, Ok))))"
      by (rule compaction_stage_reached) (rule stages_reached)
    then have x: "reached (\<lambda>st db. True) db ?x"
      by (rule compaction_stage_reached) (rule stages_reached)
    obtain db1 t where 1: "?x = (db1, t)"
      by force
    show ?thesis
      using run [unfolded ContinueCompaction_def 1] x [unfolded 1] finish_compaction_keeps [of db1] keeps_trans [of db db1] keeps_inv
      by (auto simp: reached_def compaction_stage_def split: if_splits)
  qed
  then show "keeps db db'" "ok s \<Longrightarrow> db_compaction db' = None"
    by blast+
qed

end
