(* ===== verification/ScanToken.thy ===== *)
theory ScanToken
  imports TableFormat
begin

text \<open>
  Continuation tokens and prefix bounds of \<^verbatim>\<open>src/scan.cpp\<close>. A token carries the range, the
  version and the sequence number of the scan that made it and the last key it returned, under a
  checksum; it is accepted only for the same range of an unchanged database.
\<close>

section \<open>Continuation tokens\<close>

definition kScanTokenMagic :: bytes where "kScanTokenMagic = ascii ''MKCT''"

abbreviation kScanTokenFormatVersion :: u8 where "kScanTokenFormatVersion \<equiv> 1"
abbreviation kScanTokenHeaderSize :: nat where "kScanTokenHeaderSize \<equiv> 44"
abbreviation kScanTokenChecksumOffset :: nat where "kScanTokenChecksumOffset \<equiv> 40"
abbreviation kScanTokenHasEnd :: u8 where "kScanTokenHasEnd \<equiv> 1"

record ScanBounds =
  sb_begin :: bytes
  sb_end :: "bytes option"

record DecodedScanToken =
  dt_version_id :: u64
  dt_last_sequence :: u64
  dt_last_key :: bytes

definition InvalidToken :: "string \<Rightarrow> status" where
  "InvalidToken msg = InvalidArgument (''scan continuation token: '' @ msg)"

definition CheckedAddSize :: "nat \<Rightarrow> nat \<Rightarrow> nat option" where
  "CheckedAddSize left right = (if left > size_max - right then None else Some (left + right))"

definition end_bytes :: "ScanBounds \<Rightarrow> bytes" where
  "end_bytes bounds = (case sb_end bounds of None \<Rightarrow> [] | Some upper \<Rightarrow> upper)"

definition token_header :: "ScanBounds \<Rightarrow> nat \<Rightarrow> u64 \<Rightarrow> u64 \<Rightarrow> bytes \<Rightarrow> bytes" where
  "token_header bounds total_size version sequence last_key =
     (let header = kScanTokenMagic @ [kScanTokenFormatVersion,
            if sb_end bounds \<noteq> None then kScanTokenHasEnd else 0];
          header = PutFixed16 header 0;
          header = PutFixed32 header (word_of_nat total_size);
          header = PutFixed64 header version;
          header = PutFixed64 header sequence;
          header = PutFixed32 header (word_of_nat (length (sb_begin bounds)));
          header = PutFixed32 header (word_of_nat (length (end_bytes bounds)))
      in PutFixed32 header (word_of_nat (length last_key)))"

definition EncodeScanToken :: "ScanBounds \<Rightarrow> u64 \<Rightarrow> u64 \<Rightarrow> bytes \<Rightarrow> bytes result" where
  "EncodeScanToken bounds version sequence last_key =
     (if last_key = [] \<or> length (sb_begin bounds) > u32_max \<or> length (end_bytes bounds) > u32_max \<or>
         length last_key > u32_max
      then Inl (InvalidArgument ''scan token fields are invalid'')
      else let too_large = InvalidArgument ''scan token is too large'' in
      or_fail (CheckedAddSize kScanTokenHeaderSize (length (sb_begin bounds))) too_large (\<lambda>total_size.
      or_fail (CheckedAddSize total_size (length (end_bytes bounds))) too_large (\<lambda>total_size.
      or_fail (CheckedAddSize total_size (length last_key)) too_large (\<lambda>total_size.
      if total_size > u32_max then Inl too_large
      else let
        payload = sb_begin bounds @ end_bytes bounds @ last_key;
        header = token_header bounds total_size version sequence last_key
      in Inr (PutFixed32 header (Crc32c (header @ payload)) @ payload)))))"

definition token_fields_invalid ::
  "Options \<Rightarrow> ScanBounds \<Rightarrow> nat \<Rightarrow> u8 \<Rightarrow> u8 \<Rightarrow> u16 \<Rightarrow> u32 \<Rightarrow> u32 \<Rightarrow> u32 \<Rightarrow> u32 \<Rightarrow> bool" where
  "token_fields_invalid options expected_bounds encoded_size format_version flags reserved total_size
       begin_size end_size last_key_size \<longleftrightarrow>
     (let has_end = (flags AND kScanTokenHasEnd \<noteq> 0) in
      format_version \<noteq> kScanTokenFormatVersion \<or> flags AND NOT kScanTokenHasEnd \<noteq> 0 \<or>
      reserved \<noteq> 0 \<or> unat total_size \<noteq> encoded_size \<or> has_end \<noteq> (sb_end expected_bounds \<noteq> None) \<or>
      (\<not> has_end \<and> end_size \<noteq> 0) \<or> unat begin_size > max_key_size options \<or>
      unat end_size > max_key_size options \<or> last_key_size = 0 \<or> unat last_key_size > max_key_size options)"

definition check_token_payload ::
  "ScanBounds \<Rightarrow> bool \<Rightarrow> bool \<Rightarrow> nat \<Rightarrow> nat \<Rightarrow> nat \<Rightarrow> bytes \<Rightarrow> bytes result" where
  "check_token_payload expected_bounds has_end current begin_size end_size last_key_size payload =
     (let
        first = substr payload 0 begin_size;
        payload = drop begin_size payload;
        upper = substr payload 0 end_size;
        payload = drop end_size payload;
        last_key = substr payload 0 last_key_size in
      if first \<noteq> sb_begin expected_bounds \<or> (has_end \<and> upper \<noteq> the (sb_end expected_bounds))
      then Inl (InvalidToken ''does not match the requested range'')
      else if \<not> current then Inl (InvalidToken ''is stale because the database changed'')
      else if last_key < sb_begin expected_bounds \<or>
        (case sb_end expected_bounds of None \<Rightarrow> False | Some upper \<Rightarrow> last_key \<ge> upper)
      then Inl (InvalidToken ''resume key is outside the requested range'')
      else Inr last_key)"

definition DecodeScanToken ::
  "bytes \<Rightarrow> ScanBounds \<Rightarrow> Options \<Rightarrow> u64 \<Rightarrow> u64 \<Rightarrow> DecodedScanToken result" where
  "DecodeScanToken encoded expected_bounds options expected_version expected_sequence =
     (if length encoded < kScanTokenHeaderSize then Inl (InvalidToken ''header is incomplete'')
      else if take 4 encoded \<noteq> kScanTokenMagic then Inl (InvalidToken ''magic is invalid'')
      else let bad = InvalidToken ''header fields cannot be decoded'';
        format_version = encoded ! 4; flags = encoded ! 5 in
      or_fail (DecodeFixed16 (substr_from encoded 6)) bad (\<lambda>reserved.
      or_fail (DecodeFixed32 (substr_from encoded 8)) bad (\<lambda>total_size.
      or_fail (DecodeFixed64 (substr_from encoded 12)) bad (\<lambda>version.
      or_fail (DecodeFixed64 (substr_from encoded 20)) bad (\<lambda>sequence.
      or_fail (DecodeFixed32 (substr_from encoded 28)) bad (\<lambda>begin_size.
      or_fail (DecodeFixed32 (substr_from encoded 32)) bad (\<lambda>end_size.
      or_fail (DecodeFixed32 (substr_from encoded 36)) bad (\<lambda>last_key_size.
      or_fail (DecodeFixed32 (substr_from encoded kScanTokenChecksumOffset)) bad (\<lambda>checksum.
      if token_fields_invalid options expected_bounds (length encoded) format_version flags reserved total_size
           begin_size end_size last_key_size
      then Inl (InvalidToken ''header fields are invalid'')
      else let lengths = InvalidToken ''payload lengths are invalid'' in
      or_fail (CheckedAddSize (unat begin_size) (unat end_size)) lengths (\<lambda>payload_size.
      or_fail (CheckedAddSize payload_size (unat last_key_size)) lengths (\<lambda>payload_size.
      if payload_size \<noteq> length encoded - kScanTokenHeaderSize then Inl lengths
      else if Crc32c (substr encoded 0 kScanTokenChecksumOffset @ substr_from encoded kScanTokenHeaderSize) \<noteq> checksum
      then Inl (InvalidToken ''checksum mismatch'')
      else and_then (check_token_payload expected_bounds (flags AND kScanTokenHasEnd \<noteq> 0)
          (version = expected_version \<and> sequence = expected_sequence)
          (unat begin_size) (unat end_size) (unat last_key_size) (substr_from encoded kScanTokenHeaderSize))
        (\<lambda>last_key. Inr \<lparr>dt_version_id = version, dt_last_sequence = sequence, dt_last_key = last_key\<rparr>))))))))))))"

text \<open>
  The smallest string above all strings with the prefix: the last byte that is not 255 is
  incremented and what follows it dropped.
\<close>

fun increment_last :: "bytes \<Rightarrow> bytes option" where
  "increment_last [] = None"
| "increment_last (b # rest) = (if b \<noteq> 255 then Some (rev ((b + 1) # rest)) else increment_last rest)"

definition PrefixUpperBound :: "bytes \<Rightarrow> bytes option" where
  "PrefixUpperBound prefix = increment_last (rev prefix)"


section \<open>The layout of a token\<close>

definition has_end_flag :: "ScanBounds \<Rightarrow> u8" where
  "has_end_flag bounds = (if sb_end bounds \<noteq> None then kScanTokenHasEnd else 0)"

definition token_prefix :: "ScanBounds \<Rightarrow> u64 \<Rightarrow> u64 \<Rightarrow> bytes \<Rightarrow> bytes" where
  "token_prefix bounds version sequence last_key =
     kScanTokenMagic @ [kScanTokenFormatVersion] @ [has_end_flag bounds] @ PutFixed16 [] 0 @
     PutFixed32 [] (word_of_nat (44 + length (sb_begin bounds) + length (end_bytes bounds) + length last_key)) @
     PutFixed64 [] version @ PutFixed64 [] sequence @
     PutFixed32 [] (word_of_nat (length (sb_begin bounds))) @
     PutFixed32 [] (word_of_nat (length (end_bytes bounds))) @ PutFixed32 [] (word_of_nat (length last_key))"

definition token_payload :: "ScanBounds \<Rightarrow> bytes \<Rightarrow> bytes" where
  "token_payload bounds last_key = sb_begin bounds @ end_bytes bounds @ last_key"

definition token_bytes :: "ScanBounds \<Rightarrow> u64 \<Rightarrow> u64 \<Rightarrow> bytes \<Rightarrow> bytes" where
  "token_bytes bounds version sequence last_key =
     (let pre = token_prefix bounds version sequence last_key; payload = token_payload bounds last_key in
      pre @ PutFixed32 [] (Crc32c (pre @ payload)) @ payload)"

lemma length_kScanTokenMagic [simp]: "length kScanTokenMagic = 4" "kScanTokenMagic \<noteq> []"
  by (simp_all add: kScanTokenMagic_def ascii_def)

lemma length_token_prefix [simp]: "length (token_prefix bounds version sequence last_key) = 40"
  by (simp add: token_prefix_def)

lemma length_token_bytes [simp]:
  "length (token_bytes bounds version sequence last_key) =
     44 + length (sb_begin bounds) + length (end_bytes bounds) + length last_key"
  by (simp add: token_bytes_def token_payload_def Let_def)

definition token_fits :: "ScanBounds \<Rightarrow> bytes \<Rightarrow> bool" where
  "token_fits bounds last_key \<longleftrightarrow> last_key \<noteq> [] \<and>
     44 + length (sb_begin bounds) + length (end_bytes bounds) + length last_key \<le> u32_max"

lemma EncodeScanToken_Inr_iff:
  "EncodeScanToken bounds version sequence last_key = Inr encoded \<longleftrightarrow>
     token_fits bounds last_key \<and> encoded = token_bytes bounds version sequence last_key"
proof (cases "token_fits bounds last_key")
  case True
  then have sum: "CheckedAddSize kScanTokenHeaderSize (length (sb_begin bounds)) = Some (44 + length (sb_begin bounds))"
    "CheckedAddSize (44 + length (sb_begin bounds)) (length (end_bytes bounds)) =
       Some (44 + length (sb_begin bounds) + length (end_bytes bounds))"
    "CheckedAddSize (44 + length (sb_begin bounds) + length (end_bytes bounds)) (length last_key) =
       Some (44 + length (sb_begin bounds) + length (end_bytes bounds) + length last_key)"
    by (auto simp: CheckedAddSize_def token_fits_def)
  have "EncodeScanToken bounds version sequence last_key = Inr (token_bytes bounds version sequence last_key)"
    using True unfolding EncodeScanToken_def Let_def
    by (simp only: sum or_fail_simps)
      (simp add: token_fits_def token_bytes_def token_prefix_def token_payload_def token_header_def Let_def
        has_end_flag_def codec_simps)
  then show ?thesis
    using True by auto
next
  case False
  then show ?thesis
    by (auto simp: EncodeScanToken_def Let_def or_fail_Inr CheckedAddSize_def token_fits_def split: if_splits)
qed

section \<open>What a token is accepted for\<close>

definition key_within :: "ScanBounds \<Rightarrow> bytes \<Rightarrow> bool" where
  "key_within bounds key \<longleftrightarrow> sb_begin bounds \<le> key \<and>
     (case sb_end bounds of None \<Rightarrow> True | Some upper \<Rightarrow> key < upper)"

definition token_acceptable :: "Options \<Rightarrow> ScanBounds \<Rightarrow> bytes \<Rightarrow> bool" where
  "token_acceptable options bounds last_key \<longleftrightarrow> key_within bounds last_key \<and>
     length (sb_begin bounds) \<le> max_key_size options \<and> length (end_bytes bounds) \<le> max_key_size options \<and>
     length last_key \<le> max_key_size options"

lemma has_end_flag_valid:
  "flags AND NOT kScanTokenHasEnd = 0 \<and> (flags AND kScanTokenHasEnd \<noteq> 0) = (sb_end bounds \<noteq> None) \<longleftrightarrow>
     flags = has_end_flag bounds"
proof -
  have "flags = (flags AND 1) OR (flags AND NOT 1)"
    by (simp flip: bit.conj_disj_distrib)
  then have "flags AND NOT 1 = 0 \<Longrightarrow> flags = flags AND 1"
    by (metis or.right_neutral)
  moreover have "flags AND 1 = 0 \<or> flags AND 1 = 1"
    by (simp add: and_one_eq mod_2_eq_odd)
  ultimately show ?thesis
    by (auto simp: has_end_flag_def)
qed

lemma check_token_payload_Inr_iff:
  assumes "length payload = b + e + l" and "has_end \<longleftrightarrow> sb_end bounds \<noteq> None" and "\<not> has_end \<Longrightarrow> e = 0"
  shows "check_token_payload bounds has_end current b e l payload = Inr last_key \<longleftrightarrow>
    current \<and> b = length (sb_begin bounds) \<and> e = length (end_bytes bounds) \<and> l = length last_key \<and>
    payload = token_payload bounds last_key \<and> key_within bounds last_key"
proof
  assume "check_token_payload bounds has_end current b e l payload = Inr last_key"
  then have eq: "take b payload = sb_begin bounds" "take e (drop b payload) = end_bytes bounds" "current"
      "take l (drop e (drop b payload)) = last_key" "key_within bounds last_key"
    using assms(2,3)
    by (auto simp: check_token_payload_def Let_def substr_def end_bytes_def key_within_def not_less not_le
        split: if_splits option.splits)
  have "payload = take b payload @ take e (drop b payload) @ take l (drop e (drop b payload))"
    using assms(1) by (metis append_take_drop_id drop_drop length_drop take_all_iff add_diff_cancel_left' order_refl add.commute)
  moreover have "length (take b payload) = b" "length (take e (drop b payload)) = e"
      "length (take l (drop e (drop b payload))) = l"
    using assms(1) by simp_all
  ultimately show "current \<and> b = length (sb_begin bounds) \<and> e = length (end_bytes bounds) \<and> l = length last_key \<and>
    payload = token_payload bounds last_key \<and> key_within bounds last_key"
    unfolding eq(1,2,4) token_payload_def using eq(3,5) by simp
next
  assume "current \<and> b = length (sb_begin bounds) \<and> e = length (end_bytes bounds) \<and> l = length last_key \<and>
    payload = token_payload bounds last_key \<and> key_within bounds last_key"
  then show "check_token_payload bounds has_end current b e l payload = Inr last_key"
    using assms(2)
    by (auto simp: check_token_payload_def Let_def substr_def end_bytes_def key_within_def token_payload_def not_less
        not_le split: option.splits)
qed

lemma token_payload_length [simp]:
  "length (token_payload bounds last_key) = length (sb_begin bounds) + length (end_bytes bounds) + length last_key"
  by (simp add: token_payload_def)

lemma token_bytes_parts:
  "take 4 (token_bytes bounds version sequence last_key) = kScanTokenMagic"
  "token_bytes bounds version sequence last_key ! 4 = kScanTokenFormatVersion"
  "token_bytes bounds version sequence last_key ! 5 = has_end_flag bounds"
  "DecodeFixed16 (drop 6 (token_bytes bounds version sequence last_key)) = Some 0"
  "DecodeFixed32 (drop 8 (token_bytes bounds version sequence last_key)) =
     Some (word_of_nat (44 + length (sb_begin bounds) + length (end_bytes bounds) + length last_key))"
  "DecodeFixed64 (drop 12 (token_bytes bounds version sequence last_key)) = Some version"
  "DecodeFixed64 (drop 20 (token_bytes bounds version sequence last_key)) = Some sequence"
  "DecodeFixed32 (drop 28 (token_bytes bounds version sequence last_key)) = Some (word_of_nat (length (sb_begin bounds)))"
  "DecodeFixed32 (drop 32 (token_bytes bounds version sequence last_key)) = Some (word_of_nat (length (end_bytes bounds)))"
  "DecodeFixed32 (drop 36 (token_bytes bounds version sequence last_key)) = Some (word_of_nat (length last_key))"
  "DecodeFixed32 (drop 40 (token_bytes bounds version sequence last_key)) =
     Some (Crc32c (token_prefix bounds version sequence last_key @ token_payload bounds last_key))"
  "take 40 (token_bytes bounds version sequence last_key) = token_prefix bounds version sequence last_key"
  "drop 44 (token_bytes bounds version sequence last_key) = token_payload bounds last_key"
  by (simp_all add: token_bytes_def Let_def token_prefix_def dec_put nth_append)


text \<open>The fields of an accepted token, one by one.\<close>

lemma DecodeScanToken_fields:
  "DecodeScanToken encoded bounds options v s = Inr t \<longleftrightarrow>
     44 \<le> length encoded \<and> take 4 encoded = kScanTokenMagic \<and>
     (\<exists>b e l. DecodeFixed16 (drop 6 encoded) = Some 0 \<and>
        DecodeFixed32 (drop 8 encoded) = Some (word_of_nat (length encoded)) \<and> length encoded \<le> u32_max \<and>
        DecodeFixed64 (drop 12 encoded) = Some (dt_version_id t) \<and>
        DecodeFixed64 (drop 20 encoded) = Some (dt_last_sequence t) \<and>
        DecodeFixed32 (drop 28 encoded) = Some b \<and> DecodeFixed32 (drop 32 encoded) = Some e \<and>
        DecodeFixed32 (drop 36 encoded) = Some l \<and>
        DecodeFixed32 (drop 40 encoded) = Some (Crc32c (take 40 encoded @ drop 44 encoded)) \<and>
        encoded ! 4 = kScanTokenFormatVersion \<and> encoded ! 5 = has_end_flag bounds \<and>
        (sb_end bounds = None \<longrightarrow> e = 0) \<and> unat b \<le> max_key_size options \<and> unat e \<le> max_key_size options \<and>
        l \<noteq> 0 \<and> unat l \<le> max_key_size options \<and> length encoded = 44 + unat b + unat e + unat l \<and>
        check_token_payload bounds (sb_end bounds \<noteq> None) (dt_version_id t = v \<and> dt_last_sequence t = s)
          (unat b) (unat e) (unat l) (drop 44 encoded) = Inr (dt_last_key t))"
proof (cases "44 \<le> length encoded")
  case True
  obtain r n v' s' b e l c where fields: "DecodeFixed16 (drop 6 encoded) = Some r"
      "DecodeFixed32 (drop 8 encoded) = Some n" "DecodeFixed64 (drop 12 encoded) = Some v'"
      "DecodeFixed64 (drop 20 encoded) = Some s'" "DecodeFixed32 (drop 28 encoded) = Some b"
      "DecodeFixed32 (drop 32 encoded) = Some e" "DecodeFixed32 (drop 36 encoded) = Some l"
      "DecodeFixed32 (drop 40 encoded) = Some c"
    using True fixed16.dec_drop_total [of 6 encoded] fixed32.dec_drop_total [of 8 encoded]
      fixed64.dec_drop_total [of 12 encoded] fixed64.dec_drop_total [of 20 encoded] fixed32.dec_drop_total [of 28 encoded]
      fixed32.dec_drop_total [of 32 encoded] fixed32.dec_drop_total [of 36 encoded] fixed32.dec_drop_total [of 40 encoded]
    by auto
  have size: "unat n = length encoded \<longleftrightarrow> n = word_of_nat (length encoded) \<and> length encoded \<le> u32_max"
    using unat_of_nat_u32 [of "length encoded"] unat_lt_u32 [of n] by (auto simp: word_unat_eq_iff)
  have sum: "CheckedAddSize (unat b) (unat e) = Some (unat b + unat e)"
      "CheckedAddSize (unat b + unat e) (unat l) = Some (unat b + unat e + unat l)"
    using unat_lt_u32 [of b] unat_lt_u32 [of e] unat_lt_u32 [of l] by (auto simp: CheckedAddSize_def)
  have invalid: "\<not> token_fields_invalid options bounds (length encoded) (encoded ! 4) (encoded ! 5) r n b e l \<longleftrightarrow>
      encoded ! 4 = kScanTokenFormatVersion \<and> encoded ! 5 = has_end_flag bounds \<and> r = 0 \<and>
      unat n = length encoded \<and> (sb_end bounds = None \<longrightarrow> e = 0) \<and> unat b \<le> max_key_size options \<and>
      unat e \<le> max_key_size options \<and> l \<noteq> 0 \<and> unat l \<le> max_key_size options"
    unfolding token_fields_invalid_def Let_def has_end_flag_valid [symmetric] by (auto simp: not_less)
  have flag: "encoded ! 5 = has_end_flag bounds \<Longrightarrow> (encoded ! 5 AND kScanTokenHasEnd \<noteq> 0) = (sb_end bounds \<noteq> None)"
    by (simp add: has_end_flag_def)
  have "DecodeScanToken encoded bounds options v s = Inr t \<longleftrightarrow> take 4 encoded = kScanTokenMagic \<and>
      \<not> token_fields_invalid options bounds (length encoded) (encoded ! 4) (encoded ! 5) r n b e l \<and>
      length encoded = 44 + unat b + unat e + unat l \<and> Crc32c (take 40 encoded @ drop 44 encoded) = c \<and>
      v' = dt_version_id t \<and> s' = dt_last_sequence t \<and>
      check_token_payload bounds (encoded ! 5 AND kScanTokenHasEnd \<noteq> 0) (v' = v \<and> s' = s)
        (unat b) (unat e) (unat l) (drop 44 encoded) = Inr (dt_last_key t)"
    unfolding DecodeScanToken_def Let_def fields or_fail_simps sum
    using True by (cases t) (auto simp: and_then_Inr substr_0 split: if_splits)
  then show ?thesis
    unfolding fields invalid size using True flag by (auto simp del: unat_of_nat)
qed (simp add: DecodeScanToken_def)


lemma token_prefix_fields:
  assumes "44 \<le> length encoded" and "take 4 encoded = kScanTokenMagic" "encoded ! 4 = kScanTokenFormatVersion"
    "encoded ! 5 = has_end_flag bounds" "DecodeFixed16 (drop 6 encoded) = Some 0"
    "DecodeFixed32 (drop 8 encoded) = Some (word_of_nat (44 + length (sb_begin bounds) + length (end_bytes bounds) + length last_key))"
    "DecodeFixed64 (drop 12 encoded) = Some version" "DecodeFixed64 (drop 20 encoded) = Some sequence"
    "DecodeFixed32 (drop 28 encoded) = Some (word_of_nat (length (sb_begin bounds)))"
    "DecodeFixed32 (drop 32 encoded) = Some (word_of_nat (length (end_bytes bounds)))"
    "DecodeFixed32 (drop 36 encoded) = Some (word_of_nat (length last_key))"
  shows "take 40 encoded = token_prefix bounds version sequence last_key"
proof -
  have "take 40 encoded = take 4 encoded @ take 1 (drop 4 encoded) @ take 1 (drop 5 encoded) @
      take 2 (drop 6 encoded) @ take 4 (drop 8 encoded) @ take 8 (drop 12 encoded) @ take 8 (drop 20 encoded) @
      take 4 (drop 28 encoded) @ take 4 (drop 32 encoded) @ take 4 (drop 36 encoded)"
    using take_add [of 4 36 encoded] take_add [of 1 35 "drop 4 encoded"] take_add [of 1 34 "drop 5 encoded"]
      take_add [of 2 32 "drop 6 encoded"] take_add [of 4 28 "drop 8 encoded"] take_add [of 8 20 "drop 12 encoded"]
      take_add [of 8 12 "drop 20 encoded"] take_add [of 4 8 "drop 28 encoded"] take_add [of 4 4 "drop 32 encoded"]
    by simp
  moreover have "take 1 (drop 4 encoded) = [kScanTokenFormatVersion]" "take 1 (drop 5 encoded) = [has_end_flag bounds]"
    using assms(1,3,4) take_one_drop [of 4 encoded] take_one_drop [of 5 encoded] by simp_all
  ultimately show ?thesis
    using assms(2,5-) by (simp only: token_prefix_def fixed16.dec_Some_iff fixed32.dec_Some_iff fixed64.dec_Some_iff)
qed

lemma DecodeScanToken_Inr_iff:
  "DecodeScanToken encoded bounds options v s = Inr t \<longleftrightarrow>
     token_fits bounds (dt_last_key t) \<and> token_acceptable options bounds (dt_last_key t) \<and>
     dt_version_id t = v \<and> dt_last_sequence t = s \<and> encoded = token_bytes bounds v s (dt_last_key t)"
  (is "?dec \<longleftrightarrow> ?tok")
proof
  assume ?dec
  then obtain b e l where f: "44 \<le> length encoded" "take 4 encoded = kScanTokenMagic"
      "DecodeFixed16 (drop 6 encoded) = Some 0" "DecodeFixed32 (drop 8 encoded) = Some (word_of_nat (length encoded))"
      "length encoded \<le> u32_max" "DecodeFixed64 (drop 12 encoded) = Some (dt_version_id t)"
      "DecodeFixed64 (drop 20 encoded) = Some (dt_last_sequence t)" "DecodeFixed32 (drop 28 encoded) = Some b"
      "DecodeFixed32 (drop 32 encoded) = Some e" "DecodeFixed32 (drop 36 encoded) = Some l"
      "DecodeFixed32 (drop 40 encoded) = Some (Crc32c (take 40 encoded @ drop 44 encoded))"
      "encoded ! 4 = kScanTokenFormatVersion" "encoded ! 5 = has_end_flag bounds" "sb_end bounds = None \<longrightarrow> e = 0"
      "unat b \<le> max_key_size options" "unat e \<le> max_key_size options" "l \<noteq> 0" "unat l \<le> max_key_size options"
      "length encoded = 44 + unat b + unat e + unat l"
      "check_token_payload bounds (sb_end bounds \<noteq> None) (dt_version_id t = v \<and> dt_last_sequence t = s)
         (unat b) (unat e) (unat l) (drop 44 encoded) = Inr (dt_last_key t)"
    unfolding DecodeScanToken_fields by (elim exE conjE) (rule that)
  have p: "dt_version_id t = v" "dt_last_sequence t = s" "unat b = length (sb_begin bounds)"
      "unat e = length (end_bytes bounds)" "unat l = length (dt_last_key t)"
      "drop 44 encoded = token_payload bounds (dt_last_key t)" "key_within bounds (dt_last_key t)"
    using f(14,19,20) check_token_payload_Inr_iff [of "drop 44 encoded" "unat b" "unat e" "unat l"] by auto
  have words: "b = word_of_nat (length (sb_begin bounds))" "e = word_of_nat (length (end_bytes bounds))"
      "l = word_of_nat (length (dt_last_key t))"
    by (simp_all flip: p(3-5))
  have pre: "take 40 encoded = token_prefix bounds v s (dt_last_key t)"
    by (rule token_prefix_fields) (use f p words in simp_all)
  have "encoded = take 40 encoded @ take 4 (drop 40 encoded) @ drop 44 encoded"
    using split_at_two [of encoded 40 4] by simp
  then have "encoded = token_bytes bounds v s (dt_last_key t)"
    using f(11) by (simp add: pre p(6) token_bytes_def Let_def fixed32.dec_Some_iff)
  moreover have "dt_last_key t \<noteq> []"
    using p(5) f(17) by (auto simp: unat_eq_0)
  ultimately show ?tok
    using f p by (auto simp: token_fits_def token_acceptable_def)
next
  assume tok: ?tok
  let ?b = "word_of_nat (length (sb_begin bounds)) :: u32" and ?e = "word_of_nat (length (end_bytes bounds)) :: u32"
    and ?l = "word_of_nat (length (dt_last_key t)) :: u32"
  have sizes: "unat ?b = length (sb_begin bounds)" "unat ?e = length (end_bytes bounds)"
      "unat ?l = length (dt_last_key t)"
    using tok by (auto simp: token_fits_def intro!: unat_of_nat_u32)
  have zero: "?l \<noteq> 0" "sb_end bounds = None \<longrightarrow> ?e = 0"
    using sizes(3) tok by (auto simp: token_fits_def end_bytes_def simp del: unat_of_nat)
  have payload: "check_token_payload bounds (sb_end bounds \<noteq> None) (dt_version_id t = v \<and> dt_last_sequence t = s)
      (unat ?b) (unat ?e) (unat ?l) (drop 44 encoded) = Inr (dt_last_key t)"
    unfolding sizes using tok
    by (subst check_token_payload_Inr_iff) (auto simp: token_bytes_parts token_acceptable_def end_bytes_def)
  have head: "44 \<le> length encoded" "take 4 encoded = kScanTokenMagic"
    using tok by (simp_all add: token_bytes_parts)
  show ?dec
    unfolding DecodeScanToken_fields
    by (rule conjI, rule head, rule conjI, rule head, rule exI [of _ ?b], rule exI [of _ ?e], rule exI [of _ ?l])
      (use tok sizes zero payload in \<open>simp add: token_bytes_parts token_fits_def token_acceptable_def del: unat_of_nat\<close>)
qed

lemma PrefixUpperBound_Nil: "PrefixUpperBound [] = None"
  by (simp add: PrefixUpperBound_def)

lemma increment_last_snoc:
  "increment_last (xs @ [b]) =
     (case increment_last xs of Some u \<Rightarrow> Some (b # u) | None \<Rightarrow> if b \<noteq> 255 then Some [b + 1] else None)"
  by (induction xs) auto

lemma PrefixUpperBound_Cons:
  "PrefixUpperBound (b # p) =
     (case PrefixUpperBound p of Some u \<Rightarrow> Some (b # u) | None \<Rightarrow> if b \<noteq> 255 then Some [b + 1] else None)"
  by (simp add: PrefixUpperBound_def increment_last_snoc)

lemma byte_max: "\<not> 255 < (c :: byte)"
  using unsigned_less [of c, where 'a = nat] by (simp add: word_less_nat_alt)

lemma byte_successor: "b \<noteq> 255 \<Longrightarrow> c < b + 1 \<longleftrightarrow> c \<le> (b :: byte)"
  using unsigned_less [of b, where 'a = nat] by (simp add: word_less_nat_alt word_le_nat_alt unat_word_ariths word_unat_eq_iff less_Suc_eq_le)
    
section \<open>Properties\<close>

text \<open>
  C34. Tokens are accepted exactly where they were issued. \<open>DecodeScanToken\<close> accepts a byte string for
  a range, a version and a sequence number and returns a resume key if and only if the string is
  what \<open>EncodeScanToken\<close> produces for that range, version, sequence number and key, the key lies in
  the range, and no part exceeds the key size limit. A token for another range or for a database
  that has changed since, or any other byte string, is refused.
\<close>

theorem ScanToken_roundtrip:
  "DecodeScanToken encoded bounds options version sequence = Inr t \<longleftrightarrow>
     EncodeScanToken bounds version sequence (dt_last_key t) = Inr encoded \<and>
     dt_version_id t = version \<and> dt_last_sequence t = sequence \<and>
     token_acceptable options bounds (dt_last_key t)"
  unfolding DecodeScanToken_Inr_iff EncodeScanToken_Inr_iff by blast

text \<open>
  C35. The range of a prefix scan is exact: a key lies between the prefix and its upper bound, or
  above the prefix when there is no bound, if and only if it begins with the prefix. This includes
  the empty prefix and prefixes that consist of or end in bytes 255.
\<close>

theorem PrefixUpperBound_exact:
  "prefix \<le> key \<and> (case PrefixUpperBound prefix of None \<Rightarrow> True | Some upper \<Rightarrow> key < upper) \<longleftrightarrow>
     (\<exists>rest. key = prefix @ rest)"
proof (induction prefix arbitrary: key)
  case Nil
  then show ?case
    by (simp add: PrefixUpperBound_Nil)
next
  case (Cons b p)
  show ?case
  proof (cases key)
    case (Cons c k)
    show ?thesis
      using Cons.IH [of k] byte_successor [of b c]
      by (cases "PrefixUpperBound p") (auto simp: PrefixUpperBound_Cons Cons not_le word_le_less_eq byte_max)
  qed simp
qed

end
