(* ===== verification/Scan.thy ===== *)
theory Scan
  imports Database ScanToken
begin

text \<open>
  \<^verbatim>\<open>src/scan.cpp\<close>: scans merge the MemTables and an iterator per table over a key range and return
  the live keys page by page.

  An iterator works on a copy of the reader that made it: a scan does not change the database.
\<close>

section \<open>Sources\<close>

record ScanStatistics =
  sources_considered :: u64
  ss_tables_considered :: u64
  ss_data_blocks_read :: u64
  ss_bytes_read :: u64
  records_examined :: u64
  obsolete_versions_skipped :: u64
  tombstones_skipped :: u64

definition empty_ScanStatistics :: ScanStatistics where
  "empty_ScanStatistics = \<lparr>sources_considered = 0, ss_tables_considered = 0, ss_data_blocks_read = 0,
     ss_bytes_read = 0, records_examined = 0, obsolete_versions_skipped = 0, tombstones_skipped = 0\<rparr>"

record ScanSource =
  memory_records :: "MemTableRecord list"
  memory_position :: nat
  memory_end :: "bytes option"
  table_iterator :: "SSTableIterator option"

definition source_current :: "ScanSource \<Rightarrow> MemTableRecord option" where
  "source_current src =
     (case table_iterator src of
        Some it \<Rightarrow> iterator_record it
      | None \<Rightarrow>
        if memory_position src \<ge> length (memory_records src) then None
        else let rec = memory_records src ! memory_position src in
        (case memory_end src of
           None \<Rightarrow> Some rec
         | Some upper \<Rightarrow> if r_key rec \<ge> upper then None else Some rec))"

definition source_next :: "ScanSource \<Rightarrow> ScanSource \<times> status" where
  "source_next src =
     (case table_iterator src of
        Some it \<Rightarrow> (let (it, s) = Next it in (src\<lparr>table_iterator := Some it\<rparr>, s))
      | None \<Rightarrow>
        (if memory_position src < length (memory_records src)
         then src\<lparr>memory_position := memory_position src + 1\<rparr> else src, Ok))"

definition AddMemorySource ::
  "MemTable \<Rightarrow> ScanBounds \<Rightarrow> bytes \<Rightarrow> ScanSource list \<times> ScanStatistics \<Rightarrow> ScanSource list \<times> ScanStatistics" where
  "AddMemorySource memtable bounds resume_after = (\<lambda>(sources, statistics).
     if MemTable_empty memtable then (sources, statistics)
     else let
       lower = (if resume_after = [] then sb_begin bounds else resume_after);
       records = Records memtable;
       src = \<lparr>memory_records = records, memory_position = record_lower_bound records lower,
              memory_end = sb_end bounds, table_iterator = None\<rparr>;
       src = (case source_current src of
          None \<Rightarrow> src
        | Some rec \<Rightarrow> if resume_after \<noteq> [] \<and> r_key rec = resume_after
            then src\<lparr>memory_position := memory_position src + 1\<rparr> else src)
     in (sources @ [src], statistics\<lparr>sources_considered := sources_considered statistics + 1\<rparr>))"

fun add_table_sources ::
  "SSTableReader list \<Rightarrow> ScanBounds \<Rightarrow> bytes \<Rightarrow> ScanSource list \<times> ScanStatistics \<Rightarrow>
     (ScanSource list \<times> ScanStatistics) result" where
  "add_table_sources [] bounds resume_after acc = Inr acc"
| "add_table_sources (table # tables) bounds resume_after acc =
     (let effective_begin = (if resume_after = [] then sb_begin bounds else resume_after) in
      if md_maximum_key (rd_metadata table) < effective_begin \<or>
        (case sb_end bounds of None \<Rightarrow> False | Some upper \<Rightarrow> md_minimum_key (rd_metadata table) \<ge> upper)
      then add_table_sources tables bounds resume_after acc
      else and_then (NewIterator effective_begin (sb_end bounds) table) (\<lambda>it.
        let src = \<lparr>memory_records = [], memory_position = 0, memory_end = None, table_iterator = Some it\<rparr>;
          (src, s) = (case source_current src of
             None \<Rightarrow> (src, Ok)
           | Some rec \<Rightarrow> if resume_after \<noteq> [] \<and> r_key rec = resume_after then source_next src else (src, Ok)) in
        if \<not> ok s then Inl s
        else let (sources, statistics) = acc in
          add_table_sources tables bounds resume_after
            (sources @ [src], statistics\<lparr>sources_considered := sources_considered statistics + 1\<rparr>)))"

definition AccumulateIteratorStatistics :: "ScanSource list \<Rightarrow> ScanStatistics \<Rightarrow> ScanStatistics" where
  "AccumulateIteratorStatistics sources statistics =
     foldl (\<lambda>st src. case table_iterator src of
         None \<Rightarrow> st
       | Some it \<Rightarrow> (let table = it_statistics it in
           st\<lparr>ss_tables_considered := ss_tables_considered st + tables_considered table,
              ss_data_blocks_read := ss_data_blocks_read st + data_blocks_read table,
              ss_bytes_read := ss_bytes_read st + st_bytes_read table\<rparr>)) statistics sources"


section \<open>The merge\<close>

record ScanEntry =
  se_key :: bytes
  se_value :: bytes

record ScanOptions =
  so_begin :: bytes
  so_end :: "bytes option"
  so_limit :: nat
  so_continuation_token :: bytes

record ScanResult =
  sr_status :: status
  sr_entries :: "ScanEntry list"
  sr_truncated :: bool
  sr_continuation_token :: bytes
  sr_statistics :: ScanStatistics

definition empty_ScanResult :: ScanResult where
  "empty_ScanResult = \<lparr>sr_status = Ok, sr_entries = [], sr_truncated = False, sr_continuation_token = [],
     sr_statistics = empty_ScanStatistics\<rparr>"

definition ScanError :: "status \<Rightarrow> ScanResult" where
  "ScanError s = empty_ScanResult\<lparr>sr_status := s\<rparr>"

text \<open>
  The heap holds indexes of sources. A source without a current record is never pushed, and the
  comparison dereferences the current records, so the null tests of the inner loop never fire;
  an index out of range counts as a source without a record.
\<close>

definition current_at :: "ScanSource list \<Rightarrow> nat \<Rightarrow> MemTableRecord option" where
  "current_at sources i = (if i < length sources then source_current (sources ! i) else None)"

abbreviation record_at :: "ScanSource list \<Rightarrow> nat \<Rightarrow> MemTableRecord" where
  "record_at sources i \<equiv> the (current_at sources i)"

definition initial_heap :: "ScanSource list \<Rightarrow> nat list" where
  "initial_heap sources =
     foldl (\<lambda>heap i. if current_at sources i \<noteq> None then heap_push i heap else heap) [] [0..<length sources]"

fun advance_sources :: "nat list \<Rightarrow> ScanSource list \<Rightarrow> nat list \<Rightarrow> (ScanSource list \<times> nat list) result" where
  "advance_sources [] sources heap = Inr (sources, heap)"
| "advance_sources (i # rest) sources heap =
     (let (src, s) = source_next (sources ! i); sources = sources[i := src] in
      if \<not> ok s then Inl s
      else advance_sources rest sources (if current_at sources i \<noteq> None then heap_push i heap else heap))"

definition sequence_in_two_sources :: status where
  "sequence_in_two_sources = Corruption ''scan found one Sequence number in multiple sources''"

definition count_round :: "nat \<Rightarrow> ScanStatistics \<Rightarrow> ScanStatistics" where
  "count_round n st = st\<lparr>records_examined := records_examined st + word_of_nat n,
     obsolete_versions_skipped := obsolete_versions_skipped st + word_of_nat (n - 1)\<rparr>"

text \<open>One round: the visible record of the smallest key, and sources and heap moved past the key.\<close>

definition scan_round ::
  "ScanSource list \<Rightarrow> nat list \<Rightarrow> (MemTableRecord \<times> nat \<times> ScanSource list \<times> nat list) result" where
  "scan_round sources heap =
     (case current_at sources (heap_top (cursor_later (record_at sources)) heap) of
        None \<Rightarrow> Inl (Corruption ''scan heap contains an empty source'')
      | Some first \<Rightarrow>
        and_then (collect_same_key (record_at sources) sequence_in_two_sources (r_key first) heap None [])
          (\<lambda>(heap, winner, same_key).
           case winner of
             None \<Rightarrow> Inl (Corruption ''scan merge lost a user key'')
           | Some visible \<Rightarrow>
             and_then (advance_sources same_key sources heap) (\<lambda>(sources, heap).
               Inr (visible, length same_key, sources, heap))))"

text \<open>
  Every round moves the source at the top of the heap forward; the weight of a source bounds how
  often that can happen. A block holds at most \<open>2\<^sup>3\<^sup>2 - 1\<close> records.
\<close>

definition iterator_weight :: "SSTableIterator \<Rightarrow> nat" where
  "iterator_weight it =
     (if it_valid it
      then (length (rd_index (it_reader it)) - it_block it) * 4294967296 + (length (it_records it) - it_record it)
      else 0)"

definition source_weight :: "ScanSource \<Rightarrow> nat" where
  "source_weight src =
     (case table_iterator src of
        Some it \<Rightarrow> iterator_weight it
      | None \<Rightarrow> length (memory_records src) - memory_position src)"

lemma LoadBlock_weight:
  assumes "LoadBlock (it_block it + 1) it = (it', s)" and "it_valid it"
  shows "iterator_weight it' \<le> (length (rd_index (it_reader it)) - it_block it) * 4294967296"
proof (cases "it_valid it'")
  case True
  then obtain rd st rs where rb: "ReadBlock (it_block it + 1) (it_statistics it) (it_reader it) = (rd, st, Inr rs)"
      and it': "it_reader it' = rd" "it_records it' = rs" "it_block it' = it_block it + 1" "it_record it' = 0"
      and less: "it_block it + 1 < length (rd_index (it_reader it))"
    using assms(1) by (auto simp: LoadBlock_def Let_def split: if_splits prod.splits sum.splits)
  have "length rs \<le> u32_max"
    using ReadBlock_Inr(2) [OF rb] decode_block_sound(6) by (auto simp: block_of_def)
  moreover have "rd_index rd = rd_index (it_reader it)"
    using ReadBlock_same [OF rb] by (simp add: same_table_def)
  moreover obtain d where "length (rd_index (it_reader it)) = it_block it + 1 + Suc d"
    using less less_iff_Suc_add by auto
  ultimately show ?thesis
    by (simp add: iterator_weight_def it')
qed (simp add: iterator_weight_def)

lemma skip_blocks_weight:
  assumes "skip_blocks it = (it', r)" and "it_valid it"
  shows "iterator_weight it' \<le> iterator_weight it"
proof (cases "it_record it < length (it_records it)")
  case True
  then show ?thesis
    using assms(1) by (subst (asm) skip_blocks.simps) simp
next
  case False
  obtain it1 s where load: "LoadBlock (it_block it + 1) it = (it1, s)" by force
  have "it' = it1"
    using assms(1) False load LoadBlock_positioned [OF load]
    by (subst (asm) skip_blocks.simps) (auto simp: skip_blocks.simps [of it1] split: if_splits)
  moreover have "(length (rd_index (it_reader it)) - it_block it) * 4294967296 \<le> iterator_weight it"
    by (simp add: iterator_weight_def assms(2))
  ultimately show ?thesis
    using LoadBlock_weight [OF load assms(2)] by simp
qed

lemma EnforceUpperBound_weight: "iterator_weight (EnforceUpperBound it) \<le> iterator_weight it"
  by (auto simp: EnforceUpperBound_def iterator_weight_def split: option.splits)

lemma Next_weight:
  assumes "Next it = (it', s)"
  shows "iterator_weight it' \<le> iterator_weight it"
    and "iterator_record it \<noteq> None \<Longrightarrow> iterator_weight it' < iterator_weight it"
proof -
  have step: "iterator_weight it' \<le> iterator_weight (it\<lparr>it_record := it_record it + 1\<rparr>)" if valid: "it_valid it"
  proof -
    obtain it1 r where skip: "skip_blocks (it\<lparr>it_record := it_record it + 1\<rparr>) = (it1, r)" by force
    have "iterator_weight it1 \<le> iterator_weight (it\<lparr>it_record := it_record it + 1\<rparr>)"
      using skip_blocks_weight [OF skip] valid by simp
    then show ?thesis
      using assms valid skip EnforceUpperBound_weight [of it1]
      by (auto simp: Next_def split: option.splits intro: order_trans)
  qed
  show "iterator_weight it' \<le> iterator_weight it"
    using step assms by (cases "it_valid it") (auto simp: iterator_weight_def Next_def)
  assume "iterator_record it \<noteq> None"
  then have "it_valid it" "it_record it < length (it_records it)"
    by (auto simp: iterator_record_def split: if_splits)
  then show "iterator_weight it' < iterator_weight it"
    using step by (auto simp: iterator_weight_def)
qed

lemma source_next_weight:
  assumes "source_next src = (src', s)"
  shows "source_weight src' \<le> source_weight src"
    and "source_current src \<noteq> None \<Longrightarrow> source_weight src' < source_weight src"
  using assms Next_weight
  by (auto simp: source_next_def source_current_def source_weight_def Let_def split: option.splits prod.splits if_splits)

abbreviation sources_weight :: "ScanSource list \<Rightarrow> nat" where
  "sources_weight sources \<equiv> sum_list (map source_weight sources)"

lemma sum_list_update_le:
  assumes "f y \<le> f (xs ! i)"
  shows "sum_list (map f (xs[i := y])) \<le> (sum_list (map f xs) :: nat)"
    and "i < length xs \<Longrightarrow> f y < f (xs ! i) \<Longrightarrow> sum_list (map f (xs[i := y])) < sum_list (map f xs)"
proof -
  have split: "sum_list (map f (xs[i := z])) = sum_list (map f (take i xs)) + f z + sum_list (map f (drop (Suc i) xs))"
    if "i < length xs" for z
    using that by (simp add: upd_conv_take_nth_drop)
  show "sum_list (map f (xs[i := y])) \<le> sum_list (map f xs)"
    using assms split [of y] split [of "xs ! i"] by (cases "i < length xs") (simp_all add: list_update_beyond)
  show "i < length xs \<Longrightarrow> f y < f (xs ! i) \<Longrightarrow> sum_list (map f (xs[i := y])) < sum_list (map f xs)"
    using split [of y] split [of "xs ! i"] by simp
qed

lemma advance_sources_weight:
  assumes "advance_sources is sources heap = Inr (sources', heap')"
  shows "sources_weight sources' \<le> sources_weight sources"
    and "i \<in> set is \<Longrightarrow> current_at sources i \<noteq> None \<Longrightarrow> sources_weight sources' < sources_weight sources"
proof -
  have "sources_weight sources' \<le> sources_weight sources \<and>
      (i \<in> set is \<longrightarrow> current_at sources i \<noteq> None \<longrightarrow> sources_weight sources' < sources_weight sources)"
    using assms
  proof (induction "is" arbitrary: sources heap)
    case (Cons j js)
    obtain src s where nxt: "source_next (sources ! j) = (src, s)" by force
    let ?sources = "sources[j := src]"
    obtain heap1 where rest: "advance_sources js ?sources heap1 = Inr (sources', heap')"
      using Cons.prems nxt by (auto simp: Let_def split: if_splits)
    note IH = Cons.IH [OF rest]
    note w = sum_list_update_le [of source_weight src sources j, OF source_next_weight(1) [OF nxt]]
    have "i \<in> set js" if "i \<in> set (j # js)" "i \<noteq> j"
      using that by simp
    moreover have "current_at ?sources i = current_at sources i" if "i \<noteq> j"
      using that by (simp add: current_at_def)
    moreover have "sources_weight ?sources < sources_weight sources" if "current_at sources j \<noteq> None"
      using that w(2) source_next_weight(2) [OF nxt] by (auto simp: current_at_def split: if_splits)
    ultimately show ?case
      using IH w(1) by (cases "i = j") fastforce+
  qed simp
  then show "sources_weight sources' \<le> sources_weight sources"
    "i \<in> set is \<Longrightarrow> current_at sources i \<noteq> None \<Longrightarrow> sources_weight sources' < sources_weight sources"
    by blast+
qed

lemma collect_takes_top:
  assumes "heap \<noteq> []" and "key = r_key (current (heap_top (cursor_later current) heap))"
    and "collect_same_key current reused key heap None [] = Inr (heap', winner, same)"
  shows "heap_top (cursor_later current) heap \<in> set same"
proof -
  have "mset same = {#c \<in># mset heap. r_key (current c) = key#}"
    using collect_first [of heap key current reused, OF assms(1,2)] assms(3) by auto
  then show ?thesis
    using heap_top_in [OF assms(1), of "cursor_later current"] assms(2)
    by (metis (mono_tags, lifting) mem_Collect_eq set_mset_filter set_mset_mset)
qed

lemma scan_round_weight:
  assumes "scan_round sources heap = Inr (visible, n, sources', heap')" and "heap \<noteq> []"
  shows "sources_weight sources' < sources_weight sources"
proof -
  let ?t = "heap_top (cursor_later (record_at sources)) heap"
  obtain first same heap1 where first: "current_at sources ?t = Some first"
    and collect: "collect_same_key (record_at sources) sequence_in_two_sources (r_key first) heap None [] =
      Inr (heap1, Some visible, same)"
    and adv: "advance_sources same sources heap1 = Inr (sources', heap')"
    using assms(1) by (auto simp: scan_round_def and_then_Inr split: option.splits)
  have "?t \<in> set same"
    by (rule collect_takes_top [OF assms(2) _ collect]) (simp add: first)
  then show ?thesis
    using advance_sources_weight(2) [OF adv] first by simp
qed

definition emit_entry :: "MemTableRecord \<Rightarrow> ScanStatistics \<times> ScanEntry list \<Rightarrow> ScanStatistics \<times> ScanEntry list" where
  "emit_entry visible = (\<lambda>(statistics, entries).
     if r_type visible = kDeletion
     then (statistics\<lparr>tombstones_skipped := tombstones_skipped statistics + 1\<rparr>, entries)
     else (statistics, entries @ [\<lparr>se_key = r_key visible, se_value = r_value visible\<rparr>]))"

function scan_loop ::
  "nat \<Rightarrow> ScanSource list \<Rightarrow> nat list \<Rightarrow> ScanStatistics \<times> ScanEntry list \<Rightarrow>
     (ScanSource list \<times> ScanStatistics \<times> ScanEntry list) result" where
  "scan_loop limit sources heap acc =
     (if heap = [] \<or> length (snd acc) > limit then Inr (sources, acc)
      else case scan_round sources heap of
        Inl s \<Rightarrow> Inl s
      | Inr (visible, n, sources, heap) \<Rightarrow>
          scan_loop limit sources heap (emit_entry visible (map_prod (count_round n) id acc)))"
  by pat_completeness auto

termination scan_loop
  by (relation "measure (\<lambda>(_, sources, _, _). sources_weight sources)") (auto dest: scan_round_weight)

declare scan_loop.simps [simp del]

section \<open>Scans of the database\<close>

definition scan_sources :: "ScanBounds \<Rightarrow> bytes \<Rightarrow> Database \<Rightarrow> (ScanSource list \<times> ScanStatistics) result" where
  "scan_sources bounds resume_after db =
     (let acc = AddMemorySource (db_mutable db) bounds resume_after ([], empty_ScanStatistics);
          acc = (case db_immutable db of
             None \<Rightarrow> acc
           | Some immutable \<Rightarrow> AddMemorySource (ig_memtable immutable) bounds resume_after acc)
      in add_table_sources (db_tables db) bounds resume_after acc)"

definition finish_scan :: "ScanBounds \<Rightarrow> nat \<Rightarrow> Database \<Rightarrow> ScanStatistics \<Rightarrow> ScanEntry list \<Rightarrow> ScanResult" where
  "finish_scan bounds limit db statistics collected =
     (let result = empty_ScanResult\<lparr>sr_entries := collected, sr_statistics := statistics\<rparr> in
      if length collected > limit
      then let collected = take limit collected in
        case EncodeScanToken bounds (version_id (db_version db)) (db_last_sequence db) (se_key (last collected)) of
          Inl s \<Rightarrow> ScanError s
        | Inr token \<Rightarrow> result\<lparr>sr_entries := collected, sr_truncated := True, sr_continuation_token := token\<rparr>
      else result)"

definition scan_merge :: "ScanBounds \<Rightarrow> bytes \<Rightarrow> nat \<Rightarrow> Database \<Rightarrow> ScanResult" where
  "scan_merge bounds resume_after limit db =
     (case scan_sources bounds resume_after db of
        Inl s \<Rightarrow> ScanError s
      | Inr (sources, statistics) \<Rightarrow>
        (case scan_loop limit sources (initial_heap sources) (statistics, []) of
           Inl s \<Rightarrow> ScanError s
         | Inr (sources, statistics, collected) \<Rightarrow>
             finish_scan bounds limit db (AccumulateIteratorStatistics sources statistics) collected))"

definition resume_key :: "ScanBounds \<Rightarrow> bytes \<Rightarrow> Database \<Rightarrow> bytes result" where
  "resume_key bounds token db =
     (if token = [] then Inr []
      else and_then (DecodeScanToken token bounds (db_options db) (version_id (db_version db)) (db_last_sequence db))
        (\<lambda>t. Inr (dt_last_key t)))"

definition Database_Scan :: "ScanOptions \<Rightarrow> Database \<Rightarrow> ScanResult" where
  "Database_Scan scan_options db =
     (if \<not> IsRunningLocked db then ScanError (Closed ''database is not running'')
      else if so_limit scan_options = 0 \<or> so_limit scan_options > maximum_scan_entries (db_options db)
      then ScanError (InvalidArgument ''scan limit must be between one and the configured maximum'')
      else if length (so_begin scan_options) > max_key_size (db_options db) \<or>
        (case so_end scan_options of None \<Rightarrow> False | Some upper \<Rightarrow> length upper > max_key_size (db_options db))
      then ScanError (InvalidArgument ''scan bound exceeds configured maximum key size'')
      else if (case so_end scan_options of None \<Rightarrow> False | Some upper \<Rightarrow> so_begin scan_options > upper)
      then ScanError (InvalidArgument ''scan range is reversed'')
      else let bounds = \<lparr>sb_begin = so_begin scan_options, sb_end = so_end scan_options\<rparr> in
      case resume_key bounds (so_continuation_token scan_options) db of
        Inl s \<Rightarrow> ScanError s
      | Inr resume_after \<Rightarrow>
        if sb_end bounds = Some (sb_begin bounds) then empty_ScanResult
        else scan_merge bounds resume_after (so_limit scan_options) db)"

definition Database_ScanPrefix :: "bytes \<Rightarrow> nat \<Rightarrow> bytes \<Rightarrow> Database \<Rightarrow> ScanResult" where
  "Database_ScanPrefix prefix limit continuation_token =
     Database_Scan \<lparr>so_begin = prefix, so_end = PrefixUpperBound prefix, so_limit = limit,
       so_continuation_token = continuation_token\<rparr>"

definition Database_LoadAll :: "nat \<Rightarrow> bytes \<Rightarrow> Database \<Rightarrow> ScanResult" where
  "Database_LoadAll limit continuation_token = Database_ScanPrefix [] limit continuation_token"

end
