(* ===== verification/ScanPages.thy ===== *)
theory ScanPages
  imports Scan
begin

text \<open>
  What the scans of theory \<open>Scan\<close> return: the sources are cursors, the merge delivers the newest
  version of every key of the range, and the pages of a scan add up to the live entries.
\<close>

section \<open>Sources are cursors\<close>

definition source_remaining :: "ScanSource \<Rightarrow> MemTableRecord list" where
  "source_remaining src =
     (case table_iterator src of
        Some it \<Rightarrow> iterator_remaining it
      | None \<Rightarrow> takeWhile (below (memory_end src)) (drop (memory_position src) (memory_records src)))"

definition source_ok :: "ScanSource \<Rightarrow> bool" where
  "source_ok src \<longleftrightarrow> records_sorted (source_remaining src) \<and>
     (case table_iterator src of Some it \<Rightarrow> iterator_ok it | None \<Rightarrow> records_sorted (memory_records src))"

definition source_benign :: "ScanSource \<Rightarrow> bool" where
  "source_benign src \<longleftrightarrow> (case table_iterator src of Some it \<Rightarrow> iterator_benign it | None \<Rightarrow> True)"

lemma records_sorted_drop: "records_sorted rs \<Longrightarrow> records_sorted (drop n rs)"
  by (simp add: sorted_wrt_drop drop_map [symmetric])

lemma records_sorted_tl: "records_sorted rs \<Longrightarrow> records_sorted (tl rs)"
  by (cases rs) simp_all

lemma takeWhile_below_tl:
  "records_sorted rs \<Longrightarrow> takeWhile (below upper) (tl rs) = tl (takeWhile (below upper) rs)"
proof (cases rs)
  case (Cons r rest)
  assume sorted: "records_sorted rs"
  show ?thesis
  proof (cases "below upper r")
    case False
    then have "\<not> below upper q" if "q \<in> set rest" for q
      using that sorted by (fastforce simp: Cons below_def split: option.splits)
    then show ?thesis
      using False by (cases rest) (simp_all add: Cons)
  qed (simp add: Cons)
qed simp

lemma memory_current:
  assumes "table_iterator src = None"
  shows "source_current src = (case source_remaining src of [] \<Rightarrow> None | r # _ \<Rightarrow> Some r)"
  using assms
  by (cases "memory_position src < length (memory_records src)")
    (auto simp: source_current_def source_remaining_def Let_def below_def Cons_nth_drop_Suc [symmetric] not_le
      split: option.splits)

lemma memory_next:
  assumes "source_next src = (src', s)" and "table_iterator src = None" and "records_sorted (memory_records src)"
  shows "s = Ok" and "table_iterator src' = None" and "memory_records src' = memory_records src"
    and "source_remaining src' = tl (source_remaining src)"
proof -
  let ?rest = "drop (memory_position src) (memory_records src)"
  have src': "src' = (if memory_position src < length (memory_records src)
      then src\<lparr>memory_position := memory_position src + 1\<rparr> else src)" and "s = Ok"
    using assms(1,2) by (simp_all add: source_next_def)
  then show fields: "s = Ok" "table_iterator src' = None" "memory_records src' = memory_records src"
    using assms(2) by simp_all
  have "memory_end src' = memory_end src"
    by (simp add: src')
  moreover have "drop (memory_position src') (memory_records src) = tl ?rest"
    by (simp add: src' tl_drop drop_Suc)
  ultimately show "source_remaining src' = tl (source_remaining src)"
    using takeWhile_below_tl [OF records_sorted_drop [OF assms(3)], of "memory_end src" "memory_position src"] assms(2)
      fields by (simp add: source_remaining_def)
qed

interpretation scan_cursor: record_cursor source_current source_next source_remaining source_ok source_benign
proof
  fix src
  assume "source_ok src"
  then show "source_current src = (case source_remaining src of [] \<Rightarrow> None | r # _ \<Rightarrow> Some r)"
    using table_cursor.current_remaining memory_current
    by (cases "table_iterator src") (simp_all add: source_ok_def source_current_def source_remaining_def)
next
  fix src src' s
  assume ok: "source_ok src" and run: "source_next src = (src', s)"
  show "source_ok src' \<and> source_remaining src' = tl (source_remaining src)" if "ok s"
  proof (cases "table_iterator src")
    case None
    then show ?thesis
      using memory_next [OF run None] ok records_sorted_tl by (simp add: source_ok_def)
  next
    case (Some it)
    then obtain it' where it': "Next it = (it', s)" "table_iterator src' = Some it'"
      using run by (auto simp: source_next_def Let_def split: prod.splits)
    then show ?thesis
      using table_cursor.advance_remaining [OF _ it'(1) that] ok Some records_sorted_tl
      by (simp add: source_ok_def source_remaining_def)
  qed
  show "ok s \<and> source_benign src'" if "source_benign src"
  proof (cases "table_iterator src")
    case None
    then show ?thesis
      using memory_next [OF run None] ok by (simp add: source_ok_def source_benign_def)
  next
    case (Some it)
    then obtain it' where it': "Next it = (it', s)" "table_iterator src' = Some it'"
      using run by (auto simp: source_next_def Let_def split: prod.splits)
    then show ?thesis
      using table_cursor.advance_succeeds [OF _ _ it'(1)] ok Some that by (simp add: source_ok_def source_benign_def)
  qed
qed

section \<open>The merge delivers the newest versions\<close>

abbreviation rest_at :: "ScanSource list \<Rightarrow> nat \<Rightarrow> MemTableRecord list" where
  "rest_at sources i \<equiv> source_remaining (sources ! i)"

text \<open>The sources on the heap stand at a record; each is there once.\<close>

definition heap_ok :: "ScanSource list \<Rightarrow> nat list \<Rightarrow> bool" where
  "heap_ok sources heap \<longleftrightarrow> distinct heap \<and>
     (\<forall>i \<in> set heap. i < length sources \<and> source_ok (sources ! i) \<and> rest_at sources i \<noteq> [])"

abbreviation heap_pool :: "ScanSource list \<Rightarrow> nat list \<Rightarrow> MemTableRecord multiset" where
  "heap_pool sources heap \<equiv> pool (rest_at sources) (mset heap)"

abbreviation heap_benign :: "ScanSource list \<Rightarrow> nat list \<Rightarrow> bool" where
  "heap_benign sources heap \<equiv> \<forall>i \<in> set heap. source_benign (sources ! i)"

lemma current_at_ok:
  assumes "i < length sources" and "source_ok (sources ! i)"
  shows "current_at sources i = (case rest_at sources i of [] \<Rightarrow> None | r # _ \<Rightarrow> Some r)"
  using assms scan_cursor.current_remaining by (simp add: current_at_def)

lemma heap_standing:
  assumes "heap_ok sources heap" and "i \<in> set heap"
  shows "standing (record_at sources) (rest_at sources) i" and "current_at sources i \<noteq> None"
proof -
  have i: "i < length sources" "source_ok (sources ! i)" "rest_at sources i \<noteq> []"
    using assms by (auto simp: heap_ok_def)
  then show "standing (record_at sources) (rest_at sources) i" "current_at sources i \<noteq> None"
    using current_at_ok [OF i(1,2)] by (cases "rest_at sources i"; simp add: standing_def source_ok_def)+
qed

lemma advance_sources_spec:
  assumes "distinct is" and "\<forall>i \<in> set is. i < length sources \<and> source_ok (sources ! i)"
  shows "case advance_sources is sources heap of
      Inl s \<Rightarrow> \<exists>i \<in> set is. \<not> source_benign (sources ! i)
    | Inr (sources', heap') \<Rightarrow> length sources' = length sources \<and>
        (\<forall>j. j \<notin> set is \<longrightarrow> sources' ! j = sources ! j) \<and>
        (\<forall>i \<in> set is. source_ok (sources' ! i) \<and> rest_at sources' i = tl (rest_at sources i) \<and>
           (source_benign (sources ! i) \<longrightarrow> source_benign (sources' ! i))) \<and>
        mset heap' = mset heap + {#i \<in># mset is. tl (rest_at sources i) \<noteq> []#}"
  using assms
proof (induction "is" arbitrary: sources heap)
  case (Cons i js)
  obtain src s where nxt: "source_next (sources ! i) = (src, s)" by force
  let ?sources = "sources[i := src]"
  let ?heap = "if current_at ?sources i \<noteq> None then heap_push i heap else heap"
  have i: "i < length sources" "source_ok (sources ! i)" "i \<notin> set js"
    using Cons.prems by simp_all
  note free = scan_cursor.advance_succeeds [OF i(2) _ nxt]
  show ?case
  proof (cases "ok s")
    case False
    then show ?thesis
      using nxt free by auto
  next
    case True
    note src = scan_cursor.advance_remaining [OF i(2) nxt True]
    have other: "?sources ! j = sources ! j" if "j \<noteq> i" for j
      using that by simp
    have js: "j \<in> set js \<Longrightarrow> ?sources ! j = sources ! j" for j
      using i(3) other by metis
    have "\<forall>j \<in> set js. j < length ?sources \<and> source_ok (?sources ! j)"
      using Cons.prems(2) js by simp
    note IH = Cons.IH [OF _ this, of ?heap]
    have at: "current_at ?sources i = None \<longleftrightarrow> tl (rest_at sources i) = []"
      using current_at_ok [of i ?sources] src i(1) by (auto split: list.splits)
    have run: "advance_sources (i # js) sources heap = advance_sources js ?sources ?heap"
      using nxt True by (simp add: Let_def)
    have rest: "{#j \<in># mset js. tl (rest_at ?sources j) \<noteq> []#} = {#j \<in># mset js. tl (rest_at sources j) \<noteq> []#}"
      using js by (intro filter_mset_cong) simp_all
    show ?thesis
    proof (cases "advance_sources js ?sources ?heap")
      case (Inl t)
      then show ?thesis
        using IH Cons.prems(1) js unfolding run by auto
    next
      case (Inr x)
      obtain sources' heap' where x: "x = (sources', heap')" by force
      have r: "length sources' = length sources" "\<And>j. j \<notin> set js \<Longrightarrow> sources' ! j = ?sources ! j"
        "\<And>j. j \<in> set js \<Longrightarrow> source_ok (sources' ! j) \<and> rest_at sources' j = tl (rest_at sources j) \<and>
           (source_benign (sources ! j) \<longrightarrow> source_benign (sources' ! j))"
        "mset heap' = mset ?heap + {#j \<in># mset js. tl (rest_at sources j) \<noteq> []#}"
        using IH Cons.prems(1) js unfolding Inr x rest by auto
      have "sources' ! i = src"
        using r(2) [of i] i(1,3) by simp
      then show ?thesis
        unfolding run Inr x sum.case prod.case
        using r src free i(3) at other by (auto simp: heap_push_def)
    qed
  qed
qed simp

text \<open>What a round leaves on the heap.\<close>

lemma pool_filter_nonempty: "pool (\<lambda>i. rest i) {#i \<in># A. rest i \<noteq> []#} = pool rest A"
  by (induction A) (auto simp: pool_def)

lemma advance_pool:
  assumes ok: "heap_ok sources heap" and split: "mset heap = mset heap1 + mset same"
    and run: "advance_sources same sources heap1 = Inr (sources', heap')"
  shows "heap_ok sources' heap'" and "heap_pool sources' heap' = pool_after (rest_at sources) heap1 same"
    and "heap_benign sources heap \<Longrightarrow> heap_benign sources' heap'"
proof -
  have "distinct (heap1 @ same)"
    using ok split by (metis heap_ok_def mset_append mset_eq_imp_distinct_iff)
  then have d: "distinct heap1" "distinct same" "set heap1 \<inter> set same = {}"
    by simp_all
  have set: "set heap = set heap1 \<union> set same"
    by (metis split set_mset_mset set_mset_union)
  have "\<forall>i \<in> set same. i < length sources \<and> source_ok (sources ! i)"
    using ok set by (auto simp: heap_ok_def)
  from advance_sources_spec [OF d(2) this, of heap1]
  have r: "length sources' = length sources" "\<And>j. j \<notin> set same \<Longrightarrow> sources' ! j = sources ! j"
    "\<And>i. i \<in> set same \<Longrightarrow> source_ok (sources' ! i) \<and> rest_at sources' i = tl (rest_at sources i) \<and>
       (source_benign (sources ! i) \<longrightarrow> source_benign (sources' ! i))"
    "mset heap' = mset heap1 + {#i \<in># mset same. tl (rest_at sources i) \<noteq> []#}"
    using run by auto
  have old: "sources' ! j = sources ! j" if "j \<in> set heap1" for j
    using r(2) that d(3) by blast
  have set': "set heap' = set heap1 \<union> {i \<in> set same. tl (rest_at sources i) \<noteq> []}"
    using arg_cong [OF r(4), of set_mset] by simp
  have "{#i \<in># mset same. tl (rest_at sources i) \<noteq> []#} = mset (filter (\<lambda>i. tl (rest_at sources i) \<noteq> []) same)"
    by (simp add: mset_filter)
  then have "mset heap' = mset (heap1 @ filter (\<lambda>i. tl (rest_at sources i) \<noteq> []) same)"
    using r(4) by simp
  moreover have "distinct (heap1 @ filter (\<lambda>i. tl (rest_at sources i) \<noteq> []) same)"
    using d by auto
  ultimately have "distinct heap'"
    by (metis mset_eq_imp_distinct_iff)
  then show "heap_ok sources' heap'"
    using ok set r old unfolding heap_ok_def set' by auto
  have "heap_pool sources' heap' = pool (rest_at sources) (mset heap1) +
      pool (rest_at sources') {#i \<in># mset same. tl (rest_at sources i) \<noteq> []#}"
    using pool_cong [of "mset heap1" "rest_at sources'" "rest_at sources"] old by (simp add: r(4))
  also have "pool (rest_at sources') {#i \<in># mset same. tl (rest_at sources i) \<noteq> []#} =
      pool (tl \<circ> rest_at sources) {#i \<in># mset same. (tl \<circ> rest_at sources) i \<noteq> []#}"
    unfolding comp_def by (rule pool_cong) (simp add: r(3))
  also have "\<dots> = pool (tl \<circ> rest_at sources) (mset same)"
    by (rule pool_filter_nonempty)
  finally show "heap_pool sources' heap' = pool_after (rest_at sources) heap1 same"
    by (simp add: pool_after_def)
  show "heap_benign sources' heap'" if "heap_benign sources heap"
    using that set r(3) old unfolding set' by auto
qed

lemma scan_round_spec:
  assumes ok: "heap_ok sources heap" and "heap \<noteq> []"
  shows "case scan_round sources heap of
      Inl s \<Rightarrow> s = sequence_in_two_sources \<and> \<not> unambiguous (heap_pool sources heap) \<or> \<not> heap_benign sources heap
    | Inr (w, n, sources', heap') \<Rightarrow> heap_ok sources' heap' \<and>
        (heap_benign sources heap \<longrightarrow> heap_benign sources' heap') \<and>
        (\<forall>q \<in># heap_pool sources' heap'. r_key w < r_key q) \<and>
        (unambiguous (heap_pool sources heap) \<longleftrightarrow> unambiguous (heap_pool sources' heap')) \<and>
        (\<forall>r. strictly_newest (heap_pool sources heap) r \<longleftrightarrow> r = w \<or> strictly_newest (heap_pool sources' heap') r)"
proof -
  let ?cur = "record_at sources"
  let ?t = "heap_top (cursor_later ?cur) heap"
  have "?t \<in> set heap"
    using assms(2) by (rule heap_top_in)
  then obtain first where first: "current_at sources ?t = Some first"
    using heap_standing(2) [OF ok] by blast
  have st: "\<forall>i \<in> set heap. standing ?cur (rest_at sources) i"
    using heap_standing(1) [OF ok] by blast
  have key: "r_key first = r_key (?cur ?t)"
    by (simp add: first)
  note round = merge_round [of heap "r_key first" ?cur, OF assms(2) key st, of sequence_in_two_sources]
  show ?thesis
  proof (cases "collect_same_key ?cur sequence_in_two_sources (r_key first) heap None []")
    case (Inl s)
    then show ?thesis
      using round first by (simp add: scan_round_def)
  next
    case (Inr x)
    obtain heap1 winner same where x: "x = (heap1, winner, same)"
      by (cases x)
    note r = round [unfolded Inr x sum.case prod.case]
    have split: "mset heap = mset heap1 + mset same"
      using r by blast
    obtain w where w: "winner = Some w" "r_key w = r_key first"
      "\<forall>r. strictly_newest (heap_pool sources heap) r \<longleftrightarrow> r = w \<or> strictly_newest (pool_after (rest_at sources) heap1 same) r"
      using r by blast
    have run: "scan_round sources heap = and_then (advance_sources same sources heap1) (\<lambda>(sources, heap).
        Inr (w, length same, sources, heap))"
      using first Inr x w(1) by (simp add: scan_round_def)
    have "distinct (heap1 @ same)" "set same \<subseteq> set heap"
      using ok split by (metis heap_ok_def mset_append mset_eq_imp_distinct_iff)
        (metis split set_mset_mset set_mset_union Un_upper2)
    then have "distinct same" "\<forall>i \<in> set same. i < length sources \<and> source_ok (sources ! i)"
      using ok by (auto simp: heap_ok_def)
    note adv = advance_sources_spec [OF this, of heap1]
    show ?thesis
    proof (cases "advance_sources same sources heap1")
      case (Inl s)
      then show ?thesis
        using adv \<open>set same \<subseteq> set heap\<close> run by auto
    next
      case (Inr y)
      obtain sources' heap' where y: "y = (sources', heap')" by force
      note pool = advance_pool [OF ok split Inr [unfolded y]]
      have "\<forall>q \<in># heap_pool sources' heap'. r_key w < r_key q"
        "unambiguous (heap_pool sources heap) \<longleftrightarrow> unambiguous (heap_pool sources' heap')"
        unfolding pool(2) w(2) using r by blast+
      then show ?thesis
        unfolding run Inr y and_then_simps prod.case sum.case
        using pool(1,3) w(3) by (auto simp: pool(2))
    qed
  qed
qed

definition scan_entry :: "MemTableRecord \<Rightarrow> ScanEntry" where
  "scan_entry r = \<lparr>se_key = r_key r, se_value = r_value r\<rparr>"

definition live :: "MemTableRecord list \<Rightarrow> ScanEntry list" where
  "live rs = map scan_entry (filter (\<lambda>r. r_type r \<noteq> kDeletion) rs)"

lemma live_simps [simp]: "live [] = []" "live (r # rs) = (if r_type r \<noteq> kDeletion then scan_entry r # live rs else live rs)"
    "live (rs @ qs) = live rs @ live qs"
  by (simp_all add: live_def)

lemma emit_entry_live: "snd (emit_entry w (st, es)) = es @ live [w]"
  by (simp add: emit_entry_def scan_entry_def)

definition loop_result ::
  "nat \<Rightarrow> ScanSource list \<Rightarrow> nat list \<Rightarrow> ScanEntry list \<Rightarrow> (ScanSource list \<times> ScanStatistics \<times> ScanEntry list) result \<Rightarrow> bool" where
  "loop_result limit sources heap es res \<longleftrightarrow>
     (case res of
        Inl s \<Rightarrow> s = sequence_in_two_sources \<and> \<not> unambiguous (heap_pool sources heap) \<or> \<not> heap_benign sources heap
      | Inr (_, _, es') \<Rightarrow>
        (\<exists>rs more. merged (heap_pool sources heap) (rs @ more) \<and> es' = es @ live rs \<and>
           (more = [] \<and> unambiguous (heap_pool sources heap) \<or> length es' > limit)))"

lemma merged_Cons:
  assumes "merged P' rs" and "\<forall>q \<in># P'. r_key w < r_key q"
    and "\<forall>r. strictly_newest P r \<longleftrightarrow> r = w \<or> strictly_newest P' r"
  shows "merged P (w # rs)"
  using assms by (auto simp: merged_def strictly_newest_def)

lemma newest_exists: "\<exists>rs. merged P rs"
  using newest_merged ex_mset by metis

lemma scan_loop_spec:
  assumes "heap_ok sources heap"
  shows "loop_result limit sources heap (snd acc) (scan_loop limit sources heap acc)"
  using assms
proof (induction limit sources heap acc rule: scan_loop.induct)
  case (1 limit sources heap acc)
  show ?case
  proof (cases "heap = [] \<or> length (snd acc) > limit")
    case True
    obtain more where more: "merged (heap_pool sources heap) more"
      using newest_exists by blast
    have "more = [] \<and> unambiguous (heap_pool sources heap)" if "heap = []"
      using more that by (auto simp: merged_def strictly_newest_def unambiguous_def)
    then have "\<exists>rs more. merged (heap_pool sources heap) (rs @ more) \<and> snd acc = snd acc @ live rs \<and>
        (more = [] \<and> unambiguous (heap_pool sources heap) \<or> length (snd acc) > limit)"
      using True more by (intro exI [of _ "[]"] exI [of _ more]) auto
    moreover have "scan_loop limit sources heap acc = Inr (sources, fst acc, snd acc)"
      using True by (subst scan_loop.simps) auto
    ultimately show ?thesis
      by (simp only: loop_result_def sum.case prod.case)
  next
    case False
    then have run: "scan_loop limit sources heap acc = (case scan_round sources heap of Inl s \<Rightarrow> Inl s
      | Inr (w, n, sources, heap) \<Rightarrow> scan_loop limit sources heap (emit_entry w (map_prod (count_round n) id acc)))"
      by (subst scan_loop.simps) auto
    have round: "case scan_round sources heap of
      Inl s \<Rightarrow> s = sequence_in_two_sources \<and> \<not> unambiguous (heap_pool sources heap) \<or> \<not> heap_benign sources heap
    | Inr (w, n, sources', heap') \<Rightarrow> heap_ok sources' heap' \<and>
        (heap_benign sources heap \<longrightarrow> heap_benign sources' heap') \<and>
        (\<forall>q \<in># heap_pool sources' heap'. r_key w < r_key q) \<and>
        (unambiguous (heap_pool sources heap) \<longleftrightarrow> unambiguous (heap_pool sources' heap')) \<and>
        (\<forall>r. strictly_newest (heap_pool sources heap) r \<longleftrightarrow> r = w \<or> strictly_newest (heap_pool sources' heap') r)"
      using scan_round_spec [OF "1.prems"] False by blast
    show ?thesis
    proof (cases "scan_round sources heap")
      case (Inl s)
      then show ?thesis
        using round run by (simp add: loop_result_def)
    next
      case (Inr x)
      obtain w n sources' heap' where x: "x = (w, n, sources', heap')"
        by (metis prod_cases4)
      note r = round [unfolded Inr x sum.case prod.case]
      let ?acc = "emit_entry w (map_prod (count_round n) id acc)"
      have es: "snd ?acc = snd acc @ live [w]"
        by (cases acc) (simp add: emit_entry_live)
      have IH: "loop_result limit sources' heap' (snd ?acc) (scan_loop limit sources' heap' ?acc)"
        using "1.IH" [OF False Inr x [symmetric] refl refl] r by blast
      have eq: "scan_loop limit sources heap acc = scan_loop limit sources' heap' ?acc"
        using run by (simp add: Inr x)
      show ?thesis
      proof (cases "scan_loop limit sources' heap' ?acc")
        case (Inl s)
        then show ?thesis
          using IH r unfolding eq by (auto simp: loop_result_def)
      next
        case (Inr y)
        obtain s2 st2 es2 where y: "y = (s2, st2, es2)"
          by (metis prod_cases3)
        obtain rs more where m: "merged (heap_pool sources' heap') (rs @ more)" "es2 = snd ?acc @ live rs"
            "more = [] \<and> unambiguous (heap_pool sources' heap') \<or> length es2 > limit"
          using IH by (auto simp: loop_result_def Inr y)
        have "merged (heap_pool sources heap) ((w # rs) @ more)" "es2 = snd acc @ live (w # rs)"
          using merged_Cons [OF m(1)] r m(2) by (simp_all add: es)
        then show ?thesis
          using m(3) r unfolding eq Inr y loop_result_def sum.case prod.case by blast
      qed
    qed
  qed
qed

section \<open>The sources of a scan\<close>

text \<open>The records a scan is about: in the range, and after the resume key if there is one.\<close>

definition scan_range :: "ScanBounds \<Rightarrow> bytes \<Rightarrow> MemTableRecord \<Rightarrow> bool" where
  "scan_range bounds resume r \<longleftrightarrow>
     in_range (sb_begin bounds) (sb_end bounds) r \<and> (resume \<noteq> [] \<longrightarrow> resume < r_key r)"

abbreviation scan_lower :: "ScanBounds \<Rightarrow> bytes \<Rightarrow> bytes" where
  "scan_lower bounds resume \<equiv> if resume = [] then sb_begin bounds else resume"

lemma skip_resume_key:
  assumes "records_sorted rs" and "resume = [] \<or> sb_begin bounds \<le> resume"
    and "qs = filter (in_range (scan_lower bounds resume) (sb_end bounds)) rs"
  shows "(case qs of [] \<Rightarrow> [] | q # qs' \<Rightarrow> if resume \<noteq> [] \<and> r_key q = resume then qs' else qs) =
    filter (scan_range bounds resume) rs"
proof (cases "resume = []")
  case True
  then have "scan_range bounds resume = in_range (sb_begin bounds) (sb_end bounds)"
    by (simp add: scan_range_def fun_eq_iff)
  then show ?thesis
    using assms(3) True by (auto split: list.splits)
next
  case False
  have sorted: "records_sorted qs"
    unfolding assms(3) using assms(1) by (simp add: sorted_wrt_map sorted_wrt_filter)
  have "filter (\<lambda>r. resume < r_key r) qs = filter (scan_range bounds resume) rs"
    unfolding assms(3) filter_filter using False assms(2)
    by (intro filter_cong) (auto simp: scan_range_def in_range_def)
  moreover have "resume \<le> r_key q" if "q \<in> set qs" for q
    using that False by (simp add: assms(3) in_range_def)
  note after = this calculation
  show ?thesis
  proof (cases qs)
    case Nil
    then show ?thesis
      using after(2) by simp
  next
    case (Cons q qs')
    have "resume < r_key p" if "p \<in> set qs'" for p
      using that after(1) [of q] sorted by (fastforce simp: Cons)
    then have "filter (\<lambda>r. resume < r_key r) qs' = qs'"
      by simp
    moreover have "resume < r_key q \<longleftrightarrow> r_key q \<noteq> resume"
      using after(1) [of q] by (auto simp: Cons)
    ultimately show ?thesis
      unfolding after(2) [symmetric] using False by (simp add: Cons)
  qed
qed

text \<open>New sources deliver exactly those records of their layer.\<close>

definition sources_deliver :: "ScanSource list \<Rightarrow> MemTableRecord list \<Rightarrow> bool" where
  "sources_deliver sources rs \<longleftrightarrow>
     (\<forall>src \<in> set sources. source_ok src) \<and> concat (map source_remaining sources) = rs"

lemma skip_current:
  assumes "source_ok src" and "source_current src = Some r"
  shows "source_remaining src = r # tl (source_remaining src)"
  using assms scan_cursor.current_remaining [OF assms(1)] by (cases "source_remaining src") auto

lemma AddMemorySource_deliver:
  assumes mt: "mt_wf memtable" and resume: "resume = [] \<or> sb_begin bounds \<le> resume"
    and run: "AddMemorySource memtable bounds resume (sources, st) = (sources', st')"
  obtains new where "sources' = sources @ new" "sources_deliver new (filter (scan_range bounds resume) (Records memtable))"
    "\<forall>src \<in> set new. source_benign src"
proof (cases "MemTable_empty memtable")
  case True
  then show thesis
    using that [of "[]"] run by (simp add: AddMemorySource_def sources_deliver_def MemTable_empty_Records)
next
  case False
  let ?rs = "Records memtable" and ?lower = "scan_lower bounds resume"
  have sorted: "records_sorted ?rs"
    using mt Records_sorted by (simp add: mt_wf_def)
  define src where "src = \<lparr>memory_records = ?rs, memory_position = record_lower_bound ?rs ?lower,
      memory_end = sb_end bounds, table_iterator = None\<rparr>"
  define src' where "src' = (case source_current src of None \<Rightarrow> src
      | Some r \<Rightarrow> if resume \<noteq> [] \<and> r_key r = resume then src\<lparr>memory_position := memory_position src + 1\<rparr> else src)"
  have rem: "source_remaining src = filter (in_range ?lower (sb_end bounds)) ?rs"
    unfolding in_range_filter [OF sorted, symmetric] sorted_drop_lower [OF sorted]
    by (simp only: source_remaining_def src_def ScanSource.simps option.case)
  have ok: "source_ok src"
    unfolding source_ok_def rem using sorted by (simp add: src_def sorted_wrt_map sorted_wrt_filter)
  note cur = scan_cursor.current_remaining [OF ok]
  have rem': "source_remaining src' = filter (scan_range bounds resume) ?rs"
  proof (cases "source_current src")
    case None
    then show ?thesis
      using skip_resume_key [OF sorted resume rem] cur by (simp add: src'_def split: list.splits)
  next
    case (Some r)
    have at: "memory_position src < length (memory_records src)"
      using Some by (auto simp: source_current_def src_def split: if_splits)
    then have "source_next src = (src\<lparr>memory_position := memory_position src + 1\<rparr>, Ok)"
      by (simp add: source_next_def src_def)
    from memory_next(4) [OF this] have "source_remaining (src\<lparr>memory_position := memory_position src + 1\<rparr>) = tl (source_remaining src)"
      using sorted by (simp add: src_def)
    then show ?thesis
      using skip_resume_key [OF sorted resume rem] skip_current [OF ok Some] Some
      by (auto simp: src'_def split: list.splits)
  qed
  have fields: "table_iterator src' = None" "memory_records src' = ?rs"
    by (auto simp: src'_def src_def split: option.splits)
  have "source_ok src'" "source_benign src'"
    using sorted by (simp_all add: source_ok_def source_benign_def rem' fields sorted_wrt_map sorted_wrt_filter)
  moreover have "sources' = sources @ [src']"
    using run False unfolding AddMemorySource_def Let_def prod.case src_def [symmetric] src'_def [symmetric] by simp
  ultimately show thesis
    using that [of "[src']"] rem' by (simp add: sources_deliver_def)
qed

lemma table_source:
  assumes t: "reader_sound t" and resume: "resume = [] \<or> sb_begin bounds \<le> resume"
    and it: "NewIterator (scan_lower bounds resume) (sb_end bounds) t = Inr it"
    and src: "src = \<lparr>memory_records = [], memory_position = 0, memory_end = None, table_iterator = Some it\<rparr>"
    and run: "(src', s) = (case source_current src of None \<Rightarrow> (src, Ok)
      | Some r \<Rightarrow> if resume \<noteq> [] \<and> r_key r = resume then source_next src else (src, Ok))"
  shows "ok s \<Longrightarrow> sources_deliver [src'] (filter (scan_range bounds resume) (table_records t))"
    and "benign_file (rd_file t) \<Longrightarrow> ok s \<and> source_benign src'"
proof -
  note range = NewIterator_range [OF t it]
  have sorted: "records_sorted (table_records t)"
    using t by (simp add: reader_sound_def)
  have rem: "source_remaining src = filter (in_range (scan_lower bounds resume) (sb_end bounds)) (table_records t)"
    by (simp only: source_remaining_def src ScanSource.simps option.case range(2))
  have ok: "source_ok src"
    unfolding source_ok_def rem using sorted range(1) by (simp add: src sorted_wrt_map sorted_wrt_filter)
  have benign: "source_benign src" if "benign_file (rd_file t)"
    using range(5) that by (simp add: source_benign_def src)
  note cur = scan_cursor.current_remaining [OF ok] and adv = scan_cursor.advance_remaining [OF ok]
    and free = scan_cursor.advance_succeeds [OF ok]
  show "sources_deliver [src'] (filter (scan_range bounds resume) (table_records t))" if "ok s"
    using skip_resume_key [OF sorted resume rem] cur ok run adv [of src' s] that
    by (auto simp: sources_deliver_def split: list.splits if_splits)
  show "ok s \<and> source_benign src'" if "benign_file (rd_file t)"
    using benign [OF that] run free [of src' s] by (auto split: option.splits if_splits)
qed

lemma add_table_sources_spec:
  assumes tables: "\<forall>t \<in> set tables. reader_sound t \<and> rd_options t = options"
    and resume: "resume = [] \<or> sb_begin bounds \<le> resume"
    and fit: "range_bounds options (scan_lower bounds resume) (sb_end bounds)"
  shows "case add_table_sources tables bounds resume (sources, st) of
      Inl s \<Rightarrow> \<exists>t \<in> set tables. \<not> benign_file (rd_file t)
    | Inr (sources', st') \<Rightarrow> \<exists>new. sources' = sources @ new \<and>
        sources_deliver new (filter (scan_range bounds resume) (concat (map table_records tables))) \<and>
        ((\<forall>t \<in> set tables. benign_file (rd_file t)) \<longrightarrow> (\<forall>src \<in> set new. source_benign src))"
  using tables
proof (induction tables arbitrary: sources st)
  case Nil
  then show ?case
    by (simp add: sources_deliver_def)
next
  case (Cons t tables)
  let ?skip = "md_maximum_key (rd_metadata t) < scan_lower bounds resume \<or>
      (case sb_end bounds of None \<Rightarrow> False | Some upper \<Rightarrow> md_minimum_key (rd_metadata t) \<ge> upper)"
  have t: "reader_sound t" "rd_options t = options"
    using Cons.prems by simp_all
  show ?case
  proof (cases ?skip)
    case True
    then have none: "filter (in_range (scan_lower bounds resume) (sb_end bounds)) (table_records t) = []"
      by (intro Initialize_shortcut [OF t(1)]) (auto split: option.splits)
    have "filter (scan_range bounds resume) (table_records t) = []"
      using skip_resume_key [OF _ resume refl, of "table_records t"] t(1) none by (simp add: reader_sound_def)
    then show ?thesis
      using Cons.IH [of sources st] Cons.prems True by (auto split: sum.splits)
  next
    case False
    define r where "r = NewIterator (scan_lower bounds resume) (sb_end bounds) t"
    have step: "add_table_sources (t # tables) bounds resume (sources, st) = and_then r (\<lambda>it.
        let src = \<lparr>memory_records = [], memory_position = 0, memory_end = None, table_iterator = Some it\<rparr>;
          (src, s) = (case source_current src of None \<Rightarrow> (src, Ok)
           | Some rec \<Rightarrow> if resume \<noteq> [] \<and> r_key rec = resume then source_next src else (src, Ok)) in
        if \<not> ok s then Inl s
        else add_table_sources tables bounds resume
            (sources @ [src], st\<lparr>sources_considered := sources_considered st + 1\<rparr>))"
      using False unfolding add_table_sources.simps Let_def r_def by (simp only: if_False prod.case)
    show ?thesis
    proof (cases r)
      case (Inl s)
      then have "\<not> benign_file (rd_file t)"
        using NewIterator_benign [OF t(1), of "scan_lower bounds resume" "sb_end bounds"] fit t(2)
        by (auto simp: r_def)
      then show ?thesis
        using step Inl by simp
    next
      case (Inr it)
      let ?src = "\<lparr>memory_records = [], memory_position = 0, memory_end = None, table_iterator = Some it\<rparr>"
      let ?choice = "case source_current ?src of None \<Rightarrow> (?src, Ok)
           | Some rec \<Rightarrow> if resume \<noteq> [] \<and> r_key rec = resume then source_next ?src else (?src, Ok)"
      obtain src s where choice: "?choice = (src, s)" by force
      note src = table_source [OF t(1) resume Inr [unfolded r_def] refl choice [symmetric]]
      have run: "add_table_sources (t # tables) bounds resume (sources, st) = (if \<not> ok s then Inl s
        else add_table_sources tables bounds resume
            (sources @ [src], st\<lparr>sources_considered := sources_considered st + 1\<rparr>))"
        unfolding step Inr and_then_simps Let_def choice by simp
      show ?thesis
      proof (cases "ok s")
        case False
        then show ?thesis
          using src(2) run by auto
      next
        case True
        note IH = Cons.IH [of "sources @ [src]" "st\<lparr>sources_considered := sources_considered st + 1\<rparr>"]
        have deliver: "sources_deliver (src # new) (filter (scan_range bounds resume) (table_records t) @ rs)"
          if "sources_deliver new rs" for new rs
          using src(1) [OF True] that by (simp add: sources_deliver_def)
        show ?thesis
          using IH Cons.prems src(2) deliver True unfolding run
          by (auto split: sum.splits intro!: exI [of _ "src # _"])
      qed
    qed
  qed
qed

lemma initial_heap_spec:
  assumes "\<forall>src \<in> set sources. source_ok src"
  shows "heap_ok sources (initial_heap sources)"
    and "heap_pool sources (initial_heap sources) = mset (concat (map source_remaining sources))"
proof -
  let ?h = "filter (\<lambda>i. rest_at sources i \<noteq> []) [0..<length sources]"
  have "foldl (\<lambda>heap i. if current_at sources i \<noteq> None then heap_push i heap else heap) h js =
      rev (filter (\<lambda>i. rest_at sources i \<noteq> []) js) @ h" if "\<forall>i \<in> set js. i < length sources" for h js
    using that
  proof (induction js arbitrary: h)
    case (Cons j js)
    then have "current_at sources j = None \<longleftrightarrow> rest_at sources j = []"
      using current_at_ok [of j sources] assms by (auto split: list.splits)
    then show ?case
      using Cons by (simp add: heap_push_def)
  qed simp
  then have heap: "initial_heap sources = rev ?h"
    by (simp add: initial_heap_def)
  show "heap_ok sources (initial_heap sources)"
    using assms by (simp add: heap_ok_def heap)
  have "pool (rest_at sources) (mset [0..<n]) = mset (concat (map (rest_at sources) [0..<n]))" for n
    by (induction n) simp_all
  moreover have "map (rest_at sources) [0..<length sources] = map source_remaining sources"
    by (rule nth_equalityI) simp_all
  ultimately show "heap_pool sources (initial_heap sources) = mset (concat (map source_remaining sources))"
    using pool_filter_nonempty [of "rest_at sources" "mset [0..<length sources]"] by (simp add: heap)
qed

section \<open>What a scan returns\<close>

lemma strictly_newest_filter:
  assumes "\<And>q r. r_key q = r_key r \<Longrightarrow> P q \<longleftrightarrow> P r"
  shows "strictly_newest (filter_mset P M) r \<longleftrightarrow> P r \<and> strictly_newest M r"
proof (cases "r \<in># M \<and> P r")
  case True
  then obtain M' where "M = add_mset r M'"
    by (metis multi_member_split)
  then have M: "M = add_mset r M'" "filter_mset P M = add_mset r (filter_mset P M')"
    using True by simp_all
  have "(\<forall>q \<in># filter_mset P M'. r_key q = r_key r \<longrightarrow> r_sequence q < r_sequence r) \<longleftrightarrow>
      (\<forall>q \<in># M'. r_key q = r_key r \<longrightarrow> r_sequence q < r_sequence r)"
    using True assms by (metis (no_types, lifting) mem_Collect_eq set_mset_filter)
  then show ?thesis
    using True unfolding M(2) strictly_newest_add by (simp add: M(1) strictly_newest_add)
qed (auto simp: strictly_newest_def)

lemma merged_filter:
  assumes "\<And>q r. r_key q = r_key r \<Longrightarrow> P q \<longleftrightarrow> P r"
  shows "merged (mset (filter P rs)) (filter P (newest rs))"
  using newest_merged [of rs] strictly_newest_filter [of P, OF assms]
  by (auto simp: merged_def mset_filter sorted_wrt_map sorted_wrt_filter)

text \<open>
  The reference: of all records of the database the newest of every key, in key order, less the
  tombstones, in the range and after the resume key.
\<close>

definition visible_entries :: "Database \<Rightarrow> ScanBounds \<Rightarrow> bytes \<Rightarrow> ScanEntry list" where
  "visible_entries db bounds resume = live (filter (scan_range bounds resume) (newest (all_records db)))"

definition scan_bounds_ok :: "Options \<Rightarrow> ScanBounds \<Rightarrow> bool" where
  "scan_bounds_ok options bounds \<longleftrightarrow> range_bounds options (sb_begin bounds) (sb_end bounds)"

definition resume_ok :: "Options \<Rightarrow> ScanBounds \<Rightarrow> bytes \<Rightarrow> bool" where
  "resume_ok options bounds resume \<longleftrightarrow>
     resume = [] \<or> (key_within bounds resume \<and> length resume \<le> max_key_size options)"

lemma resume_range:
  assumes "scan_bounds_ok options bounds" and "resume_ok options bounds resume"
  shows "range_bounds options (scan_lower bounds resume) (sb_end bounds)"
    and "resume = [] \<or> sb_begin bounds \<le> resume"
  using assms
  by (auto simp: scan_bounds_ok_def resume_ok_def range_bounds_def key_within_def less_imp_le split: option.splits)

lemma scan_sources_spec:
  assumes db: "db_ok db" and bounds: "scan_bounds_ok (db_options db) bounds" "resume_ok (db_options db) bounds resume"
  shows "case scan_sources bounds resume db of
      Inl s \<Rightarrow> \<exists>t \<in> set (db_tables db). \<not> benign_file (rd_file t)
    | Inr (sources, st) \<Rightarrow> sources_deliver sources (filter (scan_range bounds resume) (all_records db)) \<and>
        ((\<forall>t \<in> set (db_tables db). benign_file (rd_file t)) \<longrightarrow> (\<forall>src \<in> set sources. source_benign src))"
proof -
  note range = resume_range [OF bounds]
  obtain sources1 st1 where m: "AddMemorySource (db_mutable db) bounds resume ([], empty_ScanStatistics) = (sources1, st1)"
    by force
  have "mt_wf (db_mutable db)"
    using db by (simp add: db_ok_def)
  then have d1: "sources_deliver sources1 (filter (scan_range bounds resume) (Records (db_mutable db)))"
      "\<forall>src \<in> set sources1. source_benign src"
    using AddMemorySource_deliver [OF _ range(2) m] by auto
  define acc where "acc = (case db_immutable db of None \<Rightarrow> (sources1, st1)
      | Some ig \<Rightarrow> AddMemorySource (ig_memtable ig) bounds resume (sources1, st1))"
  obtain sources2 st2 where acc: "acc = (sources2, st2)" by force
  have d2: "sources_deliver sources2 (filter (scan_range bounds resume) (Records (db_mutable db) @ immutable_records db))"
      "\<forall>src \<in> set sources2. source_benign src"
  proof -
    have "sources_deliver sources2 (filter (scan_range bounds resume) (Records (db_mutable db) @ immutable_records db)) \<and>
        (\<forall>src \<in> set sources2. source_benign src)"
    proof (cases "db_immutable db")
      case None
      then show ?thesis
        using d1 acc by (simp add: acc_def immutable_records_def)
    next
      case (Some ig)
      then have ig: "mt_wf (ig_memtable ig)"
        "AddMemorySource (ig_memtable ig) bounds resume (sources1, st1) = (sources2, st2)"
        using db acc by (simp_all add: db_ok_def acc_def)
      obtain new where "sources2 = sources1 @ new" "\<forall>src \<in> set new. source_benign src"
        "sources_deliver new (filter (scan_range bounds resume) (Records (ig_memtable ig)))"
        by (rule AddMemorySource_deliver [OF ig(1) range(2) ig(2)])
      then show ?thesis
        using d1 by (auto simp: sources_deliver_def immutable_records_def Some)
    qed
    then show "sources_deliver sources2 (filter (scan_range bounds resume) (Records (db_mutable db) @ immutable_records db))"
      "\<forall>src \<in> set sources2. source_benign src" by simp_all
  qed
  have run: "scan_sources bounds resume db = add_table_sources (db_tables db) bounds resume (sources2, st2)"
    using m acc by (simp add: scan_sources_def acc_def)
  have "\<forall>t \<in> set (db_tables db). reader_sound t \<and> rd_options t = db_options db"
    using db by (auto simp: db_ok_def sound_tables_def)
  from add_table_sources_spec [OF this range(2,1), of sources2 st2] show ?thesis
    unfolding run using d2 by (auto simp: sources_deliver_def all_records_def table_versions_def split: sum.splits)
qed

text \<open>The merge of one page.\<close>

definition read_trouble :: "Database \<Rightarrow> bool" where
  "read_trouble db \<longleftrightarrow> (\<exists>t \<in> set (db_tables db). \<not> benign_file (rd_file t))"

lemma scan_loop_page:
  assumes db: "db_ok db" and bounds: "scan_bounds_ok (db_options db) bounds" "resume_ok (db_options db) bounds resume"
    and sources: "scan_sources bounds resume db = Inr (sources, st)"
  shows "case scan_loop limit sources (initial_heap sources) (st, []) of
      Inl s \<Rightarrow> s = sequence_in_two_sources \<and> \<not> unambiguous (mset (filter (scan_range bounds resume) (all_records db))) \<or>
        read_trouble db
    | Inr (_, _, es) \<Rightarrow> \<exists>rest. visible_entries db bounds resume = es @ rest \<and>
        (rest = [] \<and> unambiguous (mset (filter (scan_range bounds resume) (all_records db))) \<or> length es > limit)"
proof -
  let ?P = "mset (filter (scan_range bounds resume) (all_records db))"
  have d: "sources_deliver sources (filter (scan_range bounds resume) (all_records db))"
    and benign: "\<not> read_trouble db \<Longrightarrow> \<forall>src \<in> set sources. source_benign src"
    using scan_sources_spec [OF db bounds] by (auto simp: sources read_trouble_def)
  then have ok: "\<forall>src \<in> set sources. source_ok src" and pool: "heap_pool sources (initial_heap sources) = ?P"
    using initial_heap_spec(2) [of sources] by (auto simp: sources_deliver_def)
  have heap: "heap_ok sources (initial_heap sources)"
    by (rule initial_heap_spec(1) [OF ok])
  then have free: "heap_benign sources (initial_heap sources)" if "\<not> read_trouble db"
    using benign [OF that] by (auto simp: heap_ok_def)
  have "merged ?P (filter (scan_range bounds resume) (newest (all_records db)))"
    by (rule merged_filter) (auto simp: scan_range_def in_range_def below_def split: option.splits)
  then have unique: "rs = filter (scan_range bounds resume) (newest (all_records db))" if "merged ?P rs" for rs
    using that merged_unique by blast
  note loop = scan_loop_spec [OF heap, of limit "(st, [])", unfolded loop_result_def pool]
  show ?thesis
  proof (cases "scan_loop limit sources (initial_heap sources) (st, [])")
    case (Inl s)
    then show ?thesis
      using loop free by auto
  next
    case (Inr x)
    then obtain sources' st' es where x: "scan_loop limit sources (initial_heap sources) (st, []) = Inr (sources', st', es)"
      by (metis prod_cases3)
    then obtain rs more where m: "merged ?P (rs @ more)" "es = live rs" "more = [] \<and> unambiguous ?P \<or> length es > limit"
      using loop by auto
    have "visible_entries db bounds resume = es @ live more"
      using unique [OF m(1)] by (simp add: visible_entries_def m(2) flip: live_simps(3))
    then show ?thesis
      using m(3) by (auto simp: x)
  qed
qed

text \<open>Keys are not empty and within the limit in every layer.\<close>

lemma db_keys:
  assumes db: "db_ok db" and "r \<in> set (all_records db)"
  shows "r_key r \<noteq> []" and "length (r_key r) \<le> max_key_size (db_options db)"
proof -
  have mem: "r_key r \<noteq> [] \<and> length (r_key r) \<le> max_key_size (db_options db)"
    if "mt_wf mt" "mt_options mt = db_options db" "r \<in> set (Records mt)" for mt
    using that by (fastforce simp: mt_wf_def entry_wf_def Records_def)
  have "r_key r \<noteq> [] \<and> length (r_key r) \<le> max_key_size (db_options db)"
    if "t \<in> set (db_tables db)" "r \<in> set (table_records t)" for t
    using reader_records_encodable [of t] that db
    by (auto simp: db_ok_def sound_tables_def list_all_iff encodable_def ValidateWalRecord_ok_iff ValidateLengths_ok_iff wal_of_def)
  moreover have "r_key r \<noteq> [] \<and> length (r_key r) \<le> max_key_size (db_options db)"
    if "r \<in> set (immutable_records db)"
    using mem [of "ig_memtable (the (db_immutable db))"] db that
    by (cases "db_immutable db") (simp_all add: immutable_records_def db_ok_def)
  moreover have "r_key r \<noteq> [] \<and> length (r_key r) \<le> max_key_size (db_options db)"
    if "r \<in> set (Records (db_mutable db))"
    using mem [of "db_mutable db"] db that by (simp add: db_ok_def)
  ultimately have "r_key r \<noteq> [] \<and> length (r_key r) \<le> max_key_size (db_options db)"
    using assms(2) by (auto simp: all_records_def table_versions_def)
  then show "r_key r \<noteq> []" "length (r_key r) \<le> max_key_size (db_options db)"
    by simp_all
qed

lemma visible_entries_keys:
  assumes db: "db_ok db" and "e \<in> set (visible_entries db bounds resume)"
  shows "se_key e \<noteq> []" and "length (se_key e) \<le> max_key_size (db_options db)" and "key_within bounds (se_key e)"
    and "resume \<noteq> [] \<Longrightarrow> resume < se_key e"
proof -
  obtain r where r: "r \<in> set (newest (all_records db))" "scan_range bounds resume r" "e = scan_entry r"
    using assms(2) by (auto simp: visible_entries_def live_def)
  have "r \<in> set (all_records db)"
    using r(1) by (simp add: newest_def)
  from db_keys [OF db this] show "se_key e \<noteq> []" "length (se_key e) \<le> max_key_size (db_options db)"
    by (simp_all add: r(3) scan_entry_def)
  show "key_within bounds (se_key e)" "resume \<noteq> [] \<Longrightarrow> resume < se_key e"
    using r(2) by (auto simp: r(3) scan_entry_def scan_range_def in_range_def below_def key_within_def)
qed

lemma visible_entries_sorted: "sorted_wrt (<) (map se_key (visible_entries db bounds resume))"
proof -
  have "records_sorted (newest (all_records db))"
    using newest_merged by (simp add: merged_def)
  then show ?thesis
    by (simp add: visible_entries_def live_def sorted_wrt_map sorted_wrt_filter scan_entry_def)
qed

lemma sorted_after_nth:
  assumes "sorted_wrt (<) (map f xs)" and "i < length xs"
  shows "filter (\<lambda>x. f (xs ! i) < (f x :: 'k :: linorder)) xs = drop (Suc i) xs"
  using assms
proof (induction xs arbitrary: i)
  case (Cons x xs)
  show ?case
  proof (cases i)
    case 0
    then show ?thesis
      using Cons.prems by simp
  next
    case (Suc j)
    then have "\<not> f (xs ! j) < f x"
      using Cons.prems by (auto simp: not_less less_imp_le)
    then show ?thesis
      using Cons Suc by simp
  qed
qed simp

text \<open>Resuming after an entry gives what follows it.\<close>

lemma visible_entries_resume:
  assumes db: "db_ok db" and i: "i < length (visible_entries db bounds resume)"
  shows "visible_entries db bounds (se_key (visible_entries db bounds resume ! i)) =
    drop (Suc i) (visible_entries db bounds resume)"
proof -
  let ?L = "visible_entries db bounds resume"
  define k where "k = se_key (?L ! i)"
  note key = visible_entries_keys [OF db nth_mem [OF i], folded k_def]
  have "filter (scan_range bounds k) (newest (all_records db)) =
      filter (\<lambda>r. k < r_key r) (filter (scan_range bounds resume) (newest (all_records db)))"
    unfolding filter_filter using key(1,4) by (intro filter_cong) (auto simp: scan_range_def intro: less_trans)
  then have "visible_entries db bounds k = filter (\<lambda>e. k < se_key e) ?L"
    by (simp add: visible_entries_def live_def filter_map o_def scan_entry_def conj_ac)
  then show ?thesis
    using sorted_after_nth [OF visible_entries_sorted i] by (simp add: k_def)
qed

lemma EncodeScanToken_Inl: "EncodeScanToken bounds version sequence key = Inl s \<Longrightarrow> \<not> ok s"
  by (auto simp: EncodeScanToken_def Let_def or_fail_def split: if_splits option.splits)

lemma finish_scan_cases:
  fixes st :: ScanStatistics
  assumes "visible_entries db bounds resume = es @ rest" and "rest = [] \<or> length es > limit"
    and db: "db_ok db" and bounds: "scan_bounds_ok (db_options db) bounds" and "0 < limit"
  defines "L \<equiv> visible_entries db bounds resume" and "res \<equiv> finish_scan bounds limit db st es"
  shows "ok (sr_status res) \<Longrightarrow> sr_entries res = take limit L \<and> (sr_truncated res \<longleftrightarrow> length L > limit) \<and>
      (length L > limit \<longrightarrow> sr_continuation_token res \<noteq> [] \<and>
         resume_key bounds (sr_continuation_token res) db = Inr (se_key (last (sr_entries res))))"
    and "\<not> ok (sr_status res) \<Longrightarrow> 44 + 3 * max_key_size (db_options db) > u32_max"
proof -
  have short: "length L > limit \<longleftrightarrow> length es > limit" and take: "take limit L = take limit es"
    using assms(1,2) by (auto simp: L_def)
  let ?k = "se_key (last (take limit es))"
  have "length L > limit \<Longrightarrow> last (take limit es) \<in> set L"
    using take \<open>0 < limit\<close> by (metis in_set_takeD last_in_set length_greater_0_conv take_eq_Nil list.size(3) neq0_conv not_less_zero)
  then have k: "?k \<noteq> []" "length ?k \<le> max_key_size (db_options db)" "key_within bounds ?k" if "length L > limit"
    using visible_entries_keys(1-3) [OF db] that by (auto simp: L_def)
  have sizes: "length (sb_begin bounds) \<le> max_key_size (db_options db)"
      "length (end_bytes bounds) \<le> max_key_size (db_options db)"
    using bounds by (auto simp: scan_bounds_ok_def range_bounds_def end_bytes_def split: option.splits)
  let ?tok = "EncodeScanToken bounds (version_id (db_version db)) (db_last_sequence db) ?k"
  have dec: "resume_key bounds token db = Inr ?k \<and> token \<noteq> []" if "?tok = Inr token" "length L > limit" for token
  proof -
    have "DecodeScanToken token bounds (db_options db) (version_id (db_version db)) (db_last_sequence db) =
        Inr \<lparr>dt_version_id = version_id (db_version db), dt_last_sequence = db_last_sequence db, dt_last_key = ?k\<rparr>"
      using that k sizes by (simp add: DecodeScanToken_Inr_iff EncodeScanToken_Inr_iff token_acceptable_def)
    moreover have "token \<noteq> []"
      using that(1) by (auto simp: EncodeScanToken_Inr_iff dest: arg_cong [of _ _ length])
    ultimately show ?thesis
      by (simp add: resume_key_def)
  qed
  show "sr_entries res = take limit L \<and> (sr_truncated res \<longleftrightarrow> length L > limit) \<and>
      (length L > limit \<longrightarrow> sr_continuation_token res \<noteq> [] \<and>
         resume_key bounds (sr_continuation_token res) db = Inr (se_key (last (sr_entries res))))"
    if "ok (sr_status res)"
    using that short take dec assms(2)
    by (auto simp: res_def finish_scan_def Let_def ScanError_def empty_ScanResult_def EncodeScanToken_Inl
        split: sum.splits if_splits)
  show "44 + 3 * max_key_size (db_options db) > u32_max" if "\<not> ok (sr_status res)"
  proof -
    have "length es > limit" "\<not> token_fits bounds ?k"
      using that EncodeScanToken_Inr_iff [of bounds "version_id (db_version db)" "db_last_sequence db" ?k]
      by (auto simp: res_def finish_scan_def Let_def empty_ScanResult_def split: sum.splits if_splits)
    then show ?thesis
      using k sizes short by (auto simp: token_fits_def)
  qed
qed

definition bounds_of :: "ScanOptions \<Rightarrow> ScanBounds" where
  "bounds_of so = \<lparr>sb_begin = so_begin so, sb_end = so_end so\<rparr>"

text \<open>Scans that pass the argument checks.\<close>

definition scan_admissible :: "Database \<Rightarrow> ScanOptions \<Rightarrow> bool" where
  "scan_admissible db so \<longleftrightarrow> db_ok db \<and> IsRunningLocked db \<and> 0 < so_limit so \<and>
     so_limit so \<le> maximum_scan_entries (db_options db) \<and> scan_bounds_ok (db_options db) (bounds_of so)"

text \<open>What a page has to be, given the entries that are left.\<close>

definition right_page :: "Database \<Rightarrow> ScanOptions \<Rightarrow> bytes \<Rightarrow> ScanResult \<Rightarrow> bool" where
  "right_page db so resume res \<longleftrightarrow>
     (let L = visible_entries db (bounds_of so) resume in
      (length L \<le> so_limit so \<longrightarrow>
         unambiguous (mset (filter (scan_range (bounds_of so) resume) (all_records db)))) \<and>
      sr_entries res = take (so_limit so) L \<and> (sr_truncated res \<longleftrightarrow> length L > so_limit so) \<and>
      (length L > so_limit so \<longrightarrow> resume_key (bounds_of so) (sr_continuation_token res) db =
         Inr (se_key (last (sr_entries res)))))"

text \<open>The reasons for which a scan fails.\<close>

definition scan_excuse :: "Database \<Rightarrow> ScanOptions \<Rightarrow> bytes \<Rightarrow> status \<Rightarrow> bool" where
  "scan_excuse db so resume s \<longleftrightarrow> read_trouble db \<or>
     s = sequence_in_two_sources \<and>
       \<not> unambiguous (mset (filter (scan_range (bounds_of so) resume) (all_records db))) \<or>
     44 + 3 * max_key_size (db_options db) > u32_max"

lemma resume_key_ok:
  "resume_key bounds token db = Inr resume \<Longrightarrow> resume_ok (db_options db) bounds resume"
  by (auto simp: resume_key_def resume_ok_def and_then_Inr DecodeScanToken_Inr_iff token_acceptable_def split: if_splits)

lemma add_table_sources_Inl: "add_table_sources tables bounds resume acc = Inl s \<Longrightarrow> \<not> ok s"
  by (induction tables arbitrary: acc)
    (auto simp: Let_def and_then_def NewIterator_def split: if_splits sum.splits prod.splits)

lemma advance_sources_Inl: "advance_sources is sources heap = Inl s \<Longrightarrow> \<not> ok s"
  by (induction "is" arbitrary: sources heap) (auto simp: Let_def split: if_splits prod.splits)

lemma scan_round_Inl:
  assumes "scan_round sources heap = Inl s" and "heap \<noteq> []"
  shows "\<not> ok s"
proof (cases "current_at sources (heap_top (cursor_later (record_at sources)) heap)")
  case None
  then show ?thesis
    using assms(1) by (auto simp: scan_round_def)
next
  case (Some first)
  note collect = collect_first [of heap "r_key first" "record_at sources" sequence_in_two_sources, OF assms(2)]
  show ?thesis
    using assms(1) collect Some advance_sources_Inl
    by (auto simp: scan_round_def and_then_def sequence_in_two_sources_def split: sum.splits prod.splits)
qed

lemma scan_loop_Inl: "scan_loop limit sources heap acc = Inl s \<Longrightarrow> \<not> ok s"
proof (induction limit sources heap acc rule: scan_loop.induct)
  case (1 limit sources heap acc)
  have run: "\<not> (heap = [] \<or> length (snd acc) > limit)" "(case scan_round sources heap of Inl s \<Rightarrow> Inl s
      | Inr (w, n, sources, heap) \<Rightarrow> scan_loop limit sources heap (emit_entry w (map_prod (count_round n) id acc))) = Inl s"
    using "1.prems" by (subst (asm) scan_loop.simps, simp split: if_splits)+
  show ?case
  proof (cases "scan_round sources heap")
    case (Inl t)
    then show ?thesis
      using scan_round_Inl [OF Inl] run by simp
  next
    case (Inr x)
    obtain w n sources' heap' where x: "x = (w, n, sources', heap')"
      by (metis prod_cases4)
    then show ?thesis
      using "1.IH" [OF run(1) Inr x [symmetric] refl refl] run(2) by (simp add: Inr)
  qed
qed

lemma Database_Scan_merge:
  assumes "scan_admissible db so" and "resume_key (bounds_of so) (so_continuation_token so) db = Inr resume"
  shows "Database_Scan so db =
    (if so_end so = Some (so_begin so) then empty_ScanResult else scan_merge (bounds_of so) resume (so_limit so) db)"
  using assms
  by (auto simp: Database_Scan_def scan_admissible_def bounds_of_def scan_bounds_ok_def range_bounds_def Let_def not_less
      split: option.splits)

lemma visible_entries_empty:
  assumes "so_end so = Some (so_begin so)"
  shows "visible_entries db (bounds_of so) resume = []"
    and "filter (scan_range (bounds_of so) resume) rs = []"
proof -
  have "\<not> scan_range (bounds_of so) resume r" for r
    using assms by (auto simp: scan_range_def in_range_def below_def bounds_of_def)
  then show "visible_entries db (bounds_of so) resume = []" "filter (scan_range (bounds_of so) resume) rs = []"
    by (simp_all add: visible_entries_def)
qed

lemma Database_Scan_cases:
  assumes adm: "scan_admissible db so"
    and token: "resume_key (bounds_of so) (so_continuation_token so) db = Inr resume"
  shows "if ok (sr_status (Database_Scan so db)) then right_page db so resume (Database_Scan so db)
    else scan_excuse db so resume (sr_status (Database_Scan so db))"
proof (cases "so_end so = Some (so_begin so)")
  case True
  then show ?thesis
    using Database_Scan_merge [OF assms] visible_entries_empty [OF True]
    by (simp add: right_page_def empty_ScanResult_def Let_def unambiguous_def)
next
  case False
  have db: "db_ok db" and bounds: "scan_bounds_ok (db_options db) (bounds_of so)" and limit: "0 < so_limit so"
    using adm by (simp_all add: scan_admissible_def)
  note resume = resume_key_ok [OF token]
  have run: "Database_Scan so db = scan_merge (bounds_of so) resume (so_limit so) db"
    using Database_Scan_merge [OF assms] False by simp
  show ?thesis
  proof (cases "scan_sources (bounds_of so) resume db")
    case (Inl s)
    then show ?thesis
      using scan_sources_spec [OF db bounds resume] run add_table_sources_Inl [of "db_tables db" "bounds_of so" resume]
      by (auto simp: scan_merge_def ScanError_def empty_ScanResult_def scan_excuse_def read_trouble_def
          scan_sources_def Let_def)
  next
    case (Inr x)
    obtain sources st where x: "x = (sources, st)" by force
    note sources = Inr [unfolded x]
    note page = scan_loop_page [OF db bounds resume sources, of "so_limit so"]
    show ?thesis
    proof (cases "scan_loop (so_limit so) sources (initial_heap sources) (st, [])")
      case (Inl s)
      then show ?thesis
        using page run sources scan_loop_Inl [OF Inl]
        by (auto simp: scan_merge_def ScanError_def empty_ScanResult_def scan_excuse_def sequence_in_two_sources_def)
    next
      case (Inr y)
      obtain sources' st' es where y: "y = (sources', st', es)"
        by (metis prod_cases3)
      obtain rest where rest: "visible_entries db (bounds_of so) resume = es @ rest" "rest = [] \<or> length es > so_limit so"
        and unique: "rest = [] \<and> unambiguous (mset (filter (scan_range (bounds_of so) resume) (all_records db))) \<or>
          length es > so_limit so"
        using page by (auto simp: Inr y)
      have "Database_Scan so db = finish_scan (bounds_of so) (so_limit so) db (AccumulateIteratorStatistics sources' st') es"
        using run sources Inr y by (simp add: scan_merge_def)
      then show ?thesis
        using finish_scan_cases [OF rest db bounds limit, of "AccumulateIteratorStatistics sources' st'"]
          unique rest(1) by (auto simp: right_page_def scan_excuse_def Let_def)
    qed
  qed
qed

text \<open>Reading page after page, each scan with the token of the one before.\<close>

fun scan_pages :: "nat \<Rightarrow> ScanOptions \<Rightarrow> Database \<Rightarrow> ScanEntry list" where
  "scan_pages 0 so db = []"
| "scan_pages (Suc n) so db =
     (let res = Database_Scan so db in
      sr_entries res @
        (if sr_truncated res then scan_pages n (so\<lparr>so_continuation_token := sr_continuation_token res\<rparr>) db else []))"

lemma unambiguous_filter:
  assumes "unambiguous M" and "\<And>q r. r_key q = r_key r \<Longrightarrow> P q \<longleftrightarrow> P r"
  shows "unambiguous (filter_mset P M)"
  unfolding unambiguous_def
proof
  fix q
  assume "q \<in># filter_mset P M"
  then have q: "q \<in># M" "P q"
    by simp_all
  then obtain r where "strictly_newest M r" "r_key r = r_key q"
    using assms(1) unfolding unambiguous_def by blast
  then show "\<exists>r. strictly_newest (filter_mset P M) r \<and> r_key r = r_key q"
    using q(2) assms(2) [of r q] strictly_newest_filter [of P M r, OF assms(2)] by blast
qed

lemma scan_pages_from:
  assumes "scan_admissible db so" and "resume_key (bounds_of so) (so_continuation_token so) db = Inr resume"
    and free: "\<not> read_trouble db" "unambiguous (mset (all_records db))" "44 + 3 * max_key_size (db_options db) \<le> u32_max"
  shows "scan_pages n so db = take (n * so_limit so) (visible_entries db (bounds_of so) resume)"
  using assms(1,2)
proof (induction n arbitrary: so resume)
  case (Suc n)
  let ?L = "visible_entries db (bounds_of so) resume" and ?res = "Database_Scan so db" and ?l = "so_limit so"
  have "unambiguous (mset (filter (scan_range (bounds_of so) resume) (all_records db)))"
    unfolding mset_filter by (rule unambiguous_filter [OF free(2)])
      (auto simp: scan_range_def in_range_def below_def split: option.splits)
  then have "right_page db so resume ?res"
    using Database_Scan_cases [OF Suc.prems] free(1,3) by (auto simp: scan_excuse_def split: if_splits)
  then have page: "sr_entries ?res = take ?l ?L" "sr_truncated ?res \<longleftrightarrow> length ?L > ?l"
    "length ?L > ?l \<Longrightarrow> resume_key (bounds_of so) (sr_continuation_token ?res) db = Inr (se_key (last (take ?l ?L)))"
    by (simp_all add: right_page_def Let_def)
  show ?case
  proof (cases "length ?L > ?l")
    case False
    then show ?thesis
      using page by (simp add: Let_def)
  next
    case True
    let ?so = "so\<lparr>so_continuation_token := sr_continuation_token ?res\<rparr>"
    have adm: "scan_admissible db ?so" "bounds_of ?so = bounds_of so" "so_limit ?so = ?l"
      using Suc.prems(1) by (simp_all add: scan_admissible_def bounds_of_def)
    obtain m where m: "?l = Suc m"
      using Suc.prems(1) by (auto simp: scan_admissible_def gr0_conv_Suc)
    have last: "last (take ?l ?L) = ?L ! m"
      using True by (simp add: m take_Suc_conv_app_nth)
    have "scan_pages n ?so db = take (n * ?l) (visible_entries db (bounds_of so) (se_key (?L ! m)))"
      using Suc.IH [OF adm(1), of "se_key (?L ! m)"] page(3) [OF True] last adm(2,3) by simp
    also have "\<dots> = take (n * ?l) (drop ?l ?L)"
      using visible_entries_resume [of db m] True Suc.prems(1) by (simp add: m scan_admissible_def)
    finally show ?thesis
      using page(1,2) True by (simp add: Let_def take_add)
  qed
qed simp

section \<open>Properties\<close>

text \<open>
  C17. A scan returns the right page. In a database whose layers are in order, a scan with
  admissible arguments and an accepted token (or none) that succeeds returns the first \<open>limit\<close> of the
  live keys of the range after the resume key, each with its newest value, in key order and without
  tombstones; it reports truncation exactly when more are left, and then its token resumes after the
  last key returned; a page that reaches the end of the range shows that no two layers hold competing
  versions there. A scan fails only when a table read fails, when two layers hold a version of one
  key with the same sequence number, or when keys are allowed to be so long that a token cannot
  hold three of them.
\<close>

theorem Database_Scan_page:
  assumes "scan_admissible db so" and "resume_key (bounds_of so) (so_continuation_token so) db = Inr resume"
  shows "if ok (sr_status (Database_Scan so db)) then right_page db so resume (Database_Scan so db)
    else scan_excuse db so resume (sr_status (Database_Scan so db))"
  using assms by (rule Database_Scan_cases)

text \<open>
  C18. Paging is complete. On files that only interrupt or shorten reads, with unambiguous versions,
  the pages obtained by passing each token on to the next scan are, one after the other, the live
  entries of the range: after \<open>n\<close> pages exactly the first \<open>n * limit\<close> of them, none twice and none
  left out.
\<close>

theorem Database_Scan_pages:
  assumes "scan_admissible db so" and "so_continuation_token so = []" and "\<not> read_trouble db"
    and "unambiguous (mset (all_records db))" and "44 + 3 * max_key_size (db_options db) \<le> u32_max"
  shows "scan_pages n so db = take (n * so_limit so) (visible_entries db (bounds_of so) [])"
  using assms by (intro scan_pages_from) (simp_all add: resume_key_def)

definition sample_scan :: ScanOptions where
  "sample_scan = \<lparr>so_begin = [107], so_end = Some [108], so_limit = 5, so_continuation_token = []\<rparr>"

lemma sample_scan_fields: "so_limit sample_scan = 5" "so_continuation_token sample_scan = []"
  by (simp_all add: sample_scan_def)

lemma sample_scan_facts:
  assumes "reader_sound rd" "rd_options rd = default_Options" "benign_file (rd_file rd)"
    "table_records rd = [record_of sample_record]"
  shows "scan_admissible (sample_db rd) sample_scan" "\<not> read_trouble (sample_db rd)"
    "unambiguous (mset (all_records (sample_db rd)))" "44 + 3 * max_key_size (db_options (sample_db rd)) \<le> u32_max"
    "visible_entries (sample_db rd) (bounds_of sample_scan) [] = [scan_entry (record_of sample_record)]"
proof -
  note ok = sample_db_ok [OF assms(1-3)]
  show "scan_admissible (sample_db rd) sample_scan"
    using ok(1,2)
    by (simp add: scan_admissible_def sample_scan_def bounds_of_def scan_bounds_ok_def range_bounds_def sample_db_def
        default_Options_def)
  show "\<not> read_trouble (sample_db rd)" "44 + 3 * max_key_size (db_options (sample_db rd)) \<le> u32_max"
    using assms(3) by (simp_all add: read_trouble_def sample_db_def default_Options_def)
  show "unambiguous (mset (all_records (sample_db rd)))"
    by (auto simp: ok(3) assms(4) unambiguous_def strictly_newest_def)
  show "visible_entries (sample_db rd) (bounds_of sample_scan) [] = [scan_entry (record_of sample_record)]"
    by (simp add: visible_entries_def ok(3) assms(4) newest_def strictly_newest_def scan_range_def in_range_def below_def
        bounds_of_def sample_scan_def record_of_def sample_record_def live_def)
qed

theorem Database_Scan_page_witness:
  "\<exists>rd. table_records rd = [record_of sample_record] \<and>
     sr_entries (Database_Scan sample_scan (sample_db rd)) = [scan_entry (record_of sample_record)] \<and>
     \<not> sr_truncated (Database_Scan sample_scan (sample_db rd))"
proof -
  obtain rd where rd: "reader_sound rd" "rd_options rd = default_Options" "benign_file (rd_file rd)"
    "table_records rd = [record_of sample_record]"
    by (rule sample_reader)
  note f = sample_scan_facts [OF rd]
  have "resume_key (bounds_of sample_scan) (so_continuation_token sample_scan) (sample_db rd) = Inr []"
    by (simp add: resume_key_def sample_scan_def)
  note page = Database_Scan_page [OF f(1) this]
  have "unambiguous (mset (filter (scan_range (bounds_of sample_scan) []) (all_records (sample_db rd))))"
    unfolding mset_filter by (rule unambiguous_filter [OF f(3)])
      (auto simp: scan_range_def in_range_def below_def split: option.splits)
  then have "right_page (sample_db rd) sample_scan [] (Database_Scan sample_scan (sample_db rd))"
    using page f(2,4) by (auto simp: scan_excuse_def split: if_splits)
  then show ?thesis
    using rd(4) by (intro exI [of _ rd]) (simp add: right_page_def f(5) Let_def sample_scan_fields)
qed

theorem Database_Scan_pages_witness:
  "\<exists>rd. table_records rd = [record_of sample_record] \<and>
     scan_pages 2 sample_scan (sample_db rd) = [scan_entry (record_of sample_record)]"
proof -
  obtain rd where rd: "reader_sound rd" "rd_options rd = default_Options" "benign_file (rd_file rd)"
    "table_records rd = [record_of sample_record]"
    by (rule sample_reader)
  note f = sample_scan_facts [OF rd]
  have "scan_pages 2 sample_scan (sample_db rd) = [scan_entry (record_of sample_record)]"
    using Database_Scan_pages [OF f(1) _ f(2-4), of 2] by (simp add: f(5) sample_scan_fields)
  then show ?thesis
    using rd(4) by blast
qed

end
