(* ===== verification/Recovery.thy ===== *)
theory Recovery
  imports Wal
begin

text \<open>
  \<^verbatim>\<open>src/recovery.cpp\<close>: rebuilding a MemTable from a log file. A complete record that is malformed,
  out of order or inapplicable is corruption; only an incomplete final record is dropped, by
  truncating the file to the last record boundary.
\<close>

section \<open>The recovery loop\<close>

text \<open>
  Offsets and sizes are \<open>std::uint64_t\<close> in the source. The loop keeps \<open>offset \<le> file_size\<close>, so no
  addition wraps and they are natural numbers here.
\<close>

record WalRecoveryResult =
  records_recovered :: nat
  valid_bytes :: nat
  discarded_tail_bytes :: nat
  min_sequence :: u64
  max_sequence :: u64
  tail_truncated :: bool

definition empty_WalRecoveryResult :: WalRecoveryResult where
  "empty_WalRecoveryResult = \<lparr>records_recovered = 0, valid_bytes = 0, discarded_tail_bytes = 0,
     min_sequence = 0, max_sequence = 0, tail_truncated = False\<rparr>"

definition TruncateIncompleteTail ::
    "RecoveryFile \<Rightarrow> nat \<Rightarrow> nat \<Rightarrow> WalRecoveryResult \<Rightarrow> RecoveryFile \<times> WalRecoveryResult result" where
  "TruncateIncompleteTail f file_size valid res =
     (let (truncate_status, f') = Truncate f valid in
      if \<not> ok truncate_status then (f', Inl truncate_status)
      else let (sync_status, f'') = RecoverySync f' in
      if \<not> ok sync_status then (f'', Inl sync_status)
      else (f'', Inr (res\<lparr>valid_bytes := valid, discarded_tail_bytes := file_size - valid,
                          tail_truncated := True\<rparr>)))"

definition RecoveryCorruption :: "nat \<Rightarrow> string \<Rightarrow> status" where
  "RecoveryCorruption offset m =
     Corruption (''WAL recovery at offset '' @ to_string offset @ '': '' @ m)"

text \<open>The four places that drop the tail publish what was recovered so far.\<close>

definition finish_truncated ::
    "RecoveryFile \<Rightarrow> nat \<Rightarrow> nat \<Rightarrow> MemTable \<Rightarrow> WalRecoveryResult \<Rightarrow>
       RecoveryFile \<times> (MemTable \<times> WalRecoveryResult) result" where
  "finish_truncated f file_size offset recovered res =
     (let (f', tail) = TruncateIncompleteTail f file_size offset res
      in (f', and_then tail (\<lambda>res'. Inr (recovered, res'))))"

text \<open>Applying one decoded record: the end of the loop body.\<close>

definition apply_decoded ::
    "nat \<Rightarrow> WalRecord \<Rightarrow> nat \<Rightarrow> MemTable \<Rightarrow> WalRecoveryResult \<Rightarrow>
       (MemTable \<times> WalRecoveryResult) result" where
  "apply_decoded offset record record_size recovered res =
     (if w_sequence record \<le> max_sequence res
      then Inl (RecoveryCorruption offset ''sequence numbers are not strictly increasing'')
      else let (recovered', apply_status) =
        (if w_type record = kValue
         then Put (w_sequence record) (w_key record) (w_value record) recovered
         else Delete (w_sequence record) (w_key record) recovered)
      in if \<not> ok apply_status
        then Inl (RecoveryCorruption offset (''record cannot be applied: '' @ ToString apply_status))
      else if records_recovered res = size_max
        then Inl (Corruption ''WAL recovery record count overflows size_t'')
      else Inr (recovered',
        res\<lparr>min_sequence := (if records_recovered res = 0 then w_sequence record else min_sequence res),
            records_recovered := records_recovered res + 1,
            max_sequence := w_sequence record,
            valid_bytes := offset + record_size\<rparr>))"

text \<open>
  One turn of the loop either returns from \<open>RecoverWal\<close> or continues with the next offset. The
  second half reads and applies the record whose header has been decoded.
\<close>

datatype turn =
  Return "(MemTable \<times> WalRecoveryResult) result"
| Continue MemTable WalRecoveryResult nat

definition finish_turn ::
    "RecoveryFile \<Rightarrow> nat \<Rightarrow> nat \<Rightarrow> MemTable \<Rightarrow> WalRecoveryResult \<Rightarrow> RecoveryFile \<times> turn" where
  "finish_turn f file_size offset recovered res =
     (let (f', out) = finish_truncated f file_size offset recovered res in (f', Return out))"

definition recover_record ::
    "RecoveryFile \<Rightarrow> Options \<Rightarrow> nat \<Rightarrow> MemTable \<Rightarrow> WalRecoveryResult \<Rightarrow> nat \<Rightarrow> WalHeader \<Rightarrow>
       RecoveryFile \<times> turn" where
  "recover_record f options file_size recovered res offset decoded_header =
     (let record_size = unat (h_record_size decoded_header) in
      if record_size > file_size - offset then finish_turn f file_size offset recovered res
      else let (f', record_read) = ReadAllAt f offset record_size in
      case record_read of
        Inl s \<Rightarrow> if IsIncomplete s then finish_turn f' file_size offset recovered res
                else (f', Return (Inl s))
      | Inr encoded_record \<Rightarrow>
      (case DecodeWalRecord encoded_record options of
         Inl s \<Rightarrow> (f', Return (Inl (RecoveryCorruption offset (ToString s))))
       | Inr (_, record) \<Rightarrow>
       (case apply_decoded offset record record_size recovered res of
          Inl s \<Rightarrow> (f', Return (Inl s))
        | Inr (recovered', res') \<Rightarrow> (f', Continue recovered' res' (offset + record_size)))))"

definition recover_body ::
    "RecoveryFile \<Rightarrow> Options \<Rightarrow> nat \<Rightarrow> MemTable \<Rightarrow> WalRecoveryResult \<Rightarrow> nat \<Rightarrow> RecoveryFile \<times> turn" where
  "recover_body f options file_size recovered res offset =
     (if file_size - offset < kWalHeaderSize then finish_turn f file_size offset recovered res
      else let (f', header_read) = ReadAllAt f offset kWalHeaderSize in
      case header_read of
        Inl s \<Rightarrow> if IsIncomplete s then finish_turn f' file_size offset recovered res
                else (f', Return (Inl s))
      | Inr header \<Rightarrow>
      (case DecodeWalRecordHeader header options of
         Inl s \<Rightarrow> (f', Return (Inl (RecoveryCorruption offset (ToString s))))
       | Inr decoded_header \<Rightarrow>
           recover_record f' options file_size recovered res offset decoded_header))"

lemma recover_record_progress:
  "recover_record f options file_size recovered res offset h = (f', Continue mt' res' offset') \<Longrightarrow>
     offset' = offset + unat (h_record_size h)"
  by (auto simp: recover_record_def finish_turn_def Let_def
      split: if_splits prod.splits sum.splits)

lemma recover_body_progress:
  "recover_body f options file_size recovered res offset = (f', Continue mt' res' offset') \<Longrightarrow>
     offset < offset'"
  by (auto simp: recover_body_def finish_turn_def Let_def DecodeWalRecordHeader_Inr_iff
      split: if_splits prod.splits sum.splits dest!: recover_record_progress)

function recover_loop ::
    "RecoveryFile \<Rightarrow> Options \<Rightarrow> nat \<Rightarrow> MemTable \<Rightarrow> WalRecoveryResult \<Rightarrow> nat \<Rightarrow>
       RecoveryFile \<times> (MemTable \<times> WalRecoveryResult) result" where
  "recover_loop f options file_size recovered res offset =
     (if offset < file_size then
        (case recover_body f options file_size recovered res offset of
           (f', Return out) \<Rightarrow> (f', out)
         | (f', Continue recovered' res' offset') \<Rightarrow>
             recover_loop f' options file_size recovered' res' offset')
      else (f, Inr (recovered, res)))"
  by pat_completeness auto
termination
  by (relation "measure (\<lambda>(f, options, file_size, recovered, res, offset). file_size - offset)")
    (auto dest!: recover_body_progress [OF sym])

declare recover_loop.simps [simp del]

definition RecoverWal ::
    "RecoveryFile \<Rightarrow> Options \<Rightarrow> RecoveryFile \<times> (MemTable \<times> WalRecoveryResult) result" where
  "RecoverWal f options =
     (let (file_size, f') = Size f in
      case file_size of
        Inl s \<Rightarrow> (f', Inl s)
      | Inr n \<Rightarrow> recover_loop f' options n (new_MemTable options) empty_WalRecoveryResult 0)"


section \<open>The content of a log\<close>

text \<open>
  A log is good for recovery when every record is encodable and the sequence numbers increase.
  \<open>recovered_table\<close> and \<open>recovered_summary\<close> are what recovery makes of it.
\<close>

definition rec_of :: "WalRecord \<Rightarrow> MemTableRecord" where
  "rec_of r = \<lparr>r_key = w_key r, r_sequence = w_sequence r, r_type = w_type r, r_value = w_value r\<rparr>"

lemma rec_of_simps [simp]:
  "r_key (rec_of r) = w_key r" "r_sequence (rec_of r) = w_sequence r"
  "r_type (rec_of r) = w_type r" "r_value (rec_of r) = w_value r"
  by (simp_all add: rec_of_def)

definition recovered_table :: "Options \<Rightarrow> WalRecord list \<Rightarrow> MemTable" where
  "recovered_table options rs = fst (table.replay (map rec_of rs) (new_MemTable options))"

definition recovered_summary :: "WalRecord list \<Rightarrow> WalRecoveryResult" where
  "recovered_summary rs = \<lparr>records_recovered = length rs, valid_bytes = length (wal.log rs),
     discarded_tail_bytes = 0,
     min_sequence = (if rs = [] then 0 else w_sequence (hd rs)),
     max_sequence = (if rs = [] then 0 else w_sequence (last rs)), tail_truncated = False\<rparr>"

definition good_log :: "Options \<Rightarrow> WalRecord list \<Rightarrow> bool" where
  "good_log options rs \<longleftrightarrow> list_all (encodable options) rs \<and> sorted_wrt (<) (map w_sequence rs) \<and>
     ok (snd (table.replay (map rec_of rs) (new_MemTable options)))"

lemma good_log_Nil [simp]: "good_log options []"
  by (simp add: good_log_def)

lemma encodable_storable: "encodable options r \<Longrightarrow> storable (rec_of r)"
  by (auto simp: encodable_def ValidateWalRecord_ok_iff ValidateLengths_ok_iff storable_def)

lemma list_all_storable: "list_all (encodable options) rs \<Longrightarrow> list_all storable (map rec_of rs)"
  by (auto simp: list_all_iff encodable_storable)

lemma replay_options:
  "list_all storable rs \<Longrightarrow> mt_options (fst (table.replay rs mt)) = mt_options mt"
proof (induction rs arbitrary: mt)
  case (Cons r rs)
  have "mt_options (fst (apply_record r mt)) = mt_options mt"
    by (cases "ok (snd (apply_record r mt))")
      (use Cons.prems in \<open>auto simp: apply_record_Add Add_ok_entries Add_fail\<close>)
  then show ?case
    using Cons by simp
qed simp

lemma recovered_table_facts:
  assumes "good_log options rs" and "options_fit options"
  shows "mt_inv (recovered_table options rs)" and "mt_options (recovered_table options rs) = options"
    and "view (recovered_table options rs) = latest (map rec_of rs)"
proof -
  have rs: "list_all storable (map rec_of rs)"
    using assms(1) by (auto simp: good_log_def intro: list_all_storable)
  have new: "mt_inv (new_MemTable options)"
    using assms(2) by (simp add: mt_inv_def)
  show "mt_inv (recovered_table options rs)"
    using table.replay_invar [OF new rs] by (simp add: recovered_table_def)
  show "mt_options (recovered_table options rs) = options"
    using replay_options [OF rs] by (simp add: recovered_table_def)
  show "view (recovered_table options rs) = latest (map rec_of rs)"
    using table.replay_content [OF new rs] assms(1)
    by (simp add: recovered_table_def good_log_def)
qed

text \<open>Extending a good log by one record.\<close>

lemma good_log_snoc:
  "good_log options (rs @ [r]) \<longleftrightarrow>
     good_log options rs \<and> encodable options r \<and> (\<forall>q \<in> set rs. w_sequence q < w_sequence r) \<and>
     ok (snd (apply_record (rec_of r) (recovered_table options rs)))"
  by (auto simp: good_log_def sorted_wrt_append recovered_table_def table.replay_ok_append)


lemma sequences_below:
  assumes "sorted_wrt (<) (map w_sequence rs)" and "s \<noteq> 0"
  shows "(\<forall>q \<in> set rs. w_sequence q < s) \<longleftrightarrow> max_sequence (recovered_summary rs) < s"
  using assms
  by (cases rs rule: rev_cases)
    (auto simp: recovered_summary_def sorted_wrt_append word_neq_0_conv dest: less_trans)

lemma recovered_table_snoc:
  "good_log options rs \<Longrightarrow>
     recovered_table options (rs @ [r]) = fst (apply_record (rec_of r) (recovered_table options rs))"
  by (simp add: recovered_table_def good_log_def table.replay_snoc)

lemma recovered_summary_snoc:
  "recovered_summary (rs @ [r]) = (recovered_summary rs)\<lparr>
     min_sequence := (if records_recovered (recovered_summary rs) = 0 then w_sequence r
                      else min_sequence (recovered_summary rs)),
     records_recovered := records_recovered (recovered_summary rs) + 1,
     max_sequence := w_sequence r,
     valid_bytes := length (wal.log rs) + length (wal_bytes r)\<rparr>"
  by (simp add: recovered_summary_def)

text \<open>The end of the loop body extends the recovered prefix by one record, or refuses.\<close>

lemma apply_decoded_iff:
  assumes "good_log options rs" and "encodable options r"
  shows "apply_decoded (length (wal.log rs)) r (length (wal_bytes r)) (recovered_table options rs)
      (recovered_summary rs) = Inr out \<longleftrightarrow>
    good_log options (rs @ [r]) \<and> length rs \<noteq> size_max \<and>
    out = (recovered_table options (rs @ [r]), recovered_summary (rs @ [r]))"
proof -
  have seq: "w_sequence r \<le> max_sequence (recovered_summary rs) \<longleftrightarrow>
      \<not> (\<forall>q \<in> set rs. w_sequence q < w_sequence r)"
    using assms sequences_below [of rs "w_sequence r"] encodable_bounds(4) [of options r]
    by (auto simp: good_log_def not_less)
  have disp: "(if w_type r = kValue then Put (w_sequence r) (w_key r) (w_value r) mt
      else Delete (w_sequence r) (w_key r) mt) = apply_record (rec_of r) mt" for mt
    by (simp add: apply_record_def)
  show ?thesis
    unfolding apply_decoded_def disp seq good_log_snoc recovered_table_snoc [OF assms(1)]
      recovered_summary_snoc
    using assms by (auto simp: Let_def case_prod_beta recovered_summary_def split: if_splits)
qed

lemma apply_decoded_Inl: "apply_decoded offset r n mt res = Inl s \<Longrightarrow> IsCorruption s"
  by (auto simp: apply_decoded_def Let_def RecoveryCorruption_def split: if_splits prod.splits)

section \<open>Whatever recovery accepts is a log\<close>

lemma TruncateIncompleteTail_cases:
  assumes "TruncateIncompleteTail f n valid res = (f', out)" and "valid \<le> length (rf_data f)"
  shows "(\<exists>s. out = Inl s \<and> \<not> ok s \<and> rf_data f' \<in> {rf_data f, take valid (rf_data f)}) \<or>
    out = Inr (res\<lparr>valid_bytes := valid, discarded_tail_bytes := n - valid, tail_truncated := True\<rparr>) \<and>
    rf_data f' = take valid (rf_data f)"
  using assms
  by (auto simp: TruncateIncompleteTail_def Truncate_def RecoverySync_def Let_def
      split: prod.splits if_splits)

definition recovery_outcome ::
    "Options \<Rightarrow> bytes \<Rightarrow> bytes \<Rightarrow> (MemTable \<times> WalRecoveryResult) result \<Rightarrow> bool" where
  "recovery_outcome options before after out \<longleftrightarrow>
     (case out of
        Inl s \<Rightarrow> \<not> ok s \<and> (after = before \<or> (\<exists>rs rest. good_log options rs \<and>
                   before = wal.log rs @ rest \<and> after = wal.log rs))
      | Inr (mt, res) \<Rightarrow> \<exists>rs rest. good_log options rs \<and> before = wal.log rs @ rest \<and>
          after = wal.log rs \<and> mt = recovered_table options rs \<and>
          res = (recovered_summary rs)\<lparr>discarded_tail_bytes := length rest,
                  tail_truncated := (rest \<noteq> [])\<rparr>)"

lemma finish_truncated_outcome:
  assumes "good_log options rs" and "rf_data f = wal.log rs @ rest" and "rest \<noteq> []"
    and "finish_truncated f (length (rf_data f)) (length (wal.log rs)) (recovered_table options rs)
      (recovered_summary rs) = (f', out)"
  shows "recovery_outcome options (rf_data f) (rf_data f') out"
proof -
  obtain tail where run: "TruncateIncompleteTail f (length (rf_data f)) (length (wal.log rs))
      (recovered_summary rs) = (f', tail)"
    "out = and_then tail (\<lambda>res'. Inr (recovered_table options rs, res'))"
    using assms(4) by (auto simp: finish_truncated_def Let_def split: prod.splits)
  show ?thesis
    using TruncateIncompleteTail_cases [OF run(1)] assms(1-3) run(2)
    by (auto simp: recovery_outcome_def recovered_summary_def intro!: exI [of _ rs])
qed


text \<open>The header is read before the record: both reads see the same record.\<close>

lemma record_of_header:
  assumes header: "DecodeWalRecordHeader (take 32 xs) options = Inr h"
    and dec: "DecodeWalRecord (take (unat (h_record_size h)) xs) options = Inr (m, r)"
    and long: "unat (h_record_size h) \<le> length xs"
  shows "encodable options r \<and> unat (h_record_size h) = length (wal_bytes r) \<and>
    xs = wal_bytes r @ drop (length (wal_bytes r)) xs"
proof -
  let ?n = "unat (h_record_size h)"
  obtain rest where r: "encodable options r" "take ?n xs = wal_bytes r @ rest"
    using wal.dec_sound [OF dec] by auto
  have "32 \<le> ?n"
    using header by (auto simp: DecodeWalRecordHeader_Inr_iff)
  then have "take 32 xs = take 32 (take ?n xs)"
    by simp
  also have "\<dots> = take 32 (wal_bytes r)"
    by (simp add: r(2))
  finally have "h = header_of r"
    using header torn_header [OF r(1), of 32] by simp
  then have n: "?n = length (wal_bytes r)"
    using unat_header_of(1) [OF r(1)] by simp
  then have "length (wal_bytes r @ rest) = length (wal_bytes r)"
    using arg_cong [OF r(2), of length] long by simp
  then have "take (length (wal_bytes r)) xs = wal_bytes r"
    using r(2) n by simp
  then show ?thesis
    using r(1) n by (metis append_take_drop_id)
qed

text \<open>
  The outcomes of one turn on a log whose first records are recovered. With a file that only
  interrupts and shortens reads, the last case is the one where a complete record is read.
\<close>

definition turn_outcome ::
    "Options \<Rightarrow> WalRecord list \<Rightarrow> bytes \<Rightarrow> bytes \<Rightarrow> turn \<Rightarrow> bool" where
  "turn_outcome options rs rest after t \<longleftrightarrow>
     (case t of
        Return out \<Rightarrow> recovery_outcome options (wal.log rs @ rest) after out
      | Continue mt res offset \<Rightarrow> \<exists>r rest'. rest = wal_bytes r @ rest' \<and> good_log options (rs @ [r]) \<and>
          after = wal.log rs @ rest \<and> mt = recovered_table options (rs @ [r]) \<and>
          res = recovered_summary (rs @ [r]) \<and> offset = length (wal.log (rs @ [r])))"

lemma finish_turn_outcome:
  assumes "good_log options rs" and "rf_data f = wal.log rs @ rest" and "rest \<noteq> []"
    and "finish_turn f (length (wal.log rs @ rest)) (length (wal.log rs)) (recovered_table options rs)
      (recovered_summary rs) = (f', t)"
  shows "turn_outcome options rs rest (rf_data f') t"
  using assms(4) finish_truncated_outcome [OF assms(1-3), of f']
  by (auto simp: finish_turn_def turn_outcome_def assms(2) split: prod.splits)

lemma turn_outcome_Return_Inl:
  "\<not> ok s \<Longrightarrow> turn_outcome options rs rest (wal.log rs @ rest) (Return (Inl s))"
  by (simp add: turn_outcome_def recovery_outcome_def)

lemma recover_record_outcome:
  assumes good: "good_log options rs" and data: "rf_data f = wal.log rs @ rest" "rest \<noteq> []"
    and h: "DecodeWalRecordHeader (take 32 rest) options = Inr h"
    and run: "recover_record f options (length (wal.log rs @ rest)) (recovered_table options rs)
      (recovered_summary rs) (length (wal.log rs)) h = (f', t)"
  shows "turn_outcome options rs rest (rf_data f') t"
proof (cases "length rest < unat (h_record_size h)")
  case True
  then show ?thesis
    using run finish_turn_outcome [OF good data] by (simp add: recover_record_def)
next
  case fits: False
  obtain g rr where rr: "ReadAllAt f (length (wal.log rs)) (unat (h_record_size h)) = (g, rr)"
    by force
  have g: "rf_data g = wal.log rs @ rest" "rr = Inr bs \<Longrightarrow> bs = take (unat (h_record_size h)) rest" for bs
    using ReadAllAt_data [OF rr] data by auto
  note run = run [unfolded recover_record_def Let_def rr prod.case, simplified, simplified fits, simplified]
  consider (tail) s where "rr = Inl s" "IsIncomplete s" | (bad) s where "rr = Inl s" "\<not> IsIncomplete s" "\<not> ok s"
    | (undecodable) bs s where "rr = Inr bs" "DecodeWalRecord bs options = Inl s"
    | (decoded) bs m r where "rr = Inr bs" "DecodeWalRecord bs options = Inr (m, r)"
    using ReadAllAt_Inl [of f] rr by (metis old.prod.exhaust sumE)
  then show ?thesis
  proof cases
    case tail
    then show ?thesis
      using run finish_turn_outcome [OF good g(1) data(2)] by simp
  next
    case bad
    then show ?thesis
      using run turn_outcome_Return_Inl g(1) by auto
  next
    case undecodable
    then show ?thesis
      using run g(1) by (auto simp: RecoveryCorruption_def intro!: turn_outcome_Return_Inl)
  next
    case decoded
    have r: "encodable options r" "unat (h_record_size h) = length (wal_bytes r)"
      "rest = wal_bytes r @ drop (length (wal_bytes r)) rest"
      using record_of_header [OF h, of m r] decoded(2) g(2) [OF decoded(1)] fits by auto
    note run = run [unfolded decoded sum.case prod.case r(2)]
    show ?thesis
    proof (cases "apply_decoded (length (wal.log rs)) r (length (wal_bytes r))
        (recovered_table options rs) (recovered_summary rs)")
      case (Inl s)
      then show ?thesis
        using run g(1) apply_decoded_Inl [OF Inl] turn_outcome_Return_Inl [of s]
        by (auto simp: IsCorruption_def ok_def)
    next
      case (Inr out)
      then show ?thesis
        using run g(1) r(3) apply_decoded_iff [OF good r(1), of out]
        by (auto simp: turn_outcome_def intro!: exI [of _ r])
    qed
  qed
qed


lemma recover_body_outcome:
  assumes good: "good_log options rs" and data: "rf_data f = wal.log rs @ rest" "rest \<noteq> []"
    and run: "recover_body f options (length (wal.log rs @ rest)) (recovered_table options rs)
      (recovered_summary rs) (length (wal.log rs)) = (f', t)"
  shows "turn_outcome options rs rest (rf_data f') t"
proof (cases "length rest < kWalHeaderSize")
  case True
  then show ?thesis
    using run finish_turn_outcome [OF good data] by (simp add: recover_body_def)
next
  case long: False
  obtain g hr where hr: "ReadAllAt f (length (wal.log rs)) kWalHeaderSize = (g, hr)"
    by force
  have g: "rf_data g = wal.log rs @ rest" "hr = Inr bs \<Longrightarrow> bs = take 32 rest" for bs
    using ReadAllAt_data [OF hr] data by auto
  note run = run [unfolded recover_body_def Let_def hr prod.case, simplified, simplified long, simplified]
  consider (tail) s where "hr = Inl s" "IsIncomplete s" | (bad) s where "hr = Inl s" "\<not> IsIncomplete s" "\<not> ok s"
    | (undecodable) bs s where "hr = Inr bs" "DecodeWalRecordHeader bs options = Inl s"
    | (decoded) bs h where "hr = Inr bs" "DecodeWalRecordHeader bs options = Inr h"
    using ReadAllAt_Inl [of f] hr by (metis sumE)
  then show ?thesis
  proof cases
    case tail
    then show ?thesis
      using run finish_turn_outcome [OF good g(1) data(2)] by simp
  next
    case bad
    then show ?thesis
      using run turn_outcome_Return_Inl g(1) by auto
  next
    case undecodable
    then show ?thesis
      using run g(1) by (auto simp: RecoveryCorruption_def intro!: turn_outcome_Return_Inl)
  next
    case decoded
    then show ?thesis
      using run recover_record_outcome [OF good g(1) data(2), of h f' t] g(2) by simp
  qed
qed

lemma recover_loop_outcome:
  "good_log options rs \<Longrightarrow> rf_data f = wal.log rs @ rest \<Longrightarrow>
   recover_loop f options (length (wal.log rs @ rest)) (recovered_table options rs)
     (recovered_summary rs) (length (wal.log rs)) = (f', out) \<Longrightarrow>
   recovery_outcome options (wal.log rs @ rest) (rf_data f') out"
proof (induction "length rest" arbitrary: f rs rest rule: less_induct)
  case less
  show ?case
  proof (cases "rest = []")
    case True
    then show ?thesis
      using less.prems by (simp add: recover_loop.simps [of f] recovery_outcome_def)
        (auto simp: recovered_summary_def intro!: exI [of _ rs])
  next
    case False
    obtain g t where body: "recover_body f options (length (wal.log rs @ rest))
        (recovered_table options rs) (recovered_summary rs) (length (wal.log rs)) = (g, t)"
      by force
    note outcome = recover_body_outcome [OF less.prems(1,2) False body]
    note run = less.prems(3) [unfolded recover_loop.simps [of f] body prod.case]
    show ?thesis
    proof (cases t)
      case (Return o')
      then show ?thesis
        using run outcome False by (simp add: turn_outcome_def)
    next
      case (Continue mt res offset)
      then obtain r rest' where r: "rest = wal_bytes r @ rest'" "good_log options (rs @ [r])"
        "rf_data g = wal.log rs @ rest" "mt = recovered_table options (rs @ [r])"
        "res = recovered_summary (rs @ [r])" "offset = length (wal.log (rs @ [r]))"
        using outcome by (auto simp: turn_outcome_def)
      then show ?thesis
        using less.hyps [of rest' "rs @ [r]" g] run Continue by simp
    qed
  qed
qed

lemma RecoverWal_outcome:
  assumes "RecoverWal f options = (f', out)"
  shows "recovery_outcome options (rf_data f) (rf_data f') out"
proof -
  obtain fs g where size: "Size f = (fs, g)"
    by force
  then have g: "rf_data g = rf_data f" "fs = Inr n \<Longrightarrow> n = length (rf_data f)"
      "fs = Inl s \<Longrightarrow> \<not> ok s" for n s
    by (auto simp: Size_def Let_def split: prod.splits if_splits)
  have start: "new_MemTable options = recovered_table options []"
      "empty_WalRecoveryResult = recovered_summary []"
    by (simp_all add: recovered_table_def recovered_summary_def empty_WalRecoveryResult_def)
  show ?thesis
    using assms size g recover_loop_outcome [of options "[]" g "rf_data f" f' out]
    by (cases fs) (auto simp: RecoverWal_def start recovery_outcome_def)
qed


section \<open>Every log of increasing records is recovered\<close>

lemma latest_in: "latest (map rec_of rs) k = Some e \<Longrightarrow> \<exists>r \<in> set rs. e_sequence e = w_sequence r"
  by (force simp: latest_def entry_of_def dest!: map_of_SomeD)

text \<open>
  The accounted size of a table never exceeds the length of its log, so a log that fits a file is
  always applicable.
\<close>

lemma good_logI:
  assumes fit: "options_fit options"
  shows "list_all (encodable options) rs \<Longrightarrow> sorted_wrt (<) (map w_sequence rs) \<Longrightarrow>
    length (wal.log rs) \<le> u64_max \<Longrightarrow>
    good_log options rs \<and> payload_total (entries (recovered_table options rs)) \<le> length (wal.log rs)"
proof (induction rs rule: rev_induct)
  case Nil
  then show ?case
    by (simp add: recovered_table_def new_MemTable_def payload_total_def)
next
  case (snoc r rs)
  then have good: "good_log options rs"
    and total: "payload_total (entries (recovered_table options rs)) \<le> length (wal.log rs)"
    and r: "encodable options r" and seq: "\<forall>q \<in> set rs. w_sequence q < w_sequence r"
    by (auto simp: sorted_wrt_append)
  note table = recovered_table_facts [OF good fit]
  have app: "apply_record (rec_of r) mt = Add (w_sequence r) (w_type r) (w_key r) (w_value r) mt" for mt
    using apply_record_Add [OF encodable_storable [OF r]] by simp
  have wf: "mt_wf (recovered_table options rs)"
    using table(1) by (simp add: mt_inv_def)
  have "ok (snd (Add (w_sequence r) (w_type r) (w_key r) (w_value r) (recovered_table options rs)))"
  proof (rule Add_succeeds [OF wf])
    show "w_sequence r \<noteq> 0"
      using encodable_bounds(4) [OF r] .
    show "ok (Validate (recovered_table options rs) (w_key r) (w_value r))"
      using encodable_bounds(5) [OF r] table(2) by (auto simp: Validate_ok_iff ValidateLengths_ok_iff)
    show "e_sequence e < w_sequence r" if "view (recovered_table options rs) (w_key r) = Some e" for e
      using latest_in [of rs "w_key r" e] that seq by (auto simp: table(3))
    show "payload_total (entries (recovered_table options rs)) + entry_size (w_key r) (w_value r) \<le> size_max"
      using total snoc.prems(3) by (simp add: entry_size_def)
  qed
  then show ?case
    using good r seq total Add_total_le [OF wf] 
    by (fastforce simp: good_log_snoc recovered_table_snoc app entry_size_def)
qed

lemma log_length: "length rs \<le> length (wal.log rs)"
  by (induction rs) auto

lemma good_log_prefix: "good_log options (rs @ qs) \<Longrightarrow> good_log options rs"
  by (auto simp: good_log_def sorted_wrt_append table.replay_ok_append)

text \<open>A header is decoded from its own 32 bytes, a record from the bytes its header claims.\<close>

lemma DecodeWalRecordHeader_take:
  assumes "32 \<le> n" and "32 \<le> length xs"
  shows "DecodeWalRecordHeader (take n xs) options = DecodeWalRecordHeader xs options"
proof -
  have "DecodeFixed16 (drop 6 (take n xs)) = DecodeFixed16 (drop 6 xs)"
    "DecodeFixed64 (drop 12 (take n xs)) = DecodeFixed64 (drop 12 xs)"
    using assms by (auto intro!: fixed16.dec_cong fixed64.dec_cong simp: drop_take min_def)
  moreover have "DecodeFixed32 (drop k (take n xs)) = DecodeFixed32 (drop k xs)" if "k + 4 \<le> 32" for k
    using assms that by (auto intro!: fixed32.dec_cong simp: drop_take min_def)
  ultimately show ?thesis
    using assms by (simp add: DecodeWalRecordHeader_def min_def)
qed

lemma DecodeWalRecord_take:
  assumes "DecodeWalRecordHeader xs options = Inr h" and "unat (h_record_size h) \<le> length xs"
  shows "DecodeWalRecord (take (unat (h_record_size h)) xs) options = DecodeWalRecord xs options"
proof -
  let ?n = "unat (h_record_size h)"
  have n: "32 \<le> ?n"
    using assms(1) by (auto simp: DecodeWalRecordHeader_Inr_iff)
  have "DecodeWalRecordHeader (take ?n xs) options = Inr h"
    using assms n DecodeWalRecordHeader_take [of ?n xs] by simp
  then show ?thesis
    using assms n by (simp add: DecodeWalRecord_def Let_def substr_def drop_take min_def)
qed


lemma ReadAllAt_region:
  assumes "benign_file f" and "rf_data f = xs @ rest" and "n \<le> length rest"
  obtains f' where "ReadAllAt f (length xs) n = (f', Inr (take n rest))"
    "benign_file f'" "rf_data f' = rf_data f"
  using ReadAllAt_benign [OF assms(1), of "length xs" n] assms(2,3) by auto

lemma recover_body_intact:
  assumes f: "benign_file f" "rf_data f = wal.log rs @ wal_bytes r @ rest" "n = length (rf_data f)"
    and good: "good_log options (rs @ [r])"
  obtains f' where "recover_body f options n (recovered_table options rs) (recovered_summary rs)
      (length (wal.log rs)) = (f', Continue (recovered_table options (rs @ [r]))
         (recovered_summary (rs @ [r])) (length (wal.log (rs @ [r]))))"
    "benign_file f'" "rf_data f' = rf_data f"
proof -
  have rs: "good_log options rs" and r: "encodable options r"
    using good by (simp_all add: good_log_snoc)
  obtain g where g: "ReadAllAt f (length (wal.log rs)) 32 = (g, Inr (take 32 (wal_bytes r)))"
    "benign_file g" "rf_data g = rf_data f"
    by (rule ReadAllAt_region [OF f(1,2), of 32]) auto
  obtain f' where f': "ReadAllAt g (length (wal.log rs)) (length (wal_bytes r)) = (f', Inr (wal_bytes r))"
    "benign_file f'" "rf_data f' = rf_data g"
    by (rule ReadAllAt_region [OF g(2) trans [OF g(3) f(2)], of "length (wal_bytes r)"]) auto
  have "length rs < length (rf_data f)"
    using f log_length [of rs] by simp
  then have count: "length rs \<noteq> size_max"
    using f(1) by (auto simp: benign_file_def)
  have "apply_decoded (length (wal.log rs)) r (length (wal_bytes r)) (recovered_table options rs)
      (recovered_summary rs) = Inr (recovered_table options (rs @ [r]), recovered_summary (rs @ [r]))"
    using good count by (simp only: apply_decoded_iff [OF rs r]) simp
  moreover have "DecodeWalRecordHeader (take 32 (wal_bytes r)) options = Inr (header_of r)"
    using torn_header [OF r, of 32] by simp
  moreover have "DecodeWalRecord (wal_bytes r) options = Inr (length (wal_bytes r), r)"
    using wal.dec_enc [OF r, of "[]"] by simp
  moreover have "\<not> n - length (wal.log rs) < 32" "\<not> n - length (wal.log rs) < length (wal_bytes r)"
    using f by simp_all
  ultimately show thesis
    using g f' that [of f']
    by (simp add: recover_body_def recover_record_def unat_header_of(1) [OF r] del: length_wal_bytes)
qed

lemma recover_loop_intact:
  "benign_file f \<Longrightarrow> rf_data f = wal.log (rs @ qs) @ rest \<Longrightarrow> n = length (rf_data f) \<Longrightarrow>
   good_log options (rs @ qs) \<Longrightarrow>
   \<exists>f'. benign_file f' \<and> rf_data f' = rf_data f \<and>
     recover_loop f options n (recovered_table options rs) (recovered_summary rs) (length (wal.log rs)) =
     recover_loop f' options n (recovered_table options (rs @ qs)) (recovered_summary (rs @ qs))
       (length (wal.log (rs @ qs)))"
proof (induction qs arbitrary: f rs)
  case (Cons r qs)
  have good: "good_log options (rs @ [r])"
    using Cons.prems(4) good_log_prefix [of options "rs @ [r]" qs] by simp
  have data: "rf_data f = wal.log rs @ wal_bytes r @ wal.log qs @ rest"
    using Cons.prems(2) by simp
  obtain g where body: "recover_body f options n (recovered_table options rs) (recovered_summary rs)
      (length (wal.log rs)) = (g, Continue (recovered_table options (rs @ [r]))
         (recovered_summary (rs @ [r])) (length (wal.log (rs @ [r]))))"
    and g: "benign_file g" "rf_data g = rf_data f"
    by (rule recover_body_intact [OF Cons.prems(1) data Cons.prems(3) good])
  have "\<exists>f'. benign_file f' \<and> rf_data f' = rf_data g \<and>
     recover_loop g options n (recovered_table options (rs @ [r])) (recovered_summary (rs @ [r]))
       (length (wal.log (rs @ [r]))) =
     recover_loop f' options n (recovered_table options ((rs @ [r]) @ qs)) (recovered_summary ((rs @ [r]) @ qs))
       (length (wal.log ((rs @ [r]) @ qs)))"
    by (rule Cons.IH [OF g(1)]) (use Cons.prems g in simp_all)
  moreover have "length (wal.log rs) < n"
    using Cons.prems by simp
  ultimately show ?case
    using body g by (simp add: recover_loop.simps [of f])
qed auto


section \<open>Where recovery stops\<close>

lemma finish_turn_benign:
  assumes "benign_file f" and "rf_data f = wal.log rs @ rest" and "rf_data f \<noteq> []"
  obtains f' where "finish_turn f (length (wal.log rs @ rest)) (length (wal.log rs)) mt res =
      (f', Return (Inr (mt, res\<lparr>valid_bytes := length (wal.log rs),
        discarded_tail_bytes := length rest, tail_truncated := True\<rparr>)))"
    "rf_data f' = wal.log rs"
  using assms that
  by (simp add: finish_turn_def finish_truncated_def TruncateIncompleteTail_def Truncate_def
      RecoverySync_def benign_file_def Let_def)

lemma recover_body_incomplete:
  assumes f: "benign_file f" "rf_data f = wal.log rs @ rest" "rest \<noteq> []"
    and dec: "DecodeWalRecord rest options = Inl s" "IsIncomplete s"
  obtains f' where "recover_body f options (length (wal.log rs @ rest)) mt res (length (wal.log rs)) =
      (f', Return (Inr (mt, res\<lparr>valid_bytes := length (wal.log rs),
        discarded_tail_bytes := length rest, tail_truncated := True\<rparr>)))"
    "rf_data f' = wal.log rs"
proof (cases "length rest < 32")
  case True
  then show thesis
    using finish_turn_benign [OF f(1,2), of mt res] f(2,3) that by (auto simp: recover_body_def)
next
  case False
  then obtain h where h: "DecodeWalRecordHeader rest options = Inr h" "length rest < unat (h_record_size h)"
    using DecodeWalRecord_Inl [OF dec(1)] dec(2)
    by (auto simp: IsIncomplete_def IsCorruption_def split: if_splits)
  obtain g where g: "ReadAllAt f (length (wal.log rs)) 32 = (g, Inr (take 32 rest))"
    "benign_file g" "rf_data g = rf_data f"
    using False by (auto intro: ReadAllAt_region [OF f(1,2), of 32])
  have "DecodeWalRecordHeader (take 32 rest) options = Inr h"
    using False h(1) DecodeWalRecordHeader_take [of 32 rest] by simp
  then show thesis
    using False h g f(2,3) that finish_turn_benign [of g rs rest mt res]
    by (auto simp: recover_body_def recover_record_def)
qed

lemma recover_body_corrupt:
  assumes f: "benign_file f" "rf_data f = wal.log rs @ rest" "rest \<noteq> []"
    and dec: "DecodeWalRecord rest options = Inl s" "IsCorruption s"
  obtains f' m where "recover_body f options (length (wal.log rs @ rest)) mt res (length (wal.log rs)) =
      (f', Return (Inl (RecoveryCorruption (length (wal.log rs)) m)))" "rf_data f' = rf_data f"
proof -
  have long: "32 \<le> length rest"
    and fits: "DecodeWalRecordHeader rest options = Inr h \<Longrightarrow> unat (h_record_size h) \<le> length rest" for h
    using DecodeWalRecord_Inl [OF dec(1)] dec(2)
    by (auto simp: IsIncomplete_def IsCorruption_def not_less split: if_splits)
  obtain g where g: "ReadAllAt f (length (wal.log rs)) 32 = (g, Inr (take 32 rest))"
    "benign_file g" "rf_data g = rf_data f"
    using long by (auto intro: ReadAllAt_region [OF f(1,2), of 32])
  have take: "DecodeWalRecordHeader (take 32 rest) options = DecodeWalRecordHeader rest options"
    using long DecodeWalRecordHeader_take [of 32 rest] by simp
  show thesis
  proof (cases "DecodeWalRecordHeader rest options")
    case (Inl t)
    then show thesis
      using g long take that [of g] by (simp add: recover_body_def)
  next
    case (Inr h)
    obtain f' where f': "ReadAllAt g (length (wal.log rs)) (unat (h_record_size h)) =
        (f', Inr (take (unat (h_record_size h)) rest))" "rf_data f' = rf_data f"
      using ReadAllAt_region [OF g(2) trans [OF g(3) f(2)] fits [OF Inr]] g(3) by metis
    then show thesis
      using g long take Inr fits [OF Inr] that [of f'] dec(1) DecodeWalRecord_take [OF Inr fits [OF Inr]]
      by (simp add: recover_body_def recover_record_def)
  qed
qed

lemma RecoverWal_intact_prefix:
  assumes "benign_file f" and "rf_data f = wal.log rs @ rest" and "good_log options rs"
  obtains f' where "benign_file f'" "rf_data f' = rf_data f"
    "RecoverWal f options = recover_loop f' options (length (wal.log rs @ rest))
       (recovered_table options rs) (recovered_summary rs) (length (wal.log rs))"
proof -
  have start: "new_MemTable options = recovered_table options []"
      "empty_WalRecoveryResult = recovered_summary []"
    by (simp_all add: recovered_table_def recovered_summary_def empty_WalRecoveryResult_def)
  let ?g = "f\<lparr>rf_sizes := []\<rparr>"
  have "\<exists>f'. benign_file f' \<and> rf_data f' = rf_data ?g \<and>
     recover_loop ?g options (length (rf_data f)) (recovered_table options []) (recovered_summary [])
       (length (wal.log [])) =
     recover_loop f' options (length (rf_data f)) (recovered_table options ([] @ rs))
       (recovered_summary ([] @ rs)) (length (wal.log ([] @ rs)))"
    by (rule recover_loop_intact [where rest = rest]) (use assms in \<open>simp_all add: benign_file_def\<close>)
  moreover have "RecoverWal f options = recover_loop ?g options (length (rf_data f))
      (recovered_table options []) (recovered_summary []) (length (wal.log []))"
    using assms(1) by (simp add: RecoverWal_def Size_def benign_file_def start)
  ultimately show thesis
    using assms(2) that by auto
qed


text \<open>What an append that broke off leaves behind the last complete record.\<close>

definition torn_tail :: "Options \<Rightarrow> bytes \<Rightarrow> bool" where
  "torn_tail options t \<longleftrightarrow>
     t = [] \<or> (\<exists>r k. encodable options r \<and> k < length (wal_bytes r) \<and> t = take k (wal_bytes r))"

lemma RecoverWal_torn:
  assumes "benign_file f" and "rf_data f = wal.log rs @ t" and "good_log options rs"
    and "torn_tail options t"
  shows "\<exists>f'. RecoverWal f options = (f', Inr (recovered_table options rs,
      (recovered_summary rs)\<lparr>discarded_tail_bytes := length t, tail_truncated := (t \<noteq> [])\<rparr>)) \<and>
    rf_data f' = wal.log rs"
proof -
  obtain g where g: "benign_file g" "rf_data g = rf_data f"
    "RecoverWal f options = recover_loop g options (length (wal.log rs @ t))
       (recovered_table options rs) (recovered_summary rs) (length (wal.log rs))"
    using RecoverWal_intact_prefix [OF assms(1-3)] by blast
  show ?thesis
  proof (cases "t = []")
    case True
    then show ?thesis
      using g assms(2) by (simp add: recover_loop.simps [of g] recovered_summary_def)
  next
    case False
    then obtain s where s: "DecodeWalRecord t options = Inl s" "IsIncomplete s"
      using assms(4) wal.dec_torn unfolding torn_tail_def by metis
    obtain f' where "recover_body g options (length (wal.log rs @ t)) (recovered_table options rs)
        (recovered_summary rs) (length (wal.log rs)) = (f', Return (Inr (recovered_table options rs,
          (recovered_summary rs)\<lparr>valid_bytes := length (wal.log rs),
            discarded_tail_bytes := length t, tail_truncated := True\<rparr>)))" "rf_data f' = wal.log rs"
      using recover_body_incomplete [OF g(1) trans [OF g(2) assms(2)] False s] by blast
    then show ?thesis
      using g(3) False by (simp add: recover_loop.simps [of g] recovered_summary_def)
  qed
qed

section \<open>Properties\<close>

text \<open>
  C7. Recovery restores every complete record. On a log of encodable records with increasing
  sequence numbers, followed by nothing or by what an interrupted append left, \<open>RecoverWal\<close>
  succeeds: the table maps every key to its newest version in the log, the counters describe
  exactly the complete records, and the file is cut back to them.
\<close>

theorem RecoverWal_recovers:
  assumes "options_fit options" and "benign_file f" and "rf_data f = wal.log rs @ t"
    and "list_all (encodable options) rs" and "sorted_wrt (<) (map w_sequence rs)"
    and "torn_tail options t"
  shows "\<exists>f' mt res. RecoverWal f options = (f', Inr (mt, res)) \<and> rf_data f' = wal.log rs \<and>
    mt_wf mt \<and> view mt = latest (map rec_of rs) \<and>
    records_recovered res = length rs \<and> valid_bytes res = length (wal.log rs) \<and>
    discarded_tail_bytes res = length t \<and> tail_truncated res = (t \<noteq> []) \<and>
    max_sequence res = (if rs = [] then 0 else w_sequence (last rs))"
proof -
  have "good_log options rs"
    using good_logI [OF assms(1,4,5)] assms(2,3) by (simp add: benign_file_def)
  then show ?thesis
    using RecoverWal_torn [OF assms(2,3) _ assms(6)] recovered_table_facts [OF _ assms(1)]
    by (auto simp: mt_inv_def recovered_summary_def)
qed

lemma sample_record_encodable: "encodable default_Options sample_record"
  using sample_record_encodes(1) by (simp add: EncodeWalRecord_Inr_iff)

lemma default_Options_fit: "options_fit default_Options"
  by (simp add: options_fit_def default_Options_def)

definition sample_log :: "bytes \<Rightarrow> RecoveryFile" where
  "sample_log tail = \<lparr>rf_name = ''wal'', rf_data = wal_bytes sample_record @ tail,
     rf_reads = [Delivers 3, ReadInterrupts], rf_sizes = [], rf_truncates = [], rf_syncs = []\<rparr>"

theorem RecoverWal_recovers_witness:
  "\<exists>f' mt res. RecoverWal (sample_log (take 9 (wal_bytes sample_record))) default_Options =
      (f', Inr (mt, res)) \<and>
    rf_data f' = wal_bytes sample_record \<and> records_recovered res = 1 \<and> max_sequence res = 7 \<and>
    tail_truncated res"
proof -
  let ?t = "take 9 (wal_bytes sample_record)"
  have "torn_tail default_Options ?t"
    using sample_record_encodable sample_record_encodes(2)
    by (auto simp: torn_tail_def intro!: exI [of _ sample_record] exI [of _ 9])
  moreover have "benign_file (sample_log ?t)" "rf_data (sample_log ?t) = wal.log [sample_record] @ ?t"
    by (simp_all add: sample_log_def benign_file_def sample_record_def)
  ultimately show ?thesis
    using RecoverWal_recovers [OF default_Options_fit, of "sample_log ?t" "[sample_record]" ?t]
      sample_record_encodable by (fastforce simp: sample_record_def)
qed

text \<open>
  C8. Recovery never invents, reorders or skips records, whatever interruptions, short reads, false
  ends of file and errors the file answers with. When it succeeds, the file began with a log of
  encodable records with increasing sequence numbers, exactly these are in the table, and exactly
  their bytes are left in the file; when it fails, the file is as it was or cut back to such a log.
\<close>

theorem RecoverWal_sound:
  assumes "options_fit options" and "RecoverWal f options = (f', out)"
  shows "case out of
      Inr (mt, res) \<Rightarrow> \<exists>rs rest. list_all (encodable options) rs \<and> sorted_wrt (<) (map w_sequence rs) \<and>
        rf_data f = wal.log rs @ rest \<and> rf_data f' = wal.log rs \<and>
        mt_wf mt \<and> view mt = latest (map rec_of rs) \<and> records_recovered res = length rs \<and>
        valid_bytes res = length (rf_data f') \<and> discarded_tail_bytes res = length rest
    | Inl s \<Rightarrow> \<not> ok s \<and> (rf_data f' = rf_data f \<or>
        (\<exists>rs rest. list_all (encodable options) rs \<and> rf_data f = wal.log rs @ rest \<and>
           rf_data f' = wal.log rs))"
proof -
  note outcome = RecoverWal_outcome [OF assms(2), unfolded recovery_outcome_def]
  show ?thesis
  proof (cases out)
    case (Inl s)
    then show ?thesis
      using outcome by (auto simp: good_log_def)
  next
    case (Inr p)
    then obtain rs rest where "good_log options rs" "rf_data f = wal.log rs @ rest" "rf_data f' = wal.log rs"
      "p = (recovered_table options rs, (recovered_summary rs)\<lparr>discarded_tail_bytes := length rest,
         tail_truncated := (rest \<noteq> [])\<rparr>)"
      using outcome by (cases p) auto
    then show ?thesis
      using Inr recovered_table_facts [OF _ assms(1), of rs]
      by (auto simp: good_log_def mt_inv_def recovered_summary_def)
  qed
qed

theorem RecoverWal_sound_witness:
  "\<exists>f' out. RecoverWal (sample_log []) default_Options = (f', out) \<and>
     (\<forall>s. out = Inl s \<longrightarrow> \<not> ok s)"
proof -
  obtain f' out where run: "RecoverWal (sample_log []) default_Options = (f', out)"
    by force
  from RecoverWal_sound [OF default_Options_fit run] show ?thesis
    using run by auto
qed

text \<open>
  C9. A damaged record is never dropped as if it were a torn tail: when one byte of a complete
  record has changed, recovery reports corruption, whatever follows the record, and leaves the file
  untouched.
\<close>

theorem RecoverWal_reports_damage:
  assumes "options_fit options" and "benign_file f"
    and "list_all (encodable options) (rs @ [r])" and "sorted_wrt (<) (map w_sequence rs)"
    and "rf_data f = wal.log rs @ (wal_bytes r)[i := b] @ rest"
    and "i < length (wal_bytes r)" and "b \<noteq> wal_bytes r ! i"
  shows "\<exists>f' s. RecoverWal f options = (f', Inl s) \<and> IsCorruption s \<and> rf_data f' = rf_data f"
proof -
  let ?bad = "(wal_bytes r)[i := b] @ rest"
  have good: "good_log options rs"
    using good_logI [OF assms(1), of rs] assms(2-5) by (simp add: benign_file_def)
  have r: "encodable options r"
    using assms(3) by simp
  obtain s where s: "DecodeWalRecord ?bad options = Inl s" "IsCorruption s"
    using changed_byte_refused [OF r assms(6,7)] by blast
  obtain g where g: "benign_file g" "rf_data g = rf_data f"
    "RecoverWal f options = recover_loop g options (length (wal.log rs @ ?bad))
       (recovered_table options rs) (recovered_summary rs) (length (wal.log rs))"
    using RecoverWal_intact_prefix [OF assms(2,5) good] by blast
  have bad: "?bad \<noteq> []"
    using assms(6) by auto
  obtain f' m where "recover_body g options (length (wal.log rs @ ?bad)) (recovered_table options rs)
      (recovered_summary rs) (length (wal.log rs)) =
        (f', Return (Inl (RecoveryCorruption (length (wal.log rs)) m)))" "rf_data f' = rf_data g"
    using recover_body_corrupt [OF g(1) trans [OF g(2) assms(5)] bad s] by blast
  then show ?thesis
    using g bad by (auto simp: recover_loop.simps [of g] RecoveryCorruption_def)
qed

theorem RecoverWal_reports_damage_witness:
  "\<exists>f' s. RecoverWal \<lparr>rf_name = ''wal'', rf_data = (wal_bytes sample_record)[33 := wal_bytes sample_record ! 33 + 1],
       rf_reads = [], rf_sizes = [], rf_truncates = [], rf_syncs = []\<rparr> default_Options = (f', Inl s) \<and>
     IsCorruption s"
proof -
  let ?bad = "(wal_bytes sample_record)[33 := wal_bytes sample_record ! 33 + 1]"
  let ?f = "\<lparr>rf_name = ''wal'', rf_data = ?bad, rf_reads = [], rf_sizes = [], rf_truncates = [], rf_syncs = []\<rparr>"
  have "benign_file ?f"
    by (simp add: benign_file_def sample_record_def)
  then show ?thesis
    using RecoverWal_reports_damage [OF default_Options_fit, of ?f "[]" sample_record 33
        "wal_bytes sample_record ! 33 + 1" "[]"] sample_record_encodable sample_record_encodes(2)
    by auto
qed

text \<open>
  Recovery is idempotent: recovering a file that a successful recovery has left behind gives
  the same table and sequence number again and discards nothing.
\<close>

theorem RecoverWal_idempotent:
  assumes "RecoverWal f options = (f', Inr (mt, res))" and "benign_file g" and "rf_data g = rf_data f'"
  shows "\<exists>g' res'. RecoverWal g options = (g', Inr (mt, res')) \<and> rf_data g' = rf_data g \<and>
    max_sequence res' = max_sequence res \<and> \<not> tail_truncated res'"
proof -
  obtain rs where "good_log options rs" "rf_data f' = wal.log rs" "mt = recovered_table options rs"
    "max_sequence res = max_sequence (recovered_summary rs)"
    using RecoverWal_outcome [OF assms(1)] by (auto simp: recovery_outcome_def)
  then show ?thesis
    using RecoverWal_torn [of g rs "[]" options] assms(2,3)
    by (auto simp: torn_tail_def)
qed

theorem RecoverWal_idempotent_witness:
  "\<exists>f' mt res g' res'. RecoverWal (sample_log []) default_Options = (f', Inr (mt, res)) \<and>
     RecoverWal (sample_log []) default_Options = (g', Inr (mt, res')) \<and> \<not> tail_truncated res'"
proof -
  have f: "benign_file (sample_log [])" "rf_data (sample_log []) = wal.log [sample_record]"
    by (simp_all add: sample_log_def benign_file_def sample_record_def)
  have "good_log default_Options [sample_record]"
    using good_logI [OF default_Options_fit, of "[sample_record]"] sample_record_encodable
    by (simp add: sample_record_def)
  then obtain f' mt res where run: "RecoverWal (sample_log []) default_Options = (f', Inr (mt, res))"
      "rf_data f' = wal.log [sample_record]"
    using RecoverWal_torn [OF f(1), of "[sample_record]" "[]" default_Options] f(2) by (auto simp: torn_tail_def)
  from RecoverWal_idempotent [OF run(1) f(1)] show ?thesis
    using run f(2) by auto
qed

end
