(* ===== verification/WritePath.thy ===== *)
theory WritePath
  imports Recovery
begin

text \<open>
  \<^verbatim>\<open>src/write_path.cpp\<close>: every write goes to the log first and to the MemTable after that. The
  relation \<open>reachable\<close> describes all states a write path gets into, with the history of the
  acknowledged writes; the properties connect that history to the table, to the log file and to
  what recovery makes of the file after a crash.
\<close>

section \<open>Operations\<close>

record WritePath =
  wp_options :: Options
  wp_wal :: WalWriter
  wp_memtable :: MemTable
  wp_last_sequence :: u64
  wp_status :: status

definition WritePath_Create :: "Options \<Rightarrow> WritableFile option \<Rightarrow> WritePath result" where
  "WritePath_Create options wal_file =
     (if wal_file = None then Inl (InvalidArgument ''WritePath WAL file must not be null'')
      else Inr \<lparr>wp_options = options, wp_wal = new_WalWriter options wal_file,
                wp_memtable = new_MemTable options, wp_last_sequence = 0, wp_status = Ok\<rparr>)"

text \<open>
  \<open>opened\<close> is what opening the path for recovery returned; \<open>open_append\<close> answers the second open,
  of a file that by then has the content recovery left.
\<close>

definition WritePath_Open ::
    "string \<Rightarrow> Options \<Rightarrow> RecoveryFile result \<Rightarrow> (bytes \<Rightarrow> WritableFile result) \<Rightarrow>
       (WritePath \<times> WalRecoveryResult) result" where
  "WritePath_Open path options opened open_append =
     (if path = [] then Inl (InvalidArgument ''WritePath WAL path must not be empty'')
      else and_then opened (\<lambda>recovery_file.
        let (recovery_file', recovery) = RecoverWal recovery_file options in
        and_then recovery (\<lambda>(recovered_memtable, recovered_result).
        and_then (open_append (rf_data recovery_file')) (\<lambda>wal_file.
          Inr (\<lparr>wp_options = options, wp_wal = new_WalWriter options (Some wal_file),
                wp_memtable = recovered_memtable,
                wp_last_sequence = max_sequence recovered_result, wp_status = Ok\<rparr>,
               recovered_result)))))"

definition apply_failure :: "status \<Rightarrow> status" where
  "apply_failure memtable_status =
     Corruption (''WAL append succeeded but MemTable apply failed: '' @ ToString memtable_status)"

definition WritePath_Write ::
    "ValueType \<Rightarrow> bytes \<Rightarrow> bytes \<Rightarrow> SyncMode \<Rightarrow> WritePath \<Rightarrow> WritePath \<times> status" where
  "WritePath_Write type key value sync_mode wp =
     (let record = \<lparr>w_type = type, w_sequence = 1, w_key = key, w_value = value\<rparr>;
          validation = ValidateWalRecord record (wp_options wp) in
      if \<not> ok validation then (wp, validation)
      else if sync_mode \<noteq> kSync \<and> sync_mode \<noteq> kAsync
        then (wp, InvalidArgument ''write sync mode is invalid'')
      else if \<not> ok (wp_status wp) then (wp, wp_status wp)
      else if failed (wp_wal wp)
        then (wp\<lparr>wp_status := ww_status (wp_wal wp)\<rparr>, ww_status (wp_wal wp))
      else if wp_last_sequence wp = - 1
        then (wp, InvalidArgument ''sequence number space is exhausted'')
      else let
        last_sequence = wp_last_sequence wp + 1;
        record = record\<lparr>w_sequence := last_sequence\<rparr>;
        (wal', wal_status) = Append record sync_mode (wp_wal wp);
        wp = wp\<lparr>wp_last_sequence := last_sequence, wp_wal := wal'\<rparr>
      in if \<not> ok wal_status then (wp\<lparr>wp_status := wal_status\<rparr>, wal_status)
      else let
        (memtable', memtable_status) =
          (if type = kValue then Put last_sequence key value (wp_memtable wp)
           else Delete last_sequence key (wp_memtable wp));
        wp = wp\<lparr>wp_memtable := memtable'\<rparr>
      in if \<not> ok memtable_status then
          (wp\<lparr>wp_status := apply_failure memtable_status\<rparr>, apply_failure memtable_status)
      else (wp, Ok))"

definition WritePath_Put :: "bytes \<Rightarrow> bytes \<Rightarrow> SyncMode \<Rightarrow> WritePath \<Rightarrow> WritePath \<times> status" where
  "WritePath_Put key value sync_mode wp = WritePath_Write kValue key value sync_mode wp"

definition WritePath_Delete :: "bytes \<Rightarrow> SyncMode \<Rightarrow> WritePath \<Rightarrow> WritePath \<times> status" where
  "WritePath_Delete key sync_mode wp = WritePath_Write kDeletion key [] sync_mode wp"

definition WritePath_Get :: "WritePath \<Rightarrow> bytes \<Rightarrow> LookupResult" where
  "WritePath_Get wp key = MemTable.Get (wp_memtable wp) key"

section \<open>Reachable states\<close>

text \<open>
  \<open>reachable options wp rs d\<close>: the write path \<open>wp\<close> was created on an empty file, \<open>rs\<close> are the
  writes acknowledged since, in order, and the first \<open>d\<close> of them were acknowledged before or by the
  last write in sync mode.
\<close>

definition acknowledged :: "ValueType \<Rightarrow> bytes \<Rightarrow> bytes \<Rightarrow> WritePath \<Rightarrow> WalRecord" where
  "acknowledged type key value wp =
     \<lparr>w_type = type, w_sequence = wp_last_sequence wp, w_key = key, w_value = value\<rparr>"

inductive reachable :: "Options \<Rightarrow> WritePath \<Rightarrow> WalRecord list \<Rightarrow> nat \<Rightarrow> bool" for options where
  create: "WritePath_Create options (Some f) = Inr wp \<Longrightarrow> wf_data f = [] \<Longrightarrow> wf_durable f = [] \<Longrightarrow>
    reachable options wp [] 0"
| acked: "reachable options wp rs d \<Longrightarrow> WritePath_Write type key value mode wp = (wp', st) \<Longrightarrow> ok st \<Longrightarrow>
    reachable options wp' (rs @ [acknowledged type key value wp'])
      (if mode = kSync then length rs + 1 else d)"
| refused: "reachable options wp rs d \<Longrightarrow> WritePath_Write type key value mode wp = (wp', st) \<Longrightarrow> \<not> ok st \<Longrightarrow>
    reachable options wp' rs d"

text \<open>
  The invariant. \<open>extra\<close> is the record of the write that broke the path, with the number of its
  bytes that reached the file; a path with such a record accepts no more writes.
\<close>

definition file_holds ::
    "Options \<Rightarrow> WritePath \<Rightarrow> WalRecord list \<Rightarrow> nat \<Rightarrow> WritableFile \<Rightarrow> bool" where
  "file_holds options wp rs d f \<longleftrightarrow>
     d \<le> length rs \<and> wal_device.device_ok f \<and> length (wal.log (take d rs)) \<le> length (wf_durable f) \<and>
     (wf_data f = wal.log rs \<or>
      (\<exists>r n. wf_data f = wal.log rs @ take n (wal_bytes r) \<and> n \<le> length (wal_bytes r) \<and>
         encodable options r \<and> w_sequence r = wp_last_sequence wp \<and>
         (\<forall>q \<in> set rs. w_sequence q < w_sequence r) \<and> \<not> ok (wp_status wp)))"

definition wp_inv :: "Options \<Rightarrow> WritePath \<Rightarrow> WalRecord list \<Rightarrow> nat \<Rightarrow> bool" where
  "wp_inv options wp rs d \<longleftrightarrow>
     wp_options wp = options \<and> ww_options (wp_wal wp) = options \<and>
     good_log options rs \<and> (\<forall>r \<in> set rs. w_sequence r \<le> wp_last_sequence wp) \<and>
     wp_memtable wp = recovered_table options rs \<and>
     (\<exists>f. ww_file (wp_wal wp) = Some f \<and> file_holds options wp rs d f)"


section \<open>One write\<close>

text \<open>A write is refused up front, or fails in the log, or is logged and then applied.\<close>

definition next_record :: "ValueType \<Rightarrow> bytes \<Rightarrow> bytes \<Rightarrow> WritePath \<Rightarrow> WalRecord" where
  "next_record type key value wp =
     \<lparr>w_type = type, w_sequence = wp_last_sequence wp + 1, w_key = key, w_value = value\<rparr>"

lemma next_record_simps [simp]:
  "w_type (next_record t k v wp) = t" "w_sequence (next_record t k v wp) = wp_last_sequence wp + 1"
  "w_key (next_record t k v wp) = k" "w_value (next_record t k v wp) = v"
  by (simp_all add: next_record_def)

lemma apply_failure_not_ok [simp]: "\<not> ok (apply_failure s)"
  by (simp add: apply_failure_def)

lemma Write_cases [consumes 1, case_names refused unlogged unapplied applied]:
  assumes run: "WritePath_Write t k v mode wp = (wp', st)"
  obtains
    "\<not> ok st" "wp' = wp \<or> wp' = wp\<lparr>wp_status := st\<rparr>"
  | wal' where "ok (wp_status wp)" "\<not> failed (wp_wal wp)" "wp_last_sequence wp \<noteq> - 1"
      "Append (next_record t k v wp) mode (wp_wal wp) = (wal', st)" "\<not> ok st"
      "wp' = wp\<lparr>wp_last_sequence := wp_last_sequence wp + 1, wp_wal := wal', wp_status := st\<rparr>"
  | wal' ws where "ok (wp_status wp)" "\<not> failed (wp_wal wp)" "wp_last_sequence wp \<noteq> - 1"
      "Append (next_record t k v wp) mode (wp_wal wp) = (wal', ws)" "ok ws"
      "\<not> ok (snd (apply_record (rec_of (next_record t k v wp)) (wp_memtable wp)))" "\<not> ok st"
      "wp' = wp\<lparr>wp_last_sequence := wp_last_sequence wp + 1, wp_wal := wal', wp_status := st\<rparr>"
  | wal' ws where "ok (wp_status wp)" "\<not> failed (wp_wal wp)" "wp_last_sequence wp \<noteq> - 1"
      "Append (next_record t k v wp) mode (wp_wal wp) = (wal', ws)" "ok ws" "st = Ok"
      "ok (snd (apply_record (rec_of (next_record t k v wp)) (wp_memtable wp)))"
      "wp' = wp\<lparr>wp_last_sequence := wp_last_sequence wp + 1, wp_wal := wal',
         wp_memtable := fst (apply_record (rec_of (next_record t k v wp)) (wp_memtable wp))\<rparr>"
proof -
  let ?r = "next_record t k v wp"
  obtain wal' ws where app: "Append ?r mode (wp_wal wp) = (wal', ws)"
    by force
  obtain mt' ms where mt: "apply_record (rec_of ?r) (wp_memtable wp) = (mt', ms)"
    by force
  have same: "wp\<lparr>wp_memtable := mt', wp_last_sequence := a, wp_wal := b, wp_status := c\<rparr> =
      wp\<lparr>wp_last_sequence := a, wp_wal := b, wp_status := c\<rparr>" if "\<not> ok ms" for a b c
    using table.store_fail [of "rec_of ?r" "wp_memtable wp"] that mt by simp
  consider (bad) "\<not> ok st" "wp' = wp \<or> wp' = wp\<lparr>wp_status := st\<rparr>"
    | (go) "ok (wp_status wp)" "\<not> failed (wp_wal wp)" "wp_last_sequence wp \<noteq> - 1"
      "(if \<not> ok ws then (wp\<lparr>wp_last_sequence := wp_last_sequence wp + 1, wp_wal := wal', wp_status := ws\<rparr>, ws)
        else if \<not> ok ms then
          (wp\<lparr>wp_memtable := mt', wp_last_sequence := wp_last_sequence wp + 1, wp_wal := wal',
              wp_status := apply_failure ms\<rparr>, apply_failure ms)
        else (wp\<lparr>wp_last_sequence := wp_last_sequence wp + 1, wp_wal := wal', wp_memtable := mt'\<rparr>, Ok)) = (wp', st)"
    using run app mt
    by (auto simp: WritePath_Write_def Let_def failed_def next_record_def apply_record_def rec_of_def
        split: if_splits)
  then show thesis
  proof cases
    case bad
    then show thesis by (rule that(1))
  next
    case go
    then show thesis
      using that(2) [of wal'] that(3) [of wal' ws] that(4) [of wal' ws] app mt same
      by (auto split: if_splits)
  qed
qed


lemma word_le_plus_one: "a \<noteq> - 1 \<Longrightarrow> b \<le> a \<Longrightarrow> b < (a + 1 :: u64)"
  using unat_Suc_u64 [of a] by (simp add: word_le_nat_alt word_less_nat_alt)

lemma Append_device_ok:
  assumes "Append r mode w = (w', st)" and "ww_file w = Some f" and "ww_file w' = Some f'"
    and "wal_device.device_ok f"
  shows "wal_device.device_ok f'"
proof -
  have step: "wal_device.device_ok (fst (WriteAll f xs))" "wal_device.device_ok (snd (Sync (fst (WriteAll f xs))))" for xs
    using assms(4) wal_device.append_device_ok wal_device.flush_device_ok by blast+
  show ?thesis
    using assms step
    by (auto simp: Append_def RememberFailure_def Let_def split: if_splits sum.splits prod.splits)
      (metis fst_conv snd_conv)+
qed

lemma wp_inv_unlogged:
  assumes inv: "wp_inv options wp rs d" and st: "ok (wp_status wp)" "\<not> failed (wp_wal wp)"
      "wp_last_sequence wp \<noteq> - 1"
    and app: "Append (next_record t k v wp) mode (wp_wal wp) = (wal', ws)" and "\<not> ok s"
    and wp': "wp' = wp\<lparr>wp_last_sequence := wp_last_sequence wp + 1, wp_wal := wal', wp_status := s\<rparr>"
  shows "wp_inv options wp' rs d"
proof -
  let ?r = "next_record t k v wp"
  obtain f where f: "ww_file (wp_wal wp) = Some f" "wal_device.device_ok f" "wf_data f = wal.log rs"
      "d \<le> length rs" "length (wal.log (take d rs)) \<le> length (wf_durable f)"
    using inv st(1) by (auto simp: wp_inv_def file_holds_def)
  have seq: "\<forall>q \<in> set rs. w_sequence q < wp_last_sequence wp + 1"
    using inv st(3) by (auto simp: wp_inv_def intro: word_le_plus_one)
  have opts: "ww_options (wp_wal wp) = options"
    using inv by (simp add: wp_inv_def)
  from app f(1) st(2)
  have "\<exists>f'. ww_file wal' = Some f' \<and> ww_options wal' = options \<and> length (wf_durable f) \<le> length (wf_durable f') \<and>
      (wf_data f' = wal.log rs \<or> (\<exists>n. wf_data f' = wal.log rs @ take n (wal_bytes ?r) \<and>
         n \<le> length (wal_bytes ?r) \<and> encodable options ?r))"
  proof (cases rule: Append_cases)
    case (appended f')
    have "length (wf_durable f) \<le> length (wf_data f)"
      using f(2) by (auto simp: wal_device.device_ok_def)
    then show ?thesis
      using appended f opts by (auto intro!: exI [of _ "length (wal_bytes ?r)"])
  qed (use f opts in auto)
  then show ?thesis
    using inv seq f \<open>\<not> ok s\<close> Append_device_ok [OF app f(1) _ f(2)]
    by (fastforce simp: wp_inv_def file_holds_def wp' intro: less_imp_le)
qed

lemma wp_inv_step:
  assumes inv: "wp_inv options wp rs d" and run: "WritePath_Write t k v mode wp = (wp', st)"
  shows "if ok st then wp_inv options wp' (rs @ [acknowledged t k v wp']) (if mode = kSync then length rs + 1 else d)
    else wp_inv options wp' rs d"
  using run
proof (cases rule: Write_cases)
  case refused
  then show ?thesis
    using inv by (auto simp: wp_inv_def file_holds_def)
next
  case unlogged
  then show ?thesis
    using wp_inv_unlogged [OF inv] by auto
next
  case unapplied
  then show ?thesis
    using wp_inv_unlogged [OF inv] by auto
next
  case (applied wal' ws)
  let ?r = "next_record t k v wp"
  obtain f where f: "ww_file (wp_wal wp) = Some f" "wal_device.device_ok f" "wf_data f = wal.log rs"
      "d \<le> length rs" "length (wal.log (take d rs)) \<le> length (wf_durable f)"
    using inv applied(1) by (auto simp: wp_inv_def file_holds_def)
  have opts: "ww_options (wp_wal wp) = options"
    using inv by (simp add: wp_inv_def)
  have r: "acknowledged t k v wp' = ?r"
    by (simp add: applied acknowledged_def next_record_def)
  from applied(4) f(1) applied(2)
  obtain f' where f': "wal' = (wp_wal wp)\<lparr>ww_file := Some f'\<rparr>" "encodable options ?r"
      "wf_data f' = wal.log rs @ wal_bytes ?r"
      "wf_durable f' = (if mode = kSync then wf_data f' else wf_durable f)"
    by (cases rule: Append_cases) (use applied(5) f opts in auto)
  have dev: "wal_device.device_ok f'"
    using Append_device_ok [OF applied(4) f(1) _ f(2)] f'(1) by simp
  have seq: "\<forall>q \<in> set rs. w_sequence q < w_sequence ?r"
    using inv applied(3) by (auto simp: wp_inv_def intro: word_le_plus_one)
  have "good_log options (rs @ [?r])" "recovered_table options (rs @ [?r]) = wp_memtable wp'"
    using inv applied f'(2) seq by (auto simp: wp_inv_def good_log_snoc recovered_table_snoc)
  then show ?thesis
    using inv f f' dev seq applied unfolding r
    by (auto simp: wp_inv_def file_holds_def less_imp_le)
qed

lemma reachable_inv: "reachable options wp rs d \<Longrightarrow> wp_inv options wp rs d"
proof (induction rule: reachable.induct)
  case (create f wp)
  then show ?case
    by (auto simp: wp_inv_def WritePath_Create_def new_WalWriter_def recovered_table_def
        file_holds_def wal_device.device_ok_def)
next
  case (acked wp rs d type key "value" mode wp' st)
  then show ?case
    using wp_inv_step by fastforce
next
  case (refused wp rs d type key "value" mode wp' st)
  then show ?case
    using wp_inv_step by fastforce
qed


section \<open>Crashes\<close>

text \<open>The file is a prefix of the log of the history, with the unacknowledged record if there is one.\<close>

lemma file_is_log_prefix:
  assumes "reachable options wp rs d" and "ww_file (wp_wal wp) = Some f"
  obtains qs where "wf_data f = take (length (wf_data f)) (wal.log qs)"
    "list_all (encodable options) qs" "sorted_wrt (<) (map w_sequence qs)" "d \<le> length rs"
    "length (wal.log (take d rs)) \<le> length (wf_durable f)"
    "qs = rs \<or> (\<exists>r. qs = rs @ [r] \<and> w_sequence r = wp_last_sequence wp \<and> \<not> ok (wp_status wp))"
proof -
  have good: "good_log options rs" and f: "file_holds options wp rs d f"
    using reachable_inv [OF assms(1)] assms(2) by (auto simp: wp_inv_def)
  show thesis
    using f unfolding file_holds_def
  proof (elim conjE disjE exE)
    assume "wf_data f = wal.log rs" "d \<le> length rs"
      "length (wal.log (take d rs)) \<le> length (wf_durable f)"
    then show thesis
      using good by (intro that [of rs]) (auto simp: good_log_def)
  next
    fix r n
    assume "wf_data f = wal.log rs @ take n (wal_bytes r)" "n \<le> length (wal_bytes r)"
      "encodable options r" "w_sequence r = wp_last_sequence wp" "\<not> ok (wp_status wp)"
      "\<forall>q \<in> set rs. w_sequence q < w_sequence r" "d \<le> length rs"
      "length (wal.log (take d rs)) \<le> length (wf_durable f)"
    then show thesis
      using good by (intro that [of "rs @ [r]"]) (auto simp: good_log_def sorted_wrt_append)
  qed
qed

lemma log_take_mono: "m \<le> n \<Longrightarrow> length (wal.log (take m rs)) \<le> length (wal.log (take n rs))"
  by (auto simp: take_add dest!: le_Suc_ex)

text \<open>A log prefix that covers the first \<open>d\<close> records keeps them all.\<close>

lemma covered_records:
  assumes "length (wal.log (take d qs)) \<le> length (wal.log (take m qs)) + k" and "d \<le> length qs"
    and "k = 0 \<or> (m < length qs \<and> k < length (wal_bytes (qs ! m)))"
  shows "d \<le> m"
proof (rule ccontr)
  assume "\<not> d \<le> m"
  then have less: "Suc m \<le> d" "m < length qs"
    using assms(2) by auto
  have "length (wal.log (take (Suc m) qs)) = length (wal.log (take m qs)) + length (wal_bytes (qs ! m))"
    using less(2) by (simp add: take_Suc_conv_app_nth)
  then show False
    using log_take_mono [OF less(1), of qs] assms(1,3) by auto
qed

lemma recover_log_prefix:
  assumes fit: "options_fit options" and qs: "list_all (encodable options) qs" "sorted_wrt (<) (map w_sequence qs)"
    and g: "benign_file g" "rf_data g = take n (wal.log qs)"
    and d: "length (wal.log (take d qs)) \<le> length (rf_data g)" "d \<le> length qs"
  obtains g' res m where "d \<le> m" "m \<le> length qs"
    "RecoverWal g options = (g', Inr (recovered_table options (take m qs), res))"
    "max_sequence res = max_sequence (recovered_summary (take m qs))"
    "good_log options (take m qs)" "rf_data g' = wal.log (take m qs)"
proof -
  define n' where "n' = min n (length (wal.log qs))"
  have n': "rf_data g = take n' (wal.log qs)" "n' \<le> length (wal.log qs)"
    using g(2) by (auto simp: n'_def min_def)
  obtain m k where m: "m \<le> length qs" "take n' (wal.log qs) = wal.log (take m qs) @ take k (wal_bytes (qs ! m))"
    "k = 0 \<or> (m < length qs \<and> k < length (wal_bytes (qs ! m)))" "n' = length (wal.log (take m qs)) + k"
    by (rule wal.log_prefix [OF n'(2)])
  have data: "rf_data g = wal.log (take m qs) @ take k (wal_bytes (qs ! m))"
    using n'(1) m(2) by simp
  have "length (rf_data g) \<le> u64_max"
    using g(1) by (simp add: benign_file_def)
  then have len: "length (wal.log (take m qs)) \<le> u64_max"
    using data by simp
  have prefix_ok: "list_all (encodable options) (take m qs)" "sorted_wrt (<) (map w_sequence (take m qs))"
    using qs by (auto simp: list_all_iff take_map [symmetric] sorted_wrt_take dest: in_set_takeD)
  have good: "good_log options (take m qs)"
    using good_logI [OF fit prefix_ok len] by blast
  have torn: "torn_tail options (take k (wal_bytes (qs ! m)))"
    using m(3) qs(1) by (auto simp: torn_tail_def list_all_length)
  have "d \<le> m"
    using covered_records [of d qs m k] d m(3) data by auto
  then show thesis
    using RecoverWal_torn [OF g(1) data good torn] m(1) good by (auto intro: that)
qed


section \<open>Writes that succeed\<close>

lemma Sync_ok: "list_all ok (wf_syncs f) \<Longrightarrow> ok (fst (Sync f))"
  by (auto simp: Sync_def split: list.splits)

lemma Append_succeeds:
  assumes "\<not> failed w" and "ww_file w = Some f" and "encodable (ww_options w) r"
    and "mode = kSync \<or> mode = kAsync" and "list_all benign_write (wf_writes f)" and "list_all ok (wf_syncs f)"
  shows "ok (snd (Append r mode w))"
proof -
  obtain f' ws where run: "WriteAll f (wal_bytes r) = (f', ws)"
    by force
  have "ok ws"
    using write_loop_benign [OF assms(5), of "wal_bytes r" 0] run by (simp add: WriteAll_def)
  moreover have "wf_syncs f' = wf_syncs f"
    by (rule WriteAll_appends [OF run])
  ultimately show ?thesis
    using assms run Sync_ok [of f']
    by (auto simp: Append_def EncodeWalRecord_encodable Let_def case_prod_beta)
qed

lemma wp_inv_applies:
  assumes inv: "wp_inv options wp rs d" and "options_fit options" and "wp_last_sequence wp \<noteq> - 1"
    and "encodable options (next_record t k v wp)"
    and "length (wal.log rs) + length (wal_bytes (next_record t k v wp)) \<le> u64_max"
  shows "ok (snd (apply_record (rec_of (next_record t k v wp)) (wp_memtable wp)))"
proof -
  let ?r = "next_record t k v wp"
  have "\<forall>q \<in> set rs. w_sequence q < w_sequence ?r"
    using inv assms(3) by (auto simp: wp_inv_def intro: word_le_plus_one)
  then have "good_log options (rs @ [?r])"
    using good_logI [OF assms(2), of "rs @ [?r]"] inv assms(4,5)
    by (auto simp: wp_inv_def good_log_def sorted_wrt_append)
  then show ?thesis
    using inv by (simp add: good_log_snoc wp_inv_def)
qed

lemma WritePath_Write_ok:
  assumes inv: "wp_inv options wp rs d" and fit: "options_fit options"
    and st: "ok (wp_status wp)" "\<not> failed (wp_wal wp)" "wp_last_sequence wp \<noteq> - 1"
    and f: "ww_file (wp_wal wp) = Some f" "list_all benign_write (wf_writes f)" "list_all ok (wf_syncs f)"
    and mode: "mode = kSync \<or> mode = kAsync" and r: "encodable options (next_record t k v wp)"
    and len: "length (wf_data f) + length (wal_bytes (next_record t k v wp)) \<le> u64_max"
  shows "ok (snd (WritePath_Write t k v mode wp))"
proof -
  let ?r = "next_record t k v wp"
  have opts: "wp_options wp = options" "ww_options (wp_wal wp) = options" "wf_data f = wal.log rs"
    using inv f(1) st(1) by (auto simp: wp_inv_def file_holds_def)
  have "ok (ValidateWalRecord \<lparr>w_type = t, w_sequence = 1, w_key = k, w_value = v\<rparr> options)"
    using encodable_bounds(5) [OF r] by (simp add: ValidateWalRecord_ok_iff)
  moreover have "ok (snd (Append ?r mode (wp_wal wp)))"
    using Append_succeeds [OF st(2) f(1) _ mode f(2,3)] r opts by simp
  moreover have "ok (snd (apply_record (rec_of ?r) (wp_memtable wp)))"
    using wp_inv_applies [OF inv fit st(3) r] len opts by simp
  ultimately show ?thesis
    using st mode opts
    by (auto simp: WritePath_Write_def Let_def next_record_def apply_record_def rec_of_def case_prod_beta)
qed

section \<open>Properties\<close>

text \<open>
  C6. Read your writes. In every reachable state, whatever writes were refused or failed on the
  way, the table holds for every key exactly the newest acknowledged write, and the acknowledged
  sequence numbers are strictly increasing and never above the counter, so none is ever reused.
\<close>

theorem WritePath_holds_history:
  assumes "options_fit options" and "reachable options wp rs d"
  shows "view (wp_memtable wp) = latest (map rec_of rs) \<and> mt_wf (wp_memtable wp) \<and>
    sorted_wrt (<) (map w_sequence rs) \<and> (\<forall>r \<in> set rs. w_sequence r \<le> wp_last_sequence wp)"
  using reachable_inv [OF assms(2)] recovered_table_facts [OF _ assms(1), of rs]
  by (auto simp: wp_inv_def mt_inv_def good_log_def)

definition sample_file :: WritableFile where
  "sample_file = \<lparr>wf_name = ''wal'', wf_data = [], wf_durable = [], wf_writes = [Accepts 3, Interrupts], wf_syncs = []\<rparr>"

definition sample_start :: WritePath where
  "sample_start = \<lparr>wp_options = default_Options, wp_wal = new_WalWriter default_Options (Some sample_file),
     wp_memtable = new_MemTable default_Options, wp_last_sequence = 0, wp_status = Ok\<rparr>"

lemma sample_reachable: "reachable default_Options sample_start [] 0"
  by (rule reachable.create [of _ sample_file])
    (simp_all add: WritePath_Create_def sample_start_def sample_file_def)

lemma sample_write: "ok (snd (WritePath_Write kValue [107] [118] kSync sample_start))"
proof (rule WritePath_Write_ok [OF reachable_inv [OF sample_reachable] default_Options_fit])
  show "ww_file (wp_wal sample_start) = Some sample_file"
    by (simp add: sample_start_def new_WalWriter_def)
qed (simp_all add: sample_start_def new_WalWriter_def failed_def sample_file_def encodable_def
    ValidateWalRecord_def ValidateLengths_def default_Options_def next_record_def)

lemma Write_ok_status: "WritePath_Write t k v mode wp = (wp', st) \<Longrightarrow> ok st \<Longrightarrow> ok (wp_status wp')"
  by (erule Write_cases) auto

lemma sample_reached:
  obtains wp f where "reachable default_Options wp [acknowledged kValue [107] [118] wp] 1"
    "ww_file (wp_wal wp) = Some f" "wf_data f = wal_bytes (acknowledged kValue [107] [118] wp)"
    "wf_durable f = wf_data f" "ok (wp_status wp)"
proof -
  obtain wp st where run: "WritePath_Write kValue [107] [118] kSync sample_start = (wp, st)"
    by force
  then have reach: "reachable default_Options wp [acknowledged kValue [107] [118] wp] 1"
    using reachable.acked [OF sample_reachable run] sample_write by simp
  have ok: "ok (wp_status wp)"
    using Write_ok_status [OF run] sample_write run by simp
  then obtain f where f: "ww_file (wp_wal wp) = Some f" "wal_device.device_ok f"
      "wf_data f = wal_bytes (acknowledged kValue [107] [118] wp)" "length (wf_data f) \<le> length (wf_durable f)"
    using reachable_inv [OF reach] by (auto simp: wp_inv_def file_holds_def)
  then have "wf_durable f = wf_data f"
    by (auto simp: wal_device.device_ok_def)
  then show thesis
    using that reach f ok by blast
qed

theorem WritePath_holds_history_witness:
  "\<exists>wp e. reachable default_Options wp [acknowledged kValue [107] [118] wp] 1 \<and>
     view (wp_memtable wp) [107] = Some e \<and> e_value e = [118]"
proof -
  obtain wp f where reach: "reachable default_Options wp [acknowledged kValue [107] [118] wp] 1"
    by (rule sample_reached)
  show ?thesis
    using WritePath_holds_history [OF default_Options_fit reach] reach
    by (auto simp: latest_def acknowledged_def entry_of_def)
qed

text \<open>
  C5. Crash safety. After a crash in any reachable state, with any part of the file that was not yet
  flushed lost, recovery succeeds, and what it restores is a prefix of the acknowledged writes that
  contains every write acknowledged up to the last one in sync mode, or all of them and the one
  write that failed.
\<close>

theorem WritePath_crash_recovery:
  assumes "options_fit options" and "reachable options wp rs d" and "ww_file (wp_wal wp) = Some f"
    and "wal_device.crash_image f (rf_data g)" and "benign_file g"
  shows "\<exists>g' mt res qs. RecoverWal g options = (g', Inr (mt, res)) \<and> view mt = latest (map rec_of qs) \<and>
    ((\<exists>m. d \<le> m \<and> m \<le> length rs \<and> qs = take m rs) \<or>
     (\<exists>r. qs = rs @ [r] \<and> w_sequence r = wp_last_sequence wp \<and> \<not> ok (wp_status wp)))"
proof -
  obtain n where n: "rf_data g = take n (wf_data f)" "length (wf_durable f) \<le> n"
    using assms(4) by (auto simp: wal_device.crash_image_def)
  obtain qs where qs: "wf_data f = take (length (wf_data f)) (wal.log qs)"
    "list_all (encodable options) qs" "sorted_wrt (<) (map w_sequence qs)" "d \<le> length rs"
    "length (wal.log (take d rs)) \<le> length (wf_durable f)"
    "qs = rs \<or> (\<exists>r. qs = rs @ [r] \<and> w_sequence r = wp_last_sequence wp \<and> \<not> ok (wp_status wp))"
    by (rule file_is_log_prefix [OF assms(2,3)])
  have "length (wf_durable f) \<le> length (wf_data f)"
    using reachable_inv [OF assms(2)] assms(3)
    by (auto simp: wp_inv_def file_holds_def wal_device.device_ok_def)
  then have "length (wf_durable f) \<le> length (rf_data g)"
    using n by simp
  moreover have d: "take d qs = take d rs" "d \<le> length qs"
    using qs(4,6) by auto
  ultimately have dur: "length (wal.log (take d qs)) \<le> length (rf_data g)"
    using qs(5) by simp
  have data: "rf_data g = take (min n (length (wf_data f))) (wal.log qs)"
    using trans [OF n(1) arg_cong [OF qs(1), of "take n"]] unfolding take_take .
  obtain g' res m where m: "d \<le> m" "m \<le> length qs" "good_log options (take m qs)"
      "RecoverWal g options = (g', Inr (recovered_table options (take m qs), res))"
    by (rule recover_log_prefix [OF assms(1) qs(2,3) assms(5) data dur d(2)])
  have "(\<exists>m'. d \<le> m' \<and> m' \<le> length rs \<and> take m qs = take m' rs) \<or>
      (\<exists>r. take m qs = rs @ [r] \<and> w_sequence r = wp_last_sequence wp \<and> \<not> ok (wp_status wp))"
    using qs(6) m(1,2) by (cases "m \<le> length rs") auto
  then show ?thesis
    using m(4) recovered_table_facts(3) [OF m(3) assms(1)] by blast
qed

definition reopened :: "bytes \<Rightarrow> RecoveryFile" where
  "reopened bs = \<lparr>rf_name = ''wal'', rf_data = bs, rf_reads = [], rf_sizes = [],
     rf_truncates = [], rf_syncs = []\<rparr>"

theorem WritePath_crash_recovery_witness:
  "\<exists>wp f g' mt res e. reachable default_Options wp [acknowledged kValue [107] [118] wp] 1 \<and>
     ww_file (wp_wal wp) = Some f \<and>
     RecoverWal (reopened (wf_durable f)) default_Options = (g', Inr (mt, res)) \<and>
     view mt [107] = Some e \<and> e_value e = [118]"
proof -
  obtain wp f where reach: "reachable default_Options wp [acknowledged kValue [107] [118] wp] 1"
    and f: "ww_file (wp_wal wp) = Some f" "wf_data f = wal_bytes (acknowledged kValue [107] [118] wp)"
      "wf_durable f = wf_data f" "ok (wp_status wp)"
    by (rule sample_reached)
  let ?g = "reopened (wf_durable f)"
  have "wal_device.crash_image f (rf_data ?g)"
    using f(3) by (auto simp: wal_device.crash_image_def reopened_def intro!: exI [of _ "length (wf_data f)"])
  moreover have "benign_file ?g"
    using f by (simp add: benign_file_def reopened_def acknowledged_def)
  ultimately obtain g' mt res qs where "RecoverWal ?g default_Options = (g', Inr (mt, res))"
    "view mt = latest (map rec_of qs)" "qs = [acknowledged kValue [107] [118] wp]"
    using WritePath_crash_recovery [OF default_Options_fit reach f(1), of ?g] f(4) by auto
  then show ?thesis
    using reach f(1) by (fastforce simp: latest_def acknowledged_def entry_of_def)
qed

text \<open>
  C29. Closing and reopening loses nothing: opening the file of a path that has not failed gives a
  path with the very same table, whose counter continues after the last acknowledged write.
\<close>

theorem WritePath_reopen:
  assumes "options_fit options" and "reachable options wp rs d" and "ok (wp_status wp)"
    and "ww_file (wp_wal wp) = Some f" and "benign_file g" and "rf_data g = wf_data f"
    and "open_append (wf_data f) = Inr f'" and "path \<noteq> []"
  shows "\<exists>wp' res. WritePath_Open path options (Inr g) open_append = Inr (wp', res) \<and>
    wp_memtable wp' = wp_memtable wp \<and> ww_file (wp_wal wp') = Some f' \<and> ok (wp_status wp') \<and>
    wp_last_sequence wp' = (if rs = [] then 0 else w_sequence (last rs)) \<and> \<not> tail_truncated res"
proof -
  have good: "good_log options rs" and data: "wf_data f = wal.log rs"
    and mt: "wp_memtable wp = recovered_table options rs"
    using reachable_inv [OF assms(2)] assms(3,4) by (auto simp: wp_inv_def file_holds_def)
  obtain g' where "RecoverWal g options = (g', Inr (recovered_table options rs,
      (recovered_summary rs)\<lparr>discarded_tail_bytes := 0, tail_truncated := False\<rparr>))"
      "rf_data g' = wal.log rs"
    using RecoverWal_torn [OF assms(5) _ good, of "[]"] assms(6) data by (auto simp: torn_tail_def)
  then show ?thesis
    using assms(7,8) mt data
    by (simp add: WritePath_Open_def new_WalWriter_def recovered_summary_def)
qed

theorem WritePath_reopen_witness:
  "\<exists>wp f wp' res. reachable default_Options wp [acknowledged kValue [107] [118] wp] 1 \<and>
     ww_file (wp_wal wp) = Some f \<and>
     WritePath_Open ''wal'' default_Options (Inr (reopened (wf_data f)))
       (\<lambda>bs. Inr \<lparr>wf_name = ''wal'', wf_data = bs, wf_durable = bs, wf_writes = [], wf_syncs = []\<rparr>) =
       Inr (wp', res) \<and> wp_memtable wp' = wp_memtable wp"
proof -
  obtain wp f where reach: "reachable default_Options wp [acknowledged kValue [107] [118] wp] 1"
    and f: "ww_file (wp_wal wp) = Some f" "wf_data f = wal_bytes (acknowledged kValue [107] [118] wp)"
      "ok (wp_status wp)"
    by (rule sample_reached)
  have "benign_file (reopened (wf_data f))" "rf_data (reopened (wf_data f)) = wf_data f"
    using f by (simp_all add: benign_file_def reopened_def acknowledged_def)
  from WritePath_reopen [OF default_Options_fit reach f(3,1) this,
      of "\<lambda>bs. Inr \<lparr>wf_name = ''wal'', wf_data = bs, wf_durable = bs, wf_writes = [], wf_syncs = []\<rparr>" _ "''wal''"]
  show ?thesis
    using reach f(1) by fastforce
qed

text \<open>
  Progress: in a reachable state that has not failed, on a file that only interrupts or
  shortens writes, every write of a record that fits the limits is acknowledged; in particular
  the MemTable never refuses a record that the log has accepted.
\<close>

theorem WritePath_accepts:
  assumes "options_fit options" and "reachable options wp rs d" and "ok (wp_status wp)"
    and "\<not> failed (wp_wal wp)" and "wp_last_sequence wp \<noteq> - 1"
    and "ww_file (wp_wal wp) = Some f" and "list_all benign_write (wf_writes f)" and "list_all ok (wf_syncs f)"
    and "mode = kSync \<or> mode = kAsync"
    and "encodable options \<lparr>w_type = t, w_sequence = 1, w_key = k, w_value = v\<rparr>"
    and "length (wf_data f) + 32 + length k + length v \<le> u64_max"
  shows "ok (snd (WritePath_Write t k v mode wp))"
proof -
  have "wp_last_sequence wp + 1 \<noteq> 0"
    using assms(5) by (metis add.commute add_eq_0_iff)
  then have "encodable options (next_record t k v wp)"
    using assms(10) by (simp add: encodable_def ValidateWalRecord_def next_record_def)
  then show ?thesis
    using WritePath_Write_ok [OF reachable_inv [OF assms(2)] assms(1,3-9)] assms(11) by simp
qed

theorem WritePath_accepts_witness:
  "reachable default_Options sample_start [] 0 \<and>
   ok (snd (WritePath_Write kDeletion [107] [] kAsync sample_start))"
  using WritePath_accepts [OF default_Options_fit sample_reachable, of sample_file kAsync kDeletion "[107]" "[]"]
    sample_reachable
  by (simp add: sample_start_def new_WalWriter_def failed_def sample_file_def encodable_def
      ValidateWalRecord_def ValidateLengths_def default_Options_def)

end
