(* ===== verification/DatabaseRun.thy ===== *)
theory DatabaseRun
  imports DatabaseCompact ScanPages WritePath
begin

text \<open>
  The operations of a database without a background thread implement the abstract map: writes
  update it, and flushes, compactions, lookups and closing leave it alone, whatever fails on the
  way.
\<close>

section \<open>Maintenance\<close>

lemma FlushLocked_keeps:
  assumes inv: "db_inv db" and run: "FlushLocked fm db = (db', s)"
  shows "keeps db db'"
proof -
  obtain db1 s1 where 1: "ContinueCompaction fm db = (db1, s1)" by force
  obtain db2 s2 where 2: "(if db_immutable db1 = None then FreezeMutable False db1 else (db1, Ok)) = (db2, s2)" by force
  obtain db3 s3 where 3: "ContinueFlush fm db2 = (db3, s3)" by force
  note k1 = ContinueCompaction_keeps(1) [OF inv 1]
  have k12: "keeps db1 db2"
    using 2 FreezeMutable_keeps [OF keeps_inv [OF k1]] keeps_inv [OF k1] by (auto split: if_splits)
  note k2 = keeps_trans [OF k1 k12]
  note k3 = keeps_trans [OF k2 ContinueFlush_keeps(1) [OF keeps_inv [OF k2] 3]]
  show ?thesis
    using run [unfolded FlushLocked_def 1 2 3 Let_def prod.case] inv k1 k2 k3 by (auto split: if_splits)
qed

text \<open>A flush does not touch the compaction.\<close>

lemma OpenMutableWal_compaction: "OpenMutableWal db = (db', s) \<Longrightarrow> db_compaction db' = db_compaction db"
  by (auto simp: OpenMutableWal_def Let_def split: if_splits prod.splits sum.splits)

lemma FreezeMutable_compaction: "FreezeMutable b db = (db', s) \<Longrightarrow> db_compaction db' = db_compaction db"
  by (auto simp: FreezeMutable_def Let_def split: if_splits dest: OpenMutableWal_compaction)

lemma publish_flush_compaction: "publish_flush fm ig db = (db', s) \<Longrightarrow> db_compaction db' = db_compaction db"
  by (auto simp: publish_flush_def flush_table_def Let_def split: if_splits prod.splits sum.splits option.splits)

lemma remove_flushed_wal_compaction: "remove_flushed_wal db = (db', s) \<Longrightarrow> db_compaction db' = db_compaction db"
  by (auto simp: remove_flushed_wal_def Let_def split: if_splits prod.splits option.splits)

lemma ContinueFlush_compaction: "ContinueFlush fm db = (db', s) \<Longrightarrow> db_compaction db' = db_compaction db"
  by (auto simp: ContinueFlush_def split: if_splits prod.splits option.splits
      dest!: publish_flush_compaction remove_flushed_wal_compaction OpenMutableWal_compaction)

lemma FlushLocked_compaction:
  assumes "db_inv db" and "FlushLocked fm db = (db', s)" and "ok s"
  shows "db_compaction db' = None"
  using assms(2,3) ContinueCompaction_keeps(2) [OF assms(1)]
  by (auto simp: FlushLocked_def Let_def split: if_splits prod.splits dest!: FreezeMutable_compaction ContinueFlush_compaction)

text \<open>The fields that the invariant does not mention.\<close>

definition same_content :: "Database \<Rightarrow> Database \<Rightarrow> bool" where
  "same_content db db' \<longleftrightarrow> db_options db' = db_options db \<and> db_environment db' = db_environment db \<and>
     db_version db' = db_version db \<and> db_mutable db' = db_mutable db \<and> db_immutable db' = db_immutable db \<and>
     db_compaction db' = db_compaction db \<and> db_tables db' = db_tables db \<and> db_last_sequence db' = db_last_sequence db"

lemma same_content_inv:
  assumes "same_content db db'"
  shows "all_records db' = all_records db" "layers_inv db' = layers_inv db" "flush_inv db' = flush_inv db"
    "compaction_inv db' = compaction_inv db"
  using assms by (simp_all only: same_content_def inv_defs)

lemma same_content_keeps:
  assumes "same_content db db'" and "db_wal db' = db_wal db \<or> db_wal db' = None" and "db_inv db"
  shows "db_inv db'" and "db_map db' = db_map db"
  using assms(2,3) same_content_inv [OF assms(1)] assms(1)
  by (auto simp: db_inv_def wal_inv_def same_content_def db_map_def fun_eq_iff)

lemma CompactLocked_keeps:
  assumes inv: "db_inv db" and run: "CompactLocked fm db = (db', s)"
  shows "keeps db db'"
proof (cases "\<not> ok (db_status db) \<or> db_compaction db \<noteq> None")
  case True
  then show ?thesis
    using run inv ContinueCompaction_keeps(1) [OF inv, of fm db' s] by (auto simp: CompactLocked_def split: if_splits)
next
  case False
  obtain db1 s1 where 1: "(if db_immutable db \<noteq> None \<or> \<not> MemTable_empty (db_mutable db)
      then FlushLocked fm db else (db, Ok)) = (db1, s1)" by force
  obtain db2 s2 where 2: "PrepareCompaction db1 = (db2, s2)" by force
  obtain db3 s3 where 3: "ContinueCompaction fm db2 = (db3, s3)" by force
  have k1: "keeps db db1"
    using 1 FlushLocked_keeps [OF inv] inv by (auto split: if_splits)
  show ?thesis
  proof (cases "\<not> ok s1 \<or> db_immutable db1 \<noteq> None \<or> \<not> MemTable_empty (db_mutable db1) \<or> db_wal db1 = None")
    case True
    then show ?thesis
      using run [unfolded CompactLocked_def 1 2 3 Let_def prod.case] False k1 by (auto split: if_splits)
  next
    case idle: False
    have k2: "keeps db db2"
      using idle by (intro keeps_trans [OF k1 PrepareCompaction_keeps [OF keeps_inv [OF k1] _ _ 2]]) simp_all
    note k3 = keeps_trans [OF k2 ContinueCompaction_keeps(1) [OF keeps_inv [OF k2] 3]]
    show ?thesis
      using run [unfolded CompactLocked_def 1 2 3 Let_def prod.case] False idle k2 k3 by (auto split: if_splits)
  qed
qed

lemma keeps_status:
  assumes "keeps db db'"
  shows "keeps db (db'\<lparr>db_background_status := s\<rparr>)"
proof -
  have "same_content db' (db'\<lparr>db_background_status := s\<rparr>)"
    by (simp add: same_content_def)
  then show ?thesis
    using assms same_content_keeps [of db' "db'\<lparr>db_background_status := s\<rparr>"] by (simp add: keeps_def)
qed

lemma Database_Flush_keeps: "db_inv db \<Longrightarrow> Database_Flush fm db = (db', s) \<Longrightarrow> keeps db db'"
  using FlushLocked_keeps keeps_status by (auto simp: Database_Flush_def Let_def split: if_splits prod.splits)

lemma Database_Compact_keeps: "db_inv db \<Longrightarrow> Database_Compact fm db = (db', s) \<Longrightarrow> keeps db db'"
  using CompactLocked_keeps keeps_status by (auto simp: Database_Compact_def Let_def split: if_splits prod.splits)

lemma maintain_before_write_keeps:
  assumes inv: "db_inv db" and "\<not> background_maintenance (db_options db)" and run: "maintain_before_write fm db = (db', s)"
  shows "keeps db db'" and "ok s \<Longrightarrow> db_compaction db' = None"
proof -
  obtain db1 s1 where 1: "ContinueCompaction fm db = (db1, s1)" by force
  obtain db2 s2 where 2: "ContinueFlush fm db1 = (db2, s2)" by force
  obtain db3 s3 where 3: "FlushLocked fm db2 = (db3, s3)" by force
  note k1 = ContinueCompaction_keeps [OF inv 1]
  note k2 = keeps_trans [OF k1(1) ContinueFlush_keeps(1) [OF keeps_inv [OF k1(1)] 2]]
  note k3 = keeps_trans [OF k2 FlushLocked_keeps [OF keeps_inv [OF k2] 3]]
  show "keeps db db'"
    using run [unfolded maintain_before_write_def 1 2 3 Let_def prod.case] assms(2) k1(1) k2 k3 by (auto split: if_splits)
  show "db_compaction db' = None" if "ok s"
    using run [unfolded maintain_before_write_def 1 2 3 Let_def prod.case] assms(2) that k1(2) ContinueFlush_compaction [OF 2]
      FlushLocked_compaction [OF keeps_inv [OF k2] 3] by (auto split: if_splits)
qed


section \<open>Writes\<close>

lemma set_entries:
  assumes "keys_sorted ps"
  shows "set ps = {(k, e). map_of ps k = Some e}"
proof -
  have "distinct (map fst ps)"
    using assms strict_sorted_iff by blast
  then show ?thesis
    by auto
qed

lemma Records_Add:
  assumes "mt_wf mt" and "ok (snd (Add s t k v mt))"
  shows "set (Records (fst (Add s t k v mt))) =
    insert \<lparr>r_key = k, r_sequence = s, r_type = t, r_value = v\<rparr> {r \<in> set (Records mt). r_key r \<noteq> k}"
proof -
  have sorted: "keys_sorted (entries mt)"
    using assms(1) by (simp add: mt_wf_def)
  note up = Add_ok_entries(1) [OF assms(2)]
  have "set (entries (fst (Add s t k v mt))) = {(k', e). ((map_of (entries mt))(k \<mapsto> new_entry s t v)) k' = Some e}"
    unfolding up using set_entries [OF omap.invar_upsert [OF sorted]] omap.find_upsert [OF sorted] by simp
  also have "\<dots> = insert (k, new_entry s t v) {p \<in> set (entries mt). fst p \<noteq> k}"
    using set_entries [OF sorted] by (auto split: if_splits)
  finally show ?thesis
    by (auto simp: Records_def image_iff)
qed

lemma Append_file: "Append r mode w = (w', s) \<Longrightarrow> ww_file w = Some f \<Longrightarrow> \<exists>f'. ww_file w' = Some f'"
  by (auto simp: Append_def RememberFailure_def Let_def split: if_splits sum.splits prod.splits)

text \<open>Using a sequence number, logging and remembering a failure do not change the content.\<close>

lemma logged_keeps:
  assumes inv: "db_inv db" and wal: "db_wal db = Some wal" and seq: "db_last_sequence db \<le> n"
    and run: "append_wal rec mode wal (db_environment db) = (wal', t, env)"
  shows "keeps db (db\<lparr>db_last_sequence := n, db_wal := Some wal', db_environment := env\<rparr>)"
proof -
  obtain i w where w: "wal = (i, w)"
    by force
  obtain f where f: "ww_file w = Some f" "wal_device.device_ok f"
    using inv wal w by (auto simp: db_inv_def wal_inv_def)
  obtain w' where a: "Append rec mode w = (w', t)" "wal' = (i, w')"
    using run w by (auto simp: append_wal_def Let_def split: prod.splits)
  obtain f' where f': "ww_file w' = Some f'"
    using Append_file [OF a(1) f(1)] by blast
  note dev = Append_device_ok [OF a(1) f(1) f' f(2)]
  have env: "env_ok env"
    using run w a f' inode_wf [OF _ dev] inv by (auto simp: append_wal_def env_ok_def db_inv_def honest_opens_def)
  let ?db = "db\<lparr>db_last_sequence := n\<rparr>"
  have "layers_inv ?db"
    using inv seq by (auto simp: db_inv_def inv_defs intro: order_trans)
  moreover have "flush_inv ?db = flush_inv db" "compaction_inv ?db = compaction_inv db" "wal_inv ?db = wal_inv db"
    "all_records ?db = all_records db"
    by (simp_all add: inv_defs)
  ultimately have k: "keeps db ?db"
    using inv by (simp add: keeps_def db_inv_def db_map_def fun_eq_iff)
  have k2: "keeps ?db (?db\<lparr>db_wal := Some wal'\<rparr>)"
    using keeps_wal [OF keeps_inv [OF k]] a(2) f' dev by simp
  show ?thesis
    using keeps_trans [OF keeps_trans [OF k k2] keeps_env [OF keeps_inv [OF k2] env]] by simp
qed

definition write_effect :: "ValueType \<Rightarrow> bytes \<Rightarrow> bytes \<Rightarrow> (bytes \<Rightarrow> bytes option) \<Rightarrow> bytes \<Rightarrow> bytes option" where
  "write_effect type key value m = m(key := (if type = kValue then Some value else None))"

lemma added_map:
  assumes inv: "db_inv db" and none: "db_compaction db = None" and new: "\<forall>r \<in> set (all_records db). r_sequence r < n"
    and n: "n \<le> db_last_sequence db"
    and add: "ok (snd (Add n type key value (db_mutable db)))" and del: "type = kDeletion \<longrightarrow> value = []"
  defines "db' \<equiv> db\<lparr>db_mutable := fst (Add n type key value (db_mutable db))\<rparr>"
  shows "db_inv db'" and "db_map db' = write_effect type key value (db_map db)"
proof -
  let ?r = "\<lparr>r_key = key, r_sequence = n, r_type = type, r_value = value\<rparr>"
  let ?mt = "fst (Add n type key value (db_mutable db))"
  have layers: "layers_inv db" and wf: "mt_wf (db_mutable db)" and opts: "mt_options (db_mutable db) = db_options db"
    and fit: "options_fit (db_options db)" and inj: "inj_on r_sequence (set (all_records db))"
    using inv by (simp_all add: db_inv_def layers_inv_def db_ok_def options_inv_def)
  note recs = Records_Add [OF wf add]
  have sets: "?r \<in> set (all_records db')" "set (all_records db') \<subseteq> insert ?r (set (all_records db))"
    "\<forall>q \<in> set (all_records db). r_key q \<noteq> r_key ?r \<longrightarrow> q \<in> set (all_records db')"
    by (auto simp: db'_def all_records_def immutable_records_def table_versions_def recs)
  note latest = latest_version_write [OF inj _ sets]
  have "mt_wf ?mt" "mt_options ?mt = db_options db"
    using Add_ok_wf [OF wf add del] fit opts Add_ok_entries(2) [OF add] by simp_all
  moreover have "db_layers db'"
  proof -
    have "\<forall>q \<in> set (immutable_records db @ table_versions db). r_sequence q < n"
      using new by (simp add: all_records_def)
    then show ?thesis
      using layers by (auto simp: db_layers_def db'_def layers_inv_def db_ok_def immutable_records_def table_versions_def recs)
  qed
  moreover note \<open>mt_wf ?mt\<close>
  ultimately have "db_ok db'" "mt_wf ?mt"
    using layers by (simp_all add: layers_inv_def db_ok_def db'_def)
  moreover have "\<forall>r \<in> set (all_records db'). r_sequence r \<le> db_last_sequence db"
    using sets(2) layers n by (auto simp: layers_inv_def)
  moreover have "inj_on r_sequence (set (all_records db'))"
    using latest(1) new by simp
  moreover have "stored_once db'"
  proof -
    have "distinct (Records ?mt)"
      using \<open>mt_wf ?mt\<close> Records_sorted [of ?mt] by (auto simp: mt_wf_def distinct_map strict_sorted_iff)
    moreover have "set (unflushed_records db @ table_versions db) \<subseteq> set (all_records db)"
      by (cases "db_immutable db") (auto simp: unflushed_records_def all_records_def immutable_records_def)
    then have "?r \<notin> set (unflushed_records db @ table_versions db)"
      using new by fastforce
    moreover have "unflushed_records db' = unflushed_records db" "table_versions db' = table_versions db"
        "db_mutable db' = ?mt" "distinct (Records (db_mutable db) @ unflushed_records db @ table_versions db)"
      using layers by (simp_all add: layers_inv_def stored_once_def db'_def unflushed_records_def table_versions_def)
    ultimately show ?thesis
      unfolding stored_once_def by (auto simp: recs)
  qed
  ultimately have "layers_inv db'"
    using layers by (simp add: layers_inv_def db'_def)
  then show "db_inv db'"
    using inv none by (simp add: db_inv_def db'_def flush_inv_def compaction_inv_def wal_inv_def table_versions_def)
  show "db_map db' = write_effect type key value (db_map db)"
    using latest(2) new by (auto simp: db_map_def write_effect_def version_value_def fun_eq_iff)
qed

text \<open>The last step of a write, on a database whose compaction is done.\<close>

lemma after_write_keeps:
  assumes "db_inv db" and "\<not> background_maintenance (db_options db)" and "after_write fm db = (db', s)"
  shows "keeps db db'"
  using assms FlushLocked_keeps [OF assms(1)] by (auto simp: after_write_def split: if_splits)

lemma status_keeps: "db_inv db \<Longrightarrow> keeps db (db\<lparr>db_status := s\<rparr>)"
  using same_content_keeps [of db "db\<lparr>db_status := s\<rparr>"] by (simp add: keeps_def same_content_def)

definition write_result ::
  "ValueType \<Rightarrow> bytes \<Rightarrow> bytes \<Rightarrow> Database \<Rightarrow> Database \<times> status \<Rightarrow> bool" where
  "write_result type key value db x \<longleftrightarrow> db_inv (fst x) \<and> db_options (fst x) = db_options db \<and> db_state (fst x) = db_state db \<and>
     (db_map (fst x) = write_effect type key value (db_map db) \<or> \<not> ok (snd x) \<and> db_map (fst x) = db_map db)"

lemma write_result_keeps: "keeps db db' \<Longrightarrow> \<not> ok s \<Longrightarrow> write_result type key value db (db', s)"
  by (simp add: write_result_def keeps_def)

lemma write_result_trans:
  "keeps db db1 \<Longrightarrow> write_result type key value db1 x \<Longrightarrow> write_result type key value db x"
  by (simp add: write_result_def keeps_def)

lemma apply_write_Add:
  assumes "type = kDeletion \<longrightarrow> value = []"
  shows "(if type = kValue then MemTable.Put n key value mt else MemTable.Delete n key mt) = Add n type key value mt"
  using assms by (cases type) (simp_all add: Put_def Delete_def)

lemma log_and_apply_result:
  assumes inv: "db_inv db" and none: "db_compaction db = None" and fg: "\<not> background_maintenance (db_options db)"
    and del: "w_type rec = kDeletion \<longrightarrow> w_value rec = []"
  shows "write_result (w_type rec) (w_key rec) (w_value rec) db (log_and_apply fm rec mode db)"
proof (cases "db_last_sequence db = - 1 \<or> db_wal db = None")
  case True
  then have "\<exists>s. log_and_apply fm rec mode db = (db, s) \<and> \<not> ok s"
    by (auto simp: log_and_apply_def)
  then show ?thesis
    using inv write_result_keeps by fastforce
next
  case False
  then obtain wal where wal: "db_wal db = Some wal"
    by blast
  let ?n = "db_last_sequence db + 1" and ?type = "w_type rec" and ?key = "w_key rec" and ?val = "w_value rec"
  obtain wal' t env where log: "append_wal (rec\<lparr>w_sequence := ?n\<rparr>) mode wal (db_environment db) = (wal', t, env)"
    by (metis prod_cases3)
  define db1 where "db1 = db\<lparr>db_last_sequence := ?n, db_wal := Some wal', db_environment := env\<rparr>"
  have less: "r < ?n" if "r \<le> db_last_sequence db" for r
    using word_le_plus_one [OF _ that] False by simp
  have k1: "keeps db db1"
    unfolding db1_def using less [of "db_last_sequence db"] by (intro logged_keeps [OF inv wal _ log]) simp
  have same: "all_records db1 = all_records db" "db_mutable db1 = db_mutable db" "db_compaction db1 = None"
    "db_last_sequence db1 = ?n" "db_options db1 = db_options db"
    by (simp_all add: db1_def layer_defs none)
  obtain mt u where add: "Add ?n ?type ?key ?val (db_mutable db) = (mt, u)"
    by force
  have app: "apply_write ?type ?n ?key ?val db1 =
      (if \<not> ok u then let s = DatabaseCorruption ''WAL append succeeded but Mutable MemTable apply failed'' in
        (db1\<lparr>db_mutable := mt, db_status := s\<rparr>, s) else (db1\<lparr>db_mutable := mt\<rparr>, Ok))"
    by (simp add: apply_write_def apply_write_Add [OF del] add same Let_def)
  have run: "log_and_apply fm rec mode db =
      (if \<not> ok t then (db1\<lparr>db_status := t\<rparr>, t)
       else let (db2, s) = apply_write ?type ?n ?key ?val db1 in
       if \<not> ok s then (db2, s) else after_write fm db2)"
    using False wal log by (simp add: log_and_apply_def db1_def Let_def)
  show ?thesis
  proof (cases "ok t")
    case False
    then show ?thesis
      using run write_result_keeps [OF keeps_trans [OF k1 status_keeps [OF keeps_inv [OF k1]]]] by simp
  next
    case logged: True
    show ?thesis
    proof (cases "ok u")
      case False
      then have "mt = db_mutable db1"
        using Add_fail [of ?n ?type ?key ?val "db_mutable db"] add same(2) by simp
      then have "db1\<lparr>db_mutable := mt\<rparr> = db1"
        by simp
      then show ?thesis
        using run logged app False write_result_keeps [OF keeps_trans [OF k1 status_keeps [OF keeps_inv [OF k1]]]]
        by (simp add: Let_def)
    next
      case True
      let ?db2 = "db1\<lparr>db_mutable := mt\<rparr>"
      have new: "\<forall>r \<in> set (all_records db1). r_sequence r < ?n"
        using inv less by (simp add: same(1) db_inv_def layers_inv_def)
      have "db_inv ?db2" "db_map ?db2 = write_effect ?type ?key ?val (db_map db1)"
        using added_map [OF keeps_inv [OF k1] same(3) new _ _ del, of ?key] add True same by simp_all
      moreover obtain db3 s where a: "after_write fm ?db2 = (db3, s)"
        by force
      moreover have "keeps ?db2 db3"
        using after_write_keeps [OF calculation(1) _ a] fg same(5) by simp
      moreover have "log_and_apply fm rec mode db = (db3, s)"
        using run logged app True a by simp
      ultimately show ?thesis
        using k1 by (simp add: write_result_def keeps_def db1_def)
    qed
  qed
qed

lemma Database_Write_result:
  assumes inv: "db_inv db" and fg: "\<not> background_maintenance (db_options db)"
    and run: "Database_Write fm type key value mode db = Some x"
  shows "write_result type key value db x"
proof -
  let ?rec = "\<lparr>w_type = type, w_sequence = 1, w_key = key, w_value = value\<rparr>"
  obtain db1 s1 where 1: "maintain_before_write fm db = (db1, s1)"
    by force
  note k1 = maintain_before_write_keeps [OF inv fg 1]
  have opts: "db_options db1 = db_options db"
    using k1(1) by (simp add: keeps_def)
  have refused: "write_result type key value db (db, s)" if "\<not> ok s" for s
    using write_result_keeps [OF keeps_refl [OF inv] that] .
  have del: "type = kDeletion \<longrightarrow> value = []" if "ok (ValidateWalRecord ?rec (db_options db))"
    using that by (simp add: ValidateWalRecord_ok_iff ValidateLengths_ok_iff)
  note run = run [unfolded Database_Write_def 1 Let_def prod.case]
  consider s where "x = (db, s)" "\<not> ok s" | "x = (db1, s1)" "\<not> ok s1"
    | "x = (db1, Closed ''database is not running'')" "\<not> IsRunningLocked db1"
    | "x = log_and_apply fm ?rec mode db1" "ok s1" "ok (ValidateWalRecord ?rec (db_options db))"
    using run fg opts by (auto split: if_splits)
  then show ?thesis
  proof cases
    case 4
    have "write_result type key value db1 x"
      using log_and_apply_result [OF keeps_inv [OF k1(1)] k1(2), of ?rec fm mode] fg opts 4 del by simp
    then show ?thesis
      by (rule write_result_trans [OF k1(1)])
  qed (use refused k1(1) write_result_keeps in auto)
qed

section \<open>Lookups\<close>

definition read_from :: "SSTableReader \<Rightarrow> SSTableReader \<Rightarrow> bool" where
  "read_from t t' \<longleftrightarrow> same_table t t' \<and> reads_within (rd_file t) (rd_file t')"

lemma read_from_refl [simp]: "read_from t t"
  by (simp add: read_from_def)

lemma SSTableReader_Get_read_from:
  assumes "SSTableReader_Get rd key = (rd', st, res)"
  shows "read_from rd rd'"
proof -
  have "same_table rd rd'"
    using assms by (auto simp: SSTableReader_Get_def Let_def split: if_splits prod.splits sum.splits dest!: ReadBlock_same)
  then show ?thesis
    using SSTableReader_Get_within [OF assms] by (simp add: read_from_def)
qed

lemma get_tables_read_from: "get_tables key ts best op = (ts', op', r) \<Longrightarrow> list_all2 read_from ts ts'"
proof (induction ts arbitrary: best op ts' op' r)
  case (Cons t ts)
  then show ?case
    by (auto simp: Let_def list_all2_refl split: prod.splits if_splits dest!: SSTableReader_Get_read_from)
qed simp

lemma read_from_content:
  assumes "read_from t t'"
  shows "table_records t' = table_records t" "rd_metadata t' = rd_metadata t" "table_ok options t \<Longrightarrow> table_ok options t'"
  using assms same_table_content [of t t'] honest_within
  by (auto simp: read_from_def table_ok_def summary_sound_def same_table_def)

lemma reads_maps:
  assumes "list_all2 read_from ts ts'"
  shows "map table_records ts' = map table_records ts"
    and "map table_records (filter (is_input st) ts') = map table_records (filter (is_input st) ts)"
    and "map table_records (filter (\<lambda>t. \<not> is_input st t) ts') = map table_records (filter (\<lambda>t. \<not> is_input st t) ts)"
    and "\<forall>t \<in> set ts. table_ok options t \<Longrightarrow> \<forall>t \<in> set ts'. table_ok options t"
    and "tables_match v ts' = tables_match v ts"
proof -
  show "map table_records ts' = map table_records ts"
    "map table_records (filter (is_input st) ts') = map table_records (filter (is_input st) ts)"
    "map table_records (filter (\<lambda>t. \<not> is_input st t) ts') = map table_records (filter (\<lambda>t. \<not> is_input st t) ts)"
    "\<forall>t \<in> set ts. table_ok options t \<Longrightarrow> \<forall>t \<in> set ts'. table_ok options t"
    using assms by (induction rule: list_all2_induct) (simp_all add: read_from_content is_input_def)
  have "map rd_metadata ts' = map rd_metadata ts"
    using assms by (induction rule: list_all2_induct) (simp_all add: read_from_content)
  then show "tables_match v ts' = tables_match v ts"
    unfolding tables_match_def list_all2_conv_all_nth using list_all2_lengthD [OF assms] by (metis (lifting) nth_map)
qed

lemma reads_keep:
  assumes inv: "db_inv db" and ts: "list_all2 read_from (db_tables db) ts"
  shows "keeps db (db\<lparr>db_tables := ts\<rparr>)"
proof -
  let ?db = "db\<lparr>db_tables := ts\<rparr>"
  note m = reads_maps [OF ts]
  have versions: "table_versions ?db = table_versions db" "all_records ?db = all_records db"
    "immutable_records ?db = immutable_records db" "unflushed_records ?db = unflushed_records db"
    by (simp_all add: layer_defs unflushed_records_def m(1))
  have ok: "\<forall>t \<in> set ts. table_ok (db_options db) t"
    using inv m(4) by (simp add: db_inv_def layers_inv_def)
  then have "layers_inv ?db"
    using inv by (auto simp: db_inv_def layers_inv_def db_ok_def db_layers_def stored_once_def versions sound_tables_def table_ok_def)
  moreover have "stage_inv st ?db = stage_inv st db" for st
    by (simp add: stage_inv_def unpublished_inv_def input_versions_def other_versions_def m(2,3))
  ultimately have "db_inv ?db"
    using inv by (simp add: db_inv_def flush_inv_def compaction_inv_def wal_inv_def versions m(5))
  then show ?thesis
    by (simp add: keeps_def db_map_def versions fun_eq_iff)
qed

lemma statistics_keep: "db_inv db \<Longrightarrow> keeps db (db\<lparr>db_read_statistics := x\<rparr>)"
  using same_content_keeps [of db "db\<lparr>db_read_statistics := x\<rparr>"] by (simp add: keeps_def same_content_def)

lemma Database_Get_keeps:
  assumes inv: "db_inv db" and run: "Database_Get key db = (db', op, res)"
  shows "keeps db db'"
proof -
  have finish: "keeps db1 db'" if "db_inv db1" "FinishRead r o1 db1 = (db', op, res)" for db1 r o1
    using statistics_keep [OF that(1)] that(2) by (auto simp: FinishRead_def)
  have tables: "keeps db db'" if l: "tables_lookup key o1 db = (db', op, res)" for o1
  proof -
    obtain ts o2 r where g: "get_tables key (rev (db_tables db)) (no_result (NotFound ''key does not exist'')) o1 = (ts, o2, r)"
      by (metis prod_cases3)
    have "list_all2 read_from (db_tables db) (rev ts)"
      using get_tables_read_from [OF g] by (simp add: list_all2_rev1)
    note k = reads_keep [OF inv this]
    have "\<exists>r' o'. FinishRead r' o' (db\<lparr>db_tables := rev ts\<rparr>) = (db', op, res)"
      using l [unfolded tables_lookup_def g Let_def prod.case] by (auto split: sum.splits if_splits)
    then show ?thesis
      using finish [OF keeps_inv [OF k]] keeps_trans [OF k] by blast
  qed
  show ?thesis
    using run finish [OF inv] tables by (auto simp: Database_Get_def Let_def split: if_splits option.splits)
qed

section \<open>Closing\<close>

lemma close_work_keeps:
  assumes inv: "db_inv db" and run: "close_work fm db = (db', s)"
  shows "keeps db db'"
proof -
  obtain db1 s1 where 1: "ContinueCompaction fm db = (db1, s1)" by force
  obtain db2 s2 where 2: "ContinueFlush fm db1 = (db2, s2)" by force
  obtain db3 s3 where 3: "FreezeMutable False db2 = (db3, s3)" by force
  obtain db4 s4 where 4: "ContinueFlush fm db3 = (db4, s4)" by force
  note k1 = ContinueCompaction_keeps(1) [OF inv 1]
  note k2 = keeps_trans [OF k1 ContinueFlush_keeps(1) [OF keeps_inv [OF k1] 2]]
  note k3 = keeps_trans [OF k2 FreezeMutable_keeps [OF keeps_inv [OF k2] 3]]
  note k4 = keeps_trans [OF k3 ContinueFlush_keeps(1) [OF keeps_inv [OF k3] 4]]
  show ?thesis
    using run [unfolded close_work_def 1 2 3 4 Let_def prod.case] k1 k2 k3 k4 by (auto split: if_splits)
qed

lemma Database_Close_result:
  assumes inv: "db_inv db" and run: "Database_Close fm db = (db', s)"
  shows "db_inv db'" "db_map db' = db_map db" "db_options db' = db_options db"
proof -
  let ?db0 = "db\<lparr>db_state := kClosing, db_stop_background := True\<rparr>"
  have 0: "db_inv ?db0" "db_map ?db0 = db_map db"
    using same_content_keeps [of db ?db0] inv by (simp_all add: same_content_def)
  obtain db1 s1 where 1: "close_work fm ?db0 = (db1, s1)" by force
  note k = close_work_keeps [OF 0(1) 1]
  have "same_content db1 db' \<and> db_wal db' = None \<or> db' = db"
    using run [unfolded Database_Close_def 1 Let_def prod.case] by (auto simp: same_content_def split: if_splits)
  then show "db_inv db'" "db_map db' = db_map db" "db_options db' = db_options db"
    using same_content_keeps [of db1 db'] k 0(2) inv by (auto simp: keeps_def same_content_def)
qed

end
