(* ===== verification/DatabaseSpec.thy ===== *)
theory DatabaseSpec
  imports DatabaseRun
begin

text \<open>
  The contract of the database: runs of operations, with every fault the scripts can inject, are
  explained by the abstract map.
\<close>

section \<open>Runs\<close>

text \<open>
  What a caller observes. A lookup is recorded with whether an error was possible: the database was
  not running, the key is not admissible, or the file of a table may fail.
\<close>

datatype DbEvent =
    Wrote ValueType bytes bytes status
  | Looked bytes LookupResult bool
  | Maintained status

definition lookup_trouble :: "Database \<Rightarrow> bytes \<Rightarrow> bool" where
  "lookup_trouble db key \<longleftrightarrow> \<not> IsRunningLocked db \<or> key = [] \<or> length key > max_key_size (db_options db) \<or>
     (\<exists>t \<in> set (db_tables db). \<not> benign_file (rd_file t))"

inductive db_step :: "FloatMath \<Rightarrow> Database \<Rightarrow> DbEvent \<Rightarrow> Database \<Rightarrow> bool" for fm where
  put: "Database_Put fm key value mode db = Some (db', s) \<Longrightarrow> db_step fm db (Wrote kValue key value s) db'"
| delete: "Database_Delete fm key mode db = Some (db', s) \<Longrightarrow> db_step fm db (Wrote kDeletion key [] s) db'"
| get: "Database_Get key db = (db', operation, res) \<Longrightarrow> db_step fm db (Looked key res (lookup_trouble db key)) db'"
| flush: "Database_Flush fm db = (db', s) \<Longrightarrow> db_step fm db (Maintained s) db'"
| compact: "Database_Compact fm db = (db', s) \<Longrightarrow> db_step fm db (Maintained s) db'"
| close: "Database_Close fm db = (db', s) \<Longrightarrow> db_step fm db (Maintained s) db'"

inductive db_run :: "FloatMath \<Rightarrow> Database \<Rightarrow> DbEvent list \<Rightarrow> Database \<Rightarrow> bool" for fm where
  start: "db_run fm db [] db"
| step: "db_step fm db e db1 \<Longrightarrow> db_run fm db1 es db' \<Longrightarrow> db_run fm db (e # es) db'"

inductive_cases db_step_WroteE: "db_step fm db (Wrote type key value s) db'"

text \<open>
  The map that explains the events: an acknowledged write takes effect, a failed one may or may not
  have; maintenance has none; a lookup shows the value of the key.
\<close>

definition shows_value :: "(bytes \<Rightarrow> bytes option) \<Rightarrow> bytes \<Rightarrow> LookupResult \<Rightarrow> bool" where
  "shows_value m key res \<longleftrightarrow>
     (case m key of Some v \<Rightarrow> ok (lr_status res) \<and> lr_value res = v | None \<Rightarrow> IsNotFound (lr_status res))"

fun explains :: "DbEvent list \<Rightarrow> (bytes \<Rightarrow> bytes option) \<Rightarrow> (bytes \<Rightarrow> bytes option) \<Rightarrow> bool" where
  "explains [] m m' \<longleftrightarrow> m' = m"
| "explains (Wrote type key value s # es) m m' \<longleftrightarrow>
     explains es (write_effect type key value m) m' \<or> \<not> ok s \<and> explains es m m'"
| "explains (Looked key res trouble # es) m m' \<longleftrightarrow>
     (shows_value m key res \<or> trouble \<and> \<not> ok (lr_status res) \<and> \<not> IsNotFound (lr_status res)) \<and> explains es m m'"
| "explains (Maintained s # es) m m' \<longleftrightarrow> explains es m m'"

section \<open>Every step refines the map\<close>

lemma Lookup_refused:
  assumes "key = [] \<or> length key > max_key_size (mt_options mt)"
  shows "\<not> ok (lr_status (Lookup mt key))" "\<not> IsNotFound (lr_status (Lookup mt key))"
  using assms by (auto simp: Lookup_def Validate_def IsNotFound_def Let_def)

lemma Database_Get_explained:
  assumes inv: "db_inv db" and run: "Database_Get key db = (db', op, res)"
  shows "shows_value (db_map db) key res \<or>
    lookup_trouble db key \<and> \<not> ok (lr_status res) \<and> \<not> IsNotFound (lr_status res)"
proof (cases "IsRunningLocked db \<and> key \<noteq> [] \<and> length key \<le> max_key_size (db_options db)")
  case True
  have "db_ok db" "inj_on r_sequence (set (all_records db))"
    using inv by (simp_all add: db_inv_def layers_inv_def)
  then show ?thesis
    using Database_Get_result [OF _ _ _ _ run] True reads_right_map [of db key res]
    by (auto simp: shows_value_def lookup_trouble_def)
next
  case False
  have opts: "mt_options (db_mutable db) = db_options db"
    using inv by (simp add: db_inv_def layers_inv_def db_ok_def)
  have "\<not> ok (lr_status res) \<and> \<not> IsNotFound (lr_status res)"
  proof (cases "IsRunningLocked db")
    case stopped: False
    then show ?thesis
      using run by (auto simp: Database_Get_def FinishRead_def no_result_def IsNotFound_def Let_def)
  next
    case True
    then have "res = UserVisible (Lookup (db_mutable db) key)" "\<not> ok (lr_status (Lookup (db_mutable db) key))"
        "\<not> IsNotFound (lr_status (Lookup (db_mutable db) key))"
      using run False Lookup_refused [of key "db_mutable db"] opts
      by (auto simp: Database_Get_def FinishRead_def Let_def not_le)
    then show ?thesis
      by (simp add: UserVisible_def deleted_def found_def)
  qed
  then show ?thesis
    using False by (auto simp: lookup_trouble_def)
qed

lemma db_step_explained:
  assumes "db_step fm db e db'" and inv: "db_inv db" and fg: "\<not> background_maintenance (db_options db)"
  shows "db_inv db' \<and> \<not> background_maintenance (db_options db') \<and> (\<exists>m. explains [e] (db_map db) m \<and> db_map db' = m)"
  using assms(1)
proof cases
  case (put key v mode s)
  then show ?thesis
    using Database_Write_result [OF inv fg, of fm kValue key v mode "(db', s)"] fg
    by (auto simp: Database_Put_def write_result_def)
next
  case (delete key mode s)
  then show ?thesis
    using Database_Write_result [OF inv fg, of fm kDeletion key "[]" mode "(db', s)"] fg
    by (auto simp: Database_Delete_def write_result_def)
next
  case (get key op res)
  then show ?thesis
    using Database_Get_keeps [OF inv] Database_Get_explained [OF inv] fg by (auto simp: keeps_def)
next
  case (flush s)
  then show ?thesis
    using Database_Flush_keeps [OF inv] fg by (auto simp: keeps_def)
next
  case (compact s)
  then show ?thesis
    using Database_Compact_keeps [OF inv] fg by (auto simp: keeps_def)
next
  case (close s)
  then show ?thesis
    using Database_Close_result [OF inv close(2)] fg by simp
qed

lemma explains_Cons: "explains (e # es) m m' \<longleftrightarrow> (\<exists>m1. explains [e] m m1 \<and> explains es m1 m')"
  by (cases e) auto

lemma db_run_explained:
  "db_run fm db es db' \<Longrightarrow> db_inv db \<Longrightarrow> \<not> background_maintenance (db_options db) \<Longrightarrow>
     db_inv db' \<and> \<not> background_maintenance (db_options db') \<and> explains es (db_map db) (db_map db')"
proof (induction rule: db_run.induct)
  case (step db e db1 es db')
  then show ?case
    using db_step_explained [OF step(1,4,5)] by (auto simp: explains_Cons [of e es])
qed simp

section \<open>Scans list the map\<close>

lemma unambiguous_distinct:
  assumes "distinct rs" and inj: "inj_on r_sequence (set rs)"
  shows "strictly_newest (mset rs) r \<longleftrightarrow> top_version (set rs) (r_key r) r" and "unambiguous (mset rs)"
proof -
  have iff: "strictly_newest (mset rs) r \<longleftrightarrow> top_version (set rs) (r_key r) r" for r
  proof
    assume r: "top_version (set rs) (r_key r) r"
    have "r_sequence q < r_sequence r" if "q \<in> set rs" "q \<noteq> r" "r_key q = r_key r" for q
      using r that inj by (auto simp: top_version_def inj_on_def order.strict_iff_order)
    moreover have "set_mset (mset rs - {#r#}) = set rs - {r}"
      using assms(1) by (simp flip: mset_remove1)
    ultimately show "strictly_newest (mset rs) r"
      using r by (auto simp: strictly_newest_def top_version_def)
  next
    assume "strictly_newest (mset rs) r"
    then show "top_version (set rs) (r_key r) r"
      unfolding strictly_newest_def top_version_def
      by (metis in_minus_other less_imp_le order_refl set_mset_mset)
  qed
  then show "strictly_newest (mset rs) r \<longleftrightarrow> top_version (set rs) (r_key r) r" .
  show "unambiguous (mset rs)"
    unfolding unambiguous_def
  proof
    fix q
    assume "q \<in># mset rs"
    then obtain r where "latest_version (r_key q) rs = Some r"
      by (cases "latest_version (r_key q) rs") (auto simp: latest_version_None)
    then have "top_version (set rs) (r_key q) r"
      by (rule latest_version_top)
    then show "\<exists>r. strictly_newest (mset rs) r \<and> r_key r = r_key q"
      using iff by (auto simp: top_version_def)
  qed
qed

text \<open>A database whose flush, if any, has not got past the manifest.\<close>

definition flush_settled :: "Database \<Rightarrow> bool" where
  "flush_settled db \<longleftrightarrow> (\<forall>ig. db_immutable db = Some ig \<longrightarrow> \<not> ig_version_published ig)"

definition key_in_scan :: "ScanBounds \<Rightarrow> bytes \<Rightarrow> bool" where
  "key_in_scan bounds k \<longleftrightarrow> sb_begin bounds \<le> k \<and> (case sb_end bounds of None \<Rightarrow> True | Some u \<Rightarrow> k < u)"

lemma visible_entries_map:
  assumes inv: "db_inv db" and "flush_settled db"
  shows "unambiguous (mset (all_records db))"
    and "e \<in> set (visible_entries db bounds []) \<longleftrightarrow> key_in_scan bounds (se_key e) \<and> db_map db (se_key e) = Some (se_value e)"
proof -
  have inj: "inj_on r_sequence (set (all_records db))"
    using inv by (simp add: db_inv_def layers_inv_def)
  have "unflushed_records db = immutable_records db"
    using assms(2) by (auto simp: unflushed_records_def immutable_records_def flush_settled_def split: option.split)
  then have dist: "distinct (all_records db)"
    using inv by (simp add: db_inv_def layers_inv_def stored_once_def all_records_def)
  note un = unambiguous_distinct [OF dist inj]
  show "unambiguous (mset (all_records db))"
    by (rule un)
  have "e \<in> set (visible_entries db bounds []) \<longleftrightarrow>
      (\<exists>r. top_version (set (all_records db)) (r_key r) r \<and> scan_range bounds [] r \<and> r_type r \<noteq> kDeletion \<and> e = scan_entry r)"
    by (auto simp: visible_entries_def live_def set_newest un(1))
  also have "\<dots> \<longleftrightarrow> (\<exists>r. latest_version (se_key e) (all_records db) = Some r \<and> key_in_scan bounds (se_key e) \<and>
      r_type r = kValue \<and> se_value e = r_value r)"
    using latest_version_Some_iff [OF inj]
    by (auto simp: scan_range_def in_range_def below_def key_in_scan_def scan_entry_def value_not_deletion top_version_def
        intro!: ScanEntry.equality split: option.splits)
  also have "\<dots> \<longleftrightarrow> key_in_scan bounds (se_key e) \<and> db_map db (se_key e) = Some (se_value e)"
    by (auto simp: db_map_def version_value_def split: option.splits if_splits)
  finally show "e \<in> set (visible_entries db bounds []) \<longleftrightarrow>
      key_in_scan bounds (se_key e) \<and> db_map db (se_key e) = Some (se_value e)" .
qed

text \<open>A version that the immutable MemTable and a table share, and that no layer supersedes.\<close>

lemma shared_version_ambiguous:
  assumes ok: "db_ok db" and ig: "db_immutable db = Some ig" and r: "r \<in> set (Records (ig_memtable ig))" "r \<in> set (table_versions db)"
    and none: "\<forall>q \<in> set (Records (db_mutable db)). r_key q \<noteq> r_key r" and P: "P r" "\<And>q r. r_key q = r_key r \<Longrightarrow> P q \<longleftrightarrow> P r"
  shows "\<not> unambiguous (mset (filter P (all_records db)))"
proof
  let ?M = "mset (filter P (all_records db))"
  assume "unambiguous ?M"
  moreover have "r \<in># ?M"
    using r P(1) ig by (simp add: all_records_def immutable_records_def)
  ultimately obtain w where w: "strictly_newest ?M w" "r_key w = r_key r"
    unfolding unambiguous_def by blast
  have "r_sequence w \<le> r_sequence r"
  proof -
    have "w \<in> set (all_records db)"
      using w(1) by (simp add: strictly_newest_def)
    then have "w \<in> set (Records (ig_memtable ig)) \<or> w \<in> set (table_versions db)"
      using none w(2) ig by (auto simp: all_records_def immutable_records_def)
    moreover have "w = r" if "w \<in> set (Records (ig_memtable ig))"
      using that r(1) w(2) ok ig Records_sorted [of "ig_memtable ig"]
      by (metis db_ok_def distinct_map inj_onD mt_wf_def strict_sorted_iff)
    ultimately show ?thesis
      using ok ig r(1) w(2) by (auto simp: db_ok_def db_layers_def immutable_records_def)
  qed
  moreover have "r \<in># ?M - {#w#}"
  proof (cases "w = r")
    case True
    have "r \<in># mset (filter P (Records (ig_memtable ig)))" "r \<in># mset (filter P (table_versions db))"
      using r P(1) by simp_all
    then obtain B C where "mset (filter P (Records (ig_memtable ig))) = add_mset r B"
        "mset (filter P (table_versions db)) = add_mset r C"
      by (metis multi_member_split)
    then show ?thesis
      using True ig by (simp add: all_records_def immutable_records_def)
  next
    case False
    then show ?thesis
      using in_minus_other [of r ?M w] \<open>r \<in># ?M\<close> by simp
  qed
  ultimately show False
    using w by (auto simp: strictly_newest_def)
qed

section \<open>Properties\<close>

text \<open>
  C1. The database is a map. Start from any state that satisfies the invariant, without a background
  thread, and run any sequence of writes, deletions, lookups, flushes, compactions and closes, with
  any faults of files and directory. Then every lookup answers for the map that the acknowledged
  writes before it have made (a write that reported an error may be part of it or not), or reports
  an error when there was a reason for one; flushes, compactions and interrupted ones that are
  resumed never change what is stored; and the final state satisfies the invariant again.
\<close>

theorem Database_refines_map:
  assumes "db_run fm db es db'" and "db_inv db" and "\<not> background_maintenance (db_options db)"
  shows "db_inv db' \<and> explains es (db_map db) (db_map db')"
  using db_run_explained [OF assms] by blast

definition fresh_env :: Env where
  "fresh_env = \<lparr>env_names = [WalPath ''db'' 1 \<mapsto> 0], env_disk = [WalPath ''db'' 1 \<mapsto> 0],
     env_inodes = (\<lambda>_. \<lparr>wf_name = WalPath ''db'' 1, wf_data = [], wf_durable = [], wf_writes = [Accepts 3, Interrupts], wf_syncs = []\<rparr>),
     env_next = 1, env_creates = [], env_renames = [IOError ''rename''], env_removes = [], env_dirsyncs = [],
     env_scripts = [], env_opens = []\<rparr>"

text \<open>The state after opening an empty directory.\<close>

definition fresh_db :: Database where
  "fresh_db = \<lparr>db_directory = ''db'', db_options = default_Options, db_environment = fresh_env,
     db_version = NewDatabase, db_mutable = new_MemTable default_Options, db_mutable_generation = 1,
     db_wal = Some (0, new_WalWriter default_Options (Some (env_inodes fresh_env 0))),
     db_immutable = None, db_compaction = None, db_tables = [], db_last_sequence = 0,
     db_read_statistics = empty_DatabaseReadStats, db_last_compaction_statistics = empty_CompactionStats,
     db_status = Ok, db_background_status = Ok, db_close_status = Ok, db_state = kRunning,
     db_background_work_requested = False, db_background_work_running = False, db_stop_background = False,
     db_background_statistics = empty_BackgroundMaintenanceStats\<rparr>"

lemma fresh_db_inv: "db_inv fresh_db"
proof -
  have "layers_inv fresh_db" "flush_inv fresh_db" "compaction_inv fresh_db" "options_inv (db_options fresh_db)"
    using sample_fits by (simp_all add: fresh_db_def inv_defs sound_tables_def new_MemTable_facts options_inv_def)
  moreover have "wal_inv fresh_db" "env_ok (db_environment fresh_db)"
    by (auto simp: fresh_db_def wal_inv_def new_WalWriter_def fresh_env_def wal_device.device_ok_def env_ok_def env_wf_def
        honest_opens_def split: if_splits)
  moreover have "tables_match (db_version fresh_db) (db_tables fresh_db)"
      "ok (ValidateVersion (db_version fresh_db) (db_options fresh_db))"
    by (simp_all add: fresh_db_def tables_match_def NewDatabase_def ValidateVersion_def default_Options_def
        level_one_tables_def maximum_table_sequence_def)
  ultimately show ?thesis
    by (simp add: db_inv_def)
qed

lemma fresh_put:
  obtains db1 where "Database_Put sample_math [107] [118] kSync fresh_db = Some (db1, Ok)" "db_state db1 = kRunning"
    "db_tables db1 = []" "db_options db1 = default_Options" "db_immutable db1 = None"
proof -
  let ?rec = "\<lparr>w_type = kValue, w_sequence = 1, w_key = [107], w_value = [118]\<rparr>"
  let ?w = "new_WalWriter default_Options (Some (env_inodes fresh_env 0))"
  obtain w' t where a: "Append ?rec kSync ?w = (w', t)"
    by force
  have "ok (snd (Append ?rec kSync ?w))"
    by (rule Append_succeeds [of _ "env_inodes fresh_env 0"])
      (simp_all add: new_WalWriter_def failed_def fresh_env_def encodable_def ValidateWalRecord_def ValidateLengths_def
        default_Options_def)
  then have t: "ok t"
    using a by simp
  obtain f where f: "ww_file w' = Some f"
    using Append_file [OF a] by (auto simp: new_WalWriter_def)
  let ?mt = "new_MemTable default_Options"
  have add: "ok (snd (Add 1 kValue [107] [118] ?mt))"
    by (simp add: Add_ok_cond Validate_ok_iff default_Options_def EncodedPayloadSize_def kRecordMetadataSize_def
        new_MemTable_def view_def)
  then obtain mt u where mt: "Add 1 kValue [107] [118] ?mt = (mt, u)" "ok u"
    by (cases "Add 1 kValue [107] [118] ?mt") simp
  have size: "\<not> memtable_size_limit default_Options \<le> unat (ApproximateDataSize mt)"
    using Add_ok_entries(3) [OF add] mt
    by (simp add: ApproximateDataSize_def EncodedPayloadSize_def kRecordMetadataSize_def new_MemTable_def default_Options_def
        view_def)
  have "maintain_before_write sample_math fresh_db = (fresh_db, Ok)"
    by (simp add: maintain_before_write_def ContinueCompaction_def compaction_stage_def ContinueFlush_def fresh_db_def
        default_Options_def)
  moreover have "ok (ValidateWalRecord ?rec default_Options)"
    by (simp add: ValidateWalRecord_def ValidateLengths_def default_Options_def)
  ultimately have "Database_Put sample_math [107] [118] kSync fresh_db =
      Some (log_and_apply sample_math ?rec kSync fresh_db)"
    by (simp add: Database_Put_def Database_Write_def fresh_db_def IsRunningLocked_def write_waits_def default_Options_def)
  moreover have "\<exists>db1. log_and_apply sample_math ?rec kSync fresh_db = (db1, Ok) \<and> db_state db1 = kRunning \<and>
      db_tables db1 = [] \<and> db_options db1 = default_Options \<and> db_immutable db1 = None"
    using a t f mt size
    by (simp add: log_and_apply_def fresh_db_def append_wal_def apply_write_def Put_def after_write_def not_le)
  ultimately show thesis
    by (elim exE conjE) (rule that, simp_all)
qed

theorem Database_refines_map_witness:
  "\<exists>db1 db2 operation res. Database_Put sample_math [107] [118] kSync fresh_db = Some (db1, Ok) \<and>
     Database_Get [107] db1 = (db2, operation, res) \<and> ok (lr_status res) \<and> lr_value res = [118]"
proof -
  obtain db1 where put: "Database_Put sample_math [107] [118] kSync fresh_db = Some (db1, Ok)" "db_state db1 = kRunning"
    "db_tables db1 = []" "db_options db1 = default_Options"
    by (rule fresh_put)
  obtain db2 op res where get: "Database_Get [107] db1 = (db2, op, res)"
    by (metis prod_cases3)
  have "db_run sample_math fresh_db [Wrote kValue [107] [118] Ok, Looked [107] res (lookup_trouble db1 [107])] db2"
    by (rule db_run.step [OF db_step.put [OF put(1)] db_run.step [OF db_step.get [OF get] db_run.start]])
  note Database_refines_map [OF this fresh_db_inv]
  moreover have "\<not> lookup_trouble db1 [107]"
    using put by (simp add: lookup_trouble_def IsRunningLocked_def default_Options_def)
  moreover have "\<not> background_maintenance (db_options fresh_db)"
    by (simp add: fresh_db_def default_Options_def)
  ultimately have "shows_value (write_effect kValue [107] [118] (db_map fresh_db)) [107] res"
    by simp
  then show ?thesis
    using put(1) get by (auto simp: shows_value_def write_effect_def)
qed

text \<open>
  C19. Scans list the map. In such a database, while no flush stands between publishing its table and
  dropping its MemTable, paging through a range with working files lists exactly the keys of the
  range that the map has, with their values, in key order: the pages are the successive segments
  of one sorted list, none missing and none twice.
\<close>

theorem Database_Scan_lists_map:
  assumes "db_inv db" and "flush_settled db" and "IsRunningLocked db" and "\<not> read_trouble db"
    and "0 < so_limit so" "so_limit so \<le> maximum_scan_entries (db_options db)" "so_continuation_token so = []"
    and "scan_bounds_ok (db_options db) (bounds_of so)" and "44 + 3 * max_key_size (db_options db) \<le> u32_max"
  shows "\<exists>L. sorted_wrt (<) (map se_key L) \<and>
    (\<forall>e. e \<in> set L \<longleftrightarrow> key_in_scan (bounds_of so) (se_key e) \<and> db_map db (se_key e) = Some (se_value e)) \<and>
    (\<forall>n. scan_pages n so db = take (n * so_limit so) L)"
proof -
  have "scan_admissible db so"
    using assms by (simp add: scan_admissible_def db_inv_def layers_inv_def)
  then have "scan_pages n so db = take (n * so_limit so) (visible_entries db (bounds_of so) [])" for n
    using assms(4,7,9) visible_entries_map(1) [OF assms(1,2)] by (intro scan_pages_from) (simp_all add: resume_key_def)
  then show ?thesis
    using visible_entries_sorted visible_entries_map(2) [OF assms(1,2)]
    by (intro exI [of _ "visible_entries db (bounds_of so) []"]) blast
qed

lemma fresh_map: "db_map fresh_db k = None"
  by (simp add: db_map_def fresh_db_def layer_defs version_value_def)

theorem Database_Scan_lists_map_witness:
  "\<exists>db1. Database_Put sample_math [107] [118] kSync fresh_db = Some (db1, Ok) \<and>
     scan_pages 1 sample_scan db1 = [\<lparr>se_key = [107], se_value = [118]\<rparr>]"
proof -
  obtain db1 where put: "Database_Put sample_math [107] [118] kSync fresh_db = Some (db1, Ok)" "db_state db1 = kRunning"
    "db_tables db1 = []" "db_options db1 = default_Options" "db_immutable db1 = None"
    by (rule fresh_put)
  have fg: "\<not> background_maintenance (db_options fresh_db)"
    by (simp add: fresh_db_def default_Options_def)
  have inv: "db_inv db1" "db_map db1 = write_effect kValue [107] [118] (db_map fresh_db)"
    using Database_Write_result [OF fresh_db_inv fg, of sample_math kValue "[107]" "[118]" kSync "(db1, Ok)"] put(1)
    by (simp_all add: Database_Put_def write_result_def)
  have "\<exists>L. sorted_wrt (<) (map se_key L) \<and>
    (\<forall>e. e \<in> set L \<longleftrightarrow> key_in_scan (bounds_of sample_scan) (se_key e) \<and> db_map db1 (se_key e) = Some (se_value e)) \<and>
    (\<forall>n. scan_pages n sample_scan db1 = take (n * so_limit sample_scan) L)"
    using put by (intro Database_Scan_lists_map inv(1))
      (simp_all add: flush_settled_def IsRunningLocked_def read_trouble_def sample_scan_def default_Options_def bounds_of_def
        scan_bounds_ok_def range_bounds_def)
  then obtain L where L: "sorted_wrt (<) (map se_key L)" "\<And>n. scan_pages n sample_scan db1 = take (n * 5) L"
      "\<And>e. e \<in> set L \<longleftrightarrow> key_in_scan (bounds_of sample_scan) (se_key e) \<and> db_map db1 (se_key e) = Some (se_value e)"
    by (auto simp: sample_scan_def)
  have "e \<in> set L \<longleftrightarrow> e = \<lparr>se_key = [107], se_value = [118]\<rparr>" for e
    unfolding L(3) inv(2) write_effect_def fresh_map
    by (cases e) (auto simp: key_in_scan_def bounds_of_def sample_scan_def range_bounds_def fresh_map)
  then have "set L = {\<lparr>se_key = [107], se_value = [118]\<rparr>}"
    by blast
  moreover have "distinct L"
    using L(1) by (metis distinct_map strict_sorted_iff)
  ultimately have "L = [\<lparr>se_key = [107], se_value = [118]\<rparr>]"
    by (cases L) (auto simp: subset_singleton_iff)
  then show ?thesis
    using put(1) L(2) [of 1] by (intro exI [of _ db1]) simp
qed

text \<open>
  C20. An interrupted flush blocks scans. While the immutable MemTable is kept although its table is
  already among the tables (its log could not be removed, or the next one not be opened), a scan
  over a key of that MemTable that no later write supersedes cannot complete: it fails, or breaks off
  at its limit before the end of the range.
\<close>

theorem Interrupted_flush_blocks_scan:
  assumes "scan_admissible db so" and "resume_key (bounds_of so) (so_continuation_token so) db = Inr resume"
    and "db_immutable db = Some ig" and "r \<in> set (Records (ig_memtable ig))" "r \<in> set (table_versions db)"
    and "\<forall>q \<in> set (Records (db_mutable db)). r_key q \<noteq> r_key r" and "scan_range (bounds_of so) resume r"
  shows "\<not> ok (sr_status (Database_Scan so db)) \<or> sr_truncated (Database_Scan so db)"
proof (rule ccontr)
  assume "\<not> ?thesis"
  then have "unambiguous (mset (filter (scan_range (bounds_of so) resume) (all_records db)))"
    using Database_Scan_cases [OF assms(1,2)] by (simp add: right_page_def Let_def not_less)
  moreover have "db_ok db"
    using assms(1) by (simp add: scan_admissible_def)
  moreover have "scan_range (bounds_of so) resume q \<longleftrightarrow> scan_range (bounds_of so) resume p" if "r_key q = r_key p" for q p
    using that by (simp add: scan_range_def in_range_def below_def split: option.split)
  ultimately show False
    using shared_version_ambiguous [of db ig r "scan_range (bounds_of so) resume"] assms(3-7) by blast
qed

definition interrupted_db :: "SSTableReader \<Rightarrow> Database" where
  "interrupted_db rd = (sample_db rd)\<lparr>db_immutable :=
     Some ((new_ImmutableGeneration 1 ''db/1.wal'' sample_memtable)\<lparr>ig_version_published := True\<rparr>)\<rparr>"

theorem Interrupted_flush_blocks_scan_witness:
  "\<exists>rd. table_records rd = [record_of sample_record] \<and>
     (\<not> ok (sr_status (Database_Scan sample_scan (interrupted_db rd))) \<or>
      sr_truncated (Database_Scan sample_scan (interrupted_db rd)))"
proof -
  obtain rd where rd: "reader_sound rd" "rd_options rd = default_Options" "benign_file (rd_file rd)"
    "table_records rd = [record_of sample_record]"
    by (rule sample_reader)
  let ?db = "interrupted_db rd"
  let ?ig = "(new_ImmutableGeneration 1 ''db/1.wal'' sample_memtable)\<lparr>ig_version_published := True\<rparr>"
  have ig: "db_immutable ?db = Some ?ig" "ig_memtable ?ig = sample_memtable" "db_mutable ?db = new_MemTable default_Options"
      "table_versions ?db = [record_of sample_record]"
    by (simp_all add: interrupted_db_def new_ImmutableGeneration_def sample_db_def table_versions_def rd(4))
  have "db_ok ?db"
    using rd benign_honest sample_memtable_wf ig
    by (simp add: db_ok_def db_layers_def immutable_records_def sample_table_Records interrupted_db_def sample_db_def
        sound_tables_def)
  then have adm: "scan_admissible ?db sample_scan"
    by (simp add: scan_admissible_def sample_scan_def bounds_of_def scan_bounds_ok_def range_bounds_def sample_db_def
        interrupted_db_def default_Options_def IsRunningLocked_def)
  have "resume_key (bounds_of sample_scan) (so_continuation_token sample_scan) ?db = Inr []"
    by (simp add: resume_key_def sample_scan_def)
  from Interrupted_flush_blocks_scan [OF adm this ig(1), of "record_of sample_record"] show ?thesis
    using ig rd(4) by (intro exI [of _ rd])
      (simp add: sample_table_Records scan_range_def in_range_def below_def bounds_of_def sample_scan_def range_bounds_def
        record_of_def sample_record_def)
qed

end
