(* ===== verification/Posix.thy ===== *)
theory Posix
  imports FileIO
begin

text \<open>
  The POSIX classes of \<^verbatim>\<open>src/file.cpp\<close> and the lock of \<^verbatim>\<open>src/database_lock.cpp\<close>. The operating
  system is a parameter: for every kind of call a finite script of the answers to come (a result or
  an error number), after which every call succeeds in full, and the texts of \<open>strerror\<close>. What the
  calls do to the file is their documented effect. The classes refine the abstract files of theory
  \<open>FileIO\<close>, on which the rest of the development is built.
\<close>

section \<open>System calls\<close>

datatype SysResult = SysOk nat | SysErr nat

abbreviation EINTR :: nat where "EINTR \<equiv> 4"
abbreviation EAGAIN :: nat where "EAGAIN \<equiv> 11"
abbreviation EWOULDBLOCK :: nat where "EWOULDBLOCK \<equiv> EAGAIN"

text \<open>\<open>ssize_t\<close> and \<open>off_t\<close> have 64 bits.\<close>

abbreviation ssize_max :: nat where "ssize_max \<equiv> 9223372036854775807"
abbreviation off_max :: nat where "off_max \<equiv> 9223372036854775807"

type_synonym errors = "nat \<Rightarrow> string"

definition IOErrorMessage :: "errors \<Rightarrow> string \<Rightarrow> string \<Rightarrow> nat \<Rightarrow> string" where
  "IOErrorMessage strerror operation path error = operation @ '' '' @ quoted path @ '': '' @ strerror error"

text \<open>The loops \<open>do ... while (result < 0 && errno == EINTR)\<close>: an interrupted call has no effect.\<close>

fun until_uninterrupted :: "SysResult list \<Rightarrow> SysResult \<times> SysResult list" where
  "until_uninterrupted [] = (SysOk 0, [])"
| "until_uninterrupted (SysOk n # rest) = (SysOk n, rest)"
| "until_uninterrupted (SysErr e # rest) = (if e = EINTR then until_uninterrupted rest else (SysErr e, rest))"

fun call_status :: "errors \<Rightarrow> string \<Rightarrow> string \<Rightarrow> SysResult \<Rightarrow> status" where
  "call_status strerror operation path (SysOk n) = Ok"
| "call_status strerror operation path (SysErr e) = IOError (IOErrorMessage strerror operation path e)"

section \<open>Files\<close>

text \<open>An open file: its content, what of it is durable, and the answers to the calls on it.\<close>

record PosixFile =
  pf_path :: string
  pf_read_only :: bool
  pf_data :: bytes
  pf_durable :: bytes
  pf_writes :: "SysResult list"
  pf_reads :: "SysResult list"
  pf_stats :: "SysResult list"
  pf_truncates :: "SysResult list"
  pf_syncs :: "SysResult list"

text \<open>
  The four ways of opening. \<open>opens\<close> answers the calls of \<open>open\<close>; \<open>target\<close> is the file that the name
  refers to, an empty one when it is created.
\<close>

definition PosixWritableFile_OpenAppend ::
  "errors \<Rightarrow> string \<Rightarrow> SysResult list \<Rightarrow> PosixFile \<Rightarrow> PosixFile result" where
  "PosixWritableFile_OpenAppend strerror path opens target =
     (if path = [] then Inl (InvalidArgument ''WAL path must not be empty'')
      else case fst (until_uninterrupted opens) of
        SysErr e \<Rightarrow> Inl (IOError (IOErrorMessage strerror ''open'' path e))
      | SysOk _ \<Rightarrow> Inr (target\<lparr>pf_path := path, pf_read_only := False\<rparr>))"

definition PosixWritableFile_OpenTruncate ::
  "errors \<Rightarrow> string \<Rightarrow> SysResult list \<Rightarrow> PosixFile \<Rightarrow> PosixFile result" where
  "PosixWritableFile_OpenTruncate strerror path opens target =
     (if path = [] then Inl (InvalidArgument ''file path must not be empty'')
      else case fst (until_uninterrupted opens) of
        SysErr e \<Rightarrow> Inl (IOError (IOErrorMessage strerror ''open'' path e))
      | SysOk _ \<Rightarrow> Inr (target\<lparr>pf_path := path, pf_read_only := False, pf_data := []\<rparr>))"

definition PosixRecoveryFile_Open ::
  "errors \<Rightarrow> string \<Rightarrow> SysResult list \<Rightarrow> PosixFile \<Rightarrow> PosixFile result" where
  "PosixRecoveryFile_Open strerror path opens target =
     (if path = [] then Inl (InvalidArgument ''recovery file path must not be empty'')
      else case fst (until_uninterrupted opens) of
        SysErr e \<Rightarrow> Inl (IOError (IOErrorMessage strerror ''open'' path e))
      | SysOk _ \<Rightarrow> Inr (target\<lparr>pf_path := path, pf_read_only := False\<rparr>))"

definition PosixRecoveryFile_OpenReadOnly ::
  "errors \<Rightarrow> string \<Rightarrow> SysResult list \<Rightarrow> PosixFile \<Rightarrow> PosixFile result" where
  "PosixRecoveryFile_OpenReadOnly strerror path opens target =
     (if path = [] then Inl (InvalidArgument ''read-only file path must not be empty'')
      else case fst (until_uninterrupted opens) of
        SysErr e \<Rightarrow> Inl (IOError (IOErrorMessage strerror ''open'' path e))
      | SysOk _ \<Rightarrow> Inr (target\<lparr>pf_path := path, pf_read_only := True\<rparr>))"

text \<open>\<open>write\<close> appends what it accepts: the files are opened with \<open>O_APPEND\<close>, or truncated and written once.\<close>

definition sys_write :: "bytes \<Rightarrow> PosixFile \<Rightarrow> SysResult \<times> PosixFile" where
  "sys_write data file =
     (case pf_writes file of
        [] \<Rightarrow> (SysOk (length data), file\<lparr>pf_data := pf_data file @ data\<rparr>)
      | SysOk n # rest \<Rightarrow>
          (SysOk (min n (length data)), file\<lparr>pf_data := pf_data file @ take n data, pf_writes := rest\<rparr>)
      | SysErr e # rest \<Rightarrow> (SysErr e, file\<lparr>pf_writes := rest\<rparr>))"

definition PosixWritableFile_WriteSome :: "errors \<Rightarrow> PosixFile \<Rightarrow> bytes \<Rightarrow> WriteResult \<times> PosixFile" where
  "PosixWritableFile_WriteSome strerror file data =
     (if data = [] then (WriteResult_Written 0, file)
      else let requested = min (length data) ssize_max;
        (result, file') = sys_write (take requested data) file in
      case result of
        SysErr e \<Rightarrow>
          (if e = EINTR then WriteResult_Interrupted
           else WriteResult_Error (IOError (IOErrorMessage strerror ''write'' (pf_path file) e)), file')
      | SysOk n \<Rightarrow> (WriteResult_Written n, file'))"

definition PosixWritableFile_Sync :: "errors \<Rightarrow> PosixFile \<Rightarrow> status \<times> PosixFile" where
  "PosixWritableFile_Sync strerror file =
     (let (result, rest) = until_uninterrupted (pf_syncs file); file = file\<lparr>pf_syncs := rest\<rparr> in
      case result of
        SysErr e \<Rightarrow> (IOError (IOErrorMessage strerror ''fdatasync'' (pf_path file) e), file)
      | SysOk _ \<Rightarrow> (Ok, file\<lparr>pf_durable := pf_data file\<rparr>))"

text \<open>\<open>fstat\<close> reports the length as an \<open>off_t\<close>.\<close>

definition PosixRecoveryFile_Size :: "errors \<Rightarrow> PosixFile \<Rightarrow> nat result \<times> PosixFile" where
  "PosixRecoveryFile_Size strerror file =
     (let (result, rest) = until_uninterrupted (pf_stats file); file = file\<lparr>pf_stats := rest\<rparr>;
        st_size = sint (word_of_nat (length (pf_data file)) :: u64) in
      case result of
        SysErr e \<Rightarrow> (Inl (IOError (IOErrorMessage strerror ''fstat'' (pf_path file) e)), file)
      | SysOk _ \<Rightarrow>
        (if st_size < 0 then Inl (IOError (''fstat returned a negative size for '' @ quoted (pf_path file)))
         else Inr (nat st_size), file))"

definition sys_pread :: "nat \<Rightarrow> nat \<Rightarrow> PosixFile \<Rightarrow> SysResult \<times> bytes \<times> PosixFile" where
  "sys_pread offset count file =
     (let available = take count (drop offset (pf_data file)) in
      case pf_reads file of
        [] \<Rightarrow> (SysOk (length available), available, file)
      | SysOk n # rest \<Rightarrow>
          (SysOk (length (take n available)), take n available, file\<lparr>pf_reads := rest\<rparr>)
      | SysErr e # rest \<Rightarrow> (SysErr e, [], file\<lparr>pf_reads := rest\<rparr>))"

definition PosixRecoveryFile_ReadSome ::
  "errors \<Rightarrow> PosixFile \<Rightarrow> nat \<Rightarrow> nat \<Rightarrow> ReadResult \<times> bytes \<times> PosixFile" where
  "PosixRecoveryFile_ReadSome strerror file offset count =
     (if count = 0 then (ReadResult_Read 0, [], file)
      else if offset > off_max
      then (ReadResult_Error (IOError ''pread offset exceeds off_t range''), [], file)
      else let requested = min count ssize_max; (result, copied, file') = sys_pread offset requested file in
      case result of
        SysErr e \<Rightarrow>
          (if e = EINTR then ReadResult_Interrupted
           else ReadResult_Error (IOError (IOErrorMessage strerror ''pread'' (pf_path file) e)), copied, file')
      | SysOk n \<Rightarrow> (if n = 0 then ReadResult_EndOfFile else ReadResult_Read n, copied, file'))"

text \<open>\<open>ftruncate\<close> cuts the file, or extends it with zeros.\<close>

definition PosixRecoveryFile_Truncate :: "errors \<Rightarrow> PosixFile \<Rightarrow> nat \<Rightarrow> status \<times> PosixFile" where
  "PosixRecoveryFile_Truncate strerror file n =
     (if pf_read_only file then (IOError (''cannot truncate read-only file '' @ quoted (pf_path file)), file)
      else if n > off_max then (IOError ''truncate size exceeds off_t range'', file)
      else let (result, rest) = until_uninterrupted (pf_truncates file); file = file\<lparr>pf_truncates := rest\<rparr> in
      case result of
        SysErr e \<Rightarrow> (IOError (IOErrorMessage strerror ''ftruncate'' (pf_path file) e), file)
      | SysOk _ \<Rightarrow> (Ok, file\<lparr>pf_data := resized n (pf_data file)\<rparr>))"

definition PosixRecoveryFile_Sync :: "errors \<Rightarrow> PosixFile \<Rightarrow> status \<times> PosixFile" where
  "PosixRecoveryFile_Sync strerror file =
     (if pf_read_only file then (IOError (''cannot sync read-only file '' @ quoted (pf_path file)), file)
      else PosixWritableFile_Sync strerror file)"

section \<open>The database lock\<close>

text \<open>
  \<open>held\<close> are the paths on which some open file has the exclusive lock: \<open>flock\<close> without blocking fails
  on them. The second component is what is held afterwards; the descriptor is the object.
\<close>

definition DatabaseLock_Acquire ::
  "errors \<Rightarrow> string \<Rightarrow> SysResult list \<Rightarrow> SysResult list \<Rightarrow> string set \<Rightarrow> nat result \<times> string set" where
  "DatabaseLock_Acquire strerror directory opens flocks held =
     (if directory = [] then (Inl (InvalidArgument ''database lock directory must not be empty''), held)
      else let path = directory @ ''/LOCK'' in
      case fst (until_uninterrupted opens) of
        SysErr e \<Rightarrow> (Inl (IOError (IOErrorMessage strerror ''open lock'' path e)), held)
      | SysOk descriptor \<Rightarrow>
        (case if path \<in> held then SysErr EWOULDBLOCK else fst (until_uninterrupted flocks) of
           SysErr lock_error \<Rightarrow>
             (Inl (if lock_error = EWOULDBLOCK \<or> lock_error = EAGAIN
               then IOError (''database directory is already locked: '' @ quoted path)
               else IOError (IOErrorMessage strerror ''flock'' path lock_error)), held)
         | SysOk _ \<Rightarrow> (Inr descriptor, insert path held)))"

definition DatabaseLock_Release :: "string \<Rightarrow> string set \<Rightarrow> string set" where
  "DatabaseLock_Release directory held = held - {directory @ ''/LOCK''}"

section \<open>The abstract files\<close>

text \<open>
  The abstract file with the same content whose outcomes are those the calls lead to. Calls that
  are retried leave no trace of their interruptions.
\<close>

definition settled_calls :: "SysResult list \<Rightarrow> SysResult list" where
  "settled_calls calls = filter (\<lambda>c. c \<noteq> SysErr EINTR) calls"

fun write_outcome :: "errors \<Rightarrow> string \<Rightarrow> SysResult \<Rightarrow> WriteOutcome" where
  "write_outcome strerror path (SysOk n) = Accepts n"
| "write_outcome strerror path (SysErr e) =
     (if e = EINTR then Interrupts else Fails (IOError (IOErrorMessage strerror ''write'' path e)))"

fun read_outcome :: "errors \<Rightarrow> string \<Rightarrow> SysResult \<Rightarrow> ReadOutcome" where
  "read_outcome strerror path (SysOk n) = (if n = 0 then SignalsEof else Delivers n)"
| "read_outcome strerror path (SysErr e) =
     (if e = EINTR then ReadInterrupts else ReadFails (IOError (IOErrorMessage strerror ''pread'' path e)))"

definition as_writable :: "errors \<Rightarrow> PosixFile \<Rightarrow> WritableFile" where
  "as_writable strerror file =
     \<lparr>wf_name = pf_path file, wf_data = pf_data file, wf_durable = pf_durable file,
      wf_writes = map (write_outcome strerror (pf_path file)) (pf_writes file),
      wf_syncs = map (call_status strerror ''fdatasync'' (pf_path file)) (settled_calls (pf_syncs file))\<rparr>"

definition as_recovery :: "errors \<Rightarrow> PosixFile \<Rightarrow> RecoveryFile" where
  "as_recovery strerror file =
     \<lparr>rf_name = pf_path file, rf_data = pf_data file,
      rf_reads = map (read_outcome strerror (pf_path file)) (pf_reads file),
      rf_sizes = map (call_status strerror ''fstat'' (pf_path file)) (settled_calls (pf_stats file)),
      rf_truncates = map (call_status strerror ''ftruncate'' (pf_path file)) (settled_calls (pf_truncates file)),
      rf_syncs = map (call_status strerror ''fdatasync'' (pf_path file)) (settled_calls (pf_syncs file))\<rparr>"

lemma retried_status:
  assumes "until_uninterrupted calls = (result, rest)"
  shows "next_status (map (call_status strerror op path) (settled_calls calls)) =
    (call_status strerror op path result, map (call_status strerror op path) (settled_calls rest))"
  using assms
  by (induction calls rule: until_uninterrupted.induct) (auto simp: settled_calls_def split: if_splits)

lemma call_status_ok [simp]: "ok (call_status strerror op path r) \<longleftrightarrow> (\<exists>n. r = SysOk n)"
  by (cases r) simp_all

lemma next_status_case: "(case xs of [] \<Rightarrow> f Ok [] | s # rest \<Rightarrow> f s rest) = (let (s, rest) = next_status xs in f s rest)"
  by (cases xs) simp_all

lemma Sync_next: "Sync f = (let (s, rest) = next_status (wf_syncs f) in
    (s, f\<lparr>wf_syncs := rest, wf_durable := (if ok s then wf_data f else wf_durable f)\<rparr>))"
  by (cases f) (simp add: Sync_def split: list.split)

lemma PosixWritableFile_WriteSome_refines:
  assumes "data \<noteq> []" "length data \<le> ssize_max"
  shows "WriteSome (as_writable strerror file) data =
    map_prod id (as_writable strerror) (PosixWritableFile_WriteSome strerror file data)"
  using assms
  by (auto simp: PosixWritableFile_WriteSome_def sys_write_def WriteSome_def as_writable_def Let_def
      split: list.split SysResult.split)

lemma PosixWritableFile_Sync_refines:
  "Sync (as_writable strerror file) = map_prod id (as_writable strerror) (PosixWritableFile_Sync strerror file)"
proof (cases "until_uninterrupted (pf_syncs file)")
  case (Pair r rest)
  then show ?thesis
    using retried_status [OF Pair, of strerror "''fdatasync''" "pf_path file"]
    by (cases r) (simp_all add: Sync_next PosixWritableFile_Sync_def as_writable_def)
qed

lemma PosixRecoveryFile_Size_refines:
  assumes "length (pf_data file) \<le> off_max"
  shows "Size (as_recovery strerror file) = map_prod id (as_recovery strerror) (PosixRecoveryFile_Size strerror file)"
proof (cases "until_uninterrupted (pf_stats file)")
  case (Pair r rest)
  have "sint (word_of_nat (length (pf_data file)) :: u64) = int (length (pf_data file))"
    using assms sint_sbintrunc' [of "int (length (pf_data file))", where 'a = 64]
    by (simp add: signed_take_bit_int_eq_self)
  then show ?thesis
    using retried_status [OF Pair, of strerror "''fstat''" "pf_path file"] Pair
    by (cases r) (simp_all add: Size_def PosixRecoveryFile_Size_def as_recovery_def)
qed

lemma PosixRecoveryFile_ReadSome_refines:
  assumes "0 < count" "count \<le> ssize_max" "offset \<le> off_max"
  shows "ReadSome (as_recovery strerror file) offset count =
    map_prod id (map_prod id (as_recovery strerror)) (PosixRecoveryFile_ReadSome strerror file offset count)"
  using assms
  by (auto simp: PosixRecoveryFile_ReadSome_def sys_pread_def ReadSome_def as_recovery_def Let_def
      split: list.split SysResult.split)

lemma PosixRecoveryFile_Truncate_refines:
  assumes "\<not> pf_read_only file" "n \<le> off_max"
  shows "Truncate (as_recovery strerror file) n =
    map_prod id (as_recovery strerror) (PosixRecoveryFile_Truncate strerror file n)"
proof (cases "until_uninterrupted (pf_truncates file)")
  case (Pair r rest)
  then show ?thesis
    using retried_status [OF Pair, of strerror "''ftruncate''" "pf_path file"] assms
    by (cases r) (simp_all add: Truncate_def PosixRecoveryFile_Truncate_def as_recovery_def)
qed

lemma PosixRecoveryFile_Sync_refines:
  assumes "\<not> pf_read_only file"
  shows "RecoverySync (as_recovery strerror file) =
    map_prod id (as_recovery strerror) (PosixRecoveryFile_Sync strerror file)"
proof (cases "until_uninterrupted (pf_syncs file)")
  case (Pair r rest)
  then show ?thesis
    using retried_status [OF Pair, of strerror "''fdatasync''" "pf_path file"] assms
    by (cases r)
      (simp_all add: RecoverySync_def PosixRecoveryFile_Sync_def PosixWritableFile_Sync_def as_recovery_def)
qed

section \<open>Sequences of calls\<close>

datatype FileCall = CallWrite bytes | CallSync | CallSize | CallRead nat nat | CallTruncate nat

datatype FileAnswer =
    WriteAnswer WriteResult | StatusAnswer status | SizeAnswer "nat result" | ReadAnswer ReadResult bytes

text \<open>A class of files: the virtual calls on its objects. \<open>run_calls\<close> collects the answers of a sequence.\<close>

fun run_calls :: "('f \<Rightarrow> FileCall \<Rightarrow> FileAnswer \<times> 'f) \<Rightarrow> 'f \<Rightarrow> FileCall list \<Rightarrow> FileAnswer list \<times> 'f" where
  "run_calls call f [] = ([], f)"
| "run_calls call f (c # cs) =
     (let (a, f) = call f c; (as, f) = run_calls call f cs in (a # as, f))"

text \<open>Every call of a sequence is within its range in the state it meets.\<close>

fun calls_in_range ::
  "('f \<Rightarrow> FileCall \<Rightarrow> FileAnswer \<times> 'f) \<Rightarrow> ('f \<Rightarrow> FileCall \<Rightarrow> bool) \<Rightarrow> 'f \<Rightarrow> FileCall list \<Rightarrow> bool" where
  "calls_in_range call in_range f [] \<longleftrightarrow> True"
| "calls_in_range call in_range f (c # cs) \<longleftrightarrow>
     in_range f c \<and> calls_in_range call in_range (snd (call f c)) cs"

text \<open>A writable file offers \<open>WriteSome\<close> and \<open>Sync\<close>, a recovery file all calls but \<open>WriteSome\<close>.\<close>

fun writable_call :: "WritableFile \<Rightarrow> FileCall \<Rightarrow> FileAnswer \<times> WritableFile" where
  "writable_call f (CallWrite data) = map_prod WriteAnswer id (WriteSome f data)"
| "writable_call f c = map_prod StatusAnswer id (Sync f)"

fun posix_writable_call :: "errors \<Rightarrow> PosixFile \<Rightarrow> FileCall \<Rightarrow> FileAnswer \<times> PosixFile" where
  "posix_writable_call strerror f (CallWrite data) =
     map_prod WriteAnswer id (PosixWritableFile_WriteSome strerror f data)"
| "posix_writable_call strerror f c = map_prod StatusAnswer id (PosixWritableFile_Sync strerror f)"

fun recovery_call :: "RecoveryFile \<Rightarrow> FileCall \<Rightarrow> FileAnswer \<times> RecoveryFile" where
  "recovery_call f (CallRead offset count) =
     (let (r, bs, f) = ReadSome f offset count in (ReadAnswer r bs, f))"
| "recovery_call f (CallTruncate n) = map_prod StatusAnswer id (Truncate f n)"
| "recovery_call f CallSize = map_prod SizeAnswer id (Size f)"
| "recovery_call f c = map_prod StatusAnswer id (RecoverySync f)"

fun posix_recovery_call :: "errors \<Rightarrow> PosixFile \<Rightarrow> FileCall \<Rightarrow> FileAnswer \<times> PosixFile" where
  "posix_recovery_call strerror f (CallRead offset count) =
     (let (r, bs, f) = PosixRecoveryFile_ReadSome strerror f offset count in (ReadAnswer r bs, f))"
| "posix_recovery_call strerror f (CallTruncate n) = map_prod StatusAnswer id (PosixRecoveryFile_Truncate strerror f n)"
| "posix_recovery_call strerror f CallSize = map_prod SizeAnswer id (PosixRecoveryFile_Size strerror f)"
| "posix_recovery_call strerror f c = map_prod StatusAnswer id (PosixRecoveryFile_Sync strerror f)"

text \<open>
  A refinement of one class by another: while the invariant holds, a call within its range answers
  the same and leads to files that correspond again.
\<close>

locale file_refinement =
  fixes abs_call :: "'a \<Rightarrow> FileCall \<Rightarrow> FileAnswer \<times> 'a"
    and con_call :: "'c \<Rightarrow> FileCall \<Rightarrow> FileAnswer \<times> 'c"
    and abstract :: "'c \<Rightarrow> 'a" and invar :: "'c \<Rightarrow> bool" and in_range :: "'c \<Rightarrow> FileCall \<Rightarrow> bool"
  assumes call_refines: "invar f \<Longrightarrow> in_range f c \<Longrightarrow> abs_call (abstract f) c = map_prod id abstract (con_call f c)"
    and call_invar: "invar f \<Longrightarrow> in_range f c \<Longrightarrow> invar (snd (con_call f c))"
begin

lemma run_refines:
  "invar f \<Longrightarrow> calls_in_range con_call in_range f cs \<Longrightarrow>
     run_calls abs_call (abstract f) cs = map_prod id abstract (run_calls con_call f cs)"
proof (induction cs arbitrary: f)
  case (Cons c cs)
  obtain a g where "con_call f c = (a, g)"
    by force
  then show ?case
    using call_refines [of f c] call_invar [of f c] Cons by (simp split: prod.split)
qed simp

end

text \<open>
  What a call may ask for. The loops of theory \<open>FileIO\<close> transfer at least one byte at a time; a call
  takes at most \<open>ssize_max\<close> bytes, and offsets and lengths are within \<open>off_t\<close>. A file opened read-only
  is only read and measured: it refuses to be truncated or synced.
\<close>

fun writable_range :: "PosixFile \<Rightarrow> FileCall \<Rightarrow> bool" where
  "writable_range f (CallWrite data) \<longleftrightarrow> data \<noteq> [] \<and> length data \<le> ssize_max"
| "writable_range f c \<longleftrightarrow> c = CallSync"

fun recovery_range :: "PosixFile \<Rightarrow> FileCall \<Rightarrow> bool" where
  "recovery_range f (CallWrite data) \<longleftrightarrow> False"
| "recovery_range f (CallRead offset count) \<longleftrightarrow> 0 < count \<and> count \<le> ssize_max \<and> offset \<le> off_max"
| "recovery_range f (CallTruncate n) \<longleftrightarrow> \<not> pf_read_only f \<and> n \<le> off_max"
| "recovery_range f CallSync \<longleftrightarrow> \<not> pf_read_only f"
| "recovery_range f CallSize \<longleftrightarrow> True"

definition recovery_file_ok :: "PosixFile \<Rightarrow> bool" where
  "recovery_file_ok f \<longleftrightarrow> length (pf_data f) \<le> off_max"

lemma posix_recovery_call_ok:
  assumes "recovery_file_ok f" and "recovery_range f c"
  shows "recovery_file_ok (snd (posix_recovery_call strerror f c))"
  using assms
  by (cases c)
    (auto simp: recovery_file_ok_def resized_def PosixRecoveryFile_ReadSome_def sys_pread_def PosixRecoveryFile_Truncate_def
      PosixRecoveryFile_Size_def PosixRecoveryFile_Sync_def PosixWritableFile_Sync_def Let_def
      split: prod.split list.split SysResult.split)

interpretation posix_writable: file_refinement writable_call "posix_writable_call strerror" "as_writable strerror"
    "\<lambda>_. True" writable_range for strerror
proof
  fix f c
  assume "writable_range f c"
  then show "writable_call (as_writable strerror f) c =
      map_prod id (as_writable strerror) (posix_writable_call strerror f c)"
    using PosixWritableFile_Sync_refines [of strerror f] PosixWritableFile_WriteSome_refines [of _ strerror f]
    by (cases c) (simp_all add: prod.map_comp comp_def map_prod_def split_beta)
qed simp

interpretation posix_recovery: file_refinement recovery_call "posix_recovery_call strerror" "as_recovery strerror"
    recovery_file_ok recovery_range for strerror
proof
  fix f c
  assume f: "recovery_file_ok f" and c: "recovery_range f c"
  show "recovery_call (as_recovery strerror f) c =
      map_prod id (as_recovery strerror) (posix_recovery_call strerror f c)"
    using f c PosixRecoveryFile_Size_refines [of f strerror] PosixRecoveryFile_ReadSome_refines [of _ _ strerror f]
      PosixRecoveryFile_Truncate_refines [of f _ strerror] PosixRecoveryFile_Sync_refines [of f strerror]
    by (cases c) (simp_all add: recovery_file_ok_def prod.map_comp comp_def map_prod_def split_beta)
qed (rule posix_recovery_call_ok)

section \<open>Properties\<close>

text \<open>
  C36. The POSIX files behave as the abstract ones the rest of the development is built on: every
  sequence of reads, truncations, size queries and syncs on a recovery file, and every sequence of
  writes and syncs on a file opened for writing, has the answers of the abstract file with the
  outcomes its system calls lead to, interrupted calls being retried where the code does, and leaves
  the abstract file of the final state. The calls are those the ranges above allow: reads and writes
  of at least one and at most \<open>ssize_max\<close> bytes, offsets, new lengths and the initial length within
  \<open>off_t\<close>, truncations down or up, and truncation and sync only when the file is not read-only. A
  read-only file refuses both and stays as it is.
\<close>

theorem Posix_files_refine:
  assumes "length (pf_data f) \<le> off_max" and "calls_in_range (posix_recovery_call strerror) recovery_range f cs"
    and "calls_in_range (posix_writable_call strerror) writable_range g ds" and "pf_read_only h"
  shows "run_calls recovery_call (as_recovery strerror f) cs =
      map_prod id (as_recovery strerror) (run_calls (posix_recovery_call strerror) f cs) \<and>
    run_calls writable_call (as_writable strerror g) ds =
      map_prod id (as_writable strerror) (run_calls (posix_writable_call strerror) g ds) \<and>
    (\<exists>s. PosixRecoveryFile_Truncate strerror h n = (s, h) \<and> \<not> ok s) \<and>
    (\<exists>s. PosixRecoveryFile_Sync strerror h = (s, h) \<and> \<not> ok s)"
proof -
  have "recovery_file_ok f"
    using assms(1) by (simp add: recovery_file_ok_def)
  then show ?thesis
    using posix_recovery.run_refines [OF _ assms(2)] posix_writable.run_refines [OF TrueI assms(3)] assms(4)
    by (simp add: PosixRecoveryFile_Truncate_def PosixRecoveryFile_Sync_def)
qed

definition sample_posix :: PosixFile where
  "sample_posix = \<lparr>pf_path = ''wal'', pf_read_only = False, pf_data = [1, 2, 3, 4], pf_durable = [1],
     pf_writes = [SysErr EINTR, SysOk 1], pf_reads = [SysErr EINTR, SysOk 2], pf_stats = [],
     pf_truncates = [SysErr EINTR], pf_syncs = [SysErr EINTR, SysErr 5]\<rparr>"

theorem Posix_files_refine_witness:
  "fst (run_calls recovery_call (as_recovery (\<lambda>_. ''I/O'') sample_posix) [CallRead 1 3, CallRead 1 3, CallTruncate 5, CallSync]) =
     [ReadAnswer ReadResult_Interrupted [], ReadAnswer (ReadResult_Read 2) [2, 3], StatusAnswer Ok,
      StatusAnswer (IOError ''fdatasync 'wal': I/O'')] \<and>
   wf_data (snd (run_calls writable_call (as_writable (\<lambda>_. ''I/O'') sample_posix) [CallWrite [5, 6], CallWrite [5, 6]])) =
     [1, 2, 3, 4, 5]"
  using Posix_files_refine [of sample_posix "\<lambda>_. ''I/O''" "[CallRead 1 3, CallRead 1 3, CallTruncate 5, CallSync]"
      sample_posix "[CallWrite [5, 6], CallWrite [5, 6]]" "sample_posix\<lparr>pf_read_only := True\<rparr>"]
  by (simp add: sample_posix_def resized_def PosixRecoveryFile_ReadSome_def sys_pread_def
      PosixRecoveryFile_Truncate_def PosixRecoveryFile_Sync_def PosixWritableFile_Sync_def
      PosixWritableFile_WriteSome_def sys_write_def IOErrorMessage_def quoted_def as_writable_def numeral_2_eq_2)

text \<open>The lock is exclusive until it is released.\<close>

lemma DatabaseLock_exclusive:
  assumes "DatabaseLock_Acquire strerror directory opens flocks held = (Inr d, held')"
  shows "\<exists>s. DatabaseLock_Acquire strerror directory opens' flocks' held' = (Inl s, held') \<and> \<not> ok s"
    and "directory @ ''/LOCK'' \<notin> held" and "DatabaseLock_Release directory held' = held"
  using assms
  by (auto simp: DatabaseLock_Acquire_def DatabaseLock_Release_def Let_def split: SysResult.splits if_splits)

end
