(* ===== verification/DatabaseOpen.thy ===== *)
theory DatabaseOpen
  imports DatabaseWrite Recovery Posix
begin

text \<open>
  \<open>Database::OpenWithEnvironment\<close> of \<^verbatim>\<open>src/database.cpp\<close>: the directory is created, locked and
  listed, the manifest loaded or published, the tables opened and compared with it, left-over files
  removed, the logs recovered, and the active log opened.

  What the operating system answers in the course of it is a record of parameters: the standard
  library's directory operations, the calls behind the lock, the outcomes of the files opened for
  recovery, and whether a thread can be started.
\<close>

section \<open>The surroundings\<close>

text \<open>
  What is known of an entry when it is inspected: that it is a regular file, that it is something
  else, or that its status cannot be read, with the message of the error. The listing ends with the
  entries or with an error of the iteration.
\<close>

datatype EntryKind = RegularFile | OtherEntry | StatusFails string

text \<open>For a file opened for recovery: the status of the open and the outcomes of the calls on it.\<close>

type_synonym RecoveryScript = "status \<times> ReadOutcome list \<times> status list \<times> status list \<times> status list"

record OpenSystem =
  sys_created :: "string + bool"
  sys_is_directory :: bool
  sys_lock_opens :: "SysResult list"
  sys_flocks :: "SysResult list"
  sys_entries :: "(string \<times> EntryKind) list"
  sys_iteration_error :: "string option"
  sys_recoveries :: "RecoveryScript list"
  sys_thread_error :: "string option"

record DatabaseOpenResult =
  tables_loaded :: nat
  wals_recovered :: nat
  obsolete_wals_removed :: nat
  orphan_files_removed :: nat
  or_max_sequence :: u64
  active_generation :: u64
  or_version_id :: u64
  storage_format_version :: u8

definition open_arguments_bad :: "string \<Rightarrow> Options \<Rightarrow> bool" where
  "open_arguments_bad directory options \<longleftrightarrow>
     directory = [] \<or> memtable_size_limit options = 0 \<or> compaction_output_size_limit options = 0 \<or>
     level0_compaction_trigger options = 0 \<or> maximum_scan_entries options = 0 \<or>
     maximum_scan_entries options \<ge> u32_max \<or> max_key_size options = 0 \<or> max_key_size options > u32_max \<or>
     max_value_size options > u32_max \<or> max_value_size options > u32_max - kWalHeaderSize \<or>
     max_key_size options > u32_max - kWalHeaderSize - max_value_size options \<or>
     sstable_block_size options < kTableBlockHeaderSize + kWalHeaderSize \<or>
     sstable_block_size options > u32_max - kTableBlockHeaderSize \<or>
     bad_rate (bloom_false_positive_rate options)"

text \<open>
  The sync of a created directory is one of its parent, whose entries the environment does not hold.
\<close>

definition SyncParent :: "Env \<Rightarrow> status \<times> Env" where
  "SyncParent env = (let (s, rest) = next_status (env_dirsyncs env) in (s, env\<lparr>env_dirsyncs := rest\<rparr>))"

definition prepare_directory :: "OpenSystem \<Rightarrow> string \<Rightarrow> Env \<Rightarrow> status \<times> Env" where
  "prepare_directory sys directory env =
     (case sys_created sys of
        Inl msg \<Rightarrow> (IOError (''create database directory '' @ quoted directory @ '': '' @ msg), env)
      | Inr created \<Rightarrow>
        if \<not> sys_is_directory sys then (IOError (''database path is not a directory: '' @ quoted directory), env)
        else if created then SyncParent env else (Ok, env))"

section \<open>The listing\<close>

text \<open>The \<open>std::map\<close>s from generations to paths are association lists in the order of the keys.\<close>

record Listing =
  ls_manifest :: bool
  ls_tables :: "(u64 \<times> string) list"
  ls_wals :: "(u64 \<times> string) list"
  ls_temporaries :: "string list"

definition classify_entry :: "string \<Rightarrow> Listing \<Rightarrow> string \<Rightarrow> Listing" where
  "classify_entry directory ls name =
     (if name = kManifestFileName then ls\<lparr>ls_manifest := True\<rparr>
     else case ParseGenerationFile name ''sst'' of
       Some generation \<Rightarrow> ls\<lparr>ls_tables := map_emplace generation (JoinPath directory name) (ls_tables ls)\<rparr>
     | None \<Rightarrow>
       (case ParseGenerationFile name ''wal'' of
          Some generation \<Rightarrow> ls\<lparr>ls_wals := map_emplace generation (JoinPath directory name) (ls_wals ls)\<rparr>
        | None \<Rightarrow>
          if IsStorageTemporaryFile name
          then ls\<lparr>ls_temporaries := ls_temporaries ls @ [JoinPath directory name]\<rparr> else ls))"

text \<open>
  The calls of the standard library leave their error in the variable \<open>filesystem_error\<close>, or clear it:
  \<open>is_regular_file\<close> answers no with an error when the status cannot be read; \<open>increment\<close> moves to the
  next entry, or to the end with the error of the iteration, if there is one.
\<close>

fun is_regular_file :: "EntryKind \<Rightarrow> bool \<times> string option" where
  "is_regular_file RegularFile = (True, None)"
| "is_regular_file OtherEntry = (False, None)"
| "is_regular_file (StatusFails msg) = (False, Some msg)"

definition iterator_error :: "string option \<Rightarrow> 'a list \<Rightarrow> string option" where
  "iterator_error iteration_error rest = (if rest = [] then iteration_error else None)"

fun increment :: "string option \<Rightarrow> 'a list \<Rightarrow> string option \<Rightarrow> 'a list \<times> string option" where
  "increment iteration_error [] filesystem_error = ([], filesystem_error)"
| "increment iteration_error (e # rest) filesystem_error = (rest, iterator_error iteration_error rest)"

lemma increment_shorter: "(es', err') = increment x es err \<Longrightarrow> es \<noteq> [] \<Longrightarrow> length es' < length es"
  by (cases es) auto

function scan_entries ::
  "string \<Rightarrow> string option \<Rightarrow> (string \<times> EntryKind) list \<Rightarrow> string option \<Rightarrow> Listing \<Rightarrow> Listing \<times> string option" where
  "scan_entries directory iteration_error iterator filesystem_error ls =
     (if filesystem_error = None \<and> iterator \<noteq> [] then
        let (name, kind) = hd iterator;
            (regular, filesystem_error) = is_regular_file kind;
            ls = (if regular then classify_entry directory ls name else ls);
            (iterator, filesystem_error) = increment iteration_error iterator filesystem_error
        in scan_entries directory iteration_error iterator filesystem_error ls
      else (ls, filesystem_error))"
  by auto

termination
  by (relation "measure (\<lambda>(d, x, es, err, ls). length es)") (auto dest: increment_shorter)

declare scan_entries.simps [simp del]

definition list_directory :: "OpenSystem \<Rightarrow> string \<Rightarrow> Listing result" where
  "list_directory sys directory =
     (let (ls, filesystem_error) = scan_entries directory (sys_iteration_error sys) (sys_entries sys)
            (iterator_error (sys_iteration_error sys) (sys_entries sys))
            \<lparr>ls_manifest = False, ls_tables = [], ls_wals = [], ls_temporaries = []\<rparr> in
      case filesystem_error of
        Some msg \<Rightarrow> Inl (IOError (''scan database directory '' @ quoted directory @ '': '' @ msg))
      | None \<Rightarrow> Inr ls)"

text \<open>
  The loop passes over every entry, and only an error of the iteration is left at its end: the error
  of an entry that cannot be inspected is gone after the \<open>increment\<close> that follows.
\<close>

lemma scan_entries_all:
  "scan_entries directory x es (iterator_error x es) ls =
     (foldl (classify_entry directory) ls (map fst (filter (\<lambda>e. snd e = RegularFile) es)), x)"
proof (induction es arbitrary: ls)
  case Nil
  show ?case
    by (subst scan_entries.simps) (simp add: iterator_error_def)
next
  case (Cons e es)
  obtain name kind where e: "e = (name, kind)"
    by force
  have "iterator_error x (e # es) = None"
    by (simp add: iterator_error_def)
  then show ?case
    by (subst scan_entries.simps) (cases kind; simp add: e Cons.IH)
qed

lemma list_directory_regular:
  "list_directory sys directory =
     (case sys_iteration_error sys of
        Some msg \<Rightarrow> Inl (IOError (''scan database directory '' @ quoted directory @ '': '' @ msg))
      | None \<Rightarrow> Inr (foldl (classify_entry directory)
          \<lparr>ls_manifest = False, ls_tables = [], ls_wals = [], ls_temporaries = []\<rparr>
          (map fst (filter (\<lambda>e. snd e = RegularFile) (sys_entries sys)))))"
  unfolding list_directory_def scan_entries_all Let_def prod.case ..

section \<open>The version and its tables\<close>

definition load_version :: "string \<Rightarrow> Options \<Rightarrow> Listing \<Rightarrow> Env \<Rightarrow> Version result \<times> Env" where
  "load_version directory options ls env =
     (if \<not> ls_manifest ls then
        if ls_tables ls \<noteq> [] \<or> ls_wals ls \<noteq> []
        then (Inl (VersionMismatch ''database contains legacy files but no supported MANIFEST''), env)
        else let (s, env) = PublishManifest directory NewDatabase options env in
          (if \<not> ok s then Inl s else Inr NewDatabase, env)
      else let (opened, env) = OpenReadOnly (JoinPath directory kManifestFileName) env in
        (LoadManifest directory options opened, env))"

fun open_tables :: "Options \<Rightarrow> (u64 \<times> string) list \<Rightarrow> VersionTable list \<Rightarrow> Env \<Rightarrow> SSTableReader list result \<times> Env" where
  "open_tables options table_paths [] env = (Inr [], env)"
| "open_tables options table_paths (expected # rest) env =
     (case map_of table_paths (table_generation expected) of
        None \<Rightarrow>
          (Inl (DatabaseCorruption (''MANIFEST references missing table '' @
             GenerationFileName (table_generation expected) ''sst'')), env)
      | Some path \<Rightarrow>
        (let (opened, env) = OpenReadOnly path env in
         case SSTableReader_Open opened path options of
           Inl s \<Rightarrow> (Inl s, env)
         | Inr table \<Rightarrow>
           if \<not> ManifestMetadataMatches (vt_metadata expected) (rd_metadata table)
           then (Inl (DatabaseCorruption (''MANIFEST and SSTable metadata disagree for file '' @
             to_string (unat (table_generation expected)))), env)
           else let (r, env) = open_tables options table_paths rest env in
             (and_then r (\<lambda>tables. Inr (table # tables)), env)))"

section \<open>Left-over files\<close>

definition orphan_paths :: "Listing \<Rightarrow> Version \<Rightarrow> string list" where
  "orphan_paths ls version =
     ls_temporaries ls @
     map snd (filter (\<lambda>(generation, path). generation \<notin> table_generation ` set (version_tables version)) (ls_tables ls))"

text \<open>The loop over the logs: how many were removed, and those that are still to be recovered.\<close>

fun sort_wals :: "u64 \<Rightarrow> (u64 \<times> string) list \<Rightarrow> Env \<Rightarrow> (nat \<times> (u64 \<times> string) list) result \<times> Env" where
  "sort_wals frontier [] env = (Inr (0, []), env)"
| "sort_wals frontier ((generation, path) # rest) env =
     (if generation < frontier then
        let (s, env) = RemoveFile path env in
        if \<not> ok s then (Inl s, env)
        else let (r, env) = sort_wals frontier rest env in
          (and_then r (\<lambda>(n, unmatched). Inr (n + 1, unmatched)), env)
      else if generation = frontier \<or> frontier \<noteq> - 1 \<and> generation = frontier + 1 then
        let (r, env) = sort_wals frontier rest env in
        (and_then r (\<lambda>(n, unmatched). Inr (n, (generation, path) # unmatched)), env)
      else (Inl (DatabaseCorruption ''WAL file number is ahead of the MANIFEST frontier''), env))"

definition remove_files :: "Listing \<Rightarrow> Version \<Rightarrow> Env \<Rightarrow> (nat \<times> nat \<times> (u64 \<times> string) list) result \<times> Env" where
  "remove_files ls version env =
     (let (orphans, s, env) = remove_paths (orphan_paths ls version) env in
      if \<not> ok s then (Inl s, env)
      else case sort_wals (next_file_number version) (ls_wals ls) env of
        (Inl s, env) \<Rightarrow> (Inl s, env)
      | (Inr (obsolete, unmatched), env) \<Rightarrow>
        (let (s, env) = (if orphans \<noteq> 0 \<or> obsolete \<noteq> 0 then SyncDirectory env else (Ok, env)) in
         if \<not> ok s then (Inl s, env)
         else if length unmatched > 2
         then (Inl (DatabaseCorruption ''too many unflushed WAL generations exist''), env)
         else if length unmatched = 2 \<and> (fst (unmatched ! 0) \<noteq> next_file_number version \<or>
           fst (unmatched ! 1) \<noteq> next_file_number version + 1)
         then (Inl (DatabaseCorruption ''unflushed WAL generations are not consecutive''), env)
         else (Inr (orphans, obsolete, unmatched), env)))"

section \<open>The logs\<close>

text \<open>
  \<open>PosixRecoveryFile::Open\<close> on a file of the directory. Closing it puts its content back: a cut that
  recovery has synced is durable.
\<close>

definition OpenRecovery ::
  "string \<Rightarrow> RecoveryScript \<Rightarrow> Env \<Rightarrow>
     (nat \<times> RecoveryFile) result \<times> Env" where
  "OpenRecovery path = (\<lambda>(s, reads, sizes, truncates, syncs) env.
     if path = [] then (Inl (InvalidArgument ''recovery file path must not be empty''), env)
     else if \<not> ok s then (Inl s, env)
     else let
       (i, env) = (case env_names env path of
           Some i \<Rightarrow> (i, env)
         | None \<Rightarrow>
           (env_next env, env\<lparr>env_names := (env_names env)(path \<mapsto> env_next env),
              env_inodes := (env_inodes env)(env_next env := \<lparr>wf_name = path, wf_data = [], wf_durable = [],
                wf_writes = [], wf_syncs = []\<rparr>),
              env_next := env_next env + 1\<rparr>))
     in (Inr (i, \<lparr>rf_name = path, rf_data = wf_data (env_inodes env i), rf_reads = reads, rf_sizes = sizes,
                 rf_truncates = truncates, rf_syncs = syncs\<rparr>), env))"

definition CloseRecovery :: "nat \<Rightarrow> RecoveryFile \<Rightarrow> bool \<Rightarrow> Env \<Rightarrow> Env" where
  "CloseRecovery i f synced env =
     (let inode = env_inodes env i in
      env\<lparr>env_inodes := (env_inodes env)(i := inode\<lparr>wf_data := rf_data f,
        wf_durable := (if synced then rf_data f else take (length (rf_data f)) (wf_durable inode))\<rparr>)\<rparr>)"

definition recover_file ::
  "string \<Rightarrow> Options \<Rightarrow> RecoveryScript \<Rightarrow> Env \<Rightarrow>
     (MemTable \<times> WalRecoveryResult) result \<times> Env" where
  "recover_file path options script env =
     (case OpenRecovery path script env of
        (Inl s, env) \<Rightarrow> (Inl s, env)
      | (Inr (i, f), env) \<Rightarrow>
        (let (f, r) = RecoverWal f options;
           synced = (case r of Inl _ \<Rightarrow> False | Inr (_, res) \<Rightarrow> tail_truncated res)
         in (r, CloseRecovery i f synced env)))"

text \<open>The local variables of the recovery loop.\<close>

record OpenState =
  os_mutable :: MemTable
  os_immutable :: "ImmutableGeneration option"
  os_generation :: u64
  os_last_sequence :: u64
  os_previous :: u64
  os_wals_recovered :: nat

definition new_OpenState :: "Options \<Rightarrow> Version \<Rightarrow> OpenState" where
  "new_OpenState options version =
     \<lparr>os_mutable = new_MemTable options, os_immutable = None, os_generation = next_file_number version,
      os_last_sequence = last_sequence version, os_previous = last_sequence version, os_wals_recovered = 0\<rparr>"

definition next_recovery ::
  "RecoveryScript list \<Rightarrow> RecoveryScript \<times> RecoveryScript list" where
  "next_recovery scripts = (case scripts of [] \<Rightarrow> ((Ok, [], [], [], []), []) | x # rest \<Rightarrow> (x, rest))"

text \<open>\<open>is_immutable\<close>: the log is the first of two.\<close>

definition adopt_recovered ::
  "bool \<Rightarrow> u64 \<Rightarrow> string \<Rightarrow> MemTable \<Rightarrow> WalRecoveryResult \<Rightarrow> OpenState \<Rightarrow> OpenState result" where
  "adopt_recovered is_immutable generation path recovered res st =
     (if records_recovered res \<noteq> 0 \<and> min_sequence res \<le> os_previous st
      then Inl (DatabaseCorruption ''WAL sequence range overlaps an older durable generation'')
      else let st = st\<lparr>os_last_sequence := max (os_last_sequence st) (max_sequence res),
          os_previous := max_sequence res, os_wals_recovered := os_wals_recovered st + 1\<rparr> in
      if is_immutable then
        if MemTable_empty recovered
        then Inl (DatabaseCorruption ''an Immutable WAL generation must not be empty'')
        else Inr (st\<lparr>os_immutable := Some (new_ImmutableGeneration generation path recovered)\<rparr>)
      else Inr (st\<lparr>os_generation := generation, os_mutable := recovered\<rparr>))"

fun recover_wals ::
  "Options \<Rightarrow> bool \<Rightarrow> (u64 \<times> string) list \<Rightarrow> RecoveryScript list \<Rightarrow> OpenState \<Rightarrow> Env \<Rightarrow>
     OpenState result \<times> Env" where
  "recover_wals options is_immutable [] scripts st env = (Inr st, env)"
| "recover_wals options is_immutable ((generation, path) # rest) scripts st env =
     (let (script, scripts) = next_recovery scripts in
      case recover_file path options script env of
        (Inl s, env) \<Rightarrow> (Inl s, env)
      | (Inr (recovered, res), env) \<Rightarrow>
        (case adopt_recovered is_immutable generation path recovered res st of
           Inl s \<Rightarrow> (Inl s, env)
         | Inr st \<Rightarrow> recover_wals options False rest scripts st env))"

section \<open>The database\<close>

definition new_Database ::
  "string \<Rightarrow> Options \<Rightarrow> Env \<Rightarrow> OpenState \<Rightarrow> nat \<times> WalWriter \<Rightarrow> SSTableReader list \<Rightarrow> Version \<Rightarrow> Database" where
  "new_Database directory options env st wal tables version =
     \<lparr>db_directory = directory, db_options = options, db_environment = env, db_version = version,
      db_mutable = os_mutable st, db_mutable_generation = os_generation st, db_wal = Some wal,
      db_immutable = os_immutable st, db_compaction = None, db_tables = tables,
      db_last_sequence = os_last_sequence st, db_read_statistics = empty_DatabaseReadStats,
      db_last_compaction_statistics = empty_CompactionStats, db_status = Ok, db_background_status = Ok,
      db_close_status = Ok, db_state = kRunning, db_background_work_requested = False,
      db_background_work_running = False, db_stop_background = False,
      db_background_statistics = empty_BackgroundMaintenanceStats\<rparr>"

definition StartBackgroundWorker :: "OpenSystem \<Rightarrow> Database \<Rightarrow> Database \<times> status" where
  "StartBackgroundWorker sys db =
     (if \<not> background_maintenance (db_options db) then (db, Ok)
      else let db = (if db_immutable db \<noteq> None then db\<lparr>db_background_work_requested := True,
          db_background_statistics := (db_background_statistics db)\<lparr>work_scheduled := True\<rparr>\<rparr> else db) in
      case sys_thread_error sys of
        Some msg \<Rightarrow> (db, IOError (''start database background worker: '' @ msg))
      | None \<Rightarrow> (db, Ok))"

text \<open>From the recovered logs to the object; when no thread can be started, the object is destroyed, which closes it.\<close>

definition finish_open ::
  "FloatMath \<Rightarrow> OpenSystem \<Rightarrow> string \<Rightarrow> Options \<Rightarrow> Version \<Rightarrow> SSTableReader list \<Rightarrow> nat \<Rightarrow> nat \<Rightarrow> OpenState \<Rightarrow> Env \<Rightarrow>
     (Database \<times> DatabaseOpenResult) result \<times> Env" where
  "finish_open fm sys directory options version tables orphans obsolete st env =
     (let (opened, env) = open_wal (JoinPath directory (GenerationFileName (os_generation st) ''wal'')) options env in
      case opened of
        Inl s \<Rightarrow> (Inl s, env)
      | Inr wal \<Rightarrow>
        (let (s, env) = SyncDirectory env in
         if \<not> ok s then (Inl s, env)
         else let
           db = new_Database directory options env st wal tables version;
           res = \<lparr>tables_loaded = length tables, wals_recovered = os_wals_recovered st,
             obsolete_wals_removed = obsolete, orphan_files_removed = orphans,
             or_max_sequence = os_last_sequence st, active_generation = os_generation st,
             or_version_id = version_id version, storage_format_version = kStorageFormatVersion\<rparr>;
           (db, s) = StartBackgroundWorker sys db
         in if \<not> ok s then (Inl s, db_environment (fst (Database_Close fm db)))
         else (Inr (db, res), db_environment db)))"

definition open_locked ::
  "FloatMath \<Rightarrow> OpenSystem \<Rightarrow> string \<Rightarrow> Options \<Rightarrow> Env \<Rightarrow> (Database \<times> DatabaseOpenResult) result \<times> Env" where
  "open_locked fm sys directory options env =
     (case list_directory sys directory of
        Inl s \<Rightarrow> (Inl s, env)
      | Inr ls \<Rightarrow>
        (case load_version directory options ls env of
           (Inl s, env) \<Rightarrow> (Inl s, env)
         | (Inr version, env) \<Rightarrow>
           (case open_tables options (ls_tables ls) (version_tables version) env of
              (Inl s, env) \<Rightarrow> (Inl s, env)
            | (Inr tables, env) \<Rightarrow>
              (case remove_files ls version env of
                 (Inl s, env) \<Rightarrow> (Inl s, env)
               | (Inr (orphans, obsolete, unmatched), env) \<Rightarrow>
                 (case recover_wals options (length unmatched = 2) unmatched (sys_recoveries sys)
                     (new_OpenState options version) env of
                    (Inl s, env) \<Rightarrow> (Inl s, env)
                  | (Inr st, env) \<Rightarrow>
                    finish_open fm sys directory options version tables orphans obsolete st env)))))"

text \<open>
  The lock is held by the database; when opening fails, it is released with the lock object.
  \<open>held\<close> are the locks of the system before and after.
\<close>

definition OpenWithEnvironment ::
  "errors \<Rightarrow> FloatMath \<Rightarrow> OpenSystem \<Rightarrow> string \<Rightarrow> Options \<Rightarrow> string set \<Rightarrow> Env \<Rightarrow>
     (Database \<times> DatabaseOpenResult) result \<times> string set \<times> Env" where
  "OpenWithEnvironment strerror fm sys directory options held env =
     (if open_arguments_bad directory options
      then (Inl (InvalidArgument ''database requires a directory, environment, and valid size limits''), held, env)
      else let (s, env) = prepare_directory sys directory env in
      if \<not> ok s then (Inl s, held, env)
      else case DatabaseLock_Acquire strerror directory (sys_lock_opens sys) (sys_flocks sys) held of
        (Inl s, held) \<Rightarrow> (Inl s, held, env)
      | (Inr lock, held) \<Rightarrow>
        (let (r, env) = open_locked fm sys directory options env in
         (r, case r of Inl _ \<Rightarrow> DatabaseLock_Release directory held | Inr _ \<Rightarrow> held, env)))"

end
