(* ===== verification/DatabaseReopen.thy ===== *)
theory DatabaseReopen
  imports DatabaseSpec DatabaseOpen
begin

text \<open>
  What opening establishes. Whatever the directory holds and whatever fails on the way, a database
  that comes out of a successful \<open>Open\<close> satisfies the invariant of theory \<open>DatabaseInv\<close>, provided
  that the tables the manifest lists do not store a version twice: the layers are in order because
  \<open>Open\<close> compares the logs with the sequence frontier of the manifest.
\<close>

section \<open>The directory stays in order\<close>

lemma SyncParent_same: "SyncParent env = (s, env') \<Longrightarrow> same_dir env env' \<and> env_opens env' = env_opens env"
  by (auto simp: SyncParent_def same_dir_def split: prod.splits)

lemma prepare_directory_same:
  "prepare_directory sys directory env = (s, env') \<Longrightarrow> same_dir env env' \<and> env_opens env' = env_opens env"
  by (auto simp: prepare_directory_def split: sum.splits if_splits dest: SyncParent_same)

lemma env_ok_same: "same_dir env env' \<Longrightarrow> env_opens env' = env_opens env \<Longrightarrow> env_ok env' = env_ok env"
  using env_wf_same [of env env'] honest_opens_cong [of env' env] by (simp add: env_ok_def)

lemma OpenReadOnly_env_ok: "OpenReadOnly path env = (r, env') \<Longrightarrow> env_ok env \<Longrightarrow> env_ok env'"
  using OpenReadOnly_honest(1) [of path env r env'] env_wf_same [OF OpenReadOnly_frame(1), of path env r env']
  by (simp add: env_ok_def)

lemma load_version_env_ok: "load_version directory options ls env = (r, env') \<Longrightarrow> env_ok env \<Longrightarrow> env_ok env'"
  by (auto simp: load_version_def Let_def split: if_splits prod.splits dest: env_ok_frame OpenReadOnly_env_ok)

lemma sort_wals_env_ok: "sort_wals n ws env = (r, env') \<Longrightarrow> env_ok env \<Longrightarrow> env_ok env'"
proof (induction n ws env arbitrary: r env' rule: sort_wals.induct)
  case (2 n g p ws env)
  show ?case
  proof (cases "g < n")
    case True
    obtain s e where e: "RemoveFile p env = (s, e)"
      by force
    show ?thesis
      using "2.IH"(1) [OF True e [symmetric] refl] "2.prems" True e env_ok_frame(2) [OF e]
      by (cases "ok s") (auto split: prod.splits)
  qed (use 2 in \<open>auto split: if_splits prod.splits\<close>)
qed simp

lemma remove_files_env_ok: "remove_files ls v env = (r, env') \<Longrightarrow> env_ok env \<Longrightarrow> env_ok env'"
  by (auto simp: remove_files_def Let_def split: if_splits prod.splits sum.splits
      dest!: remove_paths_ok sort_wals_env_ok dest: env_ok_frame)

lemma OpenRecovery_env_ok:
  assumes "OpenRecovery path script env = (r, env')" and "env_ok env"
  shows "env_ok env'"
    and "r = Inr (i, f) \<Longrightarrow> wal_device.device_ok (env_inodes env' i) \<and> rf_data f = wf_data (env_inodes env' i)"
  using assms
  by (auto simp: OpenRecovery_def env_ok_def env_wf_def honest_opens_def wal_device.device_ok_def Let_def less_Suc_eq
      split: prod.splits if_splits option.splits)

lemma device_ok_cut:
  assumes "wal_device.device_ok f" and "wf_data f = bs @ rest"
  shows "wal_device.device_ok (f\<lparr>wf_data := bs, wf_durable := (if b then bs else take (length bs) (wf_durable f))\<rparr>)"
proof -
  obtain n where n: "wf_durable f = take n (wf_data f)"
    using assms(1) by (auto simp: wal_device.device_ok_def)
  have "take (length bs) (wf_durable f) = take n bs"
    unfolding n assms(2) by (cases "n \<le> length bs") simp_all
  then show ?thesis
    by (auto simp: wal_device.device_ok_def intro: exI [of _ "length bs"])
qed

lemma CloseRecovery_env_ok:
  assumes "env_ok env" and "wal_device.device_ok (env_inodes env i)" and "wf_data (env_inodes env i) = rf_data f @ rest"
  shows "env_ok (CloseRecovery i f synced env)"
  using assms(1) inode_wf [OF _ device_ok_cut [OF assms(2,3), of synced], of env i]
  by (simp add: CloseRecovery_def env_ok_def honest_opens_def Let_def)

text \<open>A recovered log: its records in order, in the table and in the summary.\<close>

lemma recover_file_result:
  assumes run: "recover_file path options script env = (r, env')" and "env_ok env"
  shows "env_ok env'"
    and "r = Inr (mt, res) \<Longrightarrow> \<exists>rs. good_log options rs \<and> mt = recovered_table options rs \<and>
      records_recovered res = length rs \<and> min_sequence res = (if rs = [] then 0 else w_sequence (hd rs)) \<and>
      max_sequence res = (if rs = [] then 0 else w_sequence (last rs))"
proof -
  obtain o' e1 where o: "OpenRecovery path script env = (o', e1)"
    by force
  note ok1 = OpenRecovery_env_ok [OF o assms(2)]
  have "env_ok env' \<and> (\<forall>mt res. r = Inr (mt, res) \<longrightarrow> (\<exists>rs. good_log options rs \<and> mt = recovered_table options rs \<and>
      records_recovered res = length rs \<and> min_sequence res = (if rs = [] then 0 else w_sequence (hd rs)) \<and>
      max_sequence res = (if rs = [] then 0 else w_sequence (last rs))))"
  proof (cases o')
    case (Inl s)
    then show ?thesis
      using run o ok1(1) by (auto simp: recover_file_def)
  next
    case (Inr p)
    then obtain i f where p: "o' = Inr (i, f)"
      by (cases p) simp
    obtain g q where rec: "RecoverWal f options = (g, q)"
      by force
    obtain b where r: "r = q" "env' = CloseRecovery i g b e1"
      using run o p rec by (auto simp: recover_file_def Let_def)
    note dev = ok1(2) [OF p]
    note out = RecoverWal_outcome [OF rec, unfolded recovery_outcome_def]
    have "\<exists>rest. rf_data f = rf_data g @ rest"
      using out by (auto split: sum.splits prod.splits)
    then have "env_ok env'"
      using dev ok1(1) r(2) CloseRecovery_env_ok by metis
    moreover have "\<exists>rs. good_log options rs \<and> mt = recovered_table options rs \<and>
        records_recovered res = length rs \<and> min_sequence res = (if rs = [] then 0 else w_sequence (hd rs)) \<and>
        max_sequence res = (if rs = [] then 0 else w_sequence (last rs))" if mt: "r = Inr (mt, res)" for mt res
    proof -
      obtain rs and rest :: bytes where "good_log options rs" "mt = recovered_table options rs"
          "res = (recovered_summary rs)\<lparr>discarded_tail_bytes := length rest, tail_truncated := (rest \<noteq> [])\<rparr>"
        using out unfolding r(1) [symmetric] mt by simp blast
      then show ?thesis
        by (intro exI [of _ rs]) (simp add: recovered_summary_def)
    qed
    ultimately show ?thesis
      by blast
  qed
  then show "env_ok env'" "r = Inr (mt, res) \<Longrightarrow> \<exists>rs. good_log options rs \<and> mt = recovered_table options rs \<and>
      records_recovered res = length rs \<and> min_sequence res = (if rs = [] then 0 else w_sequence (hd rs)) \<and>
      max_sequence res = (if rs = [] then 0 else w_sequence (last rs))"
    by blast+
qed

section \<open>What a recovered table holds\<close>

lemma latest_top:
  "sorted_wrt (<) (map r_sequence qs) \<Longrightarrow> top_version (set qs) k r \<Longrightarrow> latest qs k = Some (MemTable.entry_of r)"
proof (induction qs rule: rev_induct)
  case (snoc q qs)
  have below: "\<forall>p \<in> set qs. r_sequence p < r_sequence q"
    using snoc.prems(1) by (simp add: sorted_wrt_append)
  show ?case
  proof (cases "r_key q = k")
    case True
    have "r = q"
      using snoc.prems(2) True below by (auto simp: top_version_def)
    then show ?thesis
      using True by (simp add: latest_snoc)
  next
    case False
    then have "top_version (set qs) k r"
      using snoc.prems(2) by (auto simp: top_version_def)
    then show ?thesis
      using snoc False by (simp add: latest_snoc sorted_wrt_append)
  qed
qed (simp add: top_version_def)

lemma Records_view:
  assumes "keys_sorted (entries mt)"
  shows "r \<in> set (Records mt) \<longleftrightarrow> view mt (r_key r) = Some (MemTable.entry_of r)"
proof -
  have "distinct (map fst (entries mt))"
    using assms by (simp add: strict_sorted_iff)
  then have "view mt (r_key r) = Some (MemTable.entry_of r) \<longleftrightarrow> (r_key r, MemTable.entry_of r) \<in> set (entries mt)"
    by (auto simp: view_def)
  also have "\<dots> \<longleftrightarrow> r \<in> set (Records mt)"
  proof -
    let ?f = "\<lambda>(k, e). \<lparr>r_key = k, r_sequence = e_sequence e, r_type = e_type e, r_value = e_value e\<rparr>"
    have "?f (r_key r, MemTable.entry_of r) = r" and "\<And>p. ?f p = r \<Longrightarrow> p = (r_key r, MemTable.entry_of r)"
      by (auto simp: MemTable.entry_of_def new_entry_def)
    then show ?thesis
      unfolding Records_def by (metis (no_types, lifting) imageE image_eqI set_map)
  qed
  finally show ?thesis
    by simp
qed

lemma latest_member: "latest qs k = Some e \<Longrightarrow> \<exists>q \<in> set qs. r_key q = k \<and> e = MemTable.entry_of q"
  by (force simp: latest_def dest!: map_of_SomeD)

lemma entry_of_inj: "MemTable.entry_of q = MemTable.entry_of r \<Longrightarrow> r_key q = r_key r \<Longrightarrow> q = r"
  by (auto simp: MemTable.entry_of_def new_entry_def intro: MemTableRecord.equality)

lemma log_sequences:
  assumes "sorted_wrt (<) (map w_sequence rs)"
  shows "inj_on r_sequence (rec_of ` set rs)" and "inj_on w_sequence (set rs)"
proof -
  have "distinct (map w_sequence rs)"
    using assms strict_sorted_iff by blast
  then show inj: "inj_on w_sequence (set rs)"
    by (simp add: distinct_map)
  show "inj_on r_sequence (rec_of ` set rs)"
    using inj by (auto simp: inj_on_def)
qed

lemma recovered_Records:
  assumes "good_log options rs" and "options_fit options"
  shows "set (Records (recovered_table options rs)) \<subseteq> rec_of ` set rs"
    and "top_version (rec_of ` set rs) k r \<Longrightarrow> r \<in> set (Records (recovered_table options rs))"
    and "MemTable_empty (recovered_table options rs) \<longleftrightarrow> rs = []"
    and "distinct (Records (recovered_table options rs))"
proof -
  let ?mt = "recovered_table options rs"
  note facts = recovered_table_facts [OF assms]
  have ks: "keys_sorted (entries ?mt)"
    using facts(1) by (simp add: mt_inv_def mt_wf_def)
  have mem: "r \<in> set (Records ?mt) \<longleftrightarrow> latest (map rec_of rs) (r_key r) = Some (MemTable.entry_of r)" for r
    using Records_view [OF ks] facts(3) by simp
  show sub: "set (Records ?mt) \<subseteq> rec_of ` set rs"
  proof
    fix r
    assume "r \<in> set (Records ?mt)"
    then obtain q where "q \<in> set (map rec_of rs)" "r_key q = r_key r" "MemTable.entry_of r = MemTable.entry_of q"
      using latest_member mem by blast
    then show "r \<in> rec_of ` set rs"
      by (metis entry_of_inj set_map)
  qed
  have sorted: "sorted_wrt (<) (map r_sequence (map rec_of rs))"
    using assms(1) by (simp add: good_log_def comp_def)
  show top: "r \<in> set (Records ?mt)" if "top_version (rec_of ` set rs) k r" for k r
    using latest_top [OF sorted, of k r] that mem [of r] by (simp add: top_version_def)
  show "MemTable_empty ?mt \<longleftrightarrow> rs = []"
  proof
    assume empty: "MemTable_empty ?mt"
    have none: "latest (map rec_of rs) k = None" for k
      using empty by (simp add: facts(3) [symmetric] view_def MemTable_empty_def)
    show "rs = []"
    proof (cases rs rule: rev_cases)
      case (snoc qs q)
      then show ?thesis
        using none [of "w_key q"] by (simp add: latest_snoc)
    qed
  next
    assume "rs = []"
    then show "MemTable_empty ?mt"
      using sub by (simp add: MemTable_empty_Records)
  qed
  show "distinct (Records ?mt)"
    using Records_sorted [OF ks] by (metis distinct_map strict_sorted_iff)
qed

section \<open>The logs together\<close>

definition log_top :: "u64 \<Rightarrow> WalRecord list \<Rightarrow> u64" where
  "log_top n rs = last (n # map w_sequence rs)"

lemma recover_wals_Cons:
  assumes run: "recover_wals options b ((g, p) # rest) scripts st env = (Inr st2, env')" and "env_ok env"
    and fit: "options_fit options"
  obtains rs st1 scripts' env1 where "good_log options rs" "env_ok env1"
    "recover_wals options False rest scripts' st1 env1 = (Inr st2, env')"
    "rs \<noteq> [] \<Longrightarrow> os_previous st < w_sequence (hd rs)" "b \<Longrightarrow> rs \<noteq> []"
    "os_previous st1 = log_top 0 rs" "os_last_sequence st1 = max (os_last_sequence st) (log_top 0 rs)"
    "os_mutable st1 = (if b then os_mutable st else recovered_table options rs)"
    "os_immutable st1 = (if b then Some (new_ImmutableGeneration g p (recovered_table options rs)) else os_immutable st)"
    "os_generation st1 = (if b then os_generation st else g)"
proof -
  obtain script scripts' where s: "next_recovery scripts = (script, scripts')"
    by (metis surj_pair)
  obtain r env1 where f: "recover_file p options script env = (r, env1)"
    by force
  obtain mt res where r: "r = Inr (mt, res)"
    using run s f by (cases r) auto
  obtain st1 where st1: "adopt_recovered b g p mt res st = Inr st1"
      "recover_wals options False rest scripts' st1 env1 = (Inr st2, env')"
    using run s f r by (auto split: sum.splits)
  obtain rs where rs: "good_log options rs" "mt = recovered_table options rs" "records_recovered res = length rs"
      "min_sequence res = (if rs = [] then 0 else w_sequence (hd rs))"
      "max_sequence res = (if rs = [] then 0 else w_sequence (last rs))"
    using recover_file_result(2) [OF f assms(2) r] by blast
  have top: "log_top 0 rs = max_sequence res"
    by (simp add: rs(5) log_top_def last_map)
  show thesis
    by (rule that [OF rs(1) recover_file_result(1) [OF f assms(2)] st1(2)])
      (use st1(1) rs top recovered_Records(3) [OF rs(1) fit] in
        \<open>auto simp: adopt_recovered_def Let_def not_le split: if_splits\<close>)
qed

lemma log_top_bound:
  "sorted_wrt (<) (n # map w_sequence rs) \<Longrightarrow> n \<le> log_top n rs \<and> (\<forall>w \<in> set rs. n < w_sequence w \<and> w_sequence w \<le> log_top n rs)"
  by (induction rs rule: rev_induct) (force simp: log_top_def sorted_wrt_append intro: less_imp_le)+

lemma log_top_max:
  "sorted_wrt (<) (n # map w_sequence rs) \<Longrightarrow> max n (log_top 0 rs) = log_top n rs"
  using log_top_bound [of n rs] by (cases "rs = []") (auto simp: log_top_def max_def)

lemma log_above:
  assumes "sorted_wrt (<) (map w_sequence rs)" and "rs \<noteq> [] \<Longrightarrow> n < w_sequence (hd rs)"
  shows "sorted_wrt (<) (n # map w_sequence rs)"
  using assms by (cases rs) (auto intro: less_trans)

text \<open>The recovered logs continue the sequence numbers of the version.\<close>

definition recovered_logs ::
  "Options \<Rightarrow> Version \<Rightarrow> (u64 \<times> string) list \<Rightarrow> OpenState \<Rightarrow> WalRecord list \<Rightarrow> WalRecord list \<Rightarrow> bool" where
  "recovered_logs options version logs st old new \<longleftrightarrow>
     good_log options old \<and> good_log options new \<and>
     sorted_wrt (<) (last_sequence version # map w_sequence (old @ new)) \<and>
     os_mutable st = recovered_table options new \<and>
     os_last_sequence st = log_top (last_sequence version) (old @ new) \<and>
     (if length logs = 2
      then old \<noteq> [] \<and> os_immutable st =
        Some (new_ImmutableGeneration (fst (logs ! 0)) (snd (logs ! 0)) (recovered_table options old))
      else old = [] \<and> os_immutable st = None) \<and>
     os_generation st = (if logs = [] then next_file_number version else fst (last logs))"

lemma recover_wals_result:
  assumes run: "recover_wals options (length us = 2) us scripts (new_OpenState options v) env = (Inr st, env')"
    and len: "length us \<le> 2" and env: "env_ok env" and fit: "options_fit options"
  shows "env_ok env'" and "\<exists>old new. recovered_logs options v us st old new"
proof -
  let ?st = "new_OpenState options v"
  have empty: "new_MemTable options = recovered_table options []"
    by (simp add: recovered_table_def)
  consider (none) "us = []" | (one) g p where "us = [(g, p)]" | (two) g p g' p' where "us = [(g, p), (g', p')]"
    using len by (cases us rule: list.exhaust; cases "tl us"; cases "tl (tl us)") auto
  then have "env_ok env' \<and> (\<exists>old new. recovered_logs options v us st old new)"
  proof cases
    case none
    then show ?thesis
      using run env
      by (intro conjI exI [of _ "[]"]) (auto simp: recovered_logs_def new_OpenState_def log_top_def empty)
  next
    case one
    then have "recover_wals options False ((g, p) # []) scripts ?st env = (Inr st, env')"
      using run by simp
    then obtain rs st1 scripts' env1 where rs: "good_log options rs" "env_ok env1"
        "recover_wals options False [] scripts' st1 env1 = (Inr st, env')"
        "rs \<noteq> [] \<Longrightarrow> os_previous ?st < w_sequence (hd rs)"
        "os_last_sequence st1 = max (os_last_sequence ?st) (log_top 0 rs)"
        "os_mutable st1 = recovered_table options rs" "os_immutable st1 = os_immutable ?st" "os_generation st1 = g"
      by (rule recover_wals_Cons [OF _ env fit]) simp
    have "sorted_wrt (<) (last_sequence v # map w_sequence rs)"
      using log_above [of rs "last_sequence v"] rs(1,4) by (simp add: good_log_def new_OpenState_def)
    then have "recovered_logs options v us st [] rs"
      using rs log_top_max [of "last_sequence v" rs] one by (simp add: recovered_logs_def new_OpenState_def)
    then show ?thesis
      using rs(2,3) by auto
  next
    case two
    then have "recover_wals options True ((g, p) # [(g', p')]) scripts ?st env = (Inr st, env')"
      using run by simp
    then obtain rs st1 scripts' env1 where rs: "good_log options rs" "env_ok env1"
        "recover_wals options False [(g', p')] scripts' st1 env1 = (Inr st, env')"
        "rs \<noteq> [] \<Longrightarrow> os_previous ?st < w_sequence (hd rs)" "rs \<noteq> []" "os_previous st1 = log_top 0 rs"
        "os_last_sequence st1 = max (os_last_sequence ?st) (log_top 0 rs)"
        "os_immutable st1 = Some (new_ImmutableGeneration g p (recovered_table options rs))"
      by (rule recover_wals_Cons [OF _ env fit]) simp
    obtain qs st2 scripts'' env2 where qs: "good_log options qs" "env_ok env2"
        "recover_wals options False [] scripts'' st2 env2 = (Inr st, env')"
        "qs \<noteq> [] \<Longrightarrow> os_previous st1 < w_sequence (hd qs)"
        "os_last_sequence st2 = max (os_last_sequence st1) (log_top 0 qs)"
        "os_mutable st2 = recovered_table options qs" "os_immutable st2 = os_immutable st1" "os_generation st2 = g'"
      by (rule recover_wals_Cons [OF rs(3,2) fit]) simp
    have above: "sorted_wrt (<) (last_sequence v # map w_sequence rs)" "sorted_wrt (<) (log_top 0 rs # map w_sequence qs)"
      using log_above [of rs "last_sequence v"] log_above [of qs "log_top 0 rs"] rs(1,4,6) qs(1,4)
      by (simp_all add: good_log_def new_OpenState_def)
    have top: "log_top 0 rs = log_top n rs" "log_top n (rs @ qs) = log_top (log_top n rs) qs" for n
      using rs(5) by (simp_all add: log_top_def)
    have "sorted_wrt (<) (last_sequence v # map w_sequence (rs @ qs))"
      using above log_top_bound [OF above(1)] log_top_bound [OF above(2)] top(1) [of "last_sequence v"]
      by (auto simp: sorted_wrt_append intro: less_trans le_less_trans)
    moreover have "os_last_sequence st2 = log_top (last_sequence v) (rs @ qs)"
      using qs(5) rs(7) log_top_max [OF above(1)] log_top_max [OF above(2)] top
      by (simp add: new_OpenState_def) (metis max.commute)
    ultimately have "recovered_logs options v us st rs qs"
      using rs qs two by (simp add: recovered_logs_def)
    then show ?thesis
      using qs(2,3) by auto
  qed
  then show "env_ok env'" "\<exists>old new. recovered_logs options v us st old new"
    by blast+
qed

section \<open>The version and its tables\<close>

text \<open>File sizes have 64 bits.\<close>

definition files_fit :: "Env \<Rightarrow> bool" where
  "files_fit env \<longleftrightarrow> (\<forall>p i. env_names env p = Some i \<longrightarrow> length (wf_data (env_inodes env i)) \<le> u64_max)"

lemma files_fit_same: "same_dir env env' \<Longrightarrow> files_fit env' = files_fit env"
  by (simp add: same_dir_def files_fit_def)

abbreviation tables_agree :: "VersionTable list \<Rightarrow> SSTableReader list \<Rightarrow> bool" where
  "tables_agree ts tables \<equiv> list_all2 (\<lambda>t rd. ManifestMetadataMatches (vt_metadata t) (rd_metadata rd)) ts tables"

lemma open_tables_result:
  "open_tables options paths ts env = (Inr tables, env') \<Longrightarrow> env_ok env \<Longrightarrow> (ts \<noteq> [] \<Longrightarrow> files_fit env) \<Longrightarrow>
     env_ok env' \<and> same_dir env env' \<and> tables_agree ts tables \<and> (\<forall>rd \<in> set tables. table_ok options rd)"
proof (induction options paths ts env arbitrary: tables env' rule: open_tables.induct)
  case (2 options paths t ts env)
  obtain p where p: "map_of paths (table_generation t) = Some p"
    using "2.prems"(1) by (auto split: option.splits)
  obtain opened e1 where o: "OpenReadOnly p env = (opened, e1)"
    by force
  obtain rd where rd: "SSTableReader_Open opened p options = Inr rd" "ManifestMetadataMatches (vt_metadata t) (rd_metadata rd)"
    using "2.prems"(1) p o by (auto split: sum.splits if_splits)
  obtain r e2 where rest: "open_tables options paths ts e1 = (r, e2)"
    by force
  then obtain tables' where r: "r = Inr tables'" "tables = rd # tables'" "env' = e2"
    using "2.prems"(1) p o rd by (auto simp: and_then_Inr)
  obtain f where f: "opened = Inr f"
    using rd(1) by (cases opened) (auto simp: SSTableReader_Open_def split: if_splits)
  note dir = OpenReadOnly_frame(1) [OF o] and e1 = OpenReadOnly_env_ok [OF o "2.prems"(2)]
  have "honest_opens env"
    using "2.prems"(2) by (simp add: env_ok_def)
  note honest = opened_honest [OF o this rd(1)]
  have "length (rf_data f) \<le> u64_max"
    using OpenReadOnly_frame(2) [OF o f] "2.prems"(3) by (auto simp: files_fit_def)
  then have "table_ok options rd"
    using Open_reader_sound [OF rd(1) [unfolded f]] honest by (simp add: table_ok_def)
  moreover have "env_ok e2 \<and> same_dir e1 e2 \<and> tables_agree ts tables' \<and> (\<forall>rd \<in> set tables'. table_ok options rd)"
    by (rule "2.IH" [OF p o [symmetric] refl rd(1) _ rest [unfolded r(1)] e1])
      (use rd(2) files_fit_same [OF dir] "2.prems"(3) in simp_all)
  ultimately show ?case
    using r rd(2) same_dir_trans [OF dir] by simp
qed simp

lemma LoadManifest_Inr: "LoadManifest directory options opened = Inr v \<Longrightarrow> \<exists>bs. DecodeManifest bs options = Inr v"
proof -
  assume load: "LoadManifest directory options opened = Inr v"
  then obtain f where f: "opened = Inr f"
    by (cases opened) (auto simp: LoadManifest_def split: if_splits)
  obtain n g where size: "Size f = (n, g)"
    by force
  show ?thesis
    using load f size by (cases n) (auto simp: LoadManifest_def split: if_splits prod.splits sum.splits)
qed

lemma load_version_result:
  assumes "load_version directory options ls env = (Inr v, env')" and "max_key_size options \<noteq> 0"
  shows "ok (ValidateVersion v options)" and "version_tables v \<noteq> [] \<Longrightarrow> same_dir env env'"
proof -
  have new: "ok (ValidateVersion NewDatabase options)"
    using assms(2)
    by (simp add: ValidateVersion_def NewDatabase_def level_one_tables_def maximum_table_sequence_def)
  have "LoadManifest directory options opened = Inr v \<Longrightarrow> ok (ValidateVersion v options)" for opened
    using LoadManifest_Inr [of directory options opened v] by (auto simp: DecodeManifest_Inr_iff)
  then show "ok (ValidateVersion v options)"
    using assms(1) new by (auto simp: load_version_def Let_def split: if_splits prod.splits)
  show "version_tables v \<noteq> [] \<Longrightarrow> same_dir env env'"
    using assms(1)
    by (auto simp: load_version_def Let_def NewDatabase_def split: if_splits prod.splits dest: OpenReadOnly_frame(1))
qed

section \<open>The layers\<close>

lemma table_sequences:
  assumes "tables_agree (version_tables v) tables" "\<forall>rd \<in> set tables. table_ok options rd" "ok (ValidateVersion v options)"
    and "rd \<in> set tables" "r \<in> set (table_records rd)"
  shows "r_sequence r \<le> last_sequence v"
proof -
  obtain t where t: "t \<in> set (version_tables v)" "ManifestMetadataMatches (vt_metadata t) (rd_metadata rd)"
    using assms(1,4) by (metis in_set_conv_nth list_all2_conv_all_nth)
  have "r_sequence r \<le> md_maximum_sequence (rd_metadata rd)"
    using assms(2,4,5) by (auto simp: table_ok_def summary_sound_def)
  also have "\<dots> \<le> maximum_table_sequence (version_tables v)"
    using table_sequence_bound [OF t(1)] t(2) by (simp add: ManifestMetadataMatches_def)
  also have "\<dots> \<le> last_sequence v"
    using assms(3) by (auto simp: ValidateVersion_def split: if_splits)
  finally show ?thesis .
qed

text \<open>
  What the invariant asks of the tables and opening does not check: the manifest lists them in the
  order of their generations, and they store no version twice and no two versions under one sequence
  number. \<open>DecodeManifest\<close> and \<open>ValidateVersion\<close> accept any order; \<open>Version::Apply\<close> sorts.
\<close>

definition tables_consistent :: "Database \<Rightarrow> bool" where
  "tables_consistent db \<longleftrightarrow> sorted (map table_generation (version_tables (db_version db))) \<and>
     distinct (table_versions db) \<and> inj_on r_sequence (set (table_versions db))"

lemma inj_on_ordered_Un:
  fixes f :: "'a \<Rightarrow> 'b::linorder"
  shows "inj_on f A \<Longrightarrow> inj_on f B \<Longrightarrow> \<forall>a \<in> A. \<forall>b \<in> B. f b < f a \<Longrightarrow> inj_on f (A \<union> B)"
  unfolding inj_on_def by (metis Un_iff less_irrefl)

lemma opened_layers:
  assumes logs: "recovered_logs options v us st old new" and fit: "options_fit options"
    and agree: "tables_agree (version_tables v) (db_tables db)" "\<forall>rd \<in> set (db_tables db). table_ok options rd"
    and valid: "ok (ValidateVersion v options)"
    and db: "db_options db = options" "db_mutable db = os_mutable st" "db_immutable db = os_immutable st"
      "db_last_sequence db = os_last_sequence st"
  shows "layers_inv db \<longleftrightarrow> distinct (table_versions db) \<and> inj_on r_sequence (set (table_versions db))"
    and "db_ok db" and "flush_inv db"
proof -
  let ?new = "Records (db_mutable db)" and ?old = "immutable_records db" and ?tabs = "table_versions db"
  have good: "good_log options old" "good_log options new"
      and sorted: "sorted_wrt (<) (last_sequence v # map w_sequence (old @ new))"
    using logs by (simp_all add: recovered_logs_def)
  note facts = recovered_table_facts [OF good(1) fit] recovered_table_facts [OF good(2) fit]
  have mut: "db_mutable db = recovered_table options new"
    using logs db(2) by (simp add: recovered_logs_def)
  have imm: "db_immutable db = None \<and> old = [] \<or> (\<exists>ig. db_immutable db = Some ig \<and> ig_memtable ig = recovered_table options old \<and>
      ig_pending_table ig = None \<and> \<not> ig_version_published ig)"
    using logs db(3) by (auto simp: recovered_logs_def new_ImmutableGeneration_def split: if_splits)
  have sub: "set ?new \<subseteq> rec_of ` set new" "set ?old \<subseteq> rec_of ` set old"
    using imm recovered_Records(1) [OF good(1) fit] recovered_Records(1) [OF good(2) fit] mut
    by (auto simp: immutable_records_def)
  have tabs: "\<forall>r \<in> set ?tabs. r_sequence r \<le> last_sequence v"
    using table_sequences [OF agree valid] by (auto simp: table_versions_def)
  have olds: "\<forall>r \<in> set ?old. last_sequence v < r_sequence r" and news: "\<forall>r \<in> set ?new. last_sequence v < r_sequence r"
    and older: "\<forall>r \<in> set ?new. \<forall>q \<in> set ?old. r_sequence q < r_sequence r"
    using sub sorted by (fastforce simp: sorted_wrt_append)+
  have top: "\<forall>r \<in> set ?new \<union> set ?old. r_sequence r \<le> db_last_sequence db"
  proof
    fix r
    assume "r \<in> set ?new \<union> set ?old"
    then have "r \<in> rec_of ` set (old @ new)"
      using sub by auto
    then obtain w where "w \<in> set (old @ new)" "r = rec_of w"
      by blast
    then show "r_sequence r \<le> db_last_sequence db"
      using log_top_bound [OF sorted] logs db(4) by (simp add: recovered_logs_def)
  qed
  have last: "last_sequence v \<le> db_last_sequence db"
    using log_top_bound [OF sorted] logs db(4) by (simp add: recovered_logs_def)
  have inj: "inj_on r_sequence (set ?old)" "inj_on r_sequence (set ?new)"
    using sub log_sequences(1) [of "old"] log_sequences(1) [of new] good by (auto simp: good_log_def intro: inj_on_subset)
  have "inj_on r_sequence (set (all_records db)) \<longleftrightarrow> inj_on r_sequence (set ?tabs)"
  proof
    show "inj_on r_sequence (set ?tabs)" if "inj_on r_sequence (set (all_records db))"
      by (rule inj_on_subset [OF that]) (auto simp: all_records_def)
    show "inj_on r_sequence (set (all_records db))" if "inj_on r_sequence (set ?tabs)"
      unfolding all_records_def set_append
      by (intro inj_on_ordered_Un inj that) (use tabs olds news older in \<open>auto intro: le_less_trans\<close>)
  qed
  moreover have "distinct (?new @ ?old @ ?tabs) \<longleftrightarrow> distinct ?tabs"
  proof -
    have "set ?new \<inter> set ?old = {}" "set ?new \<inter> set ?tabs = {}" "set ?old \<inter> set ?tabs = {}"
      using older news olds tabs by (metis disjoint_iff less_irrefl not_less)+
    moreover have "distinct ?new" "distinct ?old"
      using recovered_Records(4) [OF good(1) fit] recovered_Records(4) [OF good(2) fit] imm mut
      by (auto simp: immutable_records_def)
    ultimately show ?thesis
      by auto
  qed
  moreover have "unflushed_records db = ?old"
    using imm by (auto simp: unflushed_records_def immutable_records_def)
  moreover show "db_ok db"
  proof -
    have "db_layers db"
      unfolding db_layers_def set_append
      using older news olds tabs by (meson Un_iff le_less_trans less_imp_le)
    then show ?thesis
      using facts mut imm db(1) agree(2) by (auto simp: db_ok_def mt_inv_def sound_tables_def table_ok_def)
  qed
  moreover have "\<forall>r \<in> set (all_records db). r_sequence r \<le> db_last_sequence db"
    using top tabs last by (auto simp: all_records_def intro: order_trans)
  ultimately show "layers_inv db \<longleftrightarrow> distinct ?tabs \<and> inj_on r_sequence (set ?tabs)"
    using agree(2) db(1) by (auto simp: layers_inv_def stored_once_def)
  show "flush_inv db"
    using imm by (auto simp: flush_inv_def)
qed

section \<open>A successful open\<close>

lemma StartBackgroundWorker_frame:
  "\<exists>b stats. fst (StartBackgroundWorker sys db) = db\<lparr>db_background_work_requested := b, db_background_statistics := stats\<rparr>"
proof -
  have same: "db = db\<lparr>db_background_work_requested := db_background_work_requested db,
      db_background_statistics := db_background_statistics db\<rparr>"
    by simp
  show ?thesis
    unfolding StartBackgroundWorker_def Let_def by (auto split: option.split intro: same)
qed

lemma remove_files_length: "remove_files ls v env = (Inr (n, m, us), env') \<Longrightarrow> length us \<le> 2"
  by (auto simp: remove_files_def Let_def split: if_splits prod.splits sum.splits)

lemma finish_open_result:
  assumes run: "finish_open fm sys directory options v tables n m st env = (Inr (db, res), env')" and "env_ok env"
  shows "env_ok env'" and "\<exists>i w f b stats. db = (new_Database directory options env' st (i, w) tables v)
      \<lparr>db_background_work_requested := b, db_background_statistics := stats\<rparr> \<and>
      ww_file w = Some f \<and> wal_device.device_ok f"
proof -
  let ?path = "JoinPath directory (GenerationFileName (os_generation st) ''wal'')"
  obtain r e1 where e1: "OpenAppend ?path env = (r, e1)"
    by force
  obtain s e2 where e2: "SyncDirectory e1 = (s, e2)"
    by force
  have ok: "env_ok e1" "env_ok e2"
    using env_ok_frame(4) [OF e1] env_ok_frame(3) [OF e2] assms(2) by auto
  obtain i where r: "r = Inr i"
    using run e1 by (cases r) (auto simp: finish_open_def open_wal_def)
  let ?w = "new_WalWriter options (Some (env_inodes e1 i))"
  let ?db = "new_Database directory options e2 st (i, ?w) tables v"
  obtain b stats where db: "fst (StartBackgroundWorker sys ?db) =
      ?db\<lparr>db_background_work_requested := b, db_background_statistics := stats\<rparr>"
    using StartBackgroundWorker_frame by blast
  have res: "db = fst (StartBackgroundWorker sys ?db)" "env' = db_environment db"
    using run e1 e2 r by (auto simp: finish_open_def open_wal_def WalWriter_Open_def Let_def split: if_splits prod.splits)
  have "db_environment ?db = e2"
    by (simp add: new_Database_def)
  then have "env' = e2"
    unfolding res(2) res(1) db by simp
  then show "env_ok env'"
    using ok by simp
  have "wal_device.device_ok (env_inodes e1 i)"
    using OpenAppend_wf(2) [OF e1 _ r] assms(2) by (simp add: env_ok_def)
  then show "\<exists>i w f b stats. db = (new_Database directory options env' st (i, w) tables v)
      \<lparr>db_background_work_requested := b, db_background_statistics := stats\<rparr> \<and>
      ww_file w = Some f \<and> wal_device.device_ok f"
    using res(1) db \<open>env' = e2\<close>
    by (intro exI [of _ i] exI [of _ ?w] exI [of _ "env_inodes e1 i"] exI [of _ b] exI [of _ stats])
      (simp add: new_WalWriter_def)
qed

text \<open>What the parts of a successful open have found and built.\<close>

lemma open_locked_result:
  assumes run: "open_locked fm sys directory options env = (Inr (db, res), env')"
    and env: "env_ok env" "files_fit env" and opts: "options_fit options" "max_key_size options \<noteq> 0"
  obtains v tables us st old new i w f b stats where "env_ok env'" "ok (ValidateVersion v options)"
    "tables_agree (version_tables v) tables" "\<forall>rd \<in> set tables. table_ok options rd"
    "recovered_logs options v us st old new"
    "db = (new_Database directory options env' st (i, w) tables v)
      \<lparr>db_background_work_requested := b, db_background_statistics := stats\<rparr>"
    "ww_file w = Some f" "wal_device.device_ok f"
proof -
  obtain ls where ls: "list_directory sys directory = Inr ls"
    using run by (cases "list_directory sys directory") (auto simp: open_locked_def)
  obtain rv e1 where lv: "load_version directory options ls env = (rv, e1)"
    by force
  obtain v where v: "rv = Inr v"
    using run ls lv by (cases rv) (auto simp: open_locked_def)
  obtain rt e2 where ot: "open_tables options (ls_tables ls) (version_tables v) e1 = (rt, e2)"
    by force
  obtain tables where t: "rt = Inr tables"
    using run ls lv v ot by (cases rt) (auto simp: open_locked_def)
  obtain rr e3 where rf: "remove_files ls v e2 = (rr, e3)"
    by force
  obtain n m us where r: "rr = Inr (n, m, us)"
    using run ls lv v ot t rf by (cases rr) (auto simp: open_locked_def)
  obtain rs e4 where rw: "recover_wals options (length us = 2) us (sys_recoveries sys) (new_OpenState options v) e3 = (rs, e4)"
    by force
  obtain st where st: "rs = Inr st"
    using run ls lv v ot t rf r rw by (cases rs) (auto simp: open_locked_def)
  have fin: "finish_open fm sys directory options v tables n m st e4 = (Inr (db, res), env')"
    using run ls lv v ot t rf r rw st by (simp add: open_locked_def)
  note lv' = load_version_result [OF lv [unfolded v] opts(2)]
  have e1: "env_ok e1" "version_tables v \<noteq> [] \<Longrightarrow> files_fit e1"
    using load_version_env_ok [OF lv env(1)] lv'(2) files_fit_same env(2) by auto
  note tabs = open_tables_result [OF ot [unfolded t] e1]
  have e3: "env_ok e3"
    using remove_files_env_ok [OF rf] tabs by blast
  note logs = recover_wals_result [OF rw [unfolded st] remove_files_length [OF rf [unfolded r]] e3 opts(1)]
  note done' = finish_open_result [OF fin logs(1)]
  show thesis
    using that lv'(1) tabs logs(2) done' by blast
qed

lemma open_options:
  assumes "\<not> open_arguments_bad directory options" and "compaction_output_size_limit options \<le> size_max"
  shows "options_inv options" and "max_key_size options \<noteq> 0"
  using assms by (auto simp: open_arguments_bad_def options_inv_def options_fit_def)

end
