(* ===== verification/DirectoryListing.thy ===== *)
theory DirectoryListing
  imports DatabaseOpen
begin

text \<open>
  What the listing of \<open>OpenWithEnvironment\<close> finds: file names determine their generations and are
  determined by them, so the classified maps hold exactly the tables and logs of the directory.
\<close>

section \<open>Names\<close>

lemma decimal_snoc: "decimal (xs @ [c]) = 10 * decimal xs + (of_char c - 48)"
  by (simp add: decimal_def)

lemma decimal_inject:
  "length xs = length ys \<Longrightarrow> list_all isdigit xs \<Longrightarrow> list_all isdigit ys \<Longrightarrow> decimal xs = decimal ys \<Longrightarrow> xs = ys"
proof (induction xs arbitrary: ys rule: rev_induct)
  case (snoc c xs)
  obtain zs d where ys: "ys = zs @ [d]"
    using snoc.prems(1) by (cases ys rule: rev_cases) auto
  let ?n = "\<lambda>c :: char. of_char c - 48 :: nat"
  have small: "?n c < 10" "?n d < 10" "48 \<le> (of_char c :: nat)" "48 \<le> (of_char d :: nat)"
    using snoc.prems(2,3) ys by (auto simp: isdigit_def)
  have "10 * decimal xs + ?n c = 10 * decimal zs + ?n d"
    using snoc.prems(4) by (simp add: ys decimal_snoc)
  then have "decimal xs = decimal zs \<and> ?n c = ?n d"
    using small(1,2) by presburger
  then have "(of_char c :: nat) = of_char d" "decimal xs = decimal zs"
    using eq_diff_iff [OF small(3,4)] by blast+
  then have "c = d" "xs = zs"
    using snoc.IH [of zs] snoc.prems(1-3) ys by simp_all
  then show ?case
    by (simp add: ys)
qed simp

lemma parse_digits_value:
  "parse_digits v ds = Some w \<Longrightarrow>
     list_all isdigit ds \<and> unat w = foldl (\<lambda>v c. 10 * v + (of_char c - 48)) (unat v) ds"
proof (induction ds arbitrary: v)
  case (Cons c ds)
  let ?d = "of_char c - 48 :: nat"
  have c: "isdigit c" "parse_digits (v * 10 + word_of_nat ?d) ds = Some w" "\<not> (- 1 - word_of_nat ?d) div 10 < v"
    using Cons.prems by (auto simp: Let_def split: if_splits)
  then have d: "?d < 10"
    by (auto simp: isdigit_def)
  have "unat v \<le> (u64_max - ?d) div 10"
    using c(3) u64_div_10 [OF d] by (simp add: word_less_nat_alt not_less)
  then have fits: "unat v * 10 + ?d \<le> u64_max"
    using d by linarith
  have "unat (v * 10 + word_of_nat ?d) = unat v * 10 + ?d"
  proof -
    have "v * 10 + word_of_nat ?d = word_of_nat (unat v * 10 + ?d)"
      by simp
    then show ?thesis
      using unat_of_nat_u64 [OF fits] by (simp only:)
  qed
  then show ?case
    using Cons.IH [OF c(2)] c(1) by (simp add: mult.commute)
qed simp

lemma padded_digits: "list_all isdigit (replicate k CHR ''0'' @ to_string n)"
proof -
  have "list_all isdigit (to_string n)"
    by (induction n rule: to_string.induct) (subst to_string.simps, simp add: isdigit_digit_char)
  moreover have "isdigit CHR ''0''"
    by (simp add: isdigit_def)
  ultimately show ?thesis
    by (auto simp: list_all_iff)
qed

lemma ParseGenerationFile_iff:
  assumes "length extension = 3"
  shows "ParseGenerationFile name extension = Some g \<longleftrightarrow> g \<noteq> 0 \<and> name = GenerationFileName g extension"
proof
  assume parse: "ParseGenerationFile name extension = Some g"
  then have name: "length name = 24" "name ! 20 = CHR ''.''" "drop 21 name = extension"
      and digits: "parse_digits 0 (take 20 name) = Some g" "g \<noteq> 0"
    by (auto simp: ParseGenerationFile_def split: if_splits option.splits)
  let ?d = "replicate (20 - length (to_string (unat g))) CHR ''0'' @ to_string (unat g)"
  have "decimal (take 20 name) = unat g" "list_all isdigit (take 20 name)"
    using parse_digits_value [OF digits(1)] by (simp_all add: decimal_def)
  moreover have "decimal ?d = unat g" "length ?d = 20"
    using generation_digits [of g] by (simp_all add: decimal_padded decimal_to_string)
  ultimately have "take 20 name = ?d"
    using decimal_inject [of "take 20 name" ?d] padded_digits name(1) by simp
  moreover have "name = take 20 name @ name ! 20 # drop 21 name"
    using name(1) id_take_nth_drop [of 20 name] by simp
  ultimately show "g \<noteq> 0 \<and> name = GenerationFileName g extension"
    using name digits(2) by (simp add: GenerationFileName_def Let_def)
qed (use assms ParseGenerationFile_name in blast)

lemma JoinPath_inject: "JoinPath directory a = JoinPath directory b \<longleftrightarrow> a = b"
  by (simp add: JoinPath_def)

lemma GenerationFileName_names:
  "GenerationFileName g ''sst'' \<noteq> GenerationFileName h ''wal''" "GenerationFileName h ''wal'' \<noteq> GenerationFileName g ''sst''"
  "length ext = 3 \<Longrightarrow> GenerationFileName g ext \<noteq> kManifestFileName"
  "length ext = 3 \<Longrightarrow> IsStorageTemporaryFile (GenerationFileName g ext) \<Longrightarrow> ext = ''tmp''"
proof -
  have "drop 21 (GenerationFileName g ext) = ext" for g ext
    using generation_digits [of g] by (simp add: GenerationFileName_def Let_def)
  note tail = this
  show "GenerationFileName g ''sst'' \<noteq> GenerationFileName h ''wal''"
      "GenerationFileName h ''wal'' \<noteq> GenerationFileName g ''sst''"
    using tail [of g "''sst''"] tail [of h "''wal''"] by auto
  show "GenerationFileName g ext \<noteq> kManifestFileName" if "length ext = 3"
    using length_GenerationFileName [of g ext] that by (auto simp: kManifestFileName_def)
  assume len: "length ext = 3" and tmp: "IsStorageTemporaryFile (GenerationFileName g ext)"
  have 24: "length (GenerationFileName g ext) = 24"
    using length_GenerationFileName [of g ext] len by simp
  then have "drop 16 (GenerationFileName g ext) = ''.sst.tmp''"
    using tmp by (auto simp: IsStorageTemporaryFile_def)
  then have "drop 5 (drop 16 (GenerationFileName g ext)) = ''tmp''"
    by simp
  then show "ext = ''tmp''"
    using tail [of g ext] by simp
qed

section \<open>The classified entries\<close>

definition regular_names :: "(string \<times> EntryKind) list \<Rightarrow> string set" where
  "regular_names es = {name. (name, RegularFile) \<in> set es}"

definition classified :: "string \<Rightarrow> string set \<Rightarrow> Listing \<Rightarrow> bool" where
  "classified directory names ls \<longleftrightarrow> (ls_manifest ls \<longleftrightarrow> kManifestFileName \<in> names) \<and>
     keys_sorted (ls_tables ls) \<and> keys_sorted (ls_wals ls) \<and>
     set (ls_tables ls) = {(g, table_path directory g) |g. g \<noteq> 0 \<and> GenerationFileName g ''sst'' \<in> names} \<and>
     set (ls_wals ls) = {(g, WalPath directory g) |g. g \<noteq> 0 \<and> GenerationFileName g ''wal'' \<in> names} \<and>
     set (ls_temporaries ls) = {JoinPath directory name |name. name \<in> names \<and> IsStorageTemporaryFile name}"

lemma set_map_emplace_new: "\<forall>w. (k, w) \<in> set ps \<longrightarrow> w = v \<Longrightarrow> set (map_emplace k v ps) = insert (k, v) (set ps)"
  by (induction k v ps rule: map_emplace.induct) auto

lemma classify_entry_classified:
  assumes "classified directory names ls"
  shows "classified directory (insert name names) (classify_entry directory ls name)"
proof -
  note sst = ParseGenerationFile_iff [of "''sst''" name] and wal = ParseGenerationFile_iff [of "''wal''" name]
  have insert_paths: "set (map_emplace g (JoinPath directory (GenerationFileName g ext)) ps) =
      {(h, JoinPath directory (GenerationFileName h ext)) |h. h \<noteq> 0 \<and> GenerationFileName h ext \<in> insert (GenerationFileName g ext) names}"
    if "g \<noteq> 0" "set ps = {(h, JoinPath directory (GenerationFileName h ext)) |h. h \<noteq> 0 \<and> GenerationFileName h ext \<in> names}"
    for g ext and ps :: "(u64 \<times> string) list"
  proof -
    have "\<forall>w. (g, w) \<in> set ps \<longrightarrow> w = JoinPath directory (GenerationFileName g ext)"
      using that(2) by auto
    from set_map_emplace_new [OF this] show ?thesis
      using that by (auto simp: GenerationFileName_inject)
  qed
  consider (manifest) "name = kManifestFileName"
    | (sst) g where "g \<noteq> 0" "name = GenerationFileName g ''sst''"
    | (wal) g where "g \<noteq> 0" "name = GenerationFileName g ''wal''"
    | (other) "name \<noteq> kManifestFileName" "\<And>g. g \<noteq> 0 \<Longrightarrow> name \<noteq> GenerationFileName g ''sst''"
        "\<And>g. g \<noteq> 0 \<Longrightarrow> name \<noteq> GenerationFileName g ''wal''"
    by blast
  then show ?thesis
  proof cases
    case manifest
    have "\<not> IsStorageTemporaryFile kManifestFileName"
      by (simp add: IsStorageTemporaryFile_def kManifestFileName_def)
    then show ?thesis
      using assms manifest GenerationFileName_names(3)
      by (fastforce simp: classified_def classify_entry_def)
  next
    case (sst g)
    then have "classify_entry directory ls name =
        ls\<lparr>ls_tables := map_emplace g (JoinPath directory name) (ls_tables ls)\<rparr>"
      using sst GenerationFileName_names(3) [of "''sst''" g] ParseGenerationFile_name [of g "''sst''"]
      by (simp add: classify_entry_def)
    then show ?thesis
      using assms sst insert_paths [of g "ls_tables ls" "''sst''"] GenerationFileName_names(1,2) GenerationFileName_names(3) [of "''sst''" g]
        GenerationFileName_names(4) [of "''sst''" g] keys_sorted_emplace
      by (auto simp: classified_def table_path_def)
  next
    case (wal g)
    have "ParseGenerationFile name ''sst'' = None"
      using GenerationFileName_names(1) wal(2) ParseGenerationFile_iff [of "''sst''" name] by (metis length_Cons list.size(3) not_None_eq numeral_3_eq_3)
    then have "classify_entry directory ls name =
        ls\<lparr>ls_wals := map_emplace g (JoinPath directory name) (ls_wals ls)\<rparr>"
      using wal GenerationFileName_names(3) [of "''wal''" g] ParseGenerationFile_name [of g "''wal''"]
      by (simp add: classify_entry_def)
    then show ?thesis
      using assms wal insert_paths [of g "ls_wals ls" "''wal''"] GenerationFileName_names(1,2) GenerationFileName_names(3) [of "''wal''" g]
        GenerationFileName_names(4) [of "''wal''" g] keys_sorted_emplace
      by (auto simp: classified_def WalPath_def)
  next
    case other
    have "ParseGenerationFile name ''sst'' = None" "ParseGenerationFile name ''wal'' = None"
      using other ParseGenerationFile_iff [of "''sst''" name] ParseGenerationFile_iff [of "''wal''" name]
      by (metis length_Cons list.size(3) not_None_eq numeral_3_eq_3)+
    then have "classify_entry directory ls name =
        (if IsStorageTemporaryFile name then ls\<lparr>ls_temporaries := ls_temporaries ls @ [JoinPath directory name]\<rparr> else ls)"
      using other(1) by (simp add: classify_entry_def)
    then show ?thesis
      using assms other by (auto simp: classified_def)
  qed
qed

lemma list_directory_classified:
  assumes "list_directory sys directory = Inr ls"
  shows "classified directory (regular_names (sys_entries sys)) ls"
proof -
  have step: "classified directory names ls0 \<Longrightarrow>
      classified directory (names \<union> set ns) (foldl (classify_entry directory) ls0 ns)" for names ls0 ns
  proof (induction ns arbitrary: names ls0)
    case (Cons name ns)
    then show ?case
      using Cons.IH [OF classify_entry_classified [OF Cons.prems, of name]] by simp
  qed simp
  have start: "classified directory {} \<lparr>ls_manifest = False, ls_tables = [], ls_wals = [], ls_temporaries = []\<rparr>"
    by (simp add: classified_def)
  let ?ns = "map fst (filter (\<lambda>e. snd e = RegularFile) (sys_entries sys))"
  have "regular_names (sys_entries sys) = set ?ns"
    by (force simp: regular_names_def)
  then show ?thesis
    using assms step [OF start, of ?ns] by (auto simp: list_directory_regular split: option.splits)
qed

end
