(* ===== verification/Restart.thy ===== *)
theory Restart
  imports DatabaseReopen DirectoryListing
begin

text \<open>
  Opening a directory in good order, with a file system that works: the manifest decodes, its tables
  open, the logs at the frontier are logs. Then \<open>Open\<close> succeeds and the database holds the tables
  and the logs, whatever else is in the directory.
\<close>

section \<open>A working file system\<close>

definition quiet :: "Env \<Rightarrow> bool" where
  "quiet env \<longleftrightarrow> env_creates env = [] \<and> env_renames env = [] \<and> env_removes env = [] \<and> env_dirsyncs env = [] \<and>
     env_scripts env = [] \<and> env_opens env = []"

definition plain_file :: "string \<Rightarrow> bytes \<Rightarrow> RecoveryFile" where
  "plain_file path bs = \<lparr>rf_name = path, rf_data = bs, rf_reads = [], rf_sizes = [], rf_truncates = [], rf_syncs = []\<rparr>"

definition file_content :: "Env \<Rightarrow> string \<Rightarrow> bytes option" where
  "file_content env p = map_option (\<lambda>i. wf_data (env_inodes env i)) (env_names env p)"

definition without :: "string set \<Rightarrow> Env \<Rightarrow> Env" where
  "without P env = env\<lparr>env_names := (\<lambda>p. if p \<in> P then None else env_names env p)\<rparr>"

text \<open>Everything is on the disk.\<close>

definition on_disk :: "Env \<Rightarrow> bool" where
  "on_disk env \<longleftrightarrow> env_disk env = env_names env \<and>
     (\<forall>p i. env_names env p = Some i \<longrightarrow> wf_durable (env_inodes env i) = wf_data (env_inodes env i))"

lemma plain_file_benign: "length bs \<le> u64_max \<Longrightarrow> benign_file (plain_file path bs)"
  by (simp add: plain_file_def benign_file_def)

lemma plain_file_data [simp]: "rf_data (plain_file path bs) = bs"
  by (simp add: plain_file_def)

lemma quiet_without [simp]: "quiet (without P env) = quiet env"
  by (simp add: quiet_def without_def)

lemma without_without: "without P (without Q env) = without (P \<union> Q) env"
  by (simp add: without_def fun_eq_iff)

lemma without_empty [simp]: "without {} env = env"
  by (simp add: without_def)

lemma file_content_without [simp]: "file_content (without P env) p = (if p \<in> P then None else file_content env p)"
  by (simp add: file_content_def without_def)

lemma quiet_OpenReadOnly:
  assumes "quiet env" and "path \<noteq> []" and "file_content env path = Some bs"
  shows "OpenReadOnly path env = (Inr (plain_file path bs), env)"
  using assms by (auto simp: OpenReadOnly_def quiet_def file_content_def plain_file_def)

lemma quiet_RemoveFile: "quiet env \<Longrightarrow> RemoveFile p env = (Ok, without {p} env)"
  by (cases env) (auto simp: RemoveFile_def quiet_def without_def fun_eq_iff)

lemma quiet_SyncDirectory: "quiet env \<Longrightarrow> SyncDirectory env = (Ok, env\<lparr>env_disk := env_names env\<rparr>)"
  by (cases env) (simp add: SyncDirectory_def quiet_def)

lemma quiet_remove_paths: "quiet env \<Longrightarrow> remove_paths ps env = (length ps, Ok, without (set ps) env)"
  by (induction ps arbitrary: env) (simp_all add: quiet_RemoveFile without_without)

section \<open>Tables\<close>

definition table_present :: "Options \<Rightarrow> Env \<Rightarrow> string \<Rightarrow> VersionTable \<Rightarrow> SSTableReader \<Rightarrow> bool" where
  "table_present options env directory t rd \<longleftrightarrow>
     (let path = table_path directory (table_generation t) in
      \<exists>bs. file_content env path = Some bs \<and> SSTableReader_Open (Inr (plain_file path bs)) path options = Inr rd \<and>
        ManifestMetadataMatches (vt_metadata t) (rd_metadata rd))"

lemma table_path_not_Nil [simp]: "table_path directory g \<noteq> []"
  by (simp add: table_path_def JoinPath_def GenerationFileName_def Let_def)

lemma open_tables_present:
  assumes "quiet env"
  shows "list_all2 (table_present options env directory) ts tables \<Longrightarrow>
    \<forall>t \<in> set ts. map_of paths (table_generation t) = Some (table_path directory (table_generation t)) \<Longrightarrow>
    open_tables options paths ts env = (Inr tables, env)"
proof (induction ts arbitrary: tables)
  case (Cons t ts)
  let ?path = "table_path directory (table_generation t)"
  obtain rd tables' where rd: "tables = rd # tables'" "list_all2 (table_present options env directory) ts tables'"
      "table_present options env directory t rd"
    using Cons.prems(1) by (auto simp: list_all2_Cons1)
  obtain bs where bs: "file_content env ?path = Some bs" "SSTableReader_Open (Inr (plain_file ?path bs)) ?path options = Inr rd"
      "ManifestMetadataMatches (vt_metadata t) (rd_metadata rd)"
    using rd(3) by (auto simp: table_present_def Let_def)
  then show ?case
    using Cons.IH [OF rd(2)] Cons.prems(2) quiet_OpenReadOnly [OF assms _ bs(1)] rd(1) bs by simp
qed simp

section \<open>Left-over files\<close>

lemma quiet_sort_wals:
  assumes "quiet env" and "\<forall>w \<in> set ws. fst w < n \<or> fst w = n \<or> n \<noteq> - 1 \<and> fst w = n + 1"
  shows "sort_wals n ws env =
    (Inr (length (filter (\<lambda>w. fst w < n) ws), filter (\<lambda>w. \<not> fst w < n) ws),
     without (snd ` {w \<in> set ws. fst w < n}) env)"
  using assms
proof (induction ws arbitrary: env)
  case (Cons w ws)
  obtain g p where w: "w = (g, p)"
    by force
  show ?case
  proof (cases "g < n")
    case True
    have "{p} \<union> snd ` {w \<in> set ws. fst w < n} = snd ` {v \<in> set (w # ws). fst v < n}"
      using True w by force
    then show ?thesis
      using Cons.IH [of "without {p} env"] Cons.prems True w
      by (simp add: quiet_RemoveFile without_without Un_commute)
  next
    case False
    have "{v \<in> set (w # ws). fst v < n} = {w \<in> set ws. fst w < n}"
      using False w by auto
    then show ?thesis
      using Cons.IH [of env] Cons.prems False w by auto
  qed
qed simp

text \<open>The logs at the frontier: the one of its number, and the one after it.\<close>

definition frontier_logs :: "u64 \<Rightarrow> (u64 \<times> string) list \<Rightarrow> bool" where
  "frontier_logs n ws \<longleftrightarrow> keys_sorted ws \<and> (\<forall>w \<in> set ws. fst w < n \<or> fst w = n \<or> n \<noteq> - 1 \<and> fst w = n + 1)"

lemma frontier_pair:
  assumes "frontier_logs n ws" and "us = filter (\<lambda>w. \<not> fst w < n) ws"
  shows "length us \<le> 2" and "length us = 2 \<Longrightarrow> map fst us = [n, n + 1]"
proof -
  have sorted: "sorted_wrt (<) (map fst us)"
    using assms by (auto simp: frontier_logs_def sorted_wrt_map intro: sorted_wrt_filter)
  have two: "set (map fst us) \<subseteq> {n, n + 1}"
    using assms by (auto simp: frontier_logs_def)
  have "length (map fst us) = card (set (map fst us))"
    using sorted by (metis distinct_card strict_sorted_iff)
  also have "\<dots> \<le> card {n, n + 1}"
    using two by (intro card_mono) auto
  finally show "length us \<le> 2"
    by (simp add: card_insert_if split: if_splits)
  show "map fst us = [n, n + 1]" if len: "length us = 2"
  proof -
    obtain x y where "us = [x, y]"
      using len by (auto simp: numeral_2_eq_2 length_Suc_conv)
    then obtain a b where ab: "map fst us = [a, b]"
      by simp
    have "\<forall>x \<in> set (map fst us). n \<le> x"
      using assms(2) by (auto simp: not_less)
    then have *: "n \<le> a" "n \<le> b" "a < b" "a \<in> {n, n + 1}" "b \<in> {n, n + 1}"
      using sorted two unfolding ab by auto
    then have "a = n"
      by (metis insert_iff leD less_irrefl singletonD)
    then have "b = n + 1"
      using * by (metis insert_iff less_irrefl singletonD)
    then show ?thesis
      using ab \<open>a = n\<close> by simp
  qed
qed

section \<open>Logs\<close>

text \<open>No two names refer to one file.\<close>

definition unshared :: "Env \<Rightarrow> bool" where
  "unshared env \<longleftrightarrow> (\<forall>p q i. env_names env p = Some i \<longrightarrow> env_names env q = Some i \<longrightarrow> p = q)"

definition log_file :: "Options \<Rightarrow> bytes \<Rightarrow> WalRecord list \<Rightarrow> bool" where
  "log_file options bs rs \<longleftrightarrow> length bs \<le> u64_max \<and> good_log options rs \<and> (\<exists>t. torn_tail options t \<and> bs = wal.log rs @ t)"

text \<open>Only the contents of the recovered files differ.\<close>

definition same_but :: "string set \<Rightarrow> Env \<Rightarrow> Env \<Rightarrow> bool" where
  "same_but P env env' \<longleftrightarrow> quiet env' \<and> env_names env' = env_names env \<and> (on_disk env \<longrightarrow> on_disk env') \<and>
     (\<forall>q. q \<notin> P \<longrightarrow> file_content env' q = file_content env q)"

lemma unshared_same: "env_names env' = env_names env \<Longrightarrow> unshared env' = unshared env"
  by (simp add: unshared_def)

lemma quiet_recover_file:
  assumes q: "quiet env" "unshared env" and p: "p \<noteq> []" "file_content env p = Some bs" and log: "log_file options bs rs"
  obtains env' res where "recover_file p options (Ok, [], [], [], []) env = (Inr (recovered_table options rs, res), env')"
    "same_but {p} env env'" "file_content env' p = Some (wal.log rs)" "records_recovered res = length rs"
    "min_sequence res = (if rs = [] then 0 else w_sequence (hd rs))" "max_sequence res = log_top 0 rs"
proof -
  obtain i where i: "env_names env p = Some i" "wf_data (env_inodes env i) = bs"
    using p(2) by (auto simp: file_content_def)
  obtain tail where tail: "length bs \<le> u64_max" "good_log options rs" "torn_tail options tail" "bs = wal.log rs @ tail"
    using log by (auto simp: log_file_def)
  obtain f where rec: "RecoverWal (plain_file p bs) options = (f, Inr (recovered_table options rs,
      (recovered_summary rs)\<lparr>discarded_tail_bytes := length tail, tail_truncated := (tail \<noteq> [])\<rparr>))" (is "_ = (f, Inr (_, ?res))")
    and f: "rf_data f = wal.log rs"
    using RecoverWal_torn [OF plain_file_benign [OF tail(1)] _ tail(2,3)] tail(4) by auto
  have "OpenRecovery p (Ok, [], [], [], []) env = (Inr (i, plain_file p bs), env)"
    using p(1) i by (simp add: OpenRecovery_def plain_file_def)
  then have run: "recover_file p options (Ok, [], [], [], []) env =
      (Inr (recovered_table options rs, ?res), CloseRecovery i f (tail \<noteq> []) env)"
    using rec by (simp add: recover_file_def)
  have other: "env_names env p' \<noteq> Some i" if "p' \<noteq> p" for p'
    using q(2) i(1) that unfolding unshared_def by blast
  have "file_content (CloseRecovery i f (tail \<noteq> []) env) p' = file_content env p'" if "p' \<noteq> p" for p'
    using other [OF that] by (cases "env_names env p'") (auto simp: CloseRecovery_def file_content_def Let_def)
  moreover have "on_disk (CloseRecovery i f (tail \<noteq> []) env)" if "on_disk env"
    using that i f tail(4) by (auto simp: on_disk_def CloseRecovery_def Let_def)
  ultimately have "same_but {p} env (CloseRecovery i f (tail \<noteq> []) env)"
    using q(1) by (simp add: same_but_def quiet_def CloseRecovery_def Let_def)
  moreover have "file_content (CloseRecovery i f (tail \<noteq> []) env) p = Some (wal.log rs)"
    using i f by (simp add: file_content_def CloseRecovery_def Let_def)
  ultimately show thesis
    by (rule that [OF run]) (simp_all add: recovered_summary_def log_top_def last_map)
qed

lemma quiet_recover_step:
  assumes q: "quiet env" "unshared env" and p: "p \<noteq> []" "file_content env p = Some bs" and log: "log_file options bs rs"
    and fit: "options_fit options" and above: "rs \<noteq> [] \<Longrightarrow> os_previous st < w_sequence (hd rs)" and b: "b \<Longrightarrow> rs \<noteq> []"
  obtains st1 env1 where "recover_wals options b ((g, p) # rest) [] st env = recover_wals options False rest [] st1 env1"
    "same_but {p} env env1" "file_content env1 p = Some (wal.log rs)"
    "os_previous st1 = log_top 0 rs" "os_last_sequence st1 = max (os_last_sequence st) (log_top 0 rs)"
    "os_mutable st1 = (if b then os_mutable st else recovered_table options rs)"
    "os_immutable st1 = (if b then Some (new_ImmutableGeneration g p (recovered_table options rs)) else os_immutable st)"
    "os_generation st1 = (if b then os_generation st else g)"
proof -
  obtain env1 res where rec: "recover_file p options (Ok, [], [], [], []) env = (Inr (recovered_table options rs, res), env1)"
    "same_but {p} env env1" "file_content env1 p = Some (wal.log rs)" "records_recovered res = length rs"
    "min_sequence res = (if rs = [] then 0 else w_sequence (hd rs))" "max_sequence res = log_top 0 rs"
    by (rule quiet_recover_file [OF q p log])
  have "good_log options rs"
    using log by (simp add: log_file_def)
  then have "MemTable_empty (recovered_table options rs) \<longleftrightarrow> rs = []"
    by (rule recovered_Records(3) [OF _ fit])
  then have "\<exists>st1. adopt_recovered b g p (recovered_table options rs) res st = Inr st1"
    using above b rec(4,5) by (cases "rs = []"; cases b) (simp_all add: adopt_recovered_def Let_def not_le)
  then obtain st1 where st1: "adopt_recovered b g p (recovered_table options rs) res st = Inr st1"
    by blast
  have "recover_wals options b ((g, p) # rest) [] st env = recover_wals options False rest [] st1 env1"
    using rec(1) st1 by (simp add: next_recovery_def)
  then show thesis
    by (rule that [OF _ rec(2,3)])
      (use st1 rec(6) in \<open>auto simp: adopt_recovered_def Let_def split: if_splits\<close>)
qed

text \<open>The logs of a directory: none, one, or the frozen one and the active one.\<close>

fun logs_present :: "Options \<Rightarrow> Env \<Rightarrow> (u64 \<times> string) list \<Rightarrow> WalRecord list \<Rightarrow> WalRecord list \<Rightarrow> bool" where
  "logs_present options env [] old new \<longleftrightarrow> old = [] \<and> new = []"
| "logs_present options env [(g, p)] old new \<longleftrightarrow>
     old = [] \<and> p \<noteq> [] \<and> (\<exists>bs. file_content env p = Some bs \<and> log_file options bs new)"
| "logs_present options env [(g, p), (g', p')] old new \<longleftrightarrow>
     old \<noteq> [] \<and> p \<noteq> [] \<and> p' \<noteq> [] \<and> p \<noteq> p' \<and> (\<exists>bs. file_content env p = Some bs \<and> log_file options bs old) \<and>
     (\<exists>bs. file_content env p' = Some bs \<and> log_file options bs new)"
| "logs_present options env (u # v # w # us) old new \<longleftrightarrow> False"

lemma quiet_recover_wals:
  assumes q: "quiet env" "unshared env" and fit: "options_fit options" and logs: "logs_present options env us old new"
    and above: "sorted_wrt (<) (last_sequence v # map w_sequence (old @ new))"
  obtains st env' where "recover_wals options (length us = 2) us [] (new_OpenState options v) env = (Inr st, env')"
    "recovered_logs options v us st old new" "same_but (snd ` set us) env env'"
    "\<forall>g p. us = [(g, p)] \<longrightarrow> file_content env' p = Some (wal.log new)"
proof -
  let ?st = "new_OpenState options v"
  have empty: "new_MemTable options = recovered_table options []"
    by (simp add: recovered_table_def)
  consider (none) "us = []" | (one) g p where "us = [(g, p)]" | (two) g p g' p' where "us = [(g, p), (g', p')]"
    using logs by (cases "(options, env, us, old, new)" rule: logs_present.cases) auto
  then show thesis
  proof cases
    case none
    then show thesis
      using logs q(1) by (intro that [of ?st env])
        (simp_all add: recovered_logs_def new_OpenState_def log_top_def empty same_but_def)
  next
    case one
    then obtain bs where l: "old = []" "p \<noteq> []" "file_content env p = Some bs" "log_file options bs new"
      using logs by auto
    have above': "new \<noteq> [] \<Longrightarrow> os_previous ?st < w_sequence (hd new)"
      using above l(1) by (cases new) (simp_all add: new_OpenState_def)
    obtain st1 env1 where s: "recover_wals options False ((g, p) # []) [] ?st env = recover_wals options False [] [] st1 env1"
        "same_but {p} env env1" "file_content env1 p = Some (wal.log new)" "os_last_sequence st1 = max (os_last_sequence ?st) (log_top 0 new)"
        "os_mutable st1 = recovered_table options new" "os_immutable st1 = os_immutable ?st" "os_generation st1 = g"
      by (rule quiet_recover_step [where b = False and g = g and rest = "[]", OF q l(2-4) fit above']) simp_all
    have "recovered_logs options v us st1 old new"
      using s(4-7) above l log_top_max [of "last_sequence v" new] one
      by (simp add: recovered_logs_def new_OpenState_def log_file_def)
    then show thesis
      using s(1-3) one by (intro that [of st1 env1]) simp_all
  next
    case two
    then obtain bs bs' where l: "old \<noteq> []" "p \<noteq> []" "p' \<noteq> []" "p \<noteq> p'" "file_content env p = Some bs"
        "log_file options bs old" "file_content env p' = Some bs'" "log_file options bs' new"
      using logs by auto
    have split: "sorted_wrt (<) (last_sequence v # map w_sequence old)" "sorted_wrt (<) (map w_sequence new)"
        "\<forall>a \<in> set old. \<forall>b \<in> set new. w_sequence a < w_sequence b"
      using above by (auto simp: sorted_wrt_append)
    have above1: "old \<noteq> [] \<Longrightarrow> os_previous ?st < w_sequence (hd old)"
      using split(1) by (simp add: new_OpenState_def)
    obtain st1 env1 where s: "recover_wals options True ((g, p) # [(g', p')]) [] ?st env = recover_wals options False [(g', p')] [] st1 env1"
        "same_but {p} env env1" "os_previous st1 = log_top 0 old" "os_last_sequence st1 = max (os_last_sequence ?st) (log_top 0 old)"
        "os_immutable st1 = Some (new_ImmutableGeneration g p (recovered_table options old))"
      by (rule quiet_recover_step [where b = True and g = g and rest = "[(g', p')]", OF q l(2,5,6) fit above1])
        (use l(1) in simp_all)
    have e1: "quiet env1" "unshared env1" "file_content env1 p' = Some bs'"
      using s(2) l(4,7) q(2) unshared_same [of env1 env] by (simp_all add: same_but_def)
    have top: "log_top 0 old = w_sequence (last old)"
      using l(1) by (simp add: log_top_def last_map)
    have above2: "new \<noteq> [] \<Longrightarrow> os_previous st1 < w_sequence (hd new)"
      using split(3) l(1) s(3) top by simp
    obtain st2 env2 where r: "recover_wals options False ((g', p') # []) [] st1 env1 = recover_wals options False [] [] st2 env2"
        "same_but {p'} env1 env2" "os_last_sequence st2 = max (os_last_sequence st1) (log_top 0 new)"
        "os_mutable st2 = recovered_table options new" "os_immutable st2 = os_immutable st1" "os_generation st2 = g'"
      by (rule quiet_recover_step [where b = False and g = g' and rest = "[]", OF e1(1,2) l(3) e1(3) l(8) fit above2]) simp_all
    have "os_last_sequence st2 = log_top (last_sequence v) (old @ new)"
    proof -
      have "max (last_sequence v) (log_top 0 old) = log_top 0 old"
        using log_top_max [OF split(1)] l(1) by (simp add: log_top_def)
      moreover have "max (log_top 0 old) (log_top 0 new) = log_top (last_sequence v) (old @ new)"
        using log_top_max [of "log_top 0 old" new] split top l(1) by (simp add: log_top_def)
      ultimately show ?thesis
        using r(3) s(4) by (simp add: new_OpenState_def)
    qed
    then have "recovered_logs options v us st2 old new"
      using r(4-6) s(5) above l two by (simp add: recovered_logs_def log_file_def)
    moreover have "same_but (snd ` set us) env env2"
      using s(2) r(2) two by (auto simp: same_but_def)
    ultimately show thesis
      using s(1) r(1) two by (intro that [of st2 env2]) simp_all
  qed
qed

section \<open>The contents\<close>

lemma opened_map:
  assumes logs: "recovered_logs options v us st old new" and fit: "options_fit options"
    and agree: "tables_agree (version_tables v) (db_tables db)" "\<forall>rd \<in> set (db_tables db). table_ok options rd"
    and valid: "ok (ValidateVersion v options)" and cons: "inj_on r_sequence (set (table_versions db))"
    and db: "db_options db = options" "db_mutable db = os_mutable st" "db_immutable db = os_immutable st"
      "db_last_sequence db = os_last_sequence st"
  shows "db_map db key = version_value (latest_version key (map rec_of (old @ new) @ table_versions db))"
proof -
  have good: "good_log options old" "good_log options new"
      and sorted: "sorted_wrt (<) (last_sequence v # map w_sequence (old @ new))"
    using logs by (simp_all add: recovered_logs_def)
  have recs: "Records (db_mutable db) = Records (recovered_table options new)"
      "immutable_records db = Records (recovered_table options old)"
    using logs db(2,3) recovered_Records(1) [OF good(1) fit]
    by (auto simp: recovered_logs_def immutable_records_def new_ImmutableGeneration_def split: if_splits)
  let ?all = "map rec_of (old @ new) @ table_versions db"
  have "\<forall>r \<in> set (table_versions db). r_sequence r \<le> last_sequence v"
    using table_sequences [OF agree valid] by (auto simp: table_versions_def)
  moreover have "\<forall>r \<in> rec_of ` set (old @ new). last_sequence v < r_sequence r"
    using sorted by auto
  ultimately have order: "\<forall>r \<in> rec_of ` set (old @ new). \<forall>q \<in> set (table_versions db). r_sequence q < r_sequence r"
    by (meson le_less_trans)
  have "inj_on r_sequence (rec_of ` set (old @ new))"
    using sorted by (intro log_sequences(1)) simp
  then have inj: "inj_on r_sequence (set ?all)"
    unfolding set_append set_map using order cons
    by (intro inj_on_ordered_Un) auto
  have "set (all_records db) \<subseteq> set ?all"
    unfolding all_records_def recs using recovered_Records(1) [OF good(1) fit] recovered_Records(1) [OF good(2) fit] by auto
  moreover have "r \<in> set (all_records db)" if top: "top_version (set ?all) key r" for r
  proof -
    consider "r \<in> rec_of ` set new" | "r \<in> rec_of ` set old" | "r \<in> set (table_versions db)"
      using top by (auto simp: top_version_def)
    then show ?thesis
    proof cases
      case 1
      then have "top_version (rec_of ` set new) key r"
        using top by (auto simp: top_version_def)
      then show ?thesis
        using recovered_Records(2) [OF good(2) fit] by (simp add: all_records_def recs)
    next
      case 2
      then have "top_version (rec_of ` set old) key r"
        using top by (auto simp: top_version_def)
      then show ?thesis
        using recovered_Records(2) [OF good(1) fit] by (simp add: all_records_def recs)
    qed (simp add: all_records_def)
  qed
  ultimately show ?thesis
    unfolding db_map_def by (intro version_value_shrink [OF inj]) auto
qed

section \<open>A directory in good order\<close>

definition working_system :: "OpenSystem \<Rightarrow> string \<Rightarrow> string set \<Rightarrow> bool" where
  "working_system sys directory held \<longleftrightarrow> (\<exists>c. sys_created sys = Inr c) \<and> sys_is_directory sys \<and>
     sys_lock_opens sys = [] \<and> sys_flocks sys = [] \<and> directory @ ''/LOCK'' \<notin> held \<and>
     sys_iteration_error sys = None \<and> sys_recoveries sys = [] \<and> sys_thread_error sys = None"

definition log_numbers :: "string set \<Rightarrow> u64 \<Rightarrow> u64 list" where
  "log_numbers names n =
     filter (\<lambda>g. GenerationFileName g ''wal'' \<in> names) (n # (if n = - 1 then [] else [n + 1]))"

definition frontier_files :: "string \<Rightarrow> string set \<Rightarrow> u64 \<Rightarrow> (u64 \<times> string) list" where
  "frontier_files directory names n = map (\<lambda>g. (g, WalPath directory g)) (log_numbers names n)"

definition good_directory ::
  "Options \<Rightarrow> string \<Rightarrow> Env \<Rightarrow> string set \<Rightarrow> Version \<Rightarrow> SSTableReader list \<Rightarrow> WalRecord list \<Rightarrow> WalRecord list \<Rightarrow> bool" where
  "good_directory options directory env names v tables old new \<longleftrightarrow>
     kManifestFileName \<in> names \<and>
     (\<exists>bs. file_content env (JoinPath directory kManifestFileName) = Some bs \<and> DecodeManifest bs options = Inr v) \<and>
     (\<forall>t \<in> set (version_tables v). GenerationFileName (table_generation t) ''sst'' \<in> names) \<and>
     list_all2 (table_present options env directory) (version_tables v) tables \<and>
     (\<forall>g. GenerationFileName g ''wal'' \<in> names \<longrightarrow>
        g < next_file_number v \<or> g \<in> set (log_numbers names (next_file_number v))) \<and>
     logs_present options env (frontier_files directory names (next_file_number v)) old new \<and>
     sorted_wrt (<) (last_sequence v # map w_sequence (old @ new))"

lemma frontier_list:
  assumes cls: "classified directory names ls" and n: "n \<noteq> 0"
    and only: "\<forall>g. GenerationFileName g ''wal'' \<in> names \<longrightarrow> g < n \<or> g \<in> set (log_numbers names n)"
  shows "frontier_logs n (ls_wals ls)" and "filter (\<lambda>w. \<not> fst w < n) (ls_wals ls) = frontier_files directory names n"
proof -
  let ?us = "filter (\<lambda>w. \<not> fst w < n) (ls_wals ls)"
  have sorted: "keys_sorted (ls_wals ls)" and set: "set (ls_wals ls) = {(g, WalPath directory g) |g. g \<noteq> 0 \<and> GenerationFileName g ''wal'' \<in> names}"
    using cls by (simp_all add: classified_def)
  have nums: "g \<in> set (log_numbers names n) \<longleftrightarrow>
      (g = n \<or> n \<noteq> - 1 \<and> g = n + 1) \<and> GenerationFileName g ''wal'' \<in> names" for g
    by (auto simp: log_numbers_def)
  show frontier: "frontier_logs n (ls_wals ls)"
    using sorted set only nums by (auto simp: frontier_logs_def)
  have succ: "n < n + 1" if "n \<noteq> - 1"
    using word_le_plus_one [OF that order_refl] .
  have "sorted_wrt (<) (log_numbers names n)"
    using succ by (auto simp: log_numbers_def)
  moreover have "sorted_wrt (<) (map fst ?us)"
    using sorted by (simp add: sorted_wrt_map sorted_wrt_filter)
  moreover have "g \<noteq> 0 \<and> \<not> g < n" if "g \<in> set (log_numbers names n)" for g
    using that nums succ n by (auto simp: word_gt_0 dest: less_trans)
  then have "set (map fst ?us) = set (log_numbers names n)"
    using set only nums by (auto simp: image_iff)
  ultimately have fst: "map fst ?us = log_numbers names n"
    by (metis strict_sorted_equal)
  have "map (\<lambda>g. (g, WalPath directory g)) (map fst ?us) = ?us"
    unfolding map_map by (rule map_idI) (use set in auto)
  then show "?us = frontier_files directory names n"
    unfolding frontier_files_def fst [symmetric] by simp
qed

text \<open>A file opened for appending keeps its content; a new one is empty and its own.\<close>

definition appended :: "string \<Rightarrow> nat \<Rightarrow> Env \<Rightarrow> Env \<Rightarrow> bool" where
  "appended path i env env' \<longleftrightarrow> env_names env' path = Some i \<and> (unshared env \<longrightarrow> unshared env') \<and>
     (on_disk env \<longrightarrow> on_disk (env'\<lparr>env_disk := env_names env'\<rparr>)) \<and>
     (\<forall>p. file_content env' p = (if p = path \<and> file_content env p = None then Some [] else file_content env p))"

lemma quiet_OpenAppend:
  assumes "quiet env" and "path \<noteq> []"
  obtains i env' where "OpenAppend path env = (Inr i, env')" "quiet env'"
    "env_wf env \<longrightarrow> appended path i env env'"
proof (cases "env_names env path")
  case None
  define f where "f = \<lparr>wf_name = path, wf_data = [], wf_durable = [], wf_writes = [], wf_syncs = []\<rparr>"
  define env' where "env' = env\<lparr>env_names := (env_names env)(path \<mapsto> env_next env),
    env_inodes := (env_inodes env)(env_next env := f), env_next := env_next env + 1\<rparr>"
  have "OpenAppend path env = (Inr (env_next env), env')" "quiet env'"
    using assms None by (cases env; auto simp: OpenAppend_def quiet_def Let_def env'_def f_def)+
  moreover have "appended path (env_next env) env env'" if wf: "env_wf env"
  proof -
    have fresh: "env_names env p \<noteq> Some (env_next env)" for p
      using wf by (auto simp: env_wf_def)
    have "file_content env' p = (if p = path \<and> file_content env p = None then Some [] else file_content env p)" for p
      using fresh [of p] None by (cases "env_names env p") (auto simp: file_content_def env'_def f_def)
    moreover have "unshared env \<longrightarrow> unshared env'"
      using fresh by (auto simp: unshared_def env'_def)
    moreover have "on_disk env \<longrightarrow> on_disk (env'\<lparr>env_disk := env_names env'\<rparr>)"
      using fresh by (auto simp: on_disk_def env'_def f_def)
    ultimately show ?thesis
      by (simp add: appended_def env'_def)
  qed
  ultimately show thesis
    using that by blast
next
  case (Some i)
  moreover have "env\<lparr>env_creates := []\<rparr> = env"
    using assms(1) by (cases env) (simp add: quiet_def)
  ultimately show thesis
    using assms by (intro that [of i env]) (auto simp: OpenAppend_def quiet_def appended_def file_content_def on_disk_def)
qed

definition opened_as :: "Database \<Rightarrow> Options \<Rightarrow> Version \<Rightarrow> SSTableReader list \<Rightarrow> OpenState \<Rightarrow> bool" where
  "opened_as db options v tables st \<longleftrightarrow> db_options db = options \<and> db_version db = v \<and> db_tables db = tables \<and>
     db_mutable db = os_mutable st \<and> db_immutable db = os_immutable st \<and> db_last_sequence db = os_last_sequence st \<and>
     db_mutable_generation db = os_generation st \<and> db_state db = kRunning \<and> db_status db = Ok \<and> db_compaction db = None"

text \<open>The log is open for appending, in a directory that is otherwise what it was.\<close>

definition log_open :: "string \<Rightarrow> Env \<Rightarrow> Database \<Rightarrow> bool" where
  "log_open directory env db \<longleftrightarrow>
     (let env' = db_environment db; path = WalPath directory (db_mutable_generation db) in
      \<exists>i. db_wal db = Some (i, new_WalWriter (db_options db) (Some (env_inodes env' i))) \<and>
        db_directory db = directory \<and> appended path i env env' \<and> env_disk env' = env_names env' \<and>
        (on_disk env \<longrightarrow> on_disk env'))"

lemma quiet_finish_open:
  assumes "quiet env" and "sys_thread_error sys = None"
  obtains db res env' where "finish_open fm sys directory options v tables n m st env = (Inr (db, res), env')"
    "opened_as db options v tables st" "env_wf env \<longrightarrow> log_open directory env db"
proof -
  let ?path = "JoinPath directory (GenerationFileName (os_generation st) ''wal'')"
  have "?path \<noteq> []"
    by (simp add: JoinPath_def GenerationFileName_def Let_def)
  then obtain i e1 where e1: "OpenAppend ?path env = (Inr i, e1)" "quiet e1" "env_wf env \<longrightarrow> appended ?path i env e1"
    by (rule quiet_OpenAppend [OF assms(1)])
  define e2 where "e2 = e1\<lparr>env_disk := env_names e1\<rparr>"
  define wal where "wal = (i, new_WalWriter options (Some (env_inodes e1 i)))"
  define db0 where "db0 = new_Database directory options e2 st wal tables v"
  have wal: "open_wal ?path options env = (Inr wal, e1)"
    using e1(1) by (simp add: open_wal_def WalWriter_Open_def wal_def)
  have sync: "SyncDirectory e1 = (Ok, e2)"
    using quiet_SyncDirectory [OF e1(2)] by (simp add: e2_def)
  obtain db s where db: "StartBackgroundWorker sys db0 = (db, s)"
    by force
  have s: "s = Ok"
    using db assms(2) by (auto simp: StartBackgroundWorker_def split: if_splits)
  obtain b stats where "db = db0\<lparr>db_background_work_requested := b, db_background_statistics := stats\<rparr>"
    using StartBackgroundWorker_frame [of sys db0] db by auto
  then have "opened_as db options v tables st" "env_wf env \<longrightarrow> log_open directory env db"
    using e1(3)
    by (simp_all add: opened_as_def log_open_def db0_def new_Database_def wal_def e2_def WalPath_def appended_def
        file_content_def unshared_def)
  moreover have "\<exists>res env'. finish_open fm sys directory options v tables n m st env = (Inr (db, res), env')"
    unfolding finish_open_def wal sync Let_def prod.case sum.case db0_def [symmetric] db s by simp
  ultimately show thesis
    using that by blast
qed

lemma temporary_names:
  assumes "IsStorageTemporaryFile name"
  shows "name \<noteq> kManifestFileName" and "name \<noteq> GenerationFileName g ''sst''" and "name \<noteq> GenerationFileName g ''wal''"
proof -
  show "name \<noteq> kManifestFileName"
    using assms by (auto simp: IsStorageTemporaryFile_def kManifestFileName_def)
  show "name \<noteq> GenerationFileName g ''sst''"
    using assms GenerationFileName_names(4) [of "''sst''" g] by (intro notI) simp
  show "name \<noteq> GenerationFileName g ''wal''"
    using assms GenerationFileName_names(4) [of "''wal''" g] by (intro notI) simp
qed

text \<open>Removing the left-over files leaves what the version and the logs need.\<close>

definition live_files :: "string \<Rightarrow> Version \<Rightarrow> string set" where
  "live_files directory v = insert (JoinPath directory kManifestFileName)
     ((\<lambda>t. table_path directory (table_generation t)) ` set (version_tables v))"

lemma quiet_remove_files:
  assumes q: "quiet env" "unshared env" and cls: "classified directory names ls" and n: "next_file_number v \<noteq> 0"
    and only: "\<forall>g. GenerationFileName g ''wal'' \<in> names \<longrightarrow>
        g < next_file_number v \<or> g \<in> set (log_numbers names (next_file_number v))"
  obtains orphans obsolete env' where
    "remove_files ls v env = (Inr (orphans, obsolete, frontier_files directory names (next_file_number v)), env')"
    "quiet env'" "unshared env'"
    "\<And>p. p \<in> snd ` set (frontier_files directory names (next_file_number v)) \<Longrightarrow> file_content env' p = file_content env p"
    "on_disk env \<longrightarrow> on_disk env'" "\<forall>p. file_content env p = None \<longrightarrow> file_content env' p = None"
    "\<forall>p \<in> live_files directory v. file_content env' p = file_content env p"
proof -
  let ?n = "next_file_number v" and ?us = "frontier_files directory names (next_file_number v)"
  let ?gone = "set (orphan_paths ls v) \<union> snd ` {w \<in> set (ls_wals ls). fst w < ?n}"
  note f = frontier_list [OF cls n only]
  have "sort_wals ?n (ls_wals ls) (without (set (orphan_paths ls v)) env) =
      (Inr (length (filter (\<lambda>w. fst w < ?n) (ls_wals ls)), ?us), without ?gone env)"
    using quiet_sort_wals [of "without (set (orphan_paths ls v)) env" "ls_wals ls" ?n] q(1) f
    by (simp add: frontier_logs_def without_without Un_commute)
  note sort = this
  define e where "e = (if length (orphan_paths ls v) \<noteq> 0 \<or> length (filter (\<lambda>w. fst w < ?n) (ls_wals ls)) \<noteq> 0
      then (without ?gone env)\<lparr>env_disk := env_names (without ?gone env)\<rparr> else without ?gone env)"
  have "remove_files ls v env =
      (Inr (length (orphan_paths ls v), length (filter (\<lambda>w. fst w < ?n) (ls_wals ls)), ?us), e)"
    using quiet_remove_paths [OF q(1)] sort quiet_SyncDirectory [of "without ?gone env"] q(1)
      frontier_pair [OF f(1) f(2) [symmetric]]
    by (auto simp: remove_files_def e_def nth_map [symmetric] simp del: nth_map)
  moreover have "quiet e" "unshared e"
    using q by (auto simp: e_def quiet_def unshared_def without_def)
  moreover have "file_content e p = file_content env p" if p: "p \<in> snd ` set ?us" for p
  proof -
    obtain w where w: "w \<in> set ?us" "p = snd w"
      using p by blast
    then have "w \<in> set (ls_wals ls)" "\<not> fst w < ?n"
      unfolding f(2) [symmetric] by simp_all
    then obtain g where g: "p = WalPath directory g" "\<not> g < ?n"
      using cls w(2) by (auto simp: classified_def)
    have "p \<notin> set (orphan_paths ls v)"
      using cls g(1) temporary_names(3) GenerationFileName_names(1) [THEN not_sym]
      by (auto simp: orphan_paths_def classified_def WalPath_def table_path_def JoinPath_inject)
    moreover have "p \<notin> snd ` {w \<in> set (ls_wals ls). fst w < ?n}"
      using cls g by (auto simp: classified_def WalPath_def JoinPath_inject GenerationFileName_inject)
    ultimately show ?thesis
      by (auto simp: e_def file_content_def without_def)
  qed
  moreover have "on_disk env \<longrightarrow> on_disk e" "\<forall>p. file_content env p = None \<longrightarrow> file_content e p = None"
  proof -
    show "on_disk env \<longrightarrow> on_disk e"
    proof (cases "length (orphan_paths ls v) \<noteq> 0 \<or> length (filter (\<lambda>w. fst w < ?n) (ls_wals ls)) \<noteq> 0")
      case True
      then show ?thesis
        unfolding e_def by (simp add: on_disk_def without_def)
    next
      case False
      then have none: "?gone = {}"
        by (auto simp: filter_empty_conv)
      have "e = env"
        unfolding e_def if_not_P [OF False] none by simp
      then show ?thesis
        by simp
    qed
    show "\<forall>p. file_content env p = None \<longrightarrow> file_content e p = None"
      by (auto simp: e_def file_content_def without_def)
  qed
  moreover have "\<forall>p \<in> live_files directory v. file_content e p = file_content env p"
  proof
    fix p
    assume "p \<in> live_files directory v"
    then have "p \<notin> set (orphan_paths ls v)" "p \<notin> snd ` {w \<in> set (ls_wals ls). fst w < ?n}"
      using cls temporary_names(1,2) GenerationFileName_names(1,2) GenerationFileName_names(3) [of "''wal''"]
        GenerationFileName_names(3) [of "''sst''"]
      by (auto simp: live_files_def orphan_paths_def classified_def WalPath_def table_path_def JoinPath_inject
          GenerationFileName_inject image_iff dest: sym)
    then show "file_content e p = file_content env p"
      by (auto simp: e_def file_content_def without_def)
  qed
  ultimately show thesis
    by (rule that)
qed

lemma table_paths_found:
  assumes cls: "classified directory names ls" and valid: "ok (ValidateVersion v options)"
    and present: "\<forall>t \<in> set (version_tables v). GenerationFileName (table_generation t) ''sst'' \<in> names"
  shows "\<forall>t \<in> set (version_tables v). map_of (ls_tables ls) (table_generation t) = Some (table_path directory (table_generation t))"
proof
  fix t
  assume t: "t \<in> set (version_tables v)"
  then have "table_generation t \<noteq> 0"
    using valid by (auto simp: ValidateVersion_ok_iff validate_tables_iff list_all_iff table_invalid_def Let_def)
  then have "(table_generation t, table_path directory (table_generation t)) \<in> set (ls_tables ls)"
    using cls present t by (auto simp: classified_def)
  moreover have "distinct (map fst (ls_tables ls))"
    using cls by (auto simp: classified_def strict_sorted_iff)
  ultimately show "map_of (ls_tables ls) (table_generation t) = Some (table_path directory (table_generation t))"
    by simp
qed

lemma logs_present_same:
  "(\<And>p. p \<in> snd ` set us \<Longrightarrow> file_content env' p = file_content env p) \<Longrightarrow>
     logs_present options env' us old new = logs_present options env us old new"
  by (cases "(options, env, us, old, new)" rule: logs_present.cases) auto

lemma quiet_load_version:
  assumes "quiet env" and "directory \<noteq> []" and "ls_manifest ls"
    and bs: "file_content env (JoinPath directory kManifestFileName) = Some bs" "DecodeManifest bs options = Inr v"
  shows "load_version directory options ls env = (Inr v, env)"
proof -
  let ?path = "JoinPath directory kManifestFileName"
  have "?path \<noteq> []"
    by (simp add: JoinPath_def kManifestFileName_def)
  then have "OpenReadOnly ?path env = (Inr (plain_file ?path bs), env)"
    by (rule quiet_OpenReadOnly [OF assms(1) _ bs(1)])
  moreover have small: "length bs \<le> kMaximumManifestSize"
    using bs(2) by (simp add: DecodeManifest_Inr_iff manifest_header_def)
  then have "benign_file (plain_file ?path bs)"
    by (intro plain_file_benign) simp
  then have "LoadManifest directory options (Inr (plain_file ?path bs)) = Inr v"
    using LoadManifest_benign [OF assms(2), of "plain_file ?path bs"] small bs(2) by simp
  ultimately show ?thesis
    using assms(3) by (simp add: load_version_def)
qed

text \<open>After opening with at most one log: its records are all there is in it, and the files of the version are untouched.\<close>

definition reopened :: "string \<Rightarrow> Env \<Rightarrow> string set \<Rightarrow> Version \<Rightarrow> Database \<Rightarrow> WalRecord list \<Rightarrow> bool" where
  "reopened directory env names v db new \<longleftrightarrow>
     (let env' = db_environment db; path = WalPath directory (db_mutable_generation db) in
      (\<exists>i. db_wal db = Some (i, new_WalWriter (db_options db) (Some (env_inodes env' i))) \<and> env_names env' path = Some i) \<and>
      db_directory db = directory \<and> unshared env' \<and> env_disk env' = env_names env' \<and> (on_disk env \<longrightarrow> on_disk env') \<and>
      (GenerationFileName (db_mutable_generation db) ''wal'' \<in> names \<or> file_content env path = None \<longrightarrow>
         file_content env' path = Some (wal.log new)) \<and>
      (\<forall>p \<in> live_files directory v. file_content env' p = file_content env p) \<and>
      (\<forall>p. p \<noteq> path \<longrightarrow> file_content env p = None \<longrightarrow> file_content env' p = None))"

lemma log_open_reopened:
  assumes open': "log_open directory e2 db" and gen: "db_mutable_generation db = os_generation st"
    and logs: "recovered_logs options v (frontier_files directory names (next_file_number v)) st old new"
      "same_but (snd ` set (frontier_files directory names (next_file_number v))) e1 e2"
      "\<forall>g p. frontier_files directory names (next_file_number v) = [(g, p)] \<longrightarrow> file_content e2 p = Some (wal.log new)"
    and e1: "unshared e1" "on_disk env \<longrightarrow> on_disk e1" "\<forall>p. file_content env p = None \<longrightarrow> file_content e1 p = None"
      "\<forall>p \<in> live_files directory v. file_content e1 p = file_content env p"
    and one: "old = []" "length (frontier_files directory names (next_file_number v)) \<le> 2"
      "logs_present options e1 (frontier_files directory names (next_file_number v)) old new"
  shows "reopened directory env names v db new"
proof -
  let ?us = "frontier_files directory names (next_file_number v)" and ?path = "WalPath directory (db_mutable_generation db)"
  have "length ?us \<noteq> 2"
    using logs(1) one(1) by (auto simp: recovered_logs_def)
  then consider "?us = []" | g p where "?us = [(g, p)]"
    using one(2) by (cases ?us rule: list.exhaust; cases "tl ?us") auto
  then have "snd ` set ?us \<subseteq> {?path} \<and>
      (GenerationFileName (db_mutable_generation db) ''wal'' \<in> names \<or> file_content env ?path = None \<longrightarrow>
       file_content e2 ?path = Some (wal.log new) \<or> file_content e2 ?path = None \<and> new = [])"
  proof cases
    case 1
    have "new = []"
      using one(3) unfolding 1 by simp
    have "db_mutable_generation db = next_file_number v" "log_numbers names (next_file_number v) = []"
      using logs(1) gen 1 by (simp_all add: recovered_logs_def frontier_files_def)
    then have "GenerationFileName (db_mutable_generation db) ''wal'' \<notin> names"
      by (simp add: log_numbers_def split: if_splits)
    moreover have "file_content e2 ?path = file_content e1 ?path"
      using logs(2) unfolding 1 by (simp add: same_but_def)
    ultimately show ?thesis
      using e1(3) \<open>new = []\<close> unfolding 1 by simp
  next
    case (2 g p)
    have "p = ?path"
      using logs(1) gen 2 unfolding frontier_files_def by (auto simp: recovered_logs_def)
    then show ?thesis
      using logs(3) 2 by simp
  qed
  then have us: "snd ` set ?us \<subseteq> {?path}"
    and content: "GenerationFileName (db_mutable_generation db) ''wal'' \<in> names \<or> file_content env ?path = None \<Longrightarrow>
      file_content e2 ?path = Some (wal.log new) \<or> file_content e2 ?path = None \<and> new = []"
    by blast+
  obtain i where i: "db_wal db = Some (i, new_WalWriter (db_options db) (Some (env_inodes (db_environment db) i)))"
      "db_directory db = directory" "appended ?path i e2 (db_environment db)"
      "env_disk (db_environment db) = env_names (db_environment db)" "on_disk e2 \<longrightarrow> on_disk (db_environment db)"
    using open' unfolding log_open_def Let_def by blast
  have e2: "env_names e2 = env_names e1" "on_disk e1 \<longrightarrow> on_disk e2" "p \<noteq> ?path \<Longrightarrow> file_content e2 p = file_content e1 p" for p
    using logs(2) us unfolding same_but_def by blast+
  have kept: "p \<noteq> ?path" if "p \<in> live_files directory v" for p
    using that GenerationFileName_names(1) GenerationFileName_names(3) [of "''wal''"]
    by (auto simp: live_files_def WalPath_def table_path_def JoinPath_inject dest: sym)
  have env': "file_content (db_environment db) p = (if p = ?path \<and> file_content e2 p = None then Some [] else file_content e2 p)"
      "env_names (db_environment db) ?path = Some i" "unshared (db_environment db)" for p
    using i(3) e1(1) unshared_same [OF e2(1)] by (simp_all add: appended_def)
  then show ?thesis
    unfolding reopened_def Let_def using i e2 e1(2-4) kept content by auto
qed

lemma quiet_open_locked:
  assumes q: "quiet env" "unshared env" and dir: "directory \<noteq> []" and fit: "options_fit options"
    and sys: "sys_iteration_error sys = None" "sys_recoveries sys = []" "sys_thread_error sys = None"
    and good: "good_directory options directory env (regular_names (sys_entries sys)) v tables old new"
  obtains db res env' us st where "open_locked fm sys directory options env = (Inr (db, res), env')"
    "opened_as db options v tables st" "recovered_logs options v us st old new" "ok (ValidateVersion v options)"
    "us = frontier_files directory (regular_names (sys_entries sys)) (next_file_number v)"
    "env_ok env \<and> old = [] \<longrightarrow> reopened directory env (regular_names (sys_entries sys)) v db new"
proof -
  let ?names = "regular_names (sys_entries sys)"
  obtain bs where bs: "file_content env (JoinPath directory kManifestFileName) = Some bs" "DecodeManifest bs options = Inr v"
    using good by (auto simp: good_directory_def)
  have valid: "ok (ValidateVersion v options)"
    using bs(2) by (auto simp: DecodeManifest_Inr_iff)
  then have n: "next_file_number v \<noteq> 0"
    by (auto simp: ValidateVersion_def split: if_splits)
  obtain ls where ls: "list_directory sys directory = Inr ls"
    using sys(1) by (simp add: list_directory_regular)
  note cls = list_directory_classified [OF ls]
  have load: "load_version directory options ls env = (Inr v, env)"
    using good cls by (intro quiet_load_version [OF q(1) dir _ bs]) (simp add: good_directory_def classified_def)
  have tables: "open_tables options (ls_tables ls) (version_tables v) env = (Inr tables, env)"
    by (rule open_tables_present [OF q(1), where directory = directory])
      (use good table_paths_found [OF cls valid] in \<open>simp_all add: good_directory_def\<close>)
  obtain orphans obsolete e1 where rm:
      "remove_files ls v env = (Inr (orphans, obsolete, frontier_files directory ?names (next_file_number v)), e1)"
      "quiet e1" "unshared e1"
      "\<And>p. p \<in> snd ` set (frontier_files directory ?names (next_file_number v)) \<Longrightarrow> file_content e1 p = file_content env p"
      "on_disk env \<longrightarrow> on_disk e1" "\<forall>p. file_content env p = None \<longrightarrow> file_content e1 p = None"
      "\<forall>p \<in> live_files directory v. file_content e1 p = file_content env p"
    using good by (elim quiet_remove_files [OF q cls n, rotated]) (auto simp: good_directory_def)
  let ?us = "frontier_files directory ?names (next_file_number v)"
  have present: "logs_present options e1 ?us old new"
    using good logs_present_same [OF rm(4)] by (simp add: good_directory_def)
  moreover have "sorted_wrt (<) (last_sequence v # map w_sequence (old @ new))"
    using good unfolding good_directory_def by blast
  ultimately obtain st e2 where logs: "recover_wals options (length ?us = 2) ?us [] (new_OpenState options v) e1 = (Inr st, e2)"
      "recovered_logs options v ?us st old new" "same_but (snd ` set ?us) e1 e2"
      "\<forall>g p. ?us = [(g, p)] \<longrightarrow> file_content e2 p = Some (wal.log new)"
    by (rule quiet_recover_wals [OF rm(2,3) fit])
  have "quiet e2"
    using logs(3) by (simp add: same_but_def)
  then obtain db res env' where "finish_open fm sys directory options v tables orphans obsolete st e2 = (Inr (db, res), env')"
      "opened_as db options v tables st" "env_wf e2 \<longrightarrow> log_open directory e2 db"
    by (rule quiet_finish_open [OF _ sys(3)])
  moreover from this(1) have "open_locked fm sys directory options env = (Inr (db, res), env')"
    unfolding open_locked_def ls load tables rm(1) sys(2) logs(1) sum.case prod.case by simp
  moreover have "reopened directory env ?names v db new" if ok: "env_ok env" "old = []"
  proof -
    have len: "length ?us \<le> 2"
      by (rule remove_files_length [OF rm(1)])
    have "env_wf e2"
      using recover_wals_result(1) [OF logs(1) len remove_files_env_ok [OF rm(1) ok(1)] fit] by (simp add: env_ok_def)
    then have "log_open directory e2 db"
      using calculation(3) by blast
    then show ?thesis
      by (rule log_open_reopened [OF _ _ logs(2-4) rm(3,5-7)]) (use calculation(2) ok(2) len present in \<open>simp_all add: opened_as_def\<close>)
  qed
  ultimately show thesis
    using that logs(2) valid by blast
qed

lemma quiet_prepare_directory:
  "quiet env \<Longrightarrow> working_system sys directory held \<Longrightarrow> prepare_directory sys directory env = (Ok, env)"
  by (cases env) (auto simp: prepare_directory_def working_system_def SyncParent_def quiet_def)

lemma Open_locked:
  assumes "\<not> open_arguments_bad directory options" and "working_system sys directory held" and "quiet env"
    and "open_locked fm sys directory options env = (Inr x, env')"
  shows "OpenWithEnvironment strerror fm sys directory options held env = (Inr x, insert (directory @ ''/LOCK'') held, env')"
  using assms quiet_prepare_directory [OF assms(3,2)]
  by (auto simp: OpenWithEnvironment_def DatabaseLock_Acquire_def working_system_def open_arguments_bad_def)

lemma open_options_fit: "\<not> open_arguments_bad directory options \<Longrightarrow> options_fit options"
  by (auto simp: open_arguments_bad_def options_fit_def)

lemma quiet_Open:
  assumes args: "\<not> open_arguments_bad directory options" and sys: "working_system sys directory held"
    and env: "quiet env" "unshared env" "env_ok env" "files_fit env"
    and good: "good_directory options directory env (regular_names (sys_entries sys)) v tables old new"
  obtains db res env' st where
    "OpenWithEnvironment strerror fm sys directory options held env = (Inr (db, res), insert (directory @ ''/LOCK'') held, env')"
    "db_version db = v" "db_tables db = tables" "IsRunningLocked db"
    "inj_on r_sequence (set (table_versions db)) \<Longrightarrow>
       db_map db = (\<lambda>key. version_value (latest_version key (map rec_of (old @ new) @ table_versions db)))"
    "opened_as db options v tables st"
    "recovered_logs options v (frontier_files directory (regular_names (sys_entries sys)) (next_file_number v)) st old new"
    "old = [] \<longrightarrow> reopened directory env (regular_names (sys_entries sys)) v db new"
proof -
  note fit = open_options_fit [OF args]
  have dir: "directory \<noteq> []" "max_key_size options \<noteq> 0"
    using args by (auto simp: open_arguments_bad_def)
  obtain db res env' us st where run: "open_locked fm sys directory options env = (Inr (db, res), env')"
      and as: "opened_as db options v tables st" "recovered_logs options v us st old new" "ok (ValidateVersion v options)"
        "us = frontier_files directory (regular_names (sys_entries sys)) (next_file_number v)"
        "env_ok env \<and> old = [] \<longrightarrow> reopened directory env (regular_names (sys_entries sys)) v db new"
    by (rule quiet_open_locked [OF env(1,2) dir(1) fit _ _ _ good]) (use sys in \<open>simp_all add: working_system_def\<close>)
  obtain v' tables' st' iw b stats where facts: "tables_agree (version_tables v') tables'" "\<forall>rd \<in> set tables'. table_ok options rd"
      "db = (new_Database directory options env' st' iw tables' v')\<lparr>db_background_work_requested := b, db_background_statistics := stats\<rparr>"
    by (rule open_locked_result [OF run env(3,4) fit dir(2)])
  have same: "v' = v" "tables' = tables"
    using facts(3) as(1) by (simp_all add: opened_as_def new_Database_def)
  have "db_map db = (\<lambda>key. version_value (latest_version key (map rec_of (old @ new) @ table_versions db)))"
    if cons: "inj_on r_sequence (set (table_versions db))"
  proof
    fix key
    show "db_map db key = version_value (latest_version key (map rec_of (old @ new) @ table_versions db))"
      by (rule opened_map [OF as(2) fit _ _ as(3) cons])
        (use facts(1,2) as(1) same in \<open>simp_all add: opened_as_def\<close>)
  qed
  then show thesis
    using that [OF Open_locked [OF args sys env(1) run]] as env(3) by (simp add: opened_as_def IsRunningLocked_def)
qed

text \<open>The object that opening returns satisfies the invariant if the tables it found allow it.\<close>

lemma Open_invariant:
  assumes "OpenWithEnvironment strerror fm sys directory options held env = (Inr (db, res), held', env')"
    and "env_ok env" and "files_fit env" and "compaction_output_size_limit options \<le> size_max"
  shows "db_inv db \<longleftrightarrow> tables_consistent db" and "db_ok db" and "IsRunningLocked db" and "db_environment db = env'"
    and "directory @ ''/LOCK'' \<in> held' - held"
proof -
  have args: "\<not> open_arguments_bad directory options"
    using assms(1) by (auto simp: OpenWithEnvironment_def)
  note opts = open_options [OF args assms(4)]
  obtain s e1 where e1: "prepare_directory sys directory env = (s, e1)"
    by force
  obtain r held1 where lock: "DatabaseLock_Acquire strerror directory (sys_lock_opens sys) (sys_flocks sys) held = (r, held1)"
    by force
  have run: "open_locked fm sys directory options e1 = (Inr (db, res), env')" and held: "held' = held1" "\<exists>l. r = Inr l"
    using assms(1) args e1 lock by (auto simp: OpenWithEnvironment_def split: if_splits sum.splits prod.splits)
  have locked: "directory @ ''/LOCK'' \<in> held' - held"
    using lock held by (auto simp: DatabaseLock_Acquire_def Let_def split: if_splits SysResult.splits)
  note same = prepare_directory_same [OF e1]
  have env1: "env_ok e1" "files_fit e1"
    using assms(2,3) env_ok_same files_fit_same same by blast+
  have "options_fit options"
    using opts(1) by (simp add: options_inv_def)
  note fit = this
  obtain v tables us st old new i w f b stats where facts: "env_ok env'" "ok (ValidateVersion v options)"
      "tables_agree (version_tables v) tables" "\<forall>rd \<in> set tables. table_ok options rd"
      "recovered_logs options v us st old new"
      and db: "db = (new_Database directory options env' st (i, w) tables v)
        \<lparr>db_background_work_requested := b, db_background_statistics := stats\<rparr>"
      and w: "ww_file w = Some f" "wal_device.device_ok f"
    by (rule open_locked_result [OF run env1 fit opts(2)])
  have fields: "db_tables db = tables" "db_version db = v" "db_options db = options" "db_mutable db = os_mutable st"
      "db_immutable db = os_immutable st" "db_last_sequence db = os_last_sequence st" "db_environment db = env'"
      "db_compaction db = None" "db_wal db = Some (i, w)" "db_state db = kRunning"
    unfolding db by (simp_all add: new_Database_def)
  note layers = opened_layers [OF facts(5) fit _ _ facts(2), of db, unfolded fields(1), OF facts(3,4) fields(3-6)]
  have "tables_match (db_version db) (db_tables db) \<longleftrightarrow> sorted (map table_generation (version_tables (db_version db)))"
    using facts(3) fields by (simp add: tables_match_def)
  moreover have "compaction_inv db" "wal_inv db" "env_ok (db_environment db)" "options_inv (db_options db)"
      "ok (ValidateVersion (db_version db) (db_options db))"
    using facts fields w opts(1) by (auto simp: compaction_inv_def wal_inv_def)
  ultimately show "db_inv db \<longleftrightarrow> tables_consistent db"
    using layers(1,3) unfolding db_inv_def tables_consistent_def by blast
  show "db_ok db" "IsRunningLocked db" "db_environment db = env'" "directory @ ''/LOCK'' \<in> held' - held"
    using layers(2) facts(1) fields w locked by (auto simp: IsRunningLocked_def)
qed

section \<open>What opening promises\<close>

text \<open>
  C4. Opening establishes the invariant of the database, exactly as far as the tables it finds allow.
  However the file system and the operating system behave, apart from calling a failed read a missing
  file, if \<open>Database::OpenWithEnvironment\<close> succeeds, with a size limit for compaction outputs that fits
  a \<open>size_t\<close> and files whose lengths fit 64 bits, then the object is running, the directory is locked, and the layers are sound and
  ordered: the MemTables are well formed, the opened tables are, and every version in a newer layer
  is newer. It satisfies the whole invariant \<open>db_inv\<close> that every operation keeps exactly when the
  manifest lists the tables in the order of their generations and the tables hold no version twice
  and no sequence number for two versions. Opening checks none of the three: they are what
  \<open>Version::Apply\<close> and the flushes and compactions of an earlier process have left, and a
  manifest of another origin opens without them.
\<close>

theorem Open_establishes_invariant:
  assumes "OpenWithEnvironment strerror fm sys directory options held env = (Inr (db, res), held', env')"
    and "env_ok env" and "files_fit env" and "compaction_output_size_limit options \<le> size_max"
  shows "db_ok db \<and> IsRunningLocked db \<and> db_environment db = env' \<and> directory @ ''/LOCK'' \<in> held' - held \<and>
    (db_inv db \<longleftrightarrow> sorted (map table_generation (version_tables (db_version db))) \<and>
       distinct (table_versions db) \<and> inj_on r_sequence (set (table_versions db)))"
  using Open_invariant [OF assms] by (simp add: tables_consistent_def)

text \<open>A directory with a manifest, a log of one record and the beginning of another, and an unfinished manifest.\<close>

definition kept_env :: Env where
  "kept_env = (let manifest = manifest_bytes NewDatabase; log = wal_bytes sample_record @ take 20 (wal_bytes sample_record);
       f = (\<lambda>path bs. \<lparr>wf_name = path, wf_data = bs, wf_durable = bs, wf_writes = [], wf_syncs = []\<rparr>);
       names = [''db/MANIFEST'' \<mapsto> 0, WalPath ''db'' 1 \<mapsto> 1, ''db/MANIFEST.tmp'' \<mapsto> 2] in
     \<lparr>env_names = names, env_disk = names,
      env_inodes = (\<lambda>i. if i = 0 then f ''db/MANIFEST'' manifest else if i = 1 then f (WalPath ''db'' 1) log else f ''db/MANIFEST.tmp'' []),
      env_next = 3, env_creates = [], env_renames = [], env_removes = [], env_dirsyncs = [], env_scripts = [], env_opens = []\<rparr>)"

definition kept_system :: OpenSystem where
  "kept_system = \<lparr>sys_created = Inr False, sys_is_directory = True, sys_lock_opens = [], sys_flocks = [],
     sys_entries = [(''MANIFEST.tmp'', RegularFile), (GenerationFileName 1 ''wal'', RegularFile), (''LOCK'', RegularFile),
       (''MANIFEST'', RegularFile), (''lost+found'', OtherEntry)],
     sys_iteration_error = None, sys_recoveries = [], sys_thread_error = None\<rparr>"

lemma kept_directory:
  "\<not> open_arguments_bad ''db'' default_Options" "working_system kept_system ''db'' {}"
  "quiet kept_env" "unshared kept_env" "env_ok kept_env" "files_fit kept_env"
  "good_directory default_Options ''db'' kept_env (regular_names (sys_entries kept_system)) NewDatabase [] [] [sample_record]"
proof -
  show "\<not> open_arguments_bad ''db'' default_Options"
    by (simp add: open_arguments_bad_def default_Options_def bad_rate_def)
  show "working_system kept_system ''db'' {}"
    by (auto simp: working_system_def kept_system_def)
  have wal: "WalPath ''db'' 1 \<noteq> ''db/MANIFEST''" "WalPath ''db'' 1 \<noteq> ''db/MANIFEST.tmp''"
    by (simp_all add: WalPath_def JoinPath_def GenerationFileName_def Let_def)
  show "quiet kept_env"
    by (simp add: quiet_def kept_env_def Let_def)
  show "unshared kept_env"
    using wal by (auto simp: unshared_def kept_env_def Let_def split: if_splits)
  have synced: "wal_device.device_ok \<lparr>wf_name = p, wf_data = bs, wf_durable = bs, wf_writes = [], wf_syncs = []\<rparr>" for p bs
    by (auto simp: wal_device.device_ok_def intro!: exI [of _ "length bs"])
  show "env_ok kept_env"
    by (auto simp: env_ok_def env_wf_def honest_opens_def kept_env_def Let_def synced split: if_splits)
  show "files_fit kept_env"
    by (auto simp: files_fit_def kept_env_def Let_def sample_record_def NewDatabase_def split: if_splits)
  show "good_directory default_Options ''db'' kept_env (regular_names (sys_entries kept_system)) NewDatabase [] [] [sample_record]"
  proof -
    have names: "regular_names (sys_entries kept_system) = {''MANIFEST.tmp'', GenerationFileName 1 ''wal'', ''LOCK'', ''MANIFEST''}"
      by (auto simp: regular_names_def kept_system_def)
    have only: "g = 1" if "GenerationFileName g ''wal'' \<in> regular_names (sys_entries kept_system)" for g
      using that length_GenerationFileName [of g "''wal''"] unfolding names by (auto simp: GenerationFileName_inject)
    have "DecodeManifest (manifest_bytes NewDatabase) default_Options = Inr NewDatabase"
      using DecodeManifest_bytes [OF NewDatabase_encodable] by (simp add: strip_def NewDatabase_def)
    moreover have "file_content kept_env ''db/MANIFEST'' = Some (manifest_bytes NewDatabase)"
      using wal by (simp add: file_content_def kept_env_def Let_def)
    moreover have "file_content kept_env (WalPath ''db'' 1) = Some (wal.log [sample_record] @ take 20 (wal_bytes sample_record))"
      using wal by (simp add: file_content_def kept_env_def Let_def)
    moreover have "good_log default_Options [sample_record]"
      using good_logI [OF default_Options_fit, of "[sample_record]"] sample_record_encodable by (simp add: sample_record_def)
    then have "log_file default_Options (wal.log [sample_record] @ take 20 (wal_bytes sample_record)) [sample_record]"
      using sample_record_encodable
      by (auto simp: log_file_def torn_tail_def sample_record_def intro!: exI [of _ sample_record] exI [of _ 20])
    moreover have "log_numbers (regular_names (sys_entries kept_system)) 1 = [1]"
      using only [of 2] by (auto simp: log_numbers_def names)
    ultimately show ?thesis
      using only names by (auto simp: good_directory_def NewDatabase_def kManifestFileName_def JoinPath_def
        frontier_files_def sample_record_def WalPath_def)
  qed
qed

theorem Open_establishes_invariant_witness:
  "\<exists>db res held env'. OpenWithEnvironment (\<lambda>_. ''error'') sample_math kept_system ''db'' default_Options {} kept_env =
     (Inr (db, res), held, env') \<and> db_inv db \<and> IsRunningLocked db \<and> ''db/LOCK'' \<in> held"
proof -
  obtain db res env' where run: "OpenWithEnvironment (\<lambda>_. ''error'') sample_math kept_system ''db'' default_Options {} kept_env =
      (Inr (db, res), insert (''db'' @ ''/LOCK'') {}, env')" "db_version db = NewDatabase" "db_tables db = []"
    by (rule quiet_Open [OF kept_directory])
  from Open_establishes_invariant [OF run(1) kept_directory(5,6)] show ?thesis
    using run by (auto simp: default_Options_def table_versions_def NewDatabase_def)
qed

text \<open>
  C2. Opening restores what the directory holds. The operating system works: no call fails, the
  directory is not locked, a thread can be started, and no two names stand for
  one file. The manifest decodes to a version; every table it names opens and agrees with it; no log
  has a number more than one above the frontier of the version; and the logs at the frontier (at
  most two) are sequences of records that the options allow and a MemTable can take, the last of
  each possibly torn. The records are numbered as the write path numbers them: through the older log
  and then the newer one the sequence numbers increase, from above the last sequence number of the
  manifest; and where there are two logs, the older one has a complete record. Then
  \<open>Database::OpenWithEnvironment\<close> succeeds, whatever unfinished, unreferenced or obsolete files the
  directory has besides, with that version and those tables. And provided that no two versions in
  the tables share a sequence number, the database maps every key to the value of the record with
  the largest sequence number among all the records of the logs and the tables, or to nothing when
  that is a tombstone: no logged write is lost and nothing else appears.
\<close>

theorem Open_restores:
  assumes "\<not> open_arguments_bad directory options" and "working_system sys directory held"
    and "quiet env" and "unshared env" and "env_ok env" and "files_fit env"
    and "good_directory options directory env (regular_names (sys_entries sys)) v tables old new"
  shows "\<exists>db res env'. OpenWithEnvironment strerror fm sys directory options held env =
        (Inr (db, res), insert (directory @ ''/LOCK'') held, env') \<and>
      db_version db = v \<and> db_tables db = tables \<and> IsRunningLocked db \<and>
      (inj_on r_sequence (set (table_versions db)) \<longrightarrow>
        db_map db = (\<lambda>key. version_value (latest_version key (map rec_of (old @ new) @ table_versions db))))"
  by (rule quiet_Open [OF assms]) blast

theorem Open_restores_witness:
  "\<exists>db res env'. OpenWithEnvironment (\<lambda>_. ''error'') sample_math kept_system ''db'' default_Options {} kept_env =
     (Inr (db, res), {''db/LOCK''}, env') \<and> db_map db [107] = Some [118, 119] \<and> db_map db [108] = None"
proof -
  from Open_restores [OF kept_directory, of "\<lambda>_. ''error''" sample_math] obtain db res env' where
      run: "OpenWithEnvironment (\<lambda>_. ''error'') sample_math kept_system ''db'' default_Options {} kept_env =
        (Inr (db, res), {''db/LOCK''}, env')" "db_version db = NewDatabase" "db_tables db = []"
      "inj_on r_sequence (set (table_versions db)) \<longrightarrow> db_map db = (\<lambda>key. version_value (latest_version key (map rec_of ([] @ [sample_record]) @ table_versions db)))"
    by auto
  then have "db_map db = (\<lambda>key. version_value (latest_version key [rec_of sample_record]))"
    by (simp add: table_versions_def NewDatabase_def)
  then show ?thesis
    using run(1) by (simp add: version_value_def sample_record_def)
qed

section \<open>A directory without a manifest\<close>

lemma NewDatabase_encodes: "max_key_size options \<noteq> 0 \<Longrightarrow> encodable_version options NewDatabase"
  by (simp add: encodable_version_def ValidateVersion_def NewDatabase_def level_one_tables_def maximum_table_sequence_def)

lemma quiet_publish_file:
  assumes "quiet env" and "publish_file path bs env = (s, env')"
  shows "s = Ok" and "quiet env'"
proof -
  let ?f = "\<lparr>wf_name = path @ ''.tmp'', wf_data = [], wf_durable = [], wf_writes = [], wf_syncs = []\<rparr>"
  obtain g t where g: "WriteAll ?f bs = (g, t)"
    by force
  have "t = Ok"
    using g write_loop_benign [of ?f bs 0] by (simp add: WriteAll_def)
  moreover have "wf_syncs g = []"
    using g by (rule WriteAll_appends) simp
  ultimately show "s = Ok" "quiet env'"
    using assms g
    by (auto simp: publish_file_def CreateTruncated_def env_write_def env_sync_def Rename_def SyncDirectory_def
        Sync_def quiet_def Let_def)
qed

lemma quiet_PublishManifest:
  assumes q: "quiet env" "unshared env" "env_ok env" "files_fit env" and args: "directory \<noteq> []" "max_key_size options \<noteq> 0"
  obtains env' where "PublishManifest directory NewDatabase options env = (Ok, env')" "quiet env'" "unshared env'"
    "env_ok env'" "files_fit env'" "file_content env' (JoinPath directory kManifestFileName) = Some (manifest_bytes NewDatabase)"
proof -
  let ?path = "JoinPath directory kManifestFileName" and ?bs = "manifest_bytes NewDatabase"
  obtain s env' where run: "publish_file ?path ?bs env = (s, env')"
    by force
  have enc: "EncodeManifest NewDatabase options = Inr ?bs"
    using NewDatabase_encodes [OF args(2)] EncodeManifest_Inr_iff by blast
  note ok = quiet_publish_file [OF q(1) run]
  then have pub: "PublishManifest directory NewDatabase options env = (Ok, env')"
    using run enc args(1) by (simp add: PublishManifest_def)
  obtain f where f: "wf_data f = ?bs" "env_inodes env' = (env_inodes env)(env_next env := f)"
      "env_names env' = (env_names env)(?path @ ''.tmp'' := None, ?path \<mapsto> env_next env)"
    using publish_file_published [OF run] ok(1) by (auto simp: published_def Let_def)
  have fresh: "env_names env p \<noteq> Some (env_next env)" for p
    using q(3) by (auto simp: env_ok_def env_wf_def)
  have "length ?bs \<le> u64_max"
    by (simp add: NewDatabase_def)
  then have "unshared env'" "files_fit env'" "file_content env' ?path = Some ?bs"
    using f fresh q(2,4) by (auto simp: unshared_def files_fit_def file_content_def split: if_splits)
  moreover have "env_ok env'"
    using q(3) PublishManifest_wf [OF pub] PublishManifest_opens [OF pub] by (simp add: env_ok_def honest_opens_def)
  ultimately show thesis
    using that pub ok(2) by blast
qed

text \<open>Once the manifest is there, opening goes on as if it had been listed.\<close>

lemma list_directory_manifest:
  assumes "list_directory sys directory = Inr ls" and "sys_entries sys' = sys_entries sys @ [(kManifestFileName, RegularFile)]"
    and "sys_iteration_error sys' = sys_iteration_error sys"
  shows "list_directory sys' directory = Inr (ls\<lparr>ls_manifest := True\<rparr>)"
  using assms by (auto simp: list_directory_regular classify_entry_def split: option.splits)

lemma open_locked_initialised:
  assumes ls: "list_directory sys directory = Inr ls" "\<not> ls_manifest ls" "ls_tables ls = []" "ls_wals ls = []"
    and pub: "PublishManifest directory NewDatabase options env = (Ok, env')"
    and load: "load_version directory options (ls\<lparr>ls_manifest := True\<rparr>) env' = (Inr NewDatabase, env')"
  shows "open_locked fm sys directory options env =
    open_locked fm (sys\<lparr>sys_entries := sys_entries sys @ [(kManifestFileName, RegularFile)]\<rparr>) directory options env'"
proof -
  let ?sys = "sys\<lparr>sys_entries := sys_entries sys @ [(kManifestFileName, RegularFile)]\<rparr>"
  have listed: "list_directory ?sys directory = Inr (ls\<lparr>ls_manifest := True\<rparr>)"
    by (rule list_directory_manifest [OF ls(1)]) simp_all
  have first: "load_version directory options ls env = (Inr NewDatabase, env')"
    using ls pub by (simp add: load_version_def)
  have "StartBackgroundWorker ?sys = StartBackgroundWorker sys"
    by (simp add: StartBackgroundWorker_def fun_eq_iff)
  then have finish: "finish_open fm ?sys = finish_open fm sys"
    by (intro ext) (simp only: finish_open_def)
  have fields: "ls_temporaries (ls\<lparr>ls_manifest := True\<rparr>) = ls_temporaries ls" "ls_tables (ls\<lparr>ls_manifest := True\<rparr>) = ls_tables ls"
      "ls_wals (ls\<lparr>ls_manifest := True\<rparr>) = ls_wals ls" "sys_recoveries ?sys = sys_recoveries sys"
    by simp_all
  have "remove_files (ls\<lparr>ls_manifest := True\<rparr>) NewDatabase e = remove_files ls NewDatabase e" for e
    unfolding remove_files_def orphan_paths_def fields ..
  then show ?thesis
    unfolding open_locked_def ls(1) listed sum.case first load prod.case finish fields by presburger
qed

lemma listed_files:
  assumes "classified directory names ls"
  shows "ls_tables ls \<noteq> [] \<or> ls_wals ls \<noteq> [] \<longleftrightarrow>
    (\<exists>g ext. g \<noteq> 0 \<and> ext \<in> {''sst'', ''wal''} \<and> GenerationFileName g ext \<in> names)"
  using assms unfolding classified_def set_empty [symmetric] by auto

lemma Open_locked_run:
  assumes "\<not> open_arguments_bad directory options" and "working_system sys directory held" and "quiet env"
    and "OpenWithEnvironment strerror fm sys directory options held env = (Inr x, held', env')"
  shows "open_locked fm sys directory options env = (Inr x, env')"
  using assms(1,2,4) quiet_prepare_directory [OF assms(3,2)]
  by (auto simp: OpenWithEnvironment_def DatabaseLock_Acquire_def working_system_def open_arguments_bad_def
      split: sum.splits prod.splits)

lemma Open_refused:
  assumes "\<not> open_arguments_bad directory options" and "working_system (sys\<lparr>sys_iteration_error := None\<rparr>) directory held"
    and "quiet env" and "open_locked fm sys directory options env = (Inl s, env')"
  shows "OpenWithEnvironment strerror fm sys directory options held env = (Inl s, held, env')"
proof -
  have "prepare_directory sys directory env = (Ok, env)"
    using assms(2,3) by (cases env) (auto simp: prepare_directory_def working_system_def SyncParent_def quiet_def)
  then show ?thesis
    using assms
    by (auto simp: OpenWithEnvironment_def DatabaseLock_Acquire_def DatabaseLock_Release_def working_system_def open_arguments_bad_def)
qed

lemma Open_initialises:
  assumes args: "\<not> open_arguments_bad directory options" and sys: "working_system sys directory held"
    and env: "quiet env" "unshared env" "env_ok env" "files_fit env"
    and none: "kManifestFileName \<notin> regular_names (sys_entries sys)"
      "\<not> (\<exists>g ext. g \<noteq> 0 \<and> ext \<in> {''sst'', ''wal''} \<and> GenerationFileName g ext \<in> regular_names (sys_entries sys))"
  obtains db res env' where
    "OpenWithEnvironment strerror fm sys directory options held env = (Inr (db, res), insert (directory @ ''/LOCK'') held, env')"
    "db_version db = NewDatabase" "db_tables db = []" "db_map db = Map.empty" "IsRunningLocked db"
    "file_content env' (JoinPath directory kManifestFileName) = Some (manifest_bytes NewDatabase)"
    "env_disk env' = env_names env'"
proof -
  have dir: "directory \<noteq> []" "max_key_size options \<noteq> 0"
    using args by (auto simp: open_arguments_bad_def)
  let ?sys = "sys\<lparr>sys_entries := sys_entries sys @ [(kManifestFileName, RegularFile)]\<rparr>"
  obtain ls where ls: "list_directory sys directory = Inr ls"
    using sys by (simp add: list_directory_regular working_system_def)
  note cls = list_directory_classified [OF ls]
  have seen: "\<not> ls_manifest ls" "ls_tables ls = []" "ls_wals ls = []"
    using none listed_files [OF cls] cls by (auto simp: classified_def)
  obtain e1 where pub: "PublishManifest directory NewDatabase options env = (Ok, e1)" "quiet e1" "unshared e1"
      "env_ok e1" "files_fit e1" "file_content e1 (JoinPath directory kManifestFileName) = Some (manifest_bytes NewDatabase)"
    by (rule quiet_PublishManifest [OF env dir])
  have decode: "DecodeManifest (manifest_bytes NewDatabase) options = Inr NewDatabase"
    using DecodeManifest_bytes [OF NewDatabase_encodes [OF dir(2)]] by (simp add: strip_def NewDatabase_def)
  have load: "load_version directory options (ls\<lparr>ls_manifest := True\<rparr>) e1 = (Inr NewDatabase, e1)"
    by (rule quiet_load_version [OF pub(2) dir(1) _ pub(6) decode]) simp
  have names: "regular_names (sys_entries ?sys) = insert kManifestFileName (regular_names (sys_entries sys))"
    by (auto simp: regular_names_def)
  have logs: "GenerationFileName g ''wal'' \<in> regular_names (sys_entries ?sys) \<Longrightarrow> g = 0" for g
    using none(2) GenerationFileName_names(3) [of "''wal''"] unfolding names by fastforce
  then have "log_numbers (regular_names (sys_entries ?sys)) 1 = []"
    by (force simp: log_numbers_def)
  then have good: "good_directory options directory e1 (regular_names (sys_entries ?sys)) NewDatabase [] [] []"
    using pub(6) decode logs names by (auto simp: good_directory_def NewDatabase_def frontier_files_def)
  have sys': "working_system ?sys directory held"
    using sys by (simp add: working_system_def)
  obtain db res env' where run: "OpenWithEnvironment strerror fm ?sys directory options held e1 =
        (Inr (db, res), insert (directory @ ''/LOCK'') held, env')"
      and db: "db_version db = NewDatabase" "db_tables db = []" "IsRunningLocked db"
      "inj_on r_sequence (set (table_versions db)) \<Longrightarrow>
         db_map db = (\<lambda>key. version_value (latest_version key (map rec_of ([] @ []) @ table_versions db)))"
      "reopened directory e1 (regular_names (sys_entries ?sys)) NewDatabase db []"
    by (rule quiet_Open [OF args sys' pub(2-5) good, where strerror = strerror and fm = fm]) blast
  note locked = Open_locked_run [OF args sys' pub(2) run]
  have "db_environment db = env'"
    by (rule open_locked_result [OF locked pub(4,5) open_options_fit [OF args] dir(2)]) (simp add: new_Database_def)
  moreover have "db_map db = Map.empty"
    using db(2,4) by (auto simp: table_versions_def version_value_def)
  moreover have "open_locked fm sys directory options env = (Inr (db, res), env')"
    using open_locked_initialised [OF ls seen pub(1) load] locked by simp
  ultimately show thesis
    using that [OF Open_locked [OF args sys env(1)]] db(1-3,5) pub(6) by (simp add: reopened_def live_files_def Let_def)
qed

text \<open>
  C21. Opening a directory in which no regular file \<open>MANIFEST\<close> is seen, on an operating system that
  works. If the iteration over the entries fails, \<open>Database::OpenWithEnvironment\<close> reports that; if a
  table or a log is seen, it reports files of another format; either way nothing is changed and the
  lock is released. Otherwise it succeeds with an empty database and the manifest on the disk is
  that of a new database. An entry is seen when \<open>is_regular_file\<close> says yes. An entry
  whose status cannot be read is not: the error goes to the variable that the following \<open>increment\<close>
  overwrites. So a manifest that is there, with whatever content, but cannot be inspected at this
  moment is replaced by an empty one.
\<close>

theorem Open_without_manifest:
  assumes "\<not> open_arguments_bad directory options" and "working_system (sys\<lparr>sys_iteration_error := None\<rparr>) directory held"
    and "quiet env" and "unshared env" and "env_ok env" and "files_fit env"
    and "(kManifestFileName, RegularFile) \<notin> set (sys_entries sys)"
  shows "case sys_iteration_error sys of
      Some msg \<Rightarrow> OpenWithEnvironment strerror fm sys directory options held env =
        (Inl (IOError (''scan database directory '' @ quoted directory @ '': '' @ msg)), held, env)
    | None \<Rightarrow>
      if \<exists>g ext. g \<noteq> 0 \<and> ext \<in> {''sst'', ''wal''} \<and> (GenerationFileName g ext, RegularFile) \<in> set (sys_entries sys)
      then OpenWithEnvironment strerror fm sys directory options held env =
        (Inl (VersionMismatch ''database contains legacy files but no supported MANIFEST''), held, env)
      else \<exists>db res env'. OpenWithEnvironment strerror fm sys directory options held env =
          (Inr (db, res), insert (directory @ ''/LOCK'') held, env') \<and>
        db_version db = NewDatabase \<and> db_tables db = [] \<and> db_map db = Map.empty \<and> IsRunningLocked db \<and>
        file_content env' (JoinPath directory kManifestFileName) = Some (manifest_bytes NewDatabase) \<and>
        env_disk env' = env_names env'"
proof (cases "sys_iteration_error sys")
  case (Some msg)
  have "open_locked fm sys directory options env =
      (Inl (IOError (''scan database directory '' @ quoted directory @ '': '' @ msg)), env)"
    unfolding open_locked_def list_directory_regular Some by simp
  then show ?thesis
    using Open_refused [OF assms(1-3)] Some by simp
next
  case None
  then have sys: "working_system sys directory held"
    using assms(2) by (simp add: working_system_def)
  have names: "regular_names (sys_entries sys) = {name. (name, RegularFile) \<in> set (sys_entries sys)}"
    by (simp add: regular_names_def)
  show ?thesis
  proof (cases "\<exists>g ext. g \<noteq> 0 \<and> ext \<in> {''sst'', ''wal''} \<and> (GenerationFileName g ext, RegularFile) \<in> set (sys_entries sys)")
    case True
    obtain ls where ls: "list_directory sys directory = Inr ls"
      using None by (simp add: list_directory_regular)
    have "load_version directory options ls env =
        (Inl (VersionMismatch ''database contains legacy files but no supported MANIFEST''), env)"
      using listed_files [OF list_directory_classified [OF ls]] list_directory_classified [OF ls] True assms(7)
      unfolding names load_version_def by (simp add: classified_def)
    then have "open_locked fm sys directory options env =
        (Inl (VersionMismatch ''database contains legacy files but no supported MANIFEST''), env)"
      unfolding open_locked_def ls by simp
    then show ?thesis
      using Open_refused [OF assms(1-3)] None True by simp
  next
    case False
    obtain db res env' where
        "OpenWithEnvironment strerror fm sys directory options held env = (Inr (db, res), insert (directory @ ''/LOCK'') held, env')"
        "db_version db = NewDatabase" "db_tables db = []" "db_map db = Map.empty" "IsRunningLocked db"
        "file_content env' (JoinPath directory kManifestFileName) = Some (manifest_bytes NewDatabase)"
        "env_disk env' = env_names env'"
      by (rule Open_initialises [OF assms(1) sys assms(3-6)]) (use assms(7) False in \<open>simp_all add: names\<close>)
    then show ?thesis
      unfolding None option.case if_not_P [OF False] by blast
  qed
qed

text \<open>The manifest and the log of \<open>kept_env\<close>, and neither can be inspected: the record in the log is not found.\<close>

theorem Open_without_manifest_witness:
  "let sys = kept_system\<lparr>sys_entries := [(''MANIFEST'', StatusFails ''I/O error''), (GenerationFileName 1 ''wal'', StatusFails ''I/O error'')]\<rparr> in
   \<exists>db res env'. OpenWithEnvironment (\<lambda>_. ''error'') sample_math sys ''db'' default_Options {} kept_env =
     (Inr (db, res), {''db/LOCK''}, env') \<and> db_map db [107] = None"
proof -
  let ?sys = "kept_system\<lparr>sys_entries := [(''MANIFEST'', StatusFails ''I/O error''), (GenerationFileName 1 ''wal'', StatusFails ''I/O error'')]\<rparr>"
  have sys: "working_system (?sys\<lparr>sys_iteration_error := None\<rparr>) ''db'' {}"
    by (auto simp: working_system_def kept_system_def)
  have none: "(kManifestFileName, RegularFile) \<notin> set (sys_entries ?sys)"
    "\<not> (\<exists>g ext. g \<noteq> 0 \<and> ext \<in> {''sst'', ''wal''} \<and> (GenerationFileName g ext, RegularFile) \<in> set (sys_entries ?sys))"
    "sys_iteration_error ?sys = None"
    by (simp_all add: kept_system_def)
  from Open_without_manifest [OF kept_directory(1) sys kept_directory(3-6) none(1), of "\<lambda>_. ''error''" sample_math]
  show ?thesis
    unfolding none(3) option.case if_not_P [OF none(2)] Let_def by auto
qed

end
