(* ===== verification/OpenSafety.thy ===== *)
theory OpenSafety
  imports Restart
begin

text \<open>
  What opening leaves alone. Whatever fails on the way, \<open>Open\<close> removes only files that the version
  in the manifest does not need, cuts only logs, and creates only logs: the manifest and the tables
  it names stay as they are, for the running system and after a crash.
\<close>

section \<open>Guarded files\<close>

text \<open>The inodes behind a set of names, now or after a crash.\<close>

definition behind :: "string set \<Rightarrow> Env \<Rightarrow> nat set" where
  "behind P env = {i. \<exists>p \<in> P. env_names env p = Some i \<or> env_disk env p = Some i}"

text \<open>The files of \<open>P\<close> are in \<open>env\<close> what they were in \<open>before\<close>, and no other name leads to them.\<close>

definition guarded :: "string set \<Rightarrow> Env \<Rightarrow> Env \<Rightarrow> bool" where
  "guarded P before env \<longleftrightarrow>
     (\<forall>p \<in> P. env_names env p = env_names before p \<and> env_disk env p \<in> {env_disk before p, env_names before p}) \<and>
     (\<forall>i \<in> behind P before. env_inodes env i = env_inodes before i \<and> i < env_next env) \<and>
     (\<forall>p i. p \<notin> P \<longrightarrow> env_names env p = Some i \<longrightarrow> i \<notin> behind P before)"

definition unlinked :: "Env \<Rightarrow> bool" where
  "unlinked env \<longleftrightarrow> (\<forall>p q i. env_names env p = Some i \<longrightarrow> env_names env q = Some i \<or> env_disk env q = Some i \<longrightarrow> p = q)"

lemma guarded_start: "env_wf env \<Longrightarrow> unlinked env \<Longrightarrow> guarded P env env"
  unfolding guarded_def behind_def env_wf_def unlinked_def by blast

lemma guarded_same: "same_dir env env' \<Longrightarrow> guarded P before env' = guarded P before env"
  by (simp add: same_dir_def guarded_def)

lemma guarded_content:
  assumes g: "guarded P before env" and p: "p \<in> P"
  shows "file_content env p = file_content before p"
    and "crash_content env p c \<Longrightarrow> crash_content before p c"
proof -
  have names: "env_names env p = env_names before p" "env_disk env p \<in> {env_disk before p, env_names before p}"
    using g p by (auto simp: guarded_def)
  have inodes: "env_inodes env i = env_inodes before i" if "env_names before p = Some i \<or> env_disk before p = Some i" for i
    using g p that unfolding guarded_def behind_def by blast
  show "file_content env p = file_content before p"
    using names(1) inodes by (cases "env_names before p") (simp_all add: file_content_def)
  assume "crash_content env p c"
  then obtain entry where entry: "entry \<in> {env_names before p, env_disk before p}"
      "case entry of None \<Rightarrow> c = None | Some i \<Rightarrow> \<exists>bs. c = Some bs \<and> wal_device.crash_image (env_inodes env i) bs"
    unfolding crash_content_def using names by auto
  then have "case entry of None \<Rightarrow> c = None | Some i \<Rightarrow> \<exists>bs. c = Some bs \<and> wal_device.crash_image (env_inodes before i) bs"
    using inodes by (cases entry) auto
  then show "crash_content before p c"
    unfolding crash_content_def using entry(1) by blast
qed

section \<open>The steps of opening\<close>

named_theorems guard_steps "operations that keep the guarded files"

lemma guarded_RemoveFile [guard_steps]:
  "RemoveFile p env = (s, env') \<Longrightarrow> p \<notin> P \<Longrightarrow> guarded P before env \<Longrightarrow> guarded P before env'"
  by (auto simp: RemoveFile_def guarded_def Let_def split: prod.splits if_splits)

lemma guarded_SyncDirectory [guard_steps]:
  "SyncDirectory env = (s, env') \<Longrightarrow> guarded P before env \<Longrightarrow> guarded P before env'"
  by (auto simp: SyncDirectory_def guarded_def Let_def split: prod.splits if_splits)

lemma guarded_create:
  "guarded P before env \<Longrightarrow> p \<notin> P \<Longrightarrow> env_names env' = (env_names env)(p \<mapsto> env_next env) \<Longrightarrow>
    env_disk env' = env_disk env \<Longrightarrow> env_inodes env' = (env_inodes env)(env_next env := f) \<Longrightarrow>
    env_next env' = env_next env + 1 \<Longrightarrow> guarded P before env'"
  unfolding guarded_def by (auto simp: less_Suc_eq)

lemma guarded_OpenAppend [guard_steps]:
  assumes "OpenAppend p env = (r, env')" and "p \<notin> P" and "guarded P before env"
  shows "guarded P before env'"
proof -
  obtain st rest where st: "next_status (env_creates env) = (st, rest)"
    by force
  obtain writes syncs scripts where sc: "next_script (env_scripts env) = ((writes, syncs), scripts)"
    by (metis prod.exhaust)
  show ?thesis
  proof (cases "p = [] \<or> \<not> ok st \<or> env_names env p \<noteq> None")
    case True
    then have "same_dir env env'"
      using assms(1) st sc by (auto simp: OpenAppend_def same_dir_def Let_def split: if_splits)
    then show ?thesis
      using guarded_same assms(3) by blast
  next
    case False
    then have "env' = env\<lparr>env_creates := rest, env_names := (env_names env)(p \<mapsto> env_next env),
        env_inodes := (env_inodes env)(env_next env := \<lparr>wf_name = p, wf_data = [], wf_durable = [],
          wf_writes = writes, wf_syncs = syncs\<rparr>), env_next := env_next env + 1, env_scripts := scripts\<rparr>"
      using assms(1) st sc by (auto simp: OpenAppend_def Let_def)
    then show ?thesis
      by (intro guarded_create [OF assms(3,2)]) simp_all
  qed
qed

lemma guarded_OpenRecovery:
  assumes "OpenRecovery p script env = (r, env')" and "p \<notin> P" and "guarded P before env"
  shows "guarded P before env'" and "r = Inr (i, f) \<Longrightarrow> i \<notin> behind P before"
proof -
  have *: "env' = env \<or> (\<exists>f. env' = env\<lparr>env_names := (env_names env)(p \<mapsto> env_next env),
      env_inodes := (env_inodes env)(env_next env := f), env_next := env_next env + 1\<rparr>)"
    using assms(1) by (auto simp: OpenRecovery_def Let_def split: prod.splits if_splits option.splits)
  then show g: "guarded P before env'"
    using guarded_create [OF assms(3,2)] assms(3) by auto
  show "i \<notin> behind P before" if "r = Inr (i, f)"
  proof -
    have "env_names env' p = Some i"
      using assms(1) that by (auto simp: OpenRecovery_def Let_def split: prod.splits if_splits option.splits)
    then show ?thesis
      using g assms(2) by (auto simp: guarded_def)
  qed
qed

lemma guarded_recover_file [guard_steps]:
  assumes "recover_file p options script env = (r, env')" and "p \<notin> P" and "guarded P before env"
  shows "guarded P before env'"
proof -
  obtain opened e1 where o: "OpenRecovery p script env = (opened, e1)"
    by force
  note g = guarded_OpenRecovery [OF o assms(2,3)]
  show ?thesis
  proof (cases opened)
    case (Inr x)
    then obtain i f where x: "opened = Inr (i, f)"
      by (cases x) auto
    then obtain f' b where "env' = CloseRecovery i f' b e1"
      using assms(1) o by (auto simp: recover_file_def split: prod.splits)
    then show ?thesis
      using g(1) g(2) [OF x] by (auto simp: guarded_def CloseRecovery_def Let_def)
  qed (use assms(1) o g(1) in \<open>simp add: recover_file_def\<close>)
qed

lemma guarded_remove_paths:
  "remove_paths ps env = (n, s, env') \<Longrightarrow> set ps \<inter> P = {} \<Longrightarrow> guarded P before env \<Longrightarrow> guarded P before env'"
proof (induction ps arbitrary: env n)
  case (Cons p ps)
  obtain s1 e1 where e1: "RemoveFile p env = (s1, e1)"
    by force
  then have "guarded P before e1"
    using Cons.prems by (intro guarded_RemoveFile [OF e1]) auto
  then show ?case
    using Cons.IH [of e1] Cons.prems e1 by (auto split: if_splits prod.splits)
qed simp

lemma guarded_sort_wals:
  "sort_wals n ws env = (r, env') \<Longrightarrow> snd ` set ws \<inter> P = {} \<Longrightarrow> guarded P before env \<Longrightarrow>
    guarded P before env' \<and> (\<forall>m us. r = Inr (m, us) \<longrightarrow> set us \<subseteq> set ws)"
proof (induction ws arbitrary: env r env')
  case (Cons w ws)
  obtain g p where w: "w = (g, p)"
    by force
  obtain s1 e1 where e1: "RemoveFile p env = (s1, e1)"
    by force
  then have g1: "guarded P before e1"
    using Cons.prems w by (intro guarded_RemoveFile [OF e1]) auto
  obtain r1 e2 where r1: "sort_wals n ws e1 = (r1, e2)"
    by force
  obtain r3 e3 where r3: "sort_wals n ws env = (r3, e3)"
    by force
  have disj: "snd ` set ws \<inter> P = {}"
    using Cons.prems(2) by auto
  show ?case
    using Cons.prems(1,3) Cons.IH [OF r1 disj g1] Cons.IH [OF r3 disj Cons.prems(3)] e1 g1 r1 r3 w
    by (cases r1; cases r3) (auto split: if_splits)
qed simp

lemma guarded_recover_wals:
  "recover_wals options b ws scripts st env = (r, env') \<Longrightarrow> snd ` set ws \<inter> P = {} \<Longrightarrow> guarded P before env \<Longrightarrow>
    guarded P before env'"
proof (induction ws arbitrary: b scripts st env)
  case (Cons w ws)
  obtain g p where w: "w = (g, p)"
    by force
  obtain script scripts' where sc: "next_recovery scripts = (script, scripts')"
    by (metis prod.exhaust)
  obtain r1 e1 where e1: "recover_file p options script env = (r1, e1)"
    by force
  have g1: "guarded P before e1"
    using Cons.prems w by (intro guarded_recover_file [OF e1]) auto
  show ?case
    using Cons.prems(1,2) Cons.IH [of False scripts' _ e1] w sc e1 g1
    by (auto split: sum.splits prod.splits)
qed simp

section \<open>The files of a version\<close>

lemma live_files_names:
  "WalPath directory g \<notin> live_files directory v"
  "IsStorageTemporaryFile name \<Longrightarrow> JoinPath directory name \<notin> live_files directory v"
  "g \<notin> table_generation ` set (version_tables v) \<Longrightarrow> table_path directory g \<notin> live_files directory v"
proof -
  note names = GenerationFileName_names(1,2) GenerationFileName_names(3) [of "''sst''"] GenerationFileName_names(3) [of "''wal''"]
  show "WalPath directory g \<notin> live_files directory v"
    using names by (auto simp: live_files_def WalPath_def table_path_def JoinPath_inject)
  show "JoinPath directory name \<notin> live_files directory v" if "IsStorageTemporaryFile name"
    using temporary_names(1,2) [OF that] by (auto simp: live_files_def table_path_def JoinPath_inject)
  show "table_path directory g \<notin> live_files directory v" if "g \<notin> table_generation ` set (version_tables v)"
    using names that by (auto simp: live_files_def table_path_def JoinPath_inject GenerationFileName_inject)
qed

lemma guarded_remove_files:
  assumes run: "remove_files ls v env = (r, env')" and cls: "classified directory names ls"
    and g: "guarded (live_files directory v) before env"
  shows "guarded (live_files directory v) before env'"
    and "r = Inr (n, m, us) \<Longrightarrow> snd ` set us \<inter> live_files directory v = {}"
proof -
  let ?P = "live_files directory v"
  have orphans: "set (orphan_paths ls v) \<inter> ?P = {}"
    using cls live_files_names(2,3) by (auto simp: orphan_paths_def classified_def)
  have wals: "snd ` set (ls_wals ls) \<inter> ?P = {}"
    using cls live_files_names(1) by (auto simp: classified_def)
  obtain k s1 e1 where e1: "remove_paths (orphan_paths ls v) env = (k, s1, e1)"
    by (metis prod.exhaust)
  note g1 = guarded_remove_paths [OF e1 orphans g]
  obtain r2 e2 where e2: "sort_wals (next_file_number v) (ls_wals ls) e1 = (r2, e2)"
    by force
  note g2 = guarded_sort_wals [OF e2 wals g1]
  obtain s3 e3 where e3: "SyncDirectory e2 = (s3, e3)"
    by force
  have g3: "guarded ?P before e3"
    using guarded_SyncDirectory [OF e3] g2 by blast
  show "guarded ?P before env'"
    using run e1 e2 e3 g1 g2 g3
    by (auto simp: remove_files_def Let_def split: if_splits sum.splits prod.splits)
  show "snd ` set us \<inter> ?P = {}" if "r = Inr (n, m, us)"
  proof -
    have "set us \<subseteq> set (ls_wals ls)"
      using run e1 e2 e3 g2 that by (auto simp: remove_files_def Let_def split: if_splits sum.splits prod.splits)
    then show ?thesis
      using wals by blast
  qed
qed

lemma guarded_finish_open:
  assumes run: "finish_open fm sys directory options v tables n m st env = (r, env')"
    and "background_maintenance options \<longrightarrow> sys_thread_error sys = None"
    and g: "guarded (live_files directory w) before env"
  shows "guarded (live_files directory w) before env'"
proof -
  let ?path = "JoinPath directory (GenerationFileName (os_generation st) ''wal'')"
  obtain opened e1 where e1: "open_wal ?path options env = (opened, e1)"
    by force
  have "snd (OpenAppend ?path env) = e1"
    using e1 by (auto simp: open_wal_def split: prod.splits)
  then have g1: "guarded (live_files directory w) before e1"
    using live_files_names(1) [of directory "os_generation st" w] guarded_OpenAppend [OF _ _ g]
    by (metis WalPath_def prod.collapse)
  obtain s2 e2 where e2: "SyncDirectory e1 = (s2, e2)"
    by force
  note g2 = guarded_SyncDirectory [OF e2 g1]
  show ?thesis
  proof (cases "\<exists>wal. opened = Inr wal \<and> ok s2")
    case True
    then obtain wal where wal: "opened = Inr wal" "ok s2"
      by blast
    define db0 where "db0 = new_Database directory options e2 st wal tables v"
    obtain db s where db: "StartBackgroundWorker sys db0 = (db, s)"
      by force
    have s: "s = Ok"
      using db assms(2) by (auto simp: StartBackgroundWorker_def db0_def new_Database_def split: if_splits)
    have "db_environment db = e2"
      using StartBackgroundWorker_frame [of sys db0] db by (auto simp: db0_def new_Database_def)
    moreover have "env' = db_environment db"
      using run wal(2) unfolding finish_open_def e1 wal(1) e2 Let_def prod.case sum.case db0_def [symmetric] db s by simp
    ultimately show ?thesis
      using g2 by simp
  next
    case False
    then have "env' \<in> {e1, e2}"
      using run unfolding finish_open_def e1 Let_def prod.case by (cases opened) (auto simp: e2)
    then show ?thesis
      using g1 g2 by blast
  qed
qed

lemma LoadManifest_data: "LoadManifest directory options (Inr f) = Inr v \<Longrightarrow> DecodeManifest (rf_data f) options = Inr v"
proof -
  assume load: "LoadManifest directory options (Inr f) = Inr v"
  obtain n g where size: "Size f = (n, g)"
    by force
  then have g: "rf_data g = rf_data f" and n: "n = Inr k \<Longrightarrow> k = length (rf_data f)" for k
    by (auto simp: Size_def split: prod.splits if_splits)
  obtain k where k: "n = Inr k"
    using load size by (cases n) (auto simp: LoadManifest_def split: if_splits)
  obtain h r where read: "ReadAllAt g 0 k = (h, r)"
    by force
  then obtain bs where bs: "r = Inr bs"
    using load size k by (cases r) (auto simp: LoadManifest_def split: if_splits)
  have "bs = rf_data f"
    using ReadAllAt_data(2) [OF read bs] n [OF k] g by simp
  then show ?thesis
    using load size k read bs by (auto simp: LoadManifest_def split: if_splits)
qed

lemma load_version_live:
  assumes "load_version directory options ls env = (r, env')" and "ls_manifest ls"
    and "file_content env (JoinPath directory kManifestFileName) = Some bs" and "DecodeManifest bs options = Inr v"
  shows "same_dir env env'" and "r = Inr w \<Longrightarrow> w = v"
proof -
  obtain opened e1 where e1: "OpenReadOnly (JoinPath directory kManifestFileName) env = (opened, e1)"
    by force
  then have r: "r = LoadManifest directory options opened" "env' = e1"
    using assms(1,2) by (auto simp: load_version_def)
  show "same_dir env env'"
    using OpenReadOnly_frame(1) [OF e1] r(2) by simp
  show "w = v" if w: "r = Inr w"
  proof -
    obtain f where f: "opened = Inr f"
      using w r(1) by (cases opened) (auto simp: LoadManifest_def split: if_splits)
    then have "rf_data f = bs"
      using OpenReadOnly_frame(2) [OF e1 f] assms(3) by (auto simp: file_content_def)
    then show ?thesis
      using LoadManifest_data [of directory options f w] w r(1) f assms(4) by simp
  qed
qed

lemma open_tables_same: "open_tables options paths ts env = (r, env') \<Longrightarrow> same_dir env env'"
proof (induction ts arbitrary: env r)
  case (Cons t ts)
  show ?case
  proof (cases "map_of paths (table_generation t)")
    case (Some path)
    obtain opened e1 where e1: "OpenReadOnly path env = (opened, e1)"
      by force
    obtain r2 e2 where e2: "open_tables options paths ts e1 = (r2, e2)"
      by force
    have "env' \<in> {e1, e2}"
      using Cons.prems Some e1 e2 by (auto split: sum.splits if_splits)
    then show ?thesis
      using OpenReadOnly_frame(1) [OF e1] Cons.IH [of e1 r2] e2 same_dir_trans by blast
  qed (use Cons.prems in simp)
qed simp

lemma guarded_open_locked:
  assumes run: "open_locked fm sys directory options env = (r, env')"
    and thread: "background_maintenance options \<longrightarrow> sys_thread_error sys = None"
    and manifest: "kManifestFileName \<in> regular_names (sys_entries sys)"
      "file_content env (JoinPath directory kManifestFileName) = Some bs" "DecodeManifest bs options = Inr v"
    and g: "guarded (live_files directory v) before env"
  shows "guarded (live_files directory v) before env'"
proof (cases "list_directory sys directory")
  case (Inr ls)
  let ?P = "live_files directory v"
  note cls = list_directory_classified [OF Inr]
  then have ls: "ls_manifest ls"
    using manifest(1) by (simp add: classified_def)
  obtain r1 e1 where e1: "load_version directory options ls env = (r1, e1)"
    by force
  note l = load_version_live [OF e1 ls manifest(2,3)]
  have g1: "guarded ?P before e1"
    using guarded_same [OF l(1)] g by simp
  obtain r2 e2 where e2: "open_tables options (ls_tables ls) (version_tables v) e1 = (r2, e2)"
    by force
  have g2: "guarded ?P before e2"
    using guarded_same [OF open_tables_same [OF e2]] g1 by simp
  obtain r3 e3 where e3: "remove_files ls v e2 = (r3, e3)"
    by force
  note g3 = guarded_remove_files [OF e3 cls g2]
  consider (early) "env' \<in> {e1, e2, e3}"
    | (late) tables n m us where "r1 = Inr v" "r2 = Inr tables" "r3 = Inr (n, m, us)"
    using run Inr e1 e2 e3 l(2)
    by (cases r1; cases r2; cases r3) (auto simp: open_locked_def)
  then show ?thesis
  proof cases
    case late
    obtain r4 e4 where e4: "recover_wals options (length us = 2) us (sys_recoveries sys) (new_OpenState options v) e3 = (r4, e4)"
      by force
    have g4: "guarded ?P before e4"
      by (rule guarded_recover_wals [OF e4 g3(2) [OF late(3)] g3(1)])
    show ?thesis
    proof (cases r4)
      case (Inl s)
      then show ?thesis
        using run g4 unfolding open_locked_def Inr e1 late(1) sum.case prod.case e2 late(2) e3 late(3) e4 by simp
    next
      case (Inr st)
      then have "finish_open fm sys directory options v tables n m st e4 = (r, env')"
        using run unfolding open_locked_def \<open>list_directory sys directory = Inr ls\<close> e1 late(1) sum.case prod.case e2 late(2) e3 late(3) e4 by simp
      then show ?thesis
        by (rule guarded_finish_open [OF _ thread g4])
    qed
  qed (use g1 g2 g3(1) in blast)
qed (use run g in \<open>simp add: open_locked_def\<close>)

text \<open>
  C3. Opening leaves the files of the version alone. The directory has a manifest that decodes, it is
  listed as a regular file (so its status could be read), and if the options ask for a background
  thread, one can be started. Then whatever else fails, and whether \<open>Database::OpenWithEnvironment\<close>
  succeeds or reports an error, the manifest and every table of its version have the contents they
  had, and after a crash they show nothing they could not have shown before: the files that are
  removed as temporary, unreferenced or obsolete, and the logs that are cut or created, are other
  ones. Both conditions are needed. A manifest that is not listed as a regular file is taken to be
  missing and may be replaced by that of a new database; and when the thread cannot be started, the
  half-opened database is closed again, which may flush a recovered MemTable and publish a version.
  No two names stand for one file, in the directory as it is or as it is on the disk.
\<close>

theorem Open_keeps_version:
  assumes "OpenWithEnvironment strerror fm sys directory options held env = (r, held', env')"
    and "env_wf env" and "unlinked env" and "background_maintenance options \<longrightarrow> sys_thread_error sys = None"
    and "kManifestFileName \<in> regular_names (sys_entries sys)"
    and "file_content env (JoinPath directory kManifestFileName) = Some bs" and "DecodeManifest bs options = Inr v"
    and "p \<in> live_files directory v"
  shows "file_content env' p = file_content env p \<and> (\<forall>c. crash_content env' p c \<longrightarrow> crash_content env p c)"
proof -
  obtain s e1 where e1: "prepare_directory sys directory env = (s, e1)"
    by force
  note same = prepare_directory_same [OF e1, THEN conjunct1]
  have g1: "guarded (live_files directory v) env e1"
    using guarded_same [OF same] guarded_start [OF assms(2,3)] by simp
  obtain r2 e2 where e2: "open_locked fm sys directory options e1 = (r2, e2)"
    by force
  have "file_content e1 = file_content env"
    using same by (simp add: same_dir_def file_content_def fun_eq_iff)
  then have g2: "guarded (live_files directory v) env e2"
    using assms(6) by (intro guarded_open_locked [OF e2 assms(4,5) _ assms(7) g1]) simp
  have "env' \<in> {env, e1, e2}"
    using assms(1) e1 e2 by (auto simp: OpenWithEnvironment_def split: if_splits sum.splits prod.splits)
  then have "guarded (live_files directory v) env env'"
    using guarded_start [OF assms(2,3)] g1 g2 by blast
  then show ?thesis
    using guarded_content assms(8) by blast
qed

text \<open>The unfinished manifest cannot be removed.\<close>

definition stubborn_env :: Env where
  "stubborn_env = kept_env\<lparr>env_removes := [IOError ''unlink'']\<rparr>"

theorem Open_keeps_version_witness:
  "\<exists>r held env'. OpenWithEnvironment (\<lambda>_. ''error'') sample_math kept_system ''db'' default_Options {} stubborn_env = (r, held, env') \<and>
     file_content env' ''db/MANIFEST'' = Some (manifest_bytes NewDatabase)"
proof -
  obtain r held env' where run:
      "OpenWithEnvironment (\<lambda>_. ''error'') sample_math kept_system ''db'' default_Options {} stubborn_env = (r, held, env')"
    by (metis prod.exhaust)
  have path: "JoinPath ''db'' kManifestFileName = ''db/MANIFEST''"
    by (simp add: JoinPath_def kManifestFileName_def)
  have decode: "DecodeManifest (manifest_bytes NewDatabase) default_Options = Inr NewDatabase"
    using DecodeManifest_bytes [OF NewDatabase_encodable] by (simp add: strip_def NewDatabase_def)
  have wal: "WalPath ''db'' 1 \<noteq> ''db/MANIFEST''" "WalPath ''db'' 1 \<noteq> ''db/MANIFEST.tmp''"
    by (simp_all add: WalPath_def JoinPath_def GenerationFileName_def Let_def)
  have env: "env_wf stubborn_env" "unlinked stubborn_env"
      "file_content stubborn_env (JoinPath ''db'' kManifestFileName) = Some (manifest_bytes NewDatabase)"
    using kept_directory(5) wal unfolding path
    by (auto simp: env_ok_def env_wf_def unlinked_def file_content_def stubborn_env_def kept_env_def Let_def split: if_splits)
  have sys: "background_maintenance default_Options \<longrightarrow> sys_thread_error kept_system = None" "kManifestFileName \<in> regular_names (sys_entries kept_system)"
      "JoinPath ''db'' kManifestFileName \<in> live_files ''db'' NewDatabase"
    by (auto simp: kept_system_def regular_names_def kManifestFileName_def live_files_def)
  from Open_keeps_version [OF run env(1,2) sys(1,2) env(3) decode sys(3)] show ?thesis
    using run env(3) unfolding path by auto
qed

end
