(* ===== verification/Benchmark.thy ===== *)
theory Benchmark
  imports SSTableDump OpenSafety
begin

text \<open>
  The load generator of \<^verbatim>\<open>bench/benchmark.cpp\<close>: its arguments, its keys and values, the workloads as
  programs over the operations of the database, the final verification and the exit codes. The
  measured times and the report printed from them are left out.

  Parameters stand for what the program does not determine: the numbers of \<open>std::mt19937_64\<close> and the
  order \<open>std::shuffle\<close> makes of them, which the standard leaves to the library, the scheduling of the
  reader threads, and the directory.
\<close>

section \<open>Configuration\<close>

record Config =
  workload :: string
  cf_root :: string
  cf_operations :: u64
  cf_keys :: u64
  cf_value_size :: u64
  cf_threads :: u64
  cf_memtable_bytes :: u64
  cf_seed :: u64
  cf_sync_mode :: SyncMode
  cf_bloom_enabled :: bool
  cf_compact :: bool
  cf_verify :: bool
  cf_keep_data :: bool

definition kDefaultSeed :: u64 where "kDefaultSeed = 0x4D4B5642454E4348"

definition default_Config :: Config where
  "default_Config = \<lparr>workload = [], cf_root = ''benchmark-results/runtime'', cf_operations = 10000, cf_keys = 5000,
     cf_value_size = 100, cf_threads = 4, cf_memtable_bytes = 64 * 1024, cf_seed = kDefaultSeed, cf_sync_mode = kAsync,
     cf_bloom_enabled = True, cf_compact = False, cf_verify = True, cf_keep_data = False\<rparr>"

definition ParseUnsigned :: "string \<Rightarrow> u64 option" where
  "ParseUnsigned text =
     (if text = [] then None
      else case from_chars text of
        None \<Rightarrow> None
      | Some (n, rest) \<Rightarrow> if rest = [] then Some n else None)"

definition ParseSize :: "string \<Rightarrow> u64 option" where
  "ParseSize text =
     (case ParseUnsigned text of None \<Rightarrow> None | Some n \<Rightarrow> if unat n > size_max then None else Some n)"

definition ParseOnOff :: "string \<Rightarrow> bool option" where
  "ParseOnOff text = (if text = ''on'' then Some True else if text = ''off'' then Some False else None)"

definition IsKnownWorkload :: "string \<Rightarrow> bool" where
  "IsKnownWorkload w \<longleftrightarrow>
     w = ''sequential-write'' \<or> w = ''random-write'' \<or> w = ''read-hit'' \<or> w = ''read-miss'' \<or>
     w = ''mixed-50'' \<or> w = ''mixed-95'' \<or> w = ''parallel-read''"

text \<open>The value of an option is parsed and stored, or the error is reported.\<close>

definition or_error :: "string \<Rightarrow> 'a option \<Rightarrow> ('a \<Rightarrow> Config) \<Rightarrow> string + Config" where
  "or_error msg parsed store = (case parsed of None \<Rightarrow> Inl msg | Some x \<Rightarrow> Inr (store x))"

definition set_argument :: "string \<Rightarrow> string \<Rightarrow> Config \<Rightarrow> string + Config" where
  "set_argument argument v config =
     (if argument = ''--workload'' then Inr (config\<lparr>workload := v\<rparr>)
      else if argument = ''--operations''
      then or_error ''invalid operation count'' (ParseSize v) (\<lambda>n. config\<lparr>cf_operations := n\<rparr>)
      else if argument = ''--keys'' then or_error ''invalid key count'' (ParseSize v) (\<lambda>n. config\<lparr>cf_keys := n\<rparr>)
      else if argument = ''--value-size'' then or_error ''invalid value size'' (ParseSize v) (\<lambda>n. config\<lparr>cf_value_size := n\<rparr>)
      else if argument = ''--threads'' then or_error ''invalid thread count'' (ParseSize v) (\<lambda>n. config\<lparr>cf_threads := n\<rparr>)
      else if argument = ''--memtable-bytes''
      then or_error ''invalid MemTable size'' (ParseSize v) (\<lambda>n. config\<lparr>cf_memtable_bytes := n\<rparr>)
      else if argument = ''--seed'' then or_error ''invalid seed'' (ParseUnsigned v) (\<lambda>n. config\<lparr>cf_seed := n\<rparr>)
      else if argument = ''--root'' then Inr (config\<lparr>cf_root := v\<rparr>)
      else if argument = ''--sync''
      then (if v = ''strict'' then Inr (config\<lparr>cf_sync_mode := kSync\<rparr>)
            else if v = ''async'' then Inr (config\<lparr>cf_sync_mode := kAsync\<rparr>)
            else Inl ''sync must be strict or async'')
      else if argument = ''--bloom''
      then or_error ''Bloom switch must be on or off'' (ParseOnOff v) (\<lambda>b. config\<lparr>cf_bloom_enabled := b\<rparr>)
      else if argument = ''--compact''
      then or_error ''Compaction switch must be on or off'' (ParseOnOff v) (\<lambda>b. config\<lparr>cf_compact := b\<rparr>)
      else if argument = ''--verify''
      then or_error ''verification switch must be on or off'' (ParseOnOff v) (\<lambda>b. config\<lparr>cf_verify := b\<rparr>)
      else Inl (''unknown argument: '' @ argument))"

datatype ParsedArguments = Accepted Config | Rejected string | UsagePrinted

definition check_config :: "Config \<Rightarrow> ParsedArguments" where
  "check_config config =
     (if \<not> IsKnownWorkload (workload config) then Rejected ''a known --workload is required''
      else if cf_operations config = 0 \<or> cf_keys config = 0 \<or> cf_value_size config = 0 \<or> cf_threads config = 0 \<or>
        cf_memtable_bytes config = 0
      then Rejected ''numeric options must be positive''
      else if unat (cf_value_size config) > max_value_size default_Options
      then Rejected ''value size exceeds MiniKV's default limit''
      else Accepted config)"

fun ParseArguments :: "string list \<Rightarrow> Config \<Rightarrow> ParsedArguments" where
  "ParseArguments [] config = check_config config"
| "ParseArguments (argument # rest) config =
     (if argument = ''--help'' then UsagePrinted
      else if argument = ''--keep-data'' then ParseArguments rest (config\<lparr>cf_keep_data := True\<rparr>)
      else case rest of
        [] \<Rightarrow> Rejected (''missing value for '' @ argument)
      | v # rest' \<Rightarrow>
        (case set_argument argument v config of
           Inl msg \<Rightarrow> Rejected msg
         | Inr config' \<Rightarrow> ParseArguments rest' config'))"

section \<open>Keys and vals\<close>

definition KeyFor :: "nat \<Rightarrow> bytes" where
  "KeyFor index =
     (let digits = to_string index in ascii (''key-'' @ replicate (12 - length digits) CHR ''0'' @ digits))"

definition MissingKeyFor :: "nat \<Rightarrow> bytes" where
  "MissingKeyFor index = KeyFor index @ ascii ''-missing''"

definition ValueFor :: "nat \<Rightarrow> nat \<Rightarrow> nat \<Rightarrow> bytes" where
  "ValueFor key_index version n =
     (let v = ascii (''value-'' @ to_string key_index @ ''-'' @ to_string version) in
      if length v < n then v @ replicate (n - length v) (word_of_nat (97 + key_index mod 26)) else take n v)"

section \<open>The database under load\<close>

definition benchmark_options :: "Config \<Rightarrow> Options" where
  "benchmark_options config = default_Options\<lparr>memtable_size_limit := unat (cf_memtable_bytes config),
     bloom_filter_enabled := cf_bloom_enabled config, level0_compaction_trigger := size_max\<rparr>"

definition OpenDatabase ::
  "errors \<Rightarrow> FloatMath \<Rightarrow> OpenSystem \<Rightarrow> string \<Rightarrow> Config \<Rightarrow> string set \<Rightarrow> Env \<Rightarrow> Database option \<times> string set \<times> Env" where
  "OpenDatabase strerror fm sys directory config held env =
     (case OpenWithEnvironment strerror fm sys directory (benchmark_options config) held env of
        (Inl s, held, env) \<Rightarrow> (None, held, env)
      | (Inr (db, _), held, env) \<Rightarrow> (Some db, held, env))"

record Metrics =
  m_operations :: u64
  m_reads :: u64
  m_writes :: u64
  logical_write_bytes :: u64
  logical_live_bytes :: u64
  storage_bytes :: u64
  sstable_bytes :: u64
  estimated_wal_bytes :: u64
  read_stats :: DatabaseReadStats
  verified :: bool

definition new_Metrics :: Metrics where
  "new_Metrics = \<lparr>m_operations = 0, m_reads = 0, m_writes = 0, logical_write_bytes = 0, logical_live_bytes = 0,
     storage_bytes = 0, sstable_bytes = 0, estimated_wal_bytes = 0, read_stats = empty_DatabaseReadStats, verified = True\<rparr>"

text \<open>
  The random numbers: those of the generator with a seed, and what \<open>std::shuffle\<close> with it makes of a
  list, with how many numbers it takes.
\<close>

record Randomness =
  draw :: "u64 \<Rightarrow> nat \<Rightarrow> u64"
  shuffle :: "u64 \<Rightarrow> nat list \<Rightarrow> nat list \<times> nat"

definition random_key :: "Config \<Rightarrow> u64 \<Rightarrow> nat" where
  "random_key config x = unat (x mod cf_keys config)"

text \<open>
  A workload works on the database, the expected values and the metrics. It ends with a flag for
  success; \<open>None\<close> stands for a write that waits for a background thread.
\<close>

type_synonym Load = "Database \<times> bytes list \<times> Metrics"

definition payload :: "nat \<Rightarrow> bytes \<Rightarrow> u64" where
  "payload key_index v = word_of_nat (length (KeyFor key_index) + length v)"

fun fill_loop :: "FloatMath \<Rightarrow> Config \<Rightarrow> nat \<Rightarrow> nat \<Rightarrow> nat \<Rightarrow> nat list \<Rightarrow> Load \<Rightarrow> (bool \<times> Load) option" where
  "fill_loop fm config batch_size count_all position [] (db, vals, m) = Some (True, db, vals, m)"
| "fill_loop fm config batch_size count_all position (key_index # order) (db, vals, m) =
     (let v = ValueFor key_index 0 (unat (cf_value_size config)); vals = vals[key_index := v] in
      case Database_Put fm (KeyFor key_index) v kAsync db of
        None \<Rightarrow> None
      | Some (db, s) \<Rightarrow>
        if \<not> ok s then Some (False, db, vals, m)
        else let m = m\<lparr>logical_live_bytes := logical_live_bytes m + payload key_index v\<rparr> in
        if (position + 1) mod batch_size = 0 \<and> position + 1 \<noteq> count_all
        then let (db, s) = Database_Flush fm db in
          if \<not> ok s then Some (False, db, vals, m)
          else fill_loop fm config batch_size count_all (position + 1) order (db, vals, m)
        else fill_loop fm config batch_size count_all (position + 1) order (db, vals, m))"

text \<open>Lookups of given keys, each of which has to give the expected kind of answer.\<close>

fun get_loop :: "(LookupResult \<Rightarrow> bool) \<Rightarrow> bytes list \<Rightarrow> Database \<Rightarrow> bool \<times> Database" where
  "get_loop good [] db = (True, db)"
| "get_loop good (key # keys) db =
     (let (db, _, res) = Database_Get key db in
      if good res then get_loop good keys db else (False, db))"

definition FillFixture :: "FloatMath \<Rightarrow> Randomness \<Rightarrow> Config \<Rightarrow> Load \<Rightarrow> (bool \<times> Load) option" where
  "FillFixture fm rnd config = (\<lambda>(db, vals, m).
     (let n = unat (cf_keys config);
          (order, used) = shuffle rnd (cf_seed config) [0..<n];
          batch_size = max 1 (n div 8) in
      case fill_loop fm config batch_size n 0 order (db, replicate n [], m) of
        None \<Rightarrow> None
      | Some (success, db, vals, m) \<Rightarrow>
        if \<not> success then Some (False, db, vals, m)
        else let (db, s) = Database_Flush fm db in
        if \<not> ok s then Some (False, db, vals, m)
        else let (db, s) = (if cf_compact config then Database_Compact fm db else (db, Ok)) in
        if \<not> ok s then Some (False, db, vals, m)
        else let
          warmup = min 1000 (unat (cf_operations config) div 10);
          keys = map (\<lambda>i. KeyFor (random_key config (draw rnd (cf_seed config) (used + i)))) [0..<warmup];
          (success, db) = get_loop (\<lambda>res. ok (lr_status res)) keys db
        in Some (success, db, vals, m)))"

definition SubtractStats :: "DatabaseReadStats \<Rightarrow> DatabaseReadStats \<Rightarrow> DatabaseReadStats" where
  "SubtractStats after before =
     \<lparr>point_lookups = point_lookups after - point_lookups before,
      mutable_hits = mutable_hits after - mutable_hits before,
      immutable_hits = immutable_hits after - immutable_hits before,
      ds_tables_considered = ds_tables_considered after - ds_tables_considered before,
      ds_range_rejections = ds_range_rejections after - ds_range_rejections before,
      ds_bloom_filter_checks = ds_bloom_filter_checks after - ds_bloom_filter_checks before,
      ds_bloom_filter_rejections = ds_bloom_filter_rejections after - ds_bloom_filter_rejections before,
      ds_bloom_false_positives = ds_bloom_false_positives after - ds_bloom_false_positives before,
      ds_data_blocks_read = ds_data_blocks_read after - ds_data_blocks_read before,
      ds_bytes_read = ds_bytes_read after - ds_bytes_read before\<rparr>"

definition RunReadWorkload :: "Randomness \<Rightarrow> Config \<Rightarrow> bool \<Rightarrow> Load \<Rightarrow> bool \<times> Load" where
  "RunReadWorkload rnd config missing = (\<lambda>(db, vals, m).
     (let before_stats = db_read_statistics db;
          keys = map (\<lambda>i. (if missing then MissingKeyFor else KeyFor)
            (random_key config (draw rnd (cf_seed config XOR 0x52454144) i))) [0..<unat (cf_operations config)];
          (success, db) = get_loop (\<lambda>res. if missing then IsNotFound (lr_status res) else ok (lr_status res)) keys db in
      (success, db, vals,
       if \<not> success then m
       else m\<lparr>m_operations := cf_operations config, m_reads := cf_operations config,
         read_stats := SubtractStats (db_read_statistics db) before_stats\<rparr>)))"

text \<open>
  The reader threads: \<open>schedule\<close> is the order in which they reach \<open>Get\<close>, which is atomic, and \<open>count\<close>
  says how many numbers each of them has drawn. A failed lookup does not stop them.
\<close>

fun parallel_loop :: "Randomness \<Rightarrow> Config \<Rightarrow> nat list \<Rightarrow> (nat \<Rightarrow> nat) \<Rightarrow> bool \<times> Database \<Rightarrow> bool \<times> Database" where
  "parallel_loop rnd config [] drawn (valid, db) = (valid, db)"
| "parallel_loop rnd config (thread # schedule) drawn (valid, db) =
     (let x = draw rnd (cf_seed config + word_of_nat thread) (drawn thread);
          (db, _, res) = Database_Get (KeyFor (random_key config x)) db in
      parallel_loop rnd config schedule (drawn(thread := drawn thread + 1)) (valid \<and> ok (lr_status res), db))"

definition RunParallelReadWorkload :: "Randomness \<Rightarrow> nat list \<Rightarrow> Config \<Rightarrow> Load \<Rightarrow> bool \<times> Load" where
  "RunParallelReadWorkload rnd schedule config = (\<lambda>(db, vals, m).
     (let before_stats = db_read_statistics db;
          (valid, db) = parallel_loop rnd config schedule (\<lambda>_. 0) (True, db) in
      (valid, db, vals, m\<lparr>m_operations := cf_operations config, m_reads := cf_operations config,
         read_stats := SubtractStats (db_read_statistics db) before_stats\<rparr>)))"

definition count_write :: "u64 \<Rightarrow> Metrics \<Rightarrow> Metrics" where
  "count_write n m = m\<lparr>logical_write_bytes := logical_write_bytes m + n,
     estimated_wal_bytes := estimated_wal_bytes m + (word_of_nat kWalHeaderSize + n)\<rparr>"

fun write_loop_bench :: "FloatMath \<Rightarrow> Config \<Rightarrow> nat list \<Rightarrow> Load \<Rightarrow> (bool \<times> Load) option" where
  "write_loop_bench fm config [] (db, vals, m) = Some (True, db, vals, m)"
| "write_loop_bench fm config (key_index # order) (db, vals, m) =
     (let v = ValueFor key_index 0 (unat (cf_value_size config)); vals = vals[key_index := v] in
      case Database_Put fm (KeyFor key_index) v (cf_sync_mode config) db of
        None \<Rightarrow> None
      | Some (db, s) \<Rightarrow>
        if \<not> ok s then Some (False, db, vals, m)
        else let n = payload key_index v;
            m = (count_write n m)\<lparr>logical_live_bytes := logical_live_bytes m + n\<rparr> in
          write_loop_bench fm config order (db, vals, m))"

definition RunWriteWorkload :: "FloatMath \<Rightarrow> Randomness \<Rightarrow> Config \<Rightarrow> bool \<Rightarrow> Load \<Rightarrow> (bool \<times> Load) option" where
  "RunWriteWorkload fm rnd config random_order = (\<lambda>(db, vals, m).
     (let n = unat (cf_operations config);
          order = (if random_order then fst (shuffle rnd (cf_seed config XOR 0x5752495445) [0..<n]) else [0..<n]) in
      case write_loop_bench fm config order (db, replicate n [], m) of
        None \<Rightarrow> None
      | Some (success, db, vals, m) \<Rightarrow>
        if \<not> success then Some (False, db, vals, m)
        else let (db, s) = Database_Flush fm db in
        if \<not> ok s then Some (False, db, vals, m)
        else Some (True, db, vals, m\<lparr>m_operations := cf_operations config, m_writes := cf_operations config\<rparr>)))"

text \<open>Two numbers are drawn for an operation: its key, and whether it reads.\<close>

fun mixed_loop :: "FloatMath \<Rightarrow> Config \<Rightarrow> nat \<Rightarrow> (u64 \<times> u64) list \<Rightarrow> nat \<Rightarrow> Load \<Rightarrow> (bool \<times> Load) option" where
  "mixed_loop fm config read_percentage [] operation (db, vals, m) = Some (True, db, vals, m)"
| "mixed_loop fm config read_percentage ((x, y) # draws) operation (db, vals, m) =
     (let key_index = random_key config x in
      if unat (y mod 100) < read_percentage
      then let (db, _, res) = Database_Get (KeyFor key_index) db in
        if \<not> ok (lr_status res) then Some (False, db, vals, m)
        else mixed_loop fm config read_percentage draws (operation + 1) (db, vals, m\<lparr>m_reads := m_reads m + 1\<rparr>)
      else let v = ValueFor key_index (operation + 1) (unat (cf_value_size config)); vals = vals[key_index := v] in
        case Database_Put fm (KeyFor key_index) v (cf_sync_mode config) db of
          None \<Rightarrow> None
        | Some (db, s) \<Rightarrow>
          if \<not> ok s then Some (False, db, vals, m)
          else let m = count_write (payload key_index v) m in
            mixed_loop fm config read_percentage draws (operation + 1) (db, vals, m\<lparr>m_writes := m_writes m + 1\<rparr>))"

definition RunMixedWorkload :: "FloatMath \<Rightarrow> Randomness \<Rightarrow> Config \<Rightarrow> nat \<Rightarrow> Load \<Rightarrow> (bool \<times> Load) option" where
  "RunMixedWorkload fm rnd config read_percentage = (\<lambda>(db, vals, m).
     (let seed = cf_seed config XOR word_of_nat read_percentage;
          before_stats = db_read_statistics db;
          draws = map (\<lambda>i. (draw rnd seed (2 * i), draw rnd seed (2 * i + 1))) [0..<unat (cf_operations config)] in
      case mixed_loop fm config read_percentage draws 0 (db, vals, m) of
        None \<Rightarrow> None
      | Some (success, db, vals, m) \<Rightarrow>
        if \<not> success then Some (False, db, vals, m)
        else let (db, s) = Database_Flush fm db in
        if \<not> ok s then Some (False, db, vals, m)
        else Some (True, db, vals, m\<lparr>m_operations := cf_operations config,
          read_stats := SubtractStats (db_read_statistics db) before_stats\<rparr>)))"

fun verify_loop :: "nat \<Rightarrow> bytes list \<Rightarrow> Database \<Rightarrow> bool \<times> Database" where
  "verify_loop index [] db = (True, db)"
| "verify_loop index (v # vals) db =
     (let (db, _, res) = Database_Get (KeyFor index) db in
      if \<not> ok (lr_status res) \<or> lr_value res \<noteq> v then (False, db) else verify_loop (index + 1) vals db)"

definition VerifyValues :: "Database \<Rightarrow> bytes list \<Rightarrow> bool \<times> Database" where
  "VerifyValues db vals = verify_loop 0 vals db"

text \<open>The files of the directory: name and size, for those whose kind and size can be read.\<close>

definition extension :: "string \<Rightarrow> string" where
  "extension name =
     (let rest = dropWhile (\<lambda>c. c \<noteq> CHR ''.'') (rev name); ext = takeWhile (\<lambda>c. c \<noteq> CHR ''.'') (rev name) in
      if rest = [] \<or> tl rest = [] \<or> name = ''..'' then [] else CHR ''.'' # rev ext)"

definition MeasureStorage :: "(string \<times> u64) list \<Rightarrow> Metrics \<Rightarrow> Metrics" where
  "MeasureStorage files m = foldl (\<lambda>m (name, n).
     if extension name = ''.sst'' then m\<lparr>sstable_bytes := sstable_bytes m + n, storage_bytes := storage_bytes m + n\<rparr>
     else if extension name = ''.wal'' \<or> name = kManifestFileName then m\<lparr>storage_bytes := storage_bytes m + n\<rparr>
     else m) m files"

definition Percentile :: "u64 list \<Rightarrow> nat \<Rightarrow> u64" where
  "Percentile vals percentage =
     (if vals = [] then 0
      else let vals = sort vals; rank = (length vals * percentage + 99) mod 2 ^ 64 div 100 in
        vals ! min (length vals - 1) (if rank = 0 then size_max else rank - 1))"

section \<open>A run\<close>

definition run_workload ::
  "FloatMath \<Rightarrow> Randomness \<Rightarrow> nat list \<Rightarrow> Config \<Rightarrow> Database \<Rightarrow> (bool \<times> Load) option" where
  "run_workload fm rnd schedule config db =
     (let w = workload config; start = (db, [], new_Metrics) in
      if w = ''sequential-write'' \<or> w = ''random-write''
      then RunWriteWorkload fm rnd config (w = ''random-write'') start
      else case FillFixture fm rnd config start of
        None \<Rightarrow> None
      | Some (success, load) \<Rightarrow>
        if success \<and> w = ''read-hit'' then Some (RunReadWorkload rnd config False load)
        else if success \<and> w = ''read-miss'' then Some (RunReadWorkload rnd config True load)
        else if success \<and> w = ''parallel-read'' then Some (RunParallelReadWorkload rnd schedule config load)
        else if success \<and> w = ''mixed-50'' then RunMixedWorkload fm rnd config 50 load
        else if success \<and> w = ''mixed-95'' then RunMixedWorkload fm rnd config 95 load
        else Some (success, load))"

text \<open>
  \<open>Run\<close> on an opened database: the exit code, the database and the metrics. \<open>files\<close> are the files
  of the directory after the workload.
\<close>

definition Run_opened ::
  "FloatMath \<Rightarrow> Randomness \<Rightarrow> nat list \<Rightarrow> (Database \<Rightarrow> (string \<times> u64) list) \<Rightarrow> Config \<Rightarrow> Database \<Rightarrow>
     (nat \<times> Database \<times> Metrics) option" where
  "Run_opened fm rnd schedule files config db =
     (case run_workload fm rnd schedule config db of
        None \<Rightarrow> None
      | Some (success, db, vals, m) \<Rightarrow>
        if \<not> success then Some (5, fst (Database_Close fm db), m)
        else let
          (good, db) = (if \<not> cf_verify config then (True, db) else VerifyValues db vals);
          m = MeasureStorage (files db) (m\<lparr>verified := good\<rparr>);
          (db, s) = Database_Close fm db
        in Some (if \<not> ok s then 6 else if \<not> verified m then 7 else 0, db, m))"

text \<open>
  The program: \<open>directory\<close> is the path of the scratch directory, when it could be created. The
  exit codes 3 and 4 stand for no directory and no database.
\<close>

definition benchmark_main ::
  "errors \<Rightarrow> FloatMath \<Rightarrow> OpenSystem \<Rightarrow> Randomness \<Rightarrow> nat list \<Rightarrow> (Database \<Rightarrow> (string \<times> u64) list) \<Rightarrow>
     string option \<Rightarrow> Env \<Rightarrow> string list \<Rightarrow> nat option" where
  "benchmark_main strerror fm sys rnd schedule files directory env arguments =
     (case ParseArguments arguments default_Config of
        Rejected msg \<Rightarrow> Some 2
      | UsagePrinted \<Rightarrow> Some 0
      | Accepted config \<Rightarrow>
        (case directory of
           None \<Rightarrow> Some 3
         | Some path \<Rightarrow>
           (case OpenDatabase strerror fm sys path config {} env of
              (None, _, _) \<Rightarrow> Some 4
            | (Some db, _, _) \<Rightarrow> map_option fst (Run_opened fm rnd schedule files config db))))"

end
