(* ===== verification/BenchmarkSpec.thy ===== *)
theory BenchmarkSpec
  imports Benchmark
begin

text \<open>
  The load generator as a client of the database: a workload that succeeds leaves every key with the
  value the program remembers for it, so that its verification can only fail when a table cannot be
  read.
\<close>

section \<open>Keys\<close>

lemma ascii_inject: "ascii s = ascii t \<longleftrightarrow> s = t"
proof -
  have "inj (\<lambda>c :: char. word_of_nat (of_char c) :: u8)"
  proof (rule injI)
    fix c d :: char
    assume "(word_of_nat (of_char c) :: u8) = word_of_nat (of_char d)"
    moreover have "unat (word_of_nat (of_char x) :: u8) = of_char x" for x :: char
      by (simp add: unsigned_of_nat take_bit_nat_eq_self)
    ultimately have "(of_char c :: nat) = of_char d"
      by metis
    then show "c = d"
      by simp
  qed
  then show ?thesis
    unfolding ascii_def by (rule inj_map_eq_map)
qed

lemma KeyFor_inject: "KeyFor i = KeyFor j \<longleftrightarrow> i = j"
proof
  assume "KeyFor i = KeyFor j"
  then have "replicate (12 - length (to_string i)) CHR ''0'' @ to_string i =
      replicate (12 - length (to_string j)) CHR ''0'' @ to_string j"
    by (simp add: KeyFor_def Let_def ascii_inject)
  then show "i = j"
    by (metis decimal_padded decimal_to_string)
qed simp

lemma KeyFor_size: "KeyFor i \<noteq> []" "i \<le> u64_max \<Longrightarrow> length (KeyFor i) \<le> 24"
proof -
  show "KeyFor i \<noteq> []"
    by (simp add: KeyFor_def Let_def ascii_def)
  show "length (KeyFor i) \<le> 24" if "i \<le> u64_max"
    using length_to_string [of 20 i] that by (simp add: KeyFor_def Let_def ascii_def)
qed

section \<open>What is stored\<close>

definition holds :: "Database \<Rightarrow> nat set \<Rightarrow> bytes list \<Rightarrow> Database \<Rightarrow> bool" where
  "holds db0 I vals db \<longleftrightarrow> db_inv db \<and> db_options db = db_options db0 \<and> db_state db = db_state db0 \<and>
     (\<forall>i \<in> I. i < length vals \<and> db_map db (KeyFor i) = Some (vals ! i))"

lemma holds_keeps: "holds db0 I vals db \<Longrightarrow> keeps db db' \<Longrightarrow> holds db0 I vals db'"
  by (simp add: holds_def keeps_def)

lemma holds_Get: "holds db0 I vals db \<Longrightarrow> Database_Get key db = (db', st, res) \<Longrightarrow> holds db0 I vals db'"
  using Database_Get_keeps holds_keeps by (metis holds_def)

lemma holds_Flush: "holds db0 I vals db \<Longrightarrow> Database_Flush fm db = (db', s) \<Longrightarrow> holds db0 I vals db'"
  using Database_Flush_keeps holds_keeps by (metis holds_def)

lemma holds_Compact: "holds db0 I vals db \<Longrightarrow> Database_Compact fm db = (db', s) \<Longrightarrow> holds db0 I vals db'"
  using Database_Compact_keeps holds_keeps by (metis holds_def)

lemma holds_Put:
  assumes "holds db0 I vals db" and fg: "\<not> background_maintenance (db_options db0)"
    and put: "Database_Put fm (KeyFor i) v mode db = Some (db', s)" and "ok s" and i: "i < length vals"
  shows "holds db0 (insert i I) (vals[i := v]) db'"
proof -
  have "write_result kValue (KeyFor i) v db (db', s)"
    using assms by (intro Database_Write_result) (simp_all add: holds_def Database_Put_def)
  then have "db_inv db'" "db_options db' = db_options db" "db_state db' = db_state db"
      "db_map db' = (db_map db)(KeyFor i \<mapsto> v)"
    using \<open>ok s\<close> by (simp_all add: write_result_def write_effect_def)
  then show ?thesis
    using assms(1) i by (auto simp: holds_def KeyFor_inject nth_list_update)
qed

lemmas holds_steps = holds_Get holds_Flush holds_Compact holds_Put

section \<open>The workloads\<close>

lemma fill_loop_holds:
  assumes fg: "\<not> background_maintenance (db_options db0)"
  shows "fill_loop fm config b n position order (db, vals, m) = Some (True, db', vals', m') \<Longrightarrow>
    holds db0 I vals db \<Longrightarrow> set order \<subseteq> {..<length vals} \<Longrightarrow>
    holds db0 (I \<union> set order) vals' db' \<and> length vals' = length vals"
proof (induction order arbitrary: position db vals m I)
  case (Cons i order)
  let ?v = "ValueFor i 0 (unat (cf_value_size config))"
  obtain db1 s1 where put: "Database_Put fm (KeyFor i) ?v kAsync db = Some (db1, s1)" "ok s1"
    using Cons.prems(1) by (auto simp: Let_def split: option.splits if_splits)
  have st: "holds db0 (insert i I) (vals[i := ?v]) db1"
    using Cons.prems(2,3) by (intro holds_Put [OF _ fg put]) auto
  obtain db2 s2 where fl: "Database_Flush fm db1 = (db2, s2)"
    by force
  note st2 = holds_Flush [OF st fl]
  have "\<exists>db3 position' m3. (db3 = db1 \<or> db3 = db2) \<and>
      fill_loop fm config b n position' order (db3, vals[i := ?v], m3) = Some (True, db', vals', m')"
    using Cons.prems(1) put fl by (auto simp: Let_def split: if_splits)
  then show ?case
    using Cons.IH [where I = "insert i I" and vals = "vals[i := ?v]"] st st2 Cons.prems(3) by auto
qed simp

lemma get_loop_holds: "get_loop good keys db = (b, db') \<Longrightarrow> holds db0 I vals db \<Longrightarrow> holds db0 I vals db'"
  by (induction keys arbitrary: db) (auto split: prod.splits if_splits dest: holds_Get)

lemma parallel_loop_holds:
  "parallel_loop rnd config schedule drawn (valid, db) = (b, db') \<Longrightarrow> holds db0 I vals db \<Longrightarrow> holds db0 I vals db'"
  by (induction schedule arbitrary: drawn valid db) (auto simp: Let_def split: prod.splits dest: holds_Get)

lemma write_loop_holds:
  assumes fg: "\<not> background_maintenance (db_options db0)"
  shows "write_loop_bench fm config order (db, vals, m) = Some (True, db', vals', m') \<Longrightarrow>
    holds db0 I vals db \<Longrightarrow> set order \<subseteq> {..<length vals} \<Longrightarrow>
    holds db0 (I \<union> set order) vals' db' \<and> length vals' = length vals"
proof (induction order arbitrary: db vals m I)
  case (Cons i order)
  let ?v = "ValueFor i 0 (unat (cf_value_size config))"
  obtain db1 s1 where put: "Database_Put fm (KeyFor i) ?v (cf_sync_mode config) db = Some (db1, s1)" "ok s1"
    using Cons.prems(1) by (auto simp: Let_def split: option.splits if_splits)
  have "holds db0 (insert i I) (vals[i := ?v]) db1"
    using Cons.prems(2,3) by (intro holds_Put [OF _ fg put]) auto
  then show ?case
    using Cons.IH [where I = "insert i I" and vals = "vals[i := ?v]"] Cons.prems(1,3) put
    by (auto simp: Let_def)
qed simp

lemma random_key_less: "cf_keys config \<noteq> 0 \<Longrightarrow> random_key config x < unat (cf_keys config)"
  using word_mod_less_divisor [OF word_gt_0 [THEN iffD2], of "cf_keys config" x]
  by (simp add: random_key_def word_less_nat_alt)

lemma mixed_loop_holds:
  assumes fg: "\<not> background_maintenance (db_options db0)" and "cf_keys config \<noteq> 0"
  shows "mixed_loop fm config p draws k (db, vals, m) = Some (True, db', vals', m') \<Longrightarrow>
    holds db0 {..<unat (cf_keys config)} vals db \<Longrightarrow> length vals = unat (cf_keys config) \<Longrightarrow>
    holds db0 {..<unat (cf_keys config)} vals' db' \<and> length vals' = unat (cf_keys config)"
proof (induction draws arbitrary: k db vals m)
  case (Cons xy draws)
  obtain x y where xy: "xy = (x, y)"
    by force
  let ?i = "random_key config x" let ?v = "ValueFor (random_key config x) (k + 1) (unat (cf_value_size config))"
  show ?case
  proof (cases "unat (y mod 100) < p")
    case True
    obtain db1 st res where get: "Database_Get (KeyFor ?i) db = (db1, st, res)"
      by (metis prod_cases3)
    then show ?thesis
      using Cons.IH [of "k + 1" db1 vals] Cons.prems xy True holds_Get [OF Cons.prems(2) get]
      by (auto split: if_splits)
  next
    case False
    obtain db1 s1 where put: "Database_Put fm (KeyFor ?i) ?v (cf_sync_mode config) db = Some (db1, s1)" "ok s1"
      using Cons.prems(1) xy False by (auto simp: Let_def split: option.splits if_splits)
    have i: "?i < length vals"
      using random_key_less [OF assms(2)] Cons.prems(3) by simp
    then have "insert ?i {..<unat (cf_keys config)} = {..<unat (cf_keys config)}"
      using Cons.prems(3) by auto
    then have "holds db0 {..<unat (cf_keys config)} (vals[?i := ?v]) db1"
      using holds_Put [OF Cons.prems(2) fg put i] by simp
    then show ?thesis
      using Cons.IH [of "k + 1" db1 "vals[?i := ?v]"] Cons.prems(1,3) put xy False by (auto simp: Let_def)
  qed
qed simp

section \<open>A whole run\<close>

text \<open>\<open>std::shuffle\<close> permutes.\<close>

definition fair :: "Randomness \<Rightarrow> bool" where
  "fair rnd \<longleftrightarrow> (\<forall>seed xs. mset (fst (shuffle rnd seed xs)) = mset xs)"

lemma fair_set: "fair rnd \<Longrightarrow> set (fst (shuffle rnd seed xs)) = set xs"
  by (metis fair_def mset_eq_setD)

lemma holds_start: "db_inv db \<Longrightarrow> holds db {} vals db"
  by (simp add: holds_def)

lemma FillFixture_holds:
  assumes fg: "\<not> background_maintenance (db_options db)" and inv: "db_inv db" and fair: "fair rnd"
    and run: "FillFixture fm rnd config (db, vals0, m) = Some (True, db', vals, m')"
  shows "holds db {..<unat (cf_keys config)} vals db' \<and> length vals = unat (cf_keys config)"
proof -
  let ?n = "unat (cf_keys config)"
  obtain order used where sh: "shuffle rnd (cf_seed config) [0..<?n] = (order, used)"
    by force
  have order: "set order = {..<?n}"
    using fair_set [OF fair, of "cf_seed config" "[0..<?n]"] by (simp only: sh fst_conv set_upt atLeast0LessThan)
  obtain db1 vals1 m1 where fill: "fill_loop fm config (max 1 (?n div 8)) ?n 0 order (db, replicate ?n [], m) = Some (True, db1, vals1, m1)"
    using run sh by (auto simp: FillFixture_def Let_def split: option.splits if_splits)
  have 1: "holds db {..<?n} vals1 db1" "length vals1 = ?n"
    using fill_loop_holds [OF fg fill holds_start [OF inv]] order by auto
  obtain db2 s2 where 2: "Database_Flush fm db1 = (db2, s2)"
    by force
  obtain db3 s3 where 3: "(if cf_compact config then Database_Compact fm db2 else (db2, Ok)) = (db3, s3)"
    by force
  have h3: "holds db {..<?n} vals1 db3"
    using 3 holds_Flush [OF 1(1) 2] holds_Compact by (auto split: if_splits)
  define keys where "keys = map (\<lambda>i. KeyFor (random_key config (draw rnd (cf_seed config) (used + i))))
      [0..<min 1000 (unat (cf_operations config) div 10)]"
  obtain good db4 where 4: "get_loop (\<lambda>res. ok (lr_status res)) keys db3 = (good, db4)"
    by force
  have "db' = db4 \<and> vals = vals1"
    using run unfolding FillFixture_def prod.case sh Let_def fill option.case 2 3 keys_def [symmetric] 4
    by (simp split: if_splits)
  then show ?thesis
    using get_loop_holds [OF 4 h3] 1(2) by simp
qed

lemma RunWriteWorkload_holds:
  assumes fg: "\<not> background_maintenance (db_options db)" and inv: "db_inv db" and fair: "fair rnd"
    and run: "RunWriteWorkload fm rnd config b (db, vals0, m) = Some (True, db', vals, m')"
  shows "holds db {..<length vals} vals db' \<and> length vals = unat (cf_operations config)"
proof -
  let ?n = "unat (cf_operations config)"
  define order where "order = (if b then fst (shuffle rnd (cf_seed config XOR 0x5752495445) [0..<?n]) else [0..<?n])"
  have order: "set order = {..<?n}"
    using fair_set [OF fair, of _ "[0..<?n]"] by (auto simp: order_def)
  obtain db1 vals1 m1 where loop: "write_loop_bench fm config order (db, replicate ?n [], m) = Some (True, db1, vals1, m1)"
    using run by (auto simp: RunWriteWorkload_def Let_def order_def split: option.splits if_splits)
  have 1: "holds db {..<?n} vals1 db1" "length vals1 = ?n"
    using write_loop_holds [OF fg loop holds_start [OF inv]] order by auto
  obtain db2 s2 where 2: "Database_Flush fm db1 = (db2, s2)"
    by force
  have "db' = db2 \<and> vals = vals1"
    using run loop 2 unfolding RunWriteWorkload_def Let_def prod.case order_def by (auto split: if_splits)
  then show ?thesis
    using holds_Flush [OF 1(1) 2] 1(2) by simp
qed

lemma RunMixedWorkload_holds:
  assumes fg: "\<not> background_maintenance (db_options db0)" and keys: "cf_keys config \<noteq> 0"
    and st: "holds db0 {..<unat (cf_keys config)} vals0 db" "length vals0 = unat (cf_keys config)"
    and run: "RunMixedWorkload fm rnd config p (db, vals0, m) = Some (True, db', vals, m')"
  shows "holds db0 {..<length vals} vals db' \<and> length vals = unat (cf_keys config)"
proof -
  define draws where "draws = (let seed = cf_seed config XOR word_of_nat p in
      map (\<lambda>i. (draw rnd seed (2 * i), draw rnd seed (2 * i + 1))) [0..<unat (cf_operations config)])"
  obtain db1 vals1 m1 where loop: "mixed_loop fm config p draws 0 (db, vals0, m) = Some (True, db1, vals1, m1)"
    using run by (auto simp: RunMixedWorkload_def Let_def draws_def split: option.splits if_splits prod.splits)
  note 1 = mixed_loop_holds [OF fg keys loop st]
  obtain db2 s2 where 2: "Database_Flush fm db1 = (db2, s2)"
    by force
  have "db' = db2 \<and> vals = vals1"
    using run loop 2 by (auto simp: RunMixedWorkload_def Let_def draws_def split: if_splits)
  then show ?thesis
    using holds_Flush [OF _ 2] 1 by auto
qed

lemma run_workload_holds:
  assumes fg: "\<not> background_maintenance (db_options db)" and inv: "db_inv db" and fair: "fair rnd"
    and config: "check_config config = Accepted config"
    and run: "run_workload fm rnd schedule config db = Some (True, db', vals, m)"
  shows "holds db {..<length vals} vals db' \<and> length vals \<le> u64_max"
proof -
  let ?w = "workload config"
  show ?thesis
  proof (cases "?w = ''sequential-write'' \<or> ?w = ''random-write''")
    case True
    then have "RunWriteWorkload fm rnd config (?w = ''random-write'') (db, [], new_Metrics) = Some (True, db', vals, m)"
      using run by (simp add: run_workload_def Let_def)
    then show ?thesis
      using RunWriteWorkload_holds [OF fg inv fair] unat_lt_u64 by metis
  next
    case False
    obtain ok1 db1 vals1 m1 where fill: "FillFixture fm rnd config (db, [], new_Metrics) = Some (ok1, db1, vals1, m1)"
      using run False by (auto simp: run_workload_def Let_def split: option.splits)
    have known: "IsKnownWorkload ?w" and keys: "cf_keys config \<noteq> 0"
      using config by (auto simp: check_config_def split: if_splits)
    have ok1: "ok1"
      using run False fill known by (cases ok1) (simp_all add: run_workload_def Let_def)
    then have h: "holds db {..<unat (cf_keys config)} vals1 db1" "length vals1 = unat (cf_keys config)"
      using FillFixture_holds [OF fg inv fair, of fm config "[]" new_Metrics db1 vals1 m1] fill by simp_all
    have w: "?w \<noteq> ''sequential-write''" "?w \<noteq> ''random-write''"
      using False by auto
    consider (hit) miss where "RunReadWorkload rnd config miss (db1, vals1, m1) = (True, db', vals, m)"
      | (par) "RunParallelReadWorkload rnd schedule config (db1, vals1, m1) = (True, db', vals, m)"
      | (mixed) k where "RunMixedWorkload fm rnd config k (db1, vals1, m1) = Some (True, db', vals, m)"
      using run known ok1 w fill unfolding IsKnownWorkload_def run_workload_def Let_def by auto
    then show ?thesis
    proof cases
      case hit
      then show ?thesis
        using get_loop_holds [OF _ h(1)] h(2) unat_lt_u64 [of "cf_keys config"] by (auto simp: RunReadWorkload_def Let_def split: prod.splits)
    next
      case par
      then show ?thesis
        using parallel_loop_holds [OF _ h(1)] h(2) unat_lt_u64 [of "cf_keys config"] by (auto simp: RunParallelReadWorkload_def Let_def split: prod.splits)
    next
      case mixed
      then show ?thesis
        using RunMixedWorkload_holds [OF fg keys h] unat_lt_u64 by metis
    qed
  qed
qed

section \<open>Verification\<close>

definition readable :: "Database \<Rightarrow> bool" where
  "readable db \<longleftrightarrow> (\<forall>t \<in> set (db_tables db). benign_file (rd_file t))"

lemma get_tables_benign:
  assumes "key \<noteq> []"
  shows "get_tables key ts best op = (ts', op', r) \<Longrightarrow>
    \<forall>t \<in> set ts. reader_sound t \<and> benign_file (rd_file t) \<and> length key \<le> max_key_size (rd_options t) \<Longrightarrow>
    \<forall>t \<in> set ts'. benign_file (rd_file t)"
proof (induction ts arbitrary: best op ts' op' r)
  case (Cons t ts)
  obtain t1 st res where get: "SSTableReader_Get t key = (t1, st, res)"
    by (metis prod_cases3)
  have t1: "benign_file (rd_file t1)"
    using Get_sound(3) [OF _ assms _ get] Cons.prems(2) by simp
  define op1 where "op1 = AccumulateTableStats st op"
  define best1 where "best1 = (if ok (lr_status res) \<and> (\<not> ok (lr_status best) \<or> lr_sequence res > lr_sequence best) then res else best)"
  obtain ts1 op2 r1 where rest: "get_tables key ts best1 op1 = (ts1, op2, r1)"
    by (metis prod_cases3)
  have "ts' = t1 # ts \<or> ts' = t1 # ts1"
    using Cons.prems(1) unfolding get_tables.simps get Let_def prod.case op1_def [symmetric] best1_def [symmetric] rest
    by (auto split: if_splits)
  then show ?case
    using Cons.IH [OF rest] Cons.prems(2) t1 by auto
qed simp

lemma Database_Get_readable:
  assumes inv: "db_inv db" and key: "key \<noteq> []" "length key \<le> max_key_size (db_options db)"
    and run: "Database_Get key db = (db', st, res)" and "readable db"
  shows "readable db'"
proof -
  have finish: "db_tables db' = db_tables db1" if "FinishRead r o1 db1 = (db', st, res)" for r o1 db1
    using that by (auto simp: FinishRead_def)
  have tables: "readable db'" if l: "tables_lookup key o1 db = (db', st, res)" for o1
  proof -
    obtain ts o2 r where g: "get_tables key (rev (db_tables db)) (no_result (NotFound ''key does not exist'')) o1 = (ts, o2, r)"
      by (metis prod_cases3)
    have "\<forall>t \<in> set ts. benign_file (rd_file t)"
      using get_tables_benign [OF key(1) g] inv assms(5) key(2)
      by (auto simp: readable_def db_inv_def layers_inv_def table_ok_def)
    moreover have "\<exists>r' o'. FinishRead r' o' (db\<lparr>db_tables := rev ts\<rparr>) = (db', st, res)"
      using l [unfolded tables_lookup_def g Let_def prod.case] by (auto split: sum.splits if_splits)
    ultimately show ?thesis
      using finish by (auto simp: readable_def)
  qed
  show ?thesis
    using run finish tables assms(5)
    by (auto simp: Database_Get_def Let_def readable_def split: if_splits option.splits)
qed

lemma verify_loop_succeeds:
  "db_inv db \<Longrightarrow> IsRunningLocked db \<Longrightarrow> readable db \<Longrightarrow> 24 \<le> max_key_size (db_options db) \<Longrightarrow>
    index + length vs \<le> u64_max \<Longrightarrow> \<forall>j < length vs. db_map db (KeyFor (index + j)) = Some (vs ! j) \<Longrightarrow>
    fst (verify_loop index vs db)"
proof (induction vs arbitrary: index db)
  case (Cons v vs)
  obtain db1 st res where get: "Database_Get (KeyFor index) db = (db1, st, res)"
    by (metis prod_cases3)
  have key: "KeyFor index \<noteq> []" "length (KeyFor index) \<le> max_key_size (db_options db)"
    using KeyFor_size [of index] Cons.prems(4,5) by auto
  have v: "db_map db (KeyFor index) = Some v"
    using Cons.prems(6) by fastforce
  then have "ok (lr_status res) \<and> lr_value res = v"
    using Database_Get_explained [OF Cons.prems(1) get] key Cons.prems(2,3)
    by (auto simp: shows_value_def lookup_trouble_def readable_def)
  moreover have "fst (verify_loop (index + 1) vs db1)"
  proof (rule Cons.IH)
    note k = Database_Get_keeps [OF Cons.prems(1) get, unfolded keeps_def]
    show "db_inv db1" "IsRunningLocked db1" "24 \<le> max_key_size (db_options db1)"
      using k Cons.prems(2,4) by (simp_all add: IsRunningLocked_def)
    show "readable db1"
      by (rule Database_Get_readable [OF Cons.prems(1) key get Cons.prems(3)])
    show "index + 1 + length vs \<le> u64_max"
      using Cons.prems(5) by simp
    show "\<forall>j < length vs. db_map db1 (KeyFor (index + 1 + j)) = Some (vs ! j)"
      using k Cons.prems(6) by fastforce
  qed
  ultimately show ?case
    using get by simp
qed simp

lemma MeasureStorage_verified: "verified (MeasureStorage fs m) = verified m"
proof -
  have "verified (if P then m\<lparr>sstable_bytes := a, storage_bytes := b\<rparr> else if Q then m\<lparr>storage_bytes := c\<rparr> else m) = verified m"
    for P Q a b c m
    by simp
  note step = this
  show ?thesis
    unfolding MeasureStorage_def
    by (induction fs arbitrary: m) (simp_all only: foldl.simps split_beta step)
qed

text \<open>
  The load generator and the database agree. On a database that satisfies the invariant, when a
  workload with accepted arguments succeeds and the files of the tables can be read, the final
  verification finds every expected value, so that the run ends with code 0, or 6 when closing fails.
\<close>

theorem Benchmark_verifies:
  assumes "check_config config = Accepted config" and "fair rnd" and "db_inv db"
    and "\<not> background_maintenance (db_options db)" and "IsRunningLocked db" and "24 \<le> max_key_size (db_options db)"
    and run: "run_workload fm rnd schedule config db = Some (True, db', vals, m)" and "readable db'"
  shows "fst (VerifyValues db' vals)"
    and "map_option fst (Run_opened fm rnd schedule files config db) \<in> {Some 0, Some 6}"
proof -
  have h: "holds db {..<length vals} vals db'" "length vals \<le> u64_max"
    using run_workload_holds [OF assms(4,3,2,1) run] by simp_all
  then show verify: "fst (VerifyValues db' vals)"
    unfolding VerifyValues_def using assms(5,6,8)
    by (intro verify_loop_succeeds) (simp_all add: holds_def IsRunningLocked_def)
  note keeps = MeasureStorage_verified
  obtain good db1 where good: "(if \<not> cf_verify config then (True, db') else VerifyValues db' vals) = (good, db1)"
    by force
  then have "good"
    using verify by (auto split: if_splits)
  obtain db2 s where close: "Database_Close fm db1 = (db2, s)"
    by force
  show "map_option fst (Run_opened fm rnd schedule files config db) \<in> {Some 0, Some 6}"
    unfolding Run_opened_def run option.case prod.case good Let_def close using \<open>good\<close> by (simp add: keeps)
qed

section \<open>Percentiles\<close>

lemma sorted_ranks:
  fixes xs :: "'a::linorder list"
  assumes "sorted xs" and "i < length xs"
  shows "i < length (filter (\<lambda>x. x \<le> xs ! i) xs)" and "length (filter (\<lambda>x. x < xs ! i) xs) \<le> i"
proof -
  have split: "xs = take (Suc i) xs @ drop (Suc i) xs"
    by simp
  have "filter (\<lambda>x. x \<le> xs ! i) (take (Suc i) xs) = take (Suc i) xs"
    using assms by (auto simp: filter_id_conv in_set_conv_nth sorted_nth_mono)
  then have "length (filter (\<lambda>x. x \<le> xs ! i) xs) \<ge> length (take (Suc i) xs)"
    by (subst split) (simp del: append_take_drop_id)
  then show "i < length (filter (\<lambda>x. x \<le> xs ! i) xs)"
    using assms(2) by simp
  have "filter (\<lambda>x. x < xs ! i) (drop i xs) = []"
    using assms by (auto simp: filter_empty_conv in_set_conv_nth not_less sorted_nth_mono)
  then have "filter (\<lambda>x. x < xs ! i) xs = filter (\<lambda>x. x < xs ! i) (take i xs)"
    by (metis append_Nil2 append_take_drop_id filter_append)
  then show "length (filter (\<lambda>x. x < xs ! i) xs) \<le> i"
    using length_filter_le [of "\<lambda>x. x < xs ! i" "take i xs"] by simp
qed

lemma length_filter_sort: "length (filter P (sort xs)) = length (filter P xs)"
  by (metis mset_filter mset_sort size_mset)

text \<open>
  C38. \<open>Percentile\<close> gives the nearest rank: one of the measured values, such that at least the given
  percentage of the values are not larger and less than that percentage are smaller.
\<close>

theorem Percentile_nearest_rank:
  assumes "xs \<noteq> []" and "0 < p" and "p \<le> 100" and "100 * length xs + 99 \<le> size_max"
  shows "Percentile xs p \<in> set xs \<and>
    p * length xs \<le> 100 * length (filter (\<lambda>x. x \<le> Percentile xs p) xs) \<and>
    100 * length (filter (\<lambda>x. x < Percentile xs p) xs) < p * length xs"
proof -
  let ?n = "length xs" and ?rank = "(length xs * p + 99) div 100" and ?xs = "sort xs"
  have n: "0 < ?n"
    using assms(1) by simp
  have "0 < (q + 99) div 100" "(q + 99) div 100 \<le> n" "q \<le> 100 * ((q + 99) div 100)" "100 * ((q + 99) div 100 - 1) < q"
    if "0 < q" "q \<le> n * 100" for q n :: nat
    using that by linarith+
  from this [of "?n * p" ?n] have rank: "0 < ?rank" "?rank \<le> ?n" "p * ?n \<le> 100 * ?rank" "100 * (?rank - 1) < p * ?n"
    using n assms(2,3) by (simp_all add: mult.commute [of p])
  have "?n * p + 99 \<le> size_max"
  proof -
    have "?n * p \<le> ?n * 100"
      by (rule mult_le_mono2 [OF assms(3)])
    then show ?thesis
      using assms(4) by linarith
  qed
  then have "(?n * p + 99) mod 2 ^ 64 = ?n * p + 99"
    by simp
  then have P: "Percentile xs p = ?xs ! (?rank - 1)"
    using assms(1) rank(1) min_absorb2 [of "?rank - 1" "?n - 1"] rank(2) by (simp add: Percentile_def Let_def)
  have i: "?rank - 1 < length ?xs"
    using rank(1,2) by simp
  note r = sorted_ranks [OF sorted_sort i, folded P, unfolded length_filter_sort]
  have "Percentile xs p \<in> set xs"
    using nth_mem [OF i] P by simp
  moreover have "p * ?n \<le> 100 * length (filter (\<lambda>x. x \<le> Percentile xs p) xs)"
    using rank(1,3) r(1) by linarith
  moreover have "100 * length (filter (\<lambda>x. x < Percentile xs p) xs) < p * ?n"
    using rank(4) r(2) by linarith
  ultimately show ?thesis
    by blast
qed

theorem Percentile_nearest_rank_witness:
  "Percentile [30, 10, 20, 40] 50 = 20 \<and> Percentile [30, 10, 20, 40] 50 \<in> set [30, 10, 20, 40] \<and>
    100 * length (filter (\<lambda>x. x < Percentile [30, 10, 20, 40] 50) [30, 10, 20, 40]) < 50 * 4"
  using Percentile_nearest_rank [of "[30, 10, 20, 40]" 50] by (simp add: Percentile_def Let_def)

end
