(* ===== verification/Spec2Isabelle.thy ===== *)
theory Spec2Isabelle
  imports BenchmarkSpec
begin

text \<open>
  \<^bold>\<open>MiniKV\<close>: a verification library for the storage engine under \<^verbatim>\<open>src/\<close>.

  The program is a log-structured key-value store. A write is appended to a write-ahead log and
  applied to a MemTable; a full MemTable is frozen and flushed to an immutable SSTable; a manifest
  names the live tables; compaction merges tables; lookups and scans read the MemTables and the
  tables together; opening a directory loads the manifest and its tables and replays the logs.

  \<^bold>\<open>Theories, in the order of their dependence\<close>

  \<^item> \<open>Prelude\<close>: machine integers, byte strings with the order of \<open>std::string\<close>, shared lemmas.
    \<open>Status\<close> (\<^verbatim>\<open>status.cpp\<close>): status codes and the result type. \<open>Coding\<close> (\<^verbatim>\<open>coding.cpp\<close>):
    little-endian integers and CRC32C. \<open>Options\<close> (\<^verbatim>\<open>options.hpp\<close>).
  \<^item> \<open>MemTable\<close> (\<^verbatim>\<open>memtable.cpp\<close>): the ordered table of newest versions.
  \<^item> \<open>FileIO\<close> (\<^verbatim>\<open>file.cpp\<close>): the abstract files, \<open>WriteAll\<close> and \<open>ReadAllAt\<close>. \<open>Posix\<close>: the POSIX
    classes of \<^verbatim>\<open>file.cpp\<close>, proved to refine the abstract files, and \<^verbatim>\<open>database_lock.cpp\<close>.
  \<^item> \<open>Wal\<close> (\<^verbatim>\<open>wal.cpp\<close>): record codec and log writer. \<open>Recovery\<close> (\<^verbatim>\<open>recovery.cpp\<close>): replaying a log.
    \<open>WritePath\<close> (\<^verbatim>\<open>write_path.cpp\<close>): log and MemTable together, with crashes.
  \<^item> \<open>BloomFilter\<close> (\<^verbatim>\<open>bloom_filter.cpp\<close>). \<open>TableFormat\<close>, \<open>TableBuilder\<close>, \<open>TableReader\<close>,
    \<open>TableRoundtrip\<close>, \<open>TableIterator\<close> (\<^verbatim>\<open>table.cpp\<close>): the SSTable format, the encoder, the checks of
    \<open>Open\<close> and point lookups, what encoder and reader have in common, range iterators.
  \<^item> \<open>Environment\<close> and \<open>Flush\<close> (\<^verbatim>\<open>flush.cpp\<close>): the directory with its crash semantics, the
    publication protocol, and \<open>PublishTable\<close>. \<open>Manifest\<close> (\<^verbatim>\<open>manifest.cpp\<close>): versions and edits, the
    manifest file.
  \<^item> \<open>Merge\<close>, \<open>Compaction\<close>, \<open>CompactionOutputs\<close>, \<open>CompactionPublish\<close> (\<^verbatim>\<open>compaction.cpp\<close>): the merge
    round, the merge loop, its outputs, their publication.
  \<^item> \<open>Database\<close>, \<open>DatabaseWrite\<close>, \<open>DatabaseOpen\<close> (\<^verbatim>\<open>database.cpp\<close>): the state and lookups; writes,
    flush, compaction, close and the background thread; opening. \<open>ScanToken\<close>, \<open>Scan\<close>, \<open>ScanPages\<close>
    (\<^verbatim>\<open>scan.cpp\<close>): continuation tokens, scans, and what their pages hold.
  \<^item> \<open>Failures\<close>, \<open>DatabaseEnv\<close>, \<open>DatabaseView\<close>, \<open>DatabaseInv\<close>, \<open>DatabaseCompact\<close>, \<open>DatabaseRun\<close>,
    \<open>DatabaseSpec\<close>, \<open>DatabaseReopen\<close>, \<open>DirectoryListing\<close>, \<open>Restart\<close>, \<open>OpenSafety\<close>: the correctness of the database as a whole: error results are
    errors, the frame of the directory operations, the abstract map, the invariant, that every stage
    of flush and compaction keeps both, runs of operations; what a directory listing yields, what
    opening establishes and restores, and which files it leaves alone.
  \<^item> \<open>SSTableDump\<close> (\<^verbatim>\<open>tools/sstable_dump.cpp\<close>), \<open>Benchmark\<close> and \<open>BenchmarkSpec\<close>
    (\<^verbatim>\<open>bench/benchmark.cpp\<close>): the command-line programs as clients of the library; a workload that
    succeeds passes its own verification.

  \<^bold>\<open>Interfaces\<close>. What one component relies on in another is a locale, interpreted on the model's
  definitions: \<open>fixed_codec\<close>, \<open>frame_codec\<close> and \<open>record_codec\<close> (integers, manifest records, log
  records), \<open>byte_error_detecting\<close> (CRC32C), \<open>ordered_map\<close> and \<open>versioned_store\<close> (MemTable),
  \<open>log_device\<close> (files), \<open>file_refinement\<close> (POSIX files), \<open>membership_filter\<close> (Bloom filter),
  \<open>priority_queue\<close> (merge heap), \<open>record_cursor\<close> (table iterators and scan sources).

  \<^bold>\<open>How the code is translated\<close>

  \<^item> A function that reports a \<open>Status\<close> and fills an output parameter returns a sum: \<open>Inl\<close> the status
    that is not OK, \<open>Inr\<close> the output. Output pointers and the tests for null pointers are left out.
  \<^item> Integers of fixed width are words where the code computes with them; sizes and positions are
    naturals where no operation can wrap, with every comparison against a limit written out.
    \<open>std::size_t\<close> has 64 bits.
  \<^item> Files and directories carry finite scripts of the outcomes of the calls to come (errors,
    interruptions, short transfers, wrong counts); an exhausted script means success. Every
    theorem holds for all scripts unless it says otherwise. Loops over such calls terminate because
    a script is finite; endless interruption is not represented. No definition uses fuel: all loops
    have a termination proof or recurse on a list.
  \<^item> A crash keeps of a file at least what was synced, and of a directory entry the state at the last
    directory sync or the present one, for every entry independently.
  \<^item> The two floating-point expressions of the Bloom filter's sizing are a parameter (\<open>FloatMath\<close>),
    as are the answers of the operating system in \<open>Posix\<close> and \<open>DatabaseOpen\<close>.
  \<^item> \<open>std::upper_bound\<close> and \<open>std::lower_bound\<close> are partition points; \<open>std::priority_queue\<close> yields an
    element that none precedes; \<open>std::map\<close> is an association list in key order.
  \<^item> An operation of the database holds its lock for its whole duration and is one step. The
    background thread publishes a table with the lock released, so it is two steps. A scan works on
    copies of the readers. A write that has to wait for the background thread returns \<open>None\<close>.

  \<^bold>\<open>What is shown\<close>. For the formats: encoders and decoders are inverse to each other, and one changed
  byte is always detected. For log and recovery: after a crash, recovery restores a prefix of the
  acknowledged writes with all synced ones, reports damage, and is idempotent. For publication:
  whatever fails, a name holds its old or its complete new content. For tables, compaction and
  scans: they hold and return exactly the newest versions. For the database: every run of operations
  with any faults is explained by the abstract map; scans list that map; a successful open
  establishes the invariant these results rest on, exactly when the manifest lists the tables in
  order and they hold no version twice, which opening does not check; opening a directory in good
  order succeeds and restores its contents; opening one without a manifest initialises it; and
  while a directory with a listed, decodable manifest is opened, no failure other than that of
  starting the background thread changes the files of the version.

  \<^bold>\<open>Not modelled\<close>: the getters that copy a member of \<open>Database\<close>, the mutexes and condition
  variables, the measured durations of compactions and of the benchmark with the report printed from
  them, and \<^verbatim>\<open>version.hpp\<close> (constants without behaviour). The invariant and the refinement theorem are for databases without the background
  thread: with it, a failed foreground compaction lets writes go on while the compaction is pending,
  which breaks the invariant (see the findings of the manifest).

  \<^bold>\<open>Small differences\<close>: closing a database does not name the lock that the destructor of the lock
  object releases (\<open>DatabaseLock_Release\<close> is used where opening fails); the background thread's test
  that the MemTable it flushed is still the frozen one compares generation numbers, which are unique,
  in place of pointers; creating a temporary file over an existing one binds the name to a new file
  in place of truncating the old one; the readers that a compaction copies keep the scripts of their
  reads, so that a retry meets the same outcomes; a log record has one of the two kinds by its type,
  so that the test for an unknown kind is in the decoder only.
\<close>

end
